(* ===== verification/Prelude.thy ===== *)
theory Prelude
  imports Main "HOL-Library.Word" "HOL-Library.Monad_Syntax"
begin

unbundle bit_operations_syntax

text \<open>
  What every other theory shares: the machine types of the Go program, the functions of Go's
  package \<open>math/bits\<close> that the program calls, and the generic lemmas about words, lists and
  the option monad on which the component proofs rest.

  Conventions. A Go panic is \<open>None\<close> of an option type, so a function that cannot panic has no
  option in its type. A Go \<open>error\<close> is \<open>Inl\<close> of a sum type. \<open>uint64\<close> is a 64-bit word, so every
  operator wraps as it does in Go; \<open>push_bit\<close> and \<open>drop_bit\<close> are Go's shifts, which give 0 for
  shift counts of 64 and more.
\<close>

section \<open>Machine types and collections of hints\<close>

type_synonym byte = "8 word"
type_synonym u64 = "64 word"

named_theorems bits_simps \<open>unat equations of the functions of math/bits\<close>
named_theorems wire_defs \<open>definitions of encoders\<close>

section \<open>Package math/bits\<close>

text \<open>\<open>bits.Add64\<close>, \<open>bits.Sub64\<close>: the carry (borrow) input is 0 or 1.\<close>

definition bits_Add64 :: "u64 \<Rightarrow> u64 \<Rightarrow> u64 \<Rightarrow> u64 \<times> u64" where
  "bits_Add64 x y carry =
     (x + y + carry, if 2 ^ 64 \<le> unat x + unat y + unat carry then 1 else 0)"

definition bits_Sub64 :: "u64 \<Rightarrow> u64 \<Rightarrow> u64 \<Rightarrow> u64 \<times> u64" where
  "bits_Sub64 x y borrow =
     (x - y - borrow, if unat x < unat y + unat borrow then 1 else 0)"

text \<open>\<open>bits.Mul64\<close> gives the 128-bit product as (high, low).\<close>

definition bits_Mul64 :: "u64 \<Rightarrow> u64 \<Rightarrow> u64 \<times> u64" where
  "bits_Mul64 x y = (word_of_nat (unat x * unat y div 2 ^ 64), x * y)"

text \<open>\<open>bits.Div64\<close> divides the 128-bit (hi, lo) by y; it panics for y = 0 and on overflow.\<close>

definition bits_Div64 :: "u64 \<Rightarrow> u64 \<Rightarrow> u64 \<Rightarrow> (u64 \<times> u64) option" where
  "bits_Div64 hi lo y =
     (if y = 0 \<or> y \<le> hi then None
      else let n = unat hi * 2 ^ 64 + unat lo
           in Some (word_of_nat (n div unat y), word_of_nat (n mod unat y)))"

text \<open>The number of bits of a natural number; \<open>bits.Len64\<close> and \<open>bits.LeadingZeros64\<close>.\<close>

fun bit_len :: "nat \<Rightarrow> nat" where
  "bit_len n = (if n = 0 then 0 else Suc (bit_len (n div 2)))"

declare bit_len.simps [simp del]

definition bits_Len64 :: "u64 \<Rightarrow> nat" where
  "bits_Len64 x = bit_len (unat x)"

definition bits_LeadingZeros64 :: "u64 \<Rightarrow> nat" where
  "bits_LeadingZeros64 x = 64 - bits_Len64 x"

text \<open>\<open>bits.TrailingZeros64\<close>: 64 for 0.\<close>

fun trailing_zeros :: "nat \<Rightarrow> nat" where
  "trailing_zeros n = (if n = 0 \<or> odd n then 0 else Suc (trailing_zeros (n div 2)))"

declare trailing_zeros.simps [simp del]

definition bits_TrailingZeros64 :: "u64 \<Rightarrow> nat" where
  "bits_TrailingZeros64 x = (if x = 0 then 64 else trailing_zeros (unat x))"

section \<open>Facts about math/bits\<close>

lemma unat64_lt: "unat (x::u64) < 2 ^ 64"
  using unsigned_less [of x] by simp

lemma unat_of_nat64: "n < 2 ^ 64 \<Longrightarrow> unat (word_of_nat n :: u64) = n"
  by (simp add: unat_of_nat take_bit_nat_eq_self)

lemma unat_of_bit [simp]: "unat (if b then 1 else 0 :: u64) = (if b then 1 else 0)"
  by simp

lemma nonzero_unat: "(w::'a::len word) \<noteq> 0 \<longleftrightarrow> 0 < unat w"
  by (simp add: unat_gt_0)

lemma flag_unat: "unat (k::u64) \<le> 1 \<Longrightarrow> k \<noteq> 0 \<longleftrightarrow> unat k = 1"
  by (auto simp: nonzero_unat)

lemma bits_Add64_unat:
  assumes "bits_Add64 x y c = (s, k)" "unat c \<le> 1"
  shows "unat s + 2 ^ 64 * unat k = unat x + unat y + unat c \<and> unat k \<le> 1"
proof -
  let ?n = "unat x + unat y + unat c"
  have s: "unat s = ?n mod 2 ^ 64"
    using assms(1) by (auto simp: bits_Add64_def unat_word_ariths mod_add_left_eq)
  have n: "?n < 2 * 2 ^ 64"
    using unat64_lt [of x] unat64_lt [of y] assms(2) by linarith
  show ?thesis
  proof (cases "2 ^ 64 \<le> ?n")
    case True
    then have "k = 1" using assms(1) by (auto simp: bits_Add64_def)
    moreover have "?n mod 2 ^ 64 = ?n - 2 ^ 64"
      using True n by (simp add: le_mod_geq)
    ultimately show ?thesis using s True by simp
  next
    case False
    then have "k = 0" using assms(1) by (auto simp: bits_Add64_def)
    then show ?thesis using s False by simp
  qed
qed

lemma borrow_arith:
  fixes d x y :: nat
  assumes "int d = (int x - int y) mod 2 ^ 64" "x < 2 ^ 64" "y \<le> 2 ^ 64"
  shows "d + y = x + (if x < y then 2 ^ 64 else 0)"
proof (cases "x < y")
  case True
  have "int d = (int x - int y + 2 ^ 64) mod 2 ^ 64" using assms(1) by simp
  also have "\<dots> = int x - int y + 2 ^ 64"
    using True assms by (intro mod_pos_pos_trivial) simp_all
  finally show ?thesis using True by simp
next
  case False
  then have "int d = int x - int y"
    using assms by (simp add: mod_pos_pos_trivial)
  then show ?thesis using False by simp
qed

lemma bits_Sub64_unat:
  assumes "bits_Sub64 x y b = (d, k)" "unat b \<le> 1"
  shows "unat d + unat y + unat b = unat x + 2 ^ 64 * unat k \<and> unat k \<le> 1"
proof -
  have d: "d = x - (y + b)" and k: "k = (if unat x < unat y + unat b then 1 else 0)"
    using assms(1) by (auto simp: bits_Sub64_def)
  have "uint d = (uint x - (uint y + uint b)) mod 2 ^ 64"
    unfolding d by (simp add: uint_word_ariths mod_simps)
  then have i: "int (unat d) = (int (unat x) - int (unat y + unat b)) mod 2 ^ 64"
    by simp
  have "unat y + unat b \<le> 2 ^ 64" using unat64_lt [of y] assms(2) by linarith
  from borrow_arith [OF i unat64_lt this] show ?thesis
    by (auto simp: k split: if_splits)
qed

lemma unat_mul_lt: "unat (x::u64) * unat (y::u64) < 2 ^ 64 * 2 ^ 64"
  by (rule mult_strict_mono') (rule unat64_lt, rule unat64_lt, simp_all)

lemma bits_Mul64_unat:
  assumes "bits_Mul64 x y = (hi, lo)"
  shows "unat lo + 2 ^ 64 * unat hi = unat x * unat y"
proof -
  have "unat x * unat y div 2 ^ 64 < 2 ^ 64"
    using unat_mul_lt [of x y] by (simp add: div_less_iff_less_mult)
  then have "unat hi = unat x * unat y div 2 ^ 64"
    using assms by (auto simp: bits_Mul64_def unat_of_nat64)
  moreover have "unat lo = unat x * unat y mod 2 ^ 64"
    using assms by (auto simp: bits_Mul64_def unat_word_ariths)
  ultimately show ?thesis by simp
qed

lemma bits_Div64_unat:
  assumes "hi < y"
  obtains q r where "bits_Div64 hi lo y = Some (q, r)"
    "unat q = (unat hi * 2 ^ 64 + unat lo) div unat y"
    "unat r = (unat hi * 2 ^ 64 + unat lo) mod unat y"
proof -
  let ?n = "unat hi * 2 ^ 64 + unat lo"
  have h: "unat hi < unat y" using assms by (simp add: word_less_nat_alt)
  then have y: "y \<noteq> 0" by (metis not_less_zero unat_0)
  have "?n < (unat hi + 1) * 2 ^ 64" using unat64_lt [of lo] by simp
  also have "\<dots> \<le> unat y * 2 ^ 64" using h by (intro mult_right_mono) auto
  finally have q: "?n div unat y < 2 ^ 64"
    using h by (simp add: div_less_iff_less_mult mult.commute)
  have r: "?n mod unat y < 2 ^ 64"
    using h unat64_lt [of y] mod_less_divisor [of "unat y" ?n] by linarith
  show ?thesis
    using that [of "word_of_nat (?n div unat y)" "word_of_nat (?n mod unat y)"]
      assms y unat_of_nat64 [OF q] unat_of_nat64 [OF r]
    by (simp add: bits_Div64_def Let_def not_le)
qed

lemma bit_len_bounds: "n \<noteq> 0 \<Longrightarrow> 2 ^ (bit_len n - 1) \<le> n \<and> n < 2 ^ bit_len n \<and> 0 < bit_len n"
proof (induction n rule: bit_len.induct)
  case (1 n)
  show ?case
  proof (cases "n div 2 = 0")
    case True
    then have "n = 1" using 1(2) by linarith
    then show ?thesis by (simp add: bit_len.simps)
  next
    case False
    with 1 have ih: "2 ^ (bit_len (n div 2) - 1) \<le> n div 2 \<and> n div 2 < 2 ^ bit_len (n div 2)"
      and pos: "0 < bit_len (n div 2)" by auto
    have len: "bit_len n = Suc (bit_len (n div 2))" using 1(2) by (simp add: bit_len.simps [of n])
    have "2 ^ bit_len (n div 2) \<le> n"
      using ih pos by (cases "bit_len (n div 2)") auto
    moreover have "n < 2 ^ Suc (bit_len (n div 2))"
      using ih by (simp add: less_mult_imp_div_less) linarith
    ultimately show ?thesis using len by simp
  qed
qed

lemma bit_len_0 [simp]: "bit_len 0 = 0"
  by (simp add: bit_len.simps)

lemma bit_len_le_iff: "bit_len n \<le> k \<longleftrightarrow> n < 2 ^ k"
proof (cases "n = 0")
  case False
  note b = bit_len_bounds [OF False]
  show ?thesis
  proof
    assume "bit_len n \<le> k"
    then have "2 ^ bit_len n \<le> (2::nat) ^ k" by simp
    with b show "n < 2 ^ k" by linarith
  next
    assume "n < 2 ^ k"
    then have "2 ^ (bit_len n - 1) < (2::nat) ^ k" using b by linarith
    then show "bit_len n \<le> k" by simp
  qed
qed simp

lemma bits_Len64_le: "bits_Len64 x \<le> 64"
  unfolding bits_Len64_def bit_len_le_iff by (rule unat64_lt)

section \<open>Bits of natural numbers\<close>

lemma bit_nat_iff_div: "bit (n::nat) k \<longleftrightarrow> odd (n div 2 ^ k)"
  by (simp add: bit_iff_odd)

lemma nat_div_pow_Suc: "(n::nat) div 2 ^ Suc k = n div 2 ^ k div 2"
  unfolding power_Suc2 by (rule div_mult2_eq)

lemma or_shift_nat: "y < 2 ^ n \<Longrightarrow> push_bit n (x::nat) OR y = 2 ^ n * x + y"
proof -
  assume "y < 2 ^ n"
  then have "take_bit n y = y" by (simp add: take_bit_nat_eq_self)
  then have "\<not> bit (push_bit n x) k \<or> \<not> bit y k" for k
    by (metis bit_push_bit_iff_nat bit_take_bit_iff not_less)
  then have "push_bit n x OR y = push_bit n x + y"
    by (intro disjunctive_add [symmetric]) blast
  then show ?thesis by (simp add: push_bit_eq_mult mult.commute)
qed

lemma unat_drop_bit64: "unat (drop_bit n (x::u64)) = unat x div 2 ^ n"
proof -
  have "unat (drop_bit n x) = drop_bit n (take_bit 64 (unat x))"
    using unsigned_drop_bit_eq [of n x, where ?'a = nat] by simp
  also have "take_bit 64 (unat x) = unat x" by (rule take_bit_nat_eq_self) (rule unat64_lt)
  finally show ?thesis by (simp only: drop_bit_eq_div)
qed

lemma unat_push_bit64: "unat (push_bit n (x::u64)) = 2 ^ n * unat x mod 2 ^ 64"
proof -
  have "unat (push_bit n x) = take_bit 64 (push_bit n (unat x))"
    using unsigned_push_bit_eq [of n x, where ?'a = nat] by simp
  then show ?thesis by (simp only: take_bit_eq_mod push_bit_eq_mult mult.commute)
qed

lemma unat_or_shift64:
  fixes x y :: u64
  assumes "2 ^ n * unat x < 2 ^ 64" "unat y < 2 ^ n"
  shows "unat (push_bit n x OR y) = 2 ^ n * unat x + unat y"
proof -
  have "unat (push_bit n x) = push_bit n (unat x)"
    unfolding unat_push_bit64 push_bit_eq_mult [of n "unat x"]
    using assms(1) by (simp only: mod_less mult.commute)
  then show ?thesis using or_shift_nat [OF assms(2)] by (simp add: unsigned_or_eq)
qed

lemma LeadingZeros64_bounds:
  assumes "x \<noteq> 0" "n = bits_LeadingZeros64 x"
  shows "n \<le> 63" "2 ^ (63 - n) \<le> unat x" "unat x < 2 ^ (64 - n)"
proof -
  have "unat x \<noteq> 0" using assms(1) by (simp add: unat_eq_zero)
  note b = bit_len_bounds [OF this]
  have le: "bit_len (unat x) \<le> 64" using bits_Len64_le [of x] by (simp add: bits_Len64_def)
  have n: "n = 64 - bit_len (unat x)"
    using assms(2) by (simp add: bits_LeadingZeros64_def bits_Len64_def)
  then show "n \<le> 63" using b by linarith
  have "63 - n = bit_len (unat x) - 1" "64 - n = bit_len (unat x)" using n le b by simp_all
  then show "2 ^ (63 - n) \<le> unat x" "unat x < 2 ^ (64 - n)" using b by simp_all
qed

end
