(* ===== verification/Currency.thy ===== *)
theory Currency
  imports Prelude "HOL-Library.Product_Lexorder"
begin

text \<open>
  currency.go: the unsigned 128-bit amounts of the system. \<open>currency\<close> is the struct with its two
  \<open>uint64\<close> halves; \<open>cur_nat\<close> is the number it stands for. The operations are the
  methods of the Go type, named \<open>Currency_<Method>\<close>; those that panic return an option.
\<close>

section \<open>The type and its constructors\<close>

record currency =
  Lo :: u64
  Hi :: u64

definition NewCurrency :: "u64 \<Rightarrow> u64 \<Rightarrow> currency" where
  "NewCurrency lo hi = \<lparr>Lo = lo, Hi = hi\<rparr>"

definition NewCurrency64 :: "u64 \<Rightarrow> currency" where
  "NewCurrency64 c = \<lparr>Lo = c, Hi = 0\<rparr>"

definition ZeroCurrency :: currency where
  "ZeroCurrency = \<lparr>Lo = 0, Hi = 0\<rparr>"

definition BaseUnitsPerCoin :: currency where
  "BaseUnitsPerCoin = NewCurrency64 1000000000"

definition Currency_IsZero :: "currency \<Rightarrow> bool" where
  "Currency_IsZero c \<longleftrightarrow> c = ZeroCurrency"

definition Currency_Equals :: "currency \<Rightarrow> currency \<Rightarrow> bool" where
  "Currency_Equals c v \<longleftrightarrow> c = v"

definition Currency_Cmp :: "currency \<Rightarrow> currency \<Rightarrow> int" where
  "Currency_Cmp c v =
     (if c = v then 0
      else if Hi c < Hi v \<or> (Hi c = Hi v \<and> Lo c < Lo v) then - 1
      else 1)"

section \<open>Arithmetic\<close>

definition Currency_AddWithOverflow :: "currency \<Rightarrow> currency \<Rightarrow> currency \<times> bool" where
  "Currency_AddWithOverflow c v =
     (let (lo, carry) = bits_Add64 (Lo c) (Lo v) 0;
          (hi, carry') = bits_Add64 (Hi c) (Hi v) carry
      in (\<lparr>Lo = lo, Hi = hi\<rparr>, carry' \<noteq> 0))"

definition Currency_Add :: "currency \<Rightarrow> currency \<Rightarrow> currency option" where
  "Currency_Add c v =
     (let (s, overflow) = Currency_AddWithOverflow c v
      in if overflow then None else Some s)"

definition Currency_SubWithUnderflow :: "currency \<Rightarrow> currency \<Rightarrow> currency \<times> bool" where
  "Currency_SubWithUnderflow c v =
     (let (lo, borrow) = bits_Sub64 (Lo c) (Lo v) 0;
          (hi, borrow') = bits_Sub64 (Hi c) (Hi v) borrow
      in (\<lparr>Lo = lo, Hi = hi\<rparr>, borrow' \<noteq> 0))"

definition Currency_Sub :: "currency \<Rightarrow> currency \<Rightarrow> currency option" where
  "Currency_Sub c v =
     (let (s, underflow) = Currency_SubWithUnderflow c v
      in if underflow then None else Some s)"

definition Currency_Mul64 :: "currency \<Rightarrow> u64 \<Rightarrow> currency option" where
  "Currency_Mul64 c v =
     (let (hi0, lo0) = bits_Mul64 (Lo c) v;
          (hi1, lo1) = bits_Mul64 (Hi c) v;
          (hi2, c0) = bits_Add64 hi0 lo1 0
      in if hi1 \<noteq> 0 \<or> c0 \<noteq> 0 then None else Some \<lparr>Lo = lo0, Hi = hi2\<rparr>)"

definition Currency_quoRem64 :: "currency \<Rightarrow> u64 \<Rightarrow> (currency \<times> u64) option" where
  "Currency_quoRem64 c v =
     (if Hi c < v then do {
        (lo, r) \<leftarrow> bits_Div64 (Hi c) (Lo c) v;
        Some (\<lparr>Lo = lo, Hi = 0\<rparr>, r)
      } else do {
        (hi, r) \<leftarrow> bits_Div64 0 (Hi c) v;
        (lo, r') \<leftarrow> bits_Div64 r (Lo c) v;
        Some (\<lparr>Lo = lo, Hi = hi\<rparr>, r')
      })"

text \<open>
  The division of \<open>c\<close> by a divisor of more than 64 bits: a trial quotient from the top 64 bits
  of the normalised divisor, decremented, and one correction step.
\<close>

definition Currency_quoRem_adjust :: "currency \<Rightarrow> currency \<Rightarrow> u64 \<Rightarrow> (currency \<times> currency) option" where
  "Currency_quoRem_adjust c v tq = do {
     let q = NewCurrency64 tq;
     m \<leftarrow> Currency_Mul64 v tq;
     r \<leftarrow> Currency_Sub c m;
     if Currency_Cmp r v \<ge> 0 then do {
       let q1 = q\<lparr>Lo := Lo q + 1\<rparr>;
       let q2 = (if Lo q1 = 0 then q1\<lparr>Hi := Hi q1 + 1\<rparr> else q1);
       r' \<leftarrow> Currency_Sub r v;
       Some (q2, r')
     } else Some (q, r)
   }"

definition Currency_quoRem :: "currency \<Rightarrow> currency \<Rightarrow> (currency \<times> currency) option" where
  "Currency_quoRem c v =
     (if Hi v = 0 then do {
        (q, r64) \<leftarrow> Currency_quoRem64 c (Lo v);
        Some (q, NewCurrency64 r64)
      } else do {
        let n = bits_LeadingZeros64 (Hi v);
        let v1 = NewCurrency (push_bit n (Lo v)) (push_bit n (Hi v) OR drop_bit (64 - n) (Lo v));
        let u1 = NewCurrency (drop_bit 1 (Lo c) OR push_bit 63 (Hi c)) (drop_bit 1 (Hi c));
        (tq0, _) \<leftarrow> bits_Div64 (Hi u1) (Lo u1) (Hi v1);
        let tq1 = drop_bit (63 - n) tq0;
        let tq = (if tq1 \<noteq> 0 then tq1 - 1 else tq1);
        Currency_quoRem_adjust c v tq
      })"

definition Currency_Div :: "currency \<Rightarrow> currency \<Rightarrow> currency option" where
  "Currency_Div c v = map_option fst (Currency_quoRem c v)"

definition Currency_Div64 :: "currency \<Rightarrow> u64 \<Rightarrow> currency option" where
  "Currency_Div64 c v = map_option fst (Currency_quoRem64 c v)"

section \<open>The number a Currency stands for\<close>

definition cur_nat :: "currency \<Rightarrow> nat" where
  "cur_nat c = unat (Lo c) + 2 ^ 64 * unat (Hi c)"

lemma cur_nat_lt: "cur_nat c < 2 ^ 128"
proof -
  have "unat (Lo c) < 2 ^ 64" "unat (Hi c) \<le> 2 ^ 64 - 1"
    using unat64_lt [of "Lo c"] unat64_lt [of "Hi c"] by linarith+
  then show ?thesis unfolding cur_nat_def by simp
qed

lemma cur_nat_parts: "unat (Lo c) = cur_nat c mod 2 ^ 64" "unat (Hi c) = cur_nat c div 2 ^ 64"
  using unat64_lt [of "Lo c"] by (simp_all add: cur_nat_def)

lemma cur_nat_inj: "cur_nat c = cur_nat v \<longleftrightarrow> c = v"
proof
  assume "cur_nat c = cur_nat v"
  then have "unat (Lo c) = unat (Lo v)" "unat (Hi c) = unat (Hi v)"
    by (simp_all add: cur_nat_parts)
  then show "c = v" by (cases c; cases v) (simp add: word_unat_eq_iff)
qed simp

lemma cur_nat_simps [simp]:
  "cur_nat ZeroCurrency = 0"
  "cur_nat (NewCurrency64 x) = unat x"
  "cur_nat (NewCurrency lo hi) = unat lo + 2 ^ 64 * unat hi"
  by (simp_all add: cur_nat_def ZeroCurrency_def NewCurrency64_def NewCurrency_def)

lemma Currency_IsZero_iff: "Currency_IsZero c \<longleftrightarrow> cur_nat c = 0"
  using cur_nat_inj [of c ZeroCurrency] by (simp add: Currency_IsZero_def)

lemma Currency_Cmp_nat:
  "Currency_Cmp c v = (if cur_nat c = cur_nat v then 0 else if cur_nat c < cur_nat v then - 1 else 1)"
proof -
  have "(Hi c < Hi v \<or> (Hi c = Hi v \<and> Lo c < Lo v)) \<longleftrightarrow> cur_nat c < cur_nat v"
    (is "?L \<longleftrightarrow> ?R")
  proof
    assume ?L
    then show ?R
      using unat64_lt [of "Lo c"] unat64_lt [of "Lo v"]
      by (auto simp: cur_nat_def word_less_nat_alt)
  next
    assume r: ?R
    then have "unat (Hi c) \<le> unat (Hi v)"
      by (simp add: cur_nat_parts div_le_mono)
    with r show ?L
      by (auto simp: cur_nat_def word_less_nat_alt le_less word_unat_eq_iff)
  qed
  then show ?thesis by (simp add: Currency_Cmp_def cur_nat_inj)
qed

text \<open>Amounts are ordered as their numbers, upper half first; \<open>Cmp\<close> compares in this order.\<close>

instantiation currency_ext :: (linorder) linorder
begin

definition less_eq_currency_ext :: "'a currency_scheme \<Rightarrow> 'a currency_scheme \<Rightarrow> bool" where
  "less_eq_currency_ext c v \<longleftrightarrow> (Hi c, Lo c, currency.more c) \<le> (Hi v, Lo v, currency.more v)"

definition less_currency_ext :: "'a currency_scheme \<Rightarrow> 'a currency_scheme \<Rightarrow> bool" where
  "less_currency_ext c v \<longleftrightarrow> (Hi c, Lo c, currency.more c) < (Hi v, Lo v, currency.more v)"

instance
  by intro_classes
    (auto simp: less_eq_currency_ext_def less_currency_ext_def less_le_not_le intro: currency.equality dest: antisym)

end

lemma Currency_Cmp_order: "Currency_Cmp c v = (if c = v then 0 else if c < v then - 1 else 1)"
  by (simp add: Currency_Cmp_def less_currency_ext_def less_prod_def le_less)

lemma currency_less_nat: "c < v \<longleftrightarrow> cur_nat c < cur_nat v" for c v :: currency
  using Currency_Cmp_nat [of c v] by (auto simp: Currency_Cmp_order cur_nat_inj split: if_splits)

lemma currency_le_nat: "c \<le> v \<longleftrightarrow> cur_nat c \<le> cur_nat v" for c v :: currency
  using currency_less_nat [of v c] by (simp add: not_less [symmetric] del: not_less)

section \<open>Addition, subtraction, multiplication\<close>

lemma AddWithOverflow_nat:
  assumes "Currency_AddWithOverflow c v = (s, ov)"
  shows "cur_nat s = (cur_nat c + cur_nat v) mod 2 ^ 128"
    and "ov \<longleftrightarrow> 2 ^ 128 \<le> cur_nat c + cur_nat v"
proof -
  obtain lo k where 1: "bits_Add64 (Lo c) (Lo v) 0 = (lo, k)" by fastforce
  obtain hi k' where 2: "bits_Add64 (Hi c) (Hi v) k = (hi, k')" by fastforce
  have s: "s = \<lparr>Lo = lo, Hi = hi\<rparr>" "ov \<longleftrightarrow> k' \<noteq> 0"
    using assms 1 2 by (auto simp: Currency_AddWithOverflow_def)
  have n1: "unat lo + 2 ^ 64 * unat k = unat (Lo c) + unat (Lo v) \<and> unat k \<le> 1"
    using bits_Add64_unat [OF 1] by simp
  then have n2: "unat hi + 2 ^ 64 * unat k' = unat (Hi c) + unat (Hi v) + unat k" "unat k' \<le> 1"
    using bits_Add64_unat [OF 2] by simp_all
  have k': "k' \<noteq> 0 \<longleftrightarrow> unat k' = 1" using n2(2) by (rule flag_unat)
  have sum: "cur_nat c + cur_nat v = cur_nat s + 2 ^ 128 * unat k'"
    using n1 n2 by (simp add: s cur_nat_def)
  have lt: "cur_nat s < 2 ^ 128" by (rule cur_nat_lt)
  show "cur_nat s = (cur_nat c + cur_nat v) mod 2 ^ 128"
    unfolding sum using lt by simp
  show "ov \<longleftrightarrow> 2 ^ 128 \<le> cur_nat c + cur_nat v"
    unfolding sum using lt n2(2) s(2) k' by auto
qed

lemma Currency_Add_nat:
  "Currency_Add c v = Some s \<longleftrightarrow> cur_nat s = cur_nat c + cur_nat v"
proof -
  obtain t ov where t: "Currency_AddWithOverflow c v = (t, ov)" by fastforce
  note n = AddWithOverflow_nat [OF t]
  have "Currency_Add c v = Some s \<longleftrightarrow> \<not> ov \<and> t = s"
    by (auto simp: Currency_Add_def t)
  also have "\<dots> \<longleftrightarrow> cur_nat s = cur_nat c + cur_nat v"
    using n cur_nat_lt [of s] by (auto simp: not_le simp flip: cur_nat_inj)
  finally show ?thesis .
qed

lemma Currency_Add_total:
  "cur_nat c + cur_nat v < 2 ^ 128 \<Longrightarrow>
   \<exists>s. Currency_Add c v = Some s \<and> cur_nat s = cur_nat c + cur_nat v"
  by (cases "Currency_AddWithOverflow c v")
    (auto simp: Currency_Add_def dest: AddWithOverflow_nat)

lemma Currency_Add_None: "Currency_Add c v = None \<longleftrightarrow> 2 ^ 128 \<le> cur_nat c + cur_nat v"
proof (cases "Currency_AddWithOverflow c v")
  case (Pair s ov)
  then show ?thesis using AddWithOverflow_nat(2) [OF Pair] by (simp add: Currency_Add_def)
qed

lemma SubWithUnderflow_nat:
  assumes "Currency_SubWithUnderflow c v = (d, un)"
  shows "cur_nat d + cur_nat v = cur_nat c + (if un then 2 ^ 128 else 0)"
    and "un \<longleftrightarrow> cur_nat c < cur_nat v"
proof -
  obtain lo k where 1: "bits_Sub64 (Lo c) (Lo v) 0 = (lo, k)" by fastforce
  obtain hi k' where 2: "bits_Sub64 (Hi c) (Hi v) k = (hi, k')" by fastforce
  have s: "d = \<lparr>Lo = lo, Hi = hi\<rparr>" "un \<longleftrightarrow> k' \<noteq> 0"
    using assms 1 2 by (auto simp: Currency_SubWithUnderflow_def)
  have n1: "unat lo + unat (Lo v) = unat (Lo c) + 2 ^ 64 * unat k \<and> unat k \<le> 1"
    using bits_Sub64_unat [OF 1] by simp
  then have n2: "unat hi + unat (Hi v) + unat k = unat (Hi c) + 2 ^ 64 * unat k'" "unat k' \<le> 1"
    using bits_Sub64_unat [OF 2] by simp_all
  have k': "un \<longleftrightarrow> unat k' = 1" using n2(2) unfolding s(2) by (rule flag_unat)
  have sum: "cur_nat d + cur_nat v = cur_nat c + 2 ^ 128 * unat k'"
    using n1 n2 by (simp add: s cur_nat_def)
  show e: "cur_nat d + cur_nat v = cur_nat c + (if un then 2 ^ 128 else 0)"
    using sum k' n2(2) by (cases "unat k' = 0") simp_all
  show "un \<longleftrightarrow> cur_nat c < cur_nat v"
    using e cur_nat_lt [of d] cur_nat_lt [of v] by (cases un) simp_all
qed

lemma Currency_Sub_nat:
  "Currency_Sub c v = Some d \<longleftrightarrow> cur_nat c = cur_nat d + cur_nat v"
proof -
  obtain t un where t: "Currency_SubWithUnderflow c v = (t, un)" by fastforce
  note n = SubWithUnderflow_nat [OF t]
  have "Currency_Sub c v = Some d \<longleftrightarrow> \<not> un \<and> t = d"
    by (auto simp: Currency_Sub_def t)
  also have "\<dots> \<longleftrightarrow> cur_nat c = cur_nat d + cur_nat v"
    using n by (auto split: if_splits simp flip: cur_nat_inj)
  finally show ?thesis .
qed

lemma Currency_Sub_total:
  "cur_nat v \<le> cur_nat c \<Longrightarrow> \<exists>d. Currency_Sub c v = Some d \<and> cur_nat d = cur_nat c - cur_nat v"
proof (cases "Currency_SubWithUnderflow c v")
  case (Pair d un)
  assume "cur_nat v \<le> cur_nat c"
  then show ?thesis using SubWithUnderflow_nat [OF Pair] Pair
    by (auto simp: Currency_Sub_def)
qed

lemma Currency_Mul64_nat:
  "Currency_Mul64 c v = (if cur_nat c * unat v < 2 ^ 128
     then Some (NewCurrency (word_of_nat (cur_nat c * unat v mod 2 ^ 64))
                            (word_of_nat (cur_nat c * unat v div 2 ^ 64)))
     else None)"
proof -
  obtain hi0 lo0 where 0: "bits_Mul64 (Lo c) v = (hi0, lo0)" by fastforce
  obtain hi1 lo1 where 1: "bits_Mul64 (Hi c) v = (hi1, lo1)" by fastforce
  obtain hi2 c0 where 2: "bits_Add64 hi0 lo1 0 = (hi2, c0)" by fastforce
  note n0 = bits_Mul64_unat [OF 0] and n1 = bits_Mul64_unat [OF 1]
  have n2: "unat hi2 + 2 ^ 64 * unat c0 = unat hi0 + unat lo1" "unat c0 \<le> 1"
    using bits_Add64_unat [OF 2] by simp_all
  have "cur_nat c * unat v = unat (Lo c) * unat v + 2 ^ 64 * (unat (Hi c) * unat v)"
    by (simp add: cur_nat_def algebra_simps)
  also have "\<dots> = unat lo0 + 2 ^ 64 * (unat hi0 + unat lo1) + 2 ^ 128 * unat hi1"
    unfolding n0 [symmetric] n1 [symmetric] by (simp add: algebra_simps)
  finally have p: "cur_nat c * unat v
      = (unat lo0 + 2 ^ 64 * unat hi2) + 2 ^ 128 * (unat c0 + unat hi1)"
    unfolding n2(1) [symmetric] by (simp add: algebra_simps)
  have lt: "unat lo0 + 2 ^ 64 * unat hi2 < 2 ^ 128"
    using cur_nat_lt [of "NewCurrency lo0 hi2"] by simp
  have z: "hi1 \<noteq> 0 \<or> c0 \<noteq> 0 \<longleftrightarrow> 2 ^ 128 \<le> cur_nat c * unat v"
  proof (cases "unat c0 + unat hi1 = 0")
    case True
    then show ?thesis using p lt by (simp add: nonzero_unat)
  next
    case False
    then have "1 \<le> unat c0 + unat hi1" by linarith
    then have "2 ^ 128 * 1 \<le> 2 ^ 128 * (unat c0 + unat hi1)" by (rule mult_left_mono) simp
    then have "2 ^ 128 \<le> cur_nat c * unat v" unfolding p by linarith
    then show ?thesis using False by (auto simp: nonzero_unat)
  qed
  have "Currency_Mul64 c v = (if hi1 \<noteq> 0 \<or> c0 \<noteq> 0 then None else Some (NewCurrency lo0 hi2))"
    by (simp add: Currency_Mul64_def 0 1 2 NewCurrency_def)
  moreover have "lo0 = word_of_nat (cur_nat c * unat v mod 2 ^ 64)"
      "hi2 = word_of_nat (cur_nat c * unat v div 2 ^ 64)" if "\<not> (hi1 \<noteq> 0 \<or> c0 \<noteq> 0)"
  proof -
    have "cur_nat c * unat v = unat lo0 + 2 ^ 64 * unat hi2" using p that by simp
    then show "lo0 = word_of_nat (cur_nat c * unat v mod 2 ^ 64)"
      "hi2 = word_of_nat (cur_nat c * unat v div 2 ^ 64)"
      using unat64_lt [of lo0] by simp_all
  qed
  ultimately show ?thesis using z by auto
qed

lemma cur_nat_split: "n < 2 ^ 128 \<Longrightarrow>
  cur_nat (NewCurrency (word_of_nat (n mod 2 ^ 64)) (word_of_nat (n div 2 ^ 64))) = n"
proof -
  assume "n < 2 ^ 128"
  then have "n div 2 ^ 64 < 2 ^ 64" by (simp add: div_less_iff_less_mult)
  then show ?thesis by (simp add: unat_of_nat64 del: unat_of_nat)
qed

lemma Currency_Mul64_total:
  "cur_nat c * unat v < 2 ^ 128 \<Longrightarrow>
   \<exists>p. Currency_Mul64 c v = Some p \<and> cur_nat p = cur_nat c * unat v"
  using cur_nat_split [of "cur_nat c * unat v"] by (simp only: Currency_Mul64_nat if_True) blast

section \<open>Division\<close>

lemma quoRem64_nat:
  assumes "v \<noteq> 0"
  obtains q r where "Currency_quoRem64 c v = Some (q, r)"
    "cur_nat q = cur_nat c div unat v" "unat r = cur_nat c mod unat v"
proof (cases "Hi c < v")
  case True
  from bits_Div64_unat [OF True, of "Lo c"] obtain lo r where
    1: "bits_Div64 (Hi c) (Lo c) v = Some (lo, r)"
    "unat lo = (unat (Hi c) * 2 ^ 64 + unat (Lo c)) div unat v"
    "unat r = (unat (Hi c) * 2 ^ 64 + unat (Lo c)) mod unat v" by blast
  then show ?thesis using that [of "\<lparr>Lo = lo, Hi = 0\<rparr>" r] True
    by (simp add: Currency_quoRem64_def cur_nat_def ac_simps)
next
  case False
  have v: "0 < v" "0 < unat v" using assms by (simp_all add: word_gt_0 unat_gt_0)
  from bits_Div64_unat [OF v(1), of "Hi c"] obtain hi r where
    1: "bits_Div64 0 (Hi c) v = Some (hi, r)"
    "unat hi = unat (Hi c) div unat v" "unat r = unat (Hi c) mod unat v" by auto
  have "r < v" using 1(3) v(2) by (simp add: word_less_nat_alt)
  from bits_Div64_unat [OF this, of "Lo c"] obtain lo r' where
    2: "bits_Div64 r (Lo c) v = Some (lo, r')"
    "unat lo = (unat r * 2 ^ 64 + unat (Lo c)) div unat v"
    "unat r' = (unat r * 2 ^ 64 + unat (Lo c)) mod unat v" by auto
  let ?h = "unat (Hi c)" and ?d = "unat v"
  have c: "cur_nat c = (unat r * 2 ^ 64 + unat (Lo c)) + ?d * (2 ^ 64 * (?h div ?d))"
  proof -
    have "?h = unat r + ?d * (?h div ?d)" using 1(3) by simp
    then have "2 ^ 64 * ?h = 2 ^ 64 * (unat r + ?d * (?h div ?d))" by (rule arg_cong)
    also have "\<dots> = 2 ^ 64 * unat r + ?d * (2 ^ 64 * (?h div ?d))"
      by (simp only: add_mult_distrib2 mult.left_commute)
    finally have "2 ^ 64 * ?h = \<dots>" .
    then show ?thesis by (simp add: cur_nat_def)
  qed
  have "cur_nat c div ?d = (unat r * 2 ^ 64 + unat (Lo c)) div ?d + 2 ^ 64 * (?h div ?d)"
    unfolding c using v(2) by (subst div_mult_self2) simp_all
  moreover have "cur_nat c mod ?d = (unat r * 2 ^ 64 + unat (Lo c)) mod ?d"
    unfolding c by (rule mod_mult_self2)
  ultimately show ?thesis using that [of "\<lparr>Lo = lo, Hi = hi\<rparr>" r'] 1 2 False
    by (simp add: Currency_quoRem64_def cur_nat_def)
qed

text \<open>
  The arithmetic of the trial quotient: \<open>D\<close> is the divisor with its low bits cleared, so it is
  a little smaller than \<open>v\<close>, and dividing by it gives the quotient or one more.
\<close>

lemma trial_quotient:
  fixes u v D :: nat
  assumes "0 < D" "D \<le> v" "(u div v + 1) * (v - D) \<le> D"
  shows "u div v \<le> u div D \<and> u div D \<le> u div v + 1"
proof
  show "u div v \<le> u div D" using assms by (simp add: div_le_mono2)
  have v: "0 < v" using assms by linarith
  have "u < (u div v + 1) * v"
    using v by (metis Suc_eq_plus1 dividend_less_div_times add.commute mult_Suc)
  also have "\<dots> = (u div v + 1) * D + (u div v + 1) * (v - D)"
    using assms(2) by (simp flip: add_mult_distrib2)
  also have "\<dots> \<le> (u div v + 1) * D + D" using assms(3) by simp
  also have "\<dots> = (u div v + 2) * D" by (simp add: algebra_simps)
  finally have "u div D < u div v + 2" using assms(1) by (simp add: div_less_iff_less_mult)
  then show "u div D \<le> u div v + 1" by simp
qed

text \<open>The two normalising shifts of \<open>quoRem\<close>.\<close>

lemma normalised_divisor:
  assumes "Hi v \<noteq> 0" "n = bits_LeadingZeros64 (Hi v)"
  shows "unat (push_bit n (Hi v) OR drop_bit (64 - n) (Lo v)) = cur_nat v div 2 ^ (64 - n)"
    and "2 ^ (127 - n) \<le> cur_nat v"
proof -
  note b = LeadingZeros64_bounds [OF assms]
  have pow: "(2::nat) ^ n * 2 ^ (64 - n) = 2 ^ 64" using b(1) by (simp flip: power_add)
  have lo: "unat (drop_bit (64 - n) (Lo v)) = unat (Lo v) div 2 ^ (64 - n)"
    by (rule unat_drop_bit64)
  have "unat (Lo v) < 2 ^ n * 2 ^ (64 - n)" unfolding pow by (rule unat64_lt)
  then have lt: "unat (Lo v) div 2 ^ (64 - n) < 2 ^ n" by (simp add: div_less_iff_less_mult)
  have "2 ^ n * unat (Hi v) < 2 ^ n * 2 ^ (64 - n)" using b(3) by simp
  then have "2 ^ n * unat (Hi v) < 2 ^ 64" unfolding pow .
  then have "unat (push_bit n (Hi v) OR drop_bit (64 - n) (Lo v))
      = 2 ^ n * unat (Hi v) + unat (Lo v) div 2 ^ (64 - n)"
    using unat_or_shift64 [of n "Hi v" "drop_bit (64 - n) (Lo v)"] lt lo by simp
  also have "\<dots> = (unat (Lo v) + 2 ^ (64 - n) * (2 ^ n * unat (Hi v))) div 2 ^ (64 - n)"
    by (subst div_mult_self2) simp_all
  also have "2 ^ (64 - n) * (2 ^ n * unat (Hi v)) = 2 ^ 64 * unat (Hi v)"
    using pow by (metis mult.assoc mult.commute)
  finally show "unat (push_bit n (Hi v) OR drop_bit (64 - n) (Lo v)) = cur_nat v div 2 ^ (64 - n)"
    by (simp only: cur_nat_def)
  have "(2::nat) ^ (127 - n) = 2 ^ 64 * 2 ^ (63 - n)"
    using b(1) by (subst power_add [symmetric]) simp
  also have "\<dots> \<le> 2 ^ 64 * unat (Hi v)" using b(2) by (rule mult_left_mono) simp
  finally show "2 ^ (127 - n) \<le> cur_nat v" by (simp add: cur_nat_def)
qed

lemma halved_dividend:
  "unat (drop_bit 1 (Hi c)) * 2 ^ 64 + unat (drop_bit 1 (Lo c) OR push_bit 63 (Hi c)) = cur_nat c div 2"
proof -
  let ?h = "unat (Hi c)" and ?l = "unat (Lo c)"
  have lo: "unat (drop_bit 1 (Lo c)) = ?l div 2" using unat_drop_bit64 [of 1 "Lo c"] by simp
  have hi: "unat (drop_bit 1 (Hi c)) = ?h div 2" using unat_drop_bit64 [of 1 "Hi c"] by simp
  have one: "unat (Hi c AND 1) = ?h mod 2"
    unfolding unsigned_and_eq unsigned_1 by (rule and_one_eq)
  have "2 ^ 63 * n mod 2 ^ 64 = 2 ^ 63 * (n mod 2)" for n :: nat
    using mult_mod_right [of "2 ^ 63" n 2] by simp
  then have "push_bit 63 (Hi c) = push_bit 63 (Hi c AND 1)"
    by (simp only: word_unat_eq_iff unat_push_bit64 one mod_mod_trivial)
  moreover have "?l div 2 < 2 ^ 63" using unat64_lt [of "Lo c"] by simp
  moreover have "2 ^ 63 * (?h mod 2) < (2::nat) ^ 64"
    using mod_less_divisor [of 2 ?h] by simp
  ultimately have "unat (push_bit 63 (Hi c) OR drop_bit 1 (Lo c)) = 2 ^ 63 * (?h mod 2) + ?l div 2"
    using unat_or_shift64 [of 63 "Hi c AND 1" "drop_bit 1 (Lo c)"] lo one by simp
  then have u: "unat (drop_bit 1 (Lo c) OR push_bit 63 (Hi c)) = 2 ^ 63 * (?h mod 2) + ?l div 2"
    by (simp only: or.commute)
  have "cur_nat c = ?l + 2 * (2 ^ 63 * ?h)" by (simp add: cur_nat_def)
  then have "cur_nat c div 2 = ?l div 2 + 2 ^ 63 * ?h" by simp
  also have "2 ^ 63 * ?h = 2 ^ 63 * (2 * (?h div 2)) + 2 ^ 63 * (?h mod 2)"
    by (simp only: mult_div_mod_eq flip: add_mult_distrib2)
  finally show ?thesis unfolding u hi by simp
qed

lemma trial_quotient_bounds:
  fixes u v n :: nat
  assumes n: "n \<le> 63" and v: "2 ^ (127 - n) \<le> v" "v < 2 ^ 128" and u: "u < 2 ^ 128"
  defines "D \<equiv> v div 2 ^ (64 - n) * 2 ^ (64 - n)"
  shows "u div v \<le> u div D \<and> u div D \<le> u div v + 1" "0 < D" "u div v < 2 ^ Suc n"
proof -
  let ?k = "64 - n"
  have pn: "(2::nat) ^ Suc n * 2 ^ (127 - n) = 2 ^ 128"
    using n by (subst power_add [symmetric]) simp
  have pk: "(2::nat) ^ (127 - n) = 2 ^ 63 * 2 ^ ?k"
    using n by (subst power_add [symmetric]) simp
  have Dge: "2 ^ (127 - n) \<le> D"
  proof -
    have "2 ^ 63 \<le> v div 2 ^ ?k" using v(1) unfolding pk by (simp add: less_eq_div_iff_mult_less_eq)
    then show ?thesis unfolding D_def pk by (rule mult_right_mono) simp
  qed
  then show Dpos: "0 < D" by (meson order_less_le_trans zero_less_numeral zero_less_power)
  have vD: "v - D = v mod 2 ^ ?k" unfolding D_def by (simp add: minus_div_mult_eq_mod)
  have Dle: "D \<le> v" unfolding D_def by simp
  have "u < 2 ^ Suc n * v"
  proof -
    have "2 ^ Suc n * 2 ^ (127 - n) \<le> 2 ^ Suc n * v" using v(1) by (rule mult_left_mono) simp
    with u pn show ?thesis by linarith
  qed
  then show q: "u div v < 2 ^ Suc n"
    using Dpos Dle by (simp add: div_less_iff_less_mult)
  have "v mod 2 ^ ?k < 2 ^ ?k" by (rule mod_less_divisor) simp
  then have "v mod 2 ^ ?k \<le> 2 ^ ?k - 1" by linarith
  then have "(u div v + 1) * (v - D) \<le> 2 ^ Suc n * (2 ^ ?k - 1)"
    unfolding vD using q by (intro mult_mono) simp_all
  also have "\<dots> = 2 ^ 65 - 2 ^ Suc n"
    using n by (simp add: diff_mult_distrib2 flip: power_add power_Suc)
  also have "\<dots> \<le> 2 ^ (127 - n)"
  proof (cases "n = 63")
    case False
    then have "(2::nat) ^ 65 \<le> 2 ^ (127 - n)" using n by (intro power_increasing) simp_all
    then show ?thesis by linarith
  qed simp
  also have "\<dots> \<le> D" by (rule Dge)
  finally show "u div v \<le> u div D \<and> u div D \<le> u div v + 1"
    by (rule trial_quotient [OF Dpos Dle])
qed

text \<open>What is left of \<open>quoRem\<close> once the trial quotient \<open>tq\<close> is known to be the quotient or one less.\<close>

lemma quoRem_correction:
  assumes tq: "cur_nat c div cur_nat v = unat tq \<or> cur_nat c div cur_nat v = unat tq + 1"
    and v: "0 < cur_nat v" and q64: "cur_nat c div cur_nat v < 2 ^ 64"
  shows "\<exists>q r. Currency_quoRem_adjust c v tq = Some (q, r) \<and> cur_nat q = cur_nat c div cur_nat v \<and> cur_nat r = cur_nat c mod cur_nat v"
proof -
  let ?u = "cur_nat c" and ?v = "cur_nat v"
  have le: "?v * unat tq \<le> ?u"
  proof -
    have "?v * unat tq \<le> ?v * (?u div ?v)" using tq by (intro mult_left_mono) auto
    also have "\<dots> \<le> ?u" by simp
    finally show ?thesis .
  qed
  then have "?v * unat tq < 2 ^ 128" using cur_nat_lt [of c] by linarith
  then obtain m where m: "Currency_Mul64 v tq = Some m" "cur_nat m = ?v * unat tq"
    using Currency_Mul64_total by blast
  obtain r where r: "Currency_Sub c m = Some r" "cur_nat r = ?u - ?v * unat tq"
    using Currency_Sub_total [of m c] le m(2) by auto
  show ?thesis
  proof (cases "?u div ?v = unat tq")
    case True
    then have rm: "cur_nat r = ?u mod ?v" 
      using r(2) minus_mult_div_eq_mod [of ?u ?v] by simp
    then have "cur_nat r < ?v" using v by simp
    then have "\<not> Currency_Cmp r v \<ge> 0" by (simp add: Currency_Cmp_nat)
    then show ?thesis using m(1) r(1) rm True by (simp add: Currency_quoRem_adjust_def)
  next
    case False
    then have q: "?u div ?v = unat tq + 1" using tq by simp
    have "?v * unat tq + ?v + ?u mod ?v = ?u"
      using mult_div_mod_eq [of ?v ?u] unfolding q by simp
    then have rm: "cur_nat r = ?v + ?u mod ?v" unfolding r(2) by linarith
    then have cmp: "Currency_Cmp r v \<ge> 0" by (simp add: Currency_Cmp_nat)
    obtain r' where r': "Currency_Sub r v = Some r'" "cur_nat r' = ?u mod ?v"
      using Currency_Sub_total [of v r] rm by auto
    have u1: "unat (tq + 1) = unat tq + 1"
      using q64 unfolding q by (simp add: unat_word_ariths)
    then have "tq + 1 \<noteq> 0" by (metis Suc_eq_plus1 nat.simps(3) unat_0)
    then have q2: "Lo ((NewCurrency64 tq)\<lparr>Lo := Lo (NewCurrency64 tq) + 1\<rparr>) \<noteq> 0"
      by (simp add: NewCurrency64_def)
    have "cur_nat ((NewCurrency64 tq)\<lparr>Lo := Lo (NewCurrency64 tq) + 1\<rparr>) = unat tq + 1"
      by (simp add: NewCurrency64_def cur_nat_def u1)
    then show ?thesis using m(1) r(1) cmp r' q2 q
      by (simp add: Currency_quoRem_adjust_def Let_def)
  qed
qed

lemma quoRem_nat:
  assumes "cur_nat v \<noteq> 0"
  shows "\<exists>q r. Currency_quoRem c v = Some (q, r) \<and>
    cur_nat q = cur_nat c div cur_nat v \<and> cur_nat r = cur_nat c mod cur_nat v"
proof (cases "Hi v = 0")
  case True
  then have v: "cur_nat v = unat (Lo v)" by (simp add: cur_nat_def)
  then have "Lo v \<noteq> 0" using assms by auto
  from quoRem64_nat [OF this, of c] obtain q r where "Currency_quoRem64 c (Lo v) = Some (q, r)"
    "cur_nat q = cur_nat c div unat (Lo v)" "unat r = cur_nat c mod unat (Lo v)" by blast
  then show ?thesis using True v by (simp add: Currency_quoRem_def)
next
  case False
  define n where "n = bits_LeadingZeros64 (Hi v)"
  define w where "w = push_bit n (Hi v) OR drop_bit (64 - n) (Lo v)"
  define uh ul where "uh = drop_bit 1 (Hi c)" "ul = drop_bit 1 (Lo c) OR push_bit 63 (Hi c)"
  have n63: "n \<le> 63" using LeadingZeros64_bounds(1) [OF False n_def] .
  have w: "unat w = cur_nat v div 2 ^ (64 - n)" and vge: "2 ^ (127 - n) \<le> cur_nat v"
    using normalised_divisor [OF False n_def] by (simp_all only: w_def)
  have u: "unat uh * 2 ^ 64 + unat ul = cur_nat c div 2"
    using halved_dividend by (simp only: uh_ul_def)
  note tb = trial_quotient_bounds [OF n63 vge cur_nat_lt cur_nat_lt [of c], folded w]
  have "uh < w"
  proof -
    have "(2::nat) ^ (127 - n) = 2 ^ 63 * 2 ^ (64 - n)"
      using n63 by (subst power_add [symmetric]) simp
    then have "2 ^ 63 \<le> unat w" unfolding w using vge by (simp add: less_eq_div_iff_mult_less_eq)
    moreover have "unat uh < 2 ^ 63"
      using unat64_lt [of "Hi c"] unfolding uh_ul_def unat_drop_bit64 by simp
    ultimately show ?thesis by (simp add: word_less_nat_alt)
  qed
  from bits_Div64_unat [OF this, of ul] obtain tq0 t where
    d: "bits_Div64 uh ul w = Some (tq0, t)" "unat tq0 = (cur_nat c div 2) div unat w"
    unfolding u by blast
  define tq1 where "tq1 = drop_bit (63 - n) tq0"
  define tq where "tq = (if tq1 \<noteq> 0 then tq1 - 1 else tq1)"
  have "unat tq1 = cur_nat c div (2 * (unat w * 2 ^ (63 - n)))"
    unfolding tq1_def unat_drop_bit64 d(2) by (simp only: div_mult2_eq)
  also have "2 * (unat w * 2 ^ (63 - n)) = unat w * 2 ^ (64 - n)"
    using n63 Suc_diff_le [of n 63] by (simp only: power_Suc) simp
  finally have tq1: "unat tq1 = cur_nat c div (unat w * 2 ^ (64 - n))" .
  have "unat tq = unat tq1 - 1"
    by (auto simp: tq_def unat_minus_one)
  then have "cur_nat c div cur_nat v = unat tq \<or> cur_nat c div cur_nat v = unat tq + 1"
    using tb(1) unfolding tq1 by linarith
  moreover have "cur_nat c div cur_nat v < 2 ^ 64"
  proof -
    have "(2::nat) ^ Suc n \<le> 2 ^ 64" using n63 by (intro power_increasing) simp_all
    with tb(3) show ?thesis by linarith
  qed
  ultimately have "\<exists>q r. Currency_quoRem_adjust c v tq = Some (q, r) \<and> cur_nat q = cur_nat c div cur_nat v \<and> cur_nat r = cur_nat c mod cur_nat v"
    using assms by (intro quoRem_correction) simp_all
  moreover have "Currency_quoRem c v = Currency_quoRem_adjust c v tq"
    using False d(1) unfolding uh_ul_def tq_def tq1_def
    by (simp add: Currency_quoRem_def NewCurrency_def Let_def del: One_nat_def
        flip: n_def w_def)
  ultimately show ?thesis by simp
qed

end
