(* ===== verification/Currency_Text.thy ===== *)
theory Currency_Text
  imports Currency
begin

text \<open>
  The exact decimal text of a Currency (currency.go, \<open>ExactString\<close>, \<open>parseExactCurrency\<close> and the
  JSON methods). Go strings are byte sequences, so a text is a \<open>byte list\<close>. The reference is
  \<open>digits10\<close>, the usual decimal numeral of a number.
\<close>

section \<open>The code\<close>

datatype currency_error = NotAnInteger | NegativeValue | OverflowsCurrency

text \<open>
  The inner loop of \<open>ExactString\<close>: it adds the digits of \<open>r\<close> to the buffer, right to left from
  index \<open>i\<close>, and returns their number \<open>n\<close>. An index out of range panics.
\<close>

function put_digits :: "u64 \<Rightarrow> int \<Rightarrow> nat \<Rightarrow> byte list \<Rightarrow> (nat \<times> byte list) option" where
  "put_digits r i n buf =
     (if r \<noteq> 0 then
        let n' = n + 1; k = i - int n'
        in if 0 \<le> k \<and> k < int (length buf)
           then put_digits (r div 10) i n' (buf[nat k := buf ! nat k + ucast (r mod 10)])
           else None
      else Some (n, buf))"
  by pat_completeness auto
termination
  by (relation "measure (\<lambda>(r, i, n, buf). unat r)") (auto simp: unat_div nonzero_unat)

declare put_digits.simps [simp del]

text \<open>The outer loop: one round per 19 decimal digits.\<close>

function exact_loop :: "currency \<Rightarrow> int \<Rightarrow> byte list \<Rightarrow> byte list option" where
  "exact_loop c i buf =
     (case Currency_quoRem64 c 10000000000000000000 of
        None \<Rightarrow> None
      | Some (q, r) \<Rightarrow>
          (case put_digits r i 0 buf of
             None \<Rightarrow> None
           | Some (n, buf') \<Rightarrow>
               if Currency_IsZero q then
                 (if 0 \<le> i - int n \<and> i - int n \<le> int (length buf')
                  then Some (drop (nat (i - int n)) buf') else None)
               else exact_loop q (i - 19) buf'))"
  by pat_completeness auto
termination
proof (relation "measure (\<lambda>(c, i, buf). cur_nat c)", goal_cases)
  case (2 c i buf qr q r nb n buf')
  obtain q' r' where "Currency_quoRem64 c 10000000000000000000 = Some (q', r')"
    "cur_nat q' = cur_nat c div unat (10000000000000000000 :: u64)"
    by (rule quoRem64_nat [of "10000000000000000000" c]) (simp, blast)
  then have q: "cur_nat q = cur_nat c div 10000000000000000000" using 2 by simp
  then have "cur_nat q \<noteq> 0" using 2 by (simp add: Currency_IsZero_iff)
  with q show ?case by simp
qed simp

declare exact_loop.simps [simp del]

definition Currency_ExactString :: "currency \<Rightarrow> byte list option" where
  "Currency_ExactString c =
     (if Currency_IsZero c then Some [48] else exact_loop c 40 (replicate 40 48))"

definition Currency_MarshalJSON :: "currency \<Rightarrow> byte list option" where
  "Currency_MarshalJSON c = map_option (\<lambda>s. [34] @ s @ [34]) (Currency_ExactString c)"

text \<open>
  \<open>big.Int.SetString\<close> in base 10: an optional sign and at least one digit, nothing else.
\<close>

definition is_digit :: "byte \<Rightarrow> bool" where
  "is_digit b \<longleftrightarrow> 48 \<le> b \<and> b \<le> 57"

definition parse_digits :: "byte list \<Rightarrow> nat option" where
  "parse_digits s =
     (if s \<noteq> [] \<and> list_all is_digit s
      then Some (foldl (\<lambda>a b. 10 * a + (unat b - 48)) 0 s) else None)"

definition big_SetString10 :: "byte list \<Rightarrow> int option" where
  "big_SetString10 s =
     (case s of
        [] \<Rightarrow> None
      | b # t \<Rightarrow>
          if b = 45 then map_option (\<lambda>n. - int n) (parse_digits t)
          else if b = 43 then map_option int (parse_digits t)
          else map_option int (parse_digits s))"

definition parseExactCurrency :: "byte list \<Rightarrow> currency_error + currency" where
  "parseExactCurrency s =
     (case big_SetString10 s of
        None \<Rightarrow> Inl NotAnInteger
      | Some i \<Rightarrow>
          if i < 0 then Inl NegativeValue
          else if bit_len (nat i) > 128 then Inl OverflowsCurrency
          else Inr (NewCurrency (word_of_int i) (word_of_int (i div 2 ^ 64))))"

text \<open>\<open>strings.Trim(s, "\"")\<close> drops every leading and trailing quote.\<close>

definition trim_quotes :: "byte list \<Rightarrow> byte list" where
  "trim_quotes s = rev (dropWhile (\<lambda>b. b = 34) (rev (dropWhile (\<lambda>b. b = 34) s)))"

definition Currency_UnmarshalJSON :: "byte list \<Rightarrow> currency_error + currency" where
  "Currency_UnmarshalJSON b = parseExactCurrency (trim_quotes b)"

section \<open>Decimal numerals\<close>

fun digits10 :: "nat \<Rightarrow> byte list" where
  "digits10 n = (if n < 10 then [48 + word_of_nat n] else digits10 (n div 10) @ [48 + word_of_nat (n mod 10)])"

declare digits10.simps [simp del]

text \<open>Fixed-width numerals: the last \<open>k\<close> decimal digits of \<open>n\<close>, padded with zeros.\<close>

fun digits_w :: "nat \<Rightarrow> nat \<Rightarrow> byte list" where
  "digits_w 0 n = []"
| "digits_w (Suc k) n = digits_w k (n div 10) @ [48 + word_of_nat (n mod 10)]"

lemma length_digits_w [simp]: "length (digits_w k n) = k"
  by (induction k arbitrary: n) auto

lemma digits_w_0: "digits_w k 0 = replicate k 48"
  by (induction k) (auto simp: replicate_append_same)

lemma digits10_digits_w: "0 < m \<Longrightarrow> digits10 (m * 10 ^ k + n) = digits10 m @ digits_w k n" if "n < 10 ^ k"
  using that
proof (induction k arbitrary: n)
  case (Suc k)
  have "n div 10 < 10 ^ k" using Suc.prems by (simp add: div_less_iff_less_mult mult.commute)
  moreover have "(m * 10 ^ Suc k + n) div 10 = m * 10 ^ k + n div 10" by simp
  moreover have "(m * 10 ^ Suc k + n) mod 10 = n mod 10"
    by (metis mod_mult_self3 mult.assoc mult.commute power_Suc)
  moreover have "\<not> m * 10 ^ Suc k + n < 10"
  proof -
    have "1 * 1 \<le> m * 10 ^ k" using Suc.prems by (intro mult_mono) simp_all
    then have "10 * 1 \<le> 10 * (m * 10 ^ k)" by simp
    also have "10 * (m * 10 ^ k) = m * 10 ^ Suc k" by simp
    finally show ?thesis by linarith
  qed
  ultimately show ?case using Suc.IH [of "n div 10"] Suc.prems
    unfolding digits10.simps [of "m * 10 ^ Suc k + n"] by simp
qed simp

lemma digits10_pad:
  assumes "0 < n" "n < 10 ^ k"
  shows "length (digits10 n) \<le> k" "digits_w k n = replicate (k - length (digits10 n)) 48 @ digits10 n"
proof -
  have "length (digits10 n) \<le> k \<and> digits_w k n = replicate (k - length (digits10 n)) 48 @ digits10 n"
    using assms
  proof (induction k arbitrary: n)
    case (Suc k)
    show ?case
    proof (cases "n < 10")
      case True
      then show ?thesis by (simp add: digits10.simps [of n] digits_w_0)
    next
      case False
      have "n div 10 < 10 ^ k" "0 < n div 10"
        using Suc.prems False by (simp_all add: div_less_iff_less_mult mult.commute)
      then show ?thesis using Suc.IH [of "n div 10"] False by (simp add: digits10.simps [of n])
    qed
  qed simp
  then show "length (digits10 n) \<le> k"
    "digits_w k n = replicate (k - length (digits10 n)) 48 @ digits10 n" by auto
qed

section \<open>The loops compute the numeral\<close>

definition ndigits :: "nat \<Rightarrow> nat" where
  "ndigits n = (if n = 0 then 0 else length (digits10 n))"

lemma ndigits_step: "n \<noteq> 0 \<Longrightarrow> ndigits n = Suc (ndigits (n div 10))"
  by (auto simp: ndigits_def digits10.simps [of n])

lemma put_digits_spec:
  assumes "unat r < 10 ^ k" "i = int (length pre + k + n)"
  shows "put_digits r i n (pre @ replicate k 48 @ suf)
    = Some (n + ndigits (unat r), pre @ digits_w k (unat r) @ suf)"
  using assms
proof (induction k arbitrary: r n suf)
  case 0
  then show ?case by (simp add: put_digits.simps ndigits_def unat_eq_zero)
next
  case (Suc k)
  show ?case
  proof (cases "r = 0")
    case True
    then show ?thesis
      by (simp add: put_digits.simps ndigits_def digits_w_0 del: digits_w.simps)
  next
    case False
    have k: "i - int (n + 1) = int (length pre + k)" using Suc.prems by simp
    let ?d = "48 + ucast (r mod 10) :: byte"
    have rep: "pre @ replicate (Suc k) 48 @ suf = (pre @ replicate k 48) @ (48 # suf)"
      by (simp add: replicate_app_Cons_same)
    have upd: "(pre @ replicate (Suc k) 48 @ suf)[length pre + k := ?d]
        = pre @ replicate k 48 @ (?d # suf)"
      unfolding rep using list_update_length [of "pre @ replicate k 48" 48 suf ?d] by simp
    have nth: "(pre @ replicate (Suc k) 48 @ suf) ! (length pre + k) = 48"
      unfolding rep by (simp add: nth_append)
    have "unat (r div 10) < 10 ^ k"
      using Suc.prems by (simp add: unat_div div_less_iff_less_mult mult.commute)
    then have "put_digits (r div 10) i (n + 1) (pre @ replicate k 48 @ (?d # suf))
        = Some (n + 1 + ndigits (unat (r div 10)), pre @ digits_w k (unat (r div 10)) @ ?d # suf)"
      using Suc.prems by (intro Suc.IH) simp_all
    moreover have "?d = 48 + word_of_nat (unat r mod 10)"
    proof -
      have "ucast (r mod 10) = (word_of_nat (unat (r mod 10)) :: byte)" by simp
      also have "unat (r mod 10) = unat r mod 10" by (simp add: unat_mod)
      finally show ?thesis by simp
    qed
    ultimately show ?thesis using False ndigits_step [of "unat r"] upd nth k
      by (subst put_digits.simps) (simp add: Let_def unat_eq_zero unat_div nat_int_add)
  qed
qed

lemma exact_loop_spec:
  assumes "cur_nat c \<noteq> 0" "cur_nat c < 10 ^ k"
  shows "exact_loop c (int k) (replicate k 48 @ suf) = Some (digits10 (cur_nat c) @ suf)"
  using assms
proof (induction "cur_nat c" arbitrary: c k suf rule: less_induct)
  case less
  let ?c = "cur_nat c" and ?B = "10 ^ 19 :: nat"
  have B: "unat (10000000000000000000 :: u64) = ?B" by simp
  obtain q r where qr: "Currency_quoRem64 c 10000000000000000000 = Some (q, r)"
    "cur_nat q = ?c div ?B" "unat r = ?c mod ?B"
    by (rule quoRem64_nat [of "10000000000000000000" c, unfolded B]) simp_all
  show ?case
  proof (cases "?c < ?B")
    case True
    then have q: "cur_nat q = 0" and r: "unat r = ?c" using qr by simp_all
    have d: "length (digits10 ?c) \<le> k"
      "digits_w k ?c = replicate (k - length (digits10 ?c)) 48 @ digits10 ?c"
      using digits10_pad [of ?c k] less.prems by simp_all
    have "put_digits r (int k) 0 (replicate k 48 @ suf)
        = Some (length (digits10 ?c), digits_w k ?c @ suf)"
      using put_digits_spec [of r k "int k" "[]" 0 suf] less.prems r by (simp add: ndigits_def)
    moreover have "drop (k - length (digits10 ?c)) (digits_w k ?c @ suf) = digits10 ?c @ suf"
      by (simp add: d)
    moreover have "nat (int k - int (length (digits10 ?c))) = k - length (digits10 ?c)" by simp
    ultimately show ?thesis using qr(1) q d(1)
      by (subst exact_loop.simps) (simp add: Currency_IsZero_iff)
  next
    case False
    have k19: "19 < k"
    proof (rule ccontr)
      assume "\<not> 19 < k"
      then have "(10::nat) ^ k \<le> ?B" by (intro power_increasing) simp_all
      with False less.prems show False by linarith
    qed
    define m where "m = k - 19"
    have k: "k = m + 19" using k19 by (simp add: m_def)
    have q0: "cur_nat q \<noteq> 0" using False qr(2) by (simp add: div_eq_0_iff)
    have qk: "cur_nat q < 10 ^ m"
    proof -
      have "?c < 10 ^ m * ?B" using less.prems(2) unfolding k by (simp only: power_add)
      then show ?thesis unfolding qr(2) by (simp add: div_less_iff_less_mult)
    qed
    have rB: "unat r < ?B" unfolding qr(3) by (rule mod_less_divisor) simp
    have rep: "replicate k 48 = (replicate m 48 :: byte list) @ replicate 19 48"
      unfolding k by (rule replicate_add)
    have "put_digits r (int k) 0 (replicate m 48 @ replicate 19 48 @ suf)
        = Some (0 + ndigits (unat r), replicate m 48 @ digits_w 19 (unat r) @ suf)"
      using rB by (intro put_digits_spec) (simp_all add: k)
    moreover have "exact_loop q (int m) (replicate m 48 @ (digits_w 19 (unat r) @ suf))
        = Some (digits10 (cur_nat q) @ (digits_w 19 (unat r) @ suf))"
      using q0 qk qr(2) less.prems(1) by (intro less.hyps) simp_all
    moreover have "digits10 ?c = digits10 (cur_nat q) @ digits_w 19 (unat r)"
    proof -
      have "?c = cur_nat q * ?B + unat r" unfolding qr(2,3) by (rule div_mult_mod_eq [symmetric])
      then show ?thesis using digits10_digits_w [OF rB, of "cur_nat q"] q0 by simp
    qed
    moreover have "int k - 19 = int m" using k by simp
    ultimately show ?thesis using qr(1) q0 rep
      by (subst exact_loop.simps) (simp add: Currency_IsZero_iff)
  qed
qed

lemma ExactString_digits: "Currency_ExactString c = Some (digits10 (cur_nat c))"
proof (cases "cur_nat c = 0")
  case True
  then show ?thesis by (simp add: Currency_ExactString_def Currency_IsZero_iff digits10.simps)
next
  case False
  have "cur_nat c < 10 ^ 40" using cur_nat_lt [of c] by simp
  from exact_loop_spec [OF False this, of "[]"] False show ?thesis
    by (simp add: Currency_ExactString_def Currency_IsZero_iff)
qed

section \<open>Parsing the numeral\<close>

lemma digit_byte: "k < 10 \<Longrightarrow> is_digit (48 + word_of_nat k) \<and> unat (48 + word_of_nat k :: byte) = 48 + k"
proof -
  assume "k < 10"
  then have "unat (48 + word_of_nat k :: byte) = 48 + k"
    by (simp add: unat_word_ariths unat_of_nat take_bit_eq_mod)
  then show ?thesis using \<open>k < 10\<close> by (simp add: is_digit_def word_le_nat_alt)
qed

lemma digits10_props: "digits10 n \<noteq> [] \<and> list_all is_digit (digits10 n)
    \<and> foldl (\<lambda>a b. 10 * a + (unat b - 48)) 0 (digits10 n) = n"
proof (induction n rule: digits10.induct)
  case (1 n)
  show ?case
  proof (cases "n < 10")
    case True
    then show ?thesis using digit_byte [of n] by (subst (1 2 3) digits10.simps) simp
  next
    case False
    then show ?thesis using 1 digit_byte [of "n mod 10"]
      by (subst (1 2 3) digits10.simps) simp
  qed
qed

lemma parse_digits10: "parse_digits (digits10 n) = Some n"
  by (simp add: parse_digits_def digits10_props)

lemma digits_not_special: "is_digit b \<Longrightarrow> b \<noteq> 45 \<and> b \<noteq> 43 \<and> b \<noteq> 34"
  by (auto simp: is_digit_def)

lemma big_SetString10_digits10: "big_SetString10 (digits10 n) = Some (int n)"
proof -
  obtain b t where bt: "digits10 n = b # t" "is_digit b"
    using digits10_props [of n] by (cases "digits10 n") auto
  then show ?thesis using digits_not_special [OF bt(2)] parse_digits10 [of n]
    by (simp add: big_SetString10_def)
qed

lemma parseExact_digits10:
  "parseExactCurrency (digits10 n) =
     (if n < 2 ^ 128 then Inr (NewCurrency (word_of_nat (n mod 2 ^ 64)) (word_of_nat (n div 2 ^ 64)))
      else Inl OverflowsCurrency)"
proof -
  have "int n div 2 ^ 64 = int (n div 2 ^ 64)" by (simp add: zdiv_int)
  then have hi: "word_of_int (int n div 2 ^ 64) = (word_of_nat (n div 2 ^ 64) :: u64)"
    by (simp only: of_int_of_nat_eq)
  have lo: "word_of_nat (n mod 2 ^ 64) = (word_of_nat n :: u64)"
    by (simp add: word_unat_eq_iff unat_of_nat take_bit_eq_mod)
  have "128 < bit_len n \<longleftrightarrow> \<not> n < 2 ^ 128" by (simp only: bit_len_le_iff flip: not_le)
  then show ?thesis
    by (simp only: parseExactCurrency_def big_SetString10_digits10 hi lo option.case nat_int) simp
qed

lemma trim_digits: "s \<noteq> [] \<Longrightarrow> list_all is_digit s \<Longrightarrow> trim_quotes ([34] @ s @ [34]) = s"
proof -
  assume s: "s \<noteq> []" "list_all is_digit s"
  then have nq: "\<forall>b\<in>set s. b \<noteq> 34" by (auto simp: list_all_iff dest: digits_not_special)
  then have "dropWhile (\<lambda>b. b = 34) (s @ [34]) = s @ [34]" using s(1) by (cases s) auto
  moreover have "dropWhile (\<lambda>b. b = 34) (rev s) = rev s"
    using nq by (intro dropWhile_eq_self_iff [THEN iffD2]) (metis hd_in_set set_rev)
  ultimately show ?thesis by (simp add: trim_quotes_def)
qed

end
