(* ===== verification/Codec.thy ===== *)
theory Codec
  imports Prelude "HOL-Library.State_Monad"
begin

text \<open>
  encoding.go, the stream layer: the buffered \<open>Encoder\<close> over an \<open>io.Writer\<close>, the \<open>Decoder\<close> over an
  \<open>io.LimitedReader\<close>, and the interface \<open>codec\<close> that an \<open>EncodeTo\<close>/\<open>DecodeFrom\<close> pair
  of the program keeps. The methods of the individual types are in the theory Encoding.
\<close>

section \<open>Bytes of words\<close>

text \<open>
  \<open>binary.LittleEndian.PutUint64\<close> and \<open>Uint64\<close>, for any width. A byte array \<open>[32]byte\<close> is a
  256-bit word whose most significant byte comes first, so comparing two arrays with
  \<open>bytes.Compare\<close> is comparing the words.
\<close>

definition le_bytes :: "nat \<Rightarrow> 'a::len word \<Rightarrow> byte list" where
  "le_bytes n w = map (\<lambda>i. ucast (drop_bit (8 * i) w)) [0..<n]"

definition le_word :: "byte list \<Rightarrow> 'a::len word" where
  "le_word bs = foldr (\<lambda>b a. ucast b OR push_bit 8 a) bs 0"

definition array_bytes :: "nat \<Rightarrow> 'a::len word \<Rightarrow> byte list" where
  "array_bytes n w = rev (le_bytes n w)"

definition array_word :: "byte list \<Rightarrow> 'a::len word" where
  "array_word bs = le_word (rev bs)"

definition str_bytes :: "string \<Rightarrow> byte list" where
  "str_bytes s = map of_char s"

lemma length_le_bytes [simp]: "length (le_bytes n w) = n"
  by (simp add: le_bytes_def)

lemma length_array_bytes [simp]: "length (array_bytes n w) = n"
  by (simp add: array_bytes_def)

lemma bit_le_word:
  "bit (le_word bs :: 'a::len word) k \<longleftrightarrow>
     k < LENGTH('a) \<and> k div 8 < length bs \<and> bit (bs ! (k div 8)) (k mod 8)"
proof (induction bs arbitrary: k)
  case (Cons b bs)
  have "bit (le_word (b # bs) :: 'a word) k \<longleftrightarrow>
      k < LENGTH('a) \<and> (bit b k \<or> (8 \<le> k \<and> bit (le_word bs :: 'a word) (k - 8)))"
    by (auto simp: le_word_def bit_simps)
  also have "\<dots> \<longleftrightarrow> k < LENGTH('a) \<and> k div 8 < length (b # bs) \<and> bit ((b # bs) ! (k div 8)) (k mod 8)"
  proof (cases "k < 8")
    case False
    then have "k div 8 = Suc ((k - 8) div 8)" "k mod 8 = (k - 8) mod 8" "\<not> bit b k"
      by (auto simp: le_div_geq le_mod_geq dest: bit_imp_le_length)
    then show ?thesis using False Cons.IH [of "k - 8"] by auto
  qed auto
  finally show ?case .
qed (simp add: le_word_def)

lemma le_word_bytes: "LENGTH('a) \<le> 8 * n \<Longrightarrow> le_word (le_bytes n (w :: 'a::len word)) = w"
proof (rule bit_word_eqI)
  fix k assume "LENGTH('a) \<le> 8 * n" "k < LENGTH('a)"
  then have "k div 8 < n" by (simp add: div_less_iff_less_mult mult.commute)
  then show "bit (le_word (le_bytes n w) :: 'a word) k = bit w k"
    using \<open>k < LENGTH('a)\<close> by (auto simp: bit_le_word le_bytes_def bit_simps)
qed

lemma array_word_bytes: "LENGTH('a) \<le> 8 * n \<Longrightarrow> array_word (array_bytes n (w :: 'a::len word)) = w"
  by (simp add: array_word_def array_bytes_def le_word_bytes)

lemma le_bytes_word:
  "LENGTH('a) = 8 * length bs \<Longrightarrow> le_bytes (length bs) (le_word bs :: 'a::len word) = bs"
proof (rule nth_equalityI)
  fix i assume len: "LENGTH('a) = 8 * length bs"
    and "i < length (le_bytes (length bs) (le_word bs :: 'a word))"
  then have i: "i < length bs" by simp
  have "bit (le_bytes (length bs) (le_word bs :: 'a word) ! i) j = bit (bs ! i) j" if "j < 8" for j
  proof -
    have "8 * i + j < LENGTH('a)" using i that len by simp
    then show ?thesis using i that by (simp add: le_bytes_def bit_simps bit_le_word)
  qed
  then show "le_bytes (length bs) (le_word bs :: 'a word) ! i = bs ! i"
    by (intro bit_word_eqI) simp
qed simp

lemma array_bytes_word:
  "LENGTH('a) = 8 * length bs \<Longrightarrow> array_bytes (length bs) (array_word bs :: 'a::len word) = bs"
  using le_bytes_word [where bs = "rev bs" and 'a = 'a] by (simp add: array_bytes_def array_word_def)

section \<open>The Encoder\<close>

text \<open>
  \<open>e.w\<close> is a writer with state \<open>'w\<close>: writing a byte slice gives the new state and whether it failed.
  \<open>en_buf\<close> is \<open>e.buf[:e.n]\<close>.
\<close>

type_synonym 'w writer = "'w \<Rightarrow> byte list \<Rightarrow> 'w \<times> bool"

record 'w encoder =
  en_w :: 'w
  en_buf :: "byte list"
  en_err :: bool

definition NewEncoder :: "'w \<Rightarrow> 'w encoder" where
  "NewEncoder w = \<lparr>en_w = w, en_buf = [], en_err = False\<rparr>"

definition Encoder_Flush :: "'w writer \<Rightarrow> 'w encoder \<Rightarrow> 'w encoder" where
  "Encoder_Flush wr e =
     (if \<not> en_err e \<and> en_buf e \<noteq> [] then
        let (w', err) = wr (en_w e) (en_buf e)
        in e\<lparr>en_w := w', en_err := err, en_buf := []\<rparr>
      else e)"

text \<open>
  The copy loop of \<open>Write\<close>. The test for a full buffer is \<open>e.n == len(e.buf)\<close> in the code; \<open>e.n\<close>
  never exceeds 1024, which \<open>Encoder_Write_buf\<close> below states.
\<close>

function Encoder_Write :: "'w writer \<Rightarrow> byte list \<Rightarrow> 'w encoder \<Rightarrow> 'w encoder" where
  "Encoder_Write wr p e =
     (if \<not> en_err e \<and> p \<noteq> [] then
        let e1 = (if 1024 \<le> length (en_buf e) then Encoder_Flush wr e else e);
            c = min (1024 - length (en_buf e1)) (length p)
        in Encoder_Write wr (drop c p) (e1\<lparr>en_buf := en_buf e1 @ take c p\<rparr>)
      else e)"
  by pat_completeness auto
termination
  by (relation "measure (\<lambda>(wr, p, e). length p)")
    (auto simp: Encoder_Flush_def Let_def split: prod.splits if_splits)

declare Encoder_Write.simps [simp del]

text \<open>The interface of an \<open>io.Writer\<close>: on success it has appended what it was given.\<close>

locale io_writer =
  fixes wr :: "'w writer" and content :: "'w \<Rightarrow> byte list"
  assumes wr_ok: "wr w p = (w', False) \<Longrightarrow> content w' = content w @ p"
begin

definition pending :: "'w encoder \<Rightarrow> byte list" where
  "pending e = content (en_w e) @ en_buf e"

lemma Flush_pending:
  "\<not> en_err (Encoder_Flush wr e) \<Longrightarrow>
     pending (Encoder_Flush wr e) = pending e \<and> en_buf (Encoder_Flush wr e) = [] \<and> \<not> en_err e"
  by (auto simp: Encoder_Flush_def pending_def Let_def split: prod.splits if_splits dest: wr_ok)

lemma Write_pending:
  "\<not> en_err (Encoder_Write wr p e) \<Longrightarrow> pending (Encoder_Write wr p e) = pending e @ p"
proof (induction "length p" arbitrary: p e rule: less_induct)
  case less
  show ?case
  proof (cases "\<not> en_err e \<and> p \<noteq> []")
    case False
    then show ?thesis using less.prems by (auto simp: Encoder_Write.simps [of wr p e])
  next
    case True
    define e1 where "e1 = (if 1024 \<le> length (en_buf e) then Encoder_Flush wr e else e)"
    define c where "c = min (1024 - length (en_buf e1)) (length p)"
    define e2 where "e2 = e1\<lparr>en_buf := en_buf e1 @ take c p\<rparr>"
    have eq: "Encoder_Write wr p e = Encoder_Write wr (drop c p) e2"
      using True by (simp add: Encoder_Write.simps [of wr p e] e1_def c_def e2_def Let_def)
    have "length (en_buf e1) < 1024"
      using True by (auto simp: e1_def Encoder_Flush_def Let_def split: prod.splits)
    then have "0 < c" using True by (simp add: c_def)
    then have "pending (Encoder_Write wr (drop c p) e2) = pending e2 @ drop c p"
      using True less.prems eq by (intro less.hyps) simp_all
    moreover have "\<not> en_err e1"
    proof
      assume "en_err e1"
      then have "Encoder_Write wr (drop c p) e2 = e2" by (simp add: Encoder_Write.simps e2_def)
      then show False using \<open>en_err e1\<close> less.prems eq by (simp add: e2_def)
    qed
    then have "pending e1 = pending e" using Flush_pending [of e] by (simp add: e1_def split: if_splits)
    ultimately show ?thesis by (simp add: eq e2_def pending_def)
  qed
qed

lemma Writes_pending:
  "\<not> en_err (fold (Encoder_Write wr) ps e) \<Longrightarrow>
     pending (fold (Encoder_Write wr) ps e) = pending e @ concat ps \<and> \<not> en_err e"
proof (induction ps arbitrary: e)
  case (Cons p ps)
  then have "pending (fold (Encoder_Write wr) (p # ps) e) = pending (Encoder_Write wr p e) @ concat ps"
    and ok: "\<not> en_err (Encoder_Write wr p e)" by auto
  moreover have "\<not> en_err e" using ok by (auto simp: Encoder_Write.simps [of wr p e] split: if_splits)
  ultimately show ?case using Write_pending [OF ok] by simp
qed (simp add: pending_def)

lemma Writes_Flush_content:
  assumes "\<not> en_err (Encoder_Flush wr (fold (Encoder_Write wr) ps (NewEncoder w)))"
  shows "content (en_w (Encoder_Flush wr (fold (Encoder_Write wr) ps (NewEncoder w))))
    = content w @ concat ps"
  using Flush_pending [OF assms] Writes_pending [of ps "NewEncoder w"]
  by (auto simp: pending_def NewEncoder_def)

end

lemma Encoder_Write_buf:
  "length (en_buf e) \<le> 1024 \<Longrightarrow> length (en_buf (Encoder_Write wr p e)) \<le> 1024"
proof (induction wr p e rule: Encoder_Write.induct)
  case (1 wr p e)
  show ?case
  proof (cases "\<not> en_err e \<and> p \<noteq> []")
    case True
    have "length (en_buf (Encoder_Flush wr e)) \<le> 1024"
      using 1(2) by (simp add: Encoder_Flush_def Let_def split: prod.splits)
    then show ?thesis using 1 True
      by (subst Encoder_Write.simps) (auto simp: Let_def)
  qed (use 1 in \<open>auto simp: Encoder_Write.simps [of wr p e]\<close>)
qed

text \<open>\<open>bytes.Buffer\<close> (and the state of a hash, seen as the bytes written to it): never fails.\<close>

definition buffer_write :: "byte list writer" where
  "buffer_write w p = (w @ p, False)"

interpretation buffer: io_writer buffer_write id
  by unfold_locales (simp add: buffer_write_def)

lemma Flush_buffer_ok: "\<not> en_err e \<Longrightarrow> \<not> en_err (Encoder_Flush buffer_write e)"
  by (simp add: Encoder_Flush_def buffer_write_def Let_def)

lemma Write_buffer_ok: "\<not> en_err e \<Longrightarrow> \<not> en_err (Encoder_Write buffer_write p e)"
proof (induction "buffer_write" p e rule: Encoder_Write.induct)
  case (1 p e)
  then show ?case
    by (subst Encoder_Write.simps) (auto simp: Let_def Flush_buffer_ok)
qed

lemma encode_buffer:
  "en_w (Encoder_Flush buffer_write (fold (Encoder_Write buffer_write) ps (NewEncoder []))) = concat ps"
proof -
  have "\<not> en_err e \<Longrightarrow> \<not> en_err (fold (Encoder_Write buffer_write) ps e)" for e
    by (induction ps arbitrary: e) (simp_all add: Write_buffer_ok)
  then have "\<not> en_err (fold (Encoder_Write buffer_write) ps (NewEncoder []))"
    by (simp add: NewEncoder_def)
  from buffer.Writes_Flush_content [OF Flush_buffer_ok [OF this]] show ?thesis by simp
qed

text \<open>
  So what an encoder writes is the concatenation of the bytes it is given, and the encoders of the
  program are modelled by these bytes.
\<close>

definition WriteBool :: "bool \<Rightarrow> byte list" where
  "WriteBool b = [if b then 1 else 0]"

definition WriteUint8 :: "byte \<Rightarrow> byte list" where
  "WriteUint8 u = [u]"

definition WriteUint64 :: "u64 \<Rightarrow> byte list" where
  "WriteUint64 u = le_bytes 8 u"

definition WritePrefix :: "nat \<Rightarrow> byte list" where
  "WritePrefix i = WriteUint64 (word_of_nat i)"

definition WriteBytes :: "byte list \<Rightarrow> byte list" where
  "WriteBytes b = WritePrefix (length b) @ b"

definition WriteString :: "string \<Rightarrow> byte list" where
  "WriteString s = WriteBytes (str_bytes s)"

section \<open>The Decoder\<close>

datatype dec_error =
  ErrEOF | ErrUnexpectedEOF | ErrInvalidBool byte | ErrInvalidPrefix u64 nat
| ErrVersion byte | ErrProofLen

text \<open>
  \<open>dc_R\<close> is what is left of the stream, \<open>dc_N\<close> the limit of the \<open>LimitedReader\<close> (never negative here),
  \<open>dc_buf\<close> the 64-byte scratch buffer.
\<close>

record decoder =
  dc_R :: "byte list"
  dc_N :: nat
  dc_buf :: "byte list"
  dc_err :: "dec_error option"

type_synonym 'a dec = "(decoder, 'a) state"

definition NewDecoder :: "byte list \<Rightarrow> nat \<Rightarrow> decoder" where
  "NewDecoder r n = \<lparr>dc_R = r, dc_N = n, dc_buf = replicate 64 0, dc_err = None\<rparr>"

definition NewBufDecoder :: "byte list \<Rightarrow> decoder" where
  "NewBufDecoder buf = NewDecoder buf (length buf)"

definition Decoder_SetErr :: "dec_error \<Rightarrow> unit dec" where
  "Decoder_SetErr err = State (\<lambda>d. ((),
     if dc_err d = None then d\<lparr>dc_err := Some err, dc_buf := replicate 64 0\<rparr> else d))"

definition Decoder_Err :: "dec_error option dec" where
  "Decoder_Err = State (\<lambda>d. (dc_err d, d))"

text \<open>\<open>io.ReadFull(&d.lr, d.buf[:want])\<close>: gives the bytes read.\<close>

definition read_full :: "nat \<Rightarrow> decoder \<Rightarrow> byte list \<times> decoder" where
  "read_full want d =
     (let k = min want (min (dc_N d) (length (dc_R d))); got = take k (dc_R d)
      in (got, d\<lparr>dc_R := drop k (dc_R d), dc_N := dc_N d - k,
                 dc_buf := got @ drop k (dc_buf d),
                 dc_err := (if k = want then None else if k = 0 then Some ErrEOF
                            else Some ErrUnexpectedEOF)\<rparr>))"

text \<open>\<open>Read(p)\<close> for a \<open>p\<close> of \<open>len\<close> bytes outside the decoder: the bytes put at the start of \<open>p\<close>.\<close>

function Decoder_Read :: "nat \<Rightarrow> decoder \<Rightarrow> byte list \<times> decoder" where
  "Decoder_Read len d =
     (if 0 < len \<and> dc_err d = None then
        let want = min len 64; (got, d1) = read_full want d;
            (rest, d2) = Decoder_Read (len - want) d1
        in (got @ rest, d2)
      else ([], d))"
  by pat_completeness auto
termination
  by (relation "measure fst") auto

declare Decoder_Read.simps [simp del]

text \<open>A \<open>Read\<close> into a zeroed array of \<open>len\<close> bytes gives the whole array.\<close>

definition ReadArray :: "nat \<Rightarrow> byte list dec" where
  "ReadArray len = State (\<lambda>d.
     let (got, d') = Decoder_Read len d in (got @ replicate (len - length got) 0, d'))"

text \<open>\<open>d.Read(d.buf[:len])\<close>: the target is the scratch buffer itself; its first bytes are the result.\<close>

definition ReadBuf :: "nat \<Rightarrow> byte list dec" where
  "ReadBuf len = State (\<lambda>d.
     let d' = (if dc_err d = None then snd (read_full len d) else d)
     in (take len (dc_buf d'), d'))"

definition ReadBool :: "bool dec" where
  "ReadBool = do {
     b \<leftarrow> ReadBuf 1;
     (if hd b = 0 then State_Monad.return False
      else if hd b = 1 then State_Monad.return True
      else do { Decoder_SetErr (ErrInvalidBool (hd b)); State_Monad.return False })
   }"

definition ReadUint8 :: "byte dec" where
  "ReadUint8 = do { b \<leftarrow> ReadBuf 1; State_Monad.return (hd b) }"

definition ReadUint64 :: "u64 dec" where
  "ReadUint64 = do { b \<leftarrow> ReadBuf 8; State_Monad.return (le_word b) }"

definition ReadPrefix :: "nat dec" where
  "ReadPrefix = do {
     n \<leftarrow> ReadUint64;
     d \<leftarrow> State_Monad.get;
     (if dc_N d < unat n then do {
        Decoder_SetErr (ErrInvalidPrefix n (dc_N d));
        State_Monad.return 0
      } else State_Monad.return (unat n))
   }"

definition ReadBytes :: "byte list dec" where
  "ReadBytes = do { n \<leftarrow> ReadPrefix; ReadArray n }"

text \<open>A loop \<open>for i := range xs { xs[i].DecodeFrom(d) }\<close>.\<close>

fun ReadMany :: "nat \<Rightarrow> 'a dec \<Rightarrow> 'a list dec" where
  "ReadMany 0 m = State_Monad.return []"
| "ReadMany (Suc n) m = do { x \<leftarrow> m; xs \<leftarrow> ReadMany n m; State_Monad.return (x # xs) }"

section \<open>Decoding what was encoded\<close>

text \<open>
  \<open>decodes k m bs x\<close>: on a stream that starts with \<open>bs\<close>, with at least \<open>k\<close> more bytes within
  the limit, \<open>m\<close> reads exactly \<open>bs\<close>, without error, and gives \<open>x\<close>. The slack \<open>k\<close> is what
  \<open>ReadPrefix\<close> compares a length with.
\<close>

definition decodes :: "nat \<Rightarrow> 'a dec \<Rightarrow> byte list \<Rightarrow> 'a \<Rightarrow> bool" where
  "decodes k m bs x \<longleftrightarrow> (\<forall>d rest.
     dc_err d = None \<longrightarrow> length (dc_buf d) = 64 \<longrightarrow> dc_R d = bs @ rest \<longrightarrow>
     length bs + k \<le> dc_N d \<longrightarrow>
     (\<exists>b. length b = 64 \<and>
        run_state m d = (x, d\<lparr>dc_R := rest, dc_N := dc_N d - length bs, dc_buf := b\<rparr>)))"

lemma decodes_mono: "decodes k m bs x \<Longrightarrow> k \<le> k' \<Longrightarrow> decodes k' m bs x"
  unfolding decodes_def by (meson add_left_mono order_trans)

lemma decodes_return [intro]: "decodes k (State_Monad.return x) [] x"
  by (auto simp: decodes_def)

lemma decodes_bind:
  assumes m: "decodes (length bs' + k) m bs x" and f: "decodes k (f x) bs' y"
  shows "decodes k (State_Monad.bind m f) (bs @ bs') y"
  unfolding decodes_def
proof (intro allI impI)
  fix d :: decoder and rest
  assume d: "dc_err d = None" "length (dc_buf d) = 64" "dc_R d = (bs @ bs') @ rest"
    "length (bs @ bs') + k \<le> dc_N d"
  then obtain b where b: "length b = 64"
    "run_state m d = (x, d\<lparr>dc_R := bs' @ rest, dc_N := dc_N d - length bs, dc_buf := b\<rparr>)"
    using m [unfolded decodes_def, rule_format, of d "bs' @ rest"] by auto
  let ?d = "d\<lparr>dc_R := bs' @ rest, dc_N := dc_N d - length bs, dc_buf := b\<rparr>"
  have "length bs' + k \<le> dc_N ?d" using d(4) by simp
  then obtain b' where "length b' = 64"
    "run_state (f x) ?d = (y, ?d\<lparr>dc_R := rest, dc_N := dc_N ?d - length bs', dc_buf := b'\<rparr>)"
    using f [unfolded decodes_def, rule_format, of ?d rest] d b(1) by auto
  then show "\<exists>b. length b = 64 \<and> run_state (State_Monad.bind m f) d
      = (y, d\<lparr>dc_R := rest, dc_N := dc_N d - length (bs @ bs'), dc_buf := b\<rparr>)"
    using b by auto
qed

lemma decodes_bind_return:
  assumes "decodes k m bs x"
  shows "decodes k (State_Monad.bind m (\<lambda>x. State_Monad.return (f x))) bs (f x)"
  using decodes_bind [of "[]" k m bs x "\<lambda>x. State_Monad.return (f x)" "f x"] assms by auto

lemma decodes_last:
  "decodes k m bs x \<Longrightarrow> f x = y \<Longrightarrow> decodes k (State_Monad.bind m (\<lambda>x. State_Monad.return (f x))) bs y"
  using decodes_bind_return [of k m bs x f] by simp

lemma decodes_ReadBuf:
  assumes "length bs = n" "0 < n" "n \<le> 64"
  shows "decodes k (ReadBuf n) bs bs"
  unfolding decodes_def
proof (intro allI impI)
  fix d :: decoder and rest
  assume d: "dc_err d = None" "length (dc_buf d) = 64" "dc_R d = bs @ rest" "length bs + k \<le> dc_N d"
  then have "min n (min (dc_N d) (length (dc_R d))) = n" using assms by simp
  then show "\<exists>b. length b = 64 \<and>
      run_state (ReadBuf n) d = (bs, d\<lparr>dc_R := rest, dc_N := dc_N d - length bs, dc_buf := b\<rparr>)"
    using d assms
    by (intro exI [of _ "bs @ drop n (dc_buf d)"]) (simp add: ReadBuf_def read_full_def Let_def)
qed

lemma Decoder_Read_all:
  fixes d :: decoder
  shows "dc_err d = None \<Longrightarrow> length (dc_buf d) = 64 \<Longrightarrow> dc_R d = bs @ rest \<Longrightarrow> length bs \<le> dc_N d \<Longrightarrow>
   \<exists>b. length b = 64 \<and> Decoder_Read (length bs) d
     = (bs, d\<lparr>dc_R := rest, dc_N := dc_N d - length bs, dc_buf := b\<rparr>)"
proof (induction "length bs" arbitrary: bs d rule: less_induct)
  case less
  show ?case
  proof (cases "bs = []")
    case True
    then show ?thesis using less.prems
      by (intro exI [of _ "dc_buf d"]) (simp add: Decoder_Read.simps)
  next
    case False
    let ?w = "min (length bs) 64"
    let ?d = "d\<lparr>dc_R := drop ?w bs @ rest, dc_N := dc_N d - ?w,
      dc_buf := take ?w bs @ drop ?w (dc_buf d)\<rparr>"
    have "min ?w (min (dc_N d) (length (dc_R d))) = ?w" using less.prems by simp
    then have rd: "read_full ?w d = (take ?w bs, ?d)"
      using less.prems by (simp add: read_full_def Let_def)
    have "length (drop ?w bs) \<le> dc_N ?d" using less.prems(4) by (simp add: diff_le_mono)
    then obtain b where b: "length b = 64" "Decoder_Read (length (drop ?w bs)) ?d
        = (drop ?w bs, ?d\<lparr>dc_R := rest, dc_N := dc_N ?d - length (drop ?w bs), dc_buf := b\<rparr>)"
      using less.hyps [of "drop ?w bs" ?d] less.prems False by auto
    have "Decoder_Read (length bs) d
        = (let (r, d2) = Decoder_Read (length (drop ?w bs)) ?d in (take ?w bs @ r, d2))"
      using False less.prems rd by (subst Decoder_Read.simps) (simp add: Let_def)
    then show ?thesis using b by (intro exI [of _ b]) simp
  qed
qed

lemma decodes_ReadArray:
  assumes "length bs = n"
  shows "decodes k (ReadArray n) bs bs"
  unfolding decodes_def ReadArray_def using assms
  by (auto dest!: Decoder_Read_all simp: Let_def)

lemma decodes_ReadUint8: "decodes k ReadUint8 (WriteUint8 u) u"
  using decodes_bind_return [OF decodes_ReadBuf [of "[u]" 1 k], of hd]
  by (simp add: ReadUint8_def WriteUint8_def)

lemma decodes_ReadUint64: "decodes k ReadUint64 (WriteUint64 u) u"
  using decodes_bind_return [OF decodes_ReadBuf [of "le_bytes 8 u" 8 k], of "le_word :: _ \<Rightarrow> u64"]
  by (simp add: ReadUint64_def WriteUint64_def le_word_bytes)

lemma length_WriteUint64 [simp]: "length (WriteUint64 u) = 8"
  by (simp add: WriteUint64_def)

lemma length_WritePrefix [simp]: "length (WritePrefix n) = 8"
  by (simp add: WritePrefix_def)

lemma length_WriteUint8 [simp]: "length (WriteUint8 u) = 1"
  by (simp add: WriteUint8_def)

lemma decodes_ReadBool: "decodes k ReadBool (WriteBool b) b"
proof -
  have "decodes k (State_Monad.bind (ReadBuf 1) (\<lambda>b.
     if hd b = 0 then State_Monad.return False
      else if hd b = 1 then State_Monad.return True
      else do { Decoder_SetErr (ErrInvalidBool (hd b)); State_Monad.return False })) (WriteBool b @ []) b"
    by (rule decodes_bind [OF decodes_ReadBuf]) (auto simp: WriteBool_def)
  then show ?thesis by (simp add: ReadBool_def)
qed

lemma decodes_ReadPrefix:
  assumes "n \<le> k" "n < 2 ^ 64"
  shows "decodes k ReadPrefix (WritePrefix n) n"
proof -
  have un: "unat (word_of_nat n :: u64) = n" using assms(2) by (rule unat_of_nat64)
  let ?f = "\<lambda>n :: u64. do {
     d \<leftarrow> State_Monad.get;
     (if dc_N d < unat n then do {
        Decoder_SetErr (ErrInvalidPrefix n (dc_N d));
        State_Monad.return 0
      } else State_Monad.return (unat n))}"
  have "decodes k (?f (word_of_nat n)) [] n"
    unfolding decodes_def using assms(1) by (auto simp: un)
  then have "decodes k (State_Monad.bind ReadUint64 ?f) (WritePrefix n @ []) n"
    unfolding WritePrefix_def by (intro decodes_bind [OF decodes_ReadUint64])
  then show ?thesis by (simp add: ReadPrefix_def)
qed

lemma decodes_ReadMany:
  assumes "\<And>x k. x \<in> set xs \<Longrightarrow> decodes k m (enc x) x"
  shows "decodes k (ReadMany (length xs) m) (concat (map enc xs)) xs"
  using assms
proof (induction xs)
  case (Cons x xs)
  then have "decodes k (State_Monad.bind (ReadMany (length xs) m) (\<lambda>xs. State_Monad.return (x # xs)))
      (concat (map enc xs)) (x # xs)"
    by (intro decodes_bind_return [of k _ _ xs "\<lambda>xs. x # xs"]) simp
  with Cons.prems show ?case by (auto intro!: decodes_bind)
qed auto

section \<open>The interface of EncodeTo and DecodeFrom\<close>

text \<open>
  \<open>ok\<close> is the set of values a type can have in the program (lengths below \<open>2 ^ 64\<close>).
\<close>

lemma length_concat_ge: "\<forall>x \<in> set xs. f x \<noteq> [] \<Longrightarrow> length xs \<le> length (concat (map f xs))"
proof (induction xs)
  case (Cons x xs)
  then have "1 \<le> length (f x)" by (cases "f x") auto
  moreover have "length xs \<le> length (concat (map f xs))" using Cons by simp
  ultimately show ?case by simp
qed simp

locale codec =
  fixes enc :: "'a \<Rightarrow> byte list" and dec :: "'a dec" and ok :: "'a \<Rightarrow> bool"
  assumes dec_enc: "ok x \<Longrightarrow> decodes 0 dec (enc x) x"
begin

lemma dec_enc_k: "ok x \<Longrightarrow> decodes k dec (enc x) x"
  by (rule decodes_mono [OF dec_enc]) simp_all

lemma roundtrip:
  assumes "ok x" "length (enc x @ rest) \<le> n"
  shows "\<exists>d. run_state dec (NewDecoder (enc x @ rest) n) = (x, d) \<and>
    dc_err d = None \<and> dc_R d = rest \<and> dc_N d = n - length (enc x)"
  using dec_enc [OF assms(1), unfolded decodes_def, rule_format,
      of "NewDecoder (enc x @ rest) n" rest] assms(2)
  by (auto simp: NewDecoder_def)

lemma prefix_free:
  assumes "ok x" "ok y" "enc x @ r = enc y @ s"
  shows "x = y \<and> r = s"
proof -
  let ?n = "length (enc x @ r)"
  obtain d where "run_state dec (NewDecoder (enc x @ r) ?n) = (x, d)" "dc_R d = r"
    using roundtrip [OF assms(1), of r ?n] by auto
  moreover obtain d' where "run_state dec (NewDecoder (enc y @ s) ?n) = (y, d')" "dc_R d' = s"
    using roundtrip [OF assms(2), of s ?n] assms(3) by auto
  ultimately show ?thesis using assms(3) by simp
qed

lemma enc_inj: "ok x \<Longrightarrow> ok y \<Longrightarrow> enc x = enc y \<longleftrightarrow> x = y"
  using prefix_free [of x y "[]" "[]"] by auto

lemma dec_many:
  assumes "\<forall>x \<in> set xs. ok x"
  shows "decodes k (ReadMany (length xs) dec) (concat (map enc xs)) xs"
  using assms by (intro decodes_ReadMany dec_enc_k) blast

lemma dec_list:
  assumes xs: "\<forall>x \<in> set xs. ok x \<and> enc x \<noteq> []" "length xs < 2 ^ 64"
  shows "decodes k (do { n \<leftarrow> ReadPrefix; ReadMany n dec })
    (WritePrefix (length xs) @ concat (map enc xs)) xs"
proof (rule decodes_bind)
  have "length xs \<le> length (concat (map enc xs))" by (rule length_concat_ge) (use xs(1) in blast)
  then show "decodes (length (concat (map enc xs)) + k) ReadPrefix (WritePrefix (length xs)) (length xs)"
    using xs(2) by (intro decodes_ReadPrefix) simp_all
  show "decodes k (ReadMany (length xs) dec) (concat (map enc xs)) xs"
    using xs(1) by (intro dec_many) blast
qed

lemma many_prefix_free:
  assumes "\<forall>x \<in> set xs. ok x" "\<forall>y \<in> set ys. ok y" "length xs = length ys"
    "concat (map enc xs) @ r = concat (map enc ys) @ s"
  shows "xs = ys \<and> r = s"
  using assms(3,1,2,4)
proof (induction xs ys arbitrary: r s rule: list_induct2)
  case (Cons x xs y ys)
  then have "x = y \<and> concat (map enc xs) @ r = concat (map enc ys) @ s"
    using prefix_free [of x y "concat (map enc xs) @ r" "concat (map enc ys) @ s"] by simp
  moreover from this have "xs = ys \<and> r = s" using Cons.prems by (intro Cons.IH) simp_all
  ultimately show ?case by simp
qed simp

end

interpretation uint64: codec WriteUint64 ReadUint64 "\<lambda>_. True"
  by unfold_locales (rule decodes_ReadUint64)

lemma WritePrefix_inj: "m < 2 ^ 64 \<Longrightarrow> n < 2 ^ 64 \<Longrightarrow> WritePrefix m = WritePrefix n \<longleftrightarrow> m = n"
  unfolding WritePrefix_def uint64.enc_inj [OF TrueI TrueI] by (metis unat_of_nat64)

context codec
begin

text \<open>A list behind its length is prefix-free, too.\<close>

lemma counted_prefix_free:
  assumes ok: "\<forall>x \<in> set xs. ok x" "\<forall>y \<in> set ys. ok y" and len: "length xs < 2 ^ 64" "length ys < 2 ^ 64"
    and eq: "WritePrefix (length xs) @ concat (map enc xs) @ r = WritePrefix (length ys) @ concat (map enc ys) @ s"
  shows "xs = ys \<and> r = s"
proof -
  have e: "WritePrefix (length xs) = WritePrefix (length ys) \<and>
      concat (map enc xs) @ r = concat (map enc ys) @ s"
    using eq by (rule iffD1 [OF append_eq_append_conv, rotated]) simp
  then have "length xs = length ys" using len by (simp only: WritePrefix_inj)
  then show ?thesis using e by (intro many_prefix_free ok) simp_all
qed

end

end
