(* ===== verification/Types.thy ===== *)
theory Types
  imports Codec Currency
begin

text \<open>
  sunyata.go and encoding.go: the data of the chain, its binary encoding and its identifiers.
  Hashes, addresses, block and transaction IDs and public keys are \<open>[32]byte\<close> in the code and
  256-bit words here; a signature is \<open>[64]byte\<close> and a 512-bit word. The hash function of the
  system (SHA-512/256) is a parameter \<open>H\<close> of every definition that hashes.

  Each type's record is followed by its \<open>EncodeTo\<close> (the bytes it writes) and \<open>DecodeFrom\<close>; the
  last section interprets the interface \<open>codec\<close> on every pair.
\<close>

section \<open>Hashes, identifiers, time\<close>

type_synonym hash256 = "256 word"
type_synonym address = hash256
type_synonym block_id = hash256
type_synonym transaction_id = hash256
type_synonym public_key = hash256
type_synonym signature = "512 word"
type_synonym hashfn = "byte list \<Rightarrow> hash256"

definition HashBytes :: "hashfn \<Rightarrow> byte list \<Rightarrow> hash256" where
  "HashBytes H b = H b"

text \<open>
  A small hash function for concrete instances. It tells inputs apart by their length, their byte 33 (in a
  leaf of a hash tree, the low byte of its number) and their last byte, and it is never 0.
\<close>

definition byte33 :: "byte list \<Rightarrow> byte" where
  "byte33 b = (if 33 < length b then b ! 33 else 0)"

definition sample_key :: "byte list \<Rightarrow> nat" where
  "sample_key b = length b mod 1000 + 1000 * (unat (byte33 b) + 256 * unat (last (0 # b)))"

definition sample_hash :: hashfn where
  "sample_hash b = word_of_nat (2 * sample_key b + 1)"

lemma sample_key_less: "2 * sample_key b + 1 < 2 ^ 40"
proof -
  have "unat (byte33 b) < 256" "unat (last (0 # b)) < 256"
    using unsigned_less [of "byte33 b"] unsigned_less [of "last (0 # b)"] by simp_all
  moreover have "length b mod 1000 < 1000" by simp
  ultimately show ?thesis unfolding sample_key_def by simp
qed

lemma unat_sample_hash: "unat (sample_hash b) = 2 * sample_key b + 1"
proof -
  have "2 * sample_key b + 1 < 2 ^ LENGTH(256)"
    using sample_key_less [of b] by (rule less_trans) simp
  then show ?thesis unfolding sample_hash_def by (simp only: unsigned_of_nat take_bit_nat_eq_self of_nat_id)
qed

lemma sample_hash_nonzero [simp]: "sample_hash b \<noteq> 0"
  using unat_sample_hash [of b] by (metis Suc_eq_plus1 nat.distinct(1) unat_0)

lemma sample_hash_neqI:
  assumes "sample_key b \<noteq> sample_key c"
  shows "sample_hash b \<noteq> sample_hash c"
proof
  assume "sample_hash b = sample_hash c"
  then have "2 * sample_key b + 1 = 2 * sample_key c + 1" by (metis unat_sample_hash)
  then show False using assms by simp
qed

lemma sample_hash_length:
  assumes "length b mod 1000 \<noteq> length c mod 1000"
  shows "sample_hash b \<noteq> sample_hash c"
proof (rule sample_hash_neqI)
  have "sample_key x mod 1000 = length x mod 1000" for x
    unfolding sample_key_def by (simp only: mod_mult_self2 mod_mod_trivial)
  then show "sample_key b \<noteq> sample_key c" using assms by metis
qed

definition VoidAddress :: address where
  "VoidAddress = 0"

text \<open>\<open>EphemeralLeafIndex\<close> is \<open>math.MaxUint64\<close>.\<close>

definition EphemeralLeafIndex :: u64 where
  "EphemeralLeafIndex = - 1"

text \<open>\<open>bytes.Compare\<close> on arrays is the order of the words.\<close>

definition BlockID_MeetsTarget :: "block_id \<Rightarrow> block_id \<Rightarrow> bool" where
  "BlockID_MeetsTarget bid t \<longleftrightarrow> bid \<le> t"

definition PublicKey_Address :: "hashfn \<Rightarrow> public_key \<Rightarrow> address" where
  "PublicKey_Address H pk = HashBytes H (array_bytes 32 pk)"

text \<open>
  A \<open>time.Time\<close> is the number of nanoseconds since 1970. Go keeps the seconds since year 1 in an
  \<open>int64\<close>, so \<open>time.Unix\<close> wraps around at that origin, and so does \<open>Unix\<close>.
\<close>

type_synonym gotime = int

definition unix_to_internal :: int where
  "unix_to_internal = 62135596800"

definition time_Unix :: "u64 \<Rightarrow> gotime" where
  "time_Unix sec = (sint (sec + word_of_int unix_to_internal) - unix_to_internal) * 1000000000"

definition Time_Unix :: "gotime \<Rightarrow> u64" where
  "Time_Unix t = word_of_int (t div 1000000000)"

text \<open>The times that the system handles: whole seconds within Go's range.\<close>

definition time_ok :: "gotime \<Rightarrow> bool" where
  "time_ok t \<longleftrightarrow> t = time_Unix (Time_Unix t)"

definition WriteTime :: "gotime \<Rightarrow> byte list" where
  "WriteTime t = WriteUint64 (Time_Unix t)"

definition ReadTime :: "gotime dec" where
  "ReadTime = do { u \<leftarrow> ReadUint64; State_Monad.return (time_Unix u) }"

definition Hash256_EncodeTo :: "hash256 \<Rightarrow> byte list" where
  "Hash256_EncodeTo h = array_bytes 32 h"

definition Hash256_DecodeFrom :: "hash256 dec" where
  "Hash256_DecodeFrom = do { b \<leftarrow> ReadArray 32; State_Monad.return (array_word b) }"

definition BlockID_EncodeTo :: "block_id \<Rightarrow> byte list" where
  "BlockID_EncodeTo h = array_bytes 32 h"

definition BlockID_DecodeFrom :: "block_id dec" where
  "BlockID_DecodeFrom = do { b \<leftarrow> ReadArray 32; State_Monad.return (array_word b) }"

definition TransactionID_EncodeTo :: "transaction_id \<Rightarrow> byte list" where
  "TransactionID_EncodeTo h = array_bytes 32 h"

definition TransactionID_DecodeFrom :: "transaction_id dec" where
  "TransactionID_DecodeFrom = do { b \<leftarrow> ReadArray 32; State_Monad.return (array_word b) }"

definition Address_EncodeTo :: "address \<Rightarrow> byte list" where
  "Address_EncodeTo h = array_bytes 32 h"

definition Address_DecodeFrom :: "address dec" where
  "Address_DecodeFrom = do { b \<leftarrow> ReadArray 32; State_Monad.return (array_word b) }"

definition PublicKey_EncodeTo :: "public_key \<Rightarrow> byte list" where
  "PublicKey_EncodeTo h = array_bytes 32 h"

definition PublicKey_DecodeFrom :: "public_key dec" where
  "PublicKey_DecodeFrom = do { b \<leftarrow> ReadArray 32; State_Monad.return (array_word b) }"

definition Signature_EncodeTo :: "signature \<Rightarrow> byte list" where
  "Signature_EncodeTo s = array_bytes 64 s"

definition Signature_DecodeFrom :: "signature dec" where
  "Signature_DecodeFrom = do { b \<leftarrow> ReadArray 64; State_Monad.return (array_word b) }"

definition Currency_EncodeTo :: "currency \<Rightarrow> byte list" where
  "Currency_EncodeTo c = WriteUint64 (Lo c) @ WriteUint64 (Hi c)"

definition Currency_DecodeFrom :: "currency dec" where
  "Currency_DecodeFrom = do {
     lo \<leftarrow> ReadUint64;
     hi \<leftarrow> ReadUint64;
     State_Monad.return \<lparr>Lo = lo, Hi = hi\<rparr>
   }"

section \<open>Chain indices and elements\<close>

record chain_index =
  ci_Height :: u64
  ci_ID :: block_id

definition ChainIndex_EncodeTo :: "chain_index \<Rightarrow> byte list" where
  "ChainIndex_EncodeTo ci = WriteUint64 (ci_Height ci) @ BlockID_EncodeTo (ci_ID ci)"

definition ChainIndex_DecodeFrom :: "chain_index dec" where
  "ChainIndex_DecodeFrom = do {
     h \<leftarrow> ReadUint64;
     i \<leftarrow> BlockID_DecodeFrom;
     State_Monad.return \<lparr>ci_Height = h, ci_ID = i\<rparr>
   }"

record element_id =
  ei_Source :: hash256
  ei_Index :: u64

definition ElementID_EncodeTo :: "element_id \<Rightarrow> byte list" where
  "ElementID_EncodeTo i = Hash256_EncodeTo (ei_Source i) @ WriteUint64 (ei_Index i)"

definition ElementID_DecodeFrom :: "element_id dec" where
  "ElementID_DecodeFrom = do {
     s \<leftarrow> Hash256_DecodeFrom;
     i \<leftarrow> ReadUint64;
     State_Monad.return \<lparr>ei_Source = s, ei_Index = i\<rparr>
   }"

record txn_output =
  out_Value :: currency
  out_Address :: address

definition Output_EncodeTo :: "txn_output \<Rightarrow> byte list" where
  "Output_EncodeTo o' = Currency_EncodeTo (out_Value o') @ Address_EncodeTo (out_Address o')"

definition Output_DecodeFrom :: "txn_output dec" where
  "Output_DecodeFrom = do {
     v \<leftarrow> Currency_DecodeFrom;
     a \<leftarrow> Address_DecodeFrom;
     State_Monad.return \<lparr>out_Value = v, out_Address = a\<rparr>
   }"

definition writeMerkleProof :: "hash256 list \<Rightarrow> byte list" where
  "writeMerkleProof proof' = WritePrefix (length proof') @ concat (map Hash256_EncodeTo proof')"

definition readMerkleProof :: "hash256 list dec" where
  "readMerkleProof = do { n \<leftarrow> ReadPrefix; ReadMany n Hash256_DecodeFrom }"

record state_element =
  se_ID :: element_id
  se_LeafIndex :: u64
  se_MerkleProof :: "hash256 list"

definition StateElement_EncodeTo :: "state_element \<Rightarrow> byte list" where
  "StateElement_EncodeTo se =
     ElementID_EncodeTo (se_ID se) @ WriteUint64 (se_LeafIndex se) @ writeMerkleProof (se_MerkleProof se)"

definition StateElement_DecodeFrom :: "state_element dec" where
  "StateElement_DecodeFrom = do {
     i \<leftarrow> ElementID_DecodeFrom;
     l \<leftarrow> ReadUint64;
     p \<leftarrow> readMerkleProof;
     State_Monad.return \<lparr>se_ID = i, se_LeafIndex = l, se_MerkleProof = p\<rparr>
   }"

text \<open>The embedded structs of \<open>OutputElement\<close> are the fields \<open>oe_SE\<close> and \<open>oe_Output\<close>.\<close>

record output_element =
  oe_SE :: state_element
  oe_Output :: txn_output
  oe_MaturityHeight :: u64

definition OutputElement_EncodeTo :: "output_element \<Rightarrow> byte list" where
  "OutputElement_EncodeTo oe =
     StateElement_EncodeTo (oe_SE oe) @ Output_EncodeTo (oe_Output oe) @ WriteUint64 (oe_MaturityHeight oe)"

definition OutputElement_DecodeFrom :: "output_element dec" where
  "OutputElement_DecodeFrom = do {
     se \<leftarrow> StateElement_DecodeFrom;
     o' \<leftarrow> Output_DecodeFrom;
     m \<leftarrow> ReadUint64;
     State_Monad.return \<lparr>oe_SE = se, oe_Output = o', oe_MaturityHeight = m\<rparr>
   }"

section \<open>Transactions and blocks\<close>

record txn_input =
  in_Parent :: output_element
  in_PublicKey :: public_key
  in_Signature :: signature

definition Input_EncodeTo :: "txn_input \<Rightarrow> byte list" where
  "Input_EncodeTo i =
     OutputElement_EncodeTo (in_Parent i) @ PublicKey_EncodeTo (in_PublicKey i) @ Signature_EncodeTo (in_Signature i)"

definition Input_DecodeFrom :: "txn_input dec" where
  "Input_DecodeFrom = do {
     p \<leftarrow> OutputElement_DecodeFrom;
     k \<leftarrow> PublicKey_DecodeFrom;
     s \<leftarrow> Signature_DecodeFrom;
     State_Monad.return \<lparr>in_Parent = p, in_PublicKey = k, in_Signature = s\<rparr>
   }"

record transaction =
  tx_Inputs :: "txn_input list"
  tx_Outputs :: "txn_output list"
  tx_MinerFee :: currency

definition Transaction_EncodeTo :: "transaction \<Rightarrow> byte list" where
  "Transaction_EncodeTo txn =
     WriteUint8 1
     @ WritePrefix (length (tx_Inputs txn)) @ concat (map Input_EncodeTo (tx_Inputs txn))
     @ WritePrefix (length (tx_Outputs txn)) @ concat (map Output_EncodeTo (tx_Outputs txn))
     @ Currency_EncodeTo (tx_MinerFee txn)"

text \<open>On an unknown version the receiver keeps its zero value.\<close>

definition zero_transaction :: transaction where
  "zero_transaction = \<lparr>tx_Inputs = [], tx_Outputs = [], tx_MinerFee = ZeroCurrency\<rparr>"

definition Transaction_DecodeFrom :: "transaction dec" where
  "Transaction_DecodeFrom = do {
     version \<leftarrow> ReadUint8;
     if version \<noteq> 1 then do {
       Decoder_SetErr (ErrVersion version);
       State_Monad.return zero_transaction
     } else do {
       is \<leftarrow> do { n \<leftarrow> ReadPrefix; ReadMany n Input_DecodeFrom };
       os \<leftarrow> do { n \<leftarrow> ReadPrefix; ReadMany n Output_DecodeFrom };
       f \<leftarrow> Currency_DecodeFrom;
       State_Monad.return \<lparr>tx_Inputs = is, tx_Outputs = os, tx_MinerFee = f\<rparr>
     }
   }"

text \<open>
  \<open>ID\<close> hashes what the transaction does: the IDs of its parents, its outputs and its fee.
\<close>

definition txn_effects :: "string \<Rightarrow> transaction \<Rightarrow> byte list" where
  "txn_effects tag txn =
     WriteString tag
     @ WritePrefix (length (tx_Inputs txn))
     @ concat (map (\<lambda>i. ElementID_EncodeTo (se_ID (oe_SE (in_Parent i)))) (tx_Inputs txn))
     @ WritePrefix (length (tx_Outputs txn)) @ concat (map Output_EncodeTo (tx_Outputs txn))
     @ Currency_EncodeTo (tx_MinerFee txn)"

definition Transaction_ID :: "hashfn \<Rightarrow> transaction \<Rightarrow> transaction_id" where
  "Transaction_ID H txn = H (txn_effects ''sunyata/id/transaction'' txn)"

definition Transaction_OutputID :: "hashfn \<Rightarrow> transaction \<Rightarrow> nat \<Rightarrow> element_id" where
  "Transaction_OutputID H txn i = \<lparr>ei_Source = Transaction_ID H txn, ei_Index = word_of_nat i\<rparr>"

text \<open>
  \<open>EphemeralOutputElement(i)\<close>: the code uses index 0 whatever \<open>i\<close> is; \<open>None\<close> is the panic of
  \<open>txn.Outputs[0]\<close> without outputs.
\<close>

definition Transaction_EphemeralOutputElement ::
    "hashfn \<Rightarrow> transaction \<Rightarrow> nat \<Rightarrow> output_element option" where
  "Transaction_EphemeralOutputElement H txn i =
     (case tx_Outputs txn of
        [] \<Rightarrow> None
      | o' # _ \<Rightarrow> Some \<lparr>oe_SE = \<lparr>se_ID = Transaction_OutputID H txn 0,
                               se_LeafIndex = EphemeralLeafIndex, se_MerkleProof = []\<rparr>,
                      oe_Output = o', oe_MaturityHeight = 0\<rparr>)"

lemma ephemeral_element_ignores_index:
  "Transaction_EphemeralOutputElement H txn i = Transaction_EphemeralOutputElement H txn j"
  by (simp add: Transaction_EphemeralOutputElement_def)

record block_header =
  bh_Height :: u64
  bh_ParentID :: block_id
  bh_Nonce :: u64
  bh_Timestamp :: gotime
  bh_MinerAddress :: address
  bh_Commitment :: hash256

definition BlockHeader_EncodeTo :: "block_header \<Rightarrow> byte list" where
  "BlockHeader_EncodeTo h =
     WriteUint64 (bh_Height h) @ BlockID_EncodeTo (bh_ParentID h) @ WriteUint64 (bh_Nonce h)
     @ WriteTime (bh_Timestamp h) @ Address_EncodeTo (bh_MinerAddress h)
     @ Hash256_EncodeTo (bh_Commitment h)"

definition BlockHeader_DecodeFrom :: "block_header dec" where
  "BlockHeader_DecodeFrom = do {
     h \<leftarrow> ReadUint64;
     p \<leftarrow> BlockID_DecodeFrom;
     n \<leftarrow> ReadUint64;
     t \<leftarrow> ReadTime;
     m \<leftarrow> Address_DecodeFrom;
     c \<leftarrow> Hash256_DecodeFrom;
     State_Monad.return \<lparr>bh_Height = h, bh_ParentID = p, bh_Nonce = n, bh_Timestamp = t,
                         bh_MinerAddress = m, bh_Commitment = c\<rparr>
   }"

text \<open>The 64 bytes that \<open>BlockHeader.ID\<close> hashes.\<close>

definition header_preimage :: "block_header \<Rightarrow> byte list" where
  "header_preimage h =
     str_bytes ''sunyata/id/block'' @ le_bytes 8 (bh_Nonce h) @ le_bytes 8 (Time_Unix (bh_Timestamp h))
     @ array_bytes 32 (bh_Commitment h)"

definition BlockHeader_ID :: "hashfn \<Rightarrow> block_header \<Rightarrow> block_id" where
  "BlockHeader_ID H h = HashBytes H (header_preimage h)"

definition BlockHeader_Index :: "hashfn \<Rightarrow> block_header \<Rightarrow> chain_index" where
  "BlockHeader_Index H h = \<lparr>ci_Height = bh_Height h, ci_ID = BlockHeader_ID H h\<rparr>"

definition BlockHeader_ParentIndex :: "block_header \<Rightarrow> chain_index" where
  "BlockHeader_ParentIndex h = \<lparr>ci_Height = bh_Height h - 1, ci_ID = bh_ParentID h\<rparr>"

record block =
  b_Header :: block_header
  b_Transactions :: "transaction list"

definition Block_ID :: "hashfn \<Rightarrow> block \<Rightarrow> block_id" where
  "Block_ID H b = BlockHeader_ID H (b_Header b)"

definition Block_Index :: "hashfn \<Rightarrow> block \<Rightarrow> chain_index" where
  "Block_Index H b = BlockHeader_Index H (b_Header b)"

definition Block_MinerOutputID :: "hashfn \<Rightarrow> block \<Rightarrow> element_id" where
  "Block_MinerOutputID H b = \<lparr>ei_Source = Block_ID H b, ei_Index = 0\<rparr>"

end
