(* ===== verification/Work.thy ===== *)
theory Work
  imports Types
begin

text \<open>
  The type \<open>Work\<close> of sunyata.go: 256-bit quantities of work in big-endian order, its limb-wise
  arithmetic, and the two conversions between work and block IDs. The lemmas show that the limb
  loops compute the 256-bit sum, difference, product and quotient, and that the two conversions
  form a Galois connection: a hash at least as good as \<open>HashRequiringWork w\<close> is worth \<open>w\<close>, and
  no greater hash is.
\<close>

section \<open>Limb arithmetic\<close>

record work =
  NumHashes :: "256 word"

text \<open>\<open>binary.BigEndian.Uint64\<close> and \<open>PutUint64\<close> at byte offset \<open>i\<close> of a \<open>[32]byte\<close>.\<close>

definition be64 :: "256 word \<Rightarrow> nat \<Rightarrow> u64" where
  "be64 b i = ucast (drop_bit (192 - 8 * i) b)"

definition put_be64 :: "256 word \<Rightarrow> nat \<Rightarrow> u64 \<Rightarrow> 256 word" where
  "put_be64 b i v =
     (b AND NOT (push_bit (192 - 8 * i) (mask 64))) OR push_bit (192 - 8 * i) (ucast v)"

text \<open>The loops run over the offsets given first, with the carry and the result so far.\<close>

fun Work_Add_loop :: "nat list \<Rightarrow> 256 word \<Rightarrow> 256 word \<Rightarrow> u64 \<Rightarrow> 256 word \<Rightarrow> 256 word" where
  "Work_Add_loop [] w v c r = r"
| "Work_Add_loop (i # is) w v c r =
     (let (sum, c') = bits_Add64 (be64 w i) (be64 v i) c
      in Work_Add_loop is w v c' (put_be64 r i sum))"

definition Work_Add :: "work \<Rightarrow> work \<Rightarrow> work" where
  "Work_Add w v = \<lparr>NumHashes = Work_Add_loop [24, 16, 8, 0] (NumHashes w) (NumHashes v) 0 0\<rparr>"

fun Work_Sub_loop :: "nat list \<Rightarrow> 256 word \<Rightarrow> 256 word \<Rightarrow> u64 \<Rightarrow> 256 word \<Rightarrow> 256 word" where
  "Work_Sub_loop [] w v c r = r"
| "Work_Sub_loop (i # is) w v c r =
     (let (sum, c') = bits_Sub64 (be64 w i) (be64 v i) c
      in Work_Sub_loop is w v c' (put_be64 r i sum))"

definition Work_Sub :: "work \<Rightarrow> work \<Rightarrow> work" where
  "Work_Sub w v = \<lparr>NumHashes = Work_Sub_loop [24, 16, 8, 0] (NumHashes w) (NumHashes v) 0 0\<rparr>"

fun Work_Mul64_loop :: "nat list \<Rightarrow> 256 word \<Rightarrow> u64 \<Rightarrow> u64 \<Rightarrow> 256 word \<Rightarrow> 256 word" where
  "Work_Mul64_loop [] w v c r = r"
| "Work_Mul64_loop (i # is) w v c r =
     (let (hi, prod) = bits_Mul64 (be64 w i) v;
          (prod, cc) = bits_Add64 prod c 0
      in Work_Mul64_loop is w v (hi + cc) (put_be64 r i prod))"

definition Work_Mul64 :: "work \<Rightarrow> u64 \<Rightarrow> work" where
  "Work_Mul64 w v = \<lparr>NumHashes = Work_Mul64_loop [24, 16, 8, 0] (NumHashes w) v 0 0\<rparr>"

fun Work_Div64_loop :: "nat list \<Rightarrow> 256 word \<Rightarrow> u64 \<Rightarrow> u64 \<Rightarrow> 256 word \<Rightarrow> 256 word option" where
  "Work_Div64_loop [] w v rem r = Some r"
| "Work_Div64_loop (i # is) w v rem r = do {
     (quo, rem') \<leftarrow> bits_Div64 rem (be64 w i) v;
     Work_Div64_loop is w v rem' (put_be64 r i quo)
   }"

text \<open>\<open>None\<close> is the panic of a division by zero.\<close>

definition Work_Div64 :: "work \<Rightarrow> u64 \<Rightarrow> work option" where
  "Work_Div64 w v = do {
     r \<leftarrow> Work_Div64_loop [0, 8, 16, 24] (NumHashes w) v 0 0;
     Some \<lparr>NumHashes = r\<rparr>
   }"

definition Work_Cmp :: "work \<Rightarrow> work \<Rightarrow> int" where
  "Work_Cmp w v =
     (if NumHashes w < NumHashes v then -1 else if NumHashes w = NumHashes v then 0 else 1)"

section \<open>Work and block IDs\<close>

text \<open>The quotient is a \<open>big.Int\<close>; \<open>FillBytes\<close> panics when it needs more than 32 bytes.\<close>

definition FillBytes32 :: "nat \<Rightarrow> 256 word option" where
  "FillBytes32 n = (if n < 2 ^ 256 then Some (word_of_nat n) else None)"

definition WorkRequiredForHash :: "block_id \<Rightarrow> work option" where
  "WorkRequiredForHash bid =
     (if bid = 0 then None
      else if bid = 1 then Some \<lparr>NumHashes = - 1\<rparr>
      else do { q \<leftarrow> FillBytes32 (2 ^ 256 div unat bid); Some \<lparr>NumHashes = q\<rparr> })"

definition HashRequiringWork :: "work \<Rightarrow> block_id option" where
  "HashRequiringWork w =
     (if NumHashes w = 0 then None
      else if NumHashes w = 1 then Some (- 1)
      else FillBytes32 (2 ^ 256 div unat (NumHashes w)))"

section \<open>The limb loops are 256-bit arithmetic\<close>

abbreviation work_nat :: "work \<Rightarrow> nat" where
  "work_nat w \<equiv> unat (NumHashes w)"

lemma unat256_lt: "unat (x::256 word) < 2 ^ 256"
  using unsigned_less [of x] by simp

lemma be64_unat: "unat (be64 w i) = unat w div 2 ^ (192 - 8 * i) mod 2 ^ 64"
proof -
  have "unat (be64 w i) = take_bit 64 (drop_bit (192 - 8 * i) (take_bit 256 (unat w)))"
    by (simp add: be64_def unsigned_ucast_eq unsigned_drop_bit_eq)
  also have "take_bit 256 (unat w) = unat w" by (rule take_bit_nat_eq_self) (rule unat256_lt)
  finally show ?thesis by (simp only: drop_bit_eq_div take_bit_eq_mod)
qed

text \<open>The value of four limbs, least significant first.\<close>

definition limbs :: "nat \<Rightarrow> nat \<Rightarrow> nat \<Rightarrow> nat \<Rightarrow> nat" where
  "limbs d c b a = d + 2 ^ 64 * (c + 2 ^ 64 * (b + 2 ^ 64 * a))"

lemma split_limb: "(n::nat) div 2 ^ k = n div 2 ^ k mod 2 ^ 64 + 2 ^ 64 * (n div 2 ^ (64 + k))"
  by (simp add: power_add div_mult2_eq mult.commute)

lemma limbs_be64: "unat w = limbs (unat (be64 w 24)) (unat (be64 w 16)) (unat (be64 w 8)) (unat (be64 w 0))"
proof -
  have "unat w div 2 ^ 192 < 2 ^ 64"
    using unat256_lt [of w] by (simp add: div_less_iff_less_mult)
  then show ?thesis
    using split_limb [of "unat w" 0] split_limb [of "unat w" 64] split_limb [of "unat w" 128]
    by (simp add: limbs_def be64_unat del: power_numeral)
qed

text \<open>Writing the four limbs in either order gives the number.\<close>

definition word_limbs :: "u64 \<Rightarrow> u64 \<Rightarrow> u64 \<Rightarrow> u64 \<Rightarrow> 256 word" where
  "word_limbs d c b a =
     push_bit 192 (ucast a) OR push_bit 128 (ucast b) OR push_bit 64 (ucast c) OR ucast d"

lemma put_limbs_up:
  "put_be64 (put_be64 (put_be64 (put_be64 0 24 d) 16 c) 8 b) 0 a = word_limbs d c b a"
  unfolding put_be64_def word_limbs_def
  by (rule bit_word_eqI) (auto simp: bit_simps dest: bit_imp_le_length)

lemma put_limbs_down:
  "put_be64 (put_be64 (put_be64 (put_be64 0 0 a) 8 b) 16 c) 24 d = word_limbs d c b a"
  unfolding put_be64_def word_limbs_def
  by (rule bit_word_eqI) (auto simp: bit_simps dest: bit_imp_le_length)

lemma unat_or_shift256:
  fixes x y :: "256 word"
  assumes "2 ^ n * unat x < 2 ^ 256" "unat y < 2 ^ n"
  shows "unat (push_bit n x OR y) = 2 ^ n * unat x + unat y"
proof -
  have "unat (push_bit n x) = take_bit 256 (push_bit n (unat x))"
    using unsigned_push_bit_eq [of n x, where ?'a = nat] by simp
  then have "unat (push_bit n x) = push_bit n (unat x)"
    using assms(1) by (simp only: take_bit_eq_mod push_bit_eq_mult [of n "unat x"] mod_less mult.commute)
  then show ?thesis using or_shift_nat [OF assms(2)] by (simp add: unsigned_or_eq)
qed

lemma unat_ucast256: "unat (ucast (l::u64) :: 256 word) = unat l"
proof -
  have "unat l < 2 ^ 256" using unat64_lt [of l] by (rule less_trans) simp
  then show ?thesis by (simp add: unsigned_ucast_eq take_bit_nat_eq_self)
qed

lemma limb_step:
  fixes x :: "256 word" and l :: u64
  assumes "unat x < 2 ^ k" "k + 64 \<le> 256"
  shows "unat (push_bit 64 x OR ucast l) = 2 ^ 64 * unat x + unat l"
    and "unat (push_bit 64 x OR ucast l) < 2 ^ (k + 64)"
proof -
  note l = unat_ucast256 [of l]
  have "2 ^ 64 * (unat x + 1) \<le> (2::nat) ^ 64 * 2 ^ k"
    using assms(1) by (intro mult_left_mono) simp_all
  then have lt: "2 ^ 64 * unat x + 2 ^ 64 \<le> (2::nat) ^ (k + 64)"
    by (simp add: power_add mult.commute)
  also have "(2::nat) ^ (k + 64) \<le> 2 ^ 256" using assms(2) by (rule power_increasing) simp
  finally have "2 ^ 64 * unat x < (2::nat) ^ 256" by (rule less_le_trans [rotated]) simp
  then show eq: "unat (push_bit 64 x OR ucast l) = 2 ^ 64 * unat x + unat l"
    using unat64_lt [of l] by (subst unat_or_shift256) (simp_all only: l)
  show "unat (push_bit 64 x OR ucast l) < 2 ^ (k + 64)"
    unfolding eq using lt unat64_lt [of l] by linarith
qed

lemma unat_word_limbs:
  "unat (word_limbs d c b a) = limbs (unat d) (unat c) (unat b) (unat a)"
proof -
  have h: "word_limbs d c b a
      = push_bit 64 (push_bit 64 (push_bit 64 (ucast a) OR ucast b) OR ucast c) OR ucast d"
    unfolding word_limbs_def by (simp add: or.assoc)
  note a = unat_ucast256 [of a]
  then have 1: "unat (ucast a :: 256 word) < 2 ^ 64" using unat64_lt by simp
  note 2 = limb_step [OF 1, of b]
  note 3 = limb_step [OF 2(2), of c]
  note 4 = limb_step(1) [OF 3(2), of d]
  show ?thesis unfolding h limbs_def using 2(1) 3(1) 4 a by (simp del: power_numeral)
qed

section \<open>Sum, difference, product and quotient\<close>

lemma limbs_lt:
  assumes "d < 2 ^ 64" "c < 2 ^ 64" "b < 2 ^ 64" "a < 2 ^ 64"
  shows "limbs d c b a < 2 ^ 256"
proof -
  have "x + 2 ^ 64 * y < 2 ^ (64 + k)" if "x < 2 ^ 64" "y < 2 ^ k" for x y k :: nat
  proof -
    have "2 ^ 64 * (y + 1) \<le> (2::nat) ^ 64 * 2 ^ k" using that(2) by (intro mult_left_mono) simp_all
    then show ?thesis using that(1) by (simp add: power_add)
  qed
  note step = this
  have "b + 2 ^ 64 * a < 2 ^ (64 + 64)" using assms by (intro step) simp_all
  then have "c + 2 ^ 64 * (b + 2 ^ 64 * a) < 2 ^ (64 + (64 + 64))" using assms by (intro step) simp_all
  then have "d + 2 ^ 64 * (c + 2 ^ 64 * (b + 2 ^ 64 * a)) < 2 ^ (64 + (64 + (64 + 64)))"
    using assms by (intro step) simp_all
  then show ?thesis by (simp add: limbs_def)
qed

text \<open>A carry chain of two numbers is put together from its low limb and the rest.\<close>

lemma carry_step:
  fixes lo1 :: nat
  assumes "lo3 + B * k = lo1 + lo2 + c" "hi3 + P * k' = hi1 + hi2 + k"
  shows "(lo3 + B * hi3) + B * P * k' = (lo1 + B * hi1) + (lo2 + B * hi2) + c"
proof -
  have "B * (hi3 + P * k') = B * (hi1 + hi2 + k)" using assms(2) by simp
  then show ?thesis using assms(1) by (simp add: algebra_simps)
qed

lemma borrow_step:
  fixes lo1 :: nat
  assumes "lo3 + lo2 + c = lo1 + B * k" "hi3 + hi2 + k = hi1 + P * k'"
  shows "(lo3 + B * hi3) + (lo2 + B * hi2) + c = (lo1 + B * hi1) + B * P * k'"
proof -
  have "B * (hi3 + hi2 + k) = B * (hi1 + P * k')" using assms(2) by simp
  then show ?thesis using assms(1) by (simp add: algebra_simps)
qed

lemma mul_step:
  fixes lo1 :: nat
  assumes "lo3 + B * k = lo1 * v + c" "hi3 + P * k' = hi1 * v + k"
  shows "(lo3 + B * hi3) + B * P * k' = (lo1 + B * hi1) * v + c"
proof -
  have "B * (hi3 + P * k') = B * (hi1 * v + k)" using assms(2) by simp
  then show ?thesis using assms(1) by (simp add: algebra_simps)
qed

lemma pow256: "(2::nat) ^ 64 * (2 ^ 64 * (2 ^ 64 * 2 ^ 64)) = 2 ^ 256"
  by simp

lemma word256_eq_mod: "unat (x::256 word) + 2 ^ 256 * k = n \<Longrightarrow> unat x = n mod 2 ^ 256"
  by (metis mod_mult_self2 mod_less unat256_lt)

lemma Work_Add_word: "NumHashes (Work_Add w v) = NumHashes w + NumHashes v"
proof -
  let ?w = "\<lambda>i. be64 (NumHashes w) i" and ?v = "\<lambda>i. be64 (NumHashes v) i"
  obtain d k1 where 1: "bits_Add64 (?w 24) (?v 24) 0 = (d, k1)" by fastforce
  obtain c k2 where 2: "bits_Add64 (?w 16) (?v 16) k1 = (c, k2)" by fastforce
  obtain b k3 where 3: "bits_Add64 (?w 8) (?v 8) k2 = (b, k3)" by fastforce
  obtain a k4 where 4: "bits_Add64 (?w 0) (?v 0) k3 = (a, k4)" by fastforce
  have r: "NumHashes (Work_Add w v) = word_limbs d c b a"
    by (simp add: Work_Add_def 1 2 3 4 put_limbs_up)
  have u1: "unat d + 2 ^ 64 * unat k1 = unat (?w 24) + unat (?v 24) + 0" "unat k1 \<le> 1"
    using bits_Add64_unat [OF 1] by simp_all
  note u2 = bits_Add64_unat [OF 2 u1(2)]
  note u3 = bits_Add64_unat [OF 3 conjunct2 [OF u2]]
  note u4 = bits_Add64_unat [OF 4 conjunct2 [OF u3]]
  have "unat (word_limbs d c b a) + 2 ^ 256 * unat k4 = unat (NumHashes w) + unat (NumHashes v) + 0"
    unfolding unat_word_limbs limbs_be64 [of "NumHashes w"] limbs_be64 [of "NumHashes v"]
      limbs_def pow256 [symmetric]
    by (intro carry_step [OF u1(1)] carry_step [OF conjunct1 [OF u2]]
        carry_step [OF conjunct1 [OF u3]] conjunct1 [OF u4])
  from word256_eq_mod [OF this] show ?thesis
    unfolding r by (simp add: word_unat_eq_iff unat_word_ariths)
qed

lemma Work_Sub_word: "NumHashes (Work_Sub w v) = NumHashes w - NumHashes v"
proof -
  let ?w = "\<lambda>i. be64 (NumHashes w) i" and ?v = "\<lambda>i. be64 (NumHashes v) i"
  obtain d k1 where 1: "bits_Sub64 (?w 24) (?v 24) 0 = (d, k1)" by fastforce
  obtain c k2 where 2: "bits_Sub64 (?w 16) (?v 16) k1 = (c, k2)" by fastforce
  obtain b k3 where 3: "bits_Sub64 (?w 8) (?v 8) k2 = (b, k3)" by fastforce
  obtain a k4 where 4: "bits_Sub64 (?w 0) (?v 0) k3 = (a, k4)" by fastforce
  have r: "NumHashes (Work_Sub w v) = word_limbs d c b a"
    by (simp add: Work_Sub_def 1 2 3 4 put_limbs_up)
  have u1: "unat d + unat (?v 24) + 0 = unat (?w 24) + 2 ^ 64 * unat k1" "unat k1 \<le> 1"
    using bits_Sub64_unat [OF 1] by simp_all
  note u2 = bits_Sub64_unat [OF 2 u1(2)]
  note u3 = bits_Sub64_unat [OF 3 conjunct2 [OF u2]]
  note u4 = bits_Sub64_unat [OF 4 conjunct2 [OF u3]]
  have "unat (word_limbs d c b a) + unat (NumHashes v) + 0 = unat (NumHashes w) + 2 ^ 256 * unat k4"
    unfolding unat_word_limbs limbs_be64 [of "NumHashes w"] limbs_be64 [of "NumHashes v"]
      limbs_def pow256 [symmetric]
    by (intro borrow_step [OF u1(1)] borrow_step [OF conjunct1 [OF u2]]
        borrow_step [OF conjunct1 [OF u3]] conjunct1 [OF u4])
  then have "unat (word_limbs d c b a + NumHashes v) = unat (NumHashes w)"
    unfolding unat_word_ariths by (simp add: mod_less [OF unat256_lt, simplified])
  then have "word_limbs d c b a + NumHashes v = NumHashes w" by (simp only: word_unat_eq_iff)
  then show ?thesis unfolding r by (simp add: eq_diff_eq)
qed

text \<open>The carry of the product, \<open>hi + cc\<close>, does not overflow.\<close>

lemma mul_limb:
  assumes "bits_Mul64 x v = (hi, p)" "bits_Add64 p c 0 = (r, cc)"
  shows "unat r + 2 ^ 64 * unat (hi + cc) = unat x * unat v + unat c"
proof -
  note m = bits_Mul64_unat [OF assms(1)]
  have a: "unat r + 2 ^ 64 * unat cc = unat p + unat c"
    using bits_Add64_unat [OF assms(2)] by simp
  have "unat x * unat v \<le> (2 ^ 64 - 1) * (2 ^ 64 - 1)"
    using unat64_lt [of x] unat64_lt [of v] by (intro mult_mono) simp_all
  then have "2 ^ 64 * (unat hi + unat cc) < 2 ^ 64 * 2 ^ 64"
    using m a unat64_lt [of c] by (simp add: algebra_simps)
  then have "unat hi + unat cc < 2 ^ 64" by (simp only: mult_less_cancel1)
  then have "unat (hi + cc) = unat hi + unat cc" by (simp add: unat_word_ariths)
  then show ?thesis using m a by (simp add: algebra_simps)
qed

lemma Work_Mul64_word: "NumHashes (Work_Mul64 w v) = NumHashes w * ucast v"
proof -
  let ?w = "\<lambda>i. be64 (NumHashes w) i"
  obtain h1 p1 where m1: "bits_Mul64 (?w 24) v = (h1, p1)" by fastforce
  obtain d e1 where a1: "bits_Add64 p1 0 0 = (d, e1)" by fastforce
  obtain h2 p2 where m2: "bits_Mul64 (?w 16) v = (h2, p2)" by fastforce
  obtain c e2 where a2: "bits_Add64 p2 (h1 + e1) 0 = (c, e2)" by fastforce
  obtain h3 p3 where m3: "bits_Mul64 (?w 8) v = (h3, p3)" by fastforce
  obtain b e3 where a3: "bits_Add64 p3 (h2 + e2) 0 = (b, e3)" by fastforce
  obtain h4 p4 where m4: "bits_Mul64 (?w 0) v = (h4, p4)" by fastforce
  obtain a e4 where a4: "bits_Add64 p4 (h3 + e3) 0 = (a, e4)" by fastforce
  have r: "NumHashes (Work_Mul64 w v) = word_limbs d c b a"
    by (simp add: Work_Mul64_def m1 a1 m2 a2 m3 a3 m4 a4 put_limbs_up)
  have u1: "unat d + 2 ^ 64 * unat (h1 + e1) = unat (?w 24) * unat v + 0"
    using mul_limb [OF m1 a1] by simp
  have "unat (word_limbs d c b a) + 2 ^ 256 * unat (h4 + e4) = unat (NumHashes w) * unat v + 0"
    unfolding unat_word_limbs limbs_be64 [of "NumHashes w"] limbs_def pow256 [symmetric]
    by (intro mul_step [OF u1] mul_step [OF mul_limb [OF m2 a2]]
        mul_step [OF mul_limb [OF m3 a3]] mul_limb [OF m4 a4])
  from word256_eq_mod [OF this] show ?thesis
    unfolding r by (simp add: word_unat_eq_iff unat_word_ariths unat_ucast256)
qed

text \<open>One step of long division, most significant limb first.\<close>

lemma div_step:
  fixes n :: nat
  assumes "0 < v"
  shows "(lo + B * n) div v = (n mod v * B + lo) div v + B * (n div v)"
    and "(lo + B * n) mod v = (n mod v * B + lo) mod v"
proof -
  have "lo + B * n = lo + B * (v * (n div v) + n mod v)" by simp
  also have "\<dots> = (n mod v * B + lo) + v * (B * (n div v))"
    by (simp only: algebra_simps)
  finally have e: "lo + B * n = (n mod v * B + lo) + v * (B * (n div v))" .
  show "(lo + B * n) div v = (n mod v * B + lo) div v + B * (n div v)"
    unfolding e using assms by (simp add: div_mult_self2)
  show "(lo + B * n) mod v = (n mod v * B + lo) mod v"
    unfolding e by (simp only: mod_mult_self2)
qed

lemma mod_less_word: "unat r = n mod unat (v::u64) \<Longrightarrow> v \<noteq> 0 \<Longrightarrow> r < v"
  by (simp add: word_less_nat_alt unat_gt_0)

lemma Work_Div64_nat:
  assumes "v \<noteq> 0"
  shows "\<exists>r. Work_Div64 w v = Some r \<and> work_nat r = work_nat w div unat v"
proof -
  let ?w = "\<lambda>i. be64 (NumHashes w) i"
  have v: "0 < unat v" and v0: "0 < v" using assms by (simp_all add: unat_gt_0 word_neq_0_conv)
  obtain a r1 where 1: "bits_Div64 0 (?w 0) v = Some (a, r1)"
    and a: "unat a = unat (?w 0) div unat v" and r1: "unat r1 = unat (?w 0) mod unat v"
    using bits_Div64_unat [OF v0, of "?w 0"] by auto
  obtain b r2 where 2: "bits_Div64 r1 (?w 8) v = Some (b, r2)"
    and b: "unat b = (unat r1 * 2 ^ 64 + unat (?w 8)) div unat v"
    and r2: "unat r2 = (unat r1 * 2 ^ 64 + unat (?w 8)) mod unat v"
    by (rule bits_Div64_unat [OF mod_less_word [OF r1 assms]])
  obtain c r3 where 3: "bits_Div64 r2 (?w 16) v = Some (c, r3)"
    and c: "unat c = (unat r2 * 2 ^ 64 + unat (?w 16)) div unat v"
    and r3: "unat r3 = (unat r2 * 2 ^ 64 + unat (?w 16)) mod unat v"
    by (rule bits_Div64_unat [OF mod_less_word [OF r2 assms]])
  obtain d r4 where 4: "bits_Div64 r3 (?w 24) v = Some (d, r4)"
    and d: "unat d = (unat r3 * 2 ^ 64 + unat (?w 24)) div unat v"
    by (rule bits_Div64_unat [OF mod_less_word [OF r3 assms]])
  have r: "Work_Div64 w v = Some \<lparr>NumHashes = word_limbs d c b a\<rparr>"
    by (simp add: Work_Div64_def 1 2 3 4 put_limbs_down)
  have "unat (word_limbs d c b a) = work_nat w div unat v"
    unfolding unat_word_limbs limbs_be64 [of "NumHashes w"] limbs_def d c b a r3 r2 r1
    by (simp only: div_step [OF v])
  with r show ?thesis by auto
qed

lemma Work_Div64_zero: "Work_Div64 w 0 = None"
  by (simp add: Work_Div64_def bits_Div64_def)

lemma Work_Cmp_nat:
  "Work_Cmp w v = (if work_nat w < work_nat v then -1 else if work_nat w = work_nat v then 0 else 1)"
  by (simp add: Work_Cmp_def word_less_nat_alt word_unat_eq_iff)

text \<open>Work is ordered by its number of hashes.\<close>

instantiation work_ext :: (linorder) linorder
begin

definition less_eq_work_ext :: "'a work_scheme \<Rightarrow> 'a work_scheme \<Rightarrow> bool" where
  "less_eq_work_ext w v \<longleftrightarrow> (NumHashes w, work.more w) \<le> (NumHashes v, work.more v)"

definition less_work_ext :: "'a work_scheme \<Rightarrow> 'a work_scheme \<Rightarrow> bool" where
  "less_work_ext w v \<longleftrightarrow> (NumHashes w, work.more w) < (NumHashes v, work.more v)"

instance
  by intro_classes
    (auto simp: less_eq_work_ext_def less_work_ext_def less_le_not_le intro: work.equality dest: antisym)

end

lemma work_less_nat: "w < v \<longleftrightarrow> work_nat w < work_nat v" for w v :: work
  by (simp add: less_work_ext_def less_prod_def word_less_nat_alt)

lemma Work_Cmp_order: "Work_Cmp w v = (if w < v then - 1 else if w = v then 0 else 1)"
  by (simp add: Work_Cmp_nat work_less_nat word_unat_eq_iff [symmetric])

section \<open>Work against hashes\<close>

lemma unat_of_nat256: "n < 2 ^ 256 \<Longrightarrow> unat (word_of_nat n :: 256 word) = n"
  by (simp add: unat_of_nat take_bit_nat_eq_self)

lemma unat_minus_one_256: "unat (- 1 :: 256 word) = 2 ^ 256 - 1"
  by (simp add: unsigned_minus_1_eq_mask mask_eq_exp_minus_1)

text \<open>Both conversions saturate \<open>2^256 / n\<close> at the largest number of 256 bits.\<close>

definition inv256 :: "256 word \<Rightarrow> nat" where
  "inv256 x = min (2 ^ 256 - 1) (2 ^ 256 div unat x)"

lemma inv256_cases:
  assumes "x \<noteq> 0"
  obtains "x = 1" "inv256 x = 2 ^ 256 - 1" |
    "x \<noteq> 1" "2 ^ 256 div unat x < 2 ^ 256" "inv256 x = 2 ^ 256 div unat x"
proof (cases "x = 1")
  case False
  have "0 < unat x" "unat x \<noteq> 1"
    using assms False by (simp_all only: unat_gt_0 word_unat_eq_iff unsigned_1 simp_thms)
  then have "1 < unat x" by linarith
  then have "2 ^ 256 div unat x < (2::nat) ^ 256"
    by (rule div_less_dividend) (rule zero_less_power, rule zero_less_numeral)
  moreover from this have "inv256 x = 2 ^ 256 div unat x"
    unfolding inv256_def by (intro min.absorb2) linarith
  ultimately show ?thesis by (rule that(2) [OF False])
next
  case True
  then have "inv256 x = 2 ^ 256 - 1" unfolding inv256_def by simp
  with True show ?thesis by (rule that(1))
qed

lemma inv256_lt: "inv256 x < 2 ^ 256"
  by (simp add: inv256_def min_less_iff_disj)

lemma saturated_word: "unat x = inv256 y \<Longrightarrow> word_of_nat (inv256 y) = (x :: 256 word)"
  by (metis of_nat_unat ucast_id)

lemma WorkRequiredForHash_eq:
  "WorkRequiredForHash x = (if x = 0 then None else Some \<lparr>NumHashes = word_of_nat (inv256 x)\<rparr>)"
proof (cases "x = 0")
  case False
  then show ?thesis
  proof (cases rule: inv256_cases)
    case 1
    have "word_of_nat (inv256 x) = (- 1 :: 256 word)"
      by (rule saturated_word) (simp only: 1(2) unat_minus_one_256)
    then show ?thesis using False 1(1) by (simp add: WorkRequiredForHash_def)
  next
    case 2
    show ?thesis
      unfolding WorkRequiredForHash_def FillBytes32_def 2(3) if_P [OF 2(2)]
      using False 2(1) by (simp only: if_False bind.bind_lunit)
  qed
qed (simp add: WorkRequiredForHash_def)

lemma HashRequiringWork_eq:
  "HashRequiringWork w = (if NumHashes w = 0 then None else Some (word_of_nat (inv256 (NumHashes w))))"
proof (cases "NumHashes w = 0")
  case False
  then show ?thesis
  proof (cases rule: inv256_cases)
    case 1
    have "word_of_nat (inv256 (NumHashes w)) = (- 1 :: 256 word)"
      by (rule saturated_word) (simp only: 1(2) unat_minus_one_256)
    then show ?thesis using False 1(1) by (simp add: HashRequiringWork_def)
  next
    case 2
    show ?thesis
      unfolding HashRequiringWork_def FillBytes32_def 2(3) if_P [OF 2(2)]
      using False 2(1) by (simp only: if_False)
  qed
qed (simp add: HashRequiringWork_def)

lemma inv256_galois:
  assumes "x \<noteq> 0" "y \<noteq> 0"
  shows "unat x \<le> inv256 y \<longleftrightarrow> unat y \<le> inv256 x"
proof -
  have p: "0 < unat x" "0 < unat y" using assms by (simp_all add: unat_gt_0)
  have m: "unat x \<le> 2 ^ 256 - 1" "unat y \<le> 2 ^ 256 - 1"
    using unat256_lt [of x] unat256_lt [of y] by linarith+
  show ?thesis
    using m p by (simp add: inv256_def less_eq_div_iff_mult_less_eq mult.commute)
qed

lemma MeetsTarget_iff:
  assumes "NumHashes w \<noteq> 0" "x \<noteq> 0"
    "HashRequiringWork w = Some t" "WorkRequiredForHash x = Some wx"
  shows "BlockID_MeetsTarget x t \<longleftrightarrow> work_nat w \<le> work_nat wx"
proof -
  have "unat t = inv256 (NumHashes w)" "work_nat wx = inv256 x"
    using assms by (auto simp: HashRequiringWork_eq WorkRequiredForHash_eq unat_of_nat256 [OF inv256_lt])
  then show ?thesis
    using inv256_galois [OF assms(2,1)] by (simp add: BlockID_MeetsTarget_def word_le_nat_alt)
qed

end
