(* ===== verification/Encoding.thy ===== *)
theory Encoding
  imports Types
begin

text \<open>
  Every \<open>DecodeFrom\<close> undoes its \<open>EncodeTo\<close>: the interface \<open>codec\<close> is interpreted on each pair of
  the theory Types. The facts of these interpretations (round trip, prefix-freeness and
  injectivity of the encoding) carry the properties about encodings, identifiers and commitments.
\<close>

section \<open>Fixed-size values\<close>

lemma decodes_array:
  "LENGTH('a) \<le> 8 * n \<Longrightarrow>
   decodes k (do { b \<leftarrow> ReadArray n; State_Monad.return (array_word b) }) (array_bytes n (w :: 'a::len word)) w"
  by (rule decodes_last [OF decodes_ReadArray]) (simp_all add: array_word_bytes)

interpretation hash256: codec Hash256_EncodeTo Hash256_DecodeFrom "\<lambda>_. True"
  by unfold_locales (simp add: Hash256_EncodeTo_def Hash256_DecodeFrom_def decodes_array)

interpretation block_id: codec BlockID_EncodeTo BlockID_DecodeFrom "\<lambda>_. True"
  by unfold_locales (simp add: BlockID_EncodeTo_def BlockID_DecodeFrom_def decodes_array)

interpretation transaction_id: codec TransactionID_EncodeTo TransactionID_DecodeFrom "\<lambda>_. True"
  by unfold_locales (simp add: TransactionID_EncodeTo_def TransactionID_DecodeFrom_def decodes_array)

interpretation address_c: codec Address_EncodeTo Address_DecodeFrom "\<lambda>_. True"
  by unfold_locales (simp add: Address_EncodeTo_def Address_DecodeFrom_def decodes_array)

interpretation public_key: codec PublicKey_EncodeTo PublicKey_DecodeFrom "\<lambda>_. True"
  by unfold_locales (simp add: PublicKey_EncodeTo_def PublicKey_DecodeFrom_def decodes_array)

interpretation signature: codec Signature_EncodeTo Signature_DecodeFrom "\<lambda>_. True"
  by unfold_locales (simp add: Signature_EncodeTo_def Signature_DecodeFrom_def decodes_array)

interpretation currency: codec Currency_EncodeTo Currency_DecodeFrom "\<lambda>_. True"
  by unfold_locales
    (auto simp: Currency_EncodeTo_def Currency_DecodeFrom_def
      intro!: decodes_bind [OF decodes_ReadUint64] decodes_last [OF decodes_ReadUint64])

lemma Time_Unix_time_Unix [simp]: "Time_Unix (time_Unix u) = u"
  by (simp add: Time_Unix_def time_Unix_def)

lemma time_ok_time_Unix [simp]: "time_ok (time_Unix u)"
  by (simp add: time_ok_def)

interpretation time: codec WriteTime ReadTime time_ok
  by unfold_locales
    (auto simp: WriteTime_def ReadTime_def time_ok_def intro!: decodes_last [OF decodes_ReadUint64])

interpretation chain_index: codec ChainIndex_EncodeTo ChainIndex_DecodeFrom "\<lambda>_. True"
  by unfold_locales
    (auto simp: ChainIndex_EncodeTo_def ChainIndex_DecodeFrom_def
      intro!: decodes_bind [OF decodes_ReadUint64] decodes_last [OF block_id.dec_enc_k])

interpretation element_id: codec ElementID_EncodeTo ElementID_DecodeFrom "\<lambda>_. True"
  by unfold_locales
    (auto simp: ElementID_EncodeTo_def ElementID_DecodeFrom_def
      intro!: decodes_bind [OF hash256.dec_enc_k] decodes_last [OF decodes_ReadUint64])

interpretation txn_output: codec Output_EncodeTo Output_DecodeFrom "\<lambda>_. True"
  by unfold_locales
    (auto simp: Output_EncodeTo_def Output_DecodeFrom_def
      intro!: decodes_bind [OF currency.dec_enc_k] decodes_last [OF address_c.dec_enc_k])

section \<open>Values with lists\<close>

definition len_ok :: "'a list \<Rightarrow> bool" where
  "len_ok xs \<longleftrightarrow> length xs < 2 ^ 64"

lemma array_bytes_not_Nil: "0 < n \<Longrightarrow> array_bytes n w \<noteq> []"
  by (metis length_array_bytes length_greater_0_conv)

lemma Hash256_not_Nil [simp]: "Hash256_EncodeTo h \<noteq> []"
  by (simp add: Hash256_EncodeTo_def array_bytes_not_Nil)

lemma WriteUint64_not_Nil [simp]: "WriteUint64 u \<noteq> []"
  by (metis length_WriteUint64 length_greater_0_conv zero_less_numeral)

lemma Output_not_Nil [simp]: "Output_EncodeTo x \<noteq> []"
  by (simp add: Output_EncodeTo_def Currency_EncodeTo_def)

interpretation merkle_proof: codec writeMerkleProof readMerkleProof len_ok
  by unfold_locales
    (auto simp: writeMerkleProof_def readMerkleProof_def len_ok_def intro!: hash256.dec_list)

definition se_ok :: "state_element \<Rightarrow> bool" where
  "se_ok se \<longleftrightarrow> len_ok (se_MerkleProof se)"

interpretation state_element: codec StateElement_EncodeTo StateElement_DecodeFrom se_ok
  by unfold_locales
    (auto simp: StateElement_EncodeTo_def StateElement_DecodeFrom_def se_ok_def
      intro!: decodes_bind [OF element_id.dec_enc_k] decodes_bind [OF decodes_ReadUint64]
        decodes_last [OF merkle_proof.dec_enc_k])

interpretation output_element: codec OutputElement_EncodeTo OutputElement_DecodeFrom "\<lambda>oe. se_ok (oe_SE oe)"
  by unfold_locales
    (auto simp: OutputElement_EncodeTo_def OutputElement_DecodeFrom_def
      intro!: decodes_bind [OF state_element.dec_enc_k] decodes_bind [OF txn_output.dec_enc_k]
        decodes_last [OF decodes_ReadUint64])

definition input_ok :: "txn_input \<Rightarrow> bool" where
  "input_ok i \<longleftrightarrow> se_ok (oe_SE (in_Parent i))"

interpretation txn_input: codec Input_EncodeTo Input_DecodeFrom input_ok
  by unfold_locales
    (auto simp: Input_EncodeTo_def Input_DecodeFrom_def input_ok_def
      intro!: decodes_bind [OF output_element.dec_enc_k] decodes_bind [OF public_key.dec_enc_k]
        decodes_last [OF signature.dec_enc_k])

lemma Input_not_Nil [simp]: "Input_EncodeTo i \<noteq> []"
  by (simp add: Input_EncodeTo_def PublicKey_EncodeTo_def array_bytes_not_Nil)

definition txn_ok :: "transaction \<Rightarrow> bool" where
  "txn_ok txn \<longleftrightarrow> len_ok (tx_Inputs txn) \<and> len_ok (tx_Outputs txn) \<and> list_all input_ok (tx_Inputs txn)"

lemma Transaction_decodes: "txn_ok x \<Longrightarrow> decodes 0 Transaction_DecodeFrom (Transaction_EncodeTo x) x"
proof -
  assume ok: "txn_ok x"
  have i: "decodes k (do { n \<leftarrow> ReadPrefix; ReadMany n Input_DecodeFrom })
      (WritePrefix (length (tx_Inputs x)) @ concat (map Input_EncodeTo (tx_Inputs x))) (tx_Inputs x)" for k
    using ok by (intro txn_input.dec_list) (auto simp: txn_ok_def len_ok_def list_all_iff)
  have o: "decodes k (do { n \<leftarrow> ReadPrefix; ReadMany n Output_DecodeFrom })
      (WritePrefix (length (tx_Outputs x)) @ concat (map Output_EncodeTo (tx_Outputs x))) (tx_Outputs x)" for k
    using ok by (intro txn_output.dec_list) (auto simp: txn_ok_def len_ok_def)
  have "decodes 0 (do {
       is \<leftarrow> do { n \<leftarrow> ReadPrefix; ReadMany n Input_DecodeFrom };
       os \<leftarrow> do { n \<leftarrow> ReadPrefix; ReadMany n Output_DecodeFrom };
       f \<leftarrow> Currency_DecodeFrom;
       State_Monad.return \<lparr>tx_Inputs = is, tx_Outputs = os, tx_MinerFee = f\<rparr>
     }) ((WritePrefix (length (tx_Inputs x)) @ concat (map Input_EncodeTo (tx_Inputs x)))
       @ (WritePrefix (length (tx_Outputs x)) @ concat (map Output_EncodeTo (tx_Outputs x)))
       @ Currency_EncodeTo (tx_MinerFee x)) x"
    by (intro decodes_bind [OF i] decodes_bind [OF o] decodes_last [OF currency.dec_enc_k]) simp_all
  then show ?thesis
    unfolding Transaction_DecodeFrom_def Transaction_EncodeTo_def
    by (intro decodes_bind [OF decodes_ReadUint8]) simp
qed

interpretation txn: codec Transaction_EncodeTo Transaction_DecodeFrom txn_ok
  by unfold_locales (rule Transaction_decodes)

interpretation block_header: codec BlockHeader_EncodeTo BlockHeader_DecodeFrom
    "\<lambda>h. time_ok (bh_Timestamp h)"
  by unfold_locales
    (auto simp: BlockHeader_EncodeTo_def BlockHeader_DecodeFrom_def
      intro!: decodes_bind [OF decodes_ReadUint64] decodes_bind [OF block_id.dec_enc_k]
        decodes_bind [OF time.dec_enc_k] decodes_bind [OF address_c.dec_enc_k]
        decodes_last [OF hash256.dec_enc_k])

end
