(* ===== verification/Merkle_Tree.thy ===== *)
theory Merkle_Tree
  imports Types
begin

text \<open>
  The hash trees under merkle/accumulator.go. First the helpers of the code (\<open>mergeHeight\<close>,
  \<open>clearBits\<close>, \<open>NodeHash\<close>, \<open>ProofRoot\<close>); then the trees they are about, as a specification: a
  forest is a function \<open>f\<close> from leaf numbers to leaf hashes and a number \<open>n\<close> of leaves, \<open>node f t k\<close>
  is the root of the perfect subtree of height \<open>t\<close> over the leaves \<open>k * 2^t\<close> to \<open>(k+1) * 2^t - 1\<close>,
  \<open>path f t i\<close> is the list of siblings of leaf \<open>i\<close> below height \<open>t\<close>, and \<open>theight n i\<close> is the
  height of the tree of the forest with \<open>n\<close> leaves that has leaf \<open>i\<close>.
\<close>

section \<open>Helpers of the code\<close>

definition mergeHeight :: "u64 \<Rightarrow> u64 \<Rightarrow> nat" where
  "mergeHeight x y = bits_Len64 (x XOR y)"

definition clearBits :: "u64 \<Rightarrow> nat \<Rightarrow> u64" where
  "clearBits x n = x AND NOT (push_bit n 1 - 1)"

definition NodeHash :: "hashfn \<Rightarrow> hash256 \<Rightarrow> hash256 \<Rightarrow> hash256" where
  "NodeHash H left right = HashBytes H (1 # array_bytes 32 left @ array_bytes 32 right)"

fun ProofRoot_loop :: "hashfn \<Rightarrow> u64 \<Rightarrow> nat \<Rightarrow> hash256 list \<Rightarrow> hash256 \<Rightarrow> hash256" where
  "ProofRoot_loop H leafIndex i [] root = root"
| "ProofRoot_loop H leafIndex i (h # proof') root =
     ProofRoot_loop H leafIndex (i + 1) proof'
       (if leafIndex AND push_bit i 1 = 0 then NodeHash H root h else NodeHash H h root)"

definition ProofRoot :: "hashfn \<Rightarrow> hash256 \<Rightarrow> u64 \<Rightarrow> hash256 list \<Rightarrow> hash256" where
  "ProofRoot H leafHash leafIndex proof' = ProofRoot_loop H leafIndex 0 proof' leafHash"

section \<open>Bits of leaf numbers\<close>

lemma and_push_bit_1: "(x::u64) AND push_bit i 1 \<noteq> 0 \<longleftrightarrow> odd (unat x div 2 ^ i)"
proof -
  have "x AND push_bit i 1 \<noteq> 0 \<longleftrightarrow> bit x i"
    by (simp add: bit_iff_and_push_bit_not_eq_0)
  also have "\<dots> \<longleftrightarrow> odd (unat x div 2 ^ i)"
    using bit_unsigned_iff [of x i, where ?'a = nat] bit_imp_le_length [of x i]
    by (auto simp: bit_iff_odd [of "unat x"])
  finally show ?thesis .
qed

lemma drop_bit_eq_iff_xor: "drop_bit m x = drop_bit m y \<longleftrightarrow> x XOR y < (2::nat) ^ m"
proof -
  have "drop_bit m x = drop_bit m y \<longleftrightarrow> drop_bit m x XOR drop_bit m y = 0"
    by (simp add: bit_eq_iff bit_simps)
  also have "\<dots> \<longleftrightarrow> drop_bit m (x XOR y) = 0" by (simp add: drop_bit_xor)
  also have "\<dots> \<longleftrightarrow> x XOR y < 2 ^ m" by (simp add: drop_bit_eq_div div_eq_0_iff)
  finally show ?thesis .
qed

text \<open>\<open>mergeHeight\<close> is the height of the lowest subtree that has both leaves.\<close>

lemma mergeHeight_le_iff:
  "mergeHeight x y \<le> m \<longleftrightarrow> unat x div 2 ^ m = unat y div 2 ^ m"
  unfolding mergeHeight_def bits_Len64_def bit_len_le_iff
  by (simp add: unsigned_xor_eq drop_bit_eq_iff_xor [symmetric] drop_bit_eq_div)

lemma unat_clearBits:
  assumes "n < 64"
  shows "unat (clearBits x n) = unat x div 2 ^ n * 2 ^ n"
proof -
  have "push_bit n 1 - 1 = (mask n :: u64)" by (simp add: mask_eq_decr_exp push_bit_eq_mult)
  then have "clearBits x n = push_bit n (drop_bit n x)"
    unfolding clearBits_def by (intro bit_word_eqI) (auto simp: bit_simps)
  moreover have "2 ^ n * (unat x div 2 ^ n) \<le> unat x" by simp
  then have "2 ^ n * (unat x div 2 ^ n) < 2 ^ 64" using unat64_lt [of x] by (rule le_less_trans)
  ultimately show ?thesis
    by (simp only: unat_push_bit64 unat_drop_bit64 mod_less mult.commute)
qed

section \<open>Forests of perfect trees\<close>

fun node :: "hashfn \<Rightarrow> (nat \<Rightarrow> hash256) \<Rightarrow> nat \<Rightarrow> nat \<Rightarrow> hash256" where
  "node H f 0 k = f k"
| "node H f (Suc t) k = NodeHash H (node H f t (2 * k)) (node H f t (2 * k + 1))"

definition sib :: "nat \<Rightarrow> nat" where
  "sib k = (if even k then k + 1 else k - 1)"

definition path :: "hashfn \<Rightarrow> (nat \<Rightarrow> hash256) \<Rightarrow> nat \<Rightarrow> nat \<Rightarrow> hash256 list" where
  "path H f t i = map (\<lambda>j. node H f j (sib (i div 2 ^ j))) [0..<t]"

text \<open>The forest with \<open>n\<close> leaves has a tree of height \<open>t\<close> for every bit \<open>t\<close> of \<open>n\<close>.\<close>

definition in_tree :: "nat \<Rightarrow> nat \<Rightarrow> nat \<Rightarrow> bool" where
  "in_tree n t i \<longleftrightarrow> odd (n div 2 ^ t) \<and> i div 2 ^ t = n div 2 ^ t - 1"

fun theight :: "nat \<Rightarrow> nat \<Rightarrow> nat" where
  "theight n i = (if n = 0 \<or> odd n \<and> i = n - 1 then 0 else Suc (theight (n div 2) (i div 2)))"

declare theight.simps [simp del]

lemma length_path [simp]: "length (path H f t i) = t"
  by (simp add: path_def)

lemma path_0 [simp]: "path H f 0 i = []"
  by (simp add: path_def)

lemma path_Suc: "path H f (Suc t) i = path H f t i @ [node H f t (sib (i div 2 ^ t))]"
  by (simp add: path_def)

lemma take_path: "m \<le> t \<Longrightarrow> take m (path H f t i) = path H f m i"
  by (simp add: path_def take_map)

lemma nth_path: "j < t \<Longrightarrow> path H f t i ! j = node H f j (sib (i div 2 ^ j))"
  by (simp add: path_def)

lemma node_cong:
  "(\<And>i. i div 2 ^ t = k \<Longrightarrow> f i = g i) \<Longrightarrow> node H f t k = node H g t k"
proof (induction t arbitrary: k)
  case (Suc t)
  have "f i = g i" if "i div 2 ^ t = 2 * k \<or> i div 2 ^ t = 2 * k + 1" for i
    using Suc.prems [of i] that nat_div_pow_Suc [of i t] by auto
  then show ?case using Suc.IH [of "2 * k"] Suc.IH [of "2 * k + 1"] by simp
qed simp

lemma sib_div: "sib k div 2 = k div 2"
  by (auto simp: sib_def elim!: oddE)

lemma sib_div_pow: "sib (i div 2 ^ j) div 2 = i div 2 ^ Suc j"
  by (simp only: sib_div nat_div_pow_Suc)

lemma path_cong:
  assumes "\<And>l. l div 2 ^ t = i div 2 ^ t \<Longrightarrow> l \<noteq> i \<Longrightarrow> f l = g l"
  shows "path H f t i = path H g t i"
  unfolding path_def
proof (intro map_cong refl node_cong)
  fix j l assume j: "j \<in> set [0..<t]" and l: "l div 2 ^ j = sib (i div 2 ^ j)"
  have "l \<noteq> i" using l by (auto simp: sib_def elim!: oddE split: if_splits)
  moreover have "l div 2 ^ Suc j = i div 2 ^ Suc j"
    by (simp only: nat_div_pow_Suc l sib_div)
  then have "l div 2 ^ Suc j div 2 ^ (t - Suc j) = i div 2 ^ Suc j div 2 ^ (t - Suc j)" by simp
  then have "l div 2 ^ t = i div 2 ^ t"
    using j by (simp add: div_mult2_eq [symmetric] power_add [symmetric] del: power_Suc)
  ultimately show "f l = g l" by (rule assms [rotated])
qed

text \<open>Hashing up along the path gives the root.\<close>

lemma node_step:
  "(if even (i div 2 ^ t) then NodeHash H (node H f t (i div 2 ^ t)) (node H f t (sib (i div 2 ^ t)))
    else NodeHash H (node H f t (sib (i div 2 ^ t))) (node H f t (i div 2 ^ t)))
   = node H f (Suc t) (i div 2 ^ Suc t)"
  by (auto simp: nat_div_pow_Suc sib_def simp del: power_Suc elim!: evenE oddE)

lemma ProofRoot_loop_append:
  "ProofRoot_loop H x i (p @ q) r = ProofRoot_loop H x (i + length p) q (ProofRoot_loop H x i p r)"
  by (induction p arbitrary: i r) simp_all

lemma ProofRoot_path:
  "ProofRoot H (f (unat x)) x (path H f t (unat x)) = node H f t (unat x div 2 ^ t)"
proof (induction t)
  case (Suc t)
  have e: "x AND push_bit t 1 = 0 \<longleftrightarrow> even (unat x div 2 ^ t)"
    using and_push_bit_1 [of x t] by blast
  show ?case
    using Suc node_step [where i = "unat x" and t = t and f = f and H = H]
    unfolding ProofRoot_def path_Suc ProofRoot_loop_append
    by (simp only: e ProofRoot_loop.simps length_path add_0)
qed (simp add: ProofRoot_def)

section \<open>Trees of a forest\<close>

lemma in_tree_0: "in_tree n 0 i \<longleftrightarrow> odd n \<and> i = n - 1"
  by (simp add: in_tree_def)

lemma in_tree_Suc: "in_tree n (Suc t) i \<longleftrightarrow> in_tree (n div 2) t (i div 2)"
  by (simp add: in_tree_def div_mult2_eq)

text \<open>Every leaf is in the tree of its \<open>theight\<close>, and in no other.\<close>

lemma in_tree_theight: "i < n \<Longrightarrow> in_tree n (theight n i) i"
proof (induction n i rule: theight.induct)
  case (1 n i)
  show ?case
  proof (cases "odd n \<and> i = n - 1")
    case True
    then show ?thesis using theight.simps [of n i] by (simp add: in_tree_0)
  next
    case False
    then have "i div 2 < n div 2" using 1(2) by (auto elim!: oddE evenE)
    with 1 False show ?thesis by (auto simp: theight.simps [of n i] in_tree_Suc)
  qed
qed

lemma in_tree_less: "in_tree n t i \<Longrightarrow> i < n"
proof -
  assume "in_tree n t i"
  then have "i div 2 ^ t < n div 2 ^ t" by (auto simp: in_tree_def elim!: oddE)
  then show "i < n" using div_le_mono [of n i "2 ^ t"] by linarith
qed

lemma in_tree_above: "in_tree n t i \<Longrightarrow> i div 2 ^ Suc t = n div 2 ^ Suc t"
  by (auto simp: in_tree_def nat_div_pow_Suc simp del: power_Suc elim!: oddE)

lemma div_pow_mono_eq: "(i::nat) div 2 ^ t = n div 2 ^ t \<Longrightarrow> t \<le> t' \<Longrightarrow> i div 2 ^ t' = n div 2 ^ t'"
  by (metis div_mult2_eq le_add_diff_inverse power_add)

lemma in_tree_unique:
  assumes "in_tree n t i" "in_tree n t' i"
  shows "t = t'"
proof -
  have "\<not> t < t'" if "in_tree n t i" "in_tree n t' i" for t t'
  proof
    assume "t < t'"
    then have "i div 2 ^ t' = n div 2 ^ t'"
      by (intro div_pow_mono_eq [OF in_tree_above [OF that(1)]]) simp
    then show False using that(2) by (auto simp: in_tree_def elim!: oddE)
  qed
  then show ?thesis using assms by (meson linorder_neqE_nat)
qed

lemma theight_eq: "in_tree n t i \<Longrightarrow> theight n i = t"
  by (rule in_tree_unique [OF in_tree_theight [OF in_tree_less]])

lemma theight_less: "i < n \<Longrightarrow> n < 2 ^ k \<Longrightarrow> theight n i < k"
proof (rule ccontr)
  assume a: "i < n" "n < 2 ^ k" "\<not> theight n i < k"
  then have "(2::nat) ^ k \<le> 2 ^ theight n i" by simp
  then have "n div 2 ^ theight n i = 0" using a(2) by (intro div_less) linarith
  then show False using in_tree_theight [OF a(1)] by (simp add: in_tree_def)
qed

lemma theight_mono:
  assumes "i < n" "n \<le> n'"
  shows "theight n i \<le> theight n' i"
proof (rule ccontr)
  let ?T = "theight n i"
  assume "\<not> ?T \<le> theight n' i"
  then have "i div 2 ^ ?T = n' div 2 ^ ?T"
    using assms by (intro div_pow_mono_eq [OF in_tree_above [OF in_tree_theight]]) simp_all
  moreover have "i div 2 ^ ?T < n div 2 ^ ?T"
    using in_tree_theight [OF assms(1)] by (auto simp: in_tree_def elim!: oddE)
  ultimately show False using div_le_mono [OF assms(2), of "2 ^ ?T"] by simp
qed

lemma theight_mergeHeight:
  assumes "unat i < unat n"
  shows "mergeHeight n i = Suc (theight (unat n) (unat i))"
proof -
  let ?t = "theight (unat n) (unat i)"
  note it = in_tree_theight [OF assms]
  have "mergeHeight n i \<le> Suc ?t"
    unfolding mergeHeight_le_iff using in_tree_above [OF it] by simp
  moreover have "\<not> mergeHeight n i \<le> ?t"
    unfolding mergeHeight_le_iff using it by (auto simp: in_tree_def elim!: oddE)
  ultimately show ?thesis by simp
qed

text \<open>The next leaf \<open>n\<close> merges the trees at the heights of the trailing ones of \<open>n\<close>.\<close>

definition low_ones :: "nat \<Rightarrow> nat \<Rightarrow> bool" where
  "low_ones n t \<longleftrightarrow> n mod 2 ^ t = 2 ^ t - 1"

lemma low_ones_0 [simp]: "low_ones n 0"
  by (simp add: low_ones_def)

lemma low_ones_div: "low_ones n t \<Longrightarrow> Suc n = (n div 2 ^ t + 1) * 2 ^ t"
proof -
  assume "low_ones n t"
  then have "n mod 2 ^ t + 1 = 2 ^ t" by (simp add: low_ones_def)
  then show ?thesis using div_mult_mod_eq [of n "2 ^ t"] by (simp only: distrib_right mult_1)
qed

lemma low_ones_iff: "low_ones n t \<longleftrightarrow> Suc n mod 2 ^ t = 0"
proof
  assume "low_ones n t"
  then show "Suc n mod 2 ^ t = 0" using low_ones_div by simp
next
  assume "Suc n mod 2 ^ t = 0"
  then show "low_ones n t"
    by (simp add: low_ones_def mod_Suc split: if_splits)
qed

lemma low_ones_Suc: "low_ones n t \<Longrightarrow> odd (n div 2 ^ t) \<Longrightarrow> low_ones n (Suc t)"
proof -
  assume a: "low_ones n t" "odd (n div 2 ^ t)"
  then have "even (n div 2 ^ t + 1)" by simp
  then obtain q where "n div 2 ^ t + 1 = 2 * q" by (rule evenE)
  then have "Suc n = q * 2 ^ Suc t" using low_ones_div [OF a(1)] by simp
  then show ?thesis by (simp add: low_ones_iff del: power_Suc)
qed

lemma Suc_div_pow: "low_ones n t \<Longrightarrow> Suc n div 2 ^ t = Suc (n div 2 ^ t)"
  using low_ones_div [of n t]
  by (metis Suc_eq_plus1 nonzero_mult_div_cancel_right power_not_zero zero_neq_numeral)

lemma Suc_div_above:
  assumes "low_ones n t" "even (n div 2 ^ t)" "t < t'"
  shows "Suc n div 2 ^ t' = n div 2 ^ t'"
proof -
  have "Suc n div 2 ^ Suc t = n div 2 ^ Suc t"
    using assms(2) by (simp only: nat_div_pow_Suc Suc_div_pow [OF assms(1)]) simp
  then show ?thesis by (rule div_pow_mono_eq [OF _ Suc_leI [OF assms(3)]])
qed

end
