(* ===== verification/Accumulator.thy ===== *)
theory Accumulator
  imports Merkle_Tree "HOL-Library.Product_Lexorder"
begin

text \<open>
  merkle/accumulator.go: the accumulator of state elements and the accumulator of the chain's
  history. Each keeps the roots of a forest of perfect trees (\<open>Trees\<close>, an array of 64) and the
  number of leaves; the leaves and their proofs are kept by whoever needs them. This theory holds
  the operations; Accumulator_Elements and Accumulator_History prove them correct.

  The operations of the code overwrite slices of leaves in place; the definitions here return the
  leaves that the slices hold afterwards. \<open>None\<close> is a panic (an index out of range).
\<close>

section \<open>Slices and arrays\<close>

definition at :: "'a list \<Rightarrow> nat \<Rightarrow> 'a option" where
  "at xs i = (if i < length xs then Some (xs ! i) else None)"

text \<open>\<open>p[height-1]\<close> and its assignment: they panic for height 0, too.\<close>

definition at_height :: "hash256 list \<Rightarrow> nat \<Rightarrow> hash256 option" where
  "at_height p height = (if height = 0 then None else at p (height - 1))"

definition set_height :: "hash256 list \<Rightarrow> nat \<Rightarrow> hash256 \<Rightarrow> hash256 list option" where
  "set_height p height h =
     (if height = 0 \<or> length p < height then None else Some (p[height - 1 := h]))"

fun map_option_list :: "('a \<Rightarrow> 'b option) \<Rightarrow> 'a list \<Rightarrow> 'b list option" where
  "map_option_list f [] = Some []"
| "map_option_list f (x # xs) = do { y \<leftarrow> f x; ys \<leftarrow> map_option_list f xs; Some (y # ys) }"

section \<open>Leaves\<close>

record element_leaf =
  el_SE :: state_element
  el_ElementHash :: hash256
  el_Spent :: bool

abbreviation el_LeafIndex :: "element_leaf \<Rightarrow> u64" where
  "el_LeafIndex l \<equiv> se_LeafIndex (el_SE l)"

abbreviation el_MerkleProof :: "element_leaf \<Rightarrow> hash256 list" where
  "el_MerkleProof l \<equiv> se_MerkleProof (el_SE l)"

definition set_proof :: "hash256 list \<Rightarrow> element_leaf \<Rightarrow> element_leaf" where
  "set_proof p l = l\<lparr>el_SE := (el_SE l)\<lparr>se_MerkleProof := p\<rparr>\<rparr>"

definition leaf_preimage :: "hash256 \<Rightarrow> u64 \<Rightarrow> bool \<Rightarrow> byte list" where
  "leaf_preimage eh i spent = 0 # array_bytes 32 eh @ le_bytes 8 i @ [if spent then 1 else 0]"

definition ElementLeaf_Hash :: "hashfn \<Rightarrow> element_leaf \<Rightarrow> hash256" where
  "ElementLeaf_Hash H l = HashBytes H (leaf_preimage (el_ElementHash l) (el_LeafIndex l) (el_Spent l))"

definition ElementLeaf_ProofRoot :: "hashfn \<Rightarrow> element_leaf \<Rightarrow> hash256" where
  "ElementLeaf_ProofRoot H l = ProofRoot H (ElementLeaf_Hash H l) (el_LeafIndex l) (el_MerkleProof l)"

definition output_preimage :: "output_element \<Rightarrow> byte list" where
  "output_preimage e =
     WriteString ''sunyata/leaf/output'' @ ElementID_EncodeTo (se_ID (oe_SE e))
     @ Output_EncodeTo (oe_Output e) @ WriteUint64 (oe_MaturityHeight e)"

definition OutputLeaf :: "hashfn \<Rightarrow> output_element \<Rightarrow> bool \<Rightarrow> element_leaf" where
  "OutputLeaf H e spent =
     \<lparr>el_SE = oe_SE e, el_ElementHash = H (output_preimage e), el_Spent = spent\<rparr>"

section \<open>The accumulator\<close>

record accumulator =
  acc_Trees :: "hash256 list"
  acc_NumLeaves :: u64

definition empty_accumulator :: accumulator where
  "empty_accumulator = \<lparr>acc_Trees = replicate 64 0, acc_NumLeaves = 0\<rparr>"

definition hasTreeAtHeight :: "accumulator \<Rightarrow> nat \<Rightarrow> bool" where
  "hasTreeAtHeight acc height \<longleftrightarrow> acc_NumLeaves acc AND push_bit height 1 \<noteq> 0"

definition Accumulator_EncodeTo :: "accumulator \<Rightarrow> byte list" where
  "Accumulator_EncodeTo acc =
     WriteUint64 (acc_NumLeaves acc)
     @ concat (map (\<lambda>(i, root). if hasTreeAtHeight acc i then Hash256_EncodeTo root else [])
                (enumerate 0 (acc_Trees acc)))"

text \<open>The loop of \<open>DecodeFrom\<close> over the array of a zero receiver.\<close>

fun Accumulator_readTrees :: "accumulator \<Rightarrow> nat list \<Rightarrow> hash256 list dec" where
  "Accumulator_readTrees acc [] = State_Monad.return []"
| "Accumulator_readTrees acc (i # is) =
     (if hasTreeAtHeight acc i then do {
        h \<leftarrow> Hash256_DecodeFrom;
        hs \<leftarrow> Accumulator_readTrees acc is;
        State_Monad.return (h # hs)
      } else do {
        hs \<leftarrow> Accumulator_readTrees acc is;
        State_Monad.return (0 # hs)
      })"

definition Accumulator_DecodeFrom :: "accumulator dec" where
  "Accumulator_DecodeFrom = do {
     n \<leftarrow> ReadUint64;
     ts \<leftarrow> Accumulator_readTrees \<lparr>acc_Trees = replicate 64 0, acc_NumLeaves = n\<rparr> [0..<64];
     State_Monad.return \<lparr>acc_Trees = ts, acc_NumLeaves = n\<rparr>
   }"

definition containsLeaf :: "hashfn \<Rightarrow> accumulator \<Rightarrow> element_leaf \<Rightarrow> bool" where
  "containsLeaf H acc l \<longleftrightarrow>
     hasTreeAtHeight acc (length (el_MerkleProof l))
     \<and> acc_Trees acc ! length (el_MerkleProof l) = ElementLeaf_ProofRoot H l"

definition ContainsUnspentOutputElement :: "hashfn \<Rightarrow> accumulator \<Rightarrow> output_element \<Rightarrow> bool" where
  "ContainsUnspentOutputElement H acc sce = containsLeaf H acc (OutputLeaf H sce False)"

definition ContainsSpentOutputElement :: "hashfn \<Rightarrow> accumulator \<Rightarrow> output_element \<Rightarrow> bool" where
  "ContainsSpentOutputElement H acc sce = containsLeaf H acc (OutputLeaf H sce True)"

section \<open>addLeaves\<close>

text \<open>\<open>i - 1<<height\<close> on Go's \<open>int\<close>, which has 64 bits.\<close>

definition int_minus_shl :: "nat \<Rightarrow> nat \<Rightarrow> int" where
  "int_minus_shl i height = sint (word_of_nat i - push_bit height 1 :: u64)"

text \<open>\<open>for ; j > start && j >= 0; j--\<close>: appends \<open>h\<close> to the proofs down to \<open>start\<close>, and gives \<open>j\<close>.\<close>

function appendBack ::
    "element_leaf list \<Rightarrow> int \<Rightarrow> int \<Rightarrow> hash256 \<Rightarrow> element_leaf list \<times> int" where
  "appendBack leaves j start h =
     (if start < j \<and> 0 \<le> j
      then appendBack (leaves[nat j := set_proof (el_MerkleProof (leaves ! nat j) @ [h]) (leaves ! nat j)])
             (j - 1) start h
      else (leaves, j))"
  by pat_completeness auto
termination by (relation "measure (\<lambda>(leaves, j, start, h). nat (j + 1))") auto

declare appendBack.simps [simp del]

text \<open>The update of \<open>treeGrowth[bit]\<close> when the trees at \<open>height\<close> are merged.\<close>

definition growTree ::
    "u64 \<Rightarrow> u64 \<Rightarrow> nat \<Rightarrow> hash256 \<Rightarrow> hash256 \<Rightarrow> nat \<Rightarrow> hash256 list \<Rightarrow> hash256 list" where
  "growTree initialLeaves numLeaves height oldRoot h bt g =
     (if initialLeaves AND push_bit bt 1 = 0 then g
      else
        let curTreeIndex = numLeaves + 1 - push_bit height 1;
            prevTreeIndex = numLeaves + 1 - push_bit (height + 1) 1;
            treeStartIndex = clearBits initialLeaves (bt + 1)
        in if curTreeIndex \<le> treeStartIndex then g @ [oldRoot]
           else if prevTreeIndex \<le> treeStartIndex then g @ [h]
           else g)"

record add_state =
  as_acc :: accumulator
  as_leaves :: "element_leaf list"
  as_growth :: "hash256 list list"

text \<open>The loop over the heights for leaf \<open>i\<close>, with \<open>fuel\<close> heights left (64 at the start).\<close>

fun addLeaf_walk :: "hashfn \<Rightarrow> u64 \<Rightarrow> nat \<Rightarrow> nat \<Rightarrow> nat \<Rightarrow> hash256 \<Rightarrow> add_state \<Rightarrow> add_state" where
  "addLeaf_walk H initialLeaves i height 0 h st = st"
| "addLeaf_walk H initialLeaves i height (Suc fuel) h st =
     (let acc = as_acc st in
      if \<not> hasTreeAtHeight acc height then
        st\<lparr>as_acc := \<lparr>acc_Trees = (acc_Trees acc)[height := h], acc_NumLeaves = acc_NumLeaves acc + 1\<rparr>\<rparr>
      else
        let oldRoot = acc_Trees acc ! height;
            startOfNewTree = int_minus_shl i height;
            startOfOldTree = int_minus_shl i (height + 1);
            (leaves, j) = appendBack (as_leaves st) (int i) startOfNewTree oldRoot;
            (leaves, j) = appendBack leaves j startOfOldTree h;
            growth = map (\<lambda>(bt, g). growTree initialLeaves (acc_NumLeaves acc) height oldRoot h bt g)
                       (enumerate 0 (as_growth st))
        in addLeaf_walk H initialLeaves i (height + 1) fuel (NodeHash H oldRoot h)
             \<lparr>as_acc = acc, as_leaves = leaves, as_growth = growth\<rparr>)"

definition addLeaf :: "hashfn \<Rightarrow> u64 \<Rightarrow> add_state \<Rightarrow> nat \<Rightarrow> add_state" where
  "addLeaf H initialLeaves st i =
     (let l = as_leaves st ! i;
          l = l\<lparr>el_SE := (el_SE l)\<lparr>se_LeafIndex := acc_NumLeaves (as_acc st), se_MerkleProof := []\<rparr>\<rparr>
      in addLeaf_walk H initialLeaves i 0 64 (ElementLeaf_Hash H l)
           (st\<lparr>as_leaves := (as_leaves st)[i := l]\<rparr>))"

definition addLeaves ::
    "hashfn \<Rightarrow> accumulator \<Rightarrow> element_leaf list \<Rightarrow> accumulator \<times> element_leaf list \<times> hash256 list list" where
  "addLeaves H acc leaves =
     (let st = foldl (addLeaf H (acc_NumLeaves acc))
                 \<lparr>as_acc = acc, as_leaves = leaves, as_growth = replicate 64 []\<rparr> [0..<length leaves]
      in (as_acc st, as_leaves st, as_growth st))"

section \<open>updateLeaves\<close>

text \<open>\<open>sort.Search\<close> of the standard library: the binary search for the smallest index with \<open>f\<close>.\<close>

function sort_Search_loop :: "(nat \<Rightarrow> bool) \<Rightarrow> nat \<Rightarrow> nat \<Rightarrow> nat" where
  "sort_Search_loop f i j =
     (if i < j
      then let h = (i + j) div 2 in if \<not> f h then sort_Search_loop f (h + 1) j else sort_Search_loop f i h
      else i)"
  by pat_completeness auto
termination by (relation "measure (\<lambda>(f, i, j). j - i)") auto

declare sort_Search_loop.simps [simp del]

definition sort_Search :: "nat \<Rightarrow> (nat \<Rightarrow> bool) \<Rightarrow> nat" where
  "sort_Search n f = sort_Search_loop f 0 n"

definition splitLeaves :: "element_leaf list \<Rightarrow> u64 \<Rightarrow> element_leaf list \<times> element_leaf list" where
  "splitLeaves ls mid =
     (let split = sort_Search (length ls) (\<lambda>i. mid \<le> el_LeafIndex (ls ! i))
      in (take split ls, drop split ls))"

text \<open>\<open>for i := range ls { ls[i].MerkleProof[height-1] = h }\<close>\<close>

definition set_all :: "nat \<Rightarrow> hash256 \<Rightarrow> element_leaf list \<Rightarrow> element_leaf list option" where
  "set_all height h ls =
     map_option_list (\<lambda>l. do { p \<leftarrow> set_height (el_MerkleProof l) height h; Some (set_proof p l) }) ls"

text \<open>
  The closure \<open>recompute\<close>: the root of the tree over the leaf numbers from \<open>i\<close> to \<open>j - 1\<close> and the
  leaves with their new proofs.
\<close>

partial_function (option) recompute ::
    "hashfn \<Rightarrow> u64 \<Rightarrow> u64 \<Rightarrow> element_leaf list \<Rightarrow> (hash256 \<times> element_leaf list) option" where
  "recompute H i j leaves =
     (let height = bits_TrailingZeros64 (j - i) in
      if length leaves = 1 \<and> height = 0 then Some (ElementLeaf_Hash H (leaves ! 0), leaves)
      else
        let mid = (i + j) div 2; left = fst (splitLeaves leaves mid); right = snd (splitLeaves leaves mid)
        in do {
          (leftRoot, left, right) \<leftarrow>
            (if left = [] then do {
               r \<leftarrow> at right 0;
               leftRoot \<leftarrow> at_height (el_MerkleProof r) height;
               Some (leftRoot, left, right)
             } else do {
               (leftRoot, left) \<leftarrow> recompute H i mid left;
               right \<leftarrow> set_all height leftRoot right;
               Some (leftRoot, left, right)
             });
          (rightRoot, left, right) \<leftarrow>
            (if right = [] then do {
               l \<leftarrow> at left 0;
               rightRoot \<leftarrow> at_height (el_MerkleProof l) height;
               Some (rightRoot, left, right)
             } else do {
               (rightRoot, right) \<leftarrow> recompute H mid j right;
               left \<leftarrow> set_all height rightRoot left;
               Some (rightRoot, left, right)
             });
          Some (NodeHash H leftRoot rightRoot, left @ right)
        })"

text \<open>
  \<open>sort.Slice\<close> by proof length and leaf number. The order it leaves equal leaves in is not
  specified; here it is that of the slice.
\<close>

definition sortLeaves :: "element_leaf list \<Rightarrow> element_leaf list" where
  "sortLeaves leaves = sort_key (\<lambda>l. (length (el_MerkleProof l), el_LeafIndex l)) leaves"

function groupLeaves :: "element_leaf list list \<Rightarrow> element_leaf list \<Rightarrow> element_leaf list list option" where
  "groupLeaves trees [] = Some trees"
| "groupLeaves trees (l # ls) =
     (let n = length (el_MerkleProof l);
          same = takeWhile (\<lambda>l'. length (el_MerkleProof l') = n) (l # ls)
      in if n < 64 then groupLeaves (trees[n := same]) (drop (length same) (l # ls)) else None)"
  by pat_completeness auto
termination by (relation "measure (\<lambda>(trees, ls). length ls)") auto

fun recomputeTrees ::
    "hashfn \<Rightarrow> nat \<Rightarrow> accumulator \<Rightarrow> element_leaf list list \<Rightarrow> (accumulator \<times> element_leaf list list) option" where
  "recomputeTrees H height acc [] = Some (acc, [])"
| "recomputeTrees H height acc (leaves # trees) =
     (if leaves = [] then do {
        (acc', trees') \<leftarrow> recomputeTrees H (height + 1) acc trees;
        Some (acc', [] # trees')
      } else
        let start = clearBits (acc_NumLeaves acc) (height + 1);
            end' = start + push_bit height 1
        in do {
          (root, leaves') \<leftarrow> recompute H start end' leaves;
          (acc', trees') \<leftarrow> recomputeTrees H (height + 1)
                              (acc\<lparr>acc_Trees := (acc_Trees acc)[height := root]\<rparr>) trees;
          Some (acc', leaves' # trees')
        })"

definition updateLeaves ::
    "hashfn \<Rightarrow> accumulator \<Rightarrow> element_leaf list \<Rightarrow> (accumulator \<times> element_leaf list list) option" where
  "updateLeaves H acc leaves = do {
     trees \<leftarrow> groupLeaves (replicate 64 []) (sortLeaves leaves);
     recomputeTrees H 0 acc trees
   }"

section \<open>Updates of element proofs\<close>

record element_apply_update =
  eau_updated :: "element_leaf list list"
  eau_treeGrowth :: "hash256 list list"

record element_revert_update =
  eru_updated :: "element_leaf list list"
  eru_numLeaves :: u64

text \<open>
  \<open>ApplyBlock\<close>: the new accumulator, the update, and what the slice \<open>added\<close> holds afterwards.
\<close>

definition ElementAccumulator_ApplyBlock ::
    "hashfn \<Rightarrow> accumulator \<Rightarrow> element_leaf list \<Rightarrow> element_leaf list
     \<Rightarrow> (accumulator \<times> element_apply_update \<times> element_leaf list) option" where
  "ElementAccumulator_ApplyBlock H acc updated added = do {
     (acc1, trees) \<leftarrow> updateLeaves H acc updated;
     let (acc2, added', growth) = addLeaves H acc1 added
     in Some (acc2, \<lparr>eau_updated = trees, eau_treeGrowth = growth\<rparr>, added')
   }"

fun appendByTree :: "element_leaf list list \<Rightarrow> element_leaf list \<Rightarrow> element_leaf list list option" where
  "appendByTree trees [] = Some trees"
| "appendByTree trees (l # ls) = do {
     t \<leftarrow> at trees (length (el_MerkleProof l));
     appendByTree (trees[length (el_MerkleProof l) := t @ [l]]) ls
   }"

definition ElementAccumulator_RevertBlock ::
    "accumulator \<Rightarrow> element_leaf list \<Rightarrow> element_revert_update option" where
  "ElementAccumulator_RevertBlock acc updated = do {
     trees \<leftarrow> appendByTree (replicate 64 []) updated;
     Some \<lparr>eru_updated = trees, eru_numLeaves = acc_NumLeaves acc\<rparr>
   }"

text \<open>The search for the updated leaf with the lowest merge height, the first one of several.\<close>

fun closestLeaf :: "u64 \<Rightarrow> element_leaf \<Rightarrow> element_leaf list \<Rightarrow> element_leaf" where
  "closestLeaf i best [] = best"
| "closestLeaf i best (ul # uls) =
     closestLeaf i (if mergeHeight i (el_LeafIndex ul) < mergeHeight i (el_LeafIndex best) then ul else best) uls"

text \<open>\<open>copy(dst, src)\<close> and \<open>copy(dst[n:], src[n:])\<close>; the slice expressions panic beyond the length.\<close>

definition go_copy :: "'a list \<Rightarrow> 'a list \<Rightarrow> 'a list" where
  "go_copy dst src = take (length dst) src @ drop (length src) dst"

definition copy_from :: "nat \<Rightarrow> 'a list \<Rightarrow> 'a list \<Rightarrow> 'a list option" where
  "copy_from n dst src =
     (if length dst < n \<or> length src < n then None
      else Some (take n dst @ go_copy (drop n dst) (drop n src)))"

definition updateProof ::
    "hashfn \<Rightarrow> state_element \<Rightarrow> element_leaf list list \<Rightarrow> state_element option" where
  "updateProof H e updated = do {
     updatedInTree \<leftarrow> at updated (length (se_MerkleProof e));
     case updatedInTree of
       [] \<Rightarrow> Some e
     | ul # uls \<Rightarrow>
         (let best = closestLeaf (se_LeafIndex e) ul uls in
          if el_LeafIndex best = se_LeafIndex e
          then Some (e\<lparr>se_MerkleProof := go_copy (se_MerkleProof e) (el_MerkleProof best)\<rparr>)
          else
            let mh = mergeHeight (se_LeafIndex e) (el_LeafIndex best) in do {
              p \<leftarrow> copy_from mh (se_MerkleProof e) (el_MerkleProof best);
              p \<leftarrow> set_height p mh
                    (ProofRoot H (ElementLeaf_Hash H best) (el_LeafIndex best)
                      (take (mh - 1) (el_MerkleProof best)));
              Some (e\<lparr>se_MerkleProof := p\<rparr>)
            })
   }"

definition ElementApplyUpdate_UpdateElementProof ::
    "hashfn \<Rightarrow> element_apply_update \<Rightarrow> state_element \<Rightarrow> state_element option" where
  "ElementApplyUpdate_UpdateElementProof H eau e =
     (if se_LeafIndex e = EphemeralLeafIndex then None
      else do {
        e' \<leftarrow> updateProof H e (eau_updated eau);
        g \<leftarrow> at (eau_treeGrowth eau) (length (se_MerkleProof e'));
        Some (e'\<lparr>se_MerkleProof := se_MerkleProof e' @ g\<rparr>)
      })"

definition ElementRevertUpdate_UpdateElementProof ::
    "hashfn \<Rightarrow> element_revert_update \<Rightarrow> state_element \<Rightarrow> state_element option" where
  "ElementRevertUpdate_UpdateElementProof H eru e =
     (if se_LeafIndex e = EphemeralLeafIndex then None
      else if eru_numLeaves eru \<le> se_LeafIndex e then None
      else
        let mh = mergeHeight (eru_numLeaves eru) (se_LeafIndex e);
            e' = (if mh \<le> length (se_MerkleProof e)
                  then e\<lparr>se_MerkleProof := take (mh - 1) (se_MerkleProof e)\<rparr> else e)
        in updateProof H e' (eru_updated eru))"

section \<open>History\<close>

definition history_preimage :: "chain_index \<Rightarrow> byte list" where
  "history_preimage index = 0 # le_bytes 8 (ci_Height index) @ array_bytes 32 (ci_ID index)"

definition historyLeafHash :: "hashfn \<Rightarrow> chain_index \<Rightarrow> hash256" where
  "historyLeafHash H index = HashBytes H (history_preimage index)"

definition historyProofRoot :: "hashfn \<Rightarrow> chain_index \<Rightarrow> hash256 list \<Rightarrow> hash256" where
  "historyProofRoot H index proof' = ProofRoot H (historyLeafHash H index) (ci_Height index) proof'"

definition HistoryAccumulator_Contains ::
    "hashfn \<Rightarrow> accumulator \<Rightarrow> chain_index \<Rightarrow> hash256 list \<Rightarrow> bool" where
  "HistoryAccumulator_Contains H acc index proof' \<longleftrightarrow>
     hasTreeAtHeight acc (length proof') \<and> acc_Trees acc ! length proof' = historyProofRoot H index proof'"

record history_apply_update =
  hau_proof :: "hash256 list"
  hau_growth :: "hash256 list"

text \<open>The loop of \<open>ApplyBlock\<close>, with \<open>fuel\<close> heights left; \<open>None\<close> is the panic of \<open>Trees[64]\<close>.\<close>

fun HistoryAccumulator_walk ::
    "hashfn \<Rightarrow> accumulator \<Rightarrow> nat \<Rightarrow> nat \<Rightarrow> hash256 \<Rightarrow> history_apply_update
     \<Rightarrow> (accumulator \<times> history_apply_update) option" where
  "HistoryAccumulator_walk H acc i 0 h hau = None"
| "HistoryAccumulator_walk H acc i (Suc fuel) h hau =
     (if hasTreeAtHeight acc i then
        HistoryAccumulator_walk H acc (i + 1) fuel (NodeHash H (acc_Trees acc ! i) h)
          \<lparr>hau_proof = hau_proof hau @ [acc_Trees acc ! i], hau_growth = hau_growth hau @ [h]\<rparr>
      else Some (\<lparr>acc_Trees = (acc_Trees acc)[i := h], acc_NumLeaves = acc_NumLeaves acc + 1\<rparr>, hau))"

definition HistoryAccumulator_ApplyBlock ::
    "hashfn \<Rightarrow> accumulator \<Rightarrow> chain_index \<Rightarrow> (accumulator \<times> history_apply_update) option" where
  "HistoryAccumulator_ApplyBlock H acc index =
     HistoryAccumulator_walk H acc 0 64 (historyLeafHash H index) \<lparr>hau_proof = [], hau_growth = []\<rparr>"

definition HistoryApplyUpdate_HistoryProof :: "history_apply_update \<Rightarrow> hash256 list" where
  "HistoryApplyUpdate_HistoryProof hau = hau_proof hau"

text \<open>\<open>hau.proof[len(*proof):]\<close> panics when the proof is longer than \<open>hau.proof\<close>.\<close>

definition HistoryApplyUpdate_UpdateProof ::
    "history_apply_update \<Rightarrow> hash256 list \<Rightarrow> hash256 list option" where
  "HistoryApplyUpdate_UpdateProof hau proof' =
     (if length proof' < length (hau_growth hau) then
        let proof1 = proof' @ [hau_growth hau ! length proof']
        in if length proof1 \<le> length (hau_proof hau)
           then Some (proof1 @ drop (length proof1) (hau_proof hau)) else None
      else Some proof')"

record history_revert_update =
  hru_index :: chain_index

definition HistoryAccumulator_RevertBlock :: "accumulator \<Rightarrow> chain_index \<Rightarrow> history_revert_update" where
  "HistoryAccumulator_RevertBlock acc index = \<lparr>hru_index = index\<rparr>"

text \<open>\<open>(*proof)[:mh-1]\<close> panics for \<open>mh = 0\<close>, the index's own height.\<close>

definition HistoryRevertUpdate_UpdateProof ::
    "history_revert_update \<Rightarrow> u64 \<Rightarrow> hash256 list \<Rightarrow> hash256 list option" where
  "HistoryRevertUpdate_UpdateProof hru height proof' =
     (let mh = mergeHeight (ci_Height (hru_index hru)) height
      in if mh \<le> length proof' then (if mh = 0 then None else Some (take (mh - 1) proof'))
         else Some proof')"

end
