(* ===== verification/Accumulator_Add.thy ===== *)
theory Accumulator_Add
  imports Accumulator
begin

text \<open>
  What an accumulator stands for (\<open>represents\<close>: the roots of a forest) and the proof that
  \<open>addLeaves\<close> extends the forest: the invariant of its loop over the heights, the proofs it fills
  in, and \<open>treeGrowth\<close>, which extends the proofs of the leaves that were there before.
\<close>

section \<open>The forest of an accumulator\<close>

definition represents :: "hashfn \<Rightarrow> (nat \<Rightarrow> hash256) \<Rightarrow> nat \<Rightarrow> accumulator \<Rightarrow> bool" where
  "represents H f n acc \<longleftrightarrow>
     length (acc_Trees acc) = 64 \<and> unat (acc_NumLeaves acc) = n
     \<and> (\<forall>t<64. odd (n div 2 ^ t) \<longrightarrow> acc_Trees acc ! t = node H f t (n div 2 ^ t - 1))"

definition proof_of :: "hashfn \<Rightarrow> (nat \<Rightarrow> hash256) \<Rightarrow> nat \<Rightarrow> nat \<Rightarrow> hash256 list" where
  "proof_of H f n i = path H f (theight n i) i"

lemma represents_empty: "represents H f 0 empty_accumulator"
  by (simp add: represents_def empty_accumulator_def)

lemma represents_less: "represents H f n acc \<Longrightarrow> n < 2 ^ 64"
  by (auto simp: represents_def unat64_lt simp del: power_numeral)

lemma hasTreeAtHeight_iff: "hasTreeAtHeight acc t \<longleftrightarrow> odd (unat (acc_NumLeaves acc) div 2 ^ t)"
  unfolding hasTreeAtHeight_def by (rule and_push_bit_1)

lemma hasTreeAtHeight_less: "hasTreeAtHeight acc t \<Longrightarrow> t < 64"
proof (rule ccontr)
  assume "hasTreeAtHeight acc t" "\<not> t < 64"
  moreover from this have "(2::nat) ^ 64 \<le> 2 ^ t" by (intro power_increasing) simp_all
  then have "unat (acc_NumLeaves acc) < 2 ^ t" using unat64_lt less_le_trans by blast
  ultimately show False by (simp add: hasTreeAtHeight_iff)
qed

lemma represents_cong:
  assumes "represents H f n acc" "\<And>i. i < n \<Longrightarrow> f i = g i"
  shows "represents H g n acc"
proof -
  have "node H f t (n div 2 ^ t - 1) = node H g t (n div 2 ^ t - 1)" if "odd (n div 2 ^ t)" for t
    using that in_tree_less [of n t] by (intro node_cong assms(2)) (simp add: in_tree_def)
  then show ?thesis using assms(1) by (simp add: represents_def)
qed

lemma in_tree_same: "in_tree n t i \<Longrightarrow> l div 2 ^ t = i div 2 ^ t \<Longrightarrow> l < n"
  by (rule in_tree_less [of n t]) (simp add: in_tree_def)

lemma proof_of_cong:
  assumes "i < n" "\<And>k. k < n \<Longrightarrow> k \<noteq> i \<Longrightarrow> f k = g k"
  shows "proof_of H f n i = proof_of H g n i"
  unfolding proof_of_def using in_tree_same [OF in_tree_theight [OF assms(1)]]
  by (intro path_cong assms(2))

section \<open>Arithmetic of the merge step\<close>

definition cur_height :: "nat \<Rightarrow> nat \<Rightarrow> nat \<Rightarrow> nat" where
  "cur_height n t k = (if Suc n - 2 ^ t \<le> k then t else theight n k)"

lemma div_eq_last:
  assumes "low_ones n t" "Suc n - 2 ^ t \<le> k" "k \<le> n"
  shows "k div 2 ^ t = n div 2 ^ t"
proof -
  have "n div 2 ^ t * 2 ^ t \<le> k" using low_ones_div [OF assms(1)] assms(2) by simp
  then have "n div 2 ^ t \<le> k div 2 ^ t" by (simp add: less_eq_div_iff_mult_less_eq)
  then show ?thesis using div_le_mono [OF assms(3), of "2 ^ t"] by simp
qed

lemma div_eq_previous:
  assumes "low_ones n t" "odd (n div 2 ^ t)" "Suc n - 2 ^ Suc t \<le> k" "k < Suc n - 2 ^ t"
  shows "k div 2 ^ t = n div 2 ^ t - 1"
proof -
  let ?q = "n div 2 ^ t"
  have q: "Suc n = ?q * 2 ^ t + 2 ^ t" using low_ones_div [OF assms(1)] by simp
  have "1 \<le> ?q" using assms(2) by (auto elim!: oddE)
  then have "(?q - 1) * 2 ^ t + 2 ^ Suc t = Suc n" unfolding q by (simp add: algebra_simps)
  then have "(?q - 1) * 2 ^ t \<le> k" using assms(3) by simp
  then have "?q - 1 \<le> k div 2 ^ t" by (simp add: less_eq_div_iff_mult_less_eq)
  moreover have "k < ?q * 2 ^ t" using assms(4) unfolding q by simp
  then have "k div 2 ^ t < ?q" by (simp add: div_less_iff_less_mult)
  ultimately show ?thesis by linarith
qed

lemma cur_height_0: "k \<le> n \<Longrightarrow> cur_height n 0 k = (if k = n then 0 else theight n k)"
  by (auto simp: cur_height_def)

text \<open>The two halves of the merged tree, and the rest.\<close>

lemma cur_height_right:
  assumes "low_ones n t" "Suc n - 2 ^ t \<le> k" "k \<le> n"
  shows "cur_height n t k = t" "cur_height n (Suc t) k = Suc t"
  using assms(2) by (auto simp: cur_height_def)

lemma cur_height_left:
  assumes "low_ones n t" "odd (n div 2 ^ t)" "Suc n - 2 ^ Suc t \<le> k" "k < Suc n - 2 ^ t"
  shows "cur_height n t k = t" "cur_height n (Suc t) k = Suc t"
proof -
  have "in_tree n t k"
    using assms(2) div_eq_previous [OF assms] by (simp add: in_tree_def)
  then show "cur_height n t k = t" using assms(4) by (simp add: cur_height_def theight_eq)
  show "cur_height n (Suc t) k = Suc t" using assms(3) by (simp add: cur_height_def)
qed

lemma cur_height_other: "k < Suc n - 2 ^ Suc t \<Longrightarrow> cur_height n (Suc t) k = cur_height n t k"
  by (auto simp: cur_height_def)

lemma cur_height_final:
  assumes "low_ones n t" "even (n div 2 ^ t)" "k \<le> n"
  shows "cur_height n t k = theight (Suc n) k"
proof (cases "Suc n - 2 ^ t \<le> k")
  case True
  have "in_tree (Suc n) t k"
    using assms(2) div_eq_last [OF assms(1) True assms(3)] by (simp add: in_tree_def Suc_div_pow [OF assms(1)])
  then show ?thesis using True by (simp add: cur_height_def theight_eq)
next
  case False
  have "(1::nat) \<le> 2 ^ t" by simp
  then have "k < n" using False by linarith
  have "k div 2 ^ t < n div 2 ^ t"
    using False low_ones_div [OF assms(1)] by (simp add: div_less_iff_less_mult)
  let ?s = "theight n k"
  note it = in_tree_theight [OF \<open>k < n\<close>]
  have "t < ?s"
  proof (rule ccontr)
    assume "\<not> t < ?s"
    moreover have "?s \<noteq> t" using it assms(2) by (auto simp: in_tree_def)
    ultimately have "k div 2 ^ t = n div 2 ^ t"
      by (intro div_pow_mono_eq [OF in_tree_above [OF it]]) simp
    then show False using \<open>k div 2 ^ t < n div 2 ^ t\<close> by simp
  qed
  then have "in_tree (Suc n) ?s k" using it by (simp add: in_tree_def Suc_div_above [OF assms(1,2)])
  then show ?thesis using False by (simp add: cur_height_def theight_eq)
qed

text \<open>A path grows by the other half's root.\<close>

lemma path_merge:
  assumes low: "low_ones n t" and o: "odd (n div 2 ^ t)" and k: "k \<le> n"
  shows "path H f (cur_height n (Suc t) k) k =
    path H f (cur_height n t k) k @
      (if Suc n - 2 ^ t \<le> k then [node H f t (n div 2 ^ t - 1)]
       else if Suc n - 2 ^ Suc t \<le> k then [node H f t (n div 2 ^ t)] else [])"
proof -
  consider "Suc n - 2 ^ t \<le> k" | "Suc n - 2 ^ Suc t \<le> k" "k < Suc n - 2 ^ t"
    | "k < Suc n - 2 ^ Suc t" "k < Suc n - 2 ^ t" by fastforce
  then show ?thesis
  proof cases
    case 1
    then show ?thesis using o div_eq_last [OF low 1 k] cur_height_right [OF low 1 k]
      by (simp add: path_Suc sib_def del: power_Suc)
  next
    case 2
    have "sib (k div 2 ^ t) = n div 2 ^ t"
      using o div_eq_previous [OF low o 2] by (auto simp: sib_def elim!: oddE)
    then show ?thesis using 2 cur_height_left [OF low o 2] by (simp add: path_Suc del: power_Suc)
  next
    case 3
    then show ?thesis using cur_height_other [OF 3(1)] by simp
  qed
qed

section \<open>The loops of addLeaves\<close>

lemma set_proof_simps [simp]:
  "el_MerkleProof (set_proof p l) = p" "el_LeafIndex (set_proof p l) = el_LeafIndex l"
  "set_proof p (set_proof q l) = set_proof p l" "set_proof (el_MerkleProof l) l = l"
  "ElementLeaf_Hash H (set_proof p l) = ElementLeaf_Hash H l"
  "el_ElementHash (set_proof p l) = el_ElementHash l" "el_Spent (set_proof p l) = el_Spent l"
  by (simp_all add: set_proof_def ElementLeaf_Hash_def)

definition extend_range :: "int \<Rightarrow> int \<Rightarrow> hash256 \<Rightarrow> element_leaf list \<Rightarrow> element_leaf list" where
  "extend_range s j h ls =
     map (\<lambda>k. if s < int k \<and> int k \<le> j then set_proof (el_MerkleProof (ls ! k) @ [h]) (ls ! k) else ls ! k)
       [0..<length ls]"

lemma length_extend_range [simp]: "length (extend_range s j h ls) = length ls"
  by (simp add: extend_range_def)

lemma nth_extend_range [simp]:
  "k < length ls \<Longrightarrow> extend_range s j h ls ! k =
     (if s < int k \<and> int k \<le> j then set_proof (el_MerkleProof (ls ! k) @ [h]) (ls ! k) else ls ! k)"
  by (simp add: extend_range_def)

lemma extend_range_step:
  assumes "s < j" "0 \<le> j" "j < int (length ls)"
  shows "extend_range s (j - 1) h (ls[nat j := set_proof (el_MerkleProof (ls ! nat j) @ [h]) (ls ! nat j)])
    = extend_range s j h ls"
proof (rule nth_equalityI)
  let ?ls = "ls[nat j := set_proof (el_MerkleProof (ls ! nat j) @ [h]) (ls ! nat j)]"
  fix k assume "k < length (extend_range s (j - 1) h ?ls)"
  then show "extend_range s (j - 1) h ?ls ! k = extend_range s j h ls ! k"
    using assms by (cases "int k = j") (auto simp: nth_list_update)
qed simp

lemma appendBack:
  "j < int (length ls) \<Longrightarrow> - 1 \<le> j \<Longrightarrow>
   appendBack ls j s h = (extend_range s j h ls, if s < j then max s (- 1) else j)"
proof (induction ls j s h rule: appendBack.induct)
  case (1 ls j s h)
  show ?case
  proof (cases "s < j \<and> 0 \<le> j")
    case True
    then have "appendBack ls j s h = (extend_range s j h ls, if s < j - 1 then max s (- 1) else j - 1)"
      using 1 by (subst appendBack.simps) (simp add: extend_range_step)
    moreover have "(if s < j - 1 then max s (- 1) else j - 1) = max s (- 1)" using True by auto
    ultimately show ?thesis using True by simp
  next
    case False
    then have "extend_range s j h ls = ls" by (intro nth_equalityI) auto
    moreover have "(if s < j then max s (- 1) else j) = j" using False 1(3) by auto
    ultimately show ?thesis unfolding appendBack.simps [of ls j s h] if_not_P [OF False] by simp
  qed
qed

lemma int_minus_shl:
  assumes "height < 63" "i < 2 ^ 62"
  shows "int_minus_shl i height = int i - 2 ^ height"
proof -
  have "(2::int) ^ height \<le> 2 ^ 62" using assms(1) by (intro power_increasing) simp_all
  moreover have "int i < 2 ^ 62" using assms(2) by (simp add: of_nat_less_numeral_power_cancel_iff [symmetric])
  moreover have "(0::int) \<le> 2 ^ height" "(2::int) ^ 63 = 2 * 2 ^ 62" by simp_all
  ultimately have b: "- (2 ^ 63) \<le> int i - 2 ^ height" "int i - 2 ^ height < 2 ^ 63" by linarith+
  have "(word_of_nat i - push_bit height 1 :: u64) = word_of_int (int i - 2 ^ height)"
    by (simp add: push_bit_eq_mult)
  moreover have "sint (word_of_int x :: u64) = signed_take_bit 63 x" for x
    by (simp add: signed_of_int)
  ultimately show ?thesis
    unfolding int_minus_shl_def by (simp only: signed_take_bit_int_eq_self [OF b])
qed

text \<open>\<open>(NumLeaves + 1) - 1<<t\<close> does not wrap when the trees below \<open>t\<close> are being merged.\<close>

lemma tree_index:
  fixes N :: u64
  assumes "low_ones n t" "unat N = n" "n < 2 ^ 62"
  shows "unat (N + 1 - push_bit t 1) = Suc n - 2 ^ t" "t < 63"
proof -
  have le: "2 ^ t \<le> Suc n" using low_ones_div [OF assms(1)] by simp
  also have "\<dots> < 2 ^ 63" using assms(3) by simp
  finally show "t < 63" by (simp only: power_strict_increasing_iff)
  then have "(2::nat) ^ t < 2 ^ 64" by (intro power_strict_increasing) simp_all
  then have p: "unat (push_bit t 1 :: u64) = 2 ^ t"
    unfolding unat_push_bit64 unsigned_1 by (simp only: mult_1_right mod_less)
  have s: "unat (N + 1) = Suc n" using assms(2,3) by (simp add: unat_word_ariths)
  have "unat (N + 1 - push_bit t 1) = unat (N + 1) - unat (push_bit t 1 :: u64)"
    using le by (intro unat_sub) (simp only: word_le_nat_alt s p)
  then show "unat (N + 1 - push_bit t 1) = Suc n - 2 ^ t" by (simp only: s p)
qed

definition tree_start :: "nat \<Rightarrow> nat \<Rightarrow> nat" where
  "tree_start n t = n div 2 ^ Suc t * 2 ^ Suc t"

lemma tree_start_in_tree: "odd (n div 2 ^ t) \<Longrightarrow> in_tree n t (tree_start n t)"
proof -
  assume o: "odd (n div 2 ^ t)"
  have "tree_start n t div 2 ^ t = 2 * (n div 2 ^ Suc t)"
    by (simp add: tree_start_def mult.commute mult.left_commute)
  also have "\<dots> = n div 2 ^ t - 1" using o by (auto simp: nat_div_pow_Suc simp del: power_Suc elim!: oddE)
  finally show ?thesis using o by (simp add: in_tree_def)
qed

lemma unat_tree_start: "t < 63 \<Longrightarrow> unat (clearBits N (t + 1)) = tree_start (unat N) t"
  by (subst unat_clearBits) (simp_all add: tree_start_def)

text \<open>What \<open>treeGrowth[b]\<close> is for leaf \<open>s\<close> when its tree has grown to height \<open>t\<close>.\<close>

definition growth_to :: "hashfn \<Rightarrow> (nat \<Rightarrow> hash256) \<Rightarrow> nat \<Rightarrow> nat \<Rightarrow> nat \<Rightarrow> hash256 list" where
  "growth_to H f b t s = drop b (path H f t s)"

lemma growTree:
  assumes low: "low_ones n t" and o: "odd (n div 2 ^ t)" and N: "unat N = n" "n < 2 ^ 62"
    and N0: "unat N0 = n0" "n0 \<le> n" and b: "odd (n0 div 2 ^ b)"
    and g: "g = growth_to H f b (cur_height n t (tree_start n0 b)) (tree_start n0 b)"
    and le: "b \<le> cur_height n t (tree_start n0 b)"
  shows "growTree N0 N t (node H f t (n div 2 ^ t - 1)) (node H f t (n div 2 ^ t)) b g
    = growth_to H f b (cur_height n (Suc t) (tree_start n0 b)) (tree_start n0 b)"
proof -
  let ?s = "tree_start n0 b"
  have s: "?s < n0" using tree_start_in_tree [OF b] by (rule in_tree_less)
  have "2 ^ b \<le> n0" using b by (metis div_less even_zero not_le)
  also have "n0 < 2 ^ 63" using N N0 by simp
  finally have "b < 63" by (simp only: power_strict_increasing_iff)
  then have st: "unat (clearBits N0 (b + 1)) = ?s" using unat_tree_start [of b N0] by (simp only: N0(1))
  note i1 = tree_index(1) [OF low N] and i2 = tree_index(1) [OF low_ones_Suc [OF low o] N]
  have "growTree N0 N t x y b g = g @ (if Suc n - 2 ^ t \<le> ?s then [x] else if Suc n - 2 ^ Suc t \<le> ?s then [y] else [])"
    for x y
    using b N0 i1 i2 st and_push_bit_1 [of N0 b]
    by (simp add: growTree_def Let_def word_le_nat_alt del: power_Suc)
  then show ?thesis
    using s N0(2) le unfolding g growth_to_def by (subst path_merge [OF low o]) simp_all
qed

section \<open>The invariant of the walk\<close>

text \<open>The leaves during the loop: the first \<open>m\<close> are numbered and have the proofs \<open>P\<close>.\<close>

definition numbered :: "nat \<Rightarrow> element_leaf list \<Rightarrow> nat \<Rightarrow> element_leaf" where
  "numbered n0 ls j =
     (ls ! j)\<lparr>el_SE := (el_SE (ls ! j))\<lparr>se_LeafIndex := word_of_nat (n0 + j), se_MerkleProof := []\<rparr>\<rparr>"

definition leaf_state ::
    "nat \<Rightarrow> element_leaf list \<Rightarrow> nat \<Rightarrow> (nat \<Rightarrow> hash256 list) \<Rightarrow> element_leaf list" where
  "leaf_state n0 ls m P =
     map (\<lambda>j. if j < m then set_proof (P j) (numbered n0 ls j) else ls ! j) [0..<length ls]"

lemma length_leaf_state [simp]: "length (leaf_state n0 ls m P) = length ls"
  by (simp add: leaf_state_def)

lemma nth_leaf_state [simp]:
  "j < length ls \<Longrightarrow> leaf_state n0 ls m P ! j = (if j < m then set_proof (P j) (numbered n0 ls j) else ls ! j)"
  by (simp add: leaf_state_def)

lemma leaf_state_cong:
  "(\<And>j. j < m \<Longrightarrow> P j = Q j) \<Longrightarrow> leaf_state n0 ls m P = leaf_state n0 ls m Q"
  by (intro nth_equalityI) simp_all

lemma leaf_state_step:
  assumes "m < length ls"
  shows "(leaf_state n0 ls m P)[m := numbered n0 ls m] = leaf_state n0 ls (Suc m) (P(m := []))"
proof (rule nth_equalityI)
  have e: "set_proof [] (numbered n0 ls m) = numbered n0 ls m"
    by (simp add: set_proof_def numbered_def)
  fix j assume "j < length ((leaf_state n0 ls m P)[m := numbered n0 ls m])"
  then show "(leaf_state n0 ls m P)[m := numbered n0 ls m] ! j = leaf_state n0 ls (Suc m) (P(m := [])) ! j"
    using e by (cases j m rule: linorder_cases) simp_all
qed simp

lemma extend_leaf_state:
  assumes "j < int m"
  shows "extend_range s j h (leaf_state n0 ls m P)
    = leaf_state n0 ls m (\<lambda>k. if s < int k \<and> int k \<le> j then P k @ [h] else P k)"
  using assms by (intro nth_equalityI) auto

text \<open>Both loops of one height: the proofs of the two halves of the merged tree grow.\<close>

lemma appendBack_twice:
  assumes "appendBack (leaf_state n0 ls (Suc m) P) (int m) (int m - 2 ^ t) old = (ls1, j)"
    "appendBack ls1 j (int m - 2 ^ Suc t) new = (ls2, j')" "m < length ls" "2 ^ Suc t \<le> Suc (n0 + m)"
  shows "ls2 = leaf_state n0 ls (Suc m) (\<lambda>k. P k @
      (if Suc (n0 + m) - 2 ^ t \<le> n0 + k then [old]
       else if Suc (n0 + m) - 2 ^ Suc t \<le> n0 + k then [new] else []))"
proof -
  obtain X :: nat where X: "2 ^ t = X" "0 < X" by simp
  then have I: "(2::int) ^ t = int X" by (metis of_nat_numeral of_nat_power)
  have le: "2 * X \<le> Suc (n0 + m)" using assms(4) unfolding X(1) [symmetric] by simp
  have 1: "ls1 = leaf_state n0 ls (Suc m)
      (\<lambda>k. if int m - int X < int k \<and> int k \<le> int m then P k @ [old] else P k)" "j = max (int m - int X) (- 1)"
    using assms(1,3) X(2) appendBack [of "int m" "leaf_state n0 ls (Suc m) P" "int m - int X" old]
    by (simp_all add: I extend_leaf_state)
  have "j < int (Suc m)" "- 1 \<le> j" using 1(2) X(2) by auto
  then have "ls2 = extend_range (int m - 2 * int X) j new ls1"
    using assms(2,3) appendBack [of j ls1 "int m - 2 * int X" new] by (simp add: I 1(1))
  also have "\<dots> = leaf_state n0 ls (Suc m)
      (\<lambda>k. if int m - 2 * int X < int k \<and> int k \<le> j
           then (if int m - int X < int k \<and> int k \<le> int m then P k @ [old] else P k) @ [new]
           else if int m - int X < int k \<and> int k \<le> int m then P k @ [old] else P k)"
    unfolding 1(1) using \<open>j < int (Suc m)\<close> by (rule extend_leaf_state)
  also have "\<dots> = leaf_state n0 ls (Suc m) (\<lambda>k. P k @
      (if Suc (n0 + m) - X \<le> n0 + k then [old] else if Suc (n0 + m) - 2 * X \<le> n0 + k then [new] else []))"
  proof (rule leaf_state_cong)
    fix k assume k: "k < Suc m"
    have "int m - int X < int k \<longleftrightarrow> Suc (n0 + m) - X \<le> n0 + k"
      "int m - 2 * int X < int k \<longleftrightarrow> Suc (n0 + m) - 2 * X \<le> n0 + k"
      using le X(2) by auto
    then show "(if int m - 2 * int X < int k \<and> int k \<le> j
           then (if int m - int X < int k \<and> int k \<le> int m then P k @ [old] else P k) @ [new]
           else if int m - int X < int k \<and> int k \<le> int m then P k @ [old] else P k)
      = P k @ (if Suc (n0 + m) - X \<le> n0 + k then [old] else if Suc (n0 + m) - 2 * X \<le> n0 + k then [new] else [])"
      using k unfolding 1(2) by auto
  qed
  finally show ?thesis by (simp only: X(1) power_Suc)
qed

text \<open>
  With \<open>n = n0 + m\<close> leaves in the forest and the trees below height \<open>t\<close> merged under \<open>h\<close>.
\<close>

definition growth_inv ::
    "hashfn \<Rightarrow> (nat \<Rightarrow> hash256) \<Rightarrow> nat \<Rightarrow> (nat \<Rightarrow> nat) \<Rightarrow> hash256 list list \<Rightarrow> bool" where
  "growth_inv H f n0 height gs \<longleftrightarrow>
     length gs = 64
     \<and> (\<forall>b<64. odd (n0 div 2 ^ b) \<longrightarrow>
          b \<le> height (tree_start n0 b)
          \<and> gs ! b = growth_to H f b (height (tree_start n0 b)) (tree_start n0 b))"

definition add_inv ::
    "hashfn \<Rightarrow> (nat \<Rightarrow> hash256) \<Rightarrow> nat \<Rightarrow> element_leaf list \<Rightarrow> nat \<Rightarrow> add_state \<Rightarrow> bool" where
  "add_inv H f n0 ls m st \<longleftrightarrow>
     represents H f (n0 + m) (as_acc st)
     \<and> as_leaves st = leaf_state n0 ls m (\<lambda>j. proof_of H f (n0 + m) (n0 + j))
     \<and> growth_inv H f n0 (theight (n0 + m)) (as_growth st)"

definition walk_inv ::
    "hashfn \<Rightarrow> (nat \<Rightarrow> hash256) \<Rightarrow> nat \<Rightarrow> element_leaf list \<Rightarrow> nat \<Rightarrow> nat \<Rightarrow> add_state \<Rightarrow> bool" where
  "walk_inv H f n0 ls m t st \<longleftrightarrow>
     represents H f (n0 + m) (as_acc st)
     \<and> as_leaves st = leaf_state n0 ls (Suc m)
          (\<lambda>j. path H f (cur_height (n0 + m) t (n0 + j)) (n0 + j))
     \<and> growth_inv H f n0 (cur_height (n0 + m) t) (as_growth st)"

lemma growth_inv_cong:
  assumes "growth_inv H f n0 ht gs" "\<And>i. i < n0 \<Longrightarrow> ht i = ht' i"
  shows "growth_inv H f n0 ht' gs"
proof -
  have "ht (tree_start n0 b) = ht' (tree_start n0 b)" if "odd (n0 div 2 ^ b)" for b
    using in_tree_less [OF tree_start_in_tree [OF that]] by (rule assms(2))
  then show ?thesis using assms(1) by (auto simp: growth_inv_def)
qed

lemma cur_height_mono:
  assumes "low_ones n t" "odd (n div 2 ^ t)"
  shows "cur_height n t k \<le> cur_height n (Suc t) k"
proof (cases "Suc n - 2 ^ t \<le> k")
  case False
  then show ?thesis
  proof (cases "Suc n - 2 ^ Suc t \<le> k")
    case True
    then show ?thesis using cur_height_left [OF assms True] False by (simp add: not_le)
  qed (simp add: cur_height_other)
qed (auto simp: cur_height_def)

lemma growth_inv_step:
  assumes low: "low_ones n t" and o: "odd (n div 2 ^ t)" and N: "unat N = n" "n < 2 ^ 62"
    and N0: "unat N0 = n0" "n0 \<le> n" and g: "growth_inv H f n0 (cur_height n t) gs"
  shows "growth_inv H f n0 (cur_height n (Suc t))
    (map (\<lambda>(b, g). growTree N0 N t (node H f t (n div 2 ^ t - 1)) (node H f t (n div 2 ^ t)) b g)
      (enumerate 0 gs))"
  unfolding growth_inv_def
proof (intro conjI allI impI)
  fix b assume b: "b < 64" "odd (n0 div 2 ^ b)"
  then have i: "b \<le> cur_height n t (tree_start n0 b)"
    "gs ! b = growth_to H f b (cur_height n t (tree_start n0 b)) (tree_start n0 b)" "length gs = 64"
    using g by (simp_all add: growth_inv_def)
  show "b \<le> cur_height n (Suc t) (tree_start n0 b)"
    using i(1) cur_height_mono [OF low o] by (rule le_trans)
  show "map (\<lambda>(b, g). growTree N0 N t (node H f t (n div 2 ^ t - 1)) (node H f t (n div 2 ^ t)) b g)
      (enumerate 0 gs) ! b
    = growth_to H f b (cur_height n (Suc t) (tree_start n0 b)) (tree_start n0 b)"
    using growTree [OF low o N N0 b(2) i(2,1)] b(1) i(3) by (simp add: nth_enumerate_eq)
qed (use g in \<open>simp add: growth_inv_def\<close>)

text \<open>A tree of height \<open>t\<close> is put in its free place: the forest has one more leaf.\<close>

lemma represents_insert:
  assumes low: "low_ones n t" and e: "even (n div 2 ^ t)" and n: "n < 2 ^ 62"
    and r: "represents H f n acc" and h: "h = node H f t (n div 2 ^ t)"
  shows "represents H f (Suc n) \<lparr>acc_Trees = (acc_Trees acc)[t := h], acc_NumLeaves = acc_NumLeaves acc + 1\<rparr>"
proof -
  have tr: "(acc_Trees acc)[t := h] ! s = node H f s (Suc n div 2 ^ s - 1)"
    if s: "s < 64" "odd (Suc n div 2 ^ s)" for s
  proof (cases s t rule: linorder_cases)
    case less
    then obtain d where d: "t = s + Suc d" by (auto simp: less_iff_Suc_add)
    have p: "(2::nat) ^ t = 2 * 2 ^ d * 2 ^ s" unfolding d by (simp add: power_add)
    define q where "q = n div 2 ^ t + 1"
    have "Suc n = q * 2 ^ t" unfolding q_def by (rule low_ones_div [OF low])
    then have "Suc n = q * (2 * 2 ^ d * 2 ^ s)" unfolding p .
    also have "\<dots> = 2 * (q * 2 ^ d) * 2 ^ s" by (simp add: mult_ac)
    finally have "Suc n = 2 * (q * 2 ^ d) * 2 ^ s" .
    then have "Suc n div 2 ^ s = 2 * (q * 2 ^ d)"
      by (metis nonzero_mult_div_cancel_right power_not_zero zero_neq_numeral)
    then show ?thesis using s(2) by simp
  next
    case equal
    then show ?thesis using s r by (simp add: h represents_def Suc_div_pow [OF low])
  next
    case greater
    then show ?thesis using s r by (simp add: represents_def Suc_div_above [OF low e])
  qed
  have "unat (acc_NumLeaves acc + 1) = Suc n"
    using r n by (simp add: represents_def unat_word_ariths)
  then show ?thesis unfolding represents_def using r tr by (simp add: represents_def)
qed

lemma walk_done:
  assumes low: "low_ones n t" and e: "even (n div 2 ^ t)" and n: "n = n0 + m" "n < 2 ^ 62"
    and inv: "walk_inv H f n0 ls m t st" and h: "h = node H f t (n div 2 ^ t)"
  shows "add_inv H f n0 ls (Suc m)
    (st\<lparr>as_acc := \<lparr>acc_Trees = (acc_Trees (as_acc st))[t := h], acc_NumLeaves = acc_NumLeaves (as_acc st) + 1\<rparr>\<rparr>)"
proof -
  have fin: "cur_height n t k = theight (Suc n) k" if "k \<le> n" for k
    using cur_height_final [OF low e that] .
  have r: "represents H f n (as_acc st)" using inv n by (simp add: walk_inv_def)
  note represents_insert [OF low e n(2) r h]
  moreover have "as_leaves st = leaf_state n0 ls (Suc m) (\<lambda>j. proof_of H f (Suc n) (n0 + j))"
    using inv fin n(1) unfolding walk_inv_def proof_of_def by (auto intro!: leaf_state_cong)
  moreover have "growth_inv H f n0 (theight (Suc n)) (as_growth st)"
  proof (rule growth_inv_cong)
    show "growth_inv H f n0 (cur_height n t) (as_growth st)"
      using inv unfolding walk_inv_def n(1) by blast
    show "cur_height n t i = theight (Suc n) i" if "i < n0" for i
      using that n(1) by (intro fin) simp
  qed
  ultimately show ?thesis by (simp add: add_inv_def n(1))
qed

lemma walk_step:
  assumes low: "low_ones n t" and o: "odd (n div 2 ^ t)" and n: "n = n0 + m" "n < 2 ^ 62"
    and inv: "walk_inv H f n0 ls m t st" and N0: "unat N0 = n0" and m: "m < length ls"
    and old: "old = node H f t (n div 2 ^ t - 1)" and h: "h = node H f t (n div 2 ^ t)"
    and 1: "appendBack (as_leaves st) (int m) (int_minus_shl m t) old = (ls1, j)"
    and 2: "appendBack ls1 j (int_minus_shl m (t + 1)) h = (ls2, j')"
  shows "walk_inv H f n0 ls m (Suc t)
    \<lparr>as_acc = as_acc st, as_leaves = ls2,
     as_growth = map (\<lambda>(b, g). growTree N0 (acc_NumLeaves (as_acc st)) t old h b g) (enumerate 0 (as_growth st))\<rparr>"
proof -
  note low' = low_ones_Suc [OF low o]
  have r: "represents H f n (as_acc st)" "unat (acc_NumLeaves (as_acc st)) = n"
    and g: "growth_inv H f n0 (cur_height n t) (as_growth st)"
    and l: "as_leaves st = leaf_state n0 ls (Suc m) (\<lambda>j. path H f (cur_height n t (n0 + j)) (n0 + j))"
    using inv by (simp_all add: walk_inv_def n(1) represents_def)
  note t = tree_index(2) [OF low' r(2) n(2)]
  have le: "2 ^ Suc t \<le> Suc (n0 + m)" using low_ones_div [OF low'] by (simp add: n(1) del: power_Suc)
  have "m < 2 ^ 62" using n by linarith
  then have s: "int_minus_shl m t = int m - 2 ^ t" "int_minus_shl m (t + 1) = int m - 2 ^ Suc t"
    using t by (simp_all add: int_minus_shl del: power_Suc)
  have "ls2 = leaf_state n0 ls (Suc m) (\<lambda>k. path H f (cur_height n t (n0 + k)) (n0 + k) @
      (if Suc (n0 + m) - 2 ^ t \<le> n0 + k then [old]
       else if Suc (n0 + m) - 2 ^ Suc t \<le> n0 + k then [h] else []))"
    by (rule appendBack_twice [OF 1 [unfolded l s] 2 [unfolded s] m le])
  also have "\<dots> = leaf_state n0 ls (Suc m) (\<lambda>j. path H f (cur_height n (Suc t) (n0 + j)) (n0 + j))"
  proof (rule leaf_state_cong)
    fix j assume "j < Suc m"
    then have "n0 + j \<le> n" using n(1) by simp
    from path_merge [OF low o this, symmetric]
    show "path H f (cur_height n t (n0 + j)) (n0 + j) @
        (if Suc (n0 + m) - 2 ^ t \<le> n0 + j then [old]
         else if Suc (n0 + m) - 2 ^ Suc t \<le> n0 + j then [h] else [])
      = path H f (cur_height n (Suc t) (n0 + j)) (n0 + j)"
      by (simp only: old h n(1))
  qed
  finally have l2: "ls2 = leaf_state n0 ls (Suc m) (\<lambda>j. path H f (cur_height n (Suc t) (n0 + j)) (n0 + j))" .
  have "n0 \<le> n" using n(1) by simp
  from growth_inv_step [OF low o r(2) n(2) N0 this g] show ?thesis
    using r(1) l2 by (simp add: walk_inv_def n(1) old h)
qed

lemma addLeaf_walk:
  assumes "low_ones n t" "n = n0 + m" "n < 2 ^ 62" "walk_inv H f n0 ls m t st" "unat N0 = n0"
    "m < length ls" "h = node H f t (n div 2 ^ t)" "t + fuel = 64"
  shows "add_inv H f n0 ls (Suc m) (addLeaf_walk H N0 m t fuel h st)"
  using assms
proof (induction fuel arbitrary: t h st)
  case 0
  have "unat (acc_NumLeaves (as_acc st)) = n"
    using 0(2,4) by (simp add: walk_inv_def represents_def)
  then have "t < 63" using 0 by (intro tree_index(2) [of n]) simp_all
  then show ?case using 0(8) by simp
next
  case (Suc fuel)
  note low = Suc.prems(1) and n = Suc.prems(2,3) and inv = Suc.prems(4)
  have r: "represents H f n (as_acc st)" using inv by (simp add: walk_inv_def n(1))
  have has: "hasTreeAtHeight (as_acc st) t \<longleftrightarrow> odd (n div 2 ^ t)"
    using r by (simp add: hasTreeAtHeight_iff represents_def)
  show ?case
  proof (cases "odd (n div 2 ^ t)")
    case False
    then show ?thesis using walk_done [OF low _ n inv Suc.prems(7)] has by (simp add: Let_def)
  next
    case True
    let ?old = "acc_Trees (as_acc st) ! t"
    obtain ls1 j where 1: "appendBack (as_leaves st) (int m) (int_minus_shl m t) ?old = (ls1, j)" by fastforce
    obtain ls2 j' where 2: "appendBack ls1 j (int_minus_shl m (t + 1)) h = (ls2, j')" by fastforce
    have old: "?old = node H f t (n div 2 ^ t - 1)"
      using r True Suc.prems(8) by (simp add: represents_def)
    have up: "NodeHash H ?old h = node H f (Suc t) (n div 2 ^ Suc t)"
      using True unfolding old Suc.prems(7) by (auto simp: nat_div_pow_Suc simp del: power_Suc elim!: oddE)
    note w = walk_step [OF low True n inv Suc.prems(5,6) old Suc.prems(7) 1 2]
    note ih = Suc.IH [OF low_ones_Suc [OF low True] n w Suc.prems(5,6) up]
    show ?thesis using ih Suc.prems(8) has True 1 2 by (simp add: Let_def)
  qed
qed

text \<open>The whole loop.\<close>

lemma addLeaf_inv:
  assumes "add_inv H f n0 ls m st" "m < length ls" "n0 + m < 2 ^ 62" "unat N0 = n0"
    "f (n0 + m) = ElementLeaf_Hash H (numbered n0 ls m)"
  shows "add_inv H f n0 ls (Suc m) (addLeaf H N0 st m)"
proof -
  let ?n = "n0 + m" and ?P = "\<lambda>j. proof_of H f (n0 + m) (n0 + j)"
  have r: "represents H f ?n (as_acc st)" and l: "as_leaves st = leaf_state n0 ls m ?P"
    and g: "growth_inv H f n0 (theight ?n) (as_growth st)"
    using assms(1) by (simp_all add: add_inv_def)
  let ?l = "as_leaves st ! m"
  have "acc_NumLeaves (as_acc st) = word_of_nat ?n"
    using r unfolding represents_def by (metis of_nat_unat ucast_id)
  then have num: "?l\<lparr>el_SE := (el_SE ?l)\<lparr>se_LeafIndex := acc_NumLeaves (as_acc st), se_MerkleProof := []\<rparr>\<rparr>
    = numbered n0 ls m"
    using assms(2) by (simp add: l numbered_def)
  have l2: "(as_leaves st)[m := numbered n0 ls m]
      = leaf_state n0 ls (Suc m) (\<lambda>j. path H f (cur_height ?n 0 (n0 + j)) (n0 + j))"
    unfolding l leaf_state_step [OF assms(2)]
    by (intro leaf_state_cong) (auto simp: cur_height_0 proof_of_def)
  have g2: "growth_inv H f n0 (cur_height ?n 0) (as_growth st)"
    by (rule growth_inv_cong [OF g]) (auto simp: cur_height_0)
  have "walk_inv H f n0 ls m 0 (st\<lparr>as_leaves := (as_leaves st)[m := numbered n0 ls m]\<rparr>)"
    using r l2 g2 by (simp add: walk_inv_def)
  from addLeaf_walk [OF low_ones_0 refl assms(3) this assms(4,2), of "ElementLeaf_Hash H (numbered n0 ls m)" 64]
  show ?thesis unfolding addLeaf_def Let_def num by (simp add: assms(5))
qed

theorem addLeaves_inv:
  assumes "represents H f n0 acc" "n0 + length ls < 2 ^ 62"
    "\<And>j. j < length ls \<Longrightarrow> f (n0 + j) = ElementLeaf_Hash H (numbered n0 ls j)"
    "addLeaves H acc ls = (acc', ls', growth)"
  shows "add_inv H f n0 ls (length ls) \<lparr>as_acc = acc', as_leaves = ls', as_growth = growth\<rparr>"
proof -
  let ?st = "\<lambda>m. foldl (addLeaf H (acc_NumLeaves acc))
      \<lparr>as_acc = acc, as_leaves = ls, as_growth = replicate 64 []\<rparr> [0..<m]"
  have N: "unat (acc_NumLeaves acc) = n0" using assms(1) by (simp add: represents_def)
  have "add_inv H f n0 ls m (?st m)" if "m \<le> length ls" for m
    using that
  proof (induction m)
    case 0
    have "leaf_state n0 ls 0 P = ls" for P by (intro nth_equalityI) simp_all
    moreover have "theight n0 (tree_start n0 b) = b" if "odd (n0 div 2 ^ b)" for b
      using tree_start_in_tree [OF that] by (rule theight_eq)
    ultimately show ?case using assms(1) by (simp add: add_inv_def growth_inv_def growth_to_def)
  next
    case (Suc m)
    then show ?case using assms(2,3) N by (simp add: addLeaf_inv)
  qed
  from this [of "length ls"] show ?thesis using assms(4) by (auto simp: addLeaves_def Let_def add_inv_def)
qed

text \<open>The growth of its tree makes an old proof a proof in the new forest.\<close>

lemma drop_path_cong:
  assumes "i div 2 ^ b = s div 2 ^ b"
  shows "drop b (path H f t i) = drop b (path H f t s)"
proof (rule nth_equalityI)
  fix j assume j: "j < length (drop b (path H f t i))"
  have "i div 2 ^ (b + j) = s div 2 ^ (b + j)" by (rule div_pow_mono_eq [OF assms]) simp
  then show "drop b (path H f t i) ! j = drop b (path H f t s) ! j" using j by (simp add: nth_path)
qed simp

lemma proof_growth:
  assumes "growth_inv H f n0 (theight n') gs" "i < n0" "n0 < 2 ^ 64" "n0 \<le> n'"
  shows "proof_of H f n0 i @ gs ! theight n0 i = proof_of H f n' i"
    "theight n0 i \<le> theight n' i" "length gs = 64"
proof -
  let ?b = "theight n0 i" and ?T = "theight n' (tree_start n0 (theight n0 i))"
  let ?s = "tree_start n0 ?b"
  note it = in_tree_theight [OF assms(2)]
  have b: "?b < 64" using theight_less [OF assms(2,3)] .
  have o: "odd (n0 div 2 ^ ?b)" using it by (simp add: in_tree_def)
  have s: "i div 2 ^ ?b = ?s div 2 ^ ?b"
    using it tree_start_in_tree [OF o] by (simp add: in_tree_def)
  have g: "?b \<le> ?T" "gs ! ?b = growth_to H f ?b ?T ?s"
    using assms(1) b o by (simp_all add: growth_inv_def)
  have "?s < n'" using in_tree_less [OF tree_start_in_tree [OF o]] assms(4) by simp
  then have "in_tree n' ?T ?s" by (rule in_tree_theight)
  then have "in_tree n' ?T i" using div_pow_mono_eq [OF s g(1)] by (simp add: in_tree_def)
  then have T: "theight n' i = ?T" by (rule theight_eq)
  show "?b \<le> theight n' i" using g(1) by (simp only: T)
  have "path H f ?b i @ drop ?b (path H f ?T i) = path H f ?T i"
    using append_take_drop_id [of ?b "path H f ?T i"] by (simp only: take_path [OF g(1)])
  then show "proof_of H f n0 i @ gs ! ?b = proof_of H f n' i"
    by (simp add: proof_of_def g(2) growth_to_def T drop_path_cong [OF s])
  show "length gs = 64" using assms(1) by (simp add: growth_inv_def)
qed

end
