(* ===== verification/Accumulator_Update.thy ===== *)
theory Accumulator_Update
  imports Accumulator_Add
begin

text \<open>
  \<open>updateLeaves\<close>: sorting and grouping the leaves by tree, and the recursion \<open>recompute\<close> that
  gives each tree its new root and each leaf its new proof.
\<close>

section \<open>Sorted leaves\<close>

text \<open>The binary search finds the border of a monotone predicate.\<close>

lemma sort_Search_loop:
  assumes "i \<le> j" "\<And>k. k < i \<Longrightarrow> \<not> f k" "\<And>k. j \<le> k \<Longrightarrow> k < n \<Longrightarrow> f k" "j \<le> n"
    "\<And>k l. k \<le> l \<Longrightarrow> l < n \<Longrightarrow> f k \<Longrightarrow> f l"
  shows "sort_Search_loop f i j \<le> n \<and> (\<forall>k<n. f k \<longleftrightarrow> sort_Search_loop f i j \<le> k)"
  using assms
proof (induction f i j rule: sort_Search_loop.induct)
  case (1 f i j)
  let ?h = "(i + j) div 2"
  show ?case
  proof (cases "i < j")
    case True
    then have h: "i \<le> ?h" "?h < j" by simp_all
    show ?thesis
    proof (cases "f ?h")
      case True
      have e: "sort_Search_loop f i j = sort_Search_loop f i ?h"
        using True \<open>i < j\<close> by (subst sort_Search_loop.simps) (simp add: Let_def)
      have "f k" if "?h \<le> k" "k < n" for k using "1.prems"(5) that True by blast
      moreover have "?h \<le> n" using h "1.prems"(4) by linarith
      ultimately show ?thesis
        unfolding e using True "1.prems"(2,5) h(1) by (intro "1.IH"(2) [OF \<open>i < j\<close> refl]) simp_all
    next
      case False
      have e: "sort_Search_loop f i j = sort_Search_loop f (?h + 1) j"
        using False \<open>i < j\<close> by (subst sort_Search_loop.simps) (simp add: Let_def)
      have "\<not> f k" if "k < ?h + 1" for k
      proof
        assume "f k"
        moreover have "k \<le> ?h" "?h < n" using that h "1.prems"(4) by linarith+
        ultimately show False using "1.prems"(5) False by blast
      qed
      then show ?thesis
        unfolding e using False "1.prems"(3-5) h(2) by (intro "1.IH"(1) [OF \<open>i < j\<close> refl]) simp_all
    qed
  next
    case False
    then have "sort_Search_loop f i j = i" "i = j" using "1.prems"(1) by (simp_all add: sort_Search_loop.simps)
    then show ?thesis using "1.prems" by (metis not_less)
  qed
qed

abbreviation idx :: "element_leaf \<Rightarrow> nat" where
  "idx l \<equiv> unat (el_LeafIndex l)"

definition leaves_sorted :: "element_leaf list \<Rightarrow> bool" where
  "leaves_sorted ls \<longleftrightarrow> sorted_wrt (<) (map idx ls)"

lemma splitLeaves:
  assumes "leaves_sorted ls" "splitLeaves ls mid = (left, right)"
  shows "left @ right = ls" "leaves_sorted left" "leaves_sorted right"
    "\<And>l. l \<in> set left \<Longrightarrow> idx l < unat mid" "\<And>l. l \<in> set right \<Longrightarrow> unat mid \<le> idx l"
proof -
  let ?f = "\<lambda>i. mid \<le> el_LeafIndex (ls ! i)"
  let ?s = "sort_Search (length ls) ?f"
  have mono: "?f l" if "k \<le> l" "l < length ls" "?f k" for k l
  proof (cases "k = l")
    case False
    then have "idx (ls ! k) < idx (ls ! l)"
      using assms(1) that sorted_wrt_nth_less [of "(<)" "map idx ls" k l] by (simp add: leaves_sorted_def)
    then show ?thesis using that(3) by (simp add: word_le_nat_alt)
  qed (use that in simp)
  have s: "?s \<le> length ls" "\<And>k. k < length ls \<Longrightarrow> ?f k \<longleftrightarrow> ?s \<le> k"
    using sort_Search_loop [of 0 "length ls" ?f "length ls"] mono by (auto simp: sort_Search_def)
  have lr: "left = take ?s ls" "right = drop ?s ls"
    using assms(2) by (auto simp: splitLeaves_def Let_def)
  show "left @ right = ls" by (simp add: lr)
  show "leaves_sorted left" "leaves_sorted right"
    using assms(1) by (simp_all add: lr leaves_sorted_def take_map [symmetric] drop_map [symmetric]
        sorted_wrt_take sorted_wrt_drop)
  show "idx l < unat mid" if "l \<in> set left" for l
    using that s by (auto simp: lr in_set_conv_nth word_le_nat_alt not_le [symmetric])
  show "unat mid \<le> idx l" if "l \<in> set right" for l
    using that s by (auto simp: lr in_set_conv_nth word_le_nat_alt)
qed

section \<open>recompute\<close>

text \<open>
  The leaves \<open>ls\<close> of the subtree of height \<open>h\<close> at \<open>k\<close> are to be overwritten: the forest changes from
  \<open>f\<close> to \<open>f'\<close> in these leaves only, and their proofs are right for \<open>f\<close> below height \<open>h\<close>.
\<close>

definition tree_ok ::
    "hashfn \<Rightarrow> (nat \<Rightarrow> hash256) \<Rightarrow> (nat \<Rightarrow> hash256) \<Rightarrow> nat \<Rightarrow> nat \<Rightarrow> element_leaf list \<Rightarrow> bool" where
  "tree_ok H f f' h k ls \<longleftrightarrow>
     leaves_sorted ls
     \<and> (\<forall>l\<in>set ls. idx l div 2 ^ h = k \<and> h \<le> length (el_MerkleProof l)
          \<and> take h (el_MerkleProof l) = path H f h (idx l) \<and> f' (idx l) = ElementLeaf_Hash H l)
     \<and> (\<forall>i. i div 2 ^ h = k \<longrightarrow> i \<notin> idx ` set ls \<longrightarrow> f' i = f i)"

definition with_path :: "hashfn \<Rightarrow> (nat \<Rightarrow> hash256) \<Rightarrow> nat \<Rightarrow> element_leaf \<Rightarrow> element_leaf" where
  "with_path H f h l = set_proof (path H f h (idx l) @ drop h (el_MerkleProof l)) l"

lemma tree_ok_unchanged: "tree_ok H f f' h k [] \<Longrightarrow> node H f' h k = node H f h k"
  by (rule node_cong) (simp add: tree_ok_def)

lemma tree_ok_sibling:
  assumes "tree_ok H f f' (Suc h) k ls" "l \<in> set ls"
  shows "h < length (el_MerkleProof l)" "el_MerkleProof l ! h = node H f h (sib (idx l div 2 ^ h))"
proof -
  have l: "Suc h \<le> length (el_MerkleProof l)"
    "take (Suc h) (el_MerkleProof l) = path H f (Suc h) (idx l)"
    using assms by (simp_all add: tree_ok_def)
  show "h < length (el_MerkleProof l)" using l(1) by simp
  have "el_MerkleProof l ! h = take (Suc h) (el_MerkleProof l) ! h" by simp
  then show "el_MerkleProof l ! h = node H f h (sib (idx l div 2 ^ h))"
    by (simp add: l(2) nth_path)
qed

lemma half_div:
  assumes "i div 2 ^ Suc h = (k::nat)"
  shows "i < (2 * k + 1) * 2 ^ h \<Longrightarrow> i div 2 ^ h = 2 * k"
    "(2 * k + 1) * 2 ^ h \<le> i \<Longrightarrow> i div 2 ^ h = 2 * k + 1"
proof -
  have k: "i div 2 ^ h div 2 = k" using assms by (simp only: nat_div_pow_Suc)
  show "i div 2 ^ h = 2 * k" if "i < (2 * k + 1) * 2 ^ h"
  proof -
    have "i div 2 ^ h < 2 * k + 1" using that by (simp add: div_less_iff_less_mult)
    then show ?thesis using k by linarith
  qed
  show "i div 2 ^ h = 2 * k + 1" if "(2 * k + 1) * 2 ^ h \<le> i"
  proof -
    have "2 * k + 1 \<le> i div 2 ^ h" using that by (simp add: less_eq_div_iff_mult_less_eq)
    then show ?thesis using k by linarith
  qed
qed

lemma tree_ok_split:
  assumes ok: "tree_ok H f f' (Suc h) k ls" and s: "splitLeaves ls mid = (left, right)"
    and mid: "unat mid = (2 * k + 1) * 2 ^ h"
  shows "tree_ok H f f' h (2 * k) left" "tree_ok H f f' h (2 * k + 1) right" "left @ right = ls"
proof -
  have so: "leaves_sorted ls" using ok by (simp add: tree_ok_def)
  note sp = splitLeaves [OF so s]
  show lr: "left @ right = ls" by (rule sp(1))
  have ls: "idx l div 2 ^ Suc h = k" "Suc h \<le> length (el_MerkleProof l)"
    "take (Suc h) (el_MerkleProof l) = path H f (Suc h) (idx l)" "f' (idx l) = ElementLeaf_Hash H l"
    if "l \<in> set left \<union> set right" for l
    using ok that unfolding tree_ok_def lr [symmetric] by auto
  have tk: "take h (el_MerkleProof l) = path H f h (idx l)" if "l \<in> set left \<union> set right" for l
    using arg_cong [where f = "take h", OF ls(3) [OF that]] by (simp add: min_def take_path)
  have l: "idx l div 2 ^ h = 2 * k" if "l \<in> set left" for l
    using half_div(1) [OF ls(1)] sp(4) [OF that] that by (simp add: mid)
  have r: "idx l div 2 ^ h = 2 * k + 1" if "l \<in> set right" for l
    using half_div(2) [OF ls(1)] sp(5) [OF that] that by (simp add: mid)
  have off: "f' i = f i" if "i div 2 ^ h div 2 = k" "i \<notin> idx ` (set left \<union> set right)" for i
    using ok that unfolding tree_ok_def lr [symmetric] by (auto simp: nat_div_pow_Suc simp del: power_Suc)
  have "f' i = f i" if "i div 2 ^ h = 2 * k" "i \<notin> idx ` set left" for i
    using that r by (intro off) auto
  then show "tree_ok H f f' h (2 * k) left"
    unfolding tree_ok_def using sp(2) l ls(2,4) tk by (auto simp: Suc_le_eq less_imp_le)
  have "f' i = f i" if "i div 2 ^ h = 2 * k + 1" "i \<notin> idx ` set right" for i
    using that l by (intro off) auto
  then show "tree_ok H f f' h (2 * k + 1) right"
    unfolding tree_ok_def using sp(3) r ls(2,4) tk by (auto simp: Suc_le_eq less_imp_le)
qed

lemma map_option_list_Some:
  "(\<And>x. x \<in> set xs \<Longrightarrow> f x = Some (g x)) \<Longrightarrow> map_option_list f xs = Some (map g xs)"
  by (induction xs) simp_all

lemma set_all:
  "(\<And>l. l \<in> set ls \<Longrightarrow> h < length (el_MerkleProof l)) \<Longrightarrow>
   set_all (Suc h) v ls = Some (map (\<lambda>l. set_proof ((el_MerkleProof l)[h := v]) l) ls)"
  unfolding set_all_def by (rule map_option_list_Some) (simp add: set_height_def not_less_eq)

lemma tree_ok_set_proof:
  "tree_ok H f f' h k ls \<Longrightarrow> tree_ok H f f' h k (map (\<lambda>l. set_proof ((el_MerkleProof l)[h := v]) l) ls)"
  by (auto simp: tree_ok_def leaves_sorted_def comp_def image_image)

lemma with_path_Suc:
  assumes "h < length (el_MerkleProof l)" "el_MerkleProof l ! h = node H f h (sib (idx l div 2 ^ h))"
  shows "with_path H f h l = with_path H f (Suc h) l"
  using assms by (simp add: with_path_def path_Suc Cons_nth_drop_Suc [symmetric])

lemma with_path_set:
  assumes "h < length (el_MerkleProof l)" "v = node H f h (sib (idx l div 2 ^ h))"
  shows "with_path H f h (set_proof ((el_MerkleProof l)[h := v]) l) = with_path H f (Suc h) l"
    "set_proof ((el_MerkleProof (with_path H f h l))[h := v]) (with_path H f h l) = with_path H f (Suc h) l"
  using assms
  by (simp_all add: with_path_def path_Suc Cons_nth_drop_Suc [symmetric] list_update_append upd_conv_take_nth_drop)

lemma trailing_zeros_pow: "trailing_zeros (2 ^ h) = h"
  by (induction h) (simp_all add: trailing_zeros.simps)

lemma TrailingZeros64_pow: "unat x = 2 ^ h \<Longrightarrow> bits_TrailingZeros64 x = h"
  by (auto simp: bits_TrailingZeros64_def trailing_zeros_pow)

text \<open>The two halves of a tree, as the recursion leaves them.\<close>

lemma recompute_left:
  assumes "tree_ok H f f' (Suc h) k (left @ right)" "tree_ok H f f' h (2 * k) left"
    "tree_ok H f f' h (2 * k + 1) right" "left @ right \<noteq> []"
    "left \<noteq> [] \<longrightarrow> recompute H i mid left = Some (node H f' h (2 * k), map (with_path H f' h) left)"
  shows "(if left = [] then do {
               r \<leftarrow> at right 0;
               leftRoot \<leftarrow> at_height (el_MerkleProof r) (Suc h);
               Some (leftRoot, left, right)
             } else do {
               (leftRoot, left) \<leftarrow> recompute H i mid left;
               right \<leftarrow> set_all (Suc h) leftRoot right;
               Some (leftRoot, left, right)
             }) =
    Some (node H f' h (2 * k), map (with_path H f' h) left,
      map (\<lambda>l. set_proof ((el_MerkleProof l)[h := node H f' h (2 * k)]) l) right)"
proof -
  note sb = tree_ok_sibling [OF assms(1)]
  show ?thesis
  proof (cases "left = []")
    case True
    then have n: "node H f' h (2 * k) = node H f h (2 * k)" using assms(2) tree_ok_unchanged by blast
    have p: "el_MerkleProof l ! h = node H f' h (2 * k)" if "l \<in> set right" for l
      using sb(2) [of l] that assms(3) by (simp add: n tree_ok_def sib_def)
    have "map (\<lambda>l. set_proof ((el_MerkleProof l)[h := node H f' h (2 * k)]) l) right = right"
      using p sb(1) by (intro map_idI) (metis list_update_id set_proof_simps(4))
    moreover have "right ! 0 \<in> set right" "right \<noteq> []" using True assms(4) by auto
    ultimately show ?thesis using True p sb(1) by (simp add: at_def at_height_def)
  next
    case False
    then show ?thesis using assms(5) sb(1) by (simp add: set_all)
  qed
qed

lemma recompute_right:
  assumes "tree_ok H f f' (Suc h) k (left @ right)" "tree_ok H f f' h (2 * k) left"
    "tree_ok H f f' h (2 * k + 1) right" "left @ right \<noteq> []"
    "right' = map (\<lambda>l. set_proof ((el_MerkleProof l)[h := node H f' h (2 * k)]) l) right"
    "left' = map (with_path H f' h) left"
    "right' \<noteq> [] \<longrightarrow> recompute H mid j right' = Some (node H f' h (2 * k + 1), map (with_path H f' h) right')"
  shows "(if right' = [] then do {
               l \<leftarrow> at left' 0;
               rightRoot \<leftarrow> at_height (el_MerkleProof l) (Suc h);
               Some (rightRoot, left', right')
             } else do {
               (rightRoot, right) \<leftarrow> recompute H mid j right';
               left \<leftarrow> set_all (Suc h) rightRoot left';
               Some (rightRoot, left, right)
             }) =
    Some (node H f' h (2 * k + 1), map (with_path H f' (Suc h)) left, map (with_path H f' (Suc h)) right)"
proof -
  note sb = tree_ok_sibling [OF assms(1)]
  have k: "sib (idx l div 2 ^ h) = 2 * k + 1" if "l \<in> set left" for l
    using that assms(2) by (simp add: tree_ok_def sib_def)
  have lw: "map (\<lambda>l. set_proof ((el_MerkleProof l)[h := node H f' h (2 * k + 1)]) l) left'
      = map (with_path H f' (Suc h)) left"
    unfolding assms(6) using k sb(1) by (simp add: with_path_set)
  have k': "sib (idx l div 2 ^ h) = 2 * k" if "l \<in> set right" for l
    using that assms(3) by (simp add: tree_ok_def sib_def)
  have rw: "map (with_path H f' h) right' = map (with_path H f' (Suc h)) right"
    unfolding assms(5) using k' sb(1) by (simp add: with_path_set)
  have len: "h < length (el_MerkleProof l)" if "l \<in> set left'" for l
    using that sb(1) by (auto simp: assms(6) with_path_def)
  show ?thesis
  proof (cases "right = []")
    case True
    then have n: "node H f' h (2 * k + 1) = node H f h (2 * k + 1)"
      using assms(3) tree_ok_unchanged by blast
    have "el_MerkleProof (left' ! 0) ! h = node H f' h (2 * k + 1)" "left' ! 0 \<in> set left'" "left \<noteq> []"
      using True assms(4) sb [of "left ! 0"] k [of "left ! 0"]
      by (auto simp: assms(6) with_path_def nth_append n [simplified])
    moreover have "left' = map (with_path H f' (Suc h)) left"
      unfolding assms(6) using sb k n True by (intro map_cong refl with_path_Suc) simp_all
    ultimately show ?thesis using True len assms(5) by (simp add: at_def at_height_def assms(6))
  next
    case False
    then show ?thesis using assms(5,7) len lw rw by (simp add: set_all)
  qed
qed

text \<open>The two halves of a range of leaf numbers.\<close>

lemma halves:
  fixes i j :: u64
  assumes "unat i = k * 2 ^ Suc h" "unat j = (k + 1) * 2 ^ Suc h" "(k + 1) * 2 ^ Suc h < 2 ^ 63"
  shows "unat ((i + j) div 2) = (2 * k + 1) * 2 ^ h" "bits_TrailingZeros64 (j - i) = Suc h"
proof -
  have ij: "unat i + unat j = 2 * ((2 * k + 1) * 2 ^ h)" using assms(1,2) by (simp add: algebra_simps)
  have "unat i + unat j < 2 ^ 64" using assms by (simp add: algebra_simps)
  then have "unat (i + j) = 2 * ((2 * k + 1) * 2 ^ h)" unfolding unat_word_ariths ij by simp
  then show "unat ((i + j) div 2) = (2 * k + 1) * 2 ^ h" by (simp add: unat_div)
  have "unat (j - i) = 2 ^ Suc h" using assms(1,2) by (simp add: unat_sub_if' algebra_simps)
  then show "bits_TrailingZeros64 (j - i) = Suc h" by (rule TrailingZeros64_pow)
qed

theorem recompute_correct:
  assumes "tree_ok H f f' h k ls" "ls \<noteq> []" "unat i = k * 2 ^ h" "unat j = (k + 1) * 2 ^ h"
    "(k + 1) * 2 ^ h < 2 ^ 63"
  shows "recompute H i j ls = Some (node H f' h k, map (with_path H f' h) ls)"
  using assms
proof (induction h arbitrary: k i j ls)
  case 0
  have i: "i < j" "unat (j - i) = 2 ^ 0" using 0(3,4) by (simp_all add: word_less_nat_alt unat_sub_if')
  have eq: "idx l = k" if "l \<in> set ls" for l using 0(1) that by (simp add: tree_ok_def)
  obtain l where ls: "ls = [l]"
    using 0(1,2) eq by (cases ls rule: remdups_adj.cases) (auto simp: tree_ok_def leaves_sorted_def)
  have "f' k = ElementLeaf_Hash H l" using 0(1) by (auto simp: ls tree_ok_def)
  then show ?case
    using TrailingZeros64_pow [OF i(2)] by (subst recompute.simps) (simp add: ls with_path_def)
next
  case (Suc h)
  let ?mid = "(i + j) div 2"
  have lt: "(k + 1) * 2 ^ Suc h < 2 ^ 63" by (rule Suc.prems(5))
  note mid = halves(1) [OF Suc.prems(3-5)] and height = halves(2) [OF Suc.prems(3-5)]
  obtain left right where sp: "splitLeaves ls ?mid = (left, right)" by fastforce
  note tr = tree_ok_split [OF Suc.prems(1) sp mid]
  let ?right = "map (\<lambda>l. set_proof ((el_MerkleProof l)[h := node H f' h (2 * k)]) l) right"
  have l: "left \<noteq> [] \<longrightarrow> recompute H i ?mid left = Some (node H f' h (2 * k), map (with_path H f' h) left)"
    using tr(1) mid Suc.prems(3) lt by (intro impI Suc.IH) (simp_all add: algebra_simps)
  have r: "?right \<noteq> [] \<longrightarrow>
      recompute H ?mid j ?right = Some (node H f' h (2 * k + 1), map (with_path H f' h) ?right)"
    using tree_ok_set_proof [OF tr(2)] mid Suc.prems(4) lt
    by (intro impI Suc.IH) (simp_all add: algebra_simps)
  note ok = Suc.prems(1) [folded tr(3)]
  note ne = Suc.prems(2) [folded tr(3)]
  have L: "length ls = 1 \<and> Suc h = 0 \<longleftrightarrow> False" by simp
  show ?case
    unfolding recompute.simps [of H i j ls] Let_def height sp fst_conv snd_conv L if_False
      recompute_left [OF ok tr(1,2) ne l] bind.bind_lunit prod.case
      recompute_right [OF ok tr(1,2) ne refl refl r]
    by (simp flip: tr(3))
qed

section \<open>Grouping by tree\<close>

abbreviation plen :: "element_leaf \<Rightarrow> nat" where
  "plen l \<equiv> length (el_MerkleProof l)"

lemma takeWhile_sorted:
  assumes "sorted (map plen (l # ls))"
  shows "takeWhile (\<lambda>l'. plen l' = plen l) (l # ls) = filter (\<lambda>l'. plen l' = plen l) (l # ls)"
    "drop (length (takeWhile (\<lambda>l'. plen l' = plen l) (l # ls))) (l # ls) = filter (\<lambda>l'. plen l' \<noteq> plen l) (l # ls)"
proof -
  have "takeWhile (\<lambda>l'. plen l' = m) xs = filter (\<lambda>l'. plen l' = m) xs
      \<and> dropWhile (\<lambda>l'. plen l' = m) xs = filter (\<lambda>l'. plen l' \<noteq> m) xs"
    if "sorted (map plen xs)" "\<forall>x\<in>set xs. m \<le> plen x" for m xs
    using that
  proof (induction xs)
    case (Cons x xs)
    show ?case
    proof (cases "plen x = m")
      case False
      then have "\<forall>y\<in>set xs. plen y \<noteq> m" using Cons.prems by fastforce
      then show ?thesis using False by (auto simp: filter_empty_conv filter_id_conv)
    qed (use Cons in simp)
  qed simp
  from this [of "l # ls" "plen l"] assms
  have "takeWhile (\<lambda>l'. plen l' = plen l) (l # ls) = filter (\<lambda>l'. plen l' = plen l) (l # ls)
    \<and> dropWhile (\<lambda>l'. plen l' = plen l) (l # ls) = filter (\<lambda>l'. plen l' \<noteq> plen l) (l # ls)"
    by simp
  then show "takeWhile (\<lambda>l'. plen l' = plen l) (l # ls) = filter (\<lambda>l'. plen l' = plen l) (l # ls)"
    "drop (length (takeWhile (\<lambda>l'. plen l' = plen l) (l # ls))) (l # ls) = filter (\<lambda>l'. plen l' \<noteq> plen l) (l # ls)"
    unfolding dropWhile_eq_drop [symmetric] by blast+
qed

lemma groupLeaves:
  assumes "sorted (map plen ls)" "\<forall>l\<in>set ls. plen l < 64" "length trees = 64"
  shows "groupLeaves trees ls =
    Some (map (\<lambda>t. if filter (\<lambda>l. plen l = t) ls = [] then trees ! t else filter (\<lambda>l. plen l = t) ls) [0..<64])"
  using assms
proof (induction trees ls rule: groupLeaves.induct)
  case (1 trees)
  then have "map ((!) trees) [0..<64] = trees" by (intro nth_equalityI) simp_all
  then show ?case by simp
next
  case (2 trees l ls)
  let ?same = "takeWhile (\<lambda>l'. plen l' = plen l) (l # ls)"
  let ?rest = "filter (\<lambda>l'. plen l' \<noteq> plen l) (l # ls)"
  note tw = takeWhile_sorted [OF "2.prems"(1)]
  have l: "plen l < 64" using "2.prems"(2) by simp
  have "sorted (map plen ?rest)" using "2.prems"(1) by (rule sorted_filter)
  then have "groupLeaves (trees[plen l := ?same]) ?rest = Some (map (\<lambda>t.
      if filter (\<lambda>l. plen l = t) ?rest = [] then trees[plen l := ?same] ! t
      else filter (\<lambda>l. plen l = t) ?rest) [0..<64])"
    using "2.IH" [OF refl refl l] "2.prems" unfolding tw(2) by simp
  also have "(\<lambda>t. if filter (\<lambda>l. plen l = t) ?rest = [] then trees[plen l := ?same] ! t
      else filter (\<lambda>l. plen l = t) ?rest) t
    = (if filter (\<lambda>l. plen l = t) (l # ls) = [] then trees ! t else filter (\<lambda>l. plen l = t) (l # ls))"
    if "t < 64" for t
  proof (cases "t = plen l")
    case True
    then show ?thesis using l "2.prems"(3) unfolding tw(1) by (auto simp: filter_empty_conv)
  next
    case False
    then have "filter (\<lambda>l. plen l = t) ?rest = filter (\<lambda>l. plen l = t) (l # ls)"
      by (auto intro: filter_cong)
    then show ?thesis using False by simp
  qed
  then have "map (\<lambda>t. if filter (\<lambda>l. plen l = t) ?rest = [] then trees[plen l := ?same] ! t
      else filter (\<lambda>l. plen l = t) ?rest) [0..<64]
    = map (\<lambda>t. if filter (\<lambda>l. plen l = t) (l # ls) = [] then trees ! t
      else filter (\<lambda>l. plen l = t) (l # ls)) [0..<64]"
    by (intro map_cong refl) (simp only: set_upt atLeastLessThan_iff)
  finally show ?case using l by (simp only: groupLeaves.simps Let_def if_True tw(2))
qed

lemma sortLeaves_groups:
  assumes "distinct (map idx ls)"
  shows "sorted (map plen (sortLeaves ls))" "set (sortLeaves ls) = set ls"
    "leaves_sorted (filter (\<lambda>l. plen l = t) (sortLeaves ls))"
proof -
  let ?key = "\<lambda>l. (plen l, el_LeafIndex l)"
  have so: "sorted (map ?key (sortLeaves ls))" by (simp add: sortLeaves_def)
  have "sorted (map fst (map ?key (sortLeaves ls)))"
    using so by (rule sorted_map_mono) (auto intro!: mono_onI simp: less_eq_prod_def)
  then show "sorted (map plen (sortLeaves ls))" by (simp add: comp_def)
  show "set (sortLeaves ls) = set ls" by (simp add: sortLeaves_def)
  let ?g = "filter (\<lambda>l. plen l = t) (sortLeaves ls)"
  have "sorted (map ?key ?g)" using so by (rule sorted_filter)
  moreover have "map ?key ?g = map (\<lambda>l. (t, el_LeafIndex l)) ?g" by simp
  ultimately have "sorted (map (\<lambda>l. (t, el_LeafIndex l)) ?g)" by simp
  then have "sorted (map idx ?g)"
    by (simp add: sorted_map) (auto simp: less_eq_prod_def word_le_nat_alt elim!: sorted_wrt_mono_rel [rotated])
  moreover have "distinct (map idx (sortLeaves ls))"
    using assms by (simp add: sortLeaves_def distinct_map)
  then have "distinct (map idx ?g)" by (rule distinct_map_filter)
  ultimately show "leaves_sorted ?g" by (simp add: leaves_sorted_def strict_sorted_iff)
qed

section \<open>recomputeTrees and updateLeaves\<close>

lemma recomputeTrees:
  assumes "h + length trees = 64" "length (acc_Trees acc) = 64" "unat (acc_NumLeaves acc) = n" "n < 2 ^ 62"
    "\<And>j. j < length trees \<Longrightarrow> trees ! j \<noteq> [] \<Longrightarrow>
       odd (n div 2 ^ (h + j)) \<and> tree_ok H f f' (h + j) (n div 2 ^ (h + j) - 1) (trees ! j)"
  shows "\<exists>ts. recomputeTrees H h acc trees =
      Some (acc\<lparr>acc_Trees := ts\<rparr>, map (\<lambda>(t, ls). map (with_path H f' t) ls) (enumerate h trees))
    \<and> length ts = 64
    \<and> (\<forall>t<64. ts ! t = (if h \<le> t \<and> trees ! (t - h) \<noteq> [] then node H f' t (n div 2 ^ t - 1) else acc_Trees acc ! t))"
  using assms
proof (induction trees arbitrary: h acc)
  case Nil
  then show ?case by (intro exI [of _ "acc_Trees acc"]) simp
next
  case (Cons ls trees)
  have tl: "odd (n div 2 ^ (h + 1 + j)) \<and> tree_ok H f f' (h + 1 + j) (n div 2 ^ (h + 1 + j) - 1) (trees ! j)"
    if "j < length trees" "trees ! j \<noteq> []" for j
    using Cons.prems(5) [of "Suc j"] that by simp
  show ?case
  proof (cases "ls = []")
    case True
    from Cons.IH [OF _ Cons.prems(2-4) tl] Cons.prems(1) obtain ts where
      ts: "recomputeTrees H (h + 1) acc trees =
        Some (acc\<lparr>acc_Trees := ts\<rparr>, map (\<lambda>(t, ls). map (with_path H f' t) ls) (enumerate (h + 1) trees))"
      "length ts = 64"
      "\<forall>t<64. ts ! t = (if h + 1 \<le> t \<and> trees ! (t - (h + 1)) \<noteq> [] then node H f' t (n div 2 ^ t - 1) else acc_Trees acc ! t)"
      by auto
    have "ts ! t = (if h \<le> t \<and> (ls # trees) ! (t - h) \<noteq> [] then node H f' t (n div 2 ^ t - 1) else acc_Trees acc ! t)"
      if "t < 64" for t
      using ts(3) that True by (cases t h rule: linorder_cases) (auto simp: nth_Cons')
    then show ?thesis using ts(1,2) True by (intro exI [of _ ts]) simp
  next
    case False
    let ?k = "n div 2 ^ h - 1"
    have o: "odd (n div 2 ^ h)" and ok: "tree_ok H f f' h ?k ls" using Cons.prems(5) [of 0] False by simp_all
    have k: "?k + 1 = n div 2 ^ h" using o by (auto elim!: oddE)
    have le: "(?k + 1) * 2 ^ h \<le> n" unfolding k by (rule div_times_less_eq_dividend)
    have "2 ^ h \<le> n" using o by (metis div_less even_zero not_le)
    also have "n < 2 ^ 63" using Cons.prems(4) by simp
    finally have h: "h < 63" by (simp only: power_strict_increasing_iff)
    have "?k = 2 * (n div 2 ^ Suc h)" using o by (auto simp: nat_div_pow_Suc simp del: power_Suc elim!: oddE)
    then have s: "unat (clearBits (acc_NumLeaves acc) (h + 1)) = ?k * 2 ^ h"
      unfolding unat_tree_start [OF h] Cons.prems(3) by (simp add: tree_start_def)
    have "(2::nat) ^ h < 2 ^ 64" using h by (intro power_strict_increasing) simp_all
    then have p: "unat (push_bit h 1 :: u64) = 2 ^ h"
      unfolding unat_push_bit64 unsigned_1 by (simp only: mult_1_right mod_less)
    have e: "unat (clearBits (acc_NumLeaves acc) (h + 1) + push_bit h 1) = (?k + 1) * 2 ^ h"
    proof -
      have q: "?k * 2 ^ h + 2 ^ h = (?k + 1) * 2 ^ h" by (simp only: distrib_right mult_1)
      have "n < 2 ^ 64" using Cons.prems(4) by (rule less_trans) simp
      with le have "(?k + 1) * 2 ^ h < 2 ^ 64" by (rule le_less_trans)
      then have "unat (clearBits (acc_NumLeaves acc) (h + 1)) + unat (push_bit h 1 :: u64) < 2 ^ LENGTH(64)"
        unfolding s p q by simp
      then show ?thesis unfolding unat_add_lem by (simp only: s p q)
    qed
    have "(?k + 1) * 2 ^ h < 2 ^ 63" using le \<open>n < 2 ^ 63\<close> by (rule le_less_trans)
    note rc = recompute_correct [OF ok False s e this]
    let ?acc = "acc\<lparr>acc_Trees := (acc_Trees acc)[h := node H f' h ?k]\<rparr>"
    have "\<exists>ts. recomputeTrees H (h + 1) ?acc trees =
        Some (?acc\<lparr>acc_Trees := ts\<rparr>, map (\<lambda>(t, ls). map (with_path H f' t) ls) (enumerate (h + 1) trees))
      \<and> length ts = 64
      \<and> (\<forall>t<64. ts ! t = (if h + 1 \<le> t \<and> trees ! (t - (h + 1)) \<noteq> [] then node H f' t (n div 2 ^ t - 1) else acc_Trees ?acc ! t))"
      using Cons.prems tl by (intro Cons.IH) simp_all
    then obtain ts where
      ts: "recomputeTrees H (h + 1) ?acc trees =
        Some (acc\<lparr>acc_Trees := ts\<rparr>, map (\<lambda>(t, ls). map (with_path H f' t) ls) (enumerate (h + 1) trees))"
      "length ts = 64"
      "\<forall>t<64. ts ! t = (if h + 1 \<le> t \<and> trees ! (t - (h + 1)) \<noteq> [] then node H f' t (n div 2 ^ t - 1) else acc_Trees ?acc ! t)"
      by auto
    have "ts ! t = (if h \<le> t \<and> (ls # trees) ! (t - h) \<noteq> [] then node H f' t (n div 2 ^ t - 1) else acc_Trees acc ! t)"
      if "t < 64" for t
      using ts(3) that False Cons.prems(2) by (cases t h rule: linorder_cases) (auto simp: nth_Cons')
    then show ?thesis using ts(1,2) False rc by (intro exI [of _ ts]) (simp add: Let_def)
  qed
qed

theorem updateLeaves_correct:
  assumes rep: "represents H f n acc" and n: "n < 2 ^ 62" and d: "distinct (map idx ls)"
    and ls: "\<And>l. l \<in> set ls \<Longrightarrow> idx l < n \<and> el_MerkleProof l = proof_of H f n (idx l)
      \<and> f' (idx l) = ElementLeaf_Hash H l"
    and off: "\<And>i. i < n \<Longrightarrow> i \<notin> idx ` set ls \<Longrightarrow> f' i = f i"
  shows "\<exists>acc' trees. updateLeaves H acc ls = Some (acc', trees) \<and> represents H f' n acc' \<and> length trees = 64
    \<and> (\<forall>t<64. set (trees ! t) = (\<lambda>l. set_proof (proof_of H f' n (idx l)) l) ` {l \<in> set ls. theight n (idx l) = t})"
proof -
  let ?s = "sortLeaves ls"
  let ?gs = "map (\<lambda>t. filter (\<lambda>l. plen l = t) ?s) [0..<64]"
  note sg = sortLeaves_groups [OF d]
  have pl: "plen l = theight n (idx l)" "theight n (idx l) < 64" if "l \<in> set ls" for l
    using ls [OF that] represents_less [OF rep] theight_less by (auto simp: proof_of_def)
  have "groupLeaves (replicate 64 []) ?s = Some (map (\<lambda>t. if filter (\<lambda>l. plen l = t) ?s = []
      then replicate 64 [] ! t else filter (\<lambda>l. plen l = t) ?s) [0..<64])"
    using pl by (intro groupLeaves sg(1)) (simp_all add: sg(2))
  also have "\<dots> = Some ?gs" by (auto intro!: map_cong)
  finally have g: "groupLeaves (replicate 64 []) ?s = Some ?gs" .
  have ok: "odd (n div 2 ^ t) \<and> tree_ok H f f' t (n div 2 ^ t - 1) (filter (\<lambda>l. plen l = t) ?s)"
    if ne: "filter (\<lambda>l. plen l = t) ?s \<noteq> []" for t
  proof -
    let ?g = "filter (\<lambda>l. plen l = t) ?s"
    have it: "in_tree n t (idx l)" if "l \<in> set ?g" for l
      using that ls pl(1) in_tree_theight by (auto simp: sg(2))
    obtain l0 where "l0 \<in> set ?g" using ne by (cases ?g) auto
    then have o: "odd (n div 2 ^ t)" using it by (auto simp: in_tree_def)
    have "f' i = f i" if i: "i div 2 ^ t = n div 2 ^ t - 1" "i \<notin> idx ` set ?g" for i
    proof (rule off)
      have "in_tree n t i" using o i(1) by (simp add: in_tree_def)
      then show "i < n" "i \<notin> idx ` set ls"
        using in_tree_less theight_eq pl(1) i(2) by (auto simp: sg(2))
    qed
    moreover have "take t (el_MerkleProof l) = path H f t (idx l)" "f' (idx l) = ElementLeaf_Hash H l"
      if "l \<in> set ?g" for l
      using that ls pl(1) by (auto simp: sg(2) proof_of_def)
    ultimately show ?thesis
      using o it sg(3) by (simp add: tree_ok_def) (simp add: in_tree_def)
  qed
  have N: "unat (acc_NumLeaves acc) = n" "length (acc_Trees acc) = 64" using rep by (simp_all add: represents_def)
  have len: "0 + length ?gs = 64" by simp
  have ok': "odd (n div 2 ^ (0 + j)) \<and> tree_ok H f f' (0 + j) (n div 2 ^ (0 + j) - 1) (?gs ! j)"
    if "j < length ?gs" "?gs ! j \<noteq> []" for j
    using that ok [of j] by simp
  obtain ts where ts: "recomputeTrees H 0 acc ?gs =
      Some (acc\<lparr>acc_Trees := ts\<rparr>, map (\<lambda>(t, ls). map (with_path H f' t) ls) (enumerate 0 ?gs))"
    "length ts = 64"
    "\<forall>t<64. ts ! t = (if 0 \<le> t \<and> ?gs ! (t - 0) \<noteq> [] then node H f' t (n div 2 ^ t - 1) else acc_Trees acc ! t)"
    using recomputeTrees [OF len N(2,1) n ok'] by blast
  have root: "ts ! t = node H f' t (n div 2 ^ t - 1)" if t: "t < 64" "odd (n div 2 ^ t)" for t
  proof (cases "filter (\<lambda>l. plen l = t) ?s = []")
    case True
    have "node H f' t (n div 2 ^ t - 1) = node H f t (n div 2 ^ t - 1)"
    proof (intro node_cong off)
      fix i assume "i div 2 ^ t = n div 2 ^ t - 1"
      then have "in_tree n t i" using t(2) by (simp add: in_tree_def)
      then show "i < n" "i \<notin> idx ` set ls"
        using in_tree_less theight_eq pl(1) True by (auto simp: sg(2) filter_empty_conv)
    qed
    then show ?thesis using rep t ts(3) True by (simp add: represents_def)
  qed (use t ts(3) in simp)
  have "represents H f' n (acc\<lparr>acc_Trees := ts\<rparr>)"
    using N(1) ts(2) root by (simp add: represents_def)
  moreover have "set (map (\<lambda>(t, ls). map (with_path H f' t) ls) (enumerate 0 ?gs) ! t)
      = (\<lambda>l. set_proof (proof_of H f' n (idx l)) l) ` {l \<in> set ls. theight n (idx l) = t}" if "t < 64" for t
    using that pl(1) by (auto simp: nth_enumerate_eq sg(2) with_path_def proof_of_def intro!: image_cong)
  ultimately show ?thesis using g ts(1) by (simp add: updateLeaves_def)
qed

end
