(* ===== verification/Accumulator_Elements.thy ===== *)
theory Accumulator_Elements
  imports Accumulator_Update
begin

text \<open>
  The element accumulator against its specification, the list of all leaves ever added (a
  \<open>ledger\<close> of element hashes and spent flags): \<open>ApplyBlock\<close> overwrites and appends, membership is
  membership in the list unless the hash collides on the inputs at hand, and the two kinds of
  updates move the proof of any element forward over a block and back.
\<close>

section \<open>updateProof\<close>

text \<open>\<open>updated\<close> has, by tree, the leaves in which \<open>f\<close> and \<open>f'\<close> differ, with their proofs for \<open>f'\<close>.\<close>

definition updates_ok ::
    "hashfn \<Rightarrow> (nat \<Rightarrow> hash256) \<Rightarrow> (nat \<Rightarrow> hash256) \<Rightarrow> nat \<Rightarrow> element_leaf list list \<Rightarrow> bool" where
  "updates_ok H f f' n trees \<longleftrightarrow>
     length trees = 64
     \<and> (\<forall>t<64. \<forall>l\<in>set (trees ! t). idx l < n \<and> theight n (idx l) = t
          \<and> el_MerkleProof l = proof_of H f' n (idx l) \<and> f' (idx l) = ElementLeaf_Hash H l)
     \<and> (\<forall>i<n. i \<notin> idx ` set (trees ! theight n i) \<longrightarrow> f' i = f i)"

lemma closestLeaf:
  "closestLeaf i b ls \<in> set (b # ls)
   \<and> (\<forall>l\<in>set (b # ls). mergeHeight i (el_LeafIndex (closestLeaf i b ls)) \<le> mergeHeight i (el_LeafIndex l))"
proof (induction ls arbitrary: b)
  case (Cons l ls)
  let ?b = "if mergeHeight i (el_LeafIndex l) < mergeHeight i (el_LeafIndex b) then l else b"
  have "mergeHeight i (el_LeafIndex ?b) \<le> mergeHeight i (el_LeafIndex l)"
    "mergeHeight i (el_LeafIndex ?b) \<le> mergeHeight i (el_LeafIndex b)" "?b \<in> {b, l}" by auto
  then show ?case using Cons.IH [of ?b] by (auto simp del: insert_iff dest: le_trans)
qed simp

lemma go_copy_same: "length src = length dst \<Longrightarrow> go_copy dst src = src"
  by (simp add: go_copy_def)

lemma sib_eqI: "x div 2 = y div 2 \<Longrightarrow> x \<noteq> y \<Longrightarrow> sib x = y"
  unfolding sib_def by presburger

lemma merge_sib:
  assumes "(i::nat) div 2 ^ Suc m = b div 2 ^ Suc m" "i div 2 ^ m \<noteq> b div 2 ^ m"
  shows "sib (i div 2 ^ m) = b div 2 ^ m"
proof -
  have "i div 2 ^ m div 2 = b div 2 ^ m div 2" using assms(1) by (simp only: nat_div_pow_Suc)
  then show ?thesis using assms(2) by (rule sib_eqI)
qed

lemma updateProof_path:
  fixes i b t m :: nat
  assumes same: "i div 2 ^ t = b div 2 ^ t" "Suc m \<le> t"
    and m: "i div 2 ^ Suc m = b div 2 ^ Suc m" "i div 2 ^ m \<noteq> b div 2 ^ m"
    and off: "\<And>l. l div 2 ^ m = i div 2 ^ m \<Longrightarrow> l \<noteq> i \<Longrightarrow> f' l = f l"
  shows "(take (Suc m) (path H f t i) @ drop (Suc m) (path H f' t b))[m := node H f' m (b div 2 ^ m)]
    = path H f' t i"
proof -
  have "path H f m i = path H f' m i" by (rule path_cong) (simp add: off)
  moreover have "drop (Suc m) (path H f' t b) = drop (Suc m) (path H f' t i)"
    by (rule drop_path_cong) (simp only: m(1))
  moreover have "node H f' m (b div 2 ^ m) = path H f' t i ! m"
    using same(2) merge_sib [OF m] by (simp add: nth_path)
  ultimately have "(take (Suc m) (path H f t i) @ drop (Suc m) (path H f' t b))[m := node H f' m (b div 2 ^ m)]
      = path H f' m i @ path H f' t i ! m # drop (Suc m) (path H f' t i)"
    using same(2) by (simp add: take_path path_Suc list_update_append)
  also have "\<dots> = path H f' t i"
    using id_take_nth_drop [of m "path H f' t i"] same(2) take_path [of m t H f' i] by simp
  finally show ?thesis .
qed

theorem updateProof_correct:
  assumes upd: "updates_ok H f f' n trees" and n: "n < 2 ^ 64" and i: "unat (se_LeafIndex e) < n"
    and e: "se_MerkleProof e = proof_of H f n (unat (se_LeafIndex e))"
  shows "updateProof H e trees = Some (e\<lparr>se_MerkleProof := proof_of H f' n (unat (se_LeafIndex e))\<rparr>)"
proof -
  let ?i = "unat (se_LeafIndex e)"
  let ?t = "theight n ?i"
  have t: "?t < 64" using theight_less [OF i n] .
  have len: "length trees = 64" "length (se_MerkleProof e) = ?t"
    using upd e by (simp_all add: updates_ok_def proof_of_def)
  have tr: "idx l < n \<and> theight n (idx l) = ?t \<and> el_MerkleProof l = path H f' ?t (idx l) \<and> f' (idx l) = ElementLeaf_Hash H l"
    if "l \<in> set (trees ! ?t)" for l
    using upd that t by (auto simp: updates_ok_def proof_of_def)
  have it: "in_tree n ?t ?i" by (rule in_tree_theight [OF i])
  have off: "f' k = f k" if "k div 2 ^ ?t = ?i div 2 ^ ?t" "k \<notin> idx ` set (trees ! ?t)" for k
  proof -
    have "in_tree n ?t k" using it that(1) by (simp add: in_tree_def)
    then have "k < n" "theight n k = ?t" by (auto dest: in_tree_less theight_eq)
    then show ?thesis using upd that(2) by (simp add: updates_ok_def)
  qed
  show ?thesis
  proof (cases "trees ! ?t")
    case Nil
    have "path H f ?t ?i = path H f' ?t ?i" by (rule path_cong) (simp add: off Nil)
    then show ?thesis using Nil t len e by (simp add: updateProof_def at_def proof_of_def)
  next
    case (Cons ul uls)
    let ?b = "closestLeaf (se_LeafIndex e) ul uls"
    note cl = closestLeaf [of "se_LeafIndex e" ul uls, folded Cons]
    note b = tr [OF conjunct1 [OF cl]]
    have min: "mergeHeight (se_LeafIndex e) (el_LeafIndex ?b) \<le> mergeHeight (se_LeafIndex e) (el_LeafIndex l)"
      if "l \<in> set (trees ! ?t)" for l using cl that by blast
    show ?thesis
    proof (cases "el_LeafIndex ?b = se_LeafIndex e")
      case True
      then show ?thesis using Cons t len b by (simp add: updateProof_def at_def proof_of_def go_copy_same)
    next
      case False
      let ?mh = "mergeHeight (se_LeafIndex e) (el_LeafIndex ?b)"
      have same: "?i div 2 ^ ?t = idx ?b div 2 ^ ?t"
        using in_tree_theight [of "idx ?b" n] b it by (simp add: in_tree_def)
      then have le: "?mh \<le> ?t" by (simp only: mergeHeight_le_iff)
      have "\<not> ?mh \<le> 0" unfolding mergeHeight_le_iff using False by (auto simp: word_unat_eq_iff)
      then obtain m where m: "?mh = Suc m" by (cases ?mh) auto
      have md: "?i div 2 ^ Suc m = idx ?b div 2 ^ Suc m" "?i div 2 ^ m \<noteq> idx ?b div 2 ^ m"
        unfolding mergeHeight_le_iff [symmetric] m by simp_all
      have near: "f' k = f k" if "k div 2 ^ m = ?i div 2 ^ m" for k
      proof (rule off)
        show "k div 2 ^ ?t = ?i div 2 ^ ?t" using that le m by (intro div_pow_mono_eq [OF that]) simp
        show "k \<notin> idx ` set (trees ! ?t)"
        proof
          assume "k \<in> idx ` set (trees ! ?t)"
          then obtain l where l: "l \<in> set (trees ! ?t)" "k = idx l" by blast
          then have "mergeHeight (se_LeafIndex e) (el_LeafIndex l) \<le> m"
            using that by (simp add: mergeHeight_le_iff)
          then show False using min [OF l(1)] m by simp
        qed
      qed
      have root: "ProofRoot H (ElementLeaf_Hash H ?b) (el_LeafIndex ?b) (take m (path H f' ?t (idx ?b)))
          = node H f' m (idx ?b div 2 ^ m)"
        using ProofRoot_path [of H f' "el_LeafIndex ?b" m] b le m by (simp add: take_path)
      have "updateProof H e trees = Some (e\<lparr>se_MerkleProof :=
          (take (Suc m) (path H f ?t ?i) @ drop (Suc m) (path H f' ?t (idx ?b)))[m := node H f' m (idx ?b div 2 ^ m)]\<rparr>)"
        using Cons t len b False le m root e
        by (simp add: updateProof_def at_def proof_of_def copy_from_def go_copy_same set_height_def Let_def)
      then show ?thesis
        using updateProof_path [OF same _ md near] le m by (simp add: proof_of_def)
    qed
  qed
qed

section \<open>The ledger\<close>

type_synonym ledger = "(hash256 \<times> bool) list"

definition ledger_hash :: "hashfn \<Rightarrow> ledger \<Rightarrow> nat \<Rightarrow> hash256" where
  "ledger_hash H A i = HashBytes H (leaf_preimage (fst (A ! i)) (word_of_nat i) (snd (A ! i)))"

definition acc_repr :: "hashfn \<Rightarrow> ledger \<Rightarrow> accumulator \<Rightarrow> bool" where
  "acc_repr H A acc \<longleftrightarrow> represents H (ledger_hash H A) (length A) acc"

definition valid_proof :: "hashfn \<Rightarrow> ledger \<Rightarrow> nat \<Rightarrow> hash256 list" where
  "valid_proof H A i = proof_of H (ledger_hash H A) (length A) i"

definition leaf_data :: "element_leaf \<Rightarrow> hash256 \<times> bool" where
  "leaf_data l = (el_ElementHash l, el_Spent l)"

text \<open>The leaf is in the ledger and has the right proof; an element is, with whatever data.\<close>

definition leaf_in :: "hashfn \<Rightarrow> ledger \<Rightarrow> element_leaf \<Rightarrow> bool" where
  "leaf_in H A l \<longleftrightarrow>
     idx l < length A \<and> A ! idx l = leaf_data l \<and> el_MerkleProof l = valid_proof H A (idx l)"

definition element_in :: "hashfn \<Rightarrow> ledger \<Rightarrow> state_element \<Rightarrow> bool" where
  "element_in H A e \<longleftrightarrow>
     unat (se_LeafIndex e) < length A \<and> se_MerkleProof e = valid_proof H A (unat (se_LeafIndex e))"

text \<open>Overwriting leaves in the ledger.\<close>

definition ledger_update :: "element_leaf list \<Rightarrow> ledger \<Rightarrow> ledger" where
  "ledger_update ls A = foldr (\<lambda>l A. A[idx l := leaf_data l]) ls A"

lemma length_ledger_update [simp]: "length (ledger_update ls A) = length A"
  by (induction ls) (simp_all add: ledger_update_def)

lemma nth_ledger_update:
  "i < length A \<Longrightarrow> distinct (map idx ls) \<Longrightarrow>
   (\<forall>l\<in>set ls. idx l = i \<longrightarrow> ledger_update ls A ! i = leaf_data l)
   \<and> (i \<notin> idx ` set ls \<longrightarrow> ledger_update ls A ! i = A ! i)"
proof (induction ls)
  case (Cons l ls)
  have "ledger_update (l # ls) A = (ledger_update ls A)[idx l := leaf_data l]"
    by (simp add: ledger_update_def)
  then show ?case using Cons by (cases "idx l = i") (auto simp: image_iff)
qed (simp add: ledger_update_def)

lemma ledger_hash_leaf:
  "A ! idx l = leaf_data l \<Longrightarrow> ledger_hash H A (idx l) = ElementLeaf_Hash H l"
  by (simp add: ledger_hash_def ElementLeaf_Hash_def leaf_data_def)

lemma ledger_hash_cong: "A ! i = B ! i \<Longrightarrow> ledger_hash H A i = ledger_hash H B i"
  by (simp add: ledger_hash_def)

lemma acc_repr_empty: "acc_repr H [] empty_accumulator"
  by (simp add: acc_repr_def represents_empty)

section \<open>Adding and updating leaves\<close>

lemma addLeaves_ledger:
  assumes rep: "acc_repr H A acc" and n: "length A + length ls < 2 ^ 62"
    and add: "addLeaves H acc ls = (acc', ls', growth)" and B: "B = A @ map leaf_data ls"
  shows "acc_repr H B acc'"
    "ls' = map (\<lambda>j. set_proof (valid_proof H B (length A + j)) (numbered (length A) ls j)) [0..<length ls]"
    "\<And>i. i < length A \<Longrightarrow> valid_proof H A i @ growth ! theight (length A) i = valid_proof H B i"
    "length growth = 64"
proof -
  let ?f = "ledger_hash H B" and ?n = "length A"
  have f: "?f (?n + j) = ElementLeaf_Hash H (numbered ?n ls j)" if "j < length ls" for j
    using that by (simp add: ledger_hash_def B nth_append ElementLeaf_Hash_def numbered_def leaf_data_def)
  have old: "ledger_hash H A i = ?f i" if "i < ?n" for i
    using that by (intro ledger_hash_cong) (simp add: B nth_append)
  have "represents H ?f ?n acc"
    using rep old unfolding acc_repr_def by (rule represents_cong)
  from addLeaves_inv [OF this n f add]
  have inv: "represents H ?f (?n + length ls) acc'"
    "ls' = leaf_state ?n ls (length ls) (\<lambda>j. proof_of H ?f (?n + length ls) (?n + j))"
    "growth_inv H ?f ?n (theight (?n + length ls)) growth"
    by (simp_all add: add_inv_def)
  have len: "length B = ?n + length ls" by (simp add: B)
  show "acc_repr H B acc'" using inv(1) by (simp add: acc_repr_def len)
  show "ls' = map (\<lambda>j. set_proof (valid_proof H B (?n + j)) (numbered ?n ls j)) [0..<length ls]"
    unfolding inv(2) leaf_state_def valid_proof_def len by simp
  have n64: "?n < 2 ^ 64" using n by simp
  show "valid_proof H A i @ growth ! theight ?n i = valid_proof H B i" if "i < ?n" for i
  proof -
    have "proof_of H (ledger_hash H A) ?n i = proof_of H ?f ?n i" by (rule proof_of_cong [OF that old])
    then show ?thesis
      using proof_growth(1) [OF inv(3) that n64] by (simp add: valid_proof_def len)
  qed
  show "length growth = 64" using inv(3) by (simp add: growth_inv_def)
qed

lemma updateLeaves_ledger:
  assumes rep: "acc_repr H A acc" and n: "length A < 2 ^ 62" and d: "distinct (map idx ls)"
    and ls: "\<And>l. l \<in> set ls \<Longrightarrow> element_in H A (el_SE l)" and B: "B = ledger_update ls A"
  shows "\<exists>acc' trees. updateLeaves H acc ls = Some (acc', trees) \<and> acc_repr H B acc'
    \<and> updates_ok H (ledger_hash H A) (ledger_hash H B) (length A) trees"
proof -
  let ?n = "length A" and ?f = "ledger_hash H A" and ?g = "ledger_hash H B"
  have i: "idx l < ?n" if "l \<in> set ls" for l using ls [OF that] by (simp add: element_in_def)
  have g: "?g (idx l) = ElementLeaf_Hash H l" if "l \<in> set ls" for l
    using nth_ledger_update [OF i [OF that] d] that by (intro ledger_hash_leaf) (auto simp: B)
  have off: "?g i = ?f i" if "i < ?n" "i \<notin> idx ` set ls" for i
    using nth_ledger_update [OF that(1) d] that(2) by (intro ledger_hash_cong) (simp add: B)
  have "idx l < ?n \<and> el_MerkleProof l = proof_of H ?f ?n (idx l) \<and> ?g (idx l) = ElementLeaf_Hash H l"
    if "l \<in> set ls" for l
    using ls [OF that] g [OF that] by (simp add: element_in_def valid_proof_def)
  from updateLeaves_correct [OF rep [unfolded acc_repr_def] n d this off] obtain acc' trees where
    u: "updateLeaves H acc ls = Some (acc', trees)" "represents H ?g ?n acc'" "length trees = 64"
    and tr: "\<And>t. t < 64 \<Longrightarrow> set (trees ! t) =
      (\<lambda>l. set_proof (proof_of H ?g ?n (idx l)) l) ` {l \<in> set ls. theight ?n (idx l) = t}"
    by blast
  have mem: "idx ` set (trees ! t) = {i \<in> idx ` set ls. theight ?n i = t}" if "t < 64" for t
    unfolding tr [OF that] by (auto simp: image_iff)
  have n64: "?n < 2 ^ 64" using n by simp
  have "?g i = ?f i" if "i < ?n" "i \<notin> idx ` set (trees ! theight ?n i)" for i
    using that mem [OF theight_less [OF that(1) n64]] by (intro off) auto
  then have "updates_ok H ?f ?g ?n trees"
    unfolding updates_ok_def using u(3) i g tr by auto
  then show ?thesis using u(1,2) by (auto simp: acc_repr_def B)
qed

section \<open>Membership\<close>

text \<open>
  What is hashed in a tree and along a proof. Membership proofs are sound as long as the hash
  function does not collide on these inputs.
\<close>

fun node_preimages :: "hashfn \<Rightarrow> (nat \<Rightarrow> hash256) \<Rightarrow> nat \<Rightarrow> nat \<Rightarrow> byte list list" where
  "node_preimages H f 0 k = []"
| "node_preimages H f (Suc t) k =
     (1 # array_bytes 32 (node H f t (2 * k)) @ array_bytes 32 (node H f t (2 * k + 1)))
     # node_preimages H f t (2 * k) @ node_preimages H f t (2 * k + 1)"

fun proof_preimages :: "hashfn \<Rightarrow> u64 \<Rightarrow> nat \<Rightarrow> hash256 list \<Rightarrow> hash256 \<Rightarrow> byte list list" where
  "proof_preimages H x i [] root = []"
| "proof_preimages H x i (h # p) root =
     (let (l, r) = (if x AND push_bit i 1 = 0 then (root, h) else (h, root))
      in (1 # array_bytes 32 l @ array_bytes 32 r) # proof_preimages H x (i + 1) p (NodeHash H l r))"

definition forest_preimages :: "hashfn \<Rightarrow> (nat \<Rightarrow> hash256) \<Rightarrow> nat \<Rightarrow> byte list list" where
  "forest_preimages H f n =
     concat (map (\<lambda>t. if odd (n div 2 ^ t) then node_preimages H f t (n div 2 ^ t - 1) else []) [0..<64])"

lemma array_bytes_inj: "LENGTH('a) \<le> 8 * n \<Longrightarrow> array_bytes n (v :: 'a::len word) = array_bytes n w \<longleftrightarrow> v = w"
  by (metis array_word_bytes)

lemma le_bytes_inj: "LENGTH('a) \<le> 8 * n \<Longrightarrow> le_bytes n (v :: 'a::len word) = le_bytes n w \<longleftrightarrow> v = w"
  by (metis le_word_bytes)

lemma proof_preimages_append:
  "proof_preimages H x i (p @ q) r = proof_preimages H x i p r
     @ proof_preimages H x (i + length p) q (ProofRoot_loop H x i p r)"
  by (induction p arbitrary: i r) (auto simp: Let_def)

lemma NodeHash_inj:
  assumes "inj_on H S" "NodeHash H a b = NodeHash H c d"
    "1 # array_bytes 32 a @ array_bytes 32 b \<in> S" "1 # array_bytes 32 c @ array_bytes 32 d \<in> S"
  shows "a = c" "b = d"
proof -
  have "1 # array_bytes 32 a @ array_bytes 32 b = 1 # array_bytes 32 c @ array_bytes 32 d"
    using assms(2) by (intro inj_onD [OF assms(1) _ assms(3,4)]) (simp add: NodeHash_def HashBytes_def)
  then show "a = c" "b = d" by (simp_all add: array_bytes_inj)
qed

text \<open>A proof that leads to the root of a tree is the path of the leaf that it starts at.\<close>

lemma ProofRoot_sound:
  assumes "inj_on H S" "set (node_preimages H f (length p) k) \<subseteq> S" "set (proof_preimages H x 0 p r) \<subseteq> S"
    "ProofRoot H r x p = node H f (length p) k"
  shows "\<exists>j. j div 2 ^ length p = k \<and> r = f j \<and> p = path H f (length p) j"
  using assms(2-4)
proof (induction p arbitrary: k rule: rev_induct)
  case Nil
  then show ?case by (simp add: ProofRoot_def)
next
  case (snoc h p)
  let ?q = "ProofRoot H r x p" and ?t = "length p"
  let ?a = "if x AND push_bit ?t 1 = 0 then ?q else h" and ?b = "if x AND push_bit ?t 1 = 0 then h else ?q"
  have sub: "set (proof_preimages H x 0 p r) \<subseteq> S" "1 # array_bytes 32 ?a @ array_bytes 32 ?b \<in> S"
    using snoc.prems(2) by (auto simp: proof_preimages_append ProofRoot_def Let_def split: if_splits)
  have nodes: "set (node_preimages H f ?t (2 * k)) \<subseteq> S" "set (node_preimages H f ?t (2 * k + 1)) \<subseteq> S"
    "1 # array_bytes 32 (node H f ?t (2 * k)) @ array_bytes 32 (node H f ?t (2 * k + 1)) \<in> S"
    using snoc.prems(1) by auto
  have "NodeHash H ?a ?b = NodeHash H (node H f ?t (2 * k)) (node H f ?t (2 * k + 1))"
    using snoc.prems(3) by (auto simp: ProofRoot_def ProofRoot_loop_append)
  note ab = NodeHash_inj [OF assms(1) this sub(2) nodes(3)]
  have "\<exists>j k'. (k' = 2 * k \<or> k' = 2 * k + 1) \<and> j div 2 ^ ?t = k' \<and> r = f j \<and> p = path H f ?t j \<and> h = node H f ?t (sib k')"
  proof (cases "x AND push_bit ?t 1 = 0")
    case True
    then show ?thesis using ab snoc.IH [OF nodes(1) sub(1)] by (auto simp: sib_def)
  next
    case False
    then show ?thesis using ab snoc.IH [OF nodes(2) sub(1)] by (force simp: sib_def)
  qed
  then obtain j k' where j: "k' = 2 * k \<or> k' = 2 * k + 1" "j div 2 ^ ?t = k'" "r = f j"
    "p = path H f ?t j" "h = node H f ?t (sib k')" by blast
  have "j div 2 ^ Suc ?t = k" using j(1,2) by (auto simp: nat_div_pow_Suc simp del: power_Suc)
  moreover have "p @ [h] = path H f (Suc ?t) j" using j by (simp add: path_Suc)
  ultimately show ?case using j(3) by (intro exI [of _ j]) simp
qed

definition ledger_preimages :: "hashfn \<Rightarrow> ledger \<Rightarrow> byte list list" where
  "ledger_preimages H A =
     map (\<lambda>i. leaf_preimage (fst (A ! i)) (word_of_nat i) (snd (A ! i))) [0..<length A]
     @ forest_preimages H (ledger_hash H A) (length A)"

definition leaf_preimages :: "hashfn \<Rightarrow> element_leaf \<Rightarrow> byte list list" where
  "leaf_preimages H l =
     leaf_preimage (el_ElementHash l) (el_LeafIndex l) (el_Spent l)
     # proof_preimages H (el_LeafIndex l) 0 (el_MerkleProof l) (ElementLeaf_Hash H l)"

lemma leaf_preimage_inj:
  "leaf_preimage e i s = leaf_preimage e' i' s' \<longleftrightarrow> e = e' \<and> i = i' \<and> s = s'"
  by (auto simp: leaf_preimage_def array_bytes_inj le_bytes_inj split: if_splits)

lemma containsLeaf_complete:
  assumes "acc_repr H A acc" "leaf_in H A l"
  shows "containsLeaf H acc l"
proof -
  let ?t = "theight (length A) (idx l)"
  have n: "idx l < length A" and p: "el_MerkleProof l = path H (ledger_hash H A) ?t (idx l)"
    and h: "ledger_hash H A (idx l) = ElementLeaf_Hash H l"
    using assms(2) ledger_hash_leaf by (auto simp: leaf_in_def valid_proof_def proof_of_def)
  have it: "in_tree (length A) ?t (idx l)" by (rule in_tree_theight [OF n])
  have "acc_Trees acc ! ?t = node H (ledger_hash H A) ?t (idx l div 2 ^ ?t)"
    using assms(1) it theight_less [OF n represents_less] by (auto simp: acc_repr_def represents_def in_tree_def)
  also have "\<dots> = ElementLeaf_ProofRoot H l"
    using ProofRoot_path [of H "ledger_hash H A" "el_LeafIndex l" ?t] by (simp add: ElementLeaf_ProofRoot_def h p)
  finally show ?thesis
    using assms(1) it by (simp add: containsLeaf_def p hasTreeAtHeight_iff acc_repr_def represents_def in_tree_def)
qed

lemma containsLeaf_sound:
  assumes rep: "acc_repr H A acc" and inj: "inj_on H (set (ledger_preimages H A @ leaf_preimages H l))"
    and c: "containsLeaf H acc l"
  shows "leaf_in H A l"
proof -
  let ?f = "ledger_hash H A" and ?n = "length A" and ?t = "length (el_MerkleProof l)"
  let ?S = "set (ledger_preimages H A @ leaf_preimages H l)"
  have o: "odd (?n div 2 ^ ?t)" and t: "?t < 64"
    using c rep hasTreeAtHeight_less [of acc ?t]
    by (auto simp: containsLeaf_def hasTreeAtHeight_iff acc_repr_def represents_def)
  have root: "ProofRoot H (ElementLeaf_Hash H l) (el_LeafIndex l) (el_MerkleProof l) = node H ?f ?t (?n div 2 ^ ?t - 1)"
    using c rep o t by (simp add: containsLeaf_def acc_repr_def represents_def ElementLeaf_ProofRoot_def)
  have "set (node_preimages H ?f ?t (?n div 2 ^ ?t - 1)) \<subseteq> ?S"
    using o t by (auto simp: ledger_preimages_def forest_preimages_def intro!: bexI [of _ ?t])
  moreover have "set (proof_preimages H (el_LeafIndex l) 0 (el_MerkleProof l) (ElementLeaf_Hash H l)) \<subseteq> ?S"
    by (auto simp: leaf_preimages_def)
  ultimately obtain j where j: "j div 2 ^ ?t = ?n div 2 ^ ?t - 1" "ElementLeaf_Hash H l = ?f j"
    "el_MerkleProof l = path H ?f ?t j"
    using ProofRoot_sound [OF inj _ _ root] by blast
  have it: "in_tree ?n ?t j" using o j(1) by (simp add: in_tree_def)
  note lt = in_tree_less [OF it]
  have "leaf_preimage (el_ElementHash l) (el_LeafIndex l) (el_Spent l)
      = leaf_preimage (fst (A ! j)) (word_of_nat j) (snd (A ! j))"
    using j(2) lt by (intro inj_onD [OF inj])
      (auto simp: ElementLeaf_Hash_def ledger_hash_def HashBytes_def leaf_preimages_def ledger_preimages_def)
  then have e: "el_ElementHash l = fst (A ! j)" "el_LeafIndex l = word_of_nat j" "el_Spent l = snd (A ! j)"
    by (simp_all add: leaf_preimage_inj)
  have "?n < 2 ^ 64" using rep unfolding acc_repr_def by (rule represents_less)
  then have "idx l = j" using lt e(2) by (simp add: unat_of_nat64)
  then show ?thesis
    using lt e j(3) theight_eq [OF it] by (simp add: leaf_in_def leaf_data_def valid_proof_def proof_of_def)
qed

section \<open>Blocks\<close>

lemma not_ephemeral: "unat i < n \<Longrightarrow> n < 2 ^ 62 \<Longrightarrow> i \<noteq> EphemeralLeafIndex"
  by (auto simp: EphemeralLeafIndex_def unsigned_minus_1_eq_mask mask_eq_exp_minus_1)

theorem ApplyBlock_ledger:
  assumes rep: "acc_repr H A acc" and n: "length A + length added < 2 ^ 62"
    and d: "distinct (map idx updated)" and us: "\<And>l. l \<in> set updated \<Longrightarrow> element_in H A (el_SE l)"
    and B: "B = ledger_update updated A @ map leaf_data added"
  shows "\<exists>acc' eau added'. ElementAccumulator_ApplyBlock H acc updated added = Some (acc', eau, added')
    \<and> acc_repr H B acc'
    \<and> added' = map (\<lambda>j. set_proof (valid_proof H B (length A + j)) (numbered (length A) added j)) [0..<length added]
    \<and> (\<forall>e. element_in H A e \<longrightarrow> ElementApplyUpdate_UpdateElementProof H eau e =
          Some (e\<lparr>se_MerkleProof := valid_proof H B (unat (se_LeafIndex e))\<rparr>))"
proof -
  let ?A = "ledger_update updated A"
  have n0: "length A < 2 ^ 62" using n by simp
  from updateLeaves_ledger [OF rep n0 d us refl] obtain acc1 trees where
    u: "updateLeaves H acc updated = Some (acc1, trees)" "acc_repr H ?A acc1"
    "updates_ok H (ledger_hash H A) (ledger_hash H ?A) (length A) trees" by blast
  obtain acc2 added' growth where a: "addLeaves H acc1 added = (acc2, added', growth)" by (cases "addLeaves H acc1 added")
  have n1: "length ?A + length added < 2 ^ 62" using n by simp
  note al = addLeaves_ledger [OF u(2) n1 a B]
  let ?eau = "\<lparr>eau_updated = trees, eau_treeGrowth = growth\<rparr>"
  have ap: "ElementAccumulator_ApplyBlock H acc updated added = Some (acc2, ?eau, added')"
    by (simp add: ElementAccumulator_ApplyBlock_def u(1) a)
  have "ElementApplyUpdate_UpdateElementProof H ?eau e =
      Some (e\<lparr>se_MerkleProof := valid_proof H B (unat (se_LeafIndex e))\<rparr>)" if e: "element_in H A e" for e
  proof -
    let ?i = "unat (se_LeafIndex e)"
    have i: "?i < length A" and p: "se_MerkleProof e = proof_of H (ledger_hash H A) (length A) ?i"
      using e by (simp_all add: element_in_def valid_proof_def)
    have n64: "length A < 2 ^ 64" using n0 by simp
    have up: "updateProof H e trees = Some (e\<lparr>se_MerkleProof := valid_proof H ?A ?i\<rparr>)"
      using updateProof_correct [OF u(3) n64 i p] by (simp add: valid_proof_def)
    have "length (valid_proof H ?A ?i) = theight (length A) ?i" by (simp add: valid_proof_def proof_of_def)
    moreover have "theight (length A) ?i < length growth"
      using theight_less [OF i n64] al(4) by simp
    ultimately show ?thesis
      using up al(3) [of ?i] i not_ephemeral [OF i n0]
      by (simp add: ElementApplyUpdate_UpdateElementProof_def at_def)
  qed
  then show ?thesis using ap al(1,2) by (intro exI [of _ acc2] exI [of _ ?eau] exI [of _ added']) simp
qed

lemma appendByTree:
  assumes "length trees = 64" "\<forall>l\<in>set ls. plen l < 64"
  shows "appendByTree trees ls = Some (map (\<lambda>t. trees ! t @ filter (\<lambda>l. plen l = t) ls) [0..<64])"
  using assms
proof (induction ls arbitrary: trees)
  case Nil
  then have "map (\<lambda>t. trees ! t @ filter (\<lambda>l. plen l = t) []) [0..<64] = trees"
    by (intro nth_equalityI) simp_all
  then show ?case by simp
next
  case (Cons l ls)
  then have "appendByTree trees (l # ls) = Some (map (\<lambda>t. trees[plen l := trees ! plen l @ [l]] ! t
      @ filter (\<lambda>l. plen l = t) ls) [0..<64])"
    by (simp add: at_def)
  also have "\<dots> = Some (map (\<lambda>t. trees ! t @ filter (\<lambda>l. plen l = t) (l # ls)) [0..<64])"
    using Cons.prems by (auto simp: nth_list_update intro!: map_cong)
  finally show ?case .
qed

theorem RevertBlock_ledger:
  assumes rep: "acc_repr H A acc" and n: "length A < 2 ^ 62" and us: "\<And>l. l \<in> set updated \<Longrightarrow> leaf_in H A l"
    and C: "length A \<le> length C" "\<And>i. i < length A \<Longrightarrow> i \<notin> idx ` set updated \<Longrightarrow> C ! i = A ! i"
  shows "\<exists>eru. ElementAccumulator_RevertBlock acc updated = Some eru
    \<and> (\<forall>e. element_in H C e \<longrightarrow> unat (se_LeafIndex e) < length A \<longrightarrow>
        ElementRevertUpdate_UpdateElementProof H eru e =
          Some (e\<lparr>se_MerkleProof := valid_proof H A (unat (se_LeafIndex e))\<rparr>))"
proof -
  let ?f = "ledger_hash H C" and ?g = "ledger_hash H A" and ?n = "length A"
  let ?trees = "map (\<lambda>t. replicate 64 [] ! t @ filter (\<lambda>l. plen l = t) updated) [0..<64]"
  have n64: "?n < 2 ^ 64" using n by simp
  have pl: "plen l = theight ?n (idx l)" "idx l < ?n" "plen l < 64" if "l \<in> set updated" for l
    using us [OF that] theight_less [OF _ n64] by (auto simp: leaf_in_def valid_proof_def proof_of_def)
  have N: "unat (acc_NumLeaves acc) = ?n" using rep by (simp add: acc_repr_def represents_def)
  let ?eru = "\<lparr>eru_updated = ?trees, eru_numLeaves = acc_NumLeaves acc\<rparr>"
  have rv: "ElementAccumulator_RevertBlock acc updated = Some ?eru"
    unfolding ElementAccumulator_RevertBlock_def
    by (subst appendByTree) (simp_all add: pl(3))
  have mem: "set (?trees ! t) = {l \<in> set updated. theight ?n (idx l) = t}" if "t < 64" for t
    using that pl(1) by auto
  have upd: "updates_ok H ?f ?g ?n ?trees"
    unfolding updates_ok_def
  proof (intro conjI allI impI ballI)
    fix t l assume t: "t < 64" and l: "l \<in> set (?trees ! t)"
    then have "l \<in> set updated" "theight ?n (idx l) = t" using mem by blast+
    then show "idx l < ?n" "theight ?n (idx l) = t" "el_MerkleProof l = proof_of H ?g ?n (idx l)"
      "?g (idx l) = ElementLeaf_Hash H l"
      using us ledger_hash_leaf by (auto simp: leaf_in_def valid_proof_def)
  next
    fix i assume i: "i < ?n" "i \<notin> idx ` set (?trees ! theight ?n i)"
    then have "i \<notin> idx ` set updated" unfolding mem [OF theight_less [OF i(1) n64]] by blast
    then show "?g i = ?f i" using C(2) [OF i(1)] by (intro ledger_hash_cong) simp
  qed simp
  have "ElementRevertUpdate_UpdateElementProof H ?eru e =
      Some (e\<lparr>se_MerkleProof := valid_proof H A (unat (se_LeafIndex e))\<rparr>)"
    if e: "element_in H C e" and i: "unat (se_LeafIndex e) < ?n" for e
  proof -
    let ?i = "unat (se_LeafIndex e)"
    let ?T = "theight ?n ?i"
    have mh: "mergeHeight (acc_NumLeaves acc) (se_LeafIndex e) = Suc ?T"
      using theight_mergeHeight [of "se_LeafIndex e" "acc_NumLeaves acc"] i N by simp
    let ?e = "if Suc ?T \<le> length (se_MerkleProof e) then e\<lparr>se_MerkleProof := take ?T (se_MerkleProof e)\<rparr> else e"
    have p: "se_MerkleProof e = path H ?f (theight (length C) ?i) ?i"
      using e by (simp add: element_in_def valid_proof_def proof_of_def)
    have le: "?T \<le> theight (length C) ?i" by (rule theight_mono [OF i C(1)])
    then have "se_MerkleProof ?e = proof_of H ?f ?n ?i"
      by (auto simp: p proof_of_def take_path not_less_eq_eq)
    then have "updateProof H ?e ?trees = Some (?e\<lparr>se_MerkleProof := valid_proof H A ?i\<rparr>)"
      using updateProof_correct [OF upd n64, of ?e] i by (simp add: valid_proof_def)
    moreover have "?e\<lparr>se_MerkleProof := valid_proof H A ?i\<rparr> = e\<lparr>se_MerkleProof := valid_proof H A ?i\<rparr>" by simp
    ultimately show ?thesis
      using not_ephemeral [OF i n] i [unfolded not_le [symmetric]] N mh
      by (simp only: ElementRevertUpdate_UpdateElementProof_def Let_def element_revert_update.select_convs
          word_le_nat_alt if_False diff_Suc_1)
  qed
  then show ?thesis using rv by blast
qed

section \<open>Properties\<close>

text \<open>C36. Membership: an accumulator that stands for a ledger contains exactly the leaves of the ledger,
  each at its place, with its spent flag and its one right proof, unless the hash function collides on the
  inputs that the ledger's trees and the given proof feed to it.\<close>

theorem containsLeaf_iff:
  assumes "acc_repr H A acc" "inj_on H (set (ledger_preimages H A @ leaf_preimages H l))"
  shows "containsLeaf H acc l \<longleftrightarrow> leaf_in H A l"
  using containsLeaf_complete [OF assms(1)] containsLeaf_sound [OF assms] by blast

definition sample_leaf :: element_leaf where
  "sample_leaf = \<lparr>el_SE = \<lparr>se_ID = \<lparr>ei_Source = 7, ei_Index = 0\<rparr>, se_LeafIndex = 0, se_MerkleProof = []\<rparr>,
     el_ElementHash = 5, el_Spent = False\<rparr>"

definition sample_acc :: accumulator where
  "sample_acc = \<lparr>acc_Trees = ElementLeaf_Hash sample_hash sample_leaf # replicate 63 0, acc_NumLeaves = 1\<rparr>"

lemma one_div_pow_odd: "odd (Suc 0 div 2 ^ t) \<longleftrightarrow> t = 0"
proof (cases "t = 0")
  case False
  then have "(1::nat) < 2 ^ t" by (intro one_less_power) simp_all
  then show ?thesis using False by simp
qed simp

lemma theight_1 [simp]: "theight (Suc 0) 0 = 0"
  by (simp add: theight.simps)

lemma acc_repr_single:
  assumes "el_LeafIndex l = 0" "acc = \<lparr>acc_Trees = ElementLeaf_Hash H l # replicate 63 0, acc_NumLeaves = 1\<rparr>"
  shows "acc_repr H [leaf_data l] acc"
  using assms ledger_hash_leaf [of "[leaf_data l]" l H]
  by (simp add: acc_repr_def represents_def one_div_pow_odd)

lemma valid_proof_single [simp]: "valid_proof H [x] 0 = []"
  by (simp add: valid_proof_def proof_of_def)

lemma sample_acc_repr: "acc_repr sample_hash [leaf_data sample_leaf] sample_acc"
  by (rule acc_repr_single) (simp_all add: sample_leaf_def sample_acc_def)

lemma forest_preimages_single: "forest_preimages H f (Suc 0) = []"
  by (simp add: forest_preimages_def one_div_pow_odd)

theorem containsLeaf_iff_witness: "containsLeaf sample_hash sample_acc sample_leaf"
proof -
  have "inj_on sample_hash (set (ledger_preimages sample_hash [leaf_data sample_leaf] @ leaf_preimages sample_hash sample_leaf))"
    by (simp add: ledger_preimages_def leaf_preimages_def forest_preimages_single leaf_data_def)
      (simp add: sample_leaf_def)
  from containsLeaf_iff [OF sample_acc_repr this] show ?thesis
    by (simp add: leaf_in_def) (simp add: sample_leaf_def)
qed

text \<open>\<open>addLeaves\<close> appends: the accumulator afterwards stands for the longer ledger, every added leaf has
  its number and its right proof, and \<open>treeGrowth\<close> turns the proof of every earlier leaf into its new proof.\<close>

theorem addLeaves_appends:
  assumes "acc_repr H A acc" "length A + length ls < 2 ^ 62"
  shows "case addLeaves H acc ls of (acc', ls', growth) \<Rightarrow>
      acc_repr H (A @ map leaf_data ls) acc' \<and> length ls' = length ls
      \<and> (\<forall>j<length ls. idx (ls' ! j) = length A + j \<and> leaf_in H (A @ map leaf_data ls) (ls' ! j))
      \<and> (\<forall>i<length A. valid_proof H A i @ growth ! theight (length A) i = valid_proof H (A @ map leaf_data ls) i)"
proof -
  obtain acc' ls' growth where a: "addLeaves H acc ls = (acc', ls', growth)" by (cases "addLeaves H acc ls")
  note al = addLeaves_ledger [OF assms a refl]
  have u: "unat (word_of_nat (length A + j) :: u64) = length A + j" if "j < length ls" for j
    using that assms(2) by (intro unat_of_nat64) simp
  have "idx (ls' ! j) = length A + j \<and> leaf_in H (A @ map leaf_data ls) (ls' ! j)" if "j < length ls" for j
    using that u [OF that]
    by (simp add: al(2) leaf_in_def numbered_def leaf_data_def set_proof_def nth_append del: of_nat_add)
  then show ?thesis using al by (simp add: a)
qed

theorem addLeaves_appends_witness:
  "case addLeaves sample_hash sample_acc [sample_leaf, sample_leaf] of (acc', ls', growth) \<Rightarrow>
     leaf_in sample_hash (replicate 3 (leaf_data sample_leaf)) (ls' ! 1)"
proof -
  have "length [leaf_data sample_leaf] + length [sample_leaf, sample_leaf] < 2 ^ 62" by simp
  from addLeaves_appends [OF sample_acc_repr this] show ?thesis
    by (auto simp: numeral_3_eq_3)
qed

text \<open>\<open>updateLeaves\<close> overwrites: given leaves of the ledger with their right proofs, no two of them with
  the same number, it does not panic, and the accumulator afterwards stands for the ledger with these leaves
  replaced.\<close>

theorem updateLeaves_overwrites:
  assumes "acc_repr H A acc" "length A < 2 ^ 62" "distinct (map idx ls)" "\<forall>l\<in>set ls. element_in H A (el_SE l)"
  shows "\<exists>acc' trees. updateLeaves H acc ls = Some (acc', trees) \<and> acc_repr H (ledger_update ls A) acc'"
  using updateLeaves_ledger [OF assms(1-3) _ refl] assms(4) by blast

theorem updateLeaves_overwrites_witness:
  "\<exists>acc' trees. updateLeaves sample_hash sample_acc [sample_leaf\<lparr>el_Spent := True\<rparr>] = Some (acc', trees)
     \<and> acc_repr sample_hash [(5, True)] acc'"
proof -
  have "element_in sample_hash [leaf_data sample_leaf] (el_SE sample_leaf)"
    by (simp add: element_in_def) (simp add: sample_leaf_def)
  then have "\<forall>l\<in>set [sample_leaf\<lparr>el_Spent := True\<rparr>]. element_in sample_hash [leaf_data sample_leaf] (el_SE l)" by simp
  from updateLeaves_overwrites [OF sample_acc_repr _ _ this] show ?thesis
    by (simp add: ledger_update_def leaf_data_def sample_leaf_def)
qed

text \<open>A block keeps proofs alive: \<open>ApplyBlock\<close> with overwritten and added leaves does not panic, and its
  update turns the right proof of any element of the old ledger into the right proof in the new one.\<close>

theorem ApplyBlock_keeps_proofs:
  assumes "acc_repr H A acc" "length A + length added < 2 ^ 62" "distinct (map idx updated)"
    "\<forall>l\<in>set updated. element_in H A (el_SE l)" "element_in H A e"
  shows "\<exists>acc' eau added' e'. ElementAccumulator_ApplyBlock H acc updated added = Some (acc', eau, added')
    \<and> acc_repr H (ledger_update updated A @ map leaf_data added) acc'
    \<and> ElementApplyUpdate_UpdateElementProof H eau e = Some e'
    \<and> se_ID e' = se_ID e \<and> se_LeafIndex e' = se_LeafIndex e
    \<and> element_in H (ledger_update updated A @ map leaf_data added) e'"
proof -
  let ?B = "ledger_update updated A @ map leaf_data added"
  obtain acc' eau added' where ap: "ElementAccumulator_ApplyBlock H acc updated added = Some (acc', eau, added')"
    "acc_repr H ?B acc'"
    "ElementApplyUpdate_UpdateElementProof H eau e = Some (e\<lparr>se_MerkleProof := valid_proof H ?B (unat (se_LeafIndex e))\<rparr>)"
    using ApplyBlock_ledger [OF assms(1-3) _ refl] assms(4,5) by blast
  moreover have "element_in H ?B (e\<lparr>se_MerkleProof := valid_proof H ?B (unat (se_LeafIndex e))\<rparr>)"
    using assms(5) by (simp add: element_in_def)
  ultimately show ?thesis by (intro exI conjI) simp_all
qed

lemma sample_in: "leaf_in sample_hash [leaf_data sample_leaf] sample_leaf"
  "element_in sample_hash [leaf_data sample_leaf] (el_SE sample_leaf)" "idx sample_leaf = 0"
  by (simp_all add: leaf_in_def element_in_def) (simp_all add: sample_leaf_def)

theorem ApplyBlock_keeps_proofs_witness:
  "\<exists>acc' eau added' e'.
     ElementAccumulator_ApplyBlock sample_hash sample_acc [sample_leaf\<lparr>el_Spent := True\<rparr>] [sample_leaf] = Some (acc', eau, added')
     \<and> ElementApplyUpdate_UpdateElementProof sample_hash eau (el_SE sample_leaf) = Some e'
     \<and> element_in sample_hash [(5, True), (5, False)] e'"
proof -
  have e: "ledger_update [sample_leaf\<lparr>el_Spent := True\<rparr>] [leaf_data sample_leaf] @ map leaf_data [sample_leaf]
      = [(5, True), (5, False)]"
    by (simp add: ledger_update_def leaf_data_def sample_leaf_def)
  show ?thesis
    using ApplyBlock_keeps_proofs [OF sample_acc_repr, of "[sample_leaf]" "[sample_leaf\<lparr>el_Spent := True\<rparr>]" "el_SE sample_leaf"]
      sample_in(2)
    unfolding e by auto
qed

text \<open>Reverting undoes applying: after a block was applied and then reverted, an element that was in the
  ledger before has its old proof again, whatever leaves the block overwrote or added.\<close>

theorem Apply_then_Revert:
  assumes "acc_repr H A acc" "length A + length added < 2 ^ 62" "distinct (map idx updated)"
    "\<forall>l\<in>set updated. element_in H A (el_SE l)" "\<forall>l\<in>set old. leaf_in H A l"
    "idx ` set old = idx ` set updated" "element_in H A e"
  shows "\<exists>acc' eau added' eru e'. ElementAccumulator_ApplyBlock H acc updated added = Some (acc', eau, added')
    \<and> ElementAccumulator_RevertBlock acc old = Some eru
    \<and> ElementApplyUpdate_UpdateElementProof H eau e = Some e'
    \<and> ElementRevertUpdate_UpdateElementProof H eru e' = Some e"
proof -
  let ?B = "ledger_update updated A @ map leaf_data added"
  let ?e = "e\<lparr>se_MerkleProof := valid_proof H ?B (unat (se_LeafIndex e))\<rparr>"
  obtain acc' eau added' where ap: "ElementAccumulator_ApplyBlock H acc updated added = Some (acc', eau, added')"
    "ElementApplyUpdate_UpdateElementProof H eau e = Some ?e"
    using ApplyBlock_ledger [OF assms(1-3) _ refl] assms(4,7) by blast
  have "?B ! i = A ! i" if "i < length A" "i \<notin> idx ` set old" for i
    using nth_ledger_update [OF that(1) assms(3)] that assms(6) by (simp add: nth_append)
  then obtain eru where rv: "ElementAccumulator_RevertBlock acc old = Some eru"
    "element_in H ?B ?e \<Longrightarrow> unat (se_LeafIndex ?e) < length A \<Longrightarrow>
      ElementRevertUpdate_UpdateElementProof H eru ?e = Some (?e\<lparr>se_MerkleProof := valid_proof H A (unat (se_LeafIndex ?e))\<rparr>)"
    using RevertBlock_ledger [OF assms(1), of old ?B] assms(2,5) by auto
  have "?e\<lparr>se_MerkleProof := valid_proof H A (unat (se_LeafIndex ?e))\<rparr> = e"
    using assms(7) by (cases e) (simp add: element_in_def)
  moreover have "element_in H ?B ?e" "unat (se_LeafIndex ?e) < length A" using assms(7) by (simp_all add: element_in_def)
  ultimately show ?thesis using ap rv by auto
qed

theorem Apply_then_Revert_witness:
  "\<exists>acc' eau added' eru e'.
     ElementAccumulator_ApplyBlock sample_hash sample_acc [sample_leaf\<lparr>el_Spent := True\<rparr>] [sample_leaf] = Some (acc', eau, added')
     \<and> ElementAccumulator_RevertBlock sample_acc [sample_leaf] = Some eru
     \<and> ElementApplyUpdate_UpdateElementProof sample_hash eau (el_SE sample_leaf) = Some e'
     \<and> ElementRevertUpdate_UpdateElementProof sample_hash eru e' = Some (el_SE sample_leaf)"
  using Apply_then_Revert [OF sample_acc_repr, of "[sample_leaf]" "[sample_leaf\<lparr>el_Spent := True\<rparr>]" "[sample_leaf]" "el_SE sample_leaf"]
    sample_in by simp

end
