(* ===== verification/Accumulator_History.thy ===== *)
theory Accumulator_History
  imports Accumulator_Elements
begin

text \<open>
  The history accumulator against its specification, the list of the chain's indices: membership
  of an index at its height, and the updates of history proofs when a block is applied or
  reverted.
\<close>

section \<open>The chain of an accumulator\<close>

definition history_hash :: "hashfn \<Rightarrow> chain_index list \<Rightarrow> nat \<Rightarrow> hash256" where
  "history_hash H hs i = historyLeafHash H (hs ! i)"

definition history_repr :: "hashfn \<Rightarrow> chain_index list \<Rightarrow> accumulator \<Rightarrow> bool" where
  "history_repr H hs acc \<longleftrightarrow> represents H (history_hash H hs) (length hs) acc"

definition history_proof :: "hashfn \<Rightarrow> chain_index list \<Rightarrow> nat \<Rightarrow> hash256 list" where
  "history_proof H hs i = proof_of H (history_hash H hs) (length hs) i"

text \<open>The index at place \<open>i\<close> of a chain has height \<open>i\<close>.\<close>

definition chain_heights :: "chain_index list \<Rightarrow> bool" where
  "chain_heights hs \<longleftrightarrow> (\<forall>i<length hs. ci_Height (hs ! i) = word_of_nat i)"

lemma history_repr_empty: "history_repr H [] empty_accumulator"
  by (simp add: history_repr_def represents_empty)

section \<open>Applying a block\<close>

lemma HistoryAccumulator_walk:
  assumes "low_ones n t" "n < 2 ^ 62" "represents H f n acc" "h = node H f t (n div 2 ^ t)"
    "hau = \<lparr>hau_proof = path H f t n, hau_growth = map (\<lambda>s. node H f s (n div 2 ^ s)) [0..<t]\<rparr>"
    "t + fuel = 64"
  shows "\<exists>t'. t \<le> t' \<and> low_ones n t' \<and> even (n div 2 ^ t') \<and>
    HistoryAccumulator_walk H acc t fuel h hau =
      Some (\<lparr>acc_Trees = (acc_Trees acc)[t' := node H f t' (n div 2 ^ t')], acc_NumLeaves = acc_NumLeaves acc + 1\<rparr>,
        \<lparr>hau_proof = path H f t' n, hau_growth = map (\<lambda>s. node H f s (n div 2 ^ s)) [0..<t']\<rparr>)"
  using assms
proof (induction fuel arbitrary: t h hau)
  case 0
  have "t < 63" using 0 by (intro tree_index(2) [of n _ "acc_NumLeaves acc"]) (simp_all add: represents_def)
  then show ?case using 0(6) by simp
next
  case (Suc fuel)
  have has: "hasTreeAtHeight acc t \<longleftrightarrow> odd (n div 2 ^ t)"
    using Suc.prems(3) by (simp add: hasTreeAtHeight_iff represents_def)
  show ?case
  proof (cases "odd (n div 2 ^ t)")
    case False
    then show ?thesis using Suc.prems has by (intro exI [of _ t]) simp
  next
    case True
    have old: "acc_Trees acc ! t = node H f t (sib (n div 2 ^ t))"
      using Suc.prems(3,6) True by (simp add: represents_def sib_def)
    have up: "NodeHash H (acc_Trees acc ! t) h = node H f (Suc t) (n div 2 ^ Suc t)"
      using True unfolding old Suc.prems(4)
      by (auto simp: sib_def nat_div_pow_Suc simp del: power_Suc elim!: oddE)
    have "\<exists>t'. Suc t \<le> t' \<and> low_ones n t' \<and> even (n div 2 ^ t') \<and>
      HistoryAccumulator_walk H acc (Suc t) fuel (NodeHash H (acc_Trees acc ! t) h)
        \<lparr>hau_proof = hau_proof hau @ [acc_Trees acc ! t], hau_growth = hau_growth hau @ [h]\<rparr> =
      Some (\<lparr>acc_Trees = (acc_Trees acc)[t' := node H f t' (n div 2 ^ t')], acc_NumLeaves = acc_NumLeaves acc + 1\<rparr>,
        \<lparr>hau_proof = path H f t' n, hau_growth = map (\<lambda>s. node H f s (n div 2 ^ s)) [0..<t']\<rparr>)"
      using Suc.prems low_ones_Suc [OF Suc.prems(1) True]
      by (intro Suc.IH up) (simp_all add: path_Suc old)
    then obtain t' where t': "t \<le> t'" "low_ones n t'" "even (n div 2 ^ t')"
      "HistoryAccumulator_walk H acc (Suc t) fuel (NodeHash H (acc_Trees acc ! t) h)
        \<lparr>hau_proof = hau_proof hau @ [acc_Trees acc ! t], hau_growth = hau_growth hau @ [h]\<rparr> =
      Some (\<lparr>acc_Trees = (acc_Trees acc)[t' := node H f t' (n div 2 ^ t')], acc_NumLeaves = acc_NumLeaves acc + 1\<rparr>,
        \<lparr>hau_proof = path H f t' n, hau_growth = map (\<lambda>s. node H f s (n div 2 ^ s)) [0..<t']\<rparr>)"
      using Suc_leD by blast
    then show ?thesis using has True by (intro exI [of _ t']) simp
  qed
qed

lemma theight_new: "low_ones n t \<Longrightarrow> even (n div 2 ^ t) \<Longrightarrow> theight (Suc n) n = t"
proof -
  assume a: "low_ones n t" "even (n div 2 ^ t)"
  have "(1::nat) \<le> 2 ^ t" by simp
  then have "Suc n - 2 ^ t \<le> n" by linarith
  then show "theight (Suc n) n = t" using cur_height_final [OF a, of n] by (simp add: cur_height_def)
qed

lemma UpdateProof_apply:
  assumes low: "low_ones n t" and e: "even (n div 2 ^ t)" and i: "i < n"
  shows "HistoryApplyUpdate_UpdateProof
      \<lparr>hau_proof = path H f t n, hau_growth = map (\<lambda>s. node H f s (n div 2 ^ s)) [0..<t]\<rparr> (proof_of H f n i)
    = Some (proof_of H f (Suc n) i)"
proof -
  let ?T = "theight n i"
  note it = in_tree_theight [OF i]
  show ?thesis
  proof (cases "?T < t")
    case True
    have up: "i div 2 ^ Suc ?T = n div 2 ^ Suc ?T" by (rule in_tree_above [OF it])
    then have "i div 2 ^ t = n div 2 ^ t" using True by (intro div_pow_mono_eq [OF up]) simp
    then have "in_tree (Suc n) t i" using e by (simp add: in_tree_def Suc_div_pow [OF low])
    then have t: "theight (Suc n) i = t" by (rule theight_eq)
    have s: "node H f ?T (n div 2 ^ ?T) = path H f t i ! ?T"
      using it True by (simp add: nth_path in_tree_def sib_def)
    have "path H f ?T i @ path H f t i ! ?T # drop (Suc ?T) (path H f t n) = path H f t i"
      using id_take_nth_drop [of ?T "path H f t i"] True drop_path_cong [OF up, of H f t]
      by (simp add: take_path)
    then show ?thesis using True s by (simp add: HistoryApplyUpdate_UpdateProof_def proof_of_def t Let_def)
  next
    case False
    have "?T \<noteq> t" using it e by (auto simp: in_tree_def)
    then have "t < ?T" using False by simp
    then have "in_tree (Suc n) ?T i" using it by (simp add: in_tree_def Suc_div_above [OF low e])
    then have "theight (Suc n) i = ?T" by (rule theight_eq)
    then show ?thesis using False by (simp add: HistoryApplyUpdate_UpdateProof_def proof_of_def)
  qed
qed

theorem History_ApplyBlock:
  assumes rep: "history_repr H hs acc" and n: "length hs < 2 ^ 62"
  shows "\<exists>acc' hau. HistoryAccumulator_ApplyBlock H acc index = Some (acc', hau)
    \<and> history_repr H (hs @ [index]) acc'
    \<and> HistoryApplyUpdate_HistoryProof hau = history_proof H (hs @ [index]) (length hs)
    \<and> (\<forall>i<length hs. HistoryApplyUpdate_UpdateProof hau (history_proof H hs i)
          = Some (history_proof H (hs @ [index]) i))"
proof -
  let ?n = "length hs" and ?f = "history_hash H (hs @ [index])"
  have f: "history_hash H hs i = ?f i" if "i < ?n" for i using that by (simp add: history_hash_def nth_append)
  have r: "represents H ?f ?n acc" using rep f unfolding history_repr_def by (rule represents_cong)
  have h: "historyLeafHash H index = node H ?f 0 (?n div 2 ^ 0)" by (simp add: history_hash_def)
  obtain t where t: "low_ones ?n t" "even (?n div 2 ^ t)" and
    ap: "HistoryAccumulator_ApplyBlock H acc index =
      Some (\<lparr>acc_Trees = (acc_Trees acc)[t := node H ?f t (?n div 2 ^ t)], acc_NumLeaves = acc_NumLeaves acc + 1\<rparr>,
        \<lparr>hau_proof = path H ?f t ?n, hau_growth = map (\<lambda>s. node H ?f s (?n div 2 ^ s)) [0..<t]\<rparr>)"
    using HistoryAccumulator_walk [OF low_ones_0 n r h, of "\<lparr>hau_proof = [], hau_growth = []\<rparr>" 64]
    unfolding HistoryAccumulator_ApplyBlock_def by auto
  have p: "proof_of H (history_hash H hs) ?n i = proof_of H ?f ?n i" if "i < ?n" for i
    by (rule proof_of_cong [OF that f])
  show ?thesis
    unfolding ap using represents_insert [OF t n r refl] UpdateProof_apply [OF t, of _ H ?f] theight_new [OF t] p
    by (simp add: history_repr_def HistoryApplyUpdate_HistoryProof_def history_proof_def proof_of_def)
qed

section \<open>Reverting a block\<close>

text \<open>Any longer chain will do: the proof is cut back to the chain below the reverted index.\<close>

theorem History_RevertBlock:
  assumes hs: "length hs < 2 ^ 64" "length hs \<le> length gs" "take (length hs) gs = hs"
    and index: "ci_Height index = word_of_nat (length hs)" and i: "i < length hs"
  shows "HistoryRevertUpdate_UpdateProof (HistoryAccumulator_RevertBlock acc index) (word_of_nat i)
      (history_proof H gs i) = Some (history_proof H hs i)"
proof -
  let ?n = "length hs" and ?f = "history_hash H gs"
  let ?T = "theight ?n i"
  have u: "unat (word_of_nat ?n :: u64) = ?n" "unat (word_of_nat i :: u64) = i"
    using hs(1) i by (simp_all add: unat_of_nat64)
  have mh: "mergeHeight (word_of_nat ?n) (word_of_nat i) = Suc ?T"
    using theight_mergeHeight [of "word_of_nat i" "word_of_nat ?n"] i by (simp only: u)
  have le: "?T \<le> theight (length gs) i" by (rule theight_mono [OF i hs(2)])
  have f: "?f k = history_hash H hs k" if "k < ?n" for k
    using that arg_cong [where f = "\<lambda>xs. xs ! k", OF hs(3)] by (simp add: history_hash_def)
  have "take ?T (history_proof H gs i) = proof_of H ?f ?n i"
    using le by (simp add: history_proof_def proof_of_def take_path)
  also have "\<dots> = history_proof H hs i" unfolding history_proof_def by (rule proof_of_cong [OF i f])
  finally have tk: "take ?T (history_proof H gs i) = history_proof H hs i" .
  have len: "length (history_proof H gs i) = theight (length gs) i" by (simp add: history_proof_def proof_of_def)
  show ?thesis
  proof (cases "Suc ?T \<le> theight (length gs) i")
    case True
    then show ?thesis
      using tk len by (simp add: HistoryRevertUpdate_UpdateProof_def HistoryAccumulator_RevertBlock_def index mh Let_def)
  next
    case False
    then have "history_proof H gs i = history_proof H hs i" using le tk len by simp
    then show ?thesis
      using False len by (simp add: HistoryRevertUpdate_UpdateProof_def HistoryAccumulator_RevertBlock_def index mh Let_def)
  qed
qed

section \<open>Membership\<close>

definition history_preimages :: "hashfn \<Rightarrow> chain_index list \<Rightarrow> byte list list" where
  "history_preimages H hs = map history_preimage hs @ forest_preimages H (history_hash H hs) (length hs)"

definition index_preimages :: "hashfn \<Rightarrow> chain_index \<Rightarrow> hash256 list \<Rightarrow> byte list list" where
  "index_preimages H index p =
     history_preimage index # proof_preimages H (ci_Height index) 0 p (historyLeafHash H index)"

lemma history_preimage_inj: "history_preimage a = history_preimage b \<longleftrightarrow> a = b"
  by (cases a; cases b) (auto simp: history_preimage_def array_bytes_inj le_bytes_inj)

lemma Contains_complete:
  assumes rep: "history_repr H hs acc" and ch: "chain_heights hs" and i: "i < length hs"
  shows "HistoryAccumulator_Contains H acc (hs ! i) (history_proof H hs i)"
proof -
  let ?n = "length hs" and ?f = "history_hash H hs"
  let ?t = "theight ?n i"
  have n64: "?n < 2 ^ 64" using rep unfolding history_repr_def by (rule represents_less)
  have it: "in_tree ?n ?t i" by (rule in_tree_theight [OF i])
  have u: "unat (ci_Height (hs ! i)) = i" using ch i n64 by (simp add: chain_heights_def unat_of_nat64)
  have "acc_Trees acc ! ?t = node H ?f ?t (i div 2 ^ ?t)"
    using rep it theight_less [OF i n64] by (simp add: history_repr_def represents_def in_tree_def)
  moreover have "historyLeafHash H (hs ! i) = ?f i" by (simp add: history_hash_def)
  ultimately show ?thesis
    using ProofRoot_path [of H ?f "ci_Height (hs ! i)" ?t] rep it
    by (simp add: HistoryAccumulator_Contains_def historyProofRoot_def history_proof_def proof_of_def u
        hasTreeAtHeight_iff history_repr_def represents_def in_tree_def)
qed

lemma Contains_sound:
  assumes rep: "history_repr H hs acc" and ch: "chain_heights hs"
    and inj: "inj_on H (set (history_preimages H hs @ index_preimages H index p))"
    and c: "HistoryAccumulator_Contains H acc index p"
  shows "unat (ci_Height index) < length hs" "hs ! unat (ci_Height index) = index"
    "p = history_proof H hs (unat (ci_Height index))"
proof -
  let ?f = "history_hash H hs" and ?n = "length hs" and ?t = "length p"
  let ?S = "set (history_preimages H hs @ index_preimages H index p)"
  have o: "odd (?n div 2 ^ ?t)" and t: "?t < 64"
    using c rep hasTreeAtHeight_less [of acc ?t]
    by (auto simp: HistoryAccumulator_Contains_def hasTreeAtHeight_iff history_repr_def represents_def)
  have root: "ProofRoot H (historyLeafHash H index) (ci_Height index) p = node H ?f ?t (?n div 2 ^ ?t - 1)"
    using c rep o t by (simp add: HistoryAccumulator_Contains_def history_repr_def represents_def historyProofRoot_def)
  have "set (node_preimages H ?f ?t (?n div 2 ^ ?t - 1)) \<subseteq> ?S"
    using o t by (auto simp: history_preimages_def forest_preimages_def intro!: bexI [of _ ?t])
  moreover have "set (proof_preimages H (ci_Height index) 0 p (historyLeafHash H index)) \<subseteq> ?S"
    by (auto simp: index_preimages_def)
  ultimately obtain j where j: "j div 2 ^ ?t = ?n div 2 ^ ?t - 1" "historyLeafHash H index = ?f j"
    "p = path H ?f ?t j"
    using ProofRoot_sound [OF inj _ _ root] by blast
  have it: "in_tree ?n ?t j" using o j(1) by (simp add: in_tree_def)
  note lt = in_tree_less [OF it]
  have "history_preimage index = history_preimage (hs ! j)"
    using j(2) lt by (intro inj_onD [OF inj])
      (auto simp: historyLeafHash_def history_hash_def HashBytes_def index_preimages_def history_preimages_def)
  then have e: "index = hs ! j" by (simp add: history_preimage_inj)
  have "?n < 2 ^ 64" using rep unfolding history_repr_def by (rule represents_less)
  then have u: "unat (ci_Height index) = j" using lt ch by (simp add: e chain_heights_def unat_of_nat64)
  show "unat (ci_Height index) < length hs" "hs ! unat (ci_Height index) = index"
    "p = history_proof H hs (unat (ci_Height index))"
    unfolding u using lt j(3) theight_eq [OF it] by (simp_all only: e history_proof_def proof_of_def)
qed

section \<open>Properties\<close>

text \<open>Applying a block to the history does not panic; the accumulator afterwards stands for the longer
  chain, \<open>HistoryProof\<close> is the right proof of the new index, and \<open>UpdateProof\<close> turns the right proof of every
  earlier index into its right proof in the longer chain.\<close>

theorem History_extends:
  assumes "history_repr H hs acc" "length hs < 2 ^ 62"
  shows "\<exists>acc' hau. HistoryAccumulator_ApplyBlock H acc index = Some (acc', hau)
    \<and> history_repr H (hs @ [index]) acc'
    \<and> HistoryApplyUpdate_HistoryProof hau = history_proof H (hs @ [index]) (length hs)
    \<and> (\<forall>i<length hs. HistoryApplyUpdate_UpdateProof hau (history_proof H hs i)
          = Some (history_proof H (hs @ [index]) i))"
  using History_ApplyBlock [OF assms] .

definition sample_index :: "nat \<Rightarrow> chain_index" where
  "sample_index i = \<lparr>ci_Height = word_of_nat i, ci_ID = word_of_nat i + 9\<rparr>"

theorem History_extends_witness:
  "\<exists>acc' hau. HistoryAccumulator_ApplyBlock sample_hash empty_accumulator (sample_index 0) = Some (acc', hau)
     \<and> history_repr sample_hash [sample_index 0] acc'"
  using History_extends [OF history_repr_empty [of sample_hash], of "sample_index 0"] by auto

text \<open>Reverting a block of the history: the update made from the reverted index turns the right proof of
  an index below it, in that chain or any extension, into its right proof in the chain without it.\<close>

theorem History_reverts:
  assumes "length hs < 2 ^ 64" "length hs \<le> length gs" "take (length hs) gs = hs"
    "ci_Height index = word_of_nat (length hs)" "i < length hs"
  shows "HistoryRevertUpdate_UpdateProof (HistoryAccumulator_RevertBlock acc index) (word_of_nat i)
      (history_proof H gs i) = Some (history_proof H hs i)"
  using History_RevertBlock [OF assms] .

theorem History_reverts_witness:
  "HistoryRevertUpdate_UpdateProof (HistoryAccumulator_RevertBlock empty_accumulator (sample_index 2)) (word_of_nat 1)
     (history_proof sample_hash [sample_index 0, sample_index 1, sample_index 2] 1)
   = Some (history_proof sample_hash [sample_index 0, sample_index 1] 1)"
proof -
  have "ci_Height (sample_index 2) = word_of_nat (length [sample_index 0, sample_index 1])" by (simp add: sample_index_def)
  moreover have "1 < length [sample_index 0, sample_index 1]" by simp
  ultimately show ?thesis
    by (intro History_reverts [of "[sample_index 0, sample_index 1]"]) simp_all
qed

text \<open>The history accumulator contains exactly the indices of the chain, with their right proofs, unless
  the hash function collides on the inputs that the trees and the given proof feed to it.\<close>

theorem History_Contains_iff:
  assumes "history_repr H hs acc" "chain_heights hs"
    "inj_on H (set (history_preimages H hs @ index_preimages H index p))"
  shows "HistoryAccumulator_Contains H acc index p \<longleftrightarrow>
    unat (ci_Height index) < length hs \<and> hs ! unat (ci_Height index) = index
    \<and> p = history_proof H hs (unat (ci_Height index))"
  using Contains_complete [OF assms(1,2)] Contains_sound [OF assms] by metis

theorem History_Contains_iff_witness:
  "HistoryAccumulator_Contains sample_hash
     \<lparr>acc_Trees = historyLeafHash sample_hash (sample_index 0) # replicate 63 0, acc_NumLeaves = 1\<rparr> (sample_index 0) []"
proof -
  have r: "history_repr sample_hash [sample_index 0]
      \<lparr>acc_Trees = historyLeafHash sample_hash (sample_index 0) # replicate 63 0, acc_NumLeaves = 1\<rparr>"
    by (simp add: history_repr_def represents_def one_div_pow_odd history_hash_def)
  have c: "chain_heights [sample_index 0]" by (simp add: chain_heights_def sample_index_def)
  have "inj_on sample_hash (set (history_preimages sample_hash [sample_index 0] @ index_preimages sample_hash (sample_index 0) []))"
    by (simp add: history_preimages_def index_preimages_def forest_preimages_single)
  from History_Contains_iff [OF r c this] show ?thesis
    by (simp add: sample_index_def history_proof_def proof_of_def)
qed

end
