(* ===== verification/Consensus_State.thy ===== *)
theory Consensus_State
  imports Encoding Work Accumulator_History
begin

text \<open>
  consensus/state.go: the consensus state after a block, its encoding, the network parameters and
  the two hashes that bind it, the block commitment and the signature hash of a transaction. The
  lemmas: the encoding is a codec, the block reward, and what a commitment determines.
\<close>

section \<open>The state\<close>

record chain_state =
  cs_Index :: chain_index
  cs_Elements :: accumulator
  cs_History :: accumulator
  cs_TotalWork :: work
  cs_Difficulty :: work
  cs_LastAdjust :: gotime
  cs_PrevTimestamps :: "gotime list"

definition Work_EncodeTo :: "work \<Rightarrow> byte list" where
  "Work_EncodeTo w = array_bytes 32 (NumHashes w)"

definition Work_DecodeFrom :: "work dec" where
  "Work_DecodeFrom = do { b \<leftarrow> ReadArray 32; State_Monad.return \<lparr>NumHashes = array_word b\<rparr> }"

definition State_EncodeTo :: "chain_state \<Rightarrow> byte list" where
  "State_EncodeTo s =
     ChainIndex_EncodeTo (cs_Index s) @ Accumulator_EncodeTo (cs_Elements s)
     @ Accumulator_EncodeTo (cs_History s) @ Work_EncodeTo (cs_TotalWork s)
     @ Work_EncodeTo (cs_Difficulty s) @ WriteTime (cs_LastAdjust s)
     @ concat (map WriteTime (cs_PrevTimestamps s))"

definition State_DecodeFrom :: "chain_state dec" where
  "State_DecodeFrom = do {
     i \<leftarrow> ChainIndex_DecodeFrom;
     e \<leftarrow> Accumulator_DecodeFrom;
     h \<leftarrow> Accumulator_DecodeFrom;
     t \<leftarrow> Work_DecodeFrom;
     d \<leftarrow> Work_DecodeFrom;
     l \<leftarrow> ReadTime;
     ps \<leftarrow> ReadMany 11 ReadTime;
     State_Monad.return \<lparr>cs_Index = i, cs_Elements = e, cs_History = h, cs_TotalWork = t,
       cs_Difficulty = d, cs_LastAdjust = l, cs_PrevTimestamps = ps\<rparr>
   }"

section \<open>Parameters of the chain\<close>

definition numTimestamps :: "chain_state \<Rightarrow> nat" where
  "numTimestamps s =
     (if ci_Height (cs_Index s) + 1 < word_of_nat (length (cs_PrevTimestamps s))
      then unat (ci_Height (cs_Index s) + 1) else length (cs_PrevTimestamps s))"

text \<open>A \<open>time.Duration\<close> counts nanoseconds.\<close>

definition BlockInterval :: "chain_state \<Rightarrow> int" where
  "BlockInterval s = 10 * 60 * 1000000000"

definition DifficultyAdjustmentInterval :: "chain_state \<Rightarrow> u64" where
  "DifficultyAdjustmentInterval s = 2016"

text \<open>\<open>None\<close> is the panic of \<open>Mul64\<close>, which \<open>BlockReward_Some\<close> excludes.\<close>

definition BlockReward :: "chain_state \<Rightarrow> currency option" where
  "BlockReward s = do {
     r \<leftarrow> Currency_Mul64 BaseUnitsPerCoin 50;
     let n = (ci_Height (cs_Index s) + 1) div 210000
     in Some (NewCurrency (drop_bit (unat n) (Lo r) OR push_bit (unat (64 - n)) (Hi r)) (drop_bit (unat n) (Hi r)))
   }"

definition State_MaturityHeight :: "chain_state \<Rightarrow> u64" where
  "State_MaturityHeight s = ci_Height (cs_Index s) + 1 + 144"

definition MaxBlockWeight :: "chain_state \<Rightarrow> u64" where
  "MaxBlockWeight s = 1000000"

definition TransactionWeight :: "chain_state \<Rightarrow> transaction \<Rightarrow> u64" where
  "TransactionWeight s txn = word_of_nat (4 * length (tx_Inputs txn) + length (tx_Outputs txn))"

fun BlockWeight_loop :: "chain_state \<Rightarrow> transaction list \<Rightarrow> u64 \<Rightarrow> u64" where
  "BlockWeight_loop s [] weight = weight"
| "BlockWeight_loop s (txn # txns) weight = BlockWeight_loop s txns (weight + TransactionWeight s txn)"

definition BlockWeight :: "chain_state \<Rightarrow> transaction list \<Rightarrow> u64" where
  "BlockWeight s txns = BlockWeight_loop s txns 0"

section \<open>Commitment and signature hash\<close>

definition txns_preimage :: "hashfn \<Rightarrow> transaction list \<Rightarrow> byte list" where
  "txns_preimage H txns =
     WritePrefix (length txns) @ concat (map (\<lambda>txn. TransactionID_EncodeTo (Transaction_ID H txn)) txns)"

definition commitment_preimage :: "hashfn \<Rightarrow> chain_state \<Rightarrow> address \<Rightarrow> transaction list \<Rightarrow> byte list" where
  "commitment_preimage H s minerAddr txns =
     WriteString ''sunyata/commitment'' @ Hash256_EncodeTo (H (State_EncodeTo s))
     @ Address_EncodeTo minerAddr @ Hash256_EncodeTo (H (txns_preimage H txns))"

definition Commitment :: "hashfn \<Rightarrow> chain_state \<Rightarrow> address \<Rightarrow> transaction list \<Rightarrow> hash256" where
  "Commitment H s minerAddr txns = H (commitment_preimage H s minerAddr txns)"

definition InputSigHash :: "hashfn \<Rightarrow> chain_state \<Rightarrow> transaction \<Rightarrow> hash256" where
  "InputSigHash H s txn = H (txn_effects ''sunyata/sig/transactioninput'' txn)"

record checkpoint =
  cp_Block :: block
  cp_State :: chain_state

section \<open>The encoding of the state\<close>

text \<open>An accumulator of the program: 64 tree slots, the unused ones zero.\<close>

definition acc_ok :: "accumulator \<Rightarrow> bool" where
  "acc_ok acc \<longleftrightarrow> length (acc_Trees acc) = 64 \<and> (\<forall>i<64. \<not> hasTreeAtHeight acc i \<longrightarrow> acc_Trees acc ! i = 0)"

lemma decodes_readTrees:
  assumes "acc_NumLeaves acc' = acc_NumLeaves acc"
    "\<And>i. i \<in> set is \<Longrightarrow> \<not> hasTreeAtHeight acc i \<Longrightarrow> acc_Trees acc ! i = 0"
  shows "decodes k (Accumulator_readTrees acc' is)
    (concat (map (\<lambda>i. if hasTreeAtHeight acc i then Hash256_EncodeTo (acc_Trees acc ! i) else []) is))
    (map (\<lambda>i. acc_Trees acc ! i) is)"
  using assms(2)
proof (induction "is")
  case (Cons i "is")
  have has: "hasTreeAtHeight acc' i \<longleftrightarrow> hasTreeAtHeight acc i" by (simp add: hasTreeAtHeight_def assms(1))
  note ih = Cons.IH [OF Cons.prems [OF list.set_intros(2)]]
  show ?case
  proof (cases "hasTreeAtHeight acc i")
    case True
    then show ?thesis using has by (auto intro!: decodes_bind [OF hash256.dec_enc_k] decodes_last [OF ih])
  next
    case False
    then show ?thesis using has Cons.prems [of i] by (auto intro!: decodes_last [OF ih])
  qed
qed auto

interpretation accumulator: codec Accumulator_EncodeTo Accumulator_DecodeFrom acc_ok
proof
  fix acc :: accumulator assume ok: "acc_ok acc"
  then have len: "length (acc_Trees acc) = 64" by (simp add: acc_ok_def)
  have "enumerate 0 (acc_Trees acc) = map (\<lambda>i. (i, acc_Trees acc ! i)) [0..<64]"
    by (rule nth_equalityI) (simp_all add: len nth_enumerate_eq)
  then have e: "concat (map (\<lambda>(i, root). if hasTreeAtHeight acc i then Hash256_EncodeTo root else []) (enumerate 0 (acc_Trees acc)))
    = concat (map (\<lambda>i. if hasTreeAtHeight acc i then Hash256_EncodeTo (acc_Trees acc ! i) else []) [0..<64])"
    by (simp add: comp_def del: upt_Suc)
  have t: "map (\<lambda>i. acc_Trees acc ! i) [0..<64] = acc_Trees acc"
    by (rule nth_equalityI) (simp_all add: len)
  have "decodes 0 (Accumulator_readTrees \<lparr>acc_Trees = replicate 64 0, acc_NumLeaves = acc_NumLeaves acc\<rparr> [0..<64])
    (concat (map (\<lambda>i. if hasTreeAtHeight acc i then Hash256_EncodeTo (acc_Trees acc ! i) else []) [0..<64]))
    (map (\<lambda>i. acc_Trees acc ! i) [0..<64])"
    using ok by (intro decodes_readTrees) (simp_all add: acc_ok_def)
  then show "decodes 0 Accumulator_DecodeFrom (Accumulator_EncodeTo acc) acc"
    unfolding Accumulator_EncodeTo_def Accumulator_DecodeFrom_def e t
    by (intro decodes_bind [OF decodes_ReadUint64] decodes_last) (simp_all, cases acc, simp)
qed

interpretation work_c: codec Work_EncodeTo Work_DecodeFrom "\<lambda>_. True"
  by unfold_locales
    (auto simp: Work_EncodeTo_def Work_DecodeFrom_def array_word_bytes intro!: decodes_last [OF decodes_ReadArray])

definition state_ok :: "chain_state \<Rightarrow> bool" where
  "state_ok s \<longleftrightarrow> acc_ok (cs_Elements s) \<and> acc_ok (cs_History s) \<and> time_ok (cs_LastAdjust s)
     \<and> length (cs_PrevTimestamps s) = 11 \<and> list_all time_ok (cs_PrevTimestamps s)"

interpretation state: codec State_EncodeTo State_DecodeFrom state_ok
proof
  fix s :: chain_state assume ok: "state_ok s"
  have ts: "decodes k (ReadMany 11 ReadTime) (concat (map WriteTime (cs_PrevTimestamps s))) (cs_PrevTimestamps s)" for k
    using time.dec_many [of "cs_PrevTimestamps s" k] ok by (simp add: state_ok_def list_all_iff)
  show "decodes 0 State_DecodeFrom (State_EncodeTo s) s"
    unfolding State_EncodeTo_def State_DecodeFrom_def using ok
    by (intro decodes_bind [OF chain_index.dec_enc_k] decodes_bind [OF accumulator.dec_enc_k]
        decodes_bind [OF work_c.dec_enc_k] decodes_bind [OF time.dec_enc_k] decodes_last [OF ts])
      (simp_all add: state_ok_def)
qed

section \<open>What the hashes determine\<close>

text \<open>The part of a transaction that its ID and its signature hash cover.\<close>

definition txn_core :: "transaction \<Rightarrow> element_id list \<times> txn_output list \<times> currency" where
  "txn_core txn = (map (\<lambda>i. se_ID (oe_SE (in_Parent i))) (tx_Inputs txn), tx_Outputs txn, tx_MinerFee txn)"

definition parent_ids :: "transaction \<Rightarrow> element_id list" where
  "parent_ids txn = map (\<lambda>i. se_ID (oe_SE (in_Parent i))) (tx_Inputs txn)"

lemma txn_effects_eq:
  "txn_effects tag t = WriteString tag @ WritePrefix (length (parent_ids t)) @ concat (map ElementID_EncodeTo (parent_ids t))
     @ WritePrefix (length (tx_Outputs t)) @ concat (map Output_EncodeTo (tx_Outputs t)) @ Currency_EncodeTo (tx_MinerFee t)"
  by (simp add: txn_effects_def parent_ids_def comp_def)

lemma txn_effects_inj:
  assumes "len_ok (tx_Inputs a)" "len_ok (tx_Outputs a)" "len_ok (tx_Inputs b)" "len_ok (tx_Outputs b)"
  shows "txn_effects tag a = txn_effects tag b \<longleftrightarrow> txn_core a = txn_core b"
proof
  assume "txn_core a = txn_core b"
  then show "txn_effects tag a = txn_effects tag b"
    by (simp only: txn_core_def txn_effects_eq parent_ids_def [symmetric] prod.inject)
next
  have len: "length (parent_ids a) < 2 ^ 64" "length (parent_ids b) < 2 ^ 64"
    "length (tx_Outputs a) < 2 ^ 64" "length (tx_Outputs b) < 2 ^ 64"
    using assms by (simp_all add: parent_ids_def len_ok_def del: power_numeral)
  assume "txn_effects tag a = txn_effects tag b"
  note e = this [unfolded txn_effects_eq same_append_eq]
  have 1: "parent_ids a = parent_ids b \<and>
      WritePrefix (length (tx_Outputs a)) @ concat (map Output_EncodeTo (tx_Outputs a)) @ Currency_EncodeTo (tx_MinerFee a)
    = WritePrefix (length (tx_Outputs b)) @ concat (map Output_EncodeTo (tx_Outputs b)) @ Currency_EncodeTo (tx_MinerFee b)"
    by (rule element_id.counted_prefix_free [OF _ _ len(1,2) e]) simp_all
  have "tx_Outputs a = tx_Outputs b \<and> Currency_EncodeTo (tx_MinerFee a) = Currency_EncodeTo (tx_MinerFee b)"
    by (rule txn_output.counted_prefix_free [OF _ _ len(3,4) conjunct2 [OF 1]]) simp_all
  then show "txn_core a = txn_core b"
    using 1 by (simp add: txn_core_def parent_ids_def currency.enc_inj)
qed

definition txns_ok :: "transaction list \<Rightarrow> bool" where
  "txns_ok txns \<longleftrightarrow> len_ok txns \<and> list_all (\<lambda>t. len_ok (tx_Inputs t) \<and> len_ok (tx_Outputs t)) txns"

text \<open>Everything that is hashed for a commitment.\<close>

definition commitment_preimages :: "hashfn \<Rightarrow> chain_state \<Rightarrow> address \<Rightarrow> transaction list \<Rightarrow> byte list list" where
  "commitment_preimages H s a txns =
     [commitment_preimage H s a txns, State_EncodeTo s, txns_preimage H txns]
     @ map (txn_effects ''sunyata/id/transaction'') txns"

lemma txns_preimage_inj:
  assumes "len_ok xs" "len_ok ys" "txns_preimage H xs = txns_preimage H ys"
  shows "map (Transaction_ID H) xs = map (Transaction_ID H) ys"
proof -
  have e: "txns_preimage H xs = WritePrefix (length (map (Transaction_ID H) xs))
      @ concat (map TransactionID_EncodeTo (map (Transaction_ID H) xs)) @ []" for xs
    by (simp add: txns_preimage_def comp_def)
  have len: "length (map (Transaction_ID H) xs) < 2 ^ 64" "length (map (Transaction_ID H) ys) < 2 ^ 64"
    using assms(1,2) by (simp_all only: length_map len_ok_def)
  show ?thesis
    by (rule conjunct1 [OF transaction_id.counted_prefix_free [OF _ _ len assms(3) [unfolded e]]]) simp_all
qed

lemma Commitment_binds:
  assumes inj: "inj_on H (set (commitment_preimages H s a txns @ commitment_preimages H s' a' txns'))"
    and ok: "state_ok s" "state_ok s'" "txns_ok txns" "txns_ok txns'"
    and eq: "Commitment H s a txns = Commitment H s' a' txns'"
  shows "s = s' \<and> a = a' \<and> map txn_core txns = map txn_core txns'"
proof -
  note D = inj_onD [OF inj]
  have "commitment_preimage H s a txns = commitment_preimage H s' a' txns'"
    using eq by (intro D) (simp_all add: Commitment_def commitment_preimages_def)
  then have "Hash256_EncodeTo (H (State_EncodeTo s)) @ Address_EncodeTo a @ Hash256_EncodeTo (H (txns_preimage H txns))
    = Hash256_EncodeTo (H (State_EncodeTo s')) @ Address_EncodeTo a' @ Hash256_EncodeTo (H (txns_preimage H txns'))"
    by (simp add: commitment_preimage_def)
  then have h: "H (State_EncodeTo s) = H (State_EncodeTo s')" and a: "a = a'"
    and t: "H (txns_preimage H txns) = H (txns_preimage H txns')"
    by (auto dest!: hash256.prefix_free [OF TrueI TrueI] address_c.prefix_free [OF TrueI TrueI] simp: hash256.enc_inj)
  have "State_EncodeTo s = State_EncodeTo s'" using h by (intro D) (simp_all add: commitment_preimages_def)
  then have s: "s = s'" using ok(1,2) by (simp add: state.enc_inj)
  have "txns_preimage H txns = txns_preimage H txns'" using t by (intro D) (simp_all add: commitment_preimages_def)
  then have ids: "map (Transaction_ID H) txns = map (Transaction_ID H) txns'"
    using ok(3,4) by (intro txns_preimage_inj) (simp_all add: txns_ok_def)
  have "map txn_core txns = map txn_core txns'"
  proof (rule nth_equalityI)
    show len: "length (map txn_core txns) = length (map txn_core txns')"
      using arg_cong [where f = length, OF ids] by simp
    fix i assume i: "i < length (map txn_core txns)"
    then have m: "txns ! i \<in> set txns" "txns' ! i \<in> set txns'" using len by simp_all
    have "Transaction_ID H (txns ! i) = Transaction_ID H (txns' ! i)"
      using arg_cong [where f = "\<lambda>xs. xs ! i", OF ids] i len by simp
    then have "txn_effects ''sunyata/id/transaction'' (txns ! i) = txn_effects ''sunyata/id/transaction'' (txns' ! i)"
      using m by (intro D) (auto simp: Transaction_ID_def commitment_preimages_def)
    then show "map txn_core txns ! i = map txn_core txns' ! i"
      using m ok(3,4) i len by (simp add: txn_effects_inj txns_ok_def list_all_iff)
  qed
  then show ?thesis using s a by simp
qed

section \<open>The block reward\<close>

definition reward_nat :: "nat \<Rightarrow> nat" where
  "reward_nat height = 50 * 10 ^ 9 div 2 ^ (height div 210000)"

lemma BlockReward_nat:
  "\<exists>c. BlockReward s = Some c \<and> cur_nat c = reward_nat (unat (ci_Height (cs_Index s) + 1))"
proof -
  have r: "Currency_Mul64 BaseUnitsPerCoin 50 = Some \<lparr>Lo = 50000000000, Hi = 0\<rparr>"
    by (simp add: Currency_Mul64_def BaseUnitsPerCoin_def NewCurrency64_def bits_Mul64_def bits_Add64_def)
  let ?h = "ci_Height (cs_Index s) + 1"
  have n: "unat (?h div 210000) = unat ?h div 210000" by (simp add: unat_div)
  have "unat (drop_bit k (50000000000::u64)) = 50000000000 div 2 ^ k" for k
    by (simp only: unat_drop_bit64) simp
  then show ?thesis by (simp add: BlockReward_def r NewCurrency_def cur_nat_def reward_nat_def Let_def n)
qed

section \<open>Properties\<close>


text \<open>The zero \<open>time.Time\<close> is the first of January of year 1.\<close>

definition zero_time :: gotime where
  "zero_time = - unix_to_internal * 1000000000"

definition genesis_state :: "gotime \<Rightarrow> work \<Rightarrow> chain_state" where
  "genesis_state t initialDifficulty =
     \<lparr>cs_Index = \<lparr>ci_Height = 0, ci_ID = 0\<rparr>, cs_Elements = empty_accumulator, cs_History = empty_accumulator,
      cs_TotalWork = \<lparr>NumHashes = 0\<rparr>, cs_Difficulty = initialDifficulty, cs_LastAdjust = t,
      cs_PrevTimestamps = replicate 11 zero_time\<rparr>"

lemma time_ok_zero [simp]: "time_ok zero_time" "time_ok 0"
  by (simp_all add: time_ok_def zero_time_def unix_to_internal_def time_Unix_def Time_Unix_def)

lemma genesis_state_ok: "time_ok t \<Longrightarrow> state_ok (genesis_state t w)"
  by (simp add: state_ok_def genesis_state_def acc_ok_def empty_accumulator_def hasTreeAtHeight_def list_all_iff)

lemma length_genesis_state: "length (State_EncodeTo (genesis_state t w)) = 216"
proof -
  have "length (Accumulator_EncodeTo empty_accumulator) = 8"
    by (simp add: Accumulator_EncodeTo_def empty_accumulator_def hasTreeAtHeight_def case_prod_unfold length_concat comp_def)
  then show ?thesis
    by (simp add: State_EncodeTo_def genesis_state_def ChainIndex_EncodeTo_def BlockID_EncodeTo_def
        Work_EncodeTo_def WriteTime_def length_concat sum_list_replicate)
qed


text \<open>The block reward never panics and is 50 coins of \<open>10^9\<close> base units, halved (rounding down) every
  210000 blocks, at every height of the child block.\<close>

theorem BlockReward_halves:
  "\<exists>c. BlockReward s = Some c
     \<and> cur_nat c = 50 * 10 ^ 9 div 2 ^ (unat (ci_Height (cs_Index s) + 1) div 210000)"
  using BlockReward_nat [of s] by (simp add: reward_nat_def)

text \<open>Decoding undoes encoding for consensus states: from a stream that starts with the encoding of a state
  the decoder reads exactly that encoding, without error, and returns the state.\<close>

theorem State_roundtrip:
  assumes "state_ok s" "length (State_EncodeTo s @ rest) \<le> n"
  shows "\<exists>d. run_state State_DecodeFrom (NewDecoder (State_EncodeTo s @ rest) n) = (s, d)
    \<and> dc_err d = None \<and> dc_R d = rest \<and> dc_N d = n - length (State_EncodeTo s)"
  using state.roundtrip [OF assms] .

theorem State_roundtrip_witness:
  "\<exists>d. run_state State_DecodeFrom (NewDecoder (State_EncodeTo (genesis_state 0 \<lparr>NumHashes = 4\<rparr>) @ [1, 2]) 300)
     = (genesis_state 0 \<lparr>NumHashes = 4\<rparr>, d) \<and> dc_err d = None \<and> dc_R d = [1, 2]"
  using State_roundtrip [OF genesis_state_ok, of 0 "\<lparr>NumHashes = 4\<rparr>" "[1, 2]" 300]
    length_genesis_state [of 0 "\<lparr>NumHashes = 4\<rparr>"] by auto

end
