(* ===== verification/Data_Properties.thy ===== *)
theory Data_Properties
  imports Currency_Text Work Consensus_State
begin

text \<open>
  What currency.go, encoding.go, sunyata.go and the Work type of sunyata.go promise: exact arithmetic, texts and
  encodings that are read back, decoders that stay within their limit, and identifiers that bind what they
  name.
\<close>

section \<open>Decoders on arbitrary input\<close>

text \<open>
  \<open>tame m\<close>: on any stream \<open>m\<close> never raises the limit, takes from the stream what it takes from the limit, and
  once an error is set it reads nothing and leaves the decoder, its error included, as it is.
\<close>

definition consumed :: "decoder \<Rightarrow> decoder \<Rightarrow> bool" where
  "consumed d d' \<longleftrightarrow> dc_N d' \<le> dc_N d \<and> dc_R d' = drop (dc_N d - dc_N d') (dc_R d)"

lemma consumed_refl [simp]: "consumed d d"
  by (simp add: consumed_def)

lemma consumed_trans: "consumed d d1 \<Longrightarrow> consumed d1 d2 \<Longrightarrow> consumed d d2"
  by (simp add: consumed_def)

definition tame :: "'a dec \<Rightarrow> bool" where
  "tame m \<longleftrightarrow> (\<forall>d. consumed d (snd (run_state m d)) \<and> (dc_err d = None \<or> snd (run_state m d) = d))"

named_theorems tame

lemma tame_return [tame]: "tame (State_Monad.return x)"
  by (simp add: tame_def)

lemma tame_bind [tame]:
  assumes "tame m" "\<And>x. tame (f x)"
  shows "tame (State_Monad.bind m f)"
  unfolding tame_def
proof (intro allI conjI)
  fix d
  obtain x d1 where m: "run_state m d = (x, d1)" by fastforce
  have a: "consumed d d1" "dc_err d = None \<or> d1 = d"
    using assms(1) m unfolding tame_def by (metis snd_conv)+
  have b: "consumed d1 (snd (run_state (f x) d1))" "dc_err d1 = None \<or> snd (run_state (f x) d1) = d1"
    using assms(2) [of x] unfolding tame_def by blast+
  show "consumed d (snd (run_state (State_Monad.bind m f) d))" using consumed_trans [OF a(1) b(1)] m by simp
  show "dc_err d = None \<or> snd (run_state (State_Monad.bind m f) d) = d" using a b m by auto
qed

lemma tame_SetErr [tame]: "tame (Decoder_SetErr e)"
  by (simp add: tame_def Decoder_SetErr_def consumed_def)

lemma tame_get [tame]: "tame State_Monad.get"
  by (simp add: tame_def State_Monad.get_def)

lemma tame_if [tame]: "tame m \<Longrightarrow> tame n \<Longrightarrow> tame (if c then m else n)"
  by simp

lemma read_full_consumed: "read_full n d = (xs, d') \<Longrightarrow> consumed d d'"
  by (auto simp: read_full_def Let_def consumed_def min_def)

lemma tame_ReadBuf [tame]: "tame (ReadBuf n)"
  by (auto simp: tame_def ReadBuf_def Let_def read_full_consumed [OF surjective_pairing])

lemma Decoder_Read_limit:
  "consumed d (snd (Decoder_Read n d)) \<and> (dc_err d = None \<or> snd (Decoder_Read n d) = d)"
proof (induction n d rule: Decoder_Read.induct)
  case (1 n d)
  show ?case
  proof (cases "0 < n \<and> dc_err d = None")
    case True
    obtain got d1 where r: "read_full (min n 64) d = (got, d1)" by fastforce
    have "consumed d1 (snd (Decoder_Read (n - min n 64) d1))"
      using 1 [OF True refl r [symmetric] refl] by simp
    from consumed_trans [OF read_full_consumed [OF r] this] show ?thesis using True r
      unfolding Decoder_Read.simps [of n d] by (simp add: Let_def case_prod_unfold)
  next
    case False
    then have "Decoder_Read n d = ([], d)" by (simp only: Decoder_Read.simps [of n d] if_False)
    then show ?thesis by simp
  qed
qed

lemma tame_ReadArray [tame]: "tame (ReadArray n)"
  using Decoder_Read_limit [where n = n] by (simp add: tame_def ReadArray_def case_prod_unfold Let_def)

lemma tame_ReadMany [tame]: "tame m \<Longrightarrow> tame (ReadMany n m)"
  by (induction n) (simp_all add: tame_return tame_bind)

lemmas reader_defs = ReadBool_def ReadUint8_def ReadUint64_def ReadPrefix_def ReadBytes_def ReadTime_def
  Hash256_DecodeFrom_def BlockID_DecodeFrom_def TransactionID_DecodeFrom_def Address_DecodeFrom_def
  PublicKey_DecodeFrom_def Signature_DecodeFrom_def Currency_DecodeFrom_def ElementID_DecodeFrom_def
  Output_DecodeFrom_def readMerkleProof_def StateElement_DecodeFrom_def OutputElement_DecodeFrom_def
  Input_DecodeFrom_def Transaction_DecodeFrom_def

lemma tame_Transaction: "tame Transaction_DecodeFrom" "tame Input_DecodeFrom" "tame Output_DecodeFrom" "tame Currency_DecodeFrom"
  unfolding reader_defs by (intro tame)+

text \<open>A length prefix is at most what the limit still allows.\<close>

lemma ReadPrefix_bound: "run_state ReadPrefix d = (n, d') \<Longrightarrow> n \<le> dc_N d'"
  unfolding ReadPrefix_def
  by (auto simp: State_Monad.get_def Decoder_SetErr_def State_Monad.return_def split: prod.splits if_splits)

lemma length_ReadMany: "length (fst (run_state (ReadMany n m) d)) = n"
  by (induction n arbitrary: d) (simp_all add: case_prod_unfold)

lemma tame_consumed: "tame m \<Longrightarrow> run_state m d = (x, d') \<Longrightarrow> consumed d d'"
  unfolding tame_def by (metis snd_conv)

lemma tame_limit: "tame m \<Longrightarrow> run_state m d = (x, d') \<Longrightarrow> dc_N d' \<le> dc_N d"
  using tame_consumed [of m d x d'] by (simp add: consumed_def)

lemma tame_stuck: "tame m \<Longrightarrow> dc_err d \<noteq> None \<Longrightarrow> snd (run_state m d) = d"
  unfolding tame_def by metis

lemma read_list_bound:
  assumes "run_state (do { n \<leftarrow> ReadPrefix; ReadMany n m }) d = (xs, d')"
  shows "length xs \<le> dc_N d"
proof -
  obtain n d1 where p: "run_state ReadPrefix d = (n, d1)" by fastforce
  have "run_state (ReadMany n m) d1 = (xs, d')" using assms p by simp
  then have "length xs = n" using length_ReadMany [of n m d1] by simp
  moreover have "n \<le> dc_N d1" by (rule ReadPrefix_bound [OF p])
  moreover have "tame ReadPrefix" unfolding reader_defs by (intro tame)
  from tame_limit [OF this p] have "dc_N d1 \<le> dc_N d" .
  ultimately show ?thesis by simp
qed

lemma Transaction_bounds:
  assumes "run_state Transaction_DecodeFrom d = (txn, d')"
  shows "length (tx_Inputs txn) \<le> dc_N d \<and> length (tx_Outputs txn) \<le> dc_N d"
proof -
  obtain v d1 where v: "run_state ReadUint8 d = (v, d1)" by fastforce
  have t: "tame ReadUint8" "tame (do { n \<leftarrow> ReadPrefix; ReadMany n Input_DecodeFrom })"
    unfolding reader_defs by (intro tame)+
  have n1: "dc_N d1 \<le> dc_N d" by (rule tame_limit [OF t(1) v])
  show ?thesis
  proof (cases "v = 1")
    case True
    obtain xs d2 where x: "run_state (do { n \<leftarrow> ReadPrefix; ReadMany n Input_DecodeFrom }) d1 = (xs, d2)" by fastforce
    obtain ys d3 where y: "run_state (do { n \<leftarrow> ReadPrefix; ReadMany n Output_DecodeFrom }) d2 = (ys, d3)" by fastforce
    have "tx_Inputs txn = xs \<and> tx_Outputs txn = ys"
      using assms v x y True unfolding Transaction_DecodeFrom_def
      by (auto simp: State_Monad.return_def split: prod.splits)
    moreover have "dc_N d2 \<le> dc_N d1" by (rule tame_limit [OF t(2) x])
    ultimately show ?thesis using read_list_bound [OF x] read_list_bound [OF y] n1 by simp
  next
    case False
    then have "txn = zero_transaction"
      using assms v unfolding Transaction_DecodeFrom_def
      by (auto simp: State_Monad.return_def split: prod.splits)
    then show ?thesis by (simp add: zero_transaction_def)
  qed
qed

section \<open>Properties\<close>

text \<open>C39. Currency addition, subtraction and multiplication by a 64-bit number are exact on the 128-bit numbers the
  values stand for; they panic exactly when the result is negative or does not fit in 128 bits.\<close>

theorem Currency_arithmetic:
  "(case Currency_Add c v of Some s \<Rightarrow> cur_nat s = cur_nat c + cur_nat v | None \<Rightarrow> 2 ^ 128 \<le> cur_nat c + cur_nat v)
   \<and> (case Currency_Sub c v of Some d \<Rightarrow> cur_nat c = cur_nat d + cur_nat v | None \<Rightarrow> cur_nat c < cur_nat v)
   \<and> (case Currency_Mul64 c w of Some p \<Rightarrow> cur_nat p = cur_nat c * unat w | None \<Rightarrow> 2 ^ 128 \<le> cur_nat c * unat w)"
proof (intro conjI)
  show "case Currency_Add c v of Some s \<Rightarrow> cur_nat s = cur_nat c + cur_nat v | None \<Rightarrow> 2 ^ 128 \<le> cur_nat c + cur_nat v"
    using Currency_Add_nat [of c v] Currency_Add_None [of c v] by (auto split: option.splits)
  show "case Currency_Sub c v of Some d \<Rightarrow> cur_nat c = cur_nat d + cur_nat v | None \<Rightarrow> cur_nat c < cur_nat v"
    using Currency_Sub_nat [of c v] Currency_Sub_total [of v c] by (fastforce split: option.splits)
  show "case Currency_Mul64 c w of Some p \<Rightarrow> cur_nat p = cur_nat c * unat w | None \<Rightarrow> 2 ^ 128 \<le> cur_nat c * unat w"
  proof (cases "cur_nat c * unat w < 2 ^ 128")
    case True
    then show ?thesis using Currency_Mul64_total [of c w] by auto
  next
    case False
    then show ?thesis by (simp add: Currency_Mul64_nat)
  qed
qed

text \<open>The 128-bit division of \<open>quoRem\<close>, with its trial quotient and single correction step, gives the exact
  quotient and remainder for every non-zero divisor, and never panics on one.\<close>

theorem Currency_division:
  assumes "cur_nat v \<noteq> 0"
  shows "\<exists>q r. Currency_quoRem c v = Some (q, r)
    \<and> cur_nat q = cur_nat c div cur_nat v \<and> cur_nat r = cur_nat c mod cur_nat v"
  using quoRem_nat [OF assms] .

theorem Currency_division_witness:
  "\<exists>q r. Currency_quoRem \<lparr>Lo = 5, Hi = 7\<rparr> \<lparr>Lo = 1, Hi = 2\<rparr> = Some (q, r) \<and> cur_nat q = 3"
  using Currency_division [of "\<lparr>Lo = 1, Hi = 2\<rparr>" "\<lparr>Lo = 5, Hi = 7\<rparr>"] by (auto simp: cur_nat_def)

text \<open>The exact text of a value is its decimal numeral without padding (\<open>ExactString\<close> never panics), JSON
  encoding and decoding are inverse, and the parser accepts the numeral of a number exactly when it fits in 128
  bits.\<close>

theorem Currency_text:
  "Currency_ExactString c = Some (digits10 (cur_nat c))
   \<and> (\<exists>s. Currency_MarshalJSON c = Some s \<and> Currency_UnmarshalJSON s = Inr c)
   \<and> (case parseExactCurrency (digits10 n) of
        Inr v \<Rightarrow> cur_nat v = n | Inl e \<Rightarrow> e = OverflowsCurrency \<and> 2 ^ 128 \<le> n)"
proof (intro conjI)
  have num: "case parseExactCurrency (digits10 m) of
      Inr v \<Rightarrow> cur_nat v = m | Inl e \<Rightarrow> e = OverflowsCurrency \<and> 2 ^ 128 \<le> m" for m
    using cur_nat_split [of m] by (cases "m < 2 ^ 128") (simp_all only: parseExact_digits10 if_True if_False sum.case not_less, simp_all)
  then show "case parseExactCurrency (digits10 n) of
      Inr v \<Rightarrow> cur_nat v = n | Inl e \<Rightarrow> e = OverflowsCurrency \<and> 2 ^ 128 \<le> n" .
  show "Currency_ExactString c = Some (digits10 (cur_nat c))" by (rule ExactString_digits)
  have "parseExactCurrency (digits10 (cur_nat c)) = Inr c"
    using num [of "cur_nat c"] cur_nat_lt [of c] by (auto simp: cur_nat_inj split: sum.splits)
  then show "\<exists>s. Currency_MarshalJSON c = Some s \<and> Currency_UnmarshalJSON s = Inr c"
    using trim_digits [of "digits10 (cur_nat c)"] digits10_props [of "cur_nat c"]
    by (simp add: Currency_MarshalJSON_def Currency_UnmarshalJSON_def ExactString_digits)
qed

text \<open>The buffered encoder loses and reorders nothing: whatever the sizes of the chunks written, after a flush
  the underlying buffer holds their concatenation.\<close>

theorem Encoder_writes_all:
  "en_w (Encoder_Flush buffer_write (fold (Encoder_Write buffer_write) chunks (NewEncoder []))) = concat chunks"
  by (rule encode_buffer)

text \<open>Decoding undoes encoding for transactions: from a stream that starts with an encoded transaction the decoder
  reads exactly its bytes, without error, and returns the transaction.\<close>

theorem Transaction_roundtrip:
  assumes "txn_ok txn" "length (Transaction_EncodeTo txn @ rest) \<le> n"
  shows "\<exists>d. run_state Transaction_DecodeFrom (NewDecoder (Transaction_EncodeTo txn @ rest) n) = (txn, d)
    \<and> dc_err d = None \<and> dc_R d = rest \<and> dc_N d = n - length (Transaction_EncodeTo txn)"
  using txn.roundtrip [OF assms] .

theorem Transaction_roundtrip_witness:
  "\<exists>d. run_state Transaction_DecodeFrom (NewDecoder (Transaction_EncodeTo zero_transaction @ [9]) 100) = (zero_transaction, d)
     \<and> dc_err d = None \<and> dc_R d = [9]"
  using Transaction_roundtrip [of zero_transaction "[9]" 100]
  by (auto simp: txn_ok_def len_ok_def zero_transaction_def Transaction_EncodeTo_def Currency_EncodeTo_def)

text \<open>Decoding undoes encoding for block headers with a timestamp in whole seconds.\<close>

theorem BlockHeader_roundtrip:
  assumes "time_ok (bh_Timestamp h)" "length (BlockHeader_EncodeTo h @ rest) \<le> n"
  shows "\<exists>d. run_state BlockHeader_DecodeFrom (NewDecoder (BlockHeader_EncodeTo h @ rest) n) = (h, d)
    \<and> dc_err d = None \<and> dc_R d = rest \<and> dc_N d = n - length (BlockHeader_EncodeTo h)"
  using block_header.roundtrip [OF assms] .

theorem BlockHeader_roundtrip_witness:
  "\<exists>d. run_state BlockHeader_DecodeFrom (NewDecoder (BlockHeader_EncodeTo
       \<lparr>bh_Height = 1, bh_ParentID = 2, bh_Nonce = 3, bh_Timestamp = 0, bh_MinerAddress = 4, bh_Commitment = 5\<rparr> @ []) 200)
     = (\<lparr>bh_Height = 1, bh_ParentID = 2, bh_Nonce = 3, bh_Timestamp = 0, bh_MinerAddress = 4, bh_Commitment = 5\<rparr>, d)
     \<and> dc_err d = None"
  using BlockHeader_roundtrip [of "\<lparr>bh_Height = 1, bh_ParentID = 2, bh_Nonce = 3, bh_Timestamp = 0, bh_MinerAddress = 4, bh_Commitment = 5\<rparr>" "[]" 200]
  by (auto simp: BlockHeader_EncodeTo_def BlockID_EncodeTo_def WriteTime_def Address_EncodeTo_def Hash256_EncodeTo_def)

text \<open>Decoding a transaction from hostile bytes is bounded: whatever the stream holds, the lengths of the lists it
  builds are at most the limit of the decoder, the limit never grows, and a decoder whose error is already set
  reads nothing and keeps its first error.\<close>

theorem Transaction_decoding_bounded:
  "case run_state Transaction_DecodeFrom d of (txn, d') \<Rightarrow>
     length (tx_Inputs txn) \<le> dc_N d \<and> length (tx_Outputs txn) \<le> dc_N d \<and> dc_N d' \<le> dc_N d
     \<and> (dc_err d = None \<or> d' = d)"
proof -
  obtain txn d' where r: "run_state Transaction_DecodeFrom d = (txn, d')" by fastforce
  then show ?thesis using Transaction_bounds [OF r] tame_limit [OF tame_Transaction(1) r]
      tame_stuck [OF tame_Transaction(1), of d] by fastforce
qed

text \<open>A transaction ID binds what the transaction does: two transactions with the same ID spend elements with the
  same IDs, in the same order, and have the same outputs and fee, unless the hash collides on the two inputs it
  was given.\<close>

theorem Transaction_ID_binds:
  assumes "txns_ok [a, b]"
    "inj_on H {txn_effects ''sunyata/id/transaction'' a, txn_effects ''sunyata/id/transaction'' b}"
  shows "Transaction_ID H a = Transaction_ID H b \<longleftrightarrow> txn_core a = txn_core b"
proof -
  have "txn_effects ''sunyata/id/transaction'' a = txn_effects ''sunyata/id/transaction'' b \<longleftrightarrow> txn_core a = txn_core b"
    using assms(1) by (intro txn_effects_inj) (simp_all add: txns_ok_def)
  then show ?thesis using assms(2) by (auto simp: Transaction_ID_def dest: inj_onD)
qed

theorem Transaction_ID_binds_witness:
  "Transaction_ID sample_hash zero_transaction
     \<noteq> Transaction_ID sample_hash (zero_transaction\<lparr>tx_Outputs := [\<lparr>out_Value = ZeroCurrency, out_Address = 0\<rparr>]\<rparr>)"
proof -
  let ?b = "zero_transaction\<lparr>tx_Outputs := [\<lparr>out_Value = ZeroCurrency, out_Address = 0\<rparr>]\<rparr>"
  have "sample_hash (txn_effects ''sunyata/id/transaction'' zero_transaction) \<noteq> sample_hash (txn_effects ''sunyata/id/transaction'' ?b)"
    by (rule sample_hash_length)
      (simp add: txn_effects_def zero_transaction_def Output_EncodeTo_def Currency_EncodeTo_def Address_EncodeTo_def
        WriteString_def WriteBytes_def str_bytes_def)
  then have "inj_on sample_hash {txn_effects ''sunyata/id/transaction'' zero_transaction, txn_effects ''sunyata/id/transaction'' ?b}"
    by (auto simp: inj_on_def)
  from Transaction_ID_binds [OF _ this] show ?thesis
    by (simp add: txns_ok_def len_ok_def zero_transaction_def txn_core_def)
qed

text \<open>The four-limb arithmetic of \<open>Work\<close> is arithmetic modulo \<open>2^256\<close>, its division by a non-zero number is
  exact (by zero it panics), and its comparison is that of the numbers.\<close>

theorem Work_arithmetic:
  "NumHashes (Work_Add w v) = NumHashes w + NumHashes v
   \<and> NumHashes (Work_Sub w v) = NumHashes w - NumHashes v
   \<and> NumHashes (Work_Mul64 w m) = NumHashes w * ucast m
   \<and> (case Work_Div64 w m of Some q \<Rightarrow> work_nat q = work_nat w div unat m | None \<Rightarrow> m = 0)
   \<and> Work_Cmp w v = (if work_nat w < work_nat v then -1 else if work_nat w = work_nat v then 0 else 1)"
  using Work_Div64_nat [of m w] Work_Div64_zero
  by (cases "m = 0") (auto simp: Work_Add_word Work_Sub_word Work_Mul64_word Work_Cmp_nat)

text \<open>The target of a difficulty and the work of a hash fit together: a block ID meets the target that
  \<open>HashRequiringWork\<close> computes for an amount of work exactly when \<open>WorkRequiredForHash\<close> of the ID is at least
  that amount; so the target is the greatest hash that stands for the work.\<close>

theorem target_meets_work:
  assumes "NumHashes w \<noteq> 0" "x \<noteq> 0"
  shows "\<exists>t wx. HashRequiringWork w = Some t \<and> WorkRequiredForHash x = Some wx
    \<and> (BlockID_MeetsTarget x t \<longleftrightarrow> work_nat w \<le> work_nat wx)"
proof -
  obtain t wx where "HashRequiringWork w = Some t" "WorkRequiredForHash x = Some wx"
    using assms by (simp add: HashRequiringWork_eq WorkRequiredForHash_eq)
  then show ?thesis using MeetsTarget_iff [OF assms] by blast
qed

theorem target_meets_work_witness:
  "\<exists>t. HashRequiringWork \<lparr>NumHashes = 2\<rparr> = Some t \<and> BlockID_MeetsTarget 5 t"
proof -
  have "WorkRequiredForHash 5 = Some \<lparr>NumHashes = word_of_nat (inv256 5)\<rparr>" by (simp add: WorkRequiredForHash_eq)
  moreover have "2 \<le> inv256 5" by (simp add: inv256_def)
  then have "2 \<le> unat (word_of_nat (inv256 5) :: 256 word)" by (simp only: unat_of_nat256 [OF inv256_lt])
  ultimately show ?thesis using target_meets_work [of "\<lparr>NumHashes = 2\<rparr>" 5] by auto
qed

end
