(* ===== verification/Consensus_Validation.thy ===== *)
theory Consensus_Validation
  imports Consensus_State
begin

text \<open>
  consensus/validation.go: which headers, transactions, transaction sets and blocks are valid in a
  state. An outcome is \<open>None\<close> for a panic, \<open>Some (Inl e)\<close> for an error and \<open>Some (Inr ())\<close> for
  success. The signature scheme is a parameter \<open>verify\<close>.
\<close>

section \<open>Outcomes\<close>

datatype validation_error =
    ErrWrongHeight
  | ErrWrongParent
  | ErrInsufficientWork
  | ErrTimestampTooOld
  | ErrOverflow
  | ErrZeroOutput nat
  | ErrImmature nat u64
  | ErrUnbalanced currency currency
  | ErrDoubleSpend nat element_id
  | ErrNotInAccumulator nat element_id
  | ErrWrongPubkey nat
  | ErrInvalidSignature nat
  | ErrNoEphemeral nat element_id
  | ErrEphemeralValue nat element_id
  | ErrEphemeralAddress nat element_id
  | ErrDoubleSpentInSet nat element_id nat
  | ErrOverweight
  | ErrTransaction nat validation_error
  | ErrCommitment

type_synonym outcome = "(validation_error + unit) option"

abbreviation valid :: outcome where
  "valid \<equiv> Some (Inr ())"

abbreviation err :: "validation_error \<Rightarrow> outcome" where
  "err e \<equiv> Some (Inl e)"

text \<open>\<open>if err := a; err != nil { return err }; b\<close>\<close>

fun andthen :: "outcome \<Rightarrow> outcome \<Rightarrow> outcome" where
  "andthen None b = None"
| "andthen (Some (Inl e)) b = Some (Inl e)"
| "andthen (Some (Inr u)) b = b"

lemma andthen_valid [simp]: "andthen a b = valid \<longleftrightarrow> a = valid \<and> b = valid"
  by (induction a b rule: andthen.induct) auto

lemma andthen_None: "andthen a b = None \<longleftrightarrow> a = None \<or> a = valid \<and> b = None"
  by (induction a b rule: andthen.induct) auto

lemma andthen_total: "a \<noteq> None \<Longrightarrow> b \<noteq> None \<Longrightarrow> andthen a b \<noteq> None"
  by (simp only: andthen_None) blast

section \<open>Headers\<close>

text \<open>\<open>time.Time.Sub\<close> saturates at the largest and the smallest duration.\<close>

definition time_Sub :: "gotime \<Rightarrow> gotime \<Rightarrow> int" where
  "time_Sub t u = max (- (2 ^ 63)) (min (2 ^ 63 - 1) (t - u))"

text \<open>Go's division of integers truncates towards zero.\<close>

definition half_duration :: "int \<Rightarrow> int" where
  "half_duration d = (if 0 \<le> d then d div 2 else - (- d div 2))"

definition medianTimestamp :: "chain_state \<Rightarrow> gotime option" where
  "medianTimestamp s =
     (let ts = sort (take (numTimestamps s) (cs_PrevTimestamps s)); n = length ts in
      if n mod 2 \<noteq> 0 then at ts (n div 2)
      else if n = 0 then None
      else do {
        l \<leftarrow> at ts (n div 2 - 1);
        r \<leftarrow> at ts (n div 2);
        Some (l + half_duration (time_Sub r l))
      })"

definition validateHeader :: "hashfn \<Rightarrow> chain_state \<Rightarrow> block_header \<Rightarrow> outcome" where
  "validateHeader H s h =
     (if bh_Height h \<noteq> ci_Height (cs_Index s) + 1 then err ErrWrongHeight
      else if bh_ParentID h \<noteq> ci_ID (cs_Index s) then err ErrWrongParent
      else do {
        w \<leftarrow> WorkRequiredForHash (BlockHeader_ID H h);
        if Work_Cmp w (cs_Difficulty s) < 0 then err ErrInsufficientWork
        else do {
          m \<leftarrow> medianTimestamp s;
          if bh_Timestamp h < m then err ErrTimestampTooOld else valid
        }
      })"

definition MaxFutureTimestamp :: "chain_state \<Rightarrow> gotime \<Rightarrow> gotime" where
  "MaxFutureTimestamp s currentTime = currentTime + 2 * 60 * 60 * 1000000000"

section \<open>Transactions\<close>

text \<open>The closure \<open>add\<close> on \<open>(sum, overflowed)\<close>.\<close>

definition add_value :: "currency \<times> bool \<Rightarrow> currency \<Rightarrow> currency \<times> bool" where
  "add_value acc x = (if \<not> snd acc then Currency_AddWithOverflow (fst acc) x else acc)"

fun validate_inputs_sum :: "txn_input list \<Rightarrow> currency \<times> bool \<Rightarrow> currency \<times> bool" where
  "validate_inputs_sum [] acc = acc"
| "validate_inputs_sum (i # is) acc = validate_inputs_sum is (add_value acc (out_Value (oe_Output (in_Parent i))))"

fun validate_outputs_sum ::
    "nat \<Rightarrow> txn_output list \<Rightarrow> currency \<times> bool \<Rightarrow> validation_error + (currency \<times> bool)" where
  "validate_outputs_sum i [] acc = Inr acc"
| "validate_outputs_sum i (out # outs) acc =
     (if Currency_IsZero (out_Value out) then Inl (ErrZeroOutput i)
      else validate_outputs_sum (i + 1) outs (add_value acc (out_Value out)))"

definition validateCurrencyValues :: "transaction \<Rightarrow> outcome" where
  "validateCurrencyValues txn =
     (case validate_outputs_sum 0 (tx_Outputs txn) (validate_inputs_sum (tx_Inputs txn) (ZeroCurrency, False)) of
        Inl e \<Rightarrow> err e
      | Inr acc \<Rightarrow> if snd (add_value acc (tx_MinerFee txn)) then err ErrOverflow else valid)"

fun timeLocks_loop :: "u64 \<Rightarrow> nat \<Rightarrow> txn_input list \<Rightarrow> outcome" where
  "timeLocks_loop blockHeight i [] = valid"
| "timeLocks_loop blockHeight i (inp # is) =
     (if blockHeight < oe_MaturityHeight (in_Parent inp)
      then err (ErrImmature i (oe_MaturityHeight (in_Parent inp)))
      else timeLocks_loop blockHeight (i + 1) is)"

definition validateTimeLocks :: "chain_state \<Rightarrow> transaction \<Rightarrow> outcome" where
  "validateTimeLocks s txn = timeLocks_loop (ci_Height (cs_Index s) + 1) 0 (tx_Inputs txn)"

fun sum_values :: "currency list \<Rightarrow> currency \<Rightarrow> currency option" where
  "sum_values [] acc = Some acc"
| "sum_values (v # vs) acc = do { acc \<leftarrow> Currency_Add acc v; sum_values vs acc }"

definition outputsEqualInputs :: "transaction \<Rightarrow> outcome" where
  "outputsEqualInputs txn = do {
     totalIn \<leftarrow> sum_values (map (\<lambda>i. out_Value (oe_Output (in_Parent i))) (tx_Inputs txn)) ZeroCurrency;
     totalOut \<leftarrow> sum_values (map out_Value (tx_Outputs txn)) ZeroCurrency;
     totalOut \<leftarrow> Currency_Add totalOut (tx_MinerFee txn);
     if totalIn \<noteq> totalOut then err (ErrUnbalanced totalIn totalOut) else valid
   }"

fun stateProofs_loop :: "hashfn \<Rightarrow> accumulator \<Rightarrow> nat \<Rightarrow> txn_input list \<Rightarrow> outcome" where
  "stateProofs_loop H acc i [] = valid"
| "stateProofs_loop H acc i (inp # is) =
     (if se_LeafIndex (oe_SE (in_Parent inp)) = EphemeralLeafIndex then stateProofs_loop H acc (i + 1) is
      else if ContainsUnspentOutputElement H acc (in_Parent inp) then stateProofs_loop H acc (i + 1) is
      else if ContainsSpentOutputElement H acc (in_Parent inp)
      then err (ErrDoubleSpend i (se_ID (oe_SE (in_Parent inp))))
      else err (ErrNotInAccumulator i (se_ID (oe_SE (in_Parent inp)))))"

definition validateStateProofs :: "hashfn \<Rightarrow> chain_state \<Rightarrow> transaction \<Rightarrow> outcome" where
  "validateStateProofs H s txn = stateProofs_loop H (cs_Elements s) 0 (tx_Inputs txn)"

type_synonym verifier = "public_key \<Rightarrow> hash256 \<Rightarrow> signature \<Rightarrow> bool"

fun spendPolicies_loop :: "hashfn \<Rightarrow> verifier \<Rightarrow> hash256 \<Rightarrow> nat \<Rightarrow> txn_input list \<Rightarrow> outcome" where
  "spendPolicies_loop H verify sigHash i [] = valid"
| "spendPolicies_loop H verify sigHash i (inp # is) =
     (if PublicKey_Address H (in_PublicKey inp) \<noteq> out_Address (oe_Output (in_Parent inp)) then err (ErrWrongPubkey i)
      else if \<not> verify (in_PublicKey inp) sigHash (in_Signature inp) then err (ErrInvalidSignature i)
      else spendPolicies_loop H verify sigHash (i + 1) is)"

definition validateSpendPolicies :: "hashfn \<Rightarrow> verifier \<Rightarrow> chain_state \<Rightarrow> transaction \<Rightarrow> outcome" where
  "validateSpendPolicies H verify s txn =
     spendPolicies_loop H verify (InputSigHash H s txn) 0 (tx_Inputs txn)"

definition ValidateTransaction :: "hashfn \<Rightarrow> verifier \<Rightarrow> chain_state \<Rightarrow> transaction \<Rightarrow> outcome" where
  "ValidateTransaction H verify s txn =
     andthen (validateStateProofs H s txn)
    (andthen (validateCurrencyValues txn)
    (andthen (validateTimeLocks s txn)
    (andthen (outputsEqualInputs txn)
             (validateSpendPolicies H verify s txn))))"

section \<open>Transaction sets\<close>

text \<open>The loop over the inputs of transaction \<open>txnIndex\<close>; it takes what it spends from \<open>available\<close>.\<close>

fun ephemeral_inputs ::
    "nat \<Rightarrow> txn_input list \<Rightarrow> (element_id \<rightharpoonup> txn_output) \<Rightarrow> validation_error + (element_id \<rightharpoonup> txn_output)" where
  "ephemeral_inputs txnIndex [] available = Inr available"
| "ephemeral_inputs txnIndex (inp # is) available =
     (let p = in_Parent inp; i = se_ID (oe_SE p) in
      if se_LeafIndex (oe_SE p) = EphemeralLeafIndex then
        (case available i of
           None \<Rightarrow> Inl (ErrNoEphemeral txnIndex i)
         | Some out \<Rightarrow>
             if out_Value (oe_Output p) \<noteq> out_Value out then Inl (ErrEphemeralValue txnIndex i)
             else if out_Address (oe_Output p) \<noteq> out_Address out then Inl (ErrEphemeralAddress txnIndex i)
             else ephemeral_inputs txnIndex is (available(i := None)))
      else ephemeral_inputs txnIndex is available)"

fun ephemeral_outputs ::
    "transaction_id \<Rightarrow> u64 \<Rightarrow> txn_output list \<Rightarrow> (element_id \<rightharpoonup> txn_output) \<Rightarrow> (element_id \<rightharpoonup> txn_output)" where
  "ephemeral_outputs txid index [] available = available"
| "ephemeral_outputs txid index (out # outs) available =
     ephemeral_outputs txid (index + 1) outs (available(\<lparr>ei_Source = txid, ei_Index = index\<rparr> \<mapsto> out))"

fun ephemeral_loop ::
    "hashfn \<Rightarrow> nat \<Rightarrow> transaction list \<Rightarrow> (element_id \<rightharpoonup> txn_output) \<Rightarrow> outcome" where
  "ephemeral_loop H txnIndex [] available = valid"
| "ephemeral_loop H txnIndex (txn # txns) available =
     (case ephemeral_inputs txnIndex (tx_Inputs txn) available of
        Inl e \<Rightarrow> err e
      | Inr available \<Rightarrow>
          ephemeral_loop H (txnIndex + 1) txns
            (ephemeral_outputs (Transaction_ID H txn) 0 (tx_Outputs txn) available))"

definition is_ephemeral :: "txn_input \<Rightarrow> bool" where
  "is_ephemeral inp \<longleftrightarrow> se_LeafIndex (oe_SE (in_Parent inp)) = EphemeralLeafIndex"

definition validateEphemeralOutputs :: "hashfn \<Rightarrow> transaction list \<Rightarrow> outcome" where
  "validateEphemeralOutputs H txns =
     (if list_ex (\<lambda>txn. list_ex is_ephemeral (tx_Inputs txn)) txns
      then ephemeral_loop H 0 txns Map.empty else valid)"

fun doubleSpends_inputs ::
    "nat \<Rightarrow> txn_input list \<Rightarrow> (element_id \<rightharpoonup> nat) \<Rightarrow> validation_error + (element_id \<rightharpoonup> nat)" where
  "doubleSpends_inputs i [] spent = Inr spent"
| "doubleSpends_inputs i (inp # is) spent =
     (let pid = se_ID (oe_SE (in_Parent inp)) in
      case spent pid of
        Some prev \<Rightarrow> Inl (ErrDoubleSpentInSet i pid prev)
      | None \<Rightarrow> doubleSpends_inputs i is (spent(pid \<mapsto> i)))"

fun doubleSpends_loop :: "nat \<Rightarrow> transaction list \<Rightarrow> (element_id \<rightharpoonup> nat) \<Rightarrow> outcome" where
  "doubleSpends_loop i [] spent = valid"
| "doubleSpends_loop i (txn # txns) spent =
     (case doubleSpends_inputs i (tx_Inputs txn) spent of
        Inl e \<Rightarrow> err e
      | Inr spent \<Rightarrow> doubleSpends_loop (i + 1) txns spent)"

definition noDoubleSpends :: "transaction list \<Rightarrow> outcome" where
  "noDoubleSpends txns = doubleSpends_loop 0 txns Map.empty"

fun ValidateTransactions_loop ::
    "hashfn \<Rightarrow> verifier \<Rightarrow> chain_state \<Rightarrow> nat \<Rightarrow> transaction list \<Rightarrow> outcome" where
  "ValidateTransactions_loop H verify s i [] = valid"
| "ValidateTransactions_loop H verify s i (txn # txns) =
     (case ValidateTransaction H verify s txn of
        None \<Rightarrow> None
      | Some (Inl e) \<Rightarrow> err (ErrTransaction i e)
      | Some (Inr u) \<Rightarrow> ValidateTransactions_loop H verify s (i + 1) txns)"

definition ValidateTransactionSet :: "hashfn \<Rightarrow> verifier \<Rightarrow> chain_state \<Rightarrow> transaction list \<Rightarrow> outcome" where
  "ValidateTransactionSet H verify s txns =
     (if MaxBlockWeight s < BlockWeight s txns then err ErrOverweight
      else andthen (validateEphemeralOutputs H txns)
          (andthen (noDoubleSpends txns)
                   (ValidateTransactions_loop H verify s 0 txns)))"

definition ValidateBlock :: "hashfn \<Rightarrow> verifier \<Rightarrow> chain_state \<Rightarrow> block \<Rightarrow> outcome" where
  "ValidateBlock H verify s b =
     (let h = b_Header b in
      andthen (validateHeader H s h)
        (if Commitment H s (bh_MinerAddress h) (b_Transactions b) \<noteq> bh_Commitment h then err ErrCommitment
         else ValidateTransactionSet H verify s (b_Transactions b)))"

section \<open>What validation guarantees\<close>

text \<open>Headers: the median is among the timestamps, and mining to the target is enough work.\<close>

lemma half_duration_bounds: "0 \<le> d \<Longrightarrow> 0 \<le> half_duration d \<and> half_duration d \<le> d"
  by (simp add: half_duration_def)

lemma medianTimestamp_bounds:
  assumes "medianTimestamp s = Some m"
  shows "\<exists>a b. a \<in> set (cs_PrevTimestamps s) \<and> b \<in> set (cs_PrevTimestamps s) \<and> a \<le> m \<and> m \<le> b"
proof -
  let ?ts = "sort (take (numTimestamps s) (cs_PrevTimestamps s))"
  let ?n = "length ?ts"
  have sub: "x \<in> set (cs_PrevTimestamps s)" if "x \<in> set ?ts" for x using that by (auto dest: in_set_takeD)
  show ?thesis
  proof (cases "?n mod 2 = 0")
    case False
    then have "m = ?ts ! (?n div 2)" "?n div 2 < ?n"
      using assms by (auto simp: medianTimestamp_def Let_def at_def split: if_splits)
    then have "m \<in> set ?ts" using nth_mem by metis
    then show ?thesis using sub by blast
  next
    case True
    let ?l = "?ts ! (?n div 2 - 1)" and ?r = "?ts ! (?n div 2)"
    have n: "0 < ?n" "?n div 2 < ?n" and m: "m = ?l + half_duration (time_Sub ?r ?l)"
      using assms True by (auto simp: medianTimestamp_def Let_def at_def split: if_splits Option.bind_splits)
    have le: "?l \<le> ?r" using n by (intro sorted_nth_mono) simp_all
    then have "0 \<le> time_Sub ?r ?l" "time_Sub ?r ?l \<le> ?r - ?l" by (auto simp: time_Sub_def)
    then have "?l \<le> m" "m \<le> ?r" using half_duration_bounds [of "time_Sub ?r ?l"] m by linarith+
    moreover have "?n div 2 - 1 < ?n" using n(2) by linarith
    ultimately show ?thesis using sub [OF nth_mem] n(2) by blast
  qed
qed

lemma validateHeader_valid:
  "validateHeader H s h = valid \<longleftrightarrow>
     bh_Height h = ci_Height (cs_Index s) + 1 \<and> bh_ParentID h = ci_ID (cs_Index s)
     \<and> (\<exists>w. WorkRequiredForHash (BlockHeader_ID H h) = Some w \<and> work_nat (cs_Difficulty s) \<le> work_nat w)
     \<and> (\<exists>m. medianTimestamp s = Some m \<and> m \<le> bh_Timestamp h)"
  by (auto simp: validateHeader_def Work_Cmp_nat split: Option.bind_splits)

text \<open>Values: the sums of a validated transaction do not overflow, so the later additions are safe.\<close>

abbreviation in_value :: "txn_input \<Rightarrow> currency" where
  "in_value i \<equiv> out_Value (oe_Output (in_Parent i))"

definition value_sum :: "currency list \<Rightarrow> nat" where
  "value_sum vs = sum_list (map cur_nat vs)"

definition sum_state :: "currency \<times> bool \<Rightarrow> nat \<Rightarrow> bool" where
  "sum_state acc n \<longleftrightarrow> (if snd acc then 2 ^ 128 \<le> n else n < 2 ^ 128 \<and> cur_nat (fst acc) = n)"

lemma sum_state_add: "sum_state acc n \<Longrightarrow> sum_state (add_value acc x) (n + cur_nat x)"
proof (cases "snd acc")
  case False
  assume st: "sum_state acc n"
  obtain t ov where t: "Currency_AddWithOverflow (fst acc) x = (t, ov)" by fastforce
  then show ?thesis
    using False st AddWithOverflow_nat [OF t] by (auto simp: sum_state_def add_value_def)
qed (simp add: sum_state_def add_value_def)

lemma validate_inputs_sum:
  "sum_state acc n \<Longrightarrow> sum_state (validate_inputs_sum is acc) (n + value_sum (map in_value is))"
proof (induction "is" arbitrary: acc n)
  case (Cons i "is")
  from Cons.IH [OF sum_state_add [OF Cons.prems]] show ?case by (simp add: value_sum_def add_ac)
qed (simp add: value_sum_def)

lemma validate_outputs_sum:
  assumes "sum_state acc n"
  shows "case validate_outputs_sum i outs acc of
      Inl e \<Rightarrow> \<exists>out\<in>set outs. cur_nat (out_Value out) = 0
    | Inr acc' \<Rightarrow> (\<forall>out\<in>set outs. 0 < cur_nat (out_Value out)) \<and> sum_state acc' (n + value_sum (map out_Value outs))"
  using assms
proof (induction outs arbitrary: acc n i)
  case (Cons out outs)
  have z: "Currency_IsZero (out_Value out) \<longleftrightarrow> cur_nat (out_Value out) = 0"
    using cur_nat_inj [of "out_Value out" ZeroCurrency] by (simp add: Currency_IsZero_def cur_nat_def ZeroCurrency_def)
  show ?case
  proof (cases "Currency_IsZero (out_Value out)")
    case False
    then show ?thesis
      using Cons.IH [OF sum_state_add [OF Cons.prems, of "out_Value out"], of "i + 1"] z
      by (auto simp: value_sum_def add_ac split: sum.splits)
  qed (use z in simp)
qed (simp add: value_sum_def)

definition txn_total :: "transaction \<Rightarrow> nat" where
  "txn_total txn = value_sum (map in_value (tx_Inputs txn)) + value_sum (map out_Value (tx_Outputs txn))
     + cur_nat (tx_MinerFee txn)"

lemma validateCurrencyValues_valid:
  "validateCurrencyValues txn = valid \<longleftrightarrow>
     (\<forall>out\<in>set (tx_Outputs txn). 0 < cur_nat (out_Value out)) \<and> txn_total txn < 2 ^ 128"
  "validateCurrencyValues txn \<noteq> None"
proof -
  have "sum_state (ZeroCurrency, False) 0" by (simp add: sum_state_def cur_nat_def ZeroCurrency_def)
  note i = validate_inputs_sum [OF this, of "tx_Inputs txn", unfolded add_0]
  note o = validate_outputs_sum [OF i, where i = 0 and outs = "tx_Outputs txn"]
  show "validateCurrencyValues txn = valid \<longleftrightarrow>
     (\<forall>out\<in>set (tx_Outputs txn). 0 < cur_nat (out_Value out)) \<and> txn_total txn < 2 ^ 128"
  proof (cases "validate_outputs_sum 0 (tx_Outputs txn) (validate_inputs_sum (tx_Inputs txn) (ZeroCurrency, False))")
    case (Inl e)
    then show ?thesis using o by (auto simp: validateCurrencyValues_def)
  next
    case (Inr acc)
    then have acc: "\<forall>out\<in>set (tx_Outputs txn). 0 < cur_nat (out_Value out)"
      "sum_state acc (value_sum (map in_value (tx_Inputs txn)) + value_sum (map out_Value (tx_Outputs txn)))"
      using o by simp_all
    from sum_state_add [OF acc(2), of "tx_MinerFee txn"]
    have "snd (add_value acc (tx_MinerFee txn)) \<longleftrightarrow> 2 ^ 128 \<le> txn_total txn"
      by (simp add: sum_state_def txn_total_def split: if_splits)
    then show ?thesis using acc(1) Inr by (simp add: validateCurrencyValues_def not_le)
  qed
  show "validateCurrencyValues txn \<noteq> None" by (simp add: validateCurrencyValues_def split: sum.splits)
qed

lemma sum_values_nat:
  "cur_nat acc + value_sum vs < 2 ^ 128 \<Longrightarrow>
   \<exists>t. sum_values vs acc = Some t \<and> cur_nat t = cur_nat acc + value_sum vs"
proof (induction vs arbitrary: acc)
  case (Cons v vs)
  then obtain t where t: "Currency_Add acc v = Some t" "cur_nat t = cur_nat acc + cur_nat v"
    using Currency_Add_total [of acc v] by (auto simp: value_sum_def)
  from Cons.IH [of t] Cons.prems t show ?case by (simp add: value_sum_def add.assoc)
qed (simp add: value_sum_def)

lemma outputsEqualInputs_valid:
  assumes "txn_total txn < 2 ^ 128"
  shows "outputsEqualInputs txn = valid \<longleftrightarrow>
     value_sum (map in_value (tx_Inputs txn)) = value_sum (map out_Value (tx_Outputs txn)) + cur_nat (tx_MinerFee txn)"
    "outputsEqualInputs txn \<noteq> None"
proof -
  have z: "cur_nat ZeroCurrency = 0" by (simp add: cur_nat_def ZeroCurrency_def)
  obtain a where a: "sum_values (map in_value (tx_Inputs txn)) ZeroCurrency = Some a"
    "cur_nat a = value_sum (map in_value (tx_Inputs txn))"
    using sum_values_nat [of ZeroCurrency "map in_value (tx_Inputs txn)"] assms by (auto simp: z txn_total_def)
  obtain b where b: "sum_values (map out_Value (tx_Outputs txn)) ZeroCurrency = Some b"
    "cur_nat b = value_sum (map out_Value (tx_Outputs txn))"
    using sum_values_nat [of ZeroCurrency "map out_Value (tx_Outputs txn)"] assms by (auto simp: z txn_total_def)
  obtain c where c: "Currency_Add b (tx_MinerFee txn) = Some c" "cur_nat c = cur_nat b + cur_nat (tx_MinerFee txn)"
    using Currency_Add_total [of b "tx_MinerFee txn"] assms b(2) by (auto simp: txn_total_def)
  have e: "outputsEqualInputs txn = (if a \<noteq> c then err (ErrUnbalanced a c) else valid)"
    by (simp add: outputsEqualInputs_def a(1) b(1) c(1))
  show "outputsEqualInputs txn = valid \<longleftrightarrow>
     value_sum (map in_value (tx_Inputs txn)) = value_sum (map out_Value (tx_Outputs txn)) + cur_nat (tx_MinerFee txn)"
    "outputsEqualInputs txn \<noteq> None"
    unfolding e using a(2) b(2) c(2) cur_nat_inj [of a c] by simp_all
qed

text \<open>The checks of the single inputs.\<close>

lemma timeLocks_valid:
  "timeLocks_loop h i is = valid \<longleftrightarrow> (\<forall>inp\<in>set is. oe_MaturityHeight (in_Parent inp) \<le> h)"
  "timeLocks_loop h i is \<noteq> None"
  by (induction h i "is" rule: timeLocks_loop.induct) (auto simp: not_less)

lemma stateProofs_valid:
  "stateProofs_loop H acc i is = valid \<longleftrightarrow>
     (\<forall>inp\<in>set is. is_ephemeral inp \<or> ContainsUnspentOutputElement H acc (in_Parent inp))"
  "stateProofs_loop H acc i is \<noteq> None"
  by (induction H acc i "is" rule: stateProofs_loop.induct) (auto simp: is_ephemeral_def)

lemma spendPolicies_valid:
  "spendPolicies_loop H verify g i is = valid \<longleftrightarrow>
     (\<forall>inp\<in>set is. PublicKey_Address H (in_PublicKey inp) = out_Address (oe_Output (in_Parent inp))
        \<and> verify (in_PublicKey inp) g (in_Signature inp))"
  "spendPolicies_loop H verify g i is \<noteq> None"
  by (induction H verify g i "is" rule: spendPolicies_loop.induct) auto

text \<open>A transaction is valid exactly when it meets every rule; validation never panics.\<close>

definition txn_valid :: "hashfn \<Rightarrow> verifier \<Rightarrow> chain_state \<Rightarrow> transaction \<Rightarrow> bool" where
  "txn_valid H verify s txn \<longleftrightarrow>
     (\<forall>inp\<in>set (tx_Inputs txn).
        (is_ephemeral inp \<or> ContainsUnspentOutputElement H (cs_Elements s) (in_Parent inp))
        \<and> oe_MaturityHeight (in_Parent inp) \<le> ci_Height (cs_Index s) + 1
        \<and> PublicKey_Address H (in_PublicKey inp) = out_Address (oe_Output (in_Parent inp))
        \<and> verify (in_PublicKey inp) (InputSigHash H s txn) (in_Signature inp))
     \<and> (\<forall>out\<in>set (tx_Outputs txn). 0 < cur_nat (out_Value out))
     \<and> txn_total txn < 2 ^ 128
     \<and> value_sum (map in_value (tx_Inputs txn)) = value_sum (map out_Value (tx_Outputs txn)) + cur_nat (tx_MinerFee txn)"

lemma ValidateTransaction_valid: "ValidateTransaction H verify s txn = valid \<longleftrightarrow> txn_valid H verify s txn"
  using outputsEqualInputs_valid(1) [of txn]
  by (auto simp: ValidateTransaction_def txn_valid_def validateStateProofs_def stateProofs_valid(1)
      validateCurrencyValues_valid(1) validateTimeLocks_def timeLocks_valid(1) validateSpendPolicies_def
      spendPolicies_valid(1) simp del: power_numeral)

lemma ValidateTransaction_total: "ValidateTransaction H verify s txn \<noteq> None"
  using outputsEqualInputs_valid(2) [of txn] validateCurrencyValues_valid [of txn]
  by (auto simp: ValidateTransaction_def andthen_None validateStateProofs_def stateProofs_valid(2)
      validateTimeLocks_def timeLocks_valid(2) validateSpendPolicies_def spendPolicies_valid(2)
      simp del: power_numeral)

section \<open>What the set guarantees\<close>

lemma doubleSpends_inputs:
  "case doubleSpends_inputs i ins spent of
     Inl e \<Rightarrow> \<not> (distinct (map (\<lambda>i. se_ID (oe_SE (in_Parent i))) ins)
                \<and> set (map (\<lambda>i. se_ID (oe_SE (in_Parent i))) ins) \<inter> dom spent = {})
   | Inr spent' \<Rightarrow> distinct (map (\<lambda>i. se_ID (oe_SE (in_Parent i))) ins)
                \<and> set (map (\<lambda>i. se_ID (oe_SE (in_Parent i))) ins) \<inter> dom spent = {}
                \<and> dom spent' = dom spent \<union> set (map (\<lambda>i. se_ID (oe_SE (in_Parent i))) ins)"
proof (induction i ins spent rule: doubleSpends_inputs.induct)
  case (2 i inp ins spent)
  let ?pid = "se_ID (oe_SE (in_Parent inp))"
  show ?case
  proof (cases "spent ?pid")
    case None
    note ih = "2.IH" [OF refl None]
    have dom: "?pid \<notin> dom spent" "dom (spent(?pid \<mapsto> i)) = insert ?pid (dom spent)" using None by auto
    show ?thesis
    proof (cases "doubleSpends_inputs i ins (spent(?pid \<mapsto> i))")
      case (Inl e)
      then show ?thesis using ih None by (simp add: Let_def dom del: fun_upd_apply)
    next
      case (Inr spent')
      then show ?thesis using ih None dom(1) by (simp add: Let_def dom(2) del: fun_upd_apply)
    qed
  qed (auto simp: Let_def)
qed simp

lemma doubleSpends_loop:
  "doubleSpends_loop i txns spent = valid \<longleftrightarrow>
     distinct (concat (map parent_ids txns)) \<and> set (concat (map parent_ids txns)) \<inter> dom spent = {}"
  "doubleSpends_loop i txns spent \<noteq> None"
proof (induction i txns spent rule: doubleSpends_loop.induct)
  case (2 i txn txns spent)
  note d = doubleSpends_inputs [where i = i and ins = "tx_Inputs txn" and spent = spent, folded parent_ids_def]
  {
    case 1
    show ?case
    proof (cases "doubleSpends_inputs i (tx_Inputs txn) spent")
      case (Inr spent')
      then show ?thesis using d "2.IH"(1) [OF Inr] by (auto simp del: set_concat set_map)
    qed (use d in auto)
  next
    case 2
    then show ?case using "2.IH"(2) by (simp split: sum.splits)
  }
qed simp_all

text \<open>An ephemeral input spends an output of an earlier transaction of the set.\<close>

definition created_by :: "hashfn \<Rightarrow> transaction list \<Rightarrow> element_id \<Rightarrow> txn_output \<Rightarrow> bool" where
  "created_by H txns i out \<longleftrightarrow>
     (\<exists>txn\<in>set txns. \<exists>k<length (tx_Outputs txn).
        i = Transaction_OutputID H txn k \<and> out = tx_Outputs txn ! k)"

lemma ephemeral_inputs_sound:
  assumes "ephemeral_inputs n is av = Inr av'" "\<And>i out. av i = Some out \<Longrightarrow> P i out"
  shows "(\<forall>inp\<in>set is. is_ephemeral inp \<longrightarrow> P (se_ID (oe_SE (in_Parent inp))) (oe_Output (in_Parent inp)))
    \<and> (\<forall>i out. av' i = Some out \<longrightarrow> P i out)"
  using assms
proof (induction n "is" av rule: ephemeral_inputs.induct)
  case (2 n inp "is" av)
  let ?p = "in_Parent inp"
  let ?i = "se_ID (oe_SE ?p)"
  show ?case
  proof (cases "is_ephemeral inp")
    case True
    then have e: "se_LeafIndex (oe_SE ?p) = EphemeralLeafIndex" by (simp add: is_ephemeral_def)
    obtain out where out: "av ?i = Some out" using "2.prems"(1) e by (auto simp: Let_def split: option.splits)
    have eq: "out_Value (oe_Output ?p) = out_Value out" "out_Address (oe_Output ?p) = out_Address out"
      using "2.prems"(1) e out by (auto simp: Let_def split: if_splits)
    then have o: "oe_Output ?p = out" by simp
    have "ephemeral_inputs n is (av(?i := None)) = Inr av'" using "2.prems"(1) e out eq by (simp add: Let_def)
    moreover have "P j x" if "(av(?i := None)) j = Some x" for j x
      using that "2.prems"(2) by (auto split: if_splits)
    ultimately have "(\<forall>inp\<in>set is. is_ephemeral inp \<longrightarrow> P (se_ID (oe_SE (in_Parent inp))) (oe_Output (in_Parent inp)))
      \<and> (\<forall>i out. av' i = Some out \<longrightarrow> P i out)"
      using "2.IH"(1) [OF refl refl e out] eq by blast
    then show ?thesis using o "2.prems"(2) [OF out] by simp
  next
    case False
    then show ?thesis using "2.IH"(2) [OF refl refl] "2.prems" by (auto simp: is_ephemeral_def Let_def)
  qed
qed simp

lemma ephemeral_outputs_sound:
  assumes "ephemeral_outputs txid (word_of_nat n) outs av i = Some out"
  shows "av i = Some out \<or> (\<exists>k<length outs. i = \<lparr>ei_Source = txid, ei_Index = word_of_nat (n + k)\<rparr> \<and> out = outs ! k)"
  using assms
proof (induction outs arbitrary: av n)
  case (Cons x outs)
  have "ephemeral_outputs txid (word_of_nat (Suc n)) outs (av(\<lparr>ei_Source = txid, ei_Index = word_of_nat n\<rparr> \<mapsto> x)) i = Some out"
    using Cons.prems by (simp add: add.commute)
  from Cons.IH [OF this] show ?case
  proof
    assume "(av(\<lparr>ei_Source = txid, ei_Index = word_of_nat n\<rparr> \<mapsto> x)) i = Some out"
    then show ?thesis by (auto split: if_splits intro!: exI [of _ 0])
  next
    assume "\<exists>k<length outs. i = \<lparr>ei_Source = txid, ei_Index = word_of_nat (Suc n + k)\<rparr> \<and> out = outs ! k"
    then obtain k where "k < length outs" "i = \<lparr>ei_Source = txid, ei_Index = word_of_nat (n + Suc k)\<rparr>" "out = outs ! k"
      by auto
    then show ?thesis by (intro disjI2 exI [of _ "Suc k"]) simp
  qed
qed simp

lemma created_by_snoc:
  "created_by H (txns @ [txn]) i out \<longleftrightarrow> created_by H txns i out
     \<or> (\<exists>k<length (tx_Outputs txn). i = Transaction_OutputID H txn k \<and> out = tx_Outputs txn ! k)"
  by (auto simp: created_by_def)

lemma ephemeral_loop_sound:
  assumes "ephemeral_loop H n txns av = valid" "\<And>i out. av i = Some out \<Longrightarrow> created_by H pre i out"
    "j < length txns" "inp \<in> set (tx_Inputs (txns ! j))" "is_ephemeral inp"
  shows "created_by H (pre @ take j txns) (se_ID (oe_SE (in_Parent inp))) (oe_Output (in_Parent inp))"
  using assms
proof (induction txns arbitrary: n av pre j)
  case (Cons txn txns)
  obtain av1 where av1: "ephemeral_inputs n (tx_Inputs txn) av = Inr av1"
    "ephemeral_loop H (n + 1) txns (ephemeral_outputs (Transaction_ID H txn) 0 (tx_Outputs txn) av1) = valid"
    using Cons.prems(1) by (auto split: sum.splits)
  note s = ephemeral_inputs_sound [OF av1(1), of "created_by H pre", OF Cons.prems(2)]
  show ?case
  proof (cases j)
    case 0
    then show ?thesis using s Cons.prems(4,5) by simp
  next
    case (Suc k)
    have "created_by H (pre @ [txn]) i out"
      if "ephemeral_outputs (Transaction_ID H txn) 0 (tx_Outputs txn) av1 i = Some out" for i out
      using ephemeral_outputs_sound [of "Transaction_ID H txn" 0 "tx_Outputs txn" av1 i out] that s
      by (auto simp: created_by_snoc Transaction_OutputID_def)
    from Cons.IH [OF av1(2) this, of k] Cons.prems(3-5) Suc show ?thesis by simp
  qed
qed simp

definition ephemeral_ok :: "hashfn \<Rightarrow> transaction list \<Rightarrow> bool" where
  "ephemeral_ok H txns \<longleftrightarrow>
     (\<forall>j<length txns. \<forall>inp\<in>set (tx_Inputs (txns ! j)). is_ephemeral inp \<longrightarrow>
        created_by H (take j txns) (se_ID (oe_SE (in_Parent inp))) (oe_Output (in_Parent inp)))"

lemma validateEphemeralOutputs_sound: "validateEphemeralOutputs H txns = valid \<Longrightarrow> ephemeral_ok H txns"
  unfolding ephemeral_ok_def
proof (intro allI impI ballI)
  fix j inp
  assume v: "validateEphemeralOutputs H txns = valid" and j: "j < length txns"
    and inp: "inp \<in> set (tx_Inputs (txns ! j))" and e: "is_ephemeral inp"
  then have "list_ex (\<lambda>txn. list_ex is_ephemeral (tx_Inputs txn)) txns"
    by (auto simp: list_ex_iff intro!: bexI [of _ "txns ! j"])
  then have "ephemeral_loop H 0 txns Map.empty = valid" using v by (simp add: validateEphemeralOutputs_def)
  from ephemeral_loop_sound [OF this _ j inp e, of "[]"]
  show "created_by H (take j txns) (se_ID (oe_SE (in_Parent inp))) (oe_Output (in_Parent inp))" by simp
qed

lemma ephemeral_loop_total: "ephemeral_loop H n txns av \<noteq> None"
  by (induction H n txns av rule: ephemeral_loop.induct) (auto split: sum.splits)

lemma ValidateTransactions_loop_valid:
  "ValidateTransactions_loop H verify s i txns = valid \<longleftrightarrow> (\<forall>txn\<in>set txns. txn_valid H verify s txn)"
  "ValidateTransactions_loop H verify s i txns \<noteq> None"
proof (induction txns arbitrary: i)
  case (Cons txn txns)
  {
    case 1
    show ?case
      using Cons.IH(1) [of "i + 1"] ValidateTransaction_valid [of H verify s txn]
      by (auto split: option.splits sum.splits)
  next
    case 2
    show ?case
      using Cons.IH(2) [of "i + 1"] ValidateTransaction_total [of H verify s txn]
      by (auto split: option.splits sum.splits)
  }
qed simp_all

lemma ValidateTransactionSet_sound:
  assumes "ValidateTransactionSet H verify s txns = valid"
  shows "BlockWeight s txns \<le> MaxBlockWeight s" "distinct (concat (map parent_ids txns))" "ephemeral_ok H txns"
    "\<forall>txn\<in>set txns. txn_valid H verify s txn"
  using assms validateEphemeralOutputs_sound doubleSpends_loop(1) [of 0 txns Map.empty]
    ValidateTransactions_loop_valid(1)
  by (auto simp: ValidateTransactionSet_def noDoubleSpends_def not_less split: if_splits)

lemma ValidateTransactionSet_total: "ValidateTransactionSet H verify s txns \<noteq> None"
proof -
  have "validateEphemeralOutputs H txns \<noteq> None"
    unfolding validateEphemeralOutputs_def using ephemeral_loop_total by (metis option.distinct(1))
  then have "andthen (validateEphemeralOutputs H txns)
      (andthen (noDoubleSpends txns) (ValidateTransactions_loop H verify s 0 txns)) \<noteq> None"
    unfolding noDoubleSpends_def
    by (intro andthen_total doubleSpends_loop(2) ValidateTransactions_loop_valid(2))
  then show ?thesis unfolding ValidateTransactionSet_def by (metis option.distinct(1))
qed

lemma ValidateBlock_valid:
  "ValidateBlock H verify s b = valid \<longleftrightarrow>
     validateHeader H s (b_Header b) = valid
     \<and> bh_Commitment (b_Header b) = Commitment H s (bh_MinerAddress (b_Header b)) (b_Transactions b)
     \<and> ValidateTransactionSet H verify s (b_Transactions b) = valid"
  by (auto simp: ValidateBlock_def Let_def)

section \<open>A concrete set of transactions\<close>

text \<open>
  The ledger has one output of 10 that belongs to the key 3. The first transaction spends it; the
  second one spends, as an ephemeral element, the output that the first one creates.
\<close>

definition sample_address :: address where
  "sample_address = PublicKey_Address sample_hash 3"

definition sample_output :: "nat \<Rightarrow> txn_output" where
  "sample_output v = \<lparr>out_Value = \<lparr>Lo = word_of_nat v, Hi = 0\<rparr>, out_Address = sample_address\<rparr>"

definition sample_element :: output_element where
  "sample_element =
     \<lparr>oe_SE = \<lparr>se_ID = \<lparr>ei_Source = 7, ei_Index = 0\<rparr>, se_LeafIndex = 0, se_MerkleProof = []\<rparr>,
      oe_Output = sample_output 10, oe_MaturityHeight = 0\<rparr>"

definition sample_txn1 :: transaction where
  "sample_txn1 =
     \<lparr>tx_Inputs = [\<lparr>in_Parent = sample_element, in_PublicKey = 3, in_Signature = 0\<rparr>],
      tx_Outputs = [sample_output 6], tx_MinerFee = \<lparr>Lo = 4, Hi = 0\<rparr>\<rparr>"

definition sample_ephemeral :: output_element where
  "sample_ephemeral =
     \<lparr>oe_SE = \<lparr>se_ID = Transaction_OutputID sample_hash sample_txn1 0, se_LeafIndex = EphemeralLeafIndex,
               se_MerkleProof = []\<rparr>,
      oe_Output = sample_output 6, oe_MaturityHeight = 0\<rparr>"

definition sample_txn2 :: transaction where
  "sample_txn2 =
     \<lparr>tx_Inputs = [\<lparr>in_Parent = sample_ephemeral, in_PublicKey = 3, in_Signature = 0\<rparr>],
      tx_Outputs = [sample_output 5], tx_MinerFee = \<lparr>Lo = 1, Hi = 0\<rparr>\<rparr>"

definition sample_verify :: verifier where
  "sample_verify pk h sig = True"

definition sample_state :: chain_state where
  "sample_state = (genesis_state 0 \<lparr>NumHashes = 1\<rparr>)
     \<lparr>cs_Elements := \<lparr>acc_Trees = ElementLeaf_Hash sample_hash (OutputLeaf sample_hash sample_element False) # replicate 63 0,
                     acc_NumLeaves = 1\<rparr>\<rparr>"

definition sample_ledger :: ledger where
  "sample_ledger = [(sample_hash (output_preimage sample_element), False)]"

lemma OutputLeaf_simps [simp]:
  "el_SE (OutputLeaf H oe sp) = oe_SE oe" "el_ElementHash (OutputLeaf H oe sp) = H (output_preimage oe)"
  "el_Spent (OutputLeaf H oe sp) = sp" "leaf_data (OutputLeaf H oe sp) = (H (output_preimage oe), sp)"
  by (simp_all add: OutputLeaf_def leaf_data_def)

lemma sample_state_repr: "acc_repr sample_hash sample_ledger (cs_Elements sample_state)"
proof -
  have l: "el_LeafIndex (OutputLeaf sample_hash sample_element False) = 0" by (simp add: sample_element_def)
  have "sample_ledger = [leaf_data (OutputLeaf sample_hash sample_element False)]" by (simp add: sample_ledger_def)
  then show ?thesis using acc_repr_single [OF l refl, of sample_hash] by (simp add: sample_state_def)
qed

lemma sample_element_in: "leaf_in sample_hash sample_ledger (OutputLeaf sample_hash sample_element False)"
  by (simp add: leaf_in_def sample_ledger_def) (simp add: sample_element_def)

lemma sample_contains: "ContainsUnspentOutputElement sample_hash (cs_Elements sample_state) sample_element"
  unfolding ContainsUnspentOutputElement_def by (rule containsLeaf_complete [OF sample_state_repr sample_element_in])

lemma sample_simps:
  "se_LeafIndex (oe_SE sample_element) = 0" "se_LeafIndex (oe_SE sample_ephemeral) = EphemeralLeafIndex"
  "(0 = EphemeralLeafIndex) = False"
  "se_ID (oe_SE sample_ephemeral) = Transaction_OutputID sample_hash sample_txn1 0"
  "oe_Output sample_element = sample_output 10" "oe_Output sample_ephemeral = sample_output 6"
  "oe_MaturityHeight sample_element = 0" "oe_MaturityHeight sample_ephemeral = 0"
  "out_Address (sample_output v) = sample_address" "PublicKey_Address sample_hash 3 = sample_address"
  by (simp_all add: sample_element_def sample_ephemeral_def EphemeralLeafIndex_def sample_output_def sample_address_def)

lemma sample_txn_simps:
  "tx_Inputs sample_txn1 = [\<lparr>in_Parent = sample_element, in_PublicKey = 3, in_Signature = 0\<rparr>]"
  "tx_Outputs sample_txn1 = [sample_output 6]" "tx_MinerFee sample_txn1 = \<lparr>Lo = 4, Hi = 0\<rparr>"
  "tx_Inputs sample_txn2 = [\<lparr>in_Parent = sample_ephemeral, in_PublicKey = 3, in_Signature = 0\<rparr>]"
  "tx_Outputs sample_txn2 = [sample_output 5]" "tx_MinerFee sample_txn2 = \<lparr>Lo = 1, Hi = 0\<rparr>"
  by (simp_all add: sample_txn1_def sample_txn2_def)

lemma sample_values:
  "cur_nat (out_Value (sample_output 10)) = 10" "cur_nat (out_Value (sample_output 6)) = 6"
  "cur_nat (out_Value (sample_output 5)) = 5" "cur_nat \<lparr>Lo = 4, Hi = 0\<rparr> = 4" "cur_nat \<lparr>Lo = 1, Hi = 0\<rparr> = 1"
  by (simp_all add: sample_output_def cur_nat_def)

lemma sample_txns_valid:
  "txn_valid sample_hash sample_verify sample_state sample_txn1"
  "txn_valid sample_hash sample_verify sample_state sample_txn2"
  using sample_contains
  by (simp_all add: txn_valid_def sample_txn_simps sample_simps sample_verify_def sample_values
      is_ephemeral_def txn_total_def value_sum_def)

lemma sample_ids_differ: "se_ID (oe_SE sample_element) \<noteq> se_ID (oe_SE sample_ephemeral)"
proof -
  have i: "se_ID (oe_SE sample_element) = \<lparr>ei_Source = 7, ei_Index = 0\<rparr>" by (simp add: sample_element_def)
  have "length (txn_effects ''sunyata/id/transaction'' sample_txn1) = 150"
    by (simp add: txn_effects_def sample_txn1_def WriteString_def WriteBytes_def str_bytes_def ElementID_EncodeTo_def
        Hash256_EncodeTo_def Output_EncodeTo_def Currency_EncodeTo_def Address_EncodeTo_def)
  then have "7 < unat (Transaction_ID sample_hash sample_txn1)"
    by (simp add: Transaction_ID_def unat_sample_hash sample_key_def)
  then have "Transaction_ID sample_hash sample_txn1 \<noteq> 7" by auto
  then show ?thesis by (simp add: i sample_simps Transaction_OutputID_def)
qed

lemma sample_set_valid:
  "ValidateTransactionSet sample_hash sample_verify sample_state [sample_txn1, sample_txn2] = valid"
proof -
  have "validateEphemeralOutputs sample_hash [sample_txn1, sample_txn2] = valid"
    by (simp add: validateEphemeralOutputs_def)
      (simp add: sample_txn_simps sample_simps Transaction_OutputID_def Let_def)
  moreover have "noDoubleSpends [sample_txn1, sample_txn2] = valid"
    unfolding noDoubleSpends_def using sample_ids_differ
    by (simp add: doubleSpends_loop(1)) (simp add: sample_txn1_def sample_txn2_def parent_ids_def)
  moreover have "ValidateTransactions_loop sample_hash sample_verify sample_state 0 [sample_txn1, sample_txn2] = valid"
    unfolding ValidateTransactions_loop_valid(1) using sample_txns_valid by simp
  moreover have "\<not> MaxBlockWeight sample_state < BlockWeight sample_state [sample_txn1, sample_txn2]"
    by (simp add: MaxBlockWeight_def BlockWeight_def TransactionWeight_def sample_txn_simps)
  ultimately show ?thesis unfolding ValidateTransactionSet_def by simp
qed

section \<open>Properties\<close>

text \<open>C4. Validation of a transaction never panics, and a transaction is accepted exactly when it meets every
  rule: each input is ephemeral or an unspent element of the accumulator, mature in the child block, and signed
  by the key of its address; no output is zero; all values together fit in 128 bits; and the inputs are worth
  exactly the outputs and the fee.\<close>

theorem ValidateTransaction_iff:
  "ValidateTransaction H verify s txn \<noteq> None
   \<and> (ValidateTransaction H verify s txn = Some (Inr ()) \<longleftrightarrow> txn_valid H verify s txn)"
  using ValidateTransaction_total ValidateTransaction_valid by blast

text \<open>C5. A valid set of transactions has no double spends (the IDs of all parents, over the whole set, are
  distinct), its ephemeral inputs spend outputs of earlier transactions of the set with the same value and
  address, its weight is within the limit, and each of its transactions meets the rules.\<close>

theorem ValidateTransactionSet_guarantees:
  assumes "ValidateTransactionSet H verify s txns = Some (Inr ())"
  shows "BlockWeight s txns \<le> MaxBlockWeight s \<and> distinct (concat (map parent_ids txns))
    \<and> ephemeral_ok H txns \<and> list_all (txn_valid H verify s) txns"
  using ValidateTransactionSet_sound [OF assms] by (simp add: list_all_iff)

theorem ValidateTransactionSet_guarantees_witness:
  "distinct (concat (map parent_ids [sample_txn1, sample_txn2])) \<and> ephemeral_ok sample_hash [sample_txn1, sample_txn2]"
  using ValidateTransactionSet_guarantees [OF sample_set_valid] by blast

text \<open>A miner that finds a block ID within the target \<open>HashRequiringWork\<close> of the current difficulty, on
  the right parent and no earlier than the median timestamp, has found a header that validation accepts; a
  header whose ID misses the target is rejected.\<close>

theorem mined_header_valid:
  assumes "HashRequiringWork (cs_Difficulty s) = Some target" "BlockHeader_ID H h \<noteq> 0"
    "bh_Height h = ci_Height (cs_Index s) + 1" "bh_ParentID h = ci_ID (cs_Index s)"
    "medianTimestamp s = Some m" "m \<le> bh_Timestamp h"
  shows "validateHeader H s h = Some (Inr ()) \<longleftrightarrow> BlockID_MeetsTarget (BlockHeader_ID H h) target"
proof -
  have d: "NumHashes (cs_Difficulty s) \<noteq> 0" using assms(1) by (auto simp: HashRequiringWork_eq)
  obtain w where w: "WorkRequiredForHash (BlockHeader_ID H h) = Some w"
    using assms(2) by (simp add: WorkRequiredForHash_eq)
  show ?thesis
    using MeetsTarget_iff [OF d assms(2,1) w] assms(3-6) w by (simp add: validateHeader_valid)
qed

lemma sample_median: "medianTimestamp (genesis_state t w) = Some zero_time"
  by (simp add: medianTimestamp_def genesis_state_def numTimestamps_def at_def)

theorem mined_header_valid_witness:
  "validateHeader sample_hash (genesis_state 0 \<lparr>NumHashes = 1\<rparr>)
     \<lparr>bh_Height = 1, bh_ParentID = 0, bh_Nonce = 5, bh_Timestamp = 0, bh_MinerAddress = 0, bh_Commitment = 0\<rparr> = Some (Inr ())"
proof -
  let ?s = "genesis_state 0 \<lparr>NumHashes = 1\<rparr>"
  have t: "HashRequiringWork (cs_Difficulty ?s) = Some (- 1)" by (simp add: HashRequiringWork_def genesis_state_def)
  show ?thesis
    by (subst mined_header_valid [OF t _ _ _ sample_median])
      (simp_all add: BlockHeader_ID_def HashBytes_def genesis_state_def zero_time_def unix_to_internal_def
        BlockID_MeetsTarget_def)
qed

text \<open>The median timestamp lies between two of the previous timestamps.\<close>

theorem medianTimestamp_between:
  assumes "medianTimestamp s = Some m"
  shows "\<exists>a b. a \<in> set (cs_PrevTimestamps s) \<and> b \<in> set (cs_PrevTimestamps s) \<and> a \<le> m \<and> m \<le> b"
  using medianTimestamp_bounds [OF assms] .

theorem medianTimestamp_between_witness:
  "\<exists>a b. a \<in> set (replicate 11 zero_time) \<and> b \<in> set (replicate 11 zero_time) \<and> a \<le> zero_time \<and> zero_time \<le> b"
  using medianTimestamp_between [OF sample_median [of 0 "\<lparr>NumHashes = 1\<rparr>"]] by (simp add: genesis_state_def)

end
