(* ===== verification/Consensus_Update.thy ===== *)
theory Consensus_Update
  imports Consensus_Validation
begin

text \<open>
  consensus/update.go: how a block changes the consensus state, and the updates that a block's
  application and its reversal hand to everyone who keeps elements with proofs. \<open>None\<close> is a panic.
\<close>

section \<open>Headers\<close>

definition adjustDifficulty :: "chain_state \<Rightarrow> block_header \<Rightarrow> work option" where
  "adjustDifficulty s h =
     (let expectedDelta = BlockInterval s * int (unat (DifficultyAdjustmentInterval s));
          actualDelta = time_Sub (bh_Timestamp h) (cs_LastAdjust s);
          actualDelta = (if expectedDelta * 4 < actualDelta then expectedDelta * 4
                         else if actualDelta < expectedDelta div 4 then expectedDelta div 4
                         else actualDelta)
      in Work_Div64 (Work_Mul64 (cs_Difficulty s) (word_of_int expectedDelta)) (word_of_int actualDelta))"

definition applyHeader :: "hashfn \<Rightarrow> chain_state \<Rightarrow> block_header \<Rightarrow> chain_state option" where
  "applyHeader H s h =
     (if bh_Height h = 0 then
        Some (s\<lparr>cs_PrevTimestamps := (cs_PrevTimestamps s)[0 := bh_Timestamp h],
                cs_Index := BlockHeader_Index H h\<rparr>)
      else do {
        let s = s\<lparr>cs_TotalWork := Work_Add (cs_TotalWork s) (cs_Difficulty s)\<rparr>;
        s \<leftarrow> (if bh_Height h mod DifficultyAdjustmentInterval s = 0
              then do {
                d \<leftarrow> adjustDifficulty s h;
                Some (s\<lparr>cs_Difficulty := d, cs_LastAdjust := bh_Timestamp h\<rparr>)
              } else Some s);
        let s = s\<lparr>cs_PrevTimestamps :=
                    (if numTimestamps s < length (cs_PrevTimestamps s)
                     then (cs_PrevTimestamps s)[numTimestamps s := bh_Timestamp h]
                     else tl (cs_PrevTimestamps s) @ [bh_Timestamp h])\<rparr>;
        Some (s\<lparr>cs_Index := BlockHeader_Index H h\<rparr>)
      })"

section \<open>Elements\<close>

definition block_inputs :: "block \<Rightarrow> txn_input list" where
  "block_inputs b = concat (map tx_Inputs (b_Transactions b))"

definition updatedInBlock ::
    "hashfn \<Rightarrow> chain_state \<Rightarrow> block \<Rightarrow> bool \<Rightarrow> output_element list \<times> element_leaf list" where
  "updatedInBlock H s b apply =
     (let oes = map in_Parent (filter (\<lambda>i. \<not> is_ephemeral i) (block_inputs b))
      in (oes, map (\<lambda>oe. OutputLeaf H oe apply) oes))"

text \<open>\<open>nextElement\<close> numbers the outputs of a transaction; their leaf index is filled in later.\<close>

fun created_outputs :: "transaction_id \<Rightarrow> u64 \<Rightarrow> txn_output list \<Rightarrow> output_element list" where
  "created_outputs txid index [] = []"
| "created_outputs txid index (out # outs) =
     \<lparr>oe_SE = \<lparr>se_ID = \<lparr>ei_Source = txid, ei_Index = index\<rparr>, se_LeafIndex = 0, se_MerkleProof = []\<rparr>,
      oe_Output = out, oe_MaturityHeight = 0\<rparr> # created_outputs txid (index + 1) outs"

definition createdInBlock :: "hashfn \<Rightarrow> chain_state \<Rightarrow> block \<Rightarrow> output_element list option" where
  "createdInBlock H s b = do {
     reward \<leftarrow> BlockReward s;
     Some (\<lparr>oe_SE = \<lparr>se_ID = Block_MinerOutputID H b, se_LeafIndex = 0, se_MerkleProof = []\<rparr>,
            oe_Output = \<lparr>out_Value = reward, out_Address = bh_MinerAddress (b_Header b)\<rparr>,
            oe_MaturityHeight = State_MaturityHeight s\<rparr>
           # concat (map (\<lambda>txn. created_outputs (Transaction_ID H txn) 0 (tx_Outputs txn)) (b_Transactions b)))
   }"

section \<open>ApplyBlock\<close>

record apply_update =
  au_Element :: element_apply_update
  au_History :: history_apply_update
  au_State :: chain_state
  au_SpentOutputs :: "output_element list"
  au_NewOutputElements :: "output_element list"

definition ephemeral_spent :: "block \<Rightarrow> element_id list" where
  "ephemeral_spent b = map (\<lambda>i. se_ID (oe_SE (in_Parent i))) (filter is_ephemeral (block_inputs b))"

definition ApplyBlock :: "hashfn \<Rightarrow> chain_state \<Rightarrow> block \<Rightarrow> apply_update option" where
  "ApplyBlock H s b =
     (if 0 < ci_Height (cs_Index s) \<and> cs_Index s \<noteq> BlockHeader_ParentIndex (b_Header b) then None
      else do {
        let (spentOutputs, updated) = updatedInBlock H s b True;
        newOutputs \<leftarrow> createdInBlock H s b;
        let created = map (\<lambda>oe. OutputLeaf H oe (se_ID (oe_SE oe) \<in> set (ephemeral_spent b))) newOutputs;
        (elements, eau, created) \<leftarrow> ElementAccumulator_ApplyBlock H (cs_Elements s) updated created;
        let newOutputs = map (\<lambda>(oe, l). oe\<lparr>oe_SE := el_SE l\<rparr>) (zip newOutputs created);
        (history, hau) \<leftarrow> HistoryAccumulator_ApplyBlock H (cs_History s) (Block_Index H b);
        s' \<leftarrow> applyHeader H (s\<lparr>cs_Elements := elements, cs_History := history\<rparr>) (b_Header b);
        Some \<lparr>au_Element = eau, au_History = hau, au_State = s', au_SpentOutputs = spentOutputs,
              au_NewOutputElements = newOutputs\<rparr>
      })"

definition ApplyUpdate_OutputElementWasSpent :: "apply_update \<Rightarrow> output_element \<Rightarrow> bool" where
  "ApplyUpdate_OutputElementWasSpent au oe \<longleftrightarrow>
     list_ex (\<lambda>o'. se_LeafIndex (oe_SE o') = se_LeafIndex (oe_SE oe)) (au_SpentOutputs au)"

definition update_input_proof ::
    "(state_element \<Rightarrow> state_element option) \<Rightarrow> txn_input \<Rightarrow> txn_input option" where
  "update_input_proof upd inp =
     (if is_ephemeral inp then Some inp
      else do {
        e \<leftarrow> upd (oe_SE (in_Parent inp));
        Some (inp\<lparr>in_Parent := (in_Parent inp)\<lparr>oe_SE := e\<rparr>\<rparr>)
      })"

definition ApplyUpdate_UpdateTransactionProofs ::
    "hashfn \<Rightarrow> apply_update \<Rightarrow> transaction \<Rightarrow> transaction option" where
  "ApplyUpdate_UpdateTransactionProofs H au txn = do {
     is \<leftarrow> map_option_list
            (update_input_proof (ElementApplyUpdate_UpdateElementProof H (au_Element au))) (tx_Inputs txn);
     Some (txn\<lparr>tx_Inputs := is\<rparr>)
   }"

definition GenesisUpdate :: "hashfn \<Rightarrow> block \<Rightarrow> work \<Rightarrow> apply_update option" where
  "GenesisUpdate H b initialDifficulty =
     ApplyBlock H (genesis_state (bh_Timestamp (b_Header b)) initialDifficulty) b"

section \<open>RevertBlock\<close>

record revert_update =
  ru_Element :: element_revert_update
  ru_History :: history_revert_update
  ru_State :: chain_state
  ru_SpentOutputs :: "output_element list"
  ru_NewOutputElements :: "output_element list"

definition RevertUpdate_OutputElementWasRemoved :: "revert_update \<Rightarrow> output_element \<Rightarrow> bool" where
  "RevertUpdate_OutputElementWasRemoved ru oe \<longleftrightarrow>
     se_LeafIndex (oe_SE oe) \<noteq> EphemeralLeafIndex
     \<and> acc_NumLeaves (cs_Elements (ru_State ru)) \<le> se_LeafIndex (oe_SE oe)"

definition RevertUpdate_UpdateTransactionProofs ::
    "hashfn \<Rightarrow> revert_update \<Rightarrow> transaction \<Rightarrow> transaction option" where
  "RevertUpdate_UpdateTransactionProofs H ru txn = do {
     is \<leftarrow> map_option_list
            (update_input_proof (ElementRevertUpdate_UpdateElementProof H (ru_Element ru))) (tx_Inputs txn);
     Some (txn\<lparr>tx_Inputs := is\<rparr>)
   }"

definition RevertBlock :: "hashfn \<Rightarrow> chain_state \<Rightarrow> block \<Rightarrow> revert_update option" where
  "RevertBlock H s b =
     (if bh_Height (b_Header b) = 0 then None
      else if cs_Index s \<noteq> BlockHeader_ParentIndex (b_Header b) then None
      else do {
        let (spentOutputs, updated) = updatedInBlock H s b False;
        newOutputs \<leftarrow> createdInBlock H s b;
        eru \<leftarrow> ElementAccumulator_RevertBlock (cs_Elements s) updated;
        Some \<lparr>ru_Element = eru, ru_History = HistoryAccumulator_RevertBlock (cs_History s) (Block_Index H b),
              ru_State = s, ru_SpentOutputs = spentOutputs, ru_NewOutputElements = newOutputs\<rparr>
      })"

section \<open>Difficulty\<close>

text \<open>
  The clamped quotient: as long as the product with the expected time fits in 256 bits, the
  difficulty changes by a factor between 1/4 and 4.
\<close>

definition expected_delta :: nat where
  "expected_delta = 1209600000000000"

definition clamped_delta :: "chain_state \<Rightarrow> block_header \<Rightarrow> nat" where
  "clamped_delta s h =
     nat (max (int expected_delta div 4) (min (int expected_delta * 4) (bh_Timestamp h - cs_LastAdjust s)))"

lemma clamped_delta_bounds: "expected_delta div 4 \<le> clamped_delta s h" "clamped_delta s h \<le> 4 * expected_delta"
  by (auto simp: clamped_delta_def expected_delta_def)

lemma adjustDifficulty_nat:
  "\<exists>d. adjustDifficulty s h = Some d \<and>
     work_nat d = work_nat (cs_Difficulty s) * expected_delta mod 2 ^ 256 div clamped_delta s h"
proof -
  let ?e = "int expected_delta"
  let ?a = "max (?e div 4) (min (?e * 4) (bh_Timestamp h - cs_LastAdjust s))"
  have e: "BlockInterval s * int (unat (DifficultyAdjustmentInterval s)) = ?e"
    by (simp add: BlockInterval_def DifficultyAdjustmentInterval_def expected_delta_def)
  have a: "(if ?e * 4 < time_Sub (bh_Timestamp h) (cs_LastAdjust s) then ?e * 4
      else if time_Sub (bh_Timestamp h) (cs_LastAdjust s) < ?e div 4 then ?e div 4
      else time_Sub (bh_Timestamp h) (cs_LastAdjust s)) = ?a"
    by (auto simp: time_Sub_def expected_delta_def)
  have ca: "?a = int (clamped_delta s h)" by (simp add: clamped_delta_def expected_delta_def)
  have u: "unat (word_of_int (int n) :: u64) = n" if "n < 2 ^ 64" for n
    using unat_of_nat64 [OF that] by simp
  have lt: "expected_delta < 2 ^ 64" "clamped_delta s h < 2 ^ 64"
    using clamped_delta_bounds(2) [of s h] by (simp_all add: expected_delta_def)
  have pos: "0 < clamped_delta s h" using clamped_delta_bounds(1) [of s h] by (simp add: expected_delta_def)
  have "(word_of_int ?a :: u64) \<noteq> 0"
    unfolding ca nonzero_unat u [OF lt(2)] by (rule pos)
  from Work_Div64_nat [OF this, of "Work_Mul64 (cs_Difficulty s) (word_of_int ?e)"] obtain d where
    d: "Work_Div64 (Work_Mul64 (cs_Difficulty s) (word_of_int ?e)) (word_of_int ?a) = Some d"
    "work_nat d = work_nat (Work_Mul64 (cs_Difficulty s) (word_of_int ?e)) div unat (word_of_int ?a :: u64)" by blast
  have "work_nat (Work_Mul64 (cs_Difficulty s) (word_of_int ?e)) = work_nat (cs_Difficulty s) * expected_delta mod 2 ^ 256"
    unfolding Work_Mul64_word unat_word_ariths unat_ucast256 u [OF lt(1)] by simp
  moreover have "unat (word_of_int ?a :: u64) = clamped_delta s h" unfolding ca by (rule u [OF lt(2)])
  ultimately show ?thesis unfolding adjustDifficulty_def Let_def e a using d by auto
qed

lemma applyHeader_total: "\<exists>s'. applyHeader H s h = Some s' \<and> cs_Index s' = BlockHeader_Index H h
    \<and> cs_Elements s' = cs_Elements s \<and> cs_History s' = cs_History s"
proof (cases "bh_Height h = 0")
  case False
  obtain d where "adjustDifficulty (s\<lparr>cs_TotalWork := Work_Add (cs_TotalWork s) (cs_Difficulty s)\<rparr>) h = Some d"
    using adjustDifficulty_nat by blast
  then show ?thesis using False by (simp add: applyHeader_def Let_def)
qed (simp add: applyHeader_def)

section \<open>Blocks against the ledger\<close>

definition spent_parents :: "block \<Rightarrow> output_element list" where
  "spent_parents b = map in_Parent (filter (\<lambda>i. \<not> is_ephemeral i) (block_inputs b))"

definition spent_leaves :: "hashfn \<Rightarrow> block \<Rightarrow> bool \<Rightarrow> element_leaf list" where
  "spent_leaves H b spent = map (\<lambda>oe. OutputLeaf H oe spent) (spent_parents b)"

lemma updatedInBlock_eq: "updatedInBlock H s b apply = (spent_parents b, spent_leaves H b apply)"
  by (simp add: updatedInBlock_def spent_parents_def spent_leaves_def)

definition new_elements :: "hashfn \<Rightarrow> chain_state \<Rightarrow> block \<Rightarrow> output_element list" where
  "new_elements H s b = (case createdInBlock H s b of Some oes \<Rightarrow> oes | None \<Rightarrow> [])"

lemma createdInBlock_eq: "createdInBlock H s b = Some (new_elements H s b)"
  using BlockReward_nat [of s] by (auto simp: new_elements_def createdInBlock_def)

definition created_leaves :: "hashfn \<Rightarrow> chain_state \<Rightarrow> block \<Rightarrow> element_leaf list" where
  "created_leaves H s b =
     map (\<lambda>oe. OutputLeaf H oe (se_ID (oe_SE oe) \<in> set (ephemeral_spent b))) (new_elements H s b)"

text \<open>The ledger after a block: the parents of its inputs are spent and the new outputs follow.\<close>

definition ledger_apply :: "hashfn \<Rightarrow> chain_state \<Rightarrow> block \<Rightarrow> ledger \<Rightarrow> ledger" where
  "ledger_apply H s b A = ledger_update (spent_leaves H b True) A @ map leaf_data (created_leaves H s b)"

definition state_repr :: "hashfn \<Rightarrow> ledger \<Rightarrow> chain_index list \<Rightarrow> chain_state \<Rightarrow> bool" where
  "state_repr H A hs s \<longleftrightarrow> acc_repr H A (cs_Elements s) \<and> history_repr H hs (cs_History s)"

text \<open>What the application of a block relies on; \<open>block_ok_if_valid\<close> derives it from validation.\<close>

definition block_ok :: "hashfn \<Rightarrow> ledger \<Rightarrow> chain_state \<Rightarrow> block \<Rightarrow> bool" where
  "block_ok H A s b \<longleftrightarrow>
     cs_Index s = BlockHeader_ParentIndex (b_Header b)
     \<and> (\<forall>oe\<in>set (spent_parents b). leaf_in H A (OutputLeaf H oe False))
     \<and> distinct (map (\<lambda>oe. unat (se_LeafIndex (oe_SE oe))) (spent_parents b))"

lemma numbered_simps [simp]:
  "el_LeafIndex (numbered n ls j) = word_of_nat (n + j)" "el_ElementHash (numbered n ls j) = el_ElementHash (ls ! j)"
  "el_Spent (numbered n ls j) = el_Spent (ls ! j)" "se_ID (el_SE (numbered n ls j)) = se_ID (el_SE (ls ! j))"
  by (simp_all add: numbered_def)

text \<open>The new elements as \<open>ApplyBlock\<close> returns them.\<close>

definition placed_elements :: "hashfn \<Rightarrow> chain_state \<Rightarrow> block \<Rightarrow> ledger \<Rightarrow> output_element list" where
  "placed_elements H s b A =
     (let B = ledger_apply H s b A; oes = new_elements H s b in
      map (\<lambda>j. (oes ! j)\<lparr>oe_SE := \<lparr>se_ID = se_ID (oe_SE (oes ! j)), se_LeafIndex = word_of_nat (length A + j),
                 se_MerkleProof = valid_proof H B (length A + j)\<rparr>\<rparr>) [0..<length oes])"

text \<open>The genesis block has no parent; any other block is applied to the state after its parent.\<close>

lemma ApplyBlock_unspent:
  assumes rep: "state_repr H A hs s"
    and parent: "0 < ci_Height (cs_Index s) \<longrightarrow> cs_Index s = BlockHeader_ParentIndex (b_Header b)"
    and ok: "\<forall>oe\<in>set (spent_parents b). leaf_in H A (OutputLeaf H oe False)"
      "distinct (map (\<lambda>oe. unat (se_LeafIndex (oe_SE oe))) (spent_parents b))"
    and n: "length A + length (new_elements H s b) < 2 ^ 62" "length hs < 2 ^ 62"
  shows "\<exists>au. ApplyBlock H s b = Some au
    \<and> state_repr H (ledger_apply H s b A) (hs @ [Block_Index H b]) (au_State au)
    \<and> cs_Index (au_State au) = Block_Index H b
    \<and> au_SpentOutputs au = spent_parents b
    \<and> au_NewOutputElements au = placed_elements H s b A
    \<and> (\<forall>e. element_in H A e \<longrightarrow> ElementApplyUpdate_UpdateElementProof H (au_Element au) e =
          Some (e\<lparr>se_MerkleProof := valid_proof H (ledger_apply H s b A) (unat (se_LeafIndex e))\<rparr>))
    \<and> (\<forall>i<length hs. HistoryApplyUpdate_UpdateProof (au_History au) (history_proof H hs i)
          = Some (history_proof H (hs @ [Block_Index H b]) i))"
proof -
  let ?us = "spent_leaves H b True" and ?cs = "created_leaves H s b" and ?B = "ledger_apply H s b A"
  let ?oes = "new_elements H s b"
  have acc: "acc_repr H A (cs_Elements s)" and hist: "history_repr H hs (cs_History s)"
    using rep by (simp_all add: state_repr_def)
  have len: "length ?cs = length ?oes" by (simp add: created_leaves_def)
  have "distinct (map idx ?us)"
    using ok(2) by (simp add: spent_leaves_def comp_def)
  moreover have "element_in H A (el_SE l)" if "l \<in> set ?us" for l
    using that ok(1) by (auto simp: spent_leaves_def leaf_in_def element_in_def)
  ultimately obtain acc' eau added where
    ea: "ElementAccumulator_ApplyBlock H (cs_Elements s) ?us ?cs = Some (acc', eau, added)"
    "acc_repr H ?B acc'"
    "added = map (\<lambda>j. set_proof (valid_proof H ?B (length A + j)) (numbered (length A) ?cs j)) [0..<length ?cs]"
    "\<And>e. element_in H A e \<Longrightarrow> ElementApplyUpdate_UpdateElementProof H eau e =
          Some (e\<lparr>se_MerkleProof := valid_proof H ?B (unat (se_LeafIndex e))\<rparr>)"
    using ApplyBlock_ledger [OF acc, of ?cs ?us ?B] n(1) by (auto simp: len ledger_apply_def)
  obtain hist' hau where ha: "HistoryAccumulator_ApplyBlock H (cs_History s) (Block_Index H b) = Some (hist', hau)"
    "history_repr H (hs @ [Block_Index H b]) hist'"
    "\<And>i. i < length hs \<Longrightarrow> HistoryApplyUpdate_UpdateProof hau (history_proof H hs i)
        = Some (history_proof H (hs @ [Block_Index H b]) i)"
    using History_ApplyBlock [OF hist n(2)] by blast
  let ?s = "s\<lparr>cs_Elements := acc', cs_History := hist'\<rparr>"
  obtain s' where s': "applyHeader H ?s (b_Header b) = Some s'" "cs_Index s' = Block_Index H b"
    "cs_Elements s' = acc'" "cs_History s' = hist'"
    using applyHeader_total [of H ?s "b_Header b"] by (auto simp: Block_Index_def)
  have placed: "map (\<lambda>(oe, l). oe\<lparr>oe_SE := el_SE l\<rparr>) (zip ?oes added) = placed_elements H s b A"
    by (rule nth_equalityI)
      (simp_all add: ea(3) len placed_elements_def Let_def set_proof_def numbered_def created_leaves_def)
  have "ApplyBlock H s b = Some \<lparr>au_Element = eau, au_History = hau, au_State = s',
      au_SpentOutputs = spent_parents b, au_NewOutputElements = placed_elements H s b A\<rparr>"
    using ea(1) ha(1) s'(1) placed parent
    by (auto simp add: ApplyBlock_def updatedInBlock_eq createdInBlock_eq Let_def created_leaves_def [symmetric])
  then show ?thesis
    using ea(2,4) ha(2,3) s'(2-4) by (simp add: state_repr_def)
qed

theorem ApplyBlock_refines:
  assumes rep: "state_repr H A hs s" and ok: "block_ok H A s b"
    and n: "length A + length (new_elements H s b) < 2 ^ 62" "length hs < 2 ^ 62"
  shows "\<exists>au. ApplyBlock H s b = Some au
    \<and> state_repr H (ledger_apply H s b A) (hs @ [Block_Index H b]) (au_State au)
    \<and> cs_Index (au_State au) = Block_Index H b
    \<and> au_SpentOutputs au = spent_parents b
    \<and> au_NewOutputElements au = placed_elements H s b A
    \<and> (\<forall>e. element_in H A e \<longrightarrow> ElementApplyUpdate_UpdateElementProof H (au_Element au) e =
          Some (e\<lparr>se_MerkleProof := valid_proof H (ledger_apply H s b A) (unat (se_LeafIndex e))\<rparr>))
    \<and> (\<forall>i<length hs. HistoryApplyUpdate_UpdateProof (au_History au) (history_proof H hs i)
          = Some (history_proof H (hs @ [Block_Index H b]) i))"
  using ok by (intro ApplyBlock_unspent [OF rep _ _ _ n]) (simp_all add: block_ok_def)

lemma ApplyBlock_header:
  assumes "ApplyBlock H s b = Some au"
  obtains acc hist where "applyHeader H (s\<lparr>cs_Elements := acc, cs_History := hist\<rparr>) (b_Header b) = Some (au_State au)"
  using assms by (auto simp: ApplyBlock_def Let_def split: if_splits Option.bind_splits prod.splits)

theorem RevertBlock_refines:
  assumes rep: "state_repr H A hs s" and ok: "block_ok H A s b" and h: "bh_Height (b_Header b) \<noteq> 0"
    and n: "length A + length (new_elements H s b) < 2 ^ 62"
  shows "\<exists>ru. RevertBlock H s b = Some ru \<and> ru_State ru = s \<and> ru_SpentOutputs ru = spent_parents b
    \<and> ru_NewOutputElements ru = new_elements H s b
    \<and> (\<forall>oe. RevertUpdate_OutputElementWasRemoved ru oe \<longleftrightarrow>
          se_LeafIndex (oe_SE oe) \<noteq> EphemeralLeafIndex \<and> length A \<le> unat (se_LeafIndex (oe_SE oe)))
    \<and> (\<forall>e. element_in H (ledger_apply H s b A) e \<longrightarrow> unat (se_LeafIndex e) < length A \<longrightarrow>
        ElementRevertUpdate_UpdateElementProof H (ru_Element ru) e =
          Some (e\<lparr>se_MerkleProof := valid_proof H A (unat (se_LeafIndex e))\<rparr>))"
proof -
  let ?us = "spent_leaves H b False" and ?B = "ledger_apply H s b A"
  have acc: "acc_repr H A (cs_Elements s)" using rep by (simp add: state_repr_def)
  have N: "unat (acc_NumLeaves (cs_Elements s)) = length A" using acc by (simp add: acc_repr_def represents_def)
  have parent: "cs_Index s = BlockHeader_ParentIndex (b_Header b)" using ok by (simp add: block_ok_def)
  have d: "distinct (map idx (spent_leaves H b True))" and i: "idx ` set ?us = idx ` set (spent_leaves H b True)"
    using ok by (simp_all add: block_ok_def spent_leaves_def comp_def image_image)
  have us: "leaf_in H A l" if "l \<in> set ?us" for l
    using that ok by (auto simp: block_ok_def spent_leaves_def)
  have same: "?B ! k = A ! k" if "k < length A" "k \<notin> idx ` set ?us" for k
    using nth_ledger_update [OF that(1) d] that by (simp add: i ledger_apply_def nth_append)
  have n0: "length A < 2 ^ 62" using n by simp
  have le: "length A \<le> length ?B" by (simp add: ledger_apply_def)
  from RevertBlock_ledger [OF acc n0 us le same] obtain eru where
    eru: "ElementAccumulator_RevertBlock (cs_Elements s) ?us = Some eru"
    "\<And>e. element_in H ?B e \<Longrightarrow> unat (se_LeafIndex e) < length A \<Longrightarrow>
        ElementRevertUpdate_UpdateElementProof H eru e = Some (e\<lparr>se_MerkleProof := valid_proof H A (unat (se_LeafIndex e))\<rparr>)"
    by blast
  then show ?thesis
    using h N by (simp add: RevertBlock_def parent updatedInBlock_eq createdInBlock_eq
        RevertUpdate_OutputElementWasRemoved_def word_le_nat_alt)
qed

section \<open>Validated blocks\<close>

text \<open>What is hashed when the parents of a block's inputs are looked up.\<close>

definition block_preimages :: "hashfn \<Rightarrow> ledger \<Rightarrow> block \<Rightarrow> byte list list" where
  "block_preimages H A b =
     ledger_preimages H A
     @ concat (map (\<lambda>oe. output_preimage oe # leaf_preimages H (OutputLeaf H oe False)) (spent_parents b))"

lemma output_preimage_inj:
  "output_preimage e = output_preimage e' \<longleftrightarrow>
     se_ID (oe_SE e) = se_ID (oe_SE e') \<and> oe_Output e = oe_Output e' \<and> oe_MaturityHeight e = oe_MaturityHeight e'"
proof
  assume "output_preimage e = output_preimage e'"
  then have "ElementID_EncodeTo (se_ID (oe_SE e)) @ Output_EncodeTo (oe_Output e) @ WriteUint64 (oe_MaturityHeight e)
    = ElementID_EncodeTo (se_ID (oe_SE e')) @ Output_EncodeTo (oe_Output e') @ WriteUint64 (oe_MaturityHeight e')"
    by (simp add: output_preimage_def)
  then show "se_ID (oe_SE e) = se_ID (oe_SE e') \<and> oe_Output e = oe_Output e' \<and> oe_MaturityHeight e = oe_MaturityHeight e'"
    by (auto dest!: element_id.prefix_free [OF TrueI TrueI] txn_output.prefix_free [OF TrueI TrueI]
        simp: uint64.enc_inj)
qed (simp add: output_preimage_def)

lemma parent_ids_block: "concat (map parent_ids (b_Transactions b)) = map (\<lambda>i. se_ID (oe_SE (in_Parent i))) (block_inputs b)"
  by (simp add: parent_ids_def [abs_def] block_inputs_def map_concat comp_def)

lemma in_block_inputs: "inp \<in> set (block_inputs b) \<Longrightarrow> \<exists>txn\<in>set (b_Transactions b). inp \<in> set (tx_Inputs txn)"
  by (auto simp: block_inputs_def)

theorem block_ok_if_valid:
  assumes acc: "acc_repr H A (cs_Elements s)" and v: "ValidateBlock H verify s b = valid"
    and inj: "inj_on H (set (block_preimages H A b))"
  shows "block_ok H A s b"
proof -
  have hdr: "validateHeader H s (b_Header b) = valid"
    and ts: "ValidateTransactionSet H verify s (b_Transactions b) = valid"
    using v by (simp_all add: ValidateBlock_valid)
  note set = ValidateTransactionSet_sound [OF ts]
  have parent: "cs_Index s = BlockHeader_ParentIndex (b_Header b)"
    using hdr by (cases "cs_Index s") (simp add: validateHeader_valid BlockHeader_ParentIndex_def)
  have leaf: "leaf_in H A (OutputLeaf H oe False)" if oe: "oe \<in> set (spent_parents b)" for oe
  proof -
    obtain inp where inp: "inp \<in> set (block_inputs b)" "\<not> is_ephemeral inp" "oe = in_Parent inp"
      using oe by (auto simp: spent_parents_def)
    obtain txn where txn: "txn \<in> set (b_Transactions b)" "inp \<in> set (tx_Inputs txn)"
      using in_block_inputs [OF inp(1)] by blast
    have "ContainsUnspentOutputElement H (cs_Elements s) oe"
      using set(4) txn inp(2,3) by (auto simp: txn_valid_def)
    moreover have "inj_on H (set (ledger_preimages H A @ leaf_preimages H (OutputLeaf H oe False)))"
      using oe by (intro inj_on_subset [OF inj]) (auto simp: block_preimages_def)
    ultimately show ?thesis
      using containsLeaf_sound [OF acc] by (simp add: ContainsUnspentOutputElement_def)
  qed
  have "distinct (map (\<lambda>oe. se_ID (oe_SE oe)) (spent_parents b))"
    using set(2) unfolding parent_ids_block spent_parents_def
    by (simp add: comp_def distinct_map_filter)
  moreover have "se_ID (oe_SE x) = se_ID (oe_SE y)"
    if xy: "x \<in> set (spent_parents b)" "y \<in> set (spent_parents b)"
      "unat (se_LeafIndex (oe_SE x)) = unat (se_LeafIndex (oe_SE y))" for x y
  proof -
    have "H (output_preimage x) = H (output_preimage y)"
      using leaf [OF xy(1)] leaf [OF xy(2)] xy(3) by (simp add: leaf_in_def)
    then have "output_preimage x = output_preimage y"
      using xy(1,2) by (intro inj_onD [OF inj]) (auto simp: block_preimages_def)
    then show ?thesis by (simp add: output_preimage_inj)
  qed
  ultimately have "distinct (map (\<lambda>oe. unat (se_LeafIndex (oe_SE oe))) (spent_parents b))"
    unfolding distinct_map inj_on_def by blast
  then show ?thesis using parent leaf by (simp add: block_ok_def)
qed

text \<open>Once a block has spent an output, no element with that output is unspent any more.\<close>

theorem spent_stays_spent:
  assumes rep: "acc_repr H (ledger_apply H s b A) acc" and ok: "block_ok H A s b"
    and oe: "oe \<in> set (spent_parents b)" and e: "se_LeafIndex (oe_SE e) = se_LeafIndex (oe_SE oe)"
    and inj: "inj_on H (set (ledger_preimages H (ledger_apply H s b A) @ leaf_preimages H (OutputLeaf H e False)))"
  shows "\<not> ContainsUnspentOutputElement H acc e"
proof
  assume "ContainsUnspentOutputElement H acc e"
  then have l: "leaf_in H (ledger_apply H s b A) (OutputLeaf H e False)"
    using containsLeaf_sound [OF rep inj] by (simp add: ContainsUnspentOutputElement_def)
  let ?i = "unat (se_LeafIndex (oe_SE oe))"
  have i: "?i < length A" using ok oe by (auto simp: block_ok_def leaf_in_def)
  have d: "distinct (map idx (spent_leaves H b True))"
    using ok by (simp add: block_ok_def spent_leaves_def comp_def)
  have "OutputLeaf H oe True \<in> set (spent_leaves H b True)" using oe by (simp add: spent_leaves_def)
  then have "ledger_update (spent_leaves H b True) A ! ?i = leaf_data (OutputLeaf H oe True)"
    using nth_ledger_update [OF i d] by (metis OutputLeaf_simps(1))
  then have "snd (ledger_apply H s b A ! ?i)" using i by (simp add: ledger_apply_def nth_append)
  then show False using l e by (simp add: leaf_in_def)
qed

end
