(* ===== verification/Consensus_Properties.thy ===== *)
theory Consensus_Properties
  imports Consensus_Update
begin

text \<open>
  What consensus/validation.go and consensus/update.go promise together: a block that validates can be applied,
  nothing it spends can be spent again, and reverting it restores every proof. The hash function is a
  parameter; where a property needs collision resistance it assumes that the hash is injective on an explicit
  finite list of inputs.
\<close>

section \<open>A concrete block\<close>

text \<open>The block spends the only output of the ledger and leaves all of its value to the fee.\<close>

definition sample_spend :: transaction where
  "sample_spend =
     \<lparr>tx_Inputs = [\<lparr>in_Parent = sample_element, in_PublicKey = 3, in_Signature = 0\<rparr>],
      tx_Outputs = [], tx_MinerFee = \<lparr>Lo = 10, Hi = 0\<rparr>\<rparr>"

definition sample_block :: block where
  "sample_block =
     \<lparr>b_Header = \<lparr>bh_Height = 1, bh_ParentID = 0, bh_Nonce = 5, bh_Timestamp = 0, bh_MinerAddress = VoidAddress,
                  bh_Commitment = Commitment sample_hash sample_state VoidAddress [sample_spend]\<rparr>,
      b_Transactions = [sample_spend]\<rparr>"

definition sample_block_of :: "transaction list \<Rightarrow> block" where
  "sample_block_of txns = sample_block\<lparr>b_Header := (b_Header sample_block)\<lparr>
     bh_Commitment := Commitment sample_hash sample_state VoidAddress txns\<rparr>, b_Transactions := txns\<rparr>"

lemma cur_ten: "cur_nat \<lparr>Lo = 10, Hi = 0\<rparr> = 10"
  by (simp add: cur_nat_def)

lemma sample_spend_valid: "txn_valid sample_hash sample_verify sample_state sample_spend"
  using sample_contains
  by (simp add: txn_valid_def sample_spend_def sample_simps sample_verify_def cur_ten sample_values(1)
      is_ephemeral_def txn_total_def value_sum_def)

lemma sample_spend_set_valid:
  "ValidateTransactionSet sample_hash sample_verify sample_state [sample_spend] = valid"
proof -
  have "validateEphemeralOutputs sample_hash [sample_spend] = valid"
    by (simp add: validateEphemeralOutputs_def sample_spend_def sample_simps Let_def)
  moreover have "noDoubleSpends [sample_spend] = valid"
    unfolding noDoubleSpends_def by (simp add: doubleSpends_loop(1)) (simp add: sample_spend_def parent_ids_def)
  moreover have "ValidateTransactions_loop sample_hash sample_verify sample_state 0 [sample_spend] = valid"
    unfolding ValidateTransactions_loop_valid(1) using sample_spend_valid by simp
  moreover have "\<not> MaxBlockWeight sample_state < BlockWeight sample_state [sample_spend]"
    by (simp add: MaxBlockWeight_def BlockWeight_def TransactionWeight_def sample_spend_def)
  ultimately show ?thesis unfolding ValidateTransactionSet_def by simp
qed

lemma sample_state_header:
  "cs_Difficulty sample_state = \<lparr>NumHashes = 1\<rparr>" "cs_Index sample_state = \<lparr>ci_Height = 0, ci_ID = 0\<rparr>"
  "medianTimestamp sample_state = Some zero_time"
  by (simp_all add: sample_state_def genesis_state_def medianTimestamp_def numTimestamps_def at_def)

lemma sample_block_of_valid:
  assumes "ValidateTransactionSet sample_hash sample_verify sample_state txns = valid"
  shows "ValidateBlock sample_hash sample_verify sample_state (sample_block_of txns) = valid"
proof -
  let ?b = "sample_block_of txns"
  have t: "HashRequiringWork (cs_Difficulty sample_state) = Some (- 1)"
    by (simp add: HashRequiringWork_def sample_state_header)
  have nz: "BlockHeader_ID sample_hash (b_Header ?b) \<noteq> 0"
    by (simp add: BlockHeader_ID_def HashBytes_def)
  obtain w where w: "WorkRequiredForHash (BlockHeader_ID sample_hash (b_Header ?b)) = Some w"
    using nz by (simp add: WorkRequiredForHash_eq)
  have "NumHashes (cs_Difficulty sample_state) \<noteq> 0" by (simp add: sample_state_header)
  from MeetsTarget_iff [OF this nz t w]
  have "validateHeader sample_hash sample_state (b_Header ?b) = valid"
    using w by (simp add: validateHeader_valid sample_state_header BlockID_MeetsTarget_def)
      (simp add: sample_block_of_def sample_block_def zero_time_def unix_to_internal_def)
  then show ?thesis using assms by (simp add: ValidateBlock_valid sample_block_of_def sample_block_def)
qed

lemma sample_block_of_spend: "sample_block_of [sample_spend] = sample_block"
  by (simp add: sample_block_of_def sample_block_def)

lemma sample_block_valid: "ValidateBlock sample_hash sample_verify sample_state sample_block = valid"
  using sample_block_of_valid [OF sample_spend_set_valid] by (simp add: sample_block_of_spend)

lemma sample_spent_parents: "spent_parents sample_block = [sample_element]"
  by (simp add: spent_parents_def block_inputs_def sample_block_def sample_spend_def is_ephemeral_def sample_simps)

lemma sample_created: "length (new_elements sample_hash sample_state sample_block) = 1"
proof -
  obtain c where c: "BlockReward sample_state = Some c" using BlockReward_nat [of sample_state] by blast
  have t: "tx_Outputs sample_spend = []" "b_Transactions sample_block = [sample_spend]"
    by (simp_all add: sample_spend_def sample_block_def)
  show ?thesis by (simp add: new_elements_def createdInBlock_def c t)
qed

lemma length_output_preimage: "length (output_preimage e) = 123"
  by (simp add: WriteString_def WriteBytes_def output_preimage_def ElementID_EncodeTo_def Hash256_EncodeTo_def Output_EncodeTo_def
      Currency_EncodeTo_def Address_EncodeTo_def str_bytes_def)

lemma length_leaf_preimage: "length (leaf_preimage h i sp) = 42"
  by (simp add: leaf_preimage_def)

lemma sample_inj:
  assumes "spent_parents b = [sample_element]"
  shows "inj_on sample_hash (set (block_preimages sample_hash sample_ledger b))"
proof -
  have "sample_hash (output_preimage e) \<noteq> sample_hash (leaf_preimage h i sp)" for e h i sp
    by (rule sample_hash_length) (simp add: length_output_preimage length_leaf_preimage)
  note ne = this this [symmetric]
  have p: "se_MerkleProof (oe_SE sample_element) = []" "word_of_nat 0 = se_LeafIndex (oe_SE sample_element)"
    by (simp_all add: sample_element_def)
  show ?thesis
    by (auto simp: block_preimages_def assms ledger_preimages_def leaf_preimages_def sample_ledger_def
        forest_preimages_single p sample_simps ne inj_on_def)
qed

lemma sample_block_inj: "inj_on sample_hash (set (block_preimages sample_hash sample_ledger sample_block))"
  by (rule sample_inj [OF sample_spent_parents])

lemma sample_state_represents: "state_repr sample_hash sample_ledger [] sample_state"
  using sample_state_repr history_repr_empty [of sample_hash]
  by (simp add: state_repr_def) (simp add: sample_state_def genesis_state_def)

section \<open>Properties\<close>

text \<open>C1. A block that validates against a state can be applied to it, without panic: the new state stands for
  the ledger in which the parents of the block's inputs are spent and its new outputs are appended, the index is
  the block's, the new elements are returned with their leaf numbers and valid proofs, and the update turns the
  proof of every element of the old ledger into its valid proof in the new one.\<close>

theorem validated_block_applies:
  assumes "state_repr H A hs s" "ValidateBlock H verify s b = Some (Inr ())"
    "inj_on H (set (block_preimages H A b))"
    "length A + length (new_elements H s b) < 2 ^ 62" "length hs < 2 ^ 62"
  shows "\<exists>au. ApplyBlock H s b = Some au
    \<and> state_repr H (ledger_apply H s b A) (hs @ [Block_Index H b]) (au_State au)
    \<and> cs_Index (au_State au) = Block_Index H b
    \<and> au_SpentOutputs au = spent_parents b
    \<and> au_NewOutputElements au = placed_elements H s b A
    \<and> (\<forall>e. element_in H A e \<longrightarrow> ElementApplyUpdate_UpdateElementProof H (au_Element au) e =
          Some (e\<lparr>se_MerkleProof := valid_proof H (ledger_apply H s b A) (unat (se_LeafIndex e))\<rparr>))
    \<and> (\<forall>i<length hs. HistoryApplyUpdate_UpdateProof (au_History au) (history_proof H hs i)
          = Some (history_proof H (hs @ [Block_Index H b]) i))"
proof -
  have "acc_repr H A (cs_Elements s)" using assms(1) by (simp add: state_repr_def)
  from block_ok_if_valid [OF this assms(2,3)] show ?thesis
    using ApplyBlock_refines [OF assms(1) _ assms(4,5)] by blast
qed

theorem validated_block_applies_witness:
  "\<exists>au. ApplyBlock sample_hash sample_state sample_block = Some au
     \<and> au_SpentOutputs au = [sample_element] \<and> cs_Index (au_State au) = Block_Index sample_hash sample_block"
proof -
  have "length sample_ledger + length (new_elements sample_hash sample_state sample_block) < 2 ^ 62"
    by (simp add: sample_created sample_ledger_def)
  from validated_block_applies [OF sample_state_represents sample_block_valid sample_block_inj this] show ?thesis
    by (auto simp: sample_spent_parents)
qed

text \<open>C2. No output is spent twice on a chain: after a valid block has spent an output, a transaction with an
  input for the element at that leaf, whatever proof and values it claims, does not validate.\<close>

theorem no_double_spend:
  assumes rep: "state_repr H A hs s" and v: "ValidateBlock H verify s b = Some (Inr ())"
    and app: "ApplyBlock H s b = Some au"
    and inj: "inj_on H (set (block_preimages H A b))"
      "inj_on H (set (ledger_preimages H (ledger_apply H s b A) @ leaf_preimages H (OutputLeaf H (in_Parent inp) False)))"
    and n: "length A + length (new_elements H s b) < 2 ^ 62" "length hs < 2 ^ 62"
    and oe: "oe \<in> set (spent_parents b)"
    and inp: "inp \<in> set (tx_Inputs txn)" "se_LeafIndex (oe_SE (in_Parent inp)) = se_LeafIndex (oe_SE oe)"
  shows "ValidateTransaction H verify (au_State au) txn \<noteq> Some (Inr ())"
proof
  have acc: "acc_repr H A (cs_Elements s)" using rep by (simp add: state_repr_def)
  note ok = block_ok_if_valid [OF acc v inj(1)]
  have acc': "acc_repr H (ledger_apply H s b A) (cs_Elements (au_State au))"
    using ApplyBlock_refines [OF rep ok n] app by (auto simp: state_repr_def)
  have "\<not> is_ephemeral inp" using oe inp(2) by (auto simp: is_ephemeral_def spent_parents_def)
  moreover assume "ValidateTransaction H verify (au_State au) txn = Some (Inr ())"
  ultimately have "ContainsUnspentOutputElement H (cs_Elements (au_State au)) (in_Parent inp)"
    using inp(1) by (auto simp: ValidateTransaction_valid txn_valid_def)
  then show False using spent_stays_spent [OF acc' ok oe inp(2) inj(2)] by simp
qed

lemma sample_sizes:
  "length sample_ledger + length (new_elements sample_hash sample_state sample_block) < 2 ^ 62"
  "length ([] :: chain_index list) < 2 ^ 62"
  by (simp_all add: sample_created sample_ledger_def)

lemma two_div_pow_odd: "odd (2 div 2 ^ t :: nat) \<longleftrightarrow> t = 1"
proof -
  consider "t = 0" | "t = 1" | "2 \<le> t" by linarith
  then show ?thesis
  proof cases
    case 3
    then have "(2::nat) ^ 2 \<le> 2 ^ t" by (intro power_increasing) simp_all
    then show ?thesis using 3 by simp
  qed simp_all
qed

lemma forest_preimages_two: "forest_preimages H f 2 = [1 # array_bytes 32 (f 0) @ array_bytes 32 (f 1)]"
proof -
  have "[0..<64] = [0, 1] @ [2..<64::nat]" by (simp add: upt_rec)
  moreover have "concat (map (\<lambda>t. if odd (2 div 2 ^ t :: nat) then node_preimages H f t (2 div 2 ^ t - 1) else []) [2..<64]) = []"
    by (simp add: two_div_pow_odd)
  ultimately show ?thesis
    by (simp add: forest_preimages_def two_div_pow_odd)
qed

text \<open>The ledger after the sample block: the spent output and the miner's output.\<close>

lemma sample_ledger_after:
  "ledger_apply sample_hash sample_state sample_block sample_ledger =
     [(sample_hash (output_preimage sample_element), True),
      (sample_hash (output_preimage (hd (new_elements sample_hash sample_state sample_block))), False)]"
proof -
  have e: "ephemeral_spent sample_block = []"
    by (simp add: ephemeral_spent_def block_inputs_def sample_block_def sample_spend_def is_ephemeral_def sample_simps)
  obtain x where x: "new_elements sample_hash sample_state sample_block = [x]"
    using sample_created by (auto simp: length_Suc_conv)
  show ?thesis
    by (simp add: ledger_apply_def spent_leaves_def sample_spent_parents created_leaves_def x e sample_ledger_def
        ledger_update_def sample_simps)
qed

lemma sample_inj_after:
  "inj_on sample_hash (set (ledger_preimages sample_hash (ledger_apply sample_hash sample_state sample_block sample_ledger)
     @ leaf_preimages sample_hash (OutputLeaf sample_hash sample_element False)))"
proof -
  have k: "sample_key (leaf_preimage h i sp) = 42 + 1000 * (unat (le_bytes 8 i ! 0) + 256 * (if sp then 1 else 0))" for h i sp
    by (simp add: sample_key_def byte33_def leaf_preimage_def nth_append)
  have n: "sample_hash (1 # array_bytes 32 (l :: hash256) @ array_bytes 32 (r :: hash256)) \<noteq> sample_hash (leaf_preimage h i sp)"
    for l r h i sp by (rule sample_hash_length) (simp add: length_leaf_preimage)
  have a: "sample_hash (leaf_preimage h 0 sp) \<noteq> sample_hash (leaf_preimage h' 1 sp')" for h h' sp sp'
    by (rule sample_hash_neqI) (simp add: k le_bytes_def)
  have b: "sample_hash (leaf_preimage h 0 True) \<noteq> sample_hash (leaf_preimage h' 0 False)" for h h'
    by (rule sample_hash_neqI) (simp add: k)
  have p: "se_MerkleProof (oe_SE sample_element) = []" by (simp add: sample_element_def)
  have "distinct (map sample_hash (ledger_preimages sample_hash
      (ledger_apply sample_hash sample_state sample_block sample_ledger)
      @ leaf_preimages sample_hash (OutputLeaf sample_hash sample_element False)))"
    by (simp add: sample_ledger_after ledger_preimages_def leaf_preimages_def forest_preimages_two [unfolded numeral_2_eq_2] sample_simps p
        a a [symmetric] b b [symmetric] n n [symmetric] del: One_nat_def)
  then show ?thesis unfolding distinct_map by blast
qed

theorem no_double_spend_witness:
  "\<exists>au. ApplyBlock sample_hash sample_state sample_block = Some au
     \<and> ValidateTransaction sample_hash sample_verify (au_State au) sample_spend \<noteq> Some (Inr ())"
proof -
  have acc: "acc_repr sample_hash sample_ledger (cs_Elements sample_state)" by (rule sample_state_repr)
  note ok = block_ok_if_valid [OF acc sample_block_valid sample_block_inj]
  obtain au where au: "ApplyBlock sample_hash sample_state sample_block = Some au"
    using ApplyBlock_refines [OF sample_state_represents ok sample_sizes] by blast
  let ?inp = "\<lparr>in_Parent = sample_element, in_PublicKey = 3, in_Signature = 0\<rparr>"
  have i: "inj_on sample_hash (set (ledger_preimages sample_hash (ledger_apply sample_hash sample_state sample_block sample_ledger)
      @ leaf_preimages sample_hash (OutputLeaf sample_hash (in_Parent ?inp) False)))"
    using sample_inj_after by simp
  have m: "sample_element \<in> set (spent_parents sample_block)" "?inp \<in> set (tx_Inputs sample_spend)"
    "se_LeafIndex (oe_SE (in_Parent ?inp)) = se_LeafIndex (oe_SE sample_element)"
    by (simp_all add: sample_spent_parents sample_spend_def)
  from no_double_spend [OF sample_state_represents sample_block_valid au sample_block_inj i sample_sizes m] au
  show ?thesis by blast
qed

text \<open>C3. Reverting the block that was just applied does not panic, gives back the old state, and takes the
  updated proof of every element of the old ledger back to the element as it was before the block; elements
  that the block created are recognised as removed.\<close>

theorem revert_restores_proofs:
  assumes rep: "state_repr H A hs s" and v: "ValidateBlock H verify s b = Some (Inr ())"
    and h: "bh_Height (b_Header b) \<noteq> 0" and app: "ApplyBlock H s b = Some au"
    and inj: "inj_on H (set (block_preimages H A b))"
    and n: "length A + length (new_elements H s b) < 2 ^ 62" "length hs < 2 ^ 62"
  shows "\<exists>ru. RevertBlock H s b = Some ru \<and> ru_State ru = s \<and> ru_SpentOutputs ru = au_SpentOutputs au
    \<and> (\<forall>e. element_in H A e \<longrightarrow>
        (\<exists>e'. ElementApplyUpdate_UpdateElementProof H (au_Element au) e = Some e'
            \<and> ElementRevertUpdate_UpdateElementProof H (ru_Element ru) e' = Some e))
    \<and> (\<forall>oe\<in>set (au_NewOutputElements au). RevertUpdate_OutputElementWasRemoved ru oe)"
proof -
  let ?B = "ledger_apply H s b A"
  have acc: "acc_repr H A (cs_Elements s)" using rep by (simp add: state_repr_def)
  note ok = block_ok_if_valid [OF acc v inj]
  obtain ru where ru: "RevertBlock H s b = Some ru" "ru_State ru = s" "ru_SpentOutputs ru = spent_parents b"
    "\<And>oe. RevertUpdate_OutputElementWasRemoved ru oe \<longleftrightarrow>
        se_LeafIndex (oe_SE oe) \<noteq> EphemeralLeafIndex \<and> length A \<le> unat (se_LeafIndex (oe_SE oe))"
    "\<And>e. element_in H ?B e \<Longrightarrow> unat (se_LeafIndex e) < length A \<Longrightarrow>
        ElementRevertUpdate_UpdateElementProof H (ru_Element ru) e =
          Some (e\<lparr>se_MerkleProof := valid_proof H A (unat (se_LeafIndex e))\<rparr>)"
    using RevertBlock_refines [OF rep ok h n(1)] by blast
  have au: "au_SpentOutputs au = spent_parents b" "au_NewOutputElements au = placed_elements H s b A"
    "\<And>e. element_in H A e \<Longrightarrow> ElementApplyUpdate_UpdateElementProof H (au_Element au) e =
          Some (e\<lparr>se_MerkleProof := valid_proof H ?B (unat (se_LeafIndex e))\<rparr>)"
    using ApplyBlock_refines [OF rep ok n] app by auto
  have "\<exists>e'. ElementApplyUpdate_UpdateElementProof H (au_Element au) e = Some e'
            \<and> ElementRevertUpdate_UpdateElementProof H (ru_Element ru) e' = Some e" if e: "element_in H A e" for e
  proof -
    let ?e = "e\<lparr>se_MerkleProof := valid_proof H ?B (unat (se_LeafIndex e))\<rparr>"
    have "element_in H ?B ?e" "unat (se_LeafIndex ?e) < length A"
      using e by (simp_all add: element_in_def ledger_apply_def)
    from ru(5) [OF this] show ?thesis using au(3) [OF e] e by (simp add: element_in_def)
  qed
  moreover have "RevertUpdate_OutputElementWasRemoved ru oe" if new: "oe \<in> set (au_NewOutputElements au)" for oe
  proof -
    obtain j where "j < length (new_elements H s b)" "se_LeafIndex (oe_SE oe) = word_of_nat (length A + j)"
      using new by (auto simp: au(2) placed_elements_def Let_def simp del: of_nat_add)
    moreover have u: "unat (word_of_nat (length A + j) :: u64) = length A + j" if "j < length (new_elements H s b)"
      using that n(1) by (intro unat_of_nat64) simp
    ultimately have i: "unat (se_LeafIndex (oe_SE oe)) = length A + j" "length A + j < 2 ^ 62" using n(1) by simp_all
    moreover have "unat EphemeralLeafIndex = 2 ^ 64 - 1"
      by (simp add: EphemeralLeafIndex_def unsigned_minus_1_eq_mask mask_eq_exp_minus_1)
    ultimately have "se_LeafIndex (oe_SE oe) \<noteq> EphemeralLeafIndex" by auto
    then show ?thesis using i by (simp add: ru(4))
  qed
  ultimately show ?thesis using ru(1-3) au(1) by auto
qed

theorem revert_restores_proofs_witness:
  "\<exists>ru. RevertBlock sample_hash sample_state sample_block = Some ru \<and> ru_State ru = sample_state"
proof -
  have acc: "acc_repr sample_hash sample_ledger (cs_Elements sample_state)" by (rule sample_state_repr)
  note ok = block_ok_if_valid [OF acc sample_block_valid sample_block_inj]
  obtain au where au: "ApplyBlock sample_hash sample_state sample_block = Some au"
    using ApplyBlock_refines [OF sample_state_represents ok sample_sizes] by blast
  have "bh_Height (b_Header sample_block) \<noteq> 0" by (simp add: sample_block_def)
  from revert_restores_proofs [OF sample_state_represents sample_block_valid this au sample_block_inj sample_sizes]
  show ?thesis by blast
qed



section \<open>Where the difficulty ends\<close>

text \<open>
  Below a difficulty of four the rounding of the quotient can reach zero, and \<open>HashRequiringWork\<close> panics on it: no
  block can be mined on such a state any more.
\<close>

definition slow_state :: chain_state where
  "slow_state = sample_state\<lparr>cs_Difficulty := \<lparr>NumHashes = 3\<rparr>, cs_LastAdjust := 0\<rparr>"

lemma difficulty_can_vanish:
  "\<exists>d. adjustDifficulty slow_state ((b_Header sample_block)\<lparr>bh_Timestamp := 4 * int expected_delta\<rparr>) = Some d
     \<and> HashRequiringWork d = None"
proof -
  let ?h = "(b_Header sample_block)\<lparr>bh_Timestamp := 4 * int expected_delta\<rparr>"
  obtain d where d: "adjustDifficulty slow_state ?h = Some d"
    "work_nat d = work_nat (cs_Difficulty slow_state) * expected_delta mod 2 ^ 256 div clamped_delta slow_state ?h"
    using adjustDifficulty_nat by blast
  have "clamped_delta slow_state ?h = 4 * expected_delta" "expected_delta \<noteq> 0"
    by (simp_all add: clamped_delta_def slow_state_def expected_delta_def)
  moreover have "work_nat (cs_Difficulty slow_state) * expected_delta mod 2 ^ 256 = 3 * expected_delta"
    by (simp add: slow_state_def expected_delta_def)
  ultimately have "work_nat d = 0" using d(2) by simp
  then have "NumHashes d = 0" by (simp add: unat_eq_zero)
  then show ?thesis using d(1) by (simp add: HashRequiringWork_def)
qed

end
