(* ===== verification/Scratch.thy ===== *)
theory Scratch
  imports Consensus_Properties
begin

text \<open>
  consensus/scratch.go: a chain of headers that is validated ahead of its blocks. \<open>None\<close> is a panic; an error
  leaves the chain as it is.
\<close>

section \<open>The code\<close>

record scratch_chain =
  sc_base :: chain_index
  sc_headers :: "block_header list"
  sc_hs :: chain_state
  sc_ts :: chain_state

datatype scratch_error = ErrMoreBlocks | ErrInvalidBlock validation_error

definition NewScratchChain :: "chain_state \<Rightarrow> scratch_chain" where
  "NewScratchChain s = \<lparr>sc_base = cs_Index s, sc_headers = [], sc_hs = s, sc_ts = s\<rparr>"

definition ScratchChain_AppendHeader ::
    "hashfn \<Rightarrow> scratch_chain \<Rightarrow> block_header \<Rightarrow> (validation_error + scratch_chain) option" where
  "ScratchChain_AppendHeader H sc h =
     (case validateHeader H (sc_hs sc) h of
        None \<Rightarrow> None
      | Some (Inl e) \<Rightarrow> Some (Inl e)
      | Some (Inr _) \<Rightarrow> do {
          hs \<leftarrow> applyHeader H (sc_hs sc) h;
          Some (Inr (sc\<lparr>sc_hs := hs, sc_headers := sc_headers sc @ [h]\<rparr>))
        })"

definition ScratchChain_ApplyBlock ::
    "hashfn \<Rightarrow> verifier \<Rightarrow> scratch_chain \<Rightarrow> block \<Rightarrow> (scratch_error + checkpoint \<times> scratch_chain) option" where
  "ScratchChain_ApplyBlock H verify sc b =
     (if ci_Height (cs_Index (sc_ts sc)) + 1 > ci_Height (cs_Index (sc_hs sc)) then Some (Inl ErrMoreBlocks)
      else case ValidateBlock H verify (sc_ts sc) b of
        None \<Rightarrow> None
      | Some (Inl e) \<Rightarrow> Some (Inl (ErrInvalidBlock e))
      | Some (Inr _) \<Rightarrow> do {
          au \<leftarrow> ApplyBlock H (sc_ts sc) b;
          Some (Inr (\<lparr>cp_Block = b, cp_State = au_State au\<rparr>, sc\<lparr>sc_ts := au_State au\<rparr>))
        })"

definition ScratchChain_Base :: "scratch_chain \<Rightarrow> chain_index" where
  "ScratchChain_Base sc = sc_base sc"

definition ScratchChain_Tip :: "scratch_chain \<Rightarrow> chain_index" where
  "ScratchChain_Tip sc = cs_Index (sc_hs sc)"

definition ScratchChain_ValidTip :: "scratch_chain \<Rightarrow> chain_index" where
  "ScratchChain_ValidTip sc = cs_Index (sc_ts sc)"

definition ScratchChain_FullyValidated :: "scratch_chain \<Rightarrow> bool" where
  "ScratchChain_FullyValidated sc \<longleftrightarrow> cs_Index (sc_ts sc) = cs_Index (sc_hs sc)"

definition ScratchChain_TotalWork :: "scratch_chain \<Rightarrow> work" where
  "ScratchChain_TotalWork sc = cs_TotalWork (sc_hs sc)"

definition ScratchChain_Index :: "scratch_chain \<Rightarrow> u64 \<Rightarrow> chain_index option" where
  "ScratchChain_Index sc height =
     (if height = ci_Height (ScratchChain_Tip sc) then Some (ScratchChain_Tip sc)
      else map_option BlockHeader_ParentIndex (at (sc_headers sc) (unat (height - ci_Height (ScratchChain_Base sc)))))"

definition ScratchChain_UnvalidatedBase :: "scratch_chain \<Rightarrow> chain_index option" where
  "ScratchChain_UnvalidatedBase sc =
     (if ci_Height (cs_Index (sc_ts sc)) = ci_Height (sc_base sc) then Some (sc_base sc)
      else ScratchChain_Index sc (ci_Height (cs_Index (sc_ts sc)) + 1))"

definition ScratchChain_Contains :: "scratch_chain \<Rightarrow> chain_index \<Rightarrow> bool option" where
  "ScratchChain_Contains sc index =
     (if \<not> (ci_Height (ScratchChain_Base sc) < ci_Height index \<and> ci_Height index \<le> ci_Height (ScratchChain_Tip sc))
      then Some False
      else map_option (\<lambda>i. i = index) (ScratchChain_Index sc (ci_Height index)))"

definition ScratchChain_Unvalidated :: "scratch_chain \<Rightarrow> chain_index list option" where
  "ScratchChain_Unvalidated sc =
     (let k = unat (ci_Height (cs_Index (sc_ts sc)) - ci_Height (ScratchChain_Base sc)) in
      if length (sc_headers sc) < k then None
      else map_option_list (\<lambda>h. ScratchChain_Index sc (bh_Height h)) (drop k (sc_headers sc)))"

section \<open>Headers alone\<close>

text \<open>What \<open>applyHeader\<close> makes of a state; it never panics.\<close>

definition header_step :: "hashfn \<Rightarrow> chain_state \<Rightarrow> block_header \<Rightarrow> chain_state" where
  "header_step H s h = (case applyHeader H s h of Some s' \<Rightarrow> s' | None \<Rightarrow> s)"

lemma applyHeader_step: "applyHeader H s h = Some (header_step H s h)"
  using applyHeader_total [of H s h] by (auto simp: header_step_def)

lemma header_step_Index [simp]: "cs_Index (header_step H s h) = BlockHeader_Index H h"
  using applyHeader_total [of H s h] by (auto simp: header_step_def)

text \<open>The part of a state that headers determine.\<close>

definition header_part :: "chain_state \<Rightarrow> chain_state" where
  "header_part s = s\<lparr>cs_Elements := empty_accumulator, cs_History := empty_accumulator\<rparr>"

lemma header_part_simps [simp]:
  "cs_Index (header_part s) = cs_Index s" "cs_TotalWork (header_part s) = cs_TotalWork s"
  "cs_Difficulty (header_part s) = cs_Difficulty s"
  by (simp_all add: header_part_def)

lemma applyHeader_frame:
  "applyHeader H (s\<lparr>cs_Elements := e, cs_History := a\<rparr>) h
     = map_option (\<lambda>s'. s'\<lparr>cs_Elements := e, cs_History := a\<rparr>) (applyHeader H s h)"
proof (cases "bh_Height h = 0")
  case False
  let ?w = "Work_Add (cs_TotalWork s) (cs_Difficulty s)"
  have d: "adjustDifficulty (s\<lparr>cs_Elements := e, cs_History := a, cs_TotalWork := ?w\<rparr>) h
      = adjustDifficulty (s\<lparr>cs_TotalWork := ?w\<rparr>) h"
    by (simp add: adjustDifficulty_def BlockInterval_def DifficultyAdjustmentInterval_def)
  show ?thesis using False d
    by (cases "adjustDifficulty (s\<lparr>cs_TotalWork := ?w\<rparr>) h")
      (simp_all add: applyHeader_def Let_def DifficultyAdjustmentInterval_def numTimestamps_def)
qed (simp add: applyHeader_def)

lemma header_step_frame:
  "header_step H (s\<lparr>cs_Elements := e, cs_History := a\<rparr>) h = (header_step H s h)\<lparr>cs_Elements := e, cs_History := a\<rparr>"
  using applyHeader_frame [where s = s and e = e and a = a and H = H and h = h] unfolding applyHeader_step by simp

lemma header_part_step: "header_part (header_step H s h) = header_step H (header_part s) h"
  unfolding header_part_def header_step_frame ..

lemma header_part_ApplyBlock:
  assumes "ApplyBlock H s b = Some au"
  shows "header_part (au_State au) = header_step H (header_part s) (b_Header b)"
proof -
  obtain e a where "applyHeader H (s\<lparr>cs_Elements := e, cs_History := a\<rparr>) (b_Header b) = Some (au_State au)"
    using assms by (auto simp: ApplyBlock_def Let_def split: prod.splits if_splits Option.bind_splits)
  then have "au_State au = (header_step H s (b_Header b))\<lparr>cs_Elements := e, cs_History := a\<rparr>"
    by (simp add: header_step_frame applyHeader_step)
  then show ?thesis by (simp add: header_part_step [symmetric]) (simp add: header_part_def)
qed

section \<open>The invariant\<close>

fun linked :: "hashfn \<Rightarrow> chain_index \<Rightarrow> block_header list \<Rightarrow> bool" where
  "linked H i [] \<longleftrightarrow> True"
| "linked H i (h # hs) \<longleftrightarrow> BlockHeader_ParentIndex h = i \<and> bh_Height h = ci_Height i + 1
     \<and> linked H (BlockHeader_Index H h) hs"

text \<open>The index of the k-th block above the base.\<close>

definition index_at :: "hashfn \<Rightarrow> chain_index \<Rightarrow> block_header list \<Rightarrow> nat \<Rightarrow> chain_index" where
  "index_at H base hs k = (if k = 0 then base else BlockHeader_Index H (hs ! (k - 1)))"

lemma linked_append:
  "linked H i (hs @ [h]) \<longleftrightarrow> linked H i hs
     \<and> BlockHeader_ParentIndex h = index_at H i hs (length hs) \<and> bh_Height h = ci_Height (index_at H i hs (length hs)) + 1"
proof (induction hs arbitrary: i)
  case (Cons g hs)
  have "index_at H (BlockHeader_Index H g) hs (length hs) = index_at H i (g # hs) (length (g # hs))"
    by (cases hs rule: rev_cases) (simp_all add: index_at_def nth_append)
  then show ?case using Cons.IH [of "BlockHeader_Index H g"] by simp
qed (simp add: index_at_def)

lemma linked_nth:
  assumes "linked H i hs" "k < length hs"
  shows "BlockHeader_ParentIndex (hs ! k) = index_at H i hs k \<and> bh_Height (hs ! k) = ci_Height i + word_of_nat (Suc k)"
  using assms
proof (induction hs arbitrary: i k)
  case (Cons g hs)
  show ?case
  proof (cases k)
    case (Suc j)
    have "BlockHeader_ParentIndex (hs ! j) = index_at H (BlockHeader_Index H g) hs j
        \<and> bh_Height (hs ! j) = ci_Height (BlockHeader_Index H g) + word_of_nat (Suc j)"
      using Cons Suc by simp
    moreover have "index_at H (BlockHeader_Index H g) hs j = index_at H i (g # hs) k"
      using Suc by (cases j) (simp_all add: index_at_def)
    moreover have "ci_Height (BlockHeader_Index H g) = ci_Height i + 1"
      using Cons.prems by (simp add: BlockHeader_Index_def)
    ultimately show ?thesis using Suc by simp
  qed (use Cons.prems in \<open>simp add: index_at_def\<close>)
qed simp

lemma index_at_height:
  assumes "linked H i hs" "k \<le> length hs"
  shows "ci_Height (index_at H i hs k) = ci_Height i + word_of_nat k"
  using assms linked_nth [of H i hs "k - 1"]
  by (cases k) (simp_all add: index_at_def BlockHeader_Index_def)

lemma foldl_header_step_Index:
  assumes "k \<le> length hs"
  shows "cs_Index (foldl (header_step H) s (take k hs)) = index_at H (cs_Index s) hs k"
  using assms by (cases k) (simp_all add: take_Suc_conv_app_nth index_at_def)

definition validated :: "scratch_chain \<Rightarrow> nat" where
  "validated sc = unat (ci_Height (cs_Index (sc_ts sc)) - ci_Height (sc_base sc))"

definition sc_inv :: "hashfn \<Rightarrow> chain_state \<Rightarrow> scratch_chain \<Rightarrow> bool" where
  "sc_inv H S sc \<longleftrightarrow>
     cs_Index S = sc_base sc
     \<and> unat (ci_Height (sc_base sc)) + length (sc_headers sc) < 2 ^ 64
     \<and> linked H (sc_base sc) (sc_headers sc)
     \<and> header_part (sc_hs sc) = foldl (header_step H) (header_part S) (sc_headers sc)
     \<and> validated sc \<le> length (sc_headers sc)
     \<and> header_part (sc_ts sc) = foldl (header_step H) (header_part S) (take (validated sc) (sc_headers sc))"

lemma height_diff:
  assumes "unat (b :: u64) + k < 2 ^ 64"
  shows "unat (b + word_of_nat k - b) = k" "unat (b + word_of_nat k) = unat b + k"
proof -
  have k: "unat (word_of_nat k :: u64) = k" using assms by (intro unat_of_nat64) simp
  show "unat (b + word_of_nat k - b) = k" using k by simp
  show "unat (b + word_of_nat k) = unat b + k"
    unfolding unat_word_ariths k using assms by simp
qed

lemma sc_inv_indices:
  assumes "sc_inv H S sc"
  shows "cs_Index (sc_hs sc) = index_at H (sc_base sc) (sc_headers sc) (length (sc_headers sc))"
    "cs_Index (sc_ts sc) = index_at H (sc_base sc) (sc_headers sc) (validated sc)"
proof -
  have "cs_Index (header_part (sc_hs sc)) = index_at H (cs_Index (header_part S)) (sc_headers sc) (length (sc_headers sc))"
    using assms foldl_header_step_Index [of "length (sc_headers sc)" "sc_headers sc" H "header_part S"]
    by (simp add: sc_inv_def)
  then show "cs_Index (sc_hs sc) = index_at H (sc_base sc) (sc_headers sc) (length (sc_headers sc))"
    using assms by (simp add: sc_inv_def)
  have "cs_Index (header_part (sc_ts sc)) = index_at H (cs_Index (header_part S)) (sc_headers sc) (validated sc)"
    using assms foldl_header_step_Index [of "validated sc" "sc_headers sc" H "header_part S"]
    by (simp add: sc_inv_def)
  then show "cs_Index (sc_ts sc) = index_at H (sc_base sc) (sc_headers sc) (validated sc)"
    using assms by (simp add: sc_inv_def)
qed

lemma sc_inv_new: "sc_inv H s (NewScratchChain s)"
  by (simp add: sc_inv_def NewScratchChain_def validated_def unat64_lt [simplified])

lemma sc_inv_append:
  assumes inv: "sc_inv H S sc" and app: "ScratchChain_AppendHeader H sc h = Some (Inr sc')"
    and bound: "unat (ci_Height (sc_base sc)) + length (sc_headers sc) + 1 < 2 ^ 64"
  shows "sc_inv H S sc' \<and> sc_headers sc' = sc_headers sc @ [h] \<and> sc_base sc' = sc_base sc"
proof -
  have v: "validateHeader H (sc_hs sc) h = valid"
    and sc': "sc' = sc\<lparr>sc_hs := header_step H (sc_hs sc) h, sc_headers := sc_headers sc @ [h]\<rparr>"
    using app by (auto simp: ScratchChain_AppendHeader_def applyHeader_step split: option.splits sum.splits)
  have "bh_Height h = ci_Height (cs_Index (sc_hs sc)) + 1" "bh_ParentID h = ci_ID (cs_Index (sc_hs sc))"
    using v by (simp_all add: validateHeader_valid)
  then have "BlockHeader_ParentIndex h = cs_Index (sc_hs sc) \<and> bh_Height h = ci_Height (cs_Index (sc_hs sc)) + 1"
    by (cases "cs_Index (sc_hs sc)") (simp add: BlockHeader_ParentIndex_def)
  then have "linked H (sc_base sc) (sc_headers sc @ [h])"
    using inv unfolding linked_append sc_inv_indices(1) [OF inv] by (simp add: sc_inv_def)
  then show ?thesis
    using inv bound unfolding sc'
    by (simp add: sc_inv_def validated_def header_part_step)
qed

lemma sc_inv_block:
  assumes inv: "sc_inv H S sc" and app: "ScratchChain_ApplyBlock H verify sc b = Some (Inr (c, sc'))"
    and same: "validated sc < length (sc_headers sc)" "b_Header b = sc_headers sc ! validated sc"
  shows "sc_inv H S sc' \<and> validated sc' = Suc (validated sc) \<and> sc_headers sc' = sc_headers sc"
proof -
  let ?k = "validated sc" and ?hs = "sc_headers sc"
  obtain au where au: "ApplyBlock H (sc_ts sc) b = Some au" and sc': "sc' = sc\<lparr>sc_ts := au_State au\<rparr>"
    using app by (auto simp: ScratchChain_ApplyBlock_def split: if_splits option.splits sum.splits Option.bind_splits)
  have step: "header_part (au_State au) = foldl (header_step H) (header_part S) (take (Suc ?k) ?hs)"
    using inv header_part_ApplyBlock [OF au] same by (simp add: sc_inv_def take_Suc_conv_app_nth)
  have "cs_Index (header_part (au_State au)) = index_at H (cs_Index (header_part S)) ?hs (Suc ?k)"
    unfolding step using same by (intro foldl_header_step_Index) simp
  then have "cs_Index (au_State au) = index_at H (sc_base sc) ?hs (Suc ?k)"
    using inv by (simp add: sc_inv_def)
  then have "ci_Height (cs_Index (au_State au)) = ci_Height (sc_base sc) + word_of_nat (Suc ?k)"
    using inv index_at_height [of H "sc_base sc" ?hs "Suc ?k"] same by (simp add: sc_inv_def)
  moreover have "unat (ci_Height (sc_base sc)) + Suc ?k < 2 ^ 64" using inv same by (simp add: sc_inv_def)
  ultimately have "validated sc' = Suc ?k"
    using height_diff(1) [of "ci_Height (sc_base sc)" "Suc ?k"] by (simp add: validated_def sc' del: of_nat_Suc)
  then show ?thesis using inv step same by (simp add: sc_inv_def sc')
qed

section \<open>Reachable chains\<close>

text \<open>
  A chain grows by headers, up to heights below \<open>2^64\<close>, and by the blocks of these headers in order. (The code
  leaves it to the caller that the block given to \<open>ApplyBlock\<close> is the one whose header was appended.)
\<close>

inductive scratch_reach :: "hashfn \<Rightarrow> verifier \<Rightarrow> chain_state \<Rightarrow> scratch_chain \<Rightarrow> bool" for H verify S where
  start: "scratch_reach H verify S (NewScratchChain S)"
| header: "scratch_reach H verify S sc \<Longrightarrow> ScratchChain_AppendHeader H sc h = Some (Inr sc') \<Longrightarrow>
    unat (ci_Height (cs_Index S)) + length (sc_headers sc) + 1 < 2 ^ 64 \<Longrightarrow> scratch_reach H verify S sc'"
| block: "scratch_reach H verify S sc \<Longrightarrow> ScratchChain_ApplyBlock H verify sc b = Some (Inr (c, sc')) \<Longrightarrow>
    validated sc < length (sc_headers sc) \<Longrightarrow> b_Header b = sc_headers sc ! validated sc \<Longrightarrow>
    scratch_reach H verify S sc'"

lemma scratch_reach_inv: "scratch_reach H verify S sc \<Longrightarrow> sc_inv H S sc"
proof (induction rule: scratch_reach.induct)
  case start
  show ?case by (rule sc_inv_new)
next
  case (header sc h sc')
  then have "unat (ci_Height (sc_base sc)) + length (sc_headers sc) + 1 < 2 ^ 64" by (simp add: sc_inv_def)
  then show ?case using sc_inv_append [OF header.IH header.hyps(2)] by blast
next
  case (block sc b c sc')
  then show ?case using sc_inv_block [OF block.IH block.hyps(2-4)] by blast
qed

lemma Index_at:
  assumes inv: "sc_inv H S sc" and k: "k \<le> length (sc_headers sc)"
  shows "ScratchChain_Index sc (ci_Height (sc_base sc) + word_of_nat k) = Some (index_at H (sc_base sc) (sc_headers sc) k)"
proof -
  let ?b = "ci_Height (sc_base sc)" and ?hs = "sc_headers sc"
  have b: "unat ?b + length ?hs < 2 ^ 64" and l: "linked H (sc_base sc) ?hs" using inv by (simp_all add: sc_inv_def)
  have tip: "ScratchChain_Tip sc = index_at H (sc_base sc) ?hs (length ?hs)"
    by (simp add: ScratchChain_Tip_def sc_inv_indices(1) [OF inv])
  then have h: "ci_Height (ScratchChain_Tip sc) = ?b + word_of_nat (length ?hs)"
    using index_at_height [OF l] by simp
  have d: "unat (?b + word_of_nat k - ?b) = k" using b k by (intro height_diff) simp
  show ?thesis
  proof (cases "k = length ?hs")
    case True
    then show ?thesis using tip h by (simp add: ScratchChain_Index_def)
  next
    case False
    have "unat (?b + word_of_nat k) \<noteq> unat (?b + word_of_nat (length ?hs))"
      using False b k height_diff(2) [of ?b k] height_diff(2) [of ?b "length ?hs"] by simp
    then have "?b + word_of_nat k \<noteq> ?b + word_of_nat (length ?hs)" by metis
    then show ?thesis using h d False k linked_nth [OF l, of k]
      by (simp add: ScratchChain_Index_def ScratchChain_Base_def at_def)
  qed
qed

lemma Contains_iff:
  assumes inv: "sc_inv H S sc"
  shows "ScratchChain_Contains sc index = Some (index \<in> BlockHeader_Index H ` set (sc_headers sc))"
proof -
  let ?b = "ci_Height (sc_base sc)" and ?hs = "sc_headers sc" and ?h = "ci_Height index"
  have b: "unat ?b + length ?hs < 2 ^ 64" and l: "linked H (sc_base sc) ?hs" using inv by (simp_all add: sc_inv_def)
  have tip: "ci_Height (ScratchChain_Tip sc) = ?b + word_of_nat (length ?hs)"
    using index_at_height [OF l order_refl] by (simp add: ScratchChain_Tip_def sc_inv_indices(1) [OF inv])
  have tipn: "unat (ci_Height (ScratchChain_Tip sc)) = unat ?b + length ?hs"
    unfolding tip using b by (rule height_diff)
  have hgt: "unat (ci_Height (BlockHeader_Index H (?hs ! j))) = unat ?b + Suc j" if "j < length ?hs" for j
  proof -
    have "ci_Height (BlockHeader_Index H (?hs ! j)) = ?b + word_of_nat (Suc j)"
      using linked_nth [OF l that] by (simp add: BlockHeader_Index_def)
    then show ?thesis using that b by (simp only: height_diff(2))
  qed
  show ?thesis
  proof (cases "?b < ?h \<and> ?h \<le> ci_Height (ScratchChain_Tip sc)")
    case True
    define k where "k = unat ?h - unat ?b"
    have k: "0 < k" "k \<le> length ?hs" "unat ?h = unat ?b + k"
      using True tipn by (auto simp: k_def word_less_nat_alt word_le_nat_alt)
    have "?h = ?b + word_of_nat k"
      using k b height_diff(2) [of ?b k] by (metis (mono_tags, lifting) add_left_mono le_less_trans word_unat_eq_iff)
    then have "ScratchChain_Index sc ?h = Some (BlockHeader_Index H (?hs ! (k - 1)))"
      using Index_at [OF inv k(2)] k(1) by (simp add: index_at_def)
    moreover have "BlockHeader_Index H (?hs ! (k - 1)) = index \<longleftrightarrow> index \<in> BlockHeader_Index H ` set ?hs"
    proof
      assume "index \<in> BlockHeader_Index H ` set ?hs"
      then obtain j where j: "j < length ?hs" "index = BlockHeader_Index H (?hs ! j)" by (auto simp: in_set_conv_nth)
      then have "unat ?b + Suc j = unat ?b + k" using hgt [OF j(1)] k(3) by simp
      then show "BlockHeader_Index H (?hs ! (k - 1)) = index" using j by auto
    next
      assume "BlockHeader_Index H (?hs ! (k - 1)) = index"
      moreover have "?hs ! (k - 1) \<in> set ?hs" using k by (intro nth_mem) simp
      ultimately show "index \<in> BlockHeader_Index H ` set ?hs" by blast
    qed
    ultimately show ?thesis using True by (simp add: ScratchChain_Contains_def ScratchChain_Base_def)
  next
    case False
    have "index \<notin> BlockHeader_Index H ` set ?hs"
    proof
      assume "index \<in> BlockHeader_Index H ` set ?hs"
      then obtain j where j: "j < length ?hs" "index = BlockHeader_Index H (?hs ! j)" by (auto simp: in_set_conv_nth)
      then show False using hgt [OF j(1)] tipn False by (auto simp: word_less_nat_alt word_le_nat_alt)
    qed
    then show ?thesis using False by (simp add: ScratchChain_Contains_def ScratchChain_Base_def)
  qed
qed

lemma Unvalidated_eq:
  assumes inv: "sc_inv H S sc"
  shows "ScratchChain_Unvalidated sc = Some (map (BlockHeader_Index H) (drop (validated sc) (sc_headers sc)))"
proof -
  let ?hs = "sc_headers sc"
  have l: "linked H (sc_base sc) ?hs" and v: "validated sc \<le> length ?hs" using inv by (simp_all add: sc_inv_def)
  have "ScratchChain_Index sc (bh_Height h) = Some (BlockHeader_Index H h)" if hin: "h \<in> set ?hs" for h
  proof -
    obtain j where j: "j < length ?hs" "h = ?hs ! j" using hin by (auto simp: in_set_conv_nth)
    then have "bh_Height h = ci_Height (sc_base sc) + word_of_nat (Suc j)" using linked_nth [OF l j(1)] by simp
    then show ?thesis using Index_at [OF inv, of "Suc j"] j by (simp add: index_at_def del: of_nat_Suc)
  qed
  then have "map_option_list (\<lambda>h. ScratchChain_Index sc (bh_Height h)) (drop (validated sc) ?hs)
      = Some (map (BlockHeader_Index H) (drop (validated sc) ?hs))"
    by (intro map_option_list_Some) (blast dest: in_set_dropD)
  then show ?thesis
    using v by (simp add: ScratchChain_Unvalidated_def ScratchChain_Base_def validated_def [symmetric])
qed

lemma FullyValidated_header_part:
  assumes inv: "sc_inv H S sc" and full: "ScratchChain_FullyValidated sc"
  shows "validated sc = length (sc_headers sc)" "header_part (sc_ts sc) = header_part (sc_hs sc)"
proof -
  let ?b = "ci_Height (sc_base sc)" and ?hs = "sc_headers sc"
  have b: "unat ?b + length ?hs < 2 ^ 64" and l: "linked H (sc_base sc) ?hs" using inv by (simp_all add: sc_inv_def)
  have "ci_Height (cs_Index (sc_ts sc)) = ?b + word_of_nat (length ?hs)"
    using full index_at_height [OF l order_refl] by (simp add: ScratchChain_FullyValidated_def sc_inv_indices(1) [OF inv])
  then show v: "validated sc = length ?hs" unfolding validated_def by (simp only: height_diff(1) [OF b])
  show "header_part (sc_ts sc) = header_part (sc_hs sc)" using inv v by (simp add: sc_inv_def)
qed

section \<open>Properties\<close>

text \<open>A scratch chain that grew from a state by valid headers and by the blocks of these headers answers every
  query rightly: \<open>Index\<close> gives the index at every height from the base to the tip, \<open>Contains\<close> holds exactly
  for the indices of its headers, and \<open>Unvalidated\<close> lists the indices of the headers whose blocks are missing,
  in order; none of them panics.\<close>

theorem scratch_chain_queries:
  assumes "scratch_reach H verify S sc"
  shows "(\<forall>k\<le>length (sc_headers sc). ScratchChain_Index sc (ci_Height (sc_base sc) + word_of_nat k)
        = Some (index_at H (sc_base sc) (sc_headers sc) k))
    \<and> ScratchChain_Contains sc index = Some (index \<in> BlockHeader_Index H ` set (sc_headers sc))
    \<and> ScratchChain_Unvalidated sc = Some (map (BlockHeader_Index H) (drop (validated sc) (sc_headers sc)))
    \<and> ScratchChain_ValidTip sc = index_at H (sc_base sc) (sc_headers sc) (validated sc)"
  using scratch_reach_inv [OF assms] Index_at [OF scratch_reach_inv [OF assms]]
    Contains_iff [OF scratch_reach_inv [OF assms]] Unvalidated_eq [OF scratch_reach_inv [OF assms]]
    sc_inv_indices(2) [OF scratch_reach_inv [OF assms]]
  by (simp add: ScratchChain_ValidTip_def)

lemma sample_append:
  "ScratchChain_AppendHeader sample_hash (NewScratchChain sample_state) (b_Header sample_block)
     = Some (Inr \<lparr>sc_base = cs_Index sample_state, sc_headers = [b_Header sample_block],
         sc_hs = header_step sample_hash sample_state (b_Header sample_block), sc_ts = sample_state\<rparr>)"
  using sample_block_valid
  by (simp add: ScratchChain_AppendHeader_def NewScratchChain_def applyHeader_step ValidateBlock_valid)

lemma sample_reach:
  "scratch_reach sample_hash sample_verify sample_state
     \<lparr>sc_base = cs_Index sample_state, sc_headers = [b_Header sample_block],
      sc_hs = header_step sample_hash sample_state (b_Header sample_block), sc_ts = sample_state\<rparr>"
  by (rule scratch_reach.header [OF scratch_reach.start sample_append])
    (simp add: NewScratchChain_def sample_state_header)

theorem scratch_chain_queries_witness:
  "ScratchChain_Unvalidated \<lparr>sc_base = cs_Index sample_state, sc_headers = [b_Header sample_block],
      sc_hs = header_step sample_hash sample_state (b_Header sample_block), sc_ts = sample_state\<rparr>
    = Some [Block_Index sample_hash sample_block]"
  using scratch_chain_queries [OF sample_reach] by (simp add: validated_def Block_Index_def)

text \<open>C12. When all blocks of a scratch chain are validated, the state that was computed from the headers alone and
  the state computed from the blocks agree on everything but the accumulators; so the total work by which the
  chain was preferred is the work of the validated state.\<close>

theorem fully_validated_agrees:
  assumes "scratch_reach H verify S sc" "ScratchChain_FullyValidated sc"
  shows "header_part (sc_ts sc) = header_part (sc_hs sc)
    \<and> ScratchChain_TotalWork sc = cs_TotalWork (sc_ts sc)
    \<and> ScratchChain_Unvalidated sc = Some []"
proof -
  note inv = scratch_reach_inv [OF assms(1)]
  note f = FullyValidated_header_part [OF inv assms(2)]
  from f(2) have "cs_TotalWork (header_part (sc_ts sc)) = cs_TotalWork (header_part (sc_hs sc))" by simp
  then have "cs_TotalWork (sc_ts sc) = cs_TotalWork (sc_hs sc)" by (simp only: header_part_simps)
  then show ?thesis using f Unvalidated_eq [OF inv] by (simp add: ScratchChain_TotalWork_def)
qed

theorem fully_validated_agrees_witness:
  "\<exists>c sc'. ScratchChain_ApplyBlock sample_hash sample_verify
      \<lparr>sc_base = cs_Index sample_state, sc_headers = [b_Header sample_block],
       sc_hs = header_step sample_hash sample_state (b_Header sample_block), sc_ts = sample_state\<rparr> sample_block = Some (Inr (c, sc'))
     \<and> ScratchChain_TotalWork sc' = cs_TotalWork (cp_State c)"
proof -
  let ?sc = "\<lparr>sc_base = cs_Index sample_state, sc_headers = [b_Header sample_block],
       sc_hs = header_step sample_hash sample_state (b_Header sample_block), sc_ts = sample_state\<rparr>"
  have acc: "acc_repr sample_hash sample_ledger (cs_Elements sample_state)" by (rule sample_state_repr)
  note ok = block_ok_if_valid [OF acc sample_block_valid sample_block_inj]
  obtain au where au: "ApplyBlock sample_hash sample_state sample_block = Some au"
      "cs_Index (au_State au) = Block_Index sample_hash sample_block"
    using ApplyBlock_refines [OF sample_state_represents ok sample_sizes] by blast
  let ?sc' = "?sc\<lparr>sc_ts := au_State au\<rparr>" and ?c = "\<lparr>cp_Block = sample_block, cp_State = au_State au\<rparr>"
  have "ci_Height (BlockHeader_Index sample_hash (b_Header sample_block)) = 1"
    by (simp add: BlockHeader_Index_def) (simp add: sample_block_def)
  then have a: "ScratchChain_ApplyBlock sample_hash sample_verify ?sc sample_block = Some (Inr (?c, ?sc'))"
    using au sample_block_valid by (simp add: ScratchChain_ApplyBlock_def sample_state_header)
  have r: "scratch_reach sample_hash sample_verify sample_state ?sc'"
    by (rule scratch_reach.block [OF sample_reach a]) (simp_all add: validated_def)
  have "ScratchChain_FullyValidated ?sc'"
    using au(2) by (simp add: ScratchChain_FullyValidated_def Block_Index_def)
  from fully_validated_agrees [OF r this] a show ?thesis by auto
qed

end
