(* ===== verification/Txpool.thy ===== *)
theory Txpool
  imports Consensus_Properties "HOL-Library.AList"
begin

text \<open>
  txpool/txpool.go: the pool of unconfirmed transactions and how it follows the chain. A Go map is an association
  list here, in the order of an iteration over it (Go leaves that order open, and no result below depends on
  it). \<open>None\<close> is a panic. Slices are shared in the code: a proof that is updated through a transaction that
  was passed by value is updated in the pool, which the model writes as returning the transaction.
\<close>

section \<open>The updates the chain manager publishes\<close>

record chain_apply_update =
  cau_Update :: apply_update
  cau_Block :: block

record chain_revert_update =
  cru_Update :: revert_update
  cru_Block :: block

section \<open>Following elements\<close>

definition updateTxnProofs :: "(state_element \<Rightarrow> state_element option) \<Rightarrow> transaction \<Rightarrow> transaction option" where
  "updateTxnProofs upd txn = do {
     is \<leftarrow> map_option_list (update_input_proof upd) (tx_Inputs txn);
     Some (txn\<lparr>tx_Inputs := is\<rparr>)
   }"

text \<open>An ephemeral parent that has been mined becomes the mined element.\<close>

definition mined_input :: "output_element list \<Rightarrow> txn_input \<Rightarrow> txn_input" where
  "mined_input new inp =
     (if is_ephemeral inp then
        (case find (\<lambda>sce. se_ID (oe_SE sce) = se_ID (oe_SE (in_Parent inp))) new of
           Some sce \<Rightarrow> inp\<lparr>in_Parent := sce\<rparr>
         | None \<Rightarrow> inp)
      else inp)"

definition updateEphemeralInputs_apply :: "apply_update \<Rightarrow> transaction \<Rightarrow> transaction" where
  "updateEphemeralInputs_apply u txn = txn\<lparr>tx_Inputs := map (mined_input (au_NewOutputElements u)) (tx_Inputs txn)\<rparr>"

text \<open>A parent that a reverted block had created becomes ephemeral.\<close>

definition unmined_input :: "output_element list \<Rightarrow> txn_input \<Rightarrow> txn_input" where
  "unmined_input new inp =
     (if list_ex (\<lambda>sce. se_ID (oe_SE sce) = se_ID (oe_SE (in_Parent inp))) new
      then inp\<lparr>in_Parent := (in_Parent inp)\<lparr>oe_SE := (oe_SE (in_Parent inp))\<lparr>se_LeafIndex := EphemeralLeafIndex,
                                                                         se_MerkleProof := []\<rparr>\<rparr>\<rparr>
      else inp)"

definition updateEphemeralInputs_revert :: "revert_update \<Rightarrow> transaction \<Rightarrow> transaction" where
  "updateEphemeralInputs_revert u txn = txn\<lparr>tx_Inputs := map (unmined_input (ru_NewOutputElements u)) (tx_Inputs txn)\<rparr>"

definition txnContainsRevertedElements :: "transaction \<Rightarrow> chain_revert_update \<Rightarrow> bool" where
  "txnContainsRevertedElements txn cru \<longleftrightarrow>
     list_ex (\<lambda>inp. RevertUpdate_OutputElementWasRemoved (cru_Update cru) (in_Parent inp)) (tx_Inputs txn)"

section \<open>The pool\<close>

record pool =
  p_txns :: "(transaction_id \<times> transaction) list"
  p_cs :: chain_state
  p_prevCS :: chain_state
  p_prevUpdate :: apply_update

datatype pool_error =
  ErrPoolInvalid validation_error | ErrUnknownEphemeral | ErrPoolSet validation_error | ErrPoolAdd nat pool_error

text \<open>A new pool has the zero value of \<open>consensus.ApplyUpdate\<close>.\<close>

definition zero_apply_update :: apply_update where
  "zero_apply_update =
     \<lparr>au_Element = \<lparr>eau_updated = replicate 64 [], eau_treeGrowth = replicate 64 []\<rparr>,
      au_History = \<lparr>hau_proof = [], hau_growth = []\<rparr>, au_State = genesis_state zero_time \<lparr>NumHashes = 0\<rparr>,
      au_SpentOutputs = [], au_NewOutputElements = []\<rparr>"

definition Pool_New :: "chain_state \<Rightarrow> pool" where
  "Pool_New s = \<lparr>p_txns = [], p_cs = s, p_prevCS = s, p_prevUpdate = zero_apply_update\<rparr>"

definition pool_outputs :: "(transaction_id \<times> transaction) list \<Rightarrow> element_id list" where
  "pool_outputs txns =
     concat (map (\<lambda>(txid, txn). map (\<lambda>i. \<lparr>ei_Source = txid, ei_Index = word_of_nat i\<rparr>) [0..<length (tx_Outputs txn)]) txns)"

fun consume_ephemeral :: "element_id list \<Rightarrow> txn_input list \<Rightarrow> bool" where
  "consume_ephemeral available [] \<longleftrightarrow> True"
| "consume_ephemeral available (inp # is) \<longleftrightarrow>
     (if is_ephemeral inp then
        se_ID (oe_SE (in_Parent inp)) \<in> set available
        \<and> consume_ephemeral (removeAll (se_ID (oe_SE (in_Parent inp))) available) is
      else consume_ephemeral available is)"

text \<open>
  With outdated proofs (the transaction is valid in the previous state) the proofs are brought up to date and
  validation is tried again. The result carries the transaction with the proofs it then has.
\<close>

definition Pool_refresh ::
    "hashfn \<Rightarrow> verifier \<Rightarrow> pool \<Rightarrow> transaction \<Rightarrow> (transaction \<times> (validation_error + unit)) option" where
  "Pool_refresh H verify p txn = do {
     r \<leftarrow> ValidateTransaction H verify (p_cs p) txn;
     (case r of
        Inr _ \<Rightarrow> Some (txn, r)
      | Inl e \<Rightarrow> do {
          rp \<leftarrow> ValidateTransaction H verify (p_prevCS p) txn;
          (case rp of
             Inl _ \<Rightarrow> Some (txn, r)
           | Inr _ \<Rightarrow> do {
               txn' \<leftarrow> updateTxnProofs (ElementApplyUpdate_UpdateElementProof H (au_Element (p_prevUpdate p))) txn;
               r' \<leftarrow> ValidateTransaction H verify (p_cs p) txn';
               Some (txn', r')
             })
        })
   }"

definition Pool_validateTransaction ::
    "hashfn \<Rightarrow> verifier \<Rightarrow> pool \<Rightarrow> transaction \<Rightarrow> (pool_error + transaction) option" where
  "Pool_validateTransaction H verify p txn = do {
     (txn', r) \<leftarrow> Pool_refresh H verify p txn;
     Some (case r of
        Inl e \<Rightarrow> Inl (ErrPoolInvalid e)
      | Inr _ \<Rightarrow> if consume_ephemeral (pool_outputs (p_txns p)) (tx_Inputs txn') then Inr txn' else Inl ErrUnknownEphemeral)
   }"

definition Pool_addTransaction :: "hashfn \<Rightarrow> verifier \<Rightarrow> pool \<Rightarrow> transaction \<Rightarrow> (pool_error + pool) option" where
  "Pool_addTransaction H verify p txn =
     (let txid = Transaction_ID H txn in
      if map_of (p_txns p) txid \<noteq> None then Some (Inr p)
      else do {
        r \<leftarrow> Pool_validateTransaction H verify p txn;
        Some (case r of
          Inl e \<Rightarrow> Inl e
        | Inr txn' \<Rightarrow> Inr (p\<lparr>p_txns := AList.update txid txn' (p_txns p)\<rparr>))
      })"

text \<open>The loop keeps the transactions added before the first error.\<close>

fun Pool_add_loop ::
    "hashfn \<Rightarrow> verifier \<Rightarrow> nat \<Rightarrow> pool \<Rightarrow> transaction list \<Rightarrow> (pool_error option \<times> pool) option" where
  "Pool_add_loop H verify i p [] = Some (None, p)"
| "Pool_add_loop H verify i p (txn # txns) = do {
     r \<leftarrow> Pool_addTransaction H verify p txn;
     (case r of
        Inl e \<Rightarrow> Some (Some (ErrPoolAdd i e), p)
      | Inr p' \<Rightarrow> Pool_add_loop H verify (i + 1) p' txns)
   }"

definition Pool_AddTransactionSet ::
    "hashfn \<Rightarrow> verifier \<Rightarrow> pool \<Rightarrow> transaction list \<Rightarrow> (pool_error option \<times> pool) option" where
  "Pool_AddTransactionSet H verify p txns = do {
     r \<leftarrow> ValidateTransactionSet H verify (p_cs p) txns;
     (case r of
        Inl e \<Rightarrow> Some (Some (ErrPoolSet e), p)
      | Inr _ \<Rightarrow> Pool_add_loop H verify 0 p txns)
   }"

definition Pool_AddTransaction :: "hashfn \<Rightarrow> verifier \<Rightarrow> pool \<Rightarrow> transaction \<Rightarrow> (pool_error + pool) option" where
  "Pool_AddTransaction H verify p txn = Pool_addTransaction H verify p txn"

definition Pool_Transaction :: "pool \<Rightarrow> transaction_id \<Rightarrow> transaction option" where
  "Pool_Transaction p txid = map_of (p_txns p) txid"

definition Pool_Transactions :: "pool \<Rightarrow> transaction list" where
  "Pool_Transactions p = map snd (p_txns p)"

definition Pool_RecommendedFee :: "pool \<Rightarrow> currency" where
  "Pool_RecommendedFee p = NewCurrency64 1000"

section \<open>Following the chain\<close>

fun Pool_apply_loop ::
    "hashfn \<Rightarrow> verifier \<Rightarrow> apply_update \<Rightarrow> (transaction_id \<times> transaction) list
     \<Rightarrow> (transaction_id \<times> transaction) list option" where
  "Pool_apply_loop H verify u [] = Some []"
| "Pool_apply_loop H verify u ((txid, txn) # txns) = do {
     txn1 \<leftarrow> updateTxnProofs (ElementApplyUpdate_UpdateElementProof H (au_Element u)) txn;
     let txn2 = updateEphemeralInputs_apply u txn1;
     r \<leftarrow> ValidateTransaction H verify (au_State u) txn2;
     rest \<leftarrow> Pool_apply_loop H verify u txns;
     Some (case r of Inl _ \<Rightarrow> rest | Inr _ \<Rightarrow> (txid, txn2) # rest)
   }"

definition delete_confirmed ::
    "hashfn \<Rightarrow> transaction list \<Rightarrow> (transaction_id \<times> transaction) list \<Rightarrow> (transaction_id \<times> transaction) list" where
  "delete_confirmed H confirmed txns = fold (\<lambda>txn m. AList.delete (Transaction_ID H txn) m) confirmed txns"

definition Pool_ProcessChainApplyUpdate :: "hashfn \<Rightarrow> verifier \<Rightarrow> pool \<Rightarrow> chain_apply_update \<Rightarrow> pool option" where
  "Pool_ProcessChainApplyUpdate H verify p cau = do {
     txns \<leftarrow> Pool_apply_loop H verify (cau_Update cau) (delete_confirmed H (b_Transactions (cau_Block cau)) (p_txns p));
     Some \<lparr>p_txns = txns, p_cs = au_State (cau_Update cau), p_prevCS = p_cs p, p_prevUpdate = cau_Update cau\<rparr>
   }"

fun Pool_revert_loop ::
    "hashfn \<Rightarrow> verifier \<Rightarrow> chain_revert_update \<Rightarrow> (transaction_id \<times> transaction) list
     \<Rightarrow> (transaction_id \<times> transaction) list option" where
  "Pool_revert_loop H verify cru [] = Some []"
| "Pool_revert_loop H verify cru ((txid, txn) # txns) =
     (let txn1 = updateEphemeralInputs_revert (cru_Update cru) txn in
      if txnContainsRevertedElements txn1 cru then Pool_revert_loop H verify cru txns
      else do {
        txn2 \<leftarrow> updateTxnProofs (ElementRevertUpdate_UpdateElementProof H (ru_Element (cru_Update cru))) txn1;
        r \<leftarrow> ValidateTransaction H verify (ru_State (cru_Update cru)) txn2;
        rest \<leftarrow> Pool_revert_loop H verify cru txns;
        Some (case r of Inl _ \<Rightarrow> rest | Inr _ \<Rightarrow> (txid, txn2) # rest)
      })"

definition put_back ::
    "hashfn \<Rightarrow> transaction list \<Rightarrow> (transaction_id \<times> transaction) list \<Rightarrow> (transaction_id \<times> transaction) list" where
  "put_back H reverted txns = fold (\<lambda>txn m. AList.update (Transaction_ID H txn) txn m) reverted txns"

definition Pool_ProcessChainRevertUpdate :: "hashfn \<Rightarrow> verifier \<Rightarrow> pool \<Rightarrow> chain_revert_update \<Rightarrow> pool option" where
  "Pool_ProcessChainRevertUpdate H verify p cru = do {
     txns \<leftarrow> Pool_revert_loop H verify cru (p_txns p);
     Some (p\<lparr>p_txns := put_back H (b_Transactions (cru_Block cru)) txns, p_cs := ru_State (cru_Update cru)\<rparr>)
   }"

section \<open>Identity\<close>

text \<open>Updating proofs and exchanging ephemeral for mined parents keep what the ID covers.\<close>

lemma Transaction_ID_cong: "txn_core a = txn_core b \<Longrightarrow> Transaction_ID H a = Transaction_ID H b"
proof -
  assume "txn_core a = txn_core b"
  then have "parent_ids a = parent_ids b" "tx_Outputs a = tx_Outputs b" "tx_MinerFee a = tx_MinerFee b"
    by (simp_all add: txn_core_def parent_ids_def)
  then show ?thesis by (simp add: Transaction_ID_def txn_effects_eq)
qed

text \<open>The contract of \<open>UpdateElementProof\<close> that the pool relies on.\<close>

locale element_updater =
  fixes upd :: "state_element \<Rightarrow> state_element option"
  assumes upd_same: "upd e = Some e' \<Longrightarrow> se_ID e' = se_ID e \<and> se_LeafIndex e' = se_LeafIndex e"
begin

lemma input_same:
  "update_input_proof upd i = Some i' \<Longrightarrow> se_ID (oe_SE (in_Parent i')) = se_ID (oe_SE (in_Parent i)) \<and> is_ephemeral i' = is_ephemeral i"
  by (auto simp: update_input_proof_def is_ephemeral_def split: if_splits Option.bind_splits dest: upd_same)

lemma inputs_same:
  "map_option_list (update_input_proof upd) is = Some is' \<Longrightarrow>
   map (\<lambda>i. se_ID (oe_SE (in_Parent i))) is' = map (\<lambda>i. se_ID (oe_SE (in_Parent i))) is"
  by (induction "is" arbitrary: is') (auto split: Option.bind_splits dest: input_same)

lemma core_same: "updateTxnProofs upd txn = Some txn' \<Longrightarrow> txn_core txn' = txn_core txn"
  by (auto simp: updateTxnProofs_def txn_core_def split: Option.bind_splits dest: inputs_same)

end

lemma updateProof_same:
  "updateProof H e trees = Some e' \<Longrightarrow> se_ID e' = se_ID e \<and> se_LeafIndex e' = se_LeafIndex e"
  by (auto simp: updateProof_def Let_def split: Option.bind_splits if_splits list.splits prod.splits)

interpretation apply_updater: element_updater "ElementApplyUpdate_UpdateElementProof H eau"
  by unfold_locales
    (auto simp: ElementApplyUpdate_UpdateElementProof_def split: Option.bind_splits if_splits dest!: updateProof_same)

interpretation revert_updater: element_updater "ElementRevertUpdate_UpdateElementProof H eru"
  by unfold_locales
    (auto simp: ElementRevertUpdate_UpdateElementProof_def Let_def split: if_splits dest!: updateProof_same)

lemma core_mined: "txn_core (updateEphemeralInputs_apply u txn) = txn_core txn"
proof -
  have "se_ID (oe_SE (in_Parent (mined_input new i))) = se_ID (oe_SE (in_Parent i))" for new i
    by (auto simp: mined_input_def find_Some_iff split: option.splits)
  then show ?thesis by (simp add: updateEphemeralInputs_apply_def txn_core_def)
qed

lemma core_unmined: "txn_core (updateEphemeralInputs_revert u txn) = txn_core txn"
  by (simp add: updateEphemeralInputs_revert_def txn_core_def unmined_input_def)

section \<open>The invariant of the pool\<close>

definition entries_ok :: "hashfn \<Rightarrow> verifier \<Rightarrow> chain_state \<Rightarrow> (transaction_id \<times> transaction) list \<Rightarrow> bool" where
  "entries_ok H verify s txns \<longleftrightarrow> distinct (map fst txns)
     \<and> (\<forall>(txid, txn)\<in>set txns. txid = Transaction_ID H txn \<and> txn_valid H verify s txn)"

definition pool_ok :: "hashfn \<Rightarrow> verifier \<Rightarrow> pool \<Rightarrow> bool" where
  "pool_ok H verify p \<longleftrightarrow> entries_ok H verify (p_cs p) (p_txns p)"

lemma set_update_subset: "set (AList.update k x xs) \<subseteq> insert (k, x) (set xs)"
  by (induction xs) auto

lemma entries_ok_update:
  assumes "entries_ok H verify s txns" "txn_valid H verify s txn" "txid = Transaction_ID H txn"
  shows "entries_ok H verify s (AList.update txid txn txns)"
  using assms set_update_subset [of txid txn txns] unfolding entries_ok_def
  by (auto simp: distinct_update)

lemma entries_ok_delete: "entries_ok H verify s txns \<Longrightarrow> entries_ok H verify s (AList.delete k txns)"
  by (auto simp: entries_ok_def AList.delete_eq distinct_map_filter split: prod.splits)

lemma entries_ok_Cons:
  "entries_ok H verify s ((txid, txn) # txns) \<longleftrightarrow>
     txid \<notin> fst ` set txns \<and> txid = Transaction_ID H txn \<and> txn_valid H verify s txn \<and> entries_ok H verify s txns"
  by (auto simp: entries_ok_def)

text \<open>What the loops over the pool do with one entry.\<close>

lemma entries_ok_keep:
  assumes "entries_ok H verify s rest \<and> fst ` set rest \<subseteq> fst ` set txns" "txid \<notin> fst ` set txns"
    "txid = Transaction_ID H txn" "ValidateTransaction H verify s txn = Some r"
    "txns' = (case r of Inl _ \<Rightarrow> rest | Inr _ \<Rightarrow> (txid, txn) # rest)"
  shows "entries_ok H verify s txns' \<and> fst ` set txns' \<subseteq> insert txid (fst ` set txns)"
proof (cases r)
  case (Inr u)
  then have "txn_valid H verify s txn" using assms(4) by (simp add: ValidateTransaction_valid)
  then show ?thesis using assms Inr by (auto simp: entries_ok_Cons)
qed (use assms in auto)

lemma pool_ok_new: "pool_ok H verify (Pool_New s)"
  by (simp add: pool_ok_def entries_ok_def Pool_New_def)

lemma Pool_refresh_valid:
  assumes "Pool_refresh H verify p txn = Some (txn', Inr u)"
  shows "txn_valid H verify (p_cs p) txn' \<and> Transaction_ID H txn' = Transaction_ID H txn"
  using assms ValidateTransaction_valid [of H verify "p_cs p"]
  by (auto simp: Pool_refresh_def split: Option.bind_splits sum.splits
      dest: apply_updater.core_same [THEN Transaction_ID_cong, of H])

lemma pool_ok_addTransaction:
  assumes "pool_ok H verify p" "Pool_addTransaction H verify p txn = Some (Inr p')"
  shows "pool_ok H verify p' \<and> p_cs p' = p_cs p"
proof (cases "map_of (p_txns p) (Transaction_ID H txn)")
  case None
  then obtain txn' r where r: "Pool_refresh H verify p txn = Some (txn', r)" "r = Inr ()"
    "p' = p\<lparr>p_txns := AList.update (Transaction_ID H txn) txn' (p_txns p)\<rparr>"
    using assms(2)
    by (auto simp: Pool_addTransaction_def Pool_validateTransaction_def split: Option.bind_splits sum.splits if_splits)
  note v = Pool_refresh_valid [OF r(1) [unfolded r(2)]]
  then show ?thesis using assms(1) entries_ok_update [of H verify "p_cs p" "p_txns p" txn'] r(3)
    by (simp add: pool_ok_def)
qed (use assms in \<open>simp add: Pool_addTransaction_def\<close>)

lemma pool_ok_add_loop:
  "pool_ok H verify p \<Longrightarrow> Pool_add_loop H verify i p txns = Some (e, p') \<Longrightarrow> pool_ok H verify p' \<and> p_cs p' = p_cs p"
  by (induction txns arbitrary: i p)
    (auto split: Option.bind_splits sum.splits dest: pool_ok_addTransaction)

text \<open>One round of the loops over the pool keeps an entry's key and leaves only valid transactions.\<close>

lemma apply_loop_ok:
  assumes "Pool_apply_loop H verify u txns = Some txns'" "distinct (map fst txns)"
    "\<forall>(txid, txn)\<in>set txns. txid = Transaction_ID H txn"
  shows "entries_ok H verify (au_State u) txns' \<and> fst ` set txns' \<subseteq> fst ` set txns"
  using assms
proof (induction H verify u txns arbitrary: txns' rule: Pool_apply_loop.induct)
  case (1 H verify u)
  then show ?case by (simp add: entries_ok_def)
next
  case (2 H verify u txid txn txns)
  then obtain txn1 r rest where l: "updateTxnProofs (ElementApplyUpdate_UpdateElementProof H (au_Element u)) txn = Some txn1"
    "ValidateTransaction H verify (au_State u) (updateEphemeralInputs_apply u txn1) = Some r"
    "Pool_apply_loop H verify u txns = Some rest"
    "txns' = (case r of Inl _ \<Rightarrow> rest | Inr _ \<Rightarrow> (txid, updateEphemeralInputs_apply u txn1) # rest)"
    by (auto simp: Let_def split: Option.bind_splits)
  have d: "distinct (map fst txns)" "\<forall>(txid, txn)\<in>set txns. txid = Transaction_ID H txn" using 2(3,4) by auto
  have IH: "entries_ok H verify (au_State u) rest \<and> fst ` set rest \<subseteq> fst ` set txns"
    by (rule 2(1) [OF l(1) refl l(2) l(3) d])
  have "Transaction_ID H (updateEphemeralInputs_apply u txn1) = Transaction_ID H txn"
    using apply_updater.core_same [OF l(1)] core_mined [of u txn1] by (intro Transaction_ID_cong) simp
  then have "txid = Transaction_ID H (updateEphemeralInputs_apply u txn1)" "txid \<notin> fst ` set txns"
    using 2(3,4) by auto
  from entries_ok_keep [OF IH this(2,1) l(2,4)] show ?case by simp
qed

lemma revert_loop_ok:
  assumes "Pool_revert_loop H verify cru txns = Some txns'" "distinct (map fst txns)"
    "\<forall>(txid, txn)\<in>set txns. txid = Transaction_ID H txn"
  shows "entries_ok H verify (ru_State (cru_Update cru)) txns' \<and> fst ` set txns' \<subseteq> fst ` set txns"
  using assms
proof (induction H verify cru txns arbitrary: txns' rule: Pool_revert_loop.induct)
  case (2 H verify cru txid txn txns)
  let ?t1 = "updateEphemeralInputs_revert (cru_Update cru) txn"
  have d: "distinct (map fst txns)" "\<forall>(txid, txn)\<in>set txns. txid = Transaction_ID H txn" using 2(4,5) by auto
  show ?case
  proof (cases "txnContainsRevertedElements ?t1 cru")
    case True
    have "entries_ok H verify (ru_State (cru_Update cru)) txns' \<and> fst ` set txns' \<subseteq> fst ` set txns"
      using 2(1) [OF refl True] 2(3) True d by (simp add: Let_def)
    then show ?thesis by auto
  next
    case False
    have "do {
        txn2 \<leftarrow> updateTxnProofs (ElementRevertUpdate_UpdateElementProof H (ru_Element (cru_Update cru))) ?t1;
        r \<leftarrow> ValidateTransaction H verify (ru_State (cru_Update cru)) txn2;
        rest \<leftarrow> Pool_revert_loop H verify cru txns;
        Some (case r of Inl _ \<Rightarrow> rest | Inr _ \<Rightarrow> (txid, txn2) # rest)
      } = Some txns'"
      using 2(3) False by (simp add: Let_def)
    then obtain txn2 r rest where l:
      "updateTxnProofs (ElementRevertUpdate_UpdateElementProof H (ru_Element (cru_Update cru))) ?t1 = Some txn2"
      "ValidateTransaction H verify (ru_State (cru_Update cru)) txn2 = Some r"
      "Pool_revert_loop H verify cru txns = Some rest"
      "txns' = (case r of Inl _ \<Rightarrow> rest | Inr _ \<Rightarrow> (txid, txn2) # rest)"
      by (auto split: Option.bind_splits)
    have IH: "entries_ok H verify (ru_State (cru_Update cru)) rest \<and> fst ` set rest \<subseteq> fst ` set txns"
      using 2(2) [OF refl False l(1,2,3)] d by simp
    have "Transaction_ID H txn2 = Transaction_ID H txn"
      using revert_updater.core_same [OF l(1)] core_unmined [of "cru_Update cru" txn] by (intro Transaction_ID_cong) simp
    then have "txid = Transaction_ID H txn2" "txid \<notin> fst ` set txns"
      using 2(4,5) by auto
    from entries_ok_keep [OF IH this(2,1) l(2,4)] show ?thesis by simp
  qed
qed (simp add: entries_ok_def)

lemma delete_confirmed_ok: "entries_ok H verify s txns \<Longrightarrow> entries_ok H verify s (delete_confirmed H confirmed txns)"
  by (induction confirmed arbitrary: txns) (simp_all add: delete_confirmed_def entries_ok_delete)

lemma put_back_ok:
  "entries_ok H verify s txns \<Longrightarrow> \<forall>txn\<in>set reverted. txn_valid H verify s txn \<Longrightarrow> entries_ok H verify s (put_back H reverted txns)"
  by (induction reverted arbitrary: txns) (simp_all add: put_back_def entries_ok_update)

text \<open>
  The pools of a running node: transactions and sets arrive at any time, valid or not; the chain manager applies
  blocks and reverts blocks that were valid on the state it returns to.
\<close>

inductive pool_reach :: "hashfn \<Rightarrow> verifier \<Rightarrow> pool \<Rightarrow> bool" for H verify where
  new: "pool_reach H verify (Pool_New s)"
| add: "pool_reach H verify p \<Longrightarrow> Pool_AddTransaction H verify p txn = Some (Inr p') \<Longrightarrow> pool_reach H verify p'"
| add_set: "pool_reach H verify p \<Longrightarrow> Pool_AddTransactionSet H verify p txns = Some (e, p') \<Longrightarrow> pool_reach H verify p'"
| apply_block: "pool_reach H verify p \<Longrightarrow> Pool_ProcessChainApplyUpdate H verify p cau = Some p' \<Longrightarrow> pool_reach H verify p'"
| revert_block: "pool_reach H verify p \<Longrightarrow> Pool_ProcessChainRevertUpdate H verify p cru = Some p' \<Longrightarrow>
    ValidateTransactionSet H verify (ru_State (cru_Update cru)) (b_Transactions (cru_Block cru)) = valid \<Longrightarrow>
    pool_reach H verify p'"

lemma pool_reach_ok: "pool_reach H verify p \<Longrightarrow> pool_ok H verify p"
proof (induction rule: pool_reach.induct)
  case (new s)
  show ?case by (rule pool_ok_new)
next
  case (add p txn p')
  then show ?case by (simp add: Pool_AddTransaction_def pool_ok_addTransaction)
next
  case (add_set p txns e p')
  then show ?case
    by (auto simp: Pool_AddTransactionSet_def split: Option.bind_splits sum.splits dest: pool_ok_add_loop)
next
  case (apply_block p cau p')
  let ?txns = "delete_confirmed H (b_Transactions (cau_Block cau)) (p_txns p)"
  obtain txns where l: "Pool_apply_loop H verify (cau_Update cau) ?txns = Some txns"
    "p' = \<lparr>p_txns = txns, p_cs = au_State (cau_Update cau), p_prevCS = p_cs p, p_prevUpdate = cau_Update cau\<rparr>"
    using apply_block.hyps by (auto simp: Pool_ProcessChainApplyUpdate_def split: Option.bind_splits)
  have "entries_ok H verify (p_cs p) ?txns"
    using apply_block.IH by (intro delete_confirmed_ok) (simp add: pool_ok_def)
  then have "entries_ok H verify (au_State (cau_Update cau)) txns"
    using apply_loop_ok [OF l(1)] by (auto simp: entries_ok_def)
  then show ?case by (simp add: pool_ok_def l(2))
next
  case (revert_block p cru p')
  let ?s = "ru_State (cru_Update cru)"
  obtain txns where l: "Pool_revert_loop H verify cru (p_txns p) = Some txns"
    "p' = p\<lparr>p_txns := put_back H (b_Transactions (cru_Block cru)) txns, p_cs := ?s\<rparr>"
    using revert_block.hyps by (auto simp: Pool_ProcessChainRevertUpdate_def split: Option.bind_splits)
  have "entries_ok H verify ?s txns"
    using revert_loop_ok [OF l(1)] revert_block.IH by (auto simp: pool_ok_def entries_ok_def)
  then show ?case
    using put_back_ok ValidateTransactionSet_sound(4) [OF revert_block.hyps(3)] by (simp add: pool_ok_def l(2))
qed

section \<open>Transactions that stay\<close>

text \<open>What is hashed when the parents of the pooled transactions are looked up.\<close>

definition pool_preimages :: "hashfn \<Rightarrow> ledger \<Rightarrow> (transaction_id \<times> transaction) list \<Rightarrow> byte list list" where
  "pool_preimages H A txns =
     ledger_preimages H A
     @ concat (map (\<lambda>inp. leaf_preimages H (OutputLeaf H (in_Parent inp) False)) (concat (map (tx_Inputs \<circ> snd) txns)))"

text \<open>An input, and a transaction, with the proofs of the ledger \<open>B\<close>.\<close>

definition reproved_input :: "hashfn \<Rightarrow> ledger \<Rightarrow> txn_input \<Rightarrow> txn_input" where
  "reproved_input H B inp =
     (if is_ephemeral inp then inp
      else inp\<lparr>in_Parent := (in_Parent inp)\<lparr>oe_SE := (oe_SE (in_Parent inp))
             \<lparr>se_MerkleProof := valid_proof H B (unat (se_LeafIndex (oe_SE (in_Parent inp))))\<rparr>\<rparr>\<rparr>)"

definition reproved :: "hashfn \<Rightarrow> ledger \<Rightarrow> transaction \<Rightarrow> transaction" where
  "reproved H B txn = txn\<lparr>tx_Inputs := map (reproved_input H B) (tx_Inputs txn)\<rparr>"

lemma reproved_same [simp]:
  "txn_core (reproved H B txn) = txn_core txn" "tx_Outputs (reproved H B txn) = tx_Outputs txn"
  "tx_MinerFee (reproved H B txn) = tx_MinerFee txn"
  by (simp_all add: reproved_def txn_core_def reproved_input_def comp_def)

lemma reproved_input_same [simp]:
  "in_PublicKey (reproved_input H B inp) = in_PublicKey inp" "in_Signature (reproved_input H B inp) = in_Signature inp"
  "oe_Output (in_Parent (reproved_input H B inp)) = oe_Output (in_Parent inp)"
  "oe_MaturityHeight (in_Parent (reproved_input H B inp)) = oe_MaturityHeight (in_Parent inp)"
  "is_ephemeral (reproved_input H B inp) = is_ephemeral inp"
  by (simp_all add: reproved_input_def is_ephemeral_def)

lemma InputSigHash_cong: "txn_core a = txn_core b \<Longrightarrow> InputSigHash H s a = InputSigHash H s' b"
proof -
  assume "txn_core a = txn_core b"
  then have "parent_ids a = parent_ids b" "tx_Outputs a = tx_Outputs b" "tx_MinerFee a = tx_MinerFee b"
    by (simp_all add: txn_core_def parent_ids_def)
  then show ?thesis by (simp add: InputSigHash_def txn_effects_eq)
qed

lemma parent_in_ledger:
  assumes acc: "acc_repr H A (cs_Elements s)" and v: "txn_valid H verify s txn" and i: "inp \<in> set (tx_Inputs txn)" "\<not> is_ephemeral inp"
    and e: "(txid, txn) \<in> set txns" and inj: "inj_on H (set (pool_preimages H A txns))"
  shows "leaf_in H A (OutputLeaf H (in_Parent inp) False)"
proof -
  have "ContainsUnspentOutputElement H (cs_Elements s) (in_Parent inp)" using v i by (auto simp: txn_valid_def)
  moreover have "inj_on H (set (ledger_preimages H A @ leaf_preimages H (OutputLeaf H (in_Parent inp) False)))"
    using i(1) e by (intro inj_on_subset [OF inj]) (auto simp: pool_preimages_def intro!: bexI [of _ inp] bexI [of _ "(txid, txn)"])
  ultimately show ?thesis using containsLeaf_sound [OF acc] by (simp add: ContainsUnspentOutputElement_def)
qed

lemma updateTxnProofs_reproved:
  assumes "\<And>e. element_in H A e \<Longrightarrow> upd e = Some (e\<lparr>se_MerkleProof := valid_proof H B (unat (se_LeafIndex e))\<rparr>)"
    "\<And>inp. inp \<in> set (tx_Inputs txn) \<Longrightarrow> \<not> is_ephemeral inp \<Longrightarrow> element_in H A (oe_SE (in_Parent inp))"
  shows "updateTxnProofs upd txn = Some (reproved H B txn)"
proof -
  have "update_input_proof upd inp = Some (reproved_input H B inp)" if "inp \<in> set (tx_Inputs txn)" for inp
    using assms that by (auto simp: update_input_proof_def reproved_input_def)
  then show ?thesis by (simp add: updateTxnProofs_def reproved_def map_option_list_Some)
qed

lemma apply_loop_total:
  assumes "\<forall>(txid, txn)\<in>set txns.
      updateTxnProofs (ElementApplyUpdate_UpdateElementProof H (au_Element u)) txn = Some (reproved H B txn)"
  shows "\<exists>txns'. Pool_apply_loop H verify u txns = Some txns' \<and>
    (\<forall>(txid, txn)\<in>set txns. txn_valid H verify (au_State u) (updateEphemeralInputs_apply u (reproved H B txn)) \<longrightarrow>
      (txid, updateEphemeralInputs_apply u (reproved H B txn)) \<in> set txns')"
  using assms
proof (induction txns)
  case (Cons e txns)
  obtain txid txn where e: "e = (txid, txn)" by fastforce
  obtain rest where rest: "Pool_apply_loop H verify u txns = Some rest"
    "\<forall>(txid, txn)\<in>set txns. txn_valid H verify (au_State u) (updateEphemeralInputs_apply u (reproved H B txn)) \<longrightarrow>
      (txid, updateEphemeralInputs_apply u (reproved H B txn)) \<in> set rest"
    using Cons.IH Cons.prems by auto
  obtain r where r: "ValidateTransaction H verify (au_State u) (updateEphemeralInputs_apply u (reproved H B txn)) = Some r"
    using ValidateTransaction_total by blast
  have "updateTxnProofs (ElementApplyUpdate_UpdateElementProof H (au_Element u)) txn = Some (reproved H B txn)"
    using Cons.prems by (simp add: e)
  then have "Pool_apply_loop H verify u (e # txns) = Some (case r of Inl _ \<Rightarrow> rest
      | Inr _ \<Rightarrow> (txid, updateEphemeralInputs_apply u (reproved H B txn)) # rest)"
    using rest(1) r by (simp add: e Let_def)
  moreover have "txn_valid H verify (au_State u) (updateEphemeralInputs_apply u (reproved H B txn)) \<longleftrightarrow> r = Inr ()"
    using r ValidateTransaction_valid [of H verify "au_State u" "updateEphemeralInputs_apply u (reproved H B txn)"] by simp
  ultimately show ?case using rest(2) by (auto simp: e split: sum.splits)
qed simp

lemma height_bump:
  assumes "unat (h :: u64) + 2 < 2 ^ 64"
  shows "unat (h + 1) = unat h + 1" "unat (h + 1 + 1) = unat h + 2"
proof -
  have "unat (h + 1) = unat h + 1" if "unat h + 1 < 2 ^ 64" for h :: u64
    using that by (simp add: unat_word_ariths)
  from this [of h] this [of "h + 1"] show "unat (h + 1) = unat h + 1" "unat (h + 1 + 1) = unat h + 2"
    using assms by simp_all
qed

text \<open>A transaction of whose elements none is spent by the block stays valid after it.\<close>

lemma reproved_valid:
  assumes rep: "acc_repr H (ledger_apply H s b A) (cs_Elements s')" and ok: "block_ok H A s b"
    and v: "txn_valid H verify s txn"
    and leaf: "\<And>inp. inp \<in> set (tx_Inputs txn) \<Longrightarrow> leaf_in H A (OutputLeaf H (in_Parent inp) False)"
    and no: "\<And>inp oe. inp \<in> set (tx_Inputs txn) \<Longrightarrow> oe \<in> set (spent_parents b) \<Longrightarrow>
        se_LeafIndex (oe_SE (in_Parent inp)) \<noteq> se_LeafIndex (oe_SE oe)"
    and eph: "\<And>inp. inp \<in> set (tx_Inputs txn) \<Longrightarrow> \<not> is_ephemeral inp"
    and h: "ci_Height (cs_Index s') = ci_Height (cs_Index s) + 1" "unat (ci_Height (cs_Index s)) + 2 < 2 ^ 64"
  shows "txn_valid H verify s' (reproved H (ledger_apply H s b A) txn)"
proof -
  let ?B = "ledger_apply H s b A" and ?us = "spent_leaves H b True"
  have d: "distinct (map idx ?us)" using ok by (simp add: block_ok_def spent_leaves_def comp_def)
  have up: "unat (ci_Height (cs_Index s) + 1) = unat (ci_Height (cs_Index s)) + 1"
    "unat (ci_Height (cs_Index s') + 1) = unat (ci_Height (cs_Index s)) + 2"
    using h height_bump [of "ci_Height (cs_Index s)"] by simp_all
  have in1: "ContainsUnspentOutputElement H (cs_Elements s') (in_Parent (reproved_input H ?B inp))"
    if inp: "inp \<in> set (tx_Inputs txn)" for inp
  proof -
    let ?e = "oe_SE (in_Parent inp)" and ?p = "in_Parent (reproved_input H ?B inp)"
    let ?i = "unat (se_LeafIndex ?e)"
    have l: "?i < length A" "A ! ?i = (H (output_preimage (in_Parent inp)), False)"
      using leaf [OF inp] by (simp_all add: leaf_in_def)
    have "?i \<notin> idx ` set ?us" 
    proof
      assume "?i \<in> idx ` set ?us"
      then obtain oe where "oe \<in> set (spent_parents b)" "unat (se_LeafIndex (oe_SE oe)) = ?i"
        by (auto simp: spent_leaves_def)
      then show False using no [OF inp, of oe] by (simp add: word_unat_eq_iff)
    qed
    then have "?B ! ?i = A ! ?i" "?i < length ?B"
      using nth_ledger_update [OF l(1) d] l(1) by (simp_all add: ledger_apply_def nth_append)
    moreover have "output_preimage ?p = output_preimage (in_Parent inp)"
      by (simp add: reproved_input_def output_preimage_inj)
    ultimately have "leaf_in H ?B (OutputLeaf H ?p False)"
      using l eph [OF inp] by (simp add: leaf_in_def reproved_input_def)
    then show ?thesis unfolding ContainsUnspentOutputElement_def by (rule containsLeaf_complete [OF rep])
  qed
  have vals: "map in_value (tx_Inputs (reproved H ?B txn)) = map in_value (tx_Inputs txn)"
    by (simp add: reproved_def reproved_input_def)
  have tot: "txn_total (reproved H ?B txn) = txn_total txn" unfolding txn_total_def vals by simp
  have sig: "InputSigHash H s' (reproved H ?B txn) = InputSigHash H s txn" by (rule InputSigHash_cong) simp
  have mat: "oe_MaturityHeight (in_Parent inp) \<le> ci_Height (cs_Index s') + 1" if "inp \<in> set (tx_Inputs txn)" for inp
    using v that up by (fastforce simp: txn_valid_def word_le_nat_alt)
  have "\<forall>inp\<in>set (tx_Inputs (reproved H ?B txn)).
      (is_ephemeral inp \<or> ContainsUnspentOutputElement H (cs_Elements s') (in_Parent inp))
        \<and> oe_MaturityHeight (in_Parent inp) \<le> ci_Height (cs_Index s') + 1
        \<and> PublicKey_Address H (in_PublicKey inp) = out_Address (oe_Output (in_Parent inp))
        \<and> verify (in_PublicKey inp) (InputSigHash H s' (reproved H ?B txn)) (in_Signature inp)"
    unfolding sig using in1 mat v by (auto simp: reproved_def txn_valid_def)
  then show ?thesis using v unfolding txn_valid_def vals tot by (simp del: power_numeral)
qed

text \<open>A mined element replaces only ephemeral parents.\<close>

lemma apply_no_ephemeral:
  "(\<And>inp. inp \<in> set (tx_Inputs txn) \<Longrightarrow> \<not> is_ephemeral inp) \<Longrightarrow> updateEphemeralInputs_apply u txn = txn"
  by (simp add: updateEphemeralInputs_apply_def mined_input_def map_idI)

lemma in_delete_confirmed:
  "(txid, txn) \<in> set txns \<Longrightarrow> txid \<notin> Transaction_ID H ` set confirmed \<Longrightarrow> (txid, txn) \<in> set (delete_confirmed H confirmed txns)"
  by (induction confirmed arbitrary: txns) (auto simp: delete_confirmed_def AList.delete_eq)

lemma delete_confirmed_subset: "set (delete_confirmed H confirmed txns) \<subseteq> set txns"
proof (induction confirmed arbitrary: txns)
  case (Cons c confirmed)
  have "set (AList.delete (Transaction_ID H c) txns) \<subseteq> set txns" by (auto simp: AList.delete_eq)
  then show ?case using Cons.IH by (fastforce simp: delete_confirmed_def)
qed (simp add: delete_confirmed_def)

section \<open>Properties\<close>

text \<open>C24. Every transaction in the pool is valid in the state the pool follows, proofs included, and stands under its
  own ID, once; this holds after any sequence of added transactions and transaction sets, applied blocks and
  reverted blocks.\<close>

theorem pool_always_valid:
  assumes "pool_reach H verify p"
  shows "distinct (map fst (p_txns p)) \<and> (\<forall>(txid, txn)\<in>set (p_txns p).
    txid = Transaction_ID H txn \<and> ValidateTransaction H verify (p_cs p) txn = Some (Inr ()))"
  using pool_reach_ok [OF assms] ValidateTransaction_valid by (auto simp: pool_ok_def entries_ok_def)

lemma sample_pool:
  "Pool_AddTransaction sample_hash sample_verify (Pool_New sample_state) sample_txn1
     = Some (Inr ((Pool_New sample_state)\<lparr>p_txns := [(Transaction_ID sample_hash sample_txn1, sample_txn1)]\<rparr>))"
proof -
  have v: "ValidateTransaction sample_hash sample_verify sample_state sample_txn1 = valid"
    using sample_txns_valid(1) by (simp add: ValidateTransaction_valid)
  have "consume_ephemeral [] (tx_Inputs sample_txn1)"
    by (simp add: sample_txn_simps is_ephemeral_def sample_simps)
  then show ?thesis using v
    by (simp add: Pool_AddTransaction_def Pool_addTransaction_def Pool_validateTransaction_def Pool_refresh_def
        Pool_New_def pool_outputs_def Let_def)
qed

theorem pool_always_valid_witness:
  "distinct (map fst (p_txns ((Pool_New sample_state)\<lparr>p_txns := [(Transaction_ID sample_hash sample_txn1, sample_txn1)]\<rparr>)))
   \<and> ValidateTransaction sample_hash sample_verify sample_state sample_txn1 = Some (Inr ())"
  using pool_always_valid [OF pool_reach.add [OF pool_reach.new sample_pool]] by (simp add: Pool_New_def)


definition sample_empty_block :: block where
  "sample_empty_block =
     \<lparr>b_Header = \<lparr>bh_Height = 1, bh_ParentID = 0, bh_Nonce = 5, bh_Timestamp = 0, bh_MinerAddress = VoidAddress,
                  bh_Commitment = Commitment sample_hash sample_state VoidAddress []\<rparr>,
      b_Transactions = []\<rparr>"

lemma sample_empty_valid: "ValidateBlock sample_hash sample_verify sample_state sample_empty_block = valid"
proof -
  have t: "HashRequiringWork (cs_Difficulty sample_state) = Some (- 1)"
    by (simp add: HashRequiringWork_def sample_state_header)
  have nz: "BlockHeader_ID sample_hash (b_Header sample_empty_block) \<noteq> 0"
    by (simp add: BlockHeader_ID_def HashBytes_def)
  obtain w where w: "WorkRequiredForHash (BlockHeader_ID sample_hash (b_Header sample_empty_block)) = Some w"
    using nz by (simp add: WorkRequiredForHash_eq)
  have "NumHashes (cs_Difficulty sample_state) \<noteq> 0" by (simp add: sample_state_header)
  from MeetsTarget_iff [OF this nz t w]
  have "validateHeader sample_hash sample_state (b_Header sample_empty_block) = valid"
    using w by (simp add: validateHeader_valid sample_state_header BlockID_MeetsTarget_def)
      (simp add: sample_empty_block_def zero_time_def unix_to_internal_def)
  moreover have "ValidateTransactionSet sample_hash sample_verify sample_state [] = valid"
    by (simp add: ValidateTransactionSet_def validateEphemeralOutputs_def noDoubleSpends_def MaxBlockWeight_def BlockWeight_def)
  ultimately show ?thesis by (simp add: ValidateBlock_valid sample_empty_block_def)
qed

lemma sample_empty_facts:
  "spent_parents sample_empty_block = []" "b_Transactions sample_empty_block = []"
  "length (new_elements sample_hash sample_state sample_empty_block) = 1"
proof -
  show t: "b_Transactions sample_empty_block = []" by (simp add: sample_empty_block_def)
  show "spent_parents sample_empty_block = []" by (simp add: spent_parents_def block_inputs_def t)
  obtain c where c: "BlockReward sample_state = Some c" using BlockReward_nat [of sample_state] by blast
  show "length (new_elements sample_hash sample_state sample_empty_block) = 1"
    by (simp add: new_elements_def createdInBlock_def c t)
qed


end
