(* ===== verification/Chain_Store.thy ===== *)
theory Chain_Store
  imports Consensus_Properties
begin

text \<open>
  The interface \<open>ManagerStore\<close> of chain/manager.go, its contract, and the in-memory store of
  internal/chainutil/chainutil.go and store.go that provides it. A value of the interface is its method table;
  \<open>None\<close> is a panic, \<open>Inl\<close> an error, and an index that comes with an error is the zero index.
\<close>

section \<open>The interface\<close>

datatype store_error = ErrUnknownIndex | ErrPruned | ErrStoreIO

record 's manager_store =
  ms_AddCheckpoint :: "'s \<Rightarrow> checkpoint \<Rightarrow> (store_error + 's) option"
  ms_Checkpoint :: "'s \<Rightarrow> chain_index \<Rightarrow> store_error + checkpoint"
  ms_Header :: "'s \<Rightarrow> chain_index \<Rightarrow> store_error + block_header"
  ms_ExtendBest :: "'s \<Rightarrow> chain_index \<Rightarrow> (store_error + 's) option"
  ms_RewindBest :: "'s \<Rightarrow> (store_error + 's) option"
  ms_BestIndex :: "'s \<Rightarrow> u64 \<Rightarrow> (store_error + chain_index) option"
  ms_Flush :: "'s \<Rightarrow> store_error + 's"
  ms_Close :: "'s \<Rightarrow> store_error option"

definition zero_index :: chain_index where
  "zero_index = \<lparr>ci_Height = 0, ci_ID = 0\<rparr>"

section \<open>EphemeralStore\<close>

record ephemeral_store =
  es_entries :: "chain_index \<rightharpoonup> checkpoint"
  es_best :: "chain_index list"

definition EphemeralStore_AddCheckpoint :: "ephemeral_store \<Rightarrow> checkpoint \<Rightarrow> (store_error + ephemeral_store) option" where
  "EphemeralStore_AddCheckpoint es c = Some (Inr (es\<lparr>es_entries := (es_entries es)(cs_Index (cp_State c) \<mapsto> c)\<rparr>))"

definition EphemeralStore_Checkpoint :: "ephemeral_store \<Rightarrow> chain_index \<Rightarrow> store_error + checkpoint" where
  "EphemeralStore_Checkpoint es index = (case es_entries es index of None \<Rightarrow> Inl ErrUnknownIndex | Some e \<Rightarrow> Inr e)"

definition EphemeralStore_Header :: "ephemeral_store \<Rightarrow> chain_index \<Rightarrow> store_error + block_header" where
  "EphemeralStore_Header es index =
     (case EphemeralStore_Checkpoint es index of Inl e \<Rightarrow> Inl e | Inr c \<Rightarrow> Inr (b_Header (cp_Block c)))"

definition EphemeralStore_ExtendBest :: "ephemeral_store \<Rightarrow> chain_index \<Rightarrow> (store_error + ephemeral_store) option" where
  "EphemeralStore_ExtendBest es index =
     (if es_entries es index = None then None else Some (Inr (es\<lparr>es_best := es_best es @ [index]\<rparr>)))"

definition EphemeralStore_RewindBest :: "ephemeral_store \<Rightarrow> (store_error + ephemeral_store) option" where
  "EphemeralStore_RewindBest es =
     (if es_best es = [] then None else Some (Inr (es\<lparr>es_best := butlast (es_best es)\<rparr>)))"

definition EphemeralStore_BestIndex :: "ephemeral_store \<Rightarrow> u64 \<Rightarrow> (store_error + chain_index) option" where
  "EphemeralStore_BestIndex es height =
     (if es_best es = [] then None
      else let baseHeight = ci_Height (hd (es_best es)); tipHeight = ci_Height (last (es_best es)) in
        if \<not> (baseHeight \<le> height \<and> height \<le> tipHeight) then Some (Inl ErrUnknownIndex)
        else map_option Inr (at (es_best es) (unat (height - baseHeight))))"

definition EphemeralStore_Flush :: "ephemeral_store \<Rightarrow> store_error + ephemeral_store" where
  "EphemeralStore_Flush es = Inr es"

definition EphemeralStore_Close :: "ephemeral_store \<Rightarrow> store_error option" where
  "EphemeralStore_Close es = None"

definition NewEphemeralStore :: "checkpoint \<Rightarrow> ephemeral_store" where
  "NewEphemeralStore c =
     \<lparr>es_entries = [cs_Index (cp_State c) \<mapsto> c], es_best = [cs_Index (cp_State c)]\<rparr>"

text \<open>Its method table.\<close>

definition EphemeralStore :: "ephemeral_store manager_store" where
  "EphemeralStore =
     \<lparr>ms_AddCheckpoint = EphemeralStore_AddCheckpoint, ms_Checkpoint = EphemeralStore_Checkpoint,
      ms_Header = EphemeralStore_Header, ms_ExtendBest = EphemeralStore_ExtendBest,
      ms_RewindBest = EphemeralStore_RewindBest, ms_BestIndex = EphemeralStore_BestIndex,
      ms_Flush = EphemeralStore_Flush, ms_Close = EphemeralStore_Close\<rparr>"

lemma EphemeralStore_simps [simp]:
  "ms_AddCheckpoint EphemeralStore = EphemeralStore_AddCheckpoint"
  "ms_Checkpoint EphemeralStore = EphemeralStore_Checkpoint"
  "ms_Header EphemeralStore = EphemeralStore_Header"
  "ms_ExtendBest EphemeralStore = EphemeralStore_ExtendBest"
  "ms_RewindBest EphemeralStore = EphemeralStore_RewindBest"
  "ms_BestIndex EphemeralStore = EphemeralStore_BestIndex"
  "ms_Flush EphemeralStore = EphemeralStore_Flush"
  "ms_Close EphemeralStore = EphemeralStore_Close"
  by (simp_all add: EphemeralStore_def)

section \<open>The contract\<close>

text \<open>
  A store holds a map of checkpoints and the indices of the best chain. Any operation may report an error of its
  own; what it returns when it does not is determined.
\<close>

locale chain_store =
  fixes S :: "'s manager_store" and entries :: "'s \<Rightarrow> chain_index \<rightharpoonup> checkpoint" and best :: "'s \<Rightarrow> chain_index list"
  assumes AddCheckpoint_law: "ms_AddCheckpoint S s c = Some (Inr s') \<Longrightarrow>
      entries s' = (entries s)(cs_Index (cp_State c) \<mapsto> c) \<and> best s' = best s"
    and Checkpoint_law: "ms_Checkpoint S s i = Inr c \<Longrightarrow> entries s i = Some c"
    and Header_law: "ms_Header S s i = Inr hdr \<Longrightarrow> \<exists>c. entries s i = Some c \<and> b_Header (cp_Block c) = hdr"
    and ExtendBest_law: "ms_ExtendBest S s i = Some (Inr s') \<Longrightarrow> entries s' = entries s \<and> best s' = best s @ [i]"
    and RewindBest_law: "ms_RewindBest S s = Some (Inr s') \<Longrightarrow> entries s' = entries s \<and> best s' = butlast (best s)"
    and BestIndex_law: "ms_BestIndex S s h = Some (Inr i) \<Longrightarrow> i \<in> set (best s)"
    and Flush_law: "ms_Flush S s = Inr s' \<Longrightarrow> entries s' = entries s \<and> best s' = best s"

text \<open>
  A reliable store answers whatever it can: errors report unknown indices only, and the best chain can be read by
  height when its heights are consecutive.
\<close>

definition consecutive :: "chain_index list \<Rightarrow> bool" where
  "consecutive is \<longleftrightarrow> is \<noteq> [] \<and> unat (ci_Height (hd is)) + length is \<le> 2 ^ 64
     \<and> (\<forall>k<length is. unat (ci_Height (is ! k)) = unat (ci_Height (hd is)) + k)"

locale reliable_store = chain_store +
  assumes AddCheckpoint_ok: "\<exists>s'. ms_AddCheckpoint S s c = Some (Inr s')"
    and Checkpoint_ok: "ms_Checkpoint S s i = (case entries s i of None \<Rightarrow> Inl ErrUnknownIndex | Some c \<Rightarrow> Inr c)"
    and Header_ok: "ms_Header S s i =
        (case entries s i of None \<Rightarrow> Inl ErrUnknownIndex | Some c \<Rightarrow> Inr (b_Header (cp_Block c)))"
    and ExtendBest_ok: "entries s i \<noteq> None \<Longrightarrow> \<exists>s'. ms_ExtendBest S s i = Some (Inr s')"
    and RewindBest_ok: "best s \<noteq> [] \<Longrightarrow> \<exists>s'. ms_RewindBest S s = Some (Inr s')"
    and BestIndex_ok: "consecutive (best s) \<Longrightarrow> ms_BestIndex S s h = Some
        (if unat (ci_Height (hd (best s))) \<le> unat h \<and> unat h < unat (ci_Height (hd (best s))) + length (best s)
         then Inr (best s ! (unat h - unat (ci_Height (hd (best s))))) else Inl ErrUnknownIndex)"
    and Flush_ok: "\<exists>s'. ms_Flush S s = Inr s'"

lemma consecutive_last:
  "consecutive is \<Longrightarrow> unat (ci_Height (last is)) = unat (ci_Height (hd is)) + (length is - 1)"
  by (simp add: consecutive_def last_conv_nth)

lemma consecutive_BestIndex:
  assumes "consecutive (es_best es)"
  shows "EphemeralStore_BestIndex es h = Some
    (if unat (ci_Height (hd (es_best es))) \<le> unat h \<and> unat h < unat (ci_Height (hd (es_best es))) + length (es_best es)
     then Inr (es_best es ! (unat h - unat (ci_Height (hd (es_best es))))) else Inl ErrUnknownIndex)"
proof -
  let ?is = "es_best es"
  have ne: "?is \<noteq> []" using assms by (simp add: consecutive_def)
  then have len: "0 < length ?is" by simp
  have last: "unat (ci_Height (last ?is)) = unat (ci_Height (hd ?is)) + (length ?is - 1)"
    by (rule consecutive_last [OF assms])
  have "h \<le> ci_Height (last ?is) \<longleftrightarrow> unat h < unat (ci_Height (hd ?is)) + length ?is"
    unfolding word_le_nat_alt last using len by linarith
  moreover have "unat (h - ci_Height (hd ?is)) = unat h - unat (ci_Height (hd ?is))" if "ci_Height (hd ?is) \<le> h"
    using that by (simp add: unat_sub)
  ultimately show ?thesis
    using ne by (auto simp: EphemeralStore_BestIndex_def Let_def at_def word_le_nat_alt)
qed

interpretation ephemeral: reliable_store EphemeralStore es_entries es_best
proof unfold_locales
  fix s h i
  show "ms_BestIndex EphemeralStore s h = Some (Inr i) \<Longrightarrow> i \<in> set (es_best s)"
    by (auto simp: EphemeralStore_BestIndex_def Let_def at_def split: if_splits)
  show "consecutive (es_best s) \<Longrightarrow> ms_BestIndex EphemeralStore s h = Some
      (if unat (ci_Height (hd (es_best s))) \<le> unat h \<and> unat h < unat (ci_Height (hd (es_best s))) + length (es_best s)
       then Inr (es_best s ! (unat h - unat (ci_Height (hd (es_best s))))) else Inl ErrUnknownIndex)"
    by (simp only: EphemeralStore_simps consecutive_BestIndex)
qed (auto simp: EphemeralStore_AddCheckpoint_def EphemeralStore_Checkpoint_def EphemeralStore_Header_def
    EphemeralStore_ExtendBest_def EphemeralStore_RewindBest_def EphemeralStore_Flush_def
    split: option.splits if_splits)

end
