(* ===== verification/Manager.thy ===== *)
theory Manager
  imports Scratch Txpool Chain_Store
begin

text \<open>
  chain/manager.go: the manager keeps the scratch chains, chooses the best valid chain and tells its subscribers.
  Every operation returns its result together with the manager it leaves, also when it fails; \<open>None\<close> is a panic
  or a loop that does not end. The clock is a parameter that one call reads once. Every method holds the mutex for
  its whole body, so calls are atomic steps.
\<close>

section \<open>Subscribers\<close>

text \<open>The method table of \<open>Subscriber\<close>; a subscriber may fail with a message.\<close>

record 'u subscriber =
  sb_Apply :: "'u \<Rightarrow> chain_apply_update \<Rightarrow> bool \<Rightarrow> (string option \<times> 'u) option"
  sb_Revert :: "'u \<Rightarrow> chain_revert_update \<Rightarrow> (string option \<times> 'u) option"

text \<open>The loop over the subscribers stops at the first error.\<close>

fun notify :: "('u \<Rightarrow> (string option \<times> 'u) option) \<Rightarrow> 'u list \<Rightarrow> (string option \<times> 'u list) option" where
  "notify f [] = Some (None, [])"
| "notify f (u # us) = do {
     (e, u') \<leftarrow> f u;
     (case e of
        Some msg \<Rightarrow> Some (Some msg, u' # us)
      | None \<Rightarrow> do { (e', us') \<leftarrow> notify f us; Some (e', u' # us') })
   }"

section \<open>The manager\<close>

record ('s, 'u) manager =
  m_store :: 's
  m_cs :: chain_state
  m_chains :: "scratch_chain list"
  m_subscribers :: "'u list"
  m_lastFlush :: gotime

datatype manager_error =
  ErrFutureBlock | ErrKnownBlock | ErrMissingParent | ErrNoChain | ErrNoElement
  | ErrStoreFailed store_error | ErrInvalidHeader validation_error | ErrInvalidTip validation_error
  | ErrInvalidScratch scratch_error | ErrSubscriber string | ErrReorg manager_error

definition NewManager :: "'s \<Rightarrow> chain_state \<Rightarrow> gotime \<Rightarrow> ('s, 'u) manager" where
  "NewManager store cs now =
     \<lparr>m_store = store, m_cs = cs, m_chains = [], m_subscribers = [], m_lastFlush = now\<rparr>"

definition Manager_TipState :: "('s, 'u) manager \<Rightarrow> chain_state" where
  "Manager_TipState m = m_cs m"

definition Manager_Tip :: "('s, 'u) manager \<Rightarrow> chain_index" where
  "Manager_Tip m = cs_Index (Manager_TipState m)"

definition Manager_Block :: "'s manager_store \<Rightarrow> ('s, 'u) manager \<Rightarrow> chain_index \<Rightarrow> store_error + block" where
  "Manager_Block S m index = map_sum id cp_Block (ms_Checkpoint S (m_store m) index)"

definition Manager_State :: "'s manager_store \<Rightarrow> ('s, 'u) manager \<Rightarrow> chain_index \<Rightarrow> store_error + chain_state" where
  "Manager_State S m index = map_sum id cp_State (ms_Checkpoint S (m_store m) index)"

definition Manager_Close :: "'s manager_store \<Rightarrow> ('s, 'u) manager \<Rightarrow> store_error option" where
  "Manager_Close S m =
     (case ms_Flush S (m_store m) of Inl e \<Rightarrow> Some e | Inr s \<Rightarrow> ms_Close S s)"

section \<open>The tip\<close>

text \<open>The store is flushed at most once per minute; the flag is \<open>mayCommit\<close>.\<close>

definition flush_tip ::
    "'s manager_store \<Rightarrow> gotime \<Rightarrow> ('s, 'u) manager \<Rightarrow> (manager_error + bool) \<times> ('s, 'u) manager" where
  "flush_tip S now m =
     (if time_Sub now (m_lastFlush m) > 60 * 1000000000 then
        (case ms_Flush S (m_store m) of
           Inl e \<Rightarrow> (Inl (ErrStoreFailed e), m)
         | Inr s \<Rightarrow> (Inr True, m\<lparr>m_store := s, m_lastFlush := now\<rparr>))
      else (Inr False, m))"

definition notify_apply ::
    "'u subscriber \<Rightarrow> apply_update \<Rightarrow> block \<Rightarrow> bool \<Rightarrow> ('s, 'u) manager
     \<Rightarrow> ((manager_error + unit) \<times> ('s, 'u) manager) option" where
  "notify_apply U au b mayCommit m = do {
     (e, us) \<leftarrow> notify (\<lambda>u. sb_Apply U u \<lparr>cau_Update = au, cau_Block = b\<rparr> mayCommit) (m_subscribers m);
     Some (case e of Some msg \<Rightarrow> Inl (ErrSubscriber msg) | None \<Rightarrow> Inr (), m\<lparr>m_subscribers := us\<rparr>)
   }"

definition Manager_revertTip ::
    "hashfn \<Rightarrow> 's manager_store \<Rightarrow> 'u subscriber \<Rightarrow> ('s, 'u) manager
     \<Rightarrow> ((manager_error + unit) \<times> ('s, 'u) manager) option" where
  "Manager_revertTip H S U m =
     (case ms_Checkpoint S (m_store m) (cs_Index (m_cs m)) of
        Inl e \<Rightarrow> Some (Inl (ErrStoreFailed e), m)
      | Inr c \<Rightarrow>
     (case ms_Checkpoint S (m_store m) (BlockHeader_ParentIndex (b_Header (cp_Block c))) of
        Inl e \<Rightarrow> Some (Inl (ErrStoreFailed e), m)
      | Inr p \<Rightarrow> do {
          ru \<leftarrow> RevertBlock H (cp_State p) (cp_Block c);
          (e, us) \<leftarrow> notify (\<lambda>u. sb_Revert U u \<lparr>cru_Update = ru, cru_Block = cp_Block c\<rparr>) (m_subscribers m);
          let m = m\<lparr>m_subscribers := us\<rparr>;
          (case e of
             Some msg \<Rightarrow> Some (Inl (ErrSubscriber msg), m)
           | None \<Rightarrow> do {
               r \<leftarrow> ms_RewindBest S (m_store m);
               Some (case r of
                 Inl e \<Rightarrow> (Inl (ErrStoreFailed e), m)
               | Inr s \<Rightarrow> (Inr (), m\<lparr>m_store := s, m_cs := cp_State p\<rparr>))
             })
        }))"

definition Manager_applyTip ::
    "hashfn \<Rightarrow> 's manager_store \<Rightarrow> 'u subscriber \<Rightarrow> gotime \<Rightarrow> ('s, 'u) manager \<Rightarrow> chain_index
     \<Rightarrow> ((manager_error + unit) \<times> ('s, 'u) manager) option" where
  "Manager_applyTip H S U now m index =
     (case ms_Checkpoint S (m_store m) index of
        Inl e \<Rightarrow> Some (Inl (ErrStoreFailed e), m)
      | Inr c \<Rightarrow>
          if BlockHeader_ParentIndex (b_Header (cp_Block c)) \<noteq> cs_Index (m_cs m) then None
          else do {
            r \<leftarrow> ms_ExtendBest S (m_store m) (cs_Index (cp_State c));
            (case r of
               Inl e \<Rightarrow> Some (Inl (ErrStoreFailed e), m)
             | Inr s \<Rightarrow>
                 let (r, m) = flush_tip S now (m\<lparr>m_store := s\<rparr>) in
                 (case r of
                    Inl e \<Rightarrow> Some (Inl e, m)
                  | Inr mayCommit \<Rightarrow> do {
                      au \<leftarrow> ApplyBlock H (m_cs m) (cp_Block c);
                      (r, m) \<leftarrow> notify_apply U au (cp_Block c) mayCommit m;
                      Some (case r of Inl e \<Rightarrow> (Inl e, m) | Inr _ \<Rightarrow> (Inr (), m\<lparr>m_cs := au_State au\<rparr>))
                    }))
          })"

fun known_in_chains :: "hashfn \<Rightarrow> block \<Rightarrow> scratch_chain list \<Rightarrow> bool option" where
  "known_in_chains H b [] = Some False"
| "known_in_chains H b (sc # scs) = do {
     c \<leftarrow> ScratchChain_Contains sc (Block_Index H b);
     if c \<and> bh_Height (b_Header b) \<le> ci_Height (ScratchChain_ValidTip sc) then Some True
     else known_in_chains H b scs
   }"

text \<open>The error for a block that does not attach to the tip.\<close>

definition detached_error ::
    "hashfn \<Rightarrow> 's manager_store \<Rightarrow> ('s, 'u) manager \<Rightarrow> block \<Rightarrow> manager_error option" where
  "detached_error H S m b =
     (if cs_Index (m_cs m) = Block_Index H b then Some ErrKnownBlock
      else do {
        known \<leftarrow> known_in_chains H b (m_chains m);
        if known then Some ErrKnownBlock
        else Some (case ms_Header S (m_store m) (Block_Index H b) of
          Inr _ \<Rightarrow> ErrKnownBlock
        | Inl ErrUnknownIndex \<Rightarrow> ErrMissingParent
        | Inl e \<Rightarrow> ErrStoreFailed e)
      })"

text \<open>What \<open>AddTipBlock\<close> does with a block that validated.\<close>

definition commit_tip ::
    "hashfn \<Rightarrow> 's manager_store \<Rightarrow> 'u subscriber \<Rightarrow> gotime \<Rightarrow> ('s, 'u) manager \<Rightarrow> block
     \<Rightarrow> ((manager_error + unit) \<times> ('s, 'u) manager) option" where
  "commit_tip H S U now m b = do {
     au \<leftarrow> ApplyBlock H (m_cs m) b;
     r \<leftarrow> ms_AddCheckpoint S (m_store m) \<lparr>cp_Block = b, cp_State = au_State au\<rparr>;
     (case r of
        Inl e \<Rightarrow> Some (Inl (ErrStoreFailed e), m)
      | Inr s \<Rightarrow> do {
          let m = m\<lparr>m_store := s\<rparr>;
          r \<leftarrow> ms_ExtendBest S s (Block_Index H b);
          (case r of
             Inl e \<Rightarrow> Some (Inl (ErrStoreFailed e), m)
           | Inr s \<Rightarrow>
               let (r, m) = flush_tip S now (m\<lparr>m_store := s, m_cs := au_State au\<rparr>) in
               (case r of
                  Inl e \<Rightarrow> Some (Inl e, m)
                | Inr mayCommit \<Rightarrow> notify_apply U au b mayCommit m))
        })
   }"

definition Manager_AddTipBlock ::
    "hashfn \<Rightarrow> verifier \<Rightarrow> 's manager_store \<Rightarrow> 'u subscriber \<Rightarrow> gotime \<Rightarrow> ('s, 'u) manager \<Rightarrow> block
     \<Rightarrow> ((manager_error + unit) \<times> ('s, 'u) manager) option" where
  "Manager_AddTipBlock H verify S U now m b =
     (if bh_ParentID (b_Header b) \<noteq> ci_ID (cs_Index (m_cs m)) then do {
        e \<leftarrow> detached_error H S m b;
        Some (Inl e, m)
      }
      else if MaxFutureTimestamp (m_cs m) now < bh_Timestamp (b_Header b) then Some (Inl ErrFutureBlock, m)
      else do {
        v \<leftarrow> ValidateBlock H verify (m_cs m) b;
        (case v of
           Inl e \<Rightarrow> Some (Inl (ErrInvalidTip e), m)
         | Inr _ \<Rightarrow> commit_tip H S U now m b)
      })"

section \<open>Reorganisation\<close>

text \<open>The three loops of \<open>reorgTo\<close>: from the base of the chain down to the best chain, the reverts, the applications.\<close>

partial_function (option) rebase_loop ::
    "hashfn \<Rightarrow> 's manager_store \<Rightarrow> 's \<Rightarrow> block_header \<Rightarrow> chain_index list
     \<Rightarrow> (manager_error + block_header \<times> chain_index list) option" where
  "rebase_loop H S s base rebase = do {
     r \<leftarrow> ms_BestIndex S s (bh_Height base);
     (case r of
        Inl e \<Rightarrow>
          if e \<noteq> ErrUnknownIndex then Some (Inl (ErrStoreFailed e))
          else if zero_index = BlockHeader_Index H base then Some (Inr (base, rebase))
          else (case ms_Header S s (BlockHeader_ParentIndex base) of
                  Inl e \<Rightarrow> Some (Inl (ErrStoreFailed e))
                | Inr h \<Rightarrow> rebase_loop H S s h (rebase @ [BlockHeader_Index H base]))
      | Inr index \<Rightarrow>
          if index = BlockHeader_Index H base then Some (Inr (base, rebase))
          else (case ms_Header S s (BlockHeader_ParentIndex base) of
                  Inl e \<Rightarrow> Some (Inl (ErrStoreFailed e))
                | Inr h \<Rightarrow> rebase_loop H S s h (rebase @ [BlockHeader_Index H base])))
   }"

partial_function (option) revert_loop ::
    "hashfn \<Rightarrow> 's manager_store \<Rightarrow> 'u subscriber \<Rightarrow> chain_index \<Rightarrow> ('s, 'u) manager
     \<Rightarrow> ((manager_error + unit) \<times> ('s, 'u) manager) option" where
  "revert_loop H S U target m =
     (if cs_Index (m_cs m) = target then Some (Inr (), m)
      else do {
        (r, m) \<leftarrow> Manager_revertTip H S U m;
        (case r of Inl e \<Rightarrow> Some (Inl e, m) | Inr _ \<Rightarrow> revert_loop H S U target m)
      })"

partial_function (option) apply_loop ::
    "hashfn \<Rightarrow> 's manager_store \<Rightarrow> 'u subscriber \<Rightarrow> gotime \<Rightarrow> scratch_chain \<Rightarrow> chain_index list \<Rightarrow> ('s, 'u) manager
     \<Rightarrow> ((manager_error + unit) \<times> ('s, 'u) manager) option" where
  "apply_loop H S U now sc rebase m =
     (if cs_Index (m_cs m) = ScratchChain_ValidTip sc then Some (Inr (), m)
      else do {
        next_index \<leftarrow> (if rebase \<noteq> [] then Some (last rebase) else ScratchChain_Index sc (ci_Height (cs_Index (m_cs m)) + 1));
        (r, m) \<leftarrow> Manager_applyTip H S U now m next_index;
        (case r of Inl e \<Rightarrow> Some (Inl e, m) | Inr _ \<Rightarrow> apply_loop H S U now sc (butlast rebase) m)
      })"

definition Manager_reorgTo ::
    "hashfn \<Rightarrow> 's manager_store \<Rightarrow> 'u subscriber \<Rightarrow> gotime \<Rightarrow> scratch_chain \<Rightarrow> ('s, 'u) manager
     \<Rightarrow> ((manager_error + unit) \<times> ('s, 'u) manager) option" where
  "Manager_reorgTo H S U now sc m =
     (case ms_Header S (m_store m) (ScratchChain_Base sc) of
        Inl e \<Rightarrow> Some (Inl (ErrStoreFailed e), m)
      | Inr h \<Rightarrow> do {
          r \<leftarrow> rebase_loop H S (m_store m) h [];
          (case r of
             Inl e \<Rightarrow> Some (Inl e, m)
           | Inr (base, rebase) \<Rightarrow> do {
               (r, m) \<leftarrow> revert_loop H S U (BlockHeader_Index H base) m;
               (case r of
                  Inl e \<Rightarrow> Some (Inl e, m)
                | Inr _ \<Rightarrow> apply_loop H S U now sc rebase m)
             })
        })"

definition Manager_discardChain :: "nat \<Rightarrow> ('s, 'u) manager \<Rightarrow> ('s, 'u) manager" where
  "Manager_discardChain i m = m\<lparr>m_chains := take i (m_chains m) @ drop (i + 1) (m_chains m)\<rparr>"

section \<open>AddBlocks\<close>

text \<open>A scratch chain is a pointer in the code; here it is its position in \<open>m_chains\<close>.\<close>

fun find_block_chain :: "chain_index \<Rightarrow> nat \<Rightarrow> scratch_chain list \<Rightarrow> nat option option" where
  "find_block_chain index i [] = Some None"
| "find_block_chain index i (sc # scs) =
     (if \<not> ScratchChain_FullyValidated sc \<and> ci_Height index - 1 \<le> ci_Height (ScratchChain_ValidTip sc) then do {
        c \<leftarrow> ScratchChain_Contains sc index;
        if c then Some (Some i) else find_block_chain index (i + 1) scs
      }
      else find_block_chain index (i + 1) scs)"

fun add_blocks_loop ::
    "hashfn \<Rightarrow> verifier \<Rightarrow> 's manager_store \<Rightarrow> 'u subscriber \<Rightarrow> gotime \<Rightarrow> nat \<Rightarrow> ('s, 'u) manager \<Rightarrow> block list
     \<Rightarrow> ((manager_error + unit) \<times> ('s, 'u) manager) option" where
  "add_blocks_loop H verify S U now i m [] = Some (Inr (), m)"
| "add_blocks_loop H verify S U now i m (b # bs) = do {
     sc \<leftarrow> at (m_chains m) i;
     r \<leftarrow> ScratchChain_ApplyBlock H verify sc b;
     (case r of
        Inl e \<Rightarrow> Some (Inl (ErrInvalidScratch e), m)
      | Inr (c, sc) \<Rightarrow> do {
          let m = m\<lparr>m_chains := (m_chains m)[i := sc]\<rparr>;
          r \<leftarrow> ms_AddCheckpoint S (m_store m) c;
          (case r of
             Inl e \<Rightarrow> Some (Inl (ErrStoreFailed e), m)
           | Inr s \<Rightarrow> do {
               let m = m\<lparr>m_store := s\<rparr>;
               if Work_Cmp (cs_TotalWork (cp_State c)) (cs_TotalWork (m_cs m)) \<le> 0
               then add_blocks_loop H verify S U now i m bs
               else if cs_Index (m_cs m) \<noteq> BlockHeader_ParentIndex (b_Header (cp_Block c)) then do {
                 (r, m) \<leftarrow> Manager_reorgTo H S U now sc m;
                 (case r of
                    Inl e \<Rightarrow> Some (Inl (ErrReorg e), m)
                  | Inr _ \<Rightarrow> add_blocks_loop H verify S U now i m bs)
               }
               else do {
                 (r, m) \<leftarrow> Manager_applyTip H S U now m (cs_Index (cp_State c));
                 (case r of
                    Inl e \<Rightarrow> Some (Inl e, m)
                  | Inr _ \<Rightarrow> add_blocks_loop H verify S U now i m bs)
               }
             })
        })
   }"

definition Manager_AddBlocks ::
    "hashfn \<Rightarrow> verifier \<Rightarrow> 's manager_store \<Rightarrow> 'u subscriber \<Rightarrow> gotime \<Rightarrow> ('s, 'u) manager \<Rightarrow> block list
     \<Rightarrow> ((manager_error + scratch_chain option) \<times> ('s, 'u) manager) option" where
  "Manager_AddBlocks H verify S U now m blocks =
     (if blocks = [] then Some (Inr None, m)
      else do {
        let index = Block_Index H (hd blocks);
        found \<leftarrow> find_block_chain index 0 (m_chains m);
        (case found of
           None \<Rightarrow> Some (Inl ErrNoChain, m)
         | Some i \<Rightarrow> do {
             let have_blocks = unat (ci_Height (ScratchChain_ValidTip (m_chains m ! i)) - (ci_Height index - 1));
             if length blocks < have_blocks then None
             else do {
               (r, m) \<leftarrow> add_blocks_loop H verify S U now i m (drop have_blocks blocks);
               (case r of
                  Inl e \<Rightarrow> Some (Inl e, m)
                | Inr _ \<Rightarrow> do {
                    chain \<leftarrow> at (m_chains m) i;
                    Some (Inr (Some chain),
                      if ScratchChain_FullyValidated chain then Manager_discardChain i m else m)
                  })
             }
           })
      })"

section \<open>AddHeaders\<close>

fun chain_with_tip :: "chain_index \<Rightarrow> scratch_chain list \<Rightarrow> scratch_chain option option" where
  "chain_with_tip index [] = Some None"
| "chain_with_tip index (sc # scs) = do {
     c \<leftarrow> ScratchChain_Contains sc index;
     if c then Some (Some sc) else chain_with_tip index scs
   }"

text \<open>The known chain whose tip is the parent of one of the headers, with that header's position.\<close>

fun chain_to_extend :: "block_header list \<Rightarrow> nat \<Rightarrow> scratch_chain list \<Rightarrow> (nat \<times> nat) option option" where
  "chain_to_extend headers i [] = Some None"
| "chain_to_extend headers i (sc # scs) =
     (let tipHeight = ci_Height (ScratchChain_Tip sc); top = bh_Height (last headers) in
      if top \<le> tipHeight \<or> tipHeight + word_of_nat (length headers) < top then chain_to_extend headers (i + 1) scs
      else if length headers < unat (top - tipHeight) then None
      else do {
        let attachHeight = length headers - unat (top - tipHeight);
        h \<leftarrow> at headers attachHeight;
        if ScratchChain_Tip sc = BlockHeader_ParentIndex h then Some (Some (i, attachHeight))
        else chain_to_extend headers (i + 1) scs
      })"

fun skip_known :: "hashfn \<Rightarrow> 's manager_store \<Rightarrow> 's \<Rightarrow> block_header list \<Rightarrow> store_error + block_header list" where
  "skip_known H S s [] = Inr []"
| "skip_known H S s (h # hs) =
     (case ms_Header S s (BlockHeader_Index H h) of
        Inl ErrUnknownIndex \<Rightarrow> Inr (h # hs)
      | Inl e \<Rightarrow> Inl e
      | Inr _ \<Rightarrow> skip_known H S s hs)"

fun append_headers :: "hashfn \<Rightarrow> gotime \<Rightarrow> scratch_chain \<Rightarrow> block_header list \<Rightarrow> ((manager_error + unit) \<times> scratch_chain) option" where
  "append_headers H limit sc [] = Some (Inr (), sc)"
| "append_headers H limit sc (h # hs) =
     (if limit < bh_Timestamp h then Some (Inl ErrFutureBlock, sc)
      else do {
        r \<leftarrow> ScratchChain_AppendHeader H sc h;
        (case r of
           Inl e \<Rightarrow> Some (Inl (ErrInvalidHeader e), sc)
         | Inr sc \<Rightarrow> append_headers H limit sc hs)
      })"

text \<open>The end of \<open>AddHeaders\<close>: chain number \<open>i\<close> is extended by the headers.\<close>

definition extend_chain ::
    "hashfn \<Rightarrow> gotime \<Rightarrow> nat \<Rightarrow> block_header list \<Rightarrow> ('s, 'u) manager
     \<Rightarrow> ((manager_error + scratch_chain option) \<times> ('s, 'u) manager) option" where
  "extend_chain H now i headers m = do {
     sc \<leftarrow> at (m_chains m) i;
     (r, sc) \<leftarrow> append_headers H (MaxFutureTimestamp (m_cs m) now) sc headers;
     let m = m\<lparr>m_chains := (m_chains m)[i := sc]\<rparr>;
     Some (case r of
        Inl e \<Rightarrow> (Inl e, m)
      | Inr _ \<Rightarrow> (Inr (if Work_Cmp (ScratchChain_TotalWork sc) (cs_TotalWork (m_cs m)) > 0 then Some sc else None), m))
   }"

definition new_chain_headers ::
    "hashfn \<Rightarrow> 's manager_store \<Rightarrow> gotime \<Rightarrow> block_header list \<Rightarrow> ('s, 'u) manager
     \<Rightarrow> ((manager_error + scratch_chain option) \<times> ('s, 'u) manager) option" where
  "new_chain_headers H S now headers m =
     (case ms_Header S (m_store m) (BlockHeader_ParentIndex (hd headers)) of
        Inl e \<Rightarrow> Some (Inl (ErrStoreFailed e), m)
      | Inr _ \<Rightarrow>
     (case skip_known H S (m_store m) headers of
        Inl e \<Rightarrow> Some (Inl (ErrStoreFailed e), m)
      | Inr [] \<Rightarrow> Some (Inr None, m)
      | Inr (h # hs) \<Rightarrow>
     (case ms_Header S (m_store m) (BlockHeader_ParentIndex h) of
        Inl e \<Rightarrow> Some (Inl (ErrStoreFailed e), m)
      | Inr base \<Rightarrow>
     (case ms_Checkpoint S (m_store m) (BlockHeader_Index H base) of
        Inl e \<Rightarrow> Some (Inl (ErrStoreFailed e), m)
      | Inr c \<Rightarrow>
          extend_chain H now (length (m_chains m)) (h # hs)
            (m\<lparr>m_chains := m_chains m @ [NewScratchChain (cp_State c)]\<rparr>)))))"

definition Manager_AddHeaders ::
    "hashfn \<Rightarrow> 's manager_store \<Rightarrow> gotime \<Rightarrow> ('s, 'u) manager \<Rightarrow> block_header list
     \<Rightarrow> ((manager_error + scratch_chain option) \<times> ('s, 'u) manager) option" where
  "Manager_AddHeaders H S now m headers =
     (if headers = [] then Some (Inr None, m)
      else let tip = BlockHeader_Index H (last headers) in
        if cs_Index (m_cs m) = tip \<or> \<not> isl (ms_Header S (m_store m) tip) then Some (Inr None, m)
        else do {
          known \<leftarrow> chain_with_tip tip (m_chains m);
          (case known of
             Some sc \<Rightarrow>
               Some (Inr (if Work_Cmp (ScratchChain_TotalWork sc) (cs_TotalWork (m_cs m)) > 0 then Some sc else None), m)
           | None \<Rightarrow> do {
               found \<leftarrow> chain_to_extend headers 0 (m_chains m);
               (case found of
                  Some (i, attachHeight) \<Rightarrow> extend_chain H now i (drop attachHeight headers) m
                | None \<Rightarrow> new_chain_headers H S now headers m)
             })
        })"

end
