(* ===== verification/Manager_Paths.thy ===== *)
theory Manager_Paths
  imports Manager
begin

text \<open>
  chain/manager.go: paths between two indices, and what is sent along them: \<open>reorgPath\<close>, \<open>AddSubscriber\<close> and
  \<open>UpdateElementProof\<close>. The loops follow the headers of the store and need not end on a store that does not hold
  what it says; \<open>None\<close> is a panic or such a loop.
\<close>

section \<open>The code\<close>

definition rewind :: "'s manager_store \<Rightarrow> 's \<Rightarrow> chain_index \<Rightarrow> store_error + chain_index" where
  "rewind S s index = map_sum id BlockHeader_ParentIndex (ms_Header S s index)"

text \<open>The loops that rewind one end until its height is reached.\<close>

partial_function (option) rewind_to ::
    "'s manager_store \<Rightarrow> 's \<Rightarrow> u64 \<Rightarrow> chain_index \<Rightarrow> chain_index list
     \<Rightarrow> (store_error + chain_index \<times> chain_index list) option" where
  "rewind_to S s height a acc =
     (if height < ci_Height a then
        (case rewind S s a of
           Inl e \<Rightarrow> Some (Inl e)
         | Inr a' \<Rightarrow> rewind_to S s height a' (acc @ [a]))
      else Some (Inr (a, acc)))"

partial_function (option) rewind_both ::
    "'s manager_store \<Rightarrow> 's \<Rightarrow> chain_index \<Rightarrow> chain_index \<Rightarrow> chain_index list \<Rightarrow> chain_index list
     \<Rightarrow> (store_error + chain_index list \<times> chain_index list) option" where
  "rewind_both S s a b reverts applies =
     (if a = b then Some (Inr (reverts, applies))
      else (case rewind S s a of
              Inl e \<Rightarrow> Some (Inl e)
            | Inr a' \<Rightarrow>
           (case rewind S s b of
              Inl e \<Rightarrow> Some (Inl e)
            | Inr b' \<Rightarrow> rewind_both S s a' b' (reverts @ [a]) (applies @ [b]))))"

definition reorgPath ::
    "'s manager_store \<Rightarrow> 's \<Rightarrow> chain_index \<Rightarrow> chain_index
     \<Rightarrow> (store_error + chain_index list \<times> chain_index list) option" where
  "reorgPath S s a b = do {
     r \<leftarrow> rewind_to S s (ci_Height b) a [];
     (case r of
        Inl e \<Rightarrow> Some (Inl e)
      | Inr (a', reverts) \<Rightarrow> do {
          r \<leftarrow> rewind_to S s (ci_Height a') b [];
          (case r of
             Inl e \<Rightarrow> Some (Inl e)
           | Inr (b', applies) \<Rightarrow> do {
               r \<leftarrow> rewind_both S s a' b' reverts applies;
               Some (case r of Inl e \<Rightarrow> Inl e | Inr (reverts, applies) \<Rightarrow> Inr (reverts, rev applies))
             })
        })
   }"

text \<open>The block at an index and the state of its parent.\<close>

definition block_and_parent ::
    "'s manager_store \<Rightarrow> 's \<Rightarrow> chain_index \<Rightarrow> store_error + block \<times> chain_state" where
  "block_and_parent S s index =
     (case ms_Checkpoint S s index of
        Inl e \<Rightarrow> Inl e
      | Inr c \<Rightarrow>
     (case ms_Checkpoint S s (BlockHeader_ParentIndex (b_Header (cp_Block c))) of
        Inl e \<Rightarrow> Inl e
      | Inr p \<Rightarrow> Inr (cp_Block c, cp_State p)))"

text \<open>\<open>AddSubscriber\<close>: the subscriber is brought to the tip and then added.\<close>

fun send_reverts ::
    "hashfn \<Rightarrow> 's manager_store \<Rightarrow> 's \<Rightarrow> 'u subscriber \<Rightarrow> 'u \<Rightarrow> chain_index list
     \<Rightarrow> (manager_error option \<times> 'u) option" where
  "send_reverts H S s U u [] = Some (None, u)"
| "send_reverts H S s U u (index # is) =
     (case block_and_parent S s index of
        Inl e \<Rightarrow> Some (Some (ErrStoreFailed e), u)
      | Inr (b, cs) \<Rightarrow> do {
          ru \<leftarrow> RevertBlock H cs b;
          (e, u) \<leftarrow> sb_Revert U u \<lparr>cru_Update = ru, cru_Block = b\<rparr>;
          (case e of
             Some msg \<Rightarrow> Some (Some (ErrSubscriber msg), u)
           | None \<Rightarrow> send_reverts H S s U u is)
        })"

fun send_applies ::
    "hashfn \<Rightarrow> 's manager_store \<Rightarrow> 's \<Rightarrow> 'u subscriber \<Rightarrow> chain_index \<Rightarrow> 'u \<Rightarrow> chain_index list
     \<Rightarrow> (manager_error option \<times> 'u) option" where
  "send_applies H S s U tip u [] = Some (None, u)"
| "send_applies H S s U tip u (index # is) =
     (case block_and_parent S s index of
        Inl e \<Rightarrow> Some (Some (ErrStoreFailed e), u)
      | Inr (b, cs) \<Rightarrow> do {
          au \<leftarrow> ApplyBlock H cs b;
          (e, u) \<leftarrow> sb_Apply U u \<lparr>cau_Update = au, cau_Block = b\<rparr> (index = tip);
          (case e of
             Some msg \<Rightarrow> Some (Some (ErrSubscriber msg), u)
           | None \<Rightarrow> send_applies H S s U tip u is)
        })"

definition Manager_AddSubscriber ::
    "hashfn \<Rightarrow> 's manager_store \<Rightarrow> 'u subscriber \<Rightarrow> ('s, 'u) manager \<Rightarrow> 'u \<Rightarrow> chain_index
     \<Rightarrow> ((manager_error + unit) \<times> ('s, 'u) manager) option" where
  "Manager_AddSubscriber H S U m u tip = do {
     r \<leftarrow> reorgPath S (m_store m) tip (cs_Index (m_cs m));
     (case r of
        Inl e \<Rightarrow> Some (Inl (ErrStoreFailed e), m)
      | Inr (reverts, applies) \<Rightarrow> do {
          (e, u) \<leftarrow> send_reverts H S (m_store m) U u reverts;
          (case e of
             Some fault \<Rightarrow> Some (Inl fault, m)
           | None \<Rightarrow> do {
               (e, u) \<leftarrow> send_applies H S (m_store m) U (cs_Index (m_cs m)) u applies;
               Some (case e of
                 Some fault \<Rightarrow> (Inl fault, m)
               | None \<Rightarrow> (Inr (), m\<lparr>m_subscribers := m_subscribers m @ [u]\<rparr>))
             })
        })
   }"

text \<open>\<open>UpdateElementProof\<close>: the element is moved along the path; on an error it stays as far as it came.\<close>

fun revert_proof ::
    "hashfn \<Rightarrow> 's manager_store \<Rightarrow> 's \<Rightarrow> state_element \<Rightarrow> chain_index list
     \<Rightarrow> (manager_error option \<times> state_element) option" where
  "revert_proof H S s e [] = Some (None, e)"
| "revert_proof H S s e (index # is) =
     (case block_and_parent S s index of
        Inl fault \<Rightarrow> Some (Some (ErrStoreFailed fault), e)
      | Inr (b, cs) \<Rightarrow> do {
          ru \<leftarrow> RevertBlock H cs b;
          if acc_NumLeaves (cs_Elements (ru_State ru)) \<le> se_LeafIndex e then Some (Some ErrNoElement, e)
          else do {
            e' \<leftarrow> ElementRevertUpdate_UpdateElementProof H (ru_Element ru) e;
            revert_proof H S s e' is
          }
        })"

fun apply_proof ::
    "hashfn \<Rightarrow> 's manager_store \<Rightarrow> 's \<Rightarrow> state_element \<Rightarrow> chain_index list
     \<Rightarrow> (manager_error option \<times> state_element) option" where
  "apply_proof H S s e [] = Some (None, e)"
| "apply_proof H S s e (index # is) =
     (case block_and_parent S s index of
        Inl fault \<Rightarrow> Some (Some (ErrStoreFailed fault), e)
      | Inr (b, cs) \<Rightarrow> do {
          au \<leftarrow> ApplyBlock H cs b;
          e' \<leftarrow> ElementApplyUpdate_UpdateElementProof H (au_Element au) e;
          apply_proof H S s e' is
        })"

definition Manager_UpdateElementProof ::
    "hashfn \<Rightarrow> 's manager_store \<Rightarrow> ('s, 'u) manager \<Rightarrow> state_element \<Rightarrow> chain_index \<Rightarrow> chain_index
     \<Rightarrow> (manager_error option \<times> state_element) option" where
  "Manager_UpdateElementProof H S m e a b = do {
     r \<leftarrow> reorgPath S (m_store m) a b;
     (case r of
        Inl fault \<Rightarrow> Some (Some (ErrStoreFailed fault), e)
      | Inr (reverts, applies) \<Rightarrow> do {
          (fault, e) \<leftarrow> revert_proof H S (m_store m) e reverts;
          (case fault of
             Some _ \<Rightarrow> Some (fault, e)
           | None \<Rightarrow> apply_proof H S (m_store m) e applies)
        })
   }"

section \<open>Paths in the store\<close>

text \<open>The entries form a forest: the parent of an entry, and the entries from one index down to (and without) another.\<close>

definition entry_parent :: "(chain_index \<rightharpoonup> checkpoint) \<Rightarrow> chain_index \<Rightarrow> chain_index option" where
  "entry_parent E i = map_option (\<lambda>c. BlockHeader_ParentIndex (b_Header (cp_Block c))) (E i)"

fun descent :: "(chain_index \<rightharpoonup> checkpoint) \<Rightarrow> chain_index \<Rightarrow> chain_index list \<Rightarrow> chain_index \<Rightarrow> bool" where
  "descent E a [] z \<longleftrightarrow> a = z"
| "descent E a (p # ps) z \<longleftrightarrow> p = a \<and> ci_Height a \<noteq> 0 \<and> (\<exists>a'. entry_parent E a = Some a' \<and> descent E a' ps z)"

text \<open>Every entry above height zero is filed under the index of its block.\<close>

definition entries_named :: "hashfn \<Rightarrow> (chain_index \<rightharpoonup> checkpoint) \<Rightarrow> bool" where
  "entries_named H E \<longleftrightarrow> (\<forall>i c. E i = Some c \<longrightarrow> ci_Height i \<noteq> 0 \<longrightarrow> Block_Index H (cp_Block c) = i)"

lemma parent_height:
  assumes "entries_named H E" "entry_parent E a = Some a'" "ci_Height a \<noteq> 0"
  shows "unat (ci_Height a) = Suc (unat (ci_Height a'))"
proof -
  obtain c where c: "E a = Some c" "a' = BlockHeader_ParentIndex (b_Header (cp_Block c))"
    using assms(2) by (auto simp: entry_parent_def)
  then have "ci_Height (Block_Index H (cp_Block c)) = ci_Height a" using assms(1,3) by (simp add: entries_named_def)
  then have "ci_Height a' = ci_Height a - 1"
    by (simp add: c(2) Block_Index_def BlockHeader_Index_def BlockHeader_ParentIndex_def)
  then show ?thesis using assms(3) by (simp add: unat_minus_one unat_gt_0)
qed

lemma descent_height:
  "entries_named H E \<Longrightarrow> descent E a ps z \<Longrightarrow> unat (ci_Height a) = unat (ci_Height z) + length ps"
  by (induction ps arbitrary: a) (auto dest: parent_height)

lemma descent_append: "descent E a (ps @ qs) z \<longleftrightarrow> (\<exists>y. descent E a ps y \<and> descent E y qs z)"
  by (induction ps arbitrary: a) auto

lemma descent_nth_height:
  assumes "entries_named H E" "descent E a ps z" "j < length ps"
  shows "unat (ci_Height (ps ! j)) + j = unat (ci_Height a)"
proof -
  have "descent E a (take j ps @ drop j ps) z" using assms(2) by simp
  then obtain y where y: "descent E a (take j ps) y" "descent E y (drop j ps) z" by (auto simp only: descent_append)
  have "drop j ps = ps ! j # drop (Suc j) ps" using assms(3) by (simp add: Cons_nth_drop_Suc)
  then have "y = ps ! j" using y(2) by (metis descent.simps(2))
  then show ?thesis using descent_height [OF assms(1) y(1)] assms(3) by simp
qed

context reliable_store
begin

lemma rewind_parent:
  "rewind S s a = (case entry_parent (entries s) a of None \<Rightarrow> Inl ErrUnknownIndex | Some p \<Rightarrow> Inr p)"
  by (simp add: rewind_def Header_ok entry_parent_def split: option.split)

lemma rewind_to_descent:
  assumes "entries_named H (entries s)" "descent (entries s) a ps z" "ci_Height z \<le> h"
  shows "\<exists>a'. let k = unat (ci_Height a) - unat h in
      rewind_to S s h a acc = Some (Inr (a', acc @ take k ps))
      \<and> descent (entries s) a (take k ps) a' \<and> descent (entries s) a' (drop k ps) z"
  using assms(2)
proof (induction ps arbitrary: a acc)
  case Nil
  then show ?case using assms(3) by (simp add: rewind_to.simps word_le_nat_alt word_less_nat_alt)
next
  case (Cons p ps)
  show ?case
  proof (cases "h < ci_Height a")
    case True
    from Cons.prems obtain a' where a': "p = a" "ci_Height a \<noteq> 0" "entry_parent (entries s) a = Some a'"
      "descent (entries s) a' ps z" by auto
    have n: "unat (ci_Height a) - unat h = Suc (unat (ci_Height a') - unat h)"
      using parent_height [OF assms(1) a'(3,2)] True by (simp add: word_less_nat_alt)
    have "rewind_to S s h a acc = rewind_to S s h a' (acc @ [a])"
      using True a'(3) by (subst rewind_to.simps) (simp add: rewind_parent)
    then show ?thesis using Cons.IH [OF a'(4), of "acc @ [a]"] a' by (simp add: n Let_def)
  next
    case False
    then show ?thesis using Cons.prems by (simp add: rewind_to.simps word_less_nat_alt)
  qed
qed

lemma rewind_both_descent:
  assumes "descent (entries s) a ps z" "descent (entries s) b qs z" "length ps = length qs"
  shows "\<exists>k\<le>length ps. \<exists>c. rewind_both S s a b rs as = Some (Inr (rs @ take k ps, as @ take k qs))
    \<and> descent (entries s) a (take k ps) c \<and> descent (entries s) b (take k qs) c \<and> descent (entries s) c (drop k ps) z
    \<and> (\<forall>j<k. ps ! j \<noteq> qs ! j)"
  using assms
proof (induction ps arbitrary: a b qs rs as)
  case Nil
  then show ?case by (simp add: rewind_both.simps)
next
  case (Cons p ps)
  show ?case
  proof (cases "a = b")
    case True
    then show ?thesis using Cons.prems by (intro exI [of _ 0]) (auto simp: rewind_both.simps)
  next
    case False
    obtain q qs' where qs: "qs = q # qs'" using Cons.prems(3) by (cases qs) auto
    from Cons.prems obtain a' b' where ab: "p = a" "q = b" "ci_Height a \<noteq> 0" "ci_Height b \<noteq> 0"
      "entry_parent (entries s) a = Some a'" "entry_parent (entries s) b = Some b'"
      "descent (entries s) a' ps z" "descent (entries s) b' qs' z" "length ps = length qs'"
      by (auto simp: qs)
    have step: "rewind_both S s a b rs as = rewind_both S s a' b' (rs @ [a]) (as @ [b])"
      using False ab(5,6) by (subst rewind_both.simps) (simp add: rewind_parent)
    from Cons.IH [OF ab(7-9), of "rs @ [a]" "as @ [b]"] obtain k c where
      k: "k \<le> length ps" "rewind_both S s a' b' (rs @ [a]) (as @ [b]) = Some (Inr ((rs @ [a]) @ take k ps, (as @ [b]) @ take k qs'))"
      "descent (entries s) a' (take k ps) c" "descent (entries s) b' (take k qs') c" "descent (entries s) c (drop k ps) z"
      "\<forall>j<k. ps ! j \<noteq> qs' ! j"
      by blast
    have "\<forall>j<Suc k. (p # ps) ! j \<noteq> qs ! j"
      using k(6) False ab(1,2) by (auto simp: qs nth_Cons split: nat.split)
    then show ?thesis
      using k(1-5) ab by (intro exI [of _ "Suc k"] conjI exI [of _ c]) (simp_all add: qs step)
  qed
qed

text \<open>The path found between two indices with a common ancestor.\<close>

lemma reorgPath_descent:
  assumes named: "entries_named H (entries s)"
    and a: "descent (entries s) a ps z" and b: "descent (entries s) b qs z"
  shows "\<exists>reverts applies c ts. reorgPath S s a b = Some (Inr (reverts, applies))
    \<and> descent (entries s) a reverts c \<and> descent (entries s) b (rev applies) c \<and> descent (entries s) c ts z
    \<and> set reverts \<inter> set applies = {}"
proof -
  let ?E = "entries s"
  note ha = descent_height [OF named a] and hb = descent_height [OF named b]
  define k1 where "k1 = unat (ci_Height a) - unat (ci_Height b)"
  have "ci_Height z \<le> ci_Height b" using hb by (simp add: word_le_nat_alt)
  from rewind_to_descent [OF named a this, of "[]"] obtain a' where
    a': "rewind_to S s (ci_Height b) a [] = Some (Inr (a', take k1 ps))"
      "descent ?E a (take k1 ps) a'" "descent ?E a' (drop k1 ps) z"
    by (auto simp: Let_def k1_def)
  note ha' = descent_height [OF named a'(3)]
  define k2 where "k2 = unat (ci_Height b) - unat (ci_Height a')"
  have "ci_Height z \<le> ci_Height a'" using ha' by (simp add: word_le_nat_alt)
  from rewind_to_descent [OF named b this, of "[]"] obtain b' where
    b': "rewind_to S s (ci_Height a') b [] = Some (Inr (b', take k2 qs))"
      "descent ?E b (take k2 qs) b'" "descent ?E b' (drop k2 qs) z"
    by (auto simp: Let_def k2_def)
  have len: "length (drop k1 ps) = length (drop k2 qs)" "k1 = 0 \<or> k2 = 0" "k1 \<le> length ps" "k2 \<le> length qs"
    using ha hb ha' by (auto simp: k1_def k2_def)
  from rewind_both_descent [OF a'(3) b'(3) len(1), of "take k1 ps" "take k2 qs"] obtain k c where
    k: "k \<le> length (drop k1 ps)"
      "rewind_both S s a' b' (take k1 ps) (take k2 qs)
        = Some (Inr (take k1 ps @ take k (drop k1 ps), take k2 qs @ take k (drop k2 qs)))"
      "descent ?E a' (take k (drop k1 ps)) c" "descent ?E b' (take k (drop k2 qs)) c" "descent ?E c (drop k (drop k1 ps)) z"
      "\<forall>j<k. drop k1 ps ! j \<noteq> drop k2 qs ! j"
    by blast
  define rs where "rs = take k1 ps @ take k (drop k1 ps)"
  define as where "as = take k2 qs @ take k (drop k2 qs)"
  have path: "descent ?E a rs c" "descent ?E b as c"
    unfolding rs_def as_def descent_append using a'(2) b'(2) k(3,4) by blast+
  have "rs ! i \<noteq> as ! j" if i: "i < length rs" and j: "j < length as" for i j
  proof
    assume eq: "rs ! i = as ! j"
    have "unat (ci_Height a) + j = unat (ci_Height b) + i"
      using descent_nth_height [OF named path(1) i] descent_nth_height [OF named path(2) j] eq by simp
    moreover have "unat (ci_Height a) + k2 = unat (ci_Height b) + k1"
      using ha hb ha' len by (auto simp: k1_def k2_def)
    ultimately have "i + k2 = j + k1" by simp
    then have ij: "k1 \<le> i" "k2 \<le> j" "i - k1 = j - k2" using len(2) by auto
    have "rs ! i = drop k1 ps ! (i - k1)" "as ! j = drop k2 qs ! (j - k2)" "i - k1 < k"
      using i j ij(1,2) len(3,4) k(1) by (simp_all add: rs_def as_def nth_append)
    then show False using k(6) eq ij(3) by metis
  qed
  then have "set rs \<inter> set (rev as) = {}" by (metis disjoint_iff in_set_conv_nth set_rev)
  moreover have "reorgPath S s a b = Some (Inr (rs, rev as))"
    by (simp add: reorgPath_def a'(1) b'(1) k(2) rs_def as_def)
  ultimately show ?thesis using path k(5) by fastforce
qed

lemma block_and_parent_ok:
  "entries s i = Some c \<Longrightarrow> entries s (BlockHeader_ParentIndex (b_Header (cp_Block c))) = Some p \<Longrightarrow>
   block_and_parent S s i = Inr (cp_Block c, cp_State p)"
  by (simp add: block_and_parent_def Checkpoint_ok)

end

section \<open>Proofs along a path\<close>

text \<open>Every entry whose parent is stored is a valid block on it; \<open>led\<close> and \<open>hst\<close> are the ledgers and histories
  that the states stand for.\<close>

definition store_ledgers ::
    "hashfn \<Rightarrow> verifier \<Rightarrow> (chain_index \<rightharpoonup> checkpoint) \<Rightarrow> (chain_index \<Rightarrow> ledger) \<Rightarrow> (chain_index \<Rightarrow> chain_index list) \<Rightarrow> bool" where
  "store_ledgers H verify E led hst \<longleftrightarrow>
     (\<forall>i c p. E i = Some c \<longrightarrow> E (BlockHeader_ParentIndex (b_Header (cp_Block c))) = Some p \<longrightarrow>
       (let j = BlockHeader_ParentIndex (b_Header (cp_Block c)) in
        ValidateBlock H verify (cp_State p) (cp_Block c) = Some (Inr ())
        \<and> state_repr H (led j) (hst j) (cp_State p)
        \<and> led i = ledger_apply H (cp_State p) (cp_Block c) (led j)
        \<and> inj_on H (set (block_preimages H (led j) (cp_Block c)))
        \<and> length (led j) + length (new_elements H (cp_State p) (cp_Block c)) < 2 ^ 62 \<and> length (hst j) < 2 ^ 62))"

lemma descent_Cons_entry:
  assumes "descent E a (p # ps) z" "E z \<noteq> None"
  obtains c q where "p = a" "ci_Height a \<noteq> 0" "E a = Some c" "E (BlockHeader_ParentIndex (b_Header (cp_Block c))) = Some q"
    "descent E (BlockHeader_ParentIndex (b_Header (cp_Block c))) ps z"
proof -
  obtain a' where a': "p = a" "ci_Height a \<noteq> 0" "entry_parent E a = Some a'" "descent E a' ps z"
    using assms(1) by auto
  then obtain c where c: "E a = Some c" "a' = BlockHeader_ParentIndex (b_Header (cp_Block c))"
    by (auto simp: entry_parent_def)
  have "E a' \<noteq> None" using a'(4) assms(2) by (cases ps) (auto simp: entry_parent_def)
  then show thesis using a' c that by auto
qed

lemma store_ledgersD:
  assumes "store_ledgers H verify E led hst" "E i = Some c" "E j = Some p" "j = BlockHeader_ParentIndex (b_Header (cp_Block c))"
  shows "state_repr H (led j) (hst j) (cp_State p)" "block_ok H (led j) (cp_State p) (cp_Block c)"
    "led i = ledger_apply H (cp_State p) (cp_Block c) (led j)" "length (led j) \<le> length (led i)"
    "length (led j) + length (new_elements H (cp_State p) (cp_Block c)) < 2 ^ 62" "length (hst j) < 2 ^ 62"
proof -
  note d = assms(1) [unfolded store_ledgers_def, rule_format, OF assms(2), of p, folded assms(4), OF assms(3), unfolded Let_def]
  show "state_repr H (led j) (hst j) (cp_State p)" "led i = ledger_apply H (cp_State p) (cp_Block c) (led j)"
    "length (led j) + length (new_elements H (cp_State p) (cp_Block c)) < 2 ^ 62" "length (hst j) < 2 ^ 62"
    using d by simp_all
  then show "length (led j) \<le> length (led i)" by (simp add: ledger_apply_def)
  show "block_ok H (led j) (cp_State p) (cp_Block c)"
    using d block_ok_if_valid [of H "led j" "cp_State p" verify "cp_Block c"] by (simp add: state_repr_def)
qed

lemma ledger_grows:
  "store_ledgers H verify E led hst \<Longrightarrow> E z \<noteq> None \<Longrightarrow> descent E a ps z \<Longrightarrow> length (led z) \<le> length (led a)"
proof (induction ps arbitrary: a)
  case (Cons p ps)
  from Cons.prems(3,2) obtain c q where c: "E a = Some c" "E (BlockHeader_ParentIndex (b_Header (cp_Block c))) = Some q"
    "descent E (BlockHeader_ParentIndex (b_Header (cp_Block c))) ps z"
    by (rule descent_Cons_entry)
  show ?case
    using Cons.IH [OF Cons.prems(1,2) c(3)] store_ledgersD(4) [OF Cons.prems(1) c(1,2) refl] by simp
qed simp

context reliable_store
begin

lemma revert_proof_descent:
  assumes led: "store_ledgers H verify (entries s) led hst" and named: "entries_named H (entries s)"
    and z: "entries s z \<noteq> None"
  shows "descent (entries s) a ps z \<Longrightarrow> element_in H (led a) e \<Longrightarrow>
    (if unat (se_LeafIndex e) < length (led z)
     then revert_proof H S s e ps = Some (None, e\<lparr>se_MerkleProof := valid_proof H (led z) (unat (se_LeafIndex e))\<rparr>)
     else \<exists>e'. revert_proof H S s e ps = Some (Some ErrNoElement, e'))"
proof (induction ps arbitrary: a e)
  case Nil
  then show ?case by (simp add: element_in_def)
next
  case (Cons i ps)
  let ?n = "unat (se_LeafIndex e)"
  from Cons.prems(1) z obtain c p where c: "i = a" "ci_Height a \<noteq> 0" "entries s a = Some c"
      "entries s (BlockHeader_ParentIndex (b_Header (cp_Block c))) = Some p"
      "descent (entries s) (BlockHeader_ParentIndex (b_Header (cp_Block c))) ps z"
    by (rule descent_Cons_entry)
  let ?j = "BlockHeader_ParentIndex (b_Header (cp_Block c))"
  note d = store_ledgersD [OF led c(3,4) refl]
  have "ci_Height (Block_Index H (cp_Block c)) \<noteq> 0" using named c(2,3) by (simp add: entries_named_def)
  then have "bh_Height (b_Header (cp_Block c)) \<noteq> 0" by (simp add: Block_Index_def BlockHeader_Index_def)
  from RevertBlock_refines [OF d(1,2) this d(5)] obtain ru where
    ru: "RevertBlock H (cp_State p) (cp_Block c) = Some ru" "ru_State ru = cp_State p"
      "\<And>e. element_in H (led a) e \<Longrightarrow> unat (se_LeafIndex e) < length (led ?j) \<Longrightarrow>
        ElementRevertUpdate_UpdateElementProof H (ru_Element ru) e =
          Some (e\<lparr>se_MerkleProof := valid_proof H (led ?j) (unat (se_LeafIndex e))\<rparr>)"
    by (auto simp: d(3) [symmetric])
  have n: "acc_NumLeaves (cs_Elements (ru_State ru)) \<le> se_LeafIndex e \<longleftrightarrow> length (led ?j) \<le> ?n"
    using d(1) by (simp add: ru(2) state_repr_def acc_repr_def represents_def word_le_nat_alt)
  have le: "length (led z) \<le> length (led ?j)" by (rule ledger_grows [OF led z c(5)])
  show ?case
  proof (cases "length (led ?j) \<le> ?n")
    case True
    then show ?thesis
      using le n ru(1) by (simp add: block_and_parent_ok [OF c(3,4)] c(1))
  next
    case False
    let ?e = "e\<lparr>se_MerkleProof := valid_proof H (led ?j) ?n\<rparr>"
    have "element_in H (led ?j) ?e" using False by (simp add: element_in_def)
    moreover have "revert_proof H S s e (i # ps) = revert_proof H S s ?e ps"
      using False n ru(1) ru(3) [OF Cons.prems(2)] by (simp add: block_and_parent_ok [OF c(3,4)] c(1))
    ultimately show ?thesis using Cons.IH [OF c(5), of ?e] by (simp split: if_splits)
  qed
qed

lemma apply_proof_append:
  "apply_proof H S s e (is @ js) =
    (case apply_proof H S s e is of
       None \<Rightarrow> None
     | Some (Some fault, e') \<Rightarrow> Some (Some fault, e')
     | Some (None, e') \<Rightarrow> apply_proof H S s e' js)"
  by (induction "is" arbitrary: e) (auto split: sum.splits Option.bind_splits option.splits)

lemma apply_proof_descent:
  assumes led: "store_ledgers H verify (entries s) led hst" and z: "entries s z \<noteq> None"
    and e: "element_in H (led z) e"
  shows "descent (entries s) b ps z \<Longrightarrow>
    apply_proof H S s e (rev ps) = Some (None, e\<lparr>se_MerkleProof := valid_proof H (led b) (unat (se_LeafIndex e))\<rparr>)"
proof (induction ps arbitrary: b)
  case Nil
  then show ?case using e by (simp add: element_in_def)
next
  case (Cons i ps)
  let ?n = "unat (se_LeafIndex e)"
  from Cons.prems(1) z obtain c p where c: "i = b" "entries s b = Some c"
      "entries s (BlockHeader_ParentIndex (b_Header (cp_Block c))) = Some p"
      "descent (entries s) (BlockHeader_ParentIndex (b_Header (cp_Block c))) ps z"
    by (rule descent_Cons_entry)
  let ?j = "BlockHeader_ParentIndex (b_Header (cp_Block c))"
  note d = store_ledgersD [OF led c(2,3) refl]
  from ApplyBlock_refines [OF d(1,2,5,6)] obtain au where
    au: "ApplyBlock H (cp_State p) (cp_Block c) = Some au"
      "\<And>e. element_in H (led ?j) e \<Longrightarrow> ElementApplyUpdate_UpdateElementProof H (au_Element au) e =
          Some (e\<lparr>se_MerkleProof := valid_proof H (led b) (unat (se_LeafIndex e))\<rparr>)"
    by (auto simp: d(3) [symmetric])
  have "element_in H (led ?j) (e\<lparr>se_MerkleProof := valid_proof H (led ?j) ?n\<rparr>)"
    using e ledger_grows [OF led z c(4)] by (simp add: element_in_def)
  from au(2) [OF this] show ?case
    using au(1) by (simp add: apply_proof_append Cons.IH [OF c(4)] block_and_parent_ok [OF c(2,3)] c(1))
qed

lemma UpdateElementProof_descent:
  assumes led: "store_ledgers H verify (entries (m_store m)) led hst" and named: "entries_named H (entries (m_store m))"
    and z: "entries (m_store m) z \<noteq> None"
    and a: "descent (entries (m_store m)) a ps z" and b: "descent (entries (m_store m)) b qs z"
    and e: "element_in H (led a) e"
  shows "\<exists>reverts applies c ts. reorgPath S (m_store m) a b = Some (Inr (reverts, applies))
    \<and> descent (entries (m_store m)) a reverts c \<and> descent (entries (m_store m)) b (rev applies) c
    \<and> descent (entries (m_store m)) c ts z
    \<and> (if unat (se_LeafIndex e) < length (led c)
       then Manager_UpdateElementProof H S m e a b
          = Some (None, e\<lparr>se_MerkleProof := valid_proof H (led b) (unat (se_LeafIndex e))\<rparr>)
       else \<exists>e'. Manager_UpdateElementProof H S m e a b = Some (Some ErrNoElement, e'))"
proof -
  let ?E = "entries (m_store m)" and ?n = "unat (se_LeafIndex e)"
  from reorgPath_descent [OF named a b] obtain rs as c ts where
    path: "reorgPath S (m_store m) a b = Some (Inr (rs, as))" "descent ?E a rs c" "descent ?E b (rev as) c" "descent ?E c ts z"
    by blast
  have c: "?E c \<noteq> None" using path(4) z by (cases ts) (auto simp: entry_parent_def)
  note rp = revert_proof_descent [OF led named c path(2) e]
  show ?thesis
  proof (cases "?n < length (led c)")
    case True
    let ?e = "e\<lparr>se_MerkleProof := valid_proof H (led c) ?n\<rparr>"
    have "element_in H (led c) ?e" using True by (simp add: element_in_def)
    from apply_proof_descent [OF led c this path(3)]
    have "apply_proof H S (m_store m) ?e as = Some (None, e\<lparr>se_MerkleProof := valid_proof H (led b) ?n\<rparr>)" by simp
    then show ?thesis using path rp True
      by (intro exI [of _ rs] exI [of _ as] exI [of _ c] exI [of _ ts]) (simp add: Manager_UpdateElementProof_def)
  next
    case False
    then show ?thesis using path rp
      by (intro exI [of _ rs] exI [of _ as] exI [of _ c] exI [of _ ts]) (auto simp: Manager_UpdateElementProof_def)
  qed
qed

end

section \<open>A concrete store\<close>

text \<open>The base checkpoint and the sample block on it.\<close>

definition sample_base :: checkpoint where
  "sample_base =
     \<lparr>cp_Block = \<lparr>b_Header = \<lparr>bh_Height = 0, bh_ParentID = 0, bh_Nonce = 0, bh_Timestamp = 0,
                             bh_MinerAddress = VoidAddress, bh_Commitment = 0\<rparr>, b_Transactions = []\<rparr>,
      cp_State = sample_state\<rparr>"

definition sample_tip :: checkpoint where
  "sample_tip =
     \<lparr>cp_Block = sample_block, cp_State = au_State (the (ApplyBlock sample_hash sample_state sample_block))\<rparr>"

abbreviation sample_index :: chain_index where
  "sample_index \<equiv> Block_Index sample_hash sample_block"

definition sample_store :: ephemeral_store where
  "sample_store = \<lparr>es_entries = [zero_index \<mapsto> sample_base, sample_index \<mapsto> sample_tip], es_best = [zero_index, sample_index]\<rparr>"

definition sample_manager :: "(ephemeral_store, pool) manager" where
  "sample_manager = \<lparr>m_store = sample_store, m_cs = cp_State sample_tip, m_chains = [], m_subscribers = [], m_lastFlush = 0\<rparr>"

lemma sample_index_height: "ci_Height sample_index = 1" "sample_index \<noteq> zero_index"
  by (auto simp: Block_Index_def BlockHeader_Index_def sample_block_def zero_index_def)

lemma sample_parents:
  "BlockHeader_ParentIndex (b_Header (cp_Block sample_tip)) = zero_index"
  "BlockHeader_ParentIndex (b_Header (cp_Block sample_base)) = \<lparr>ci_Height = - 1, ci_ID = 0\<rparr>"
  by (simp_all add: BlockHeader_ParentIndex_def sample_tip_def sample_block_def sample_base_def zero_index_def)

lemma sample_entries:
  "es_entries sample_store zero_index = Some sample_base" "es_entries sample_store sample_index = Some sample_tip"
  "i \<noteq> zero_index \<Longrightarrow> i \<noteq> sample_index \<Longrightarrow> es_entries sample_store i = None"
  using sample_index_height(2) by (simp_all add: sample_store_def)

lemma sample_descent: "descent (es_entries sample_store) sample_index [sample_index] zero_index"
  using sample_index_height by (simp add: entry_parent_def sample_entries sample_parents)

lemma sample_named: "entries_named sample_hash (es_entries sample_store)"
  unfolding entries_named_def
proof (intro allI impI)
  fix i c
  assume "es_entries sample_store i = Some c" "ci_Height i \<noteq> 0"
  then have "i = sample_index" "c = sample_tip"
    using sample_entries sample_index_height by (auto simp: sample_store_def zero_index_def split: if_splits)
  then show "Block_Index sample_hash (cp_Block c) = i" by (simp add: sample_tip_def)
qed

definition sample_led :: "chain_index \<Rightarrow> ledger" where
  "sample_led i = (if i = sample_index then ledger_apply sample_hash sample_state sample_block sample_ledger else sample_ledger)"

lemma sample_store_ledgers: "store_ledgers sample_hash sample_verify (es_entries sample_store) sample_led (\<lambda>_. [])"
  unfolding store_ledgers_def
proof (intro allI impI)
  fix i c p
  assume c: "es_entries sample_store i = Some c" "es_entries sample_store (BlockHeader_ParentIndex (b_Header (cp_Block c))) = Some p"
  have ne: "\<lparr>ci_Height = - 1, ci_ID = 0\<rparr> \<noteq> zero_index" "\<lparr>ci_Height = - 1, ci_ID = 0\<rparr> \<noteq> sample_index"
    by (auto simp: zero_index_def Block_Index_def BlockHeader_Index_def sample_block_def)
  have "i \<noteq> zero_index"
  proof
    assume "i = zero_index"
    then have "c = sample_base" using c(1) by (simp add: sample_entries)
    then show False using c(2) sample_entries(3) [OF ne] by (simp add: sample_parents)
  qed
  then have i: "i = sample_index" "c = sample_tip" using c(1) sample_entries by (metis option.distinct(1), metis option.inject option.distinct(1))
  then have p: "p = sample_base" using c(2) by (simp add: sample_parents sample_entries)
  show "let j = BlockHeader_ParentIndex (b_Header (cp_Block c)) in
      ValidateBlock sample_hash sample_verify (cp_State p) (cp_Block c) = Some (Inr ())
      \<and> state_repr sample_hash (sample_led j) [] (cp_State p)
      \<and> sample_led i = ledger_apply sample_hash (cp_State p) (cp_Block c) (sample_led j)
      \<and> inj_on sample_hash (set (block_preimages sample_hash (sample_led j) (cp_Block c)))
      \<and> length (sample_led j) + length (new_elements sample_hash (cp_State p) (cp_Block c)) < 2 ^ 62
      \<and> length ([] :: chain_index list) < 2 ^ 62"
    using sample_block_valid sample_state_represents sample_block_inj sample_sizes sample_index_height(2)
    unfolding i p Let_def sample_parents
    by (simp add: sample_led_def) (simp add: sample_base_def sample_tip_def)
qed

section \<open>Properties\<close>

text \<open>C9. On a store that files every block under its own index, the path between two indices with a common
  ancestor is always found, in finitely many steps: the reverted indices lead from the first index down to a
  common ancestor, the applied ones lead from there up to the second, and nothing is reverted that is applied
  again.\<close>

theorem reorgPath_connects:
  assumes "entries_named H (es_entries s)" "descent (es_entries s) a ps z" "descent (es_entries s) b qs z"
  shows "\<exists>reverts applies c ts. reorgPath EphemeralStore s a b = Some (Inr (reverts, applies))
    \<and> descent (es_entries s) a reverts c \<and> descent (es_entries s) b (rev applies) c \<and> descent (es_entries s) c ts z
    \<and> set reverts \<inter> set applies = {}"
  by (rule ephemeral.reorgPath_descent [OF assms])

theorem reorgPath_connects_witness:
  "\<exists>reverts applies. reorgPath EphemeralStore sample_store sample_index zero_index = Some (Inr (reverts, applies))"
proof -
  have "descent (es_entries sample_store) zero_index [] zero_index" by simp
  from reorgPath_connects [OF sample_named sample_descent this] show ?thesis by blast
qed

text \<open>C7. \<open>UpdateElementProof\<close> moves an element between any two stored blocks with a common ancestor: if the
  stored blocks are valid on their parents, an element with its valid proof at the first index gets its valid proof
  at the second, however many blocks are reverted and applied in between; exactly the elements that did not exist
  yet at the last common block of the path are refused.\<close>

theorem element_proof_moves:
  assumes "store_ledgers H verify (es_entries (m_store m)) led hst" "entries_named H (es_entries (m_store m))"
    "es_entries (m_store m) z \<noteq> None"
    "descent (es_entries (m_store m)) a ps z" "descent (es_entries (m_store m)) b qs z" "element_in H (led a) e"
  shows "\<exists>reverts applies c ts. reorgPath EphemeralStore (m_store m) a b = Some (Inr (reverts, applies))
    \<and> descent (es_entries (m_store m)) a reverts c \<and> descent (es_entries (m_store m)) b (rev applies) c
    \<and> descent (es_entries (m_store m)) c ts z
    \<and> (if unat (se_LeafIndex e) < length (led c)
       then Manager_UpdateElementProof H EphemeralStore m e a b
          = Some (None, e\<lparr>se_MerkleProof := valid_proof H (led b) (unat (se_LeafIndex e))\<rparr>)
       else \<exists>e'. Manager_UpdateElementProof H EphemeralStore m e a b = Some (Some ErrNoElement, e'))"
  by (rule ephemeral.UpdateElementProof_descent [OF assms])

theorem element_proof_moves_witness:
  "Manager_UpdateElementProof sample_hash EphemeralStore sample_manager (oe_SE sample_element) zero_index sample_index
    = Some (None, (oe_SE sample_element)
        \<lparr>se_MerkleProof := valid_proof sample_hash (sample_led sample_index) (unat (se_LeafIndex (oe_SE sample_element)))\<rparr>)"
proof -
  let ?E = "es_entries (m_store sample_manager)"
  have m: "m_store sample_manager = sample_store" by (simp add: sample_manager_def)
  have z: "?E zero_index \<noteq> None" by (simp add: m sample_entries)
  have d: "descent ?E zero_index [] zero_index" by simp
  have e: "element_in sample_hash (sample_led zero_index) (oe_SE sample_element)"
    using sample_element_in sample_index_height(2) by (simp add: sample_led_def leaf_in_def element_in_def OutputLeaf_def)
  have led: "store_ledgers sample_hash sample_verify ?E sample_led (\<lambda>_. [])" and named: "entries_named sample_hash ?E"
    and up: "descent ?E sample_index [sample_index] zero_index"
    using sample_store_ledgers sample_named sample_descent by (simp_all only: m)
  have last: "c = zero_index" if "descent ?E c ts zero_index" "descent ?E zero_index rs c" for c ts rs
    using that(2) by (cases rs) (auto simp: zero_index_def)
  have n: "unat (se_LeafIndex (oe_SE sample_element)) < length (sample_led zero_index)"
    using e by (simp add: element_in_def)
  from element_proof_moves [OF led named z d up e] last n show ?thesis by (metis (no_types, lifting))
qed

end
