(* ===== verification/Miner.thy ===== *)
theory Miner
  imports Txpool
begin

text \<open>
  miner/miner.go: the choice of transactions for a block, the block template and the CPU grinder. Go ranges over
  the map of pooled transactions in an unspecified order; the model takes this order as an argument. The nonce
  grinder is an interface and so a parameter; the CPU grinder of the file is one instance.
\<close>

section \<open>Transactions for a block\<close>

text \<open>
  The recursive closure \<open>addDeps\<close>, with the captured \<open>added\<close> and \<open>deps\<close> as state. Its recursion follows
  parents that are not yet in \<open>added\<close>; \<open>fuel\<close> bounds its depth and \<open>None\<close> means that the bound was hit, which
  \<open>addDeps_total\<close> excludes for the bound that \<open>calcDeps\<close> gives.
\<close>

fun addDeps ::
    "hashfn \<Rightarrow> nat \<Rightarrow> (transaction_id \<times> transaction) list \<Rightarrow> transaction
     \<Rightarrow> transaction_id list \<times> transaction list \<Rightarrow> (transaction_id list \<times> transaction list) option"
  and addDeps_inputs ::
    "hashfn \<Rightarrow> nat \<Rightarrow> (transaction_id \<times> transaction) list \<Rightarrow> txn_input list
     \<Rightarrow> transaction_id list \<times> transaction list \<Rightarrow> (transaction_id list \<times> transaction list) option" where
  "addDeps H 0 poolTxns txn st = None"
| "addDeps H (Suc fuel) poolTxns txn (added, deps) =
     addDeps_inputs H fuel poolTxns (tx_Inputs txn) (Transaction_ID H txn # added, deps)"
| "addDeps_inputs H fuel poolTxns [] st = Some st"
| "addDeps_inputs H fuel poolTxns (inp # is) (added, deps) =
     (let parentID = ei_Source (se_ID (oe_SE (in_Parent inp))) in
      case map_of poolTxns parentID of
        None \<Rightarrow> addDeps_inputs H fuel poolTxns is (added, deps)
      | Some parent \<Rightarrow>
          if parentID \<in> set added then addDeps_inputs H fuel poolTxns is (added, deps)
          else do {
            (added', deps') \<leftarrow> addDeps H fuel poolTxns parent (added, deps);
            addDeps_inputs H fuel poolTxns is (added', deps' @ [parent])
          })"

definition calcDeps :: "hashfn \<Rightarrow> (transaction_id \<times> transaction) list \<Rightarrow> transaction \<Rightarrow> transaction list option" where
  "calcDeps H poolTxns txn = map_option snd (addDeps H (Suc (length poolTxns)) poolTxns txn ([], []))"

fun txnsForBlock_loop ::
    "hashfn \<Rightarrow> chain_state \<Rightarrow> transaction_id list \<Rightarrow> (transaction_id \<times> transaction) list
     \<Rightarrow> transaction list \<Rightarrow> u64 \<Rightarrow> transaction list option" where
  "txnsForBlock_loop H s [] poolTxns blockTxns capacity = Some blockTxns"
| "txnsForBlock_loop H s (txid # order) poolTxns blockTxns capacity =
     (case map_of poolTxns txid of
        None \<Rightarrow> txnsForBlock_loop H s order poolTxns blockTxns capacity
      | Some txn \<Rightarrow> do {
          deps \<leftarrow> calcDeps H poolTxns txn;
          let group = deps @ [txn];
          let groupWeight = BlockWeight s group;
          (if groupWeight > capacity then txnsForBlock_loop H s order poolTxns blockTxns capacity
           else txnsForBlock_loop H s order
                  (fold (\<lambda>txn m. AList.delete (Transaction_ID H txn) m) group poolTxns)
                  (blockTxns @ group) (capacity - groupWeight))
        })"

definition txnsForBlock :: "hashfn \<Rightarrow> chain_state \<Rightarrow> pool \<Rightarrow> transaction_id list \<Rightarrow> transaction list option" where
  "txnsForBlock H s p order =
     txnsForBlock_loop H s order
       (fold (\<lambda>txn m. AList.update (Transaction_ID H txn) txn m) (Pool_Transactions p) [])
       [] (MaxBlockWeight s)"

section \<open>Mining\<close>

partial_function (option) GrindNonce :: "hashfn \<Rightarrow> block_header \<Rightarrow> block_id \<Rightarrow> block_header option" where
  [code]: "GrindNonce H h target =
     (if BlockID_MeetsTarget (BlockHeader_ID H h) target then Some h
      else GrindNonce H (h\<lparr>bh_Nonce := bh_Nonce h + 1\<rparr>) target)"

record miner =
  mn_addr :: address
  mn_cs :: chain_state
  mn_mined :: nat

definition Miner_New :: "chain_state \<Rightarrow> address \<Rightarrow> miner" where
  "Miner_New s addr = \<lparr>mn_addr = addr, mn_cs = s, mn_mined = 0\<rparr>"

text \<open>
  One round of \<open>MineBlock\<close>: the template from the state, the pool and the clock, and the ground block. Whether
  the tip has changed while it was ground depends on the state \<open>after\<close>, that other threads may have set.
\<close>

definition MineBlock_template ::
    "hashfn \<Rightarrow> miner \<Rightarrow> transaction list \<Rightarrow> gotime \<Rightarrow> block" where
  "MineBlock_template H m txns now =
     \<lparr>b_Header = \<lparr>bh_Height = ci_Height (cs_Index (mn_cs m)) + 1, bh_ParentID = ci_ID (cs_Index (mn_cs m)), bh_Nonce = 0,
                  bh_Timestamp = now, bh_MinerAddress = mn_addr m,
                  bh_Commitment = Commitment H (mn_cs m) (mn_addr m) txns\<rparr>,
      b_Transactions = txns\<rparr>"

definition MineBlock_round ::
    "hashfn \<Rightarrow> (block_header \<Rightarrow> block_id \<Rightarrow> block_header option) \<Rightarrow> miner \<Rightarrow> pool \<Rightarrow> transaction_id list \<Rightarrow> gotime
     \<Rightarrow> chain_state \<Rightarrow> (miner \<times> block option) option" where
  "MineBlock_round H grind m p order now after = do {
     target \<leftarrow> HashRequiringWork (cs_Difficulty (mn_cs m));
     txns \<leftarrow> txnsForBlock H (mn_cs m) p order;
     let b = MineBlock_template H m txns now;
     h \<leftarrow> grind (b_Header b) target;
     let b = b\<lparr>b_Header := h\<rparr>;
     Some (m\<lparr>mn_cs := after, mn_mined := mn_mined m + 1\<rparr>,
           if cs_Index after = cs_Index (mn_cs m) then Some b else None)
   }"

definition Miner_ProcessChainApplyUpdate :: "miner \<Rightarrow> chain_apply_update \<Rightarrow> miner" where
  "Miner_ProcessChainApplyUpdate m cau = m\<lparr>mn_cs := au_State (cau_Update cau)\<rparr>"

definition Miner_ProcessChainRevertUpdate :: "miner \<Rightarrow> chain_revert_update \<Rightarrow> miner" where
  "Miner_ProcessChainRevertUpdate m cru = m\<lparr>mn_cs := ru_State (cru_Update cru)\<rparr>"

section \<open>Dependencies\<close>

text \<open>The pooled IDs that \<open>addDeps\<close> has not visited.\<close>

definition unvisited :: "(transaction_id \<times> transaction) list \<Rightarrow> transaction_id list \<Rightarrow> nat" where
  "unvisited poolTxns added = card (fst ` set poolTxns - set added)"

definition keyed :: "hashfn \<Rightarrow> (transaction_id \<times> transaction) list \<Rightarrow> bool" where
  "keyed H poolTxns \<longleftrightarrow> (\<forall>(txid, txn)\<in>set poolTxns. txid = Transaction_ID H txn)"

lemma unvisited_mono: "set added \<subseteq> set added' \<Longrightarrow> unvisited poolTxns added' \<le> unvisited poolTxns added"
  unfolding unvisited_def by (intro card_mono) auto

lemma unvisited_less:
  "txid \<in> fst ` set poolTxns \<Longrightarrow> txid \<notin> set added \<Longrightarrow> unvisited poolTxns (txid # added) < unvisited poolTxns added"
  unfolding unvisited_def by (intro psubset_card_mono) auto

text \<open>
  With enough fuel, \<open>addDeps\<close> ends; every dependency it lists is pooled, was not visited before and is visited
  then, and none is listed twice.
\<close>

definition deps_grow ::
    "hashfn \<Rightarrow> (transaction_id \<times> transaction) list \<Rightarrow> transaction_id list \<times> transaction list
     \<Rightarrow> transaction_id list \<times> transaction list \<Rightarrow> bool" where
  "deps_grow H poolTxns st st' \<longleftrightarrow>
     set (fst st) \<subseteq> set (fst st')
     \<and> (\<exists>new. snd st' = snd st @ new \<and> distinct (map (Transaction_ID H) new)
          \<and> (\<forall>t\<in>set new. (Transaction_ID H t, t) \<in> set poolTxns \<and> Transaction_ID H t \<notin> set (fst st)
               \<and> Transaction_ID H t \<in> set (fst st')))"

lemma deps_grow_refl: "deps_grow H poolTxns st st"
  by (simp add: deps_grow_def)

lemma deps_grow_visit: "deps_grow H poolTxns (txid # added, deps) st \<Longrightarrow> deps_grow H poolTxns (added, deps) st \<and> txid \<in> set (fst st)"
  by (fastforce simp: deps_grow_def)

lemma deps_grow_trans:
  assumes "deps_grow H poolTxns a b" "deps_grow H poolTxns b c"
  shows "deps_grow H poolTxns a c"
proof -
  obtain x y where x: "snd b = snd a @ x" "distinct (map (Transaction_ID H) x)"
      "\<forall>t\<in>set x. (Transaction_ID H t, t) \<in> set poolTxns \<and> Transaction_ID H t \<notin> set (fst a) \<and> Transaction_ID H t \<in> set (fst b)"
    and y: "snd c = snd b @ y" "distinct (map (Transaction_ID H) y)"
      "\<forall>t\<in>set y. (Transaction_ID H t, t) \<in> set poolTxns \<and> Transaction_ID H t \<notin> set (fst b) \<and> Transaction_ID H t \<in> set (fst c)"
    and s: "set (fst a) \<subseteq> set (fst b)" "set (fst b) \<subseteq> set (fst c)"
    using assms unfolding deps_grow_def by blast
  have "distinct (map (Transaction_ID H) (x @ y))" using x(2,3) y(2,3) by auto
  moreover have "\<forall>t\<in>set (x @ y). (Transaction_ID H t, t) \<in> set poolTxns \<and> Transaction_ID H t \<notin> set (fst a) \<and> Transaction_ID H t \<in> set (fst c)"
    using x(3) y(3) s by auto
  ultimately show ?thesis using x(1) y(1) s unfolding deps_grow_def by auto
qed

text \<open>The dependency listed after its own dependencies.\<close>

lemma deps_grow_snoc:
  assumes g: "deps_grow H poolTxns (Transaction_ID H t # added, deps) (added', deps')"
    and t: "(Transaction_ID H t, t) \<in> set poolTxns" "Transaction_ID H t \<notin> set added"
  shows "deps_grow H poolTxns (added, deps) (added', deps' @ [t])"
proof -
  obtain new where n: "deps' = deps @ new" "distinct (map (Transaction_ID H) new)" "set (Transaction_ID H t # added) \<subseteq> set added'"
    "\<forall>u\<in>set new. (Transaction_ID H u, u) \<in> set poolTxns \<and> Transaction_ID H u \<notin> set (Transaction_ID H t # added) \<and> Transaction_ID H u \<in> set added'"
    using g unfolding deps_grow_def by auto
  then have "distinct (map (Transaction_ID H) (new @ [t]))" by auto
  moreover have "\<forall>u\<in>set (new @ [t]). (Transaction_ID H u, u) \<in> set poolTxns \<and> Transaction_ID H u \<notin> set added \<and> Transaction_ID H u \<in> set added'"
    using n(3,4) t by auto
  ultimately show ?thesis using n(1,3) unfolding deps_grow_def by auto
qed

lemma addDeps_total:
  "keyed H poolTxns \<Longrightarrow> unvisited poolTxns (Transaction_ID H txn # fst st) < fuel \<Longrightarrow>
     \<exists>st'. addDeps H fuel poolTxns txn st = Some st'
       \<and> deps_grow H poolTxns (Transaction_ID H txn # fst st, snd st) st'"
  "keyed H poolTxns \<Longrightarrow> unvisited poolTxns (fst st) \<le> fuel \<Longrightarrow>
     \<exists>st'. addDeps_inputs H fuel poolTxns is st = Some st' \<and> deps_grow H poolTxns st st'"
proof (induction H fuel poolTxns txn st and H fuel poolTxns "is" st rule: addDeps_addDeps_inputs.induct)
  case (2 H fuel poolTxns txn added deps)
  then show ?case by simp
next
  case (4 H fuel poolTxns inp is' added deps)
  let ?pid = "ei_Source (se_ID (oe_SE (in_Parent inp)))"
  show ?case
  proof (cases "map_of poolTxns ?pid")
    case None
    then show ?thesis using 4 by simp
  next
    case (Some parent)
    then have k: "(?pid, parent) \<in> set poolTxns" by (rule map_of_SomeD)
    then have id: "?pid = Transaction_ID H parent" using 4(5) by (auto simp: keyed_def)
    show ?thesis
    proof (cases "?pid \<in> set added")
      case True
      then show ?thesis using 4 Some by simp
    next
      case False
      have "?pid \<in> fst ` set poolTxns" using k by force
      then have u: "unvisited poolTxns (?pid # added) < fuel"
        using unvisited_less [of ?pid poolTxns added] False 4(6) by simp
      obtain added' deps' where st': "addDeps H fuel poolTxns parent (added, deps) = Some (added', deps')"
        "deps_grow H poolTxns (?pid # added, deps) (added', deps')"
        using 4(3) [OF refl Some False 4(5)] u id by auto
      have g: "deps_grow H poolTxns (added, deps) (added', deps' @ [parent])"
        using st'(2) k False unfolding id by (intro deps_grow_snoc)
      have "set added \<subseteq> set added'" using g by (simp add: deps_grow_def)
      then have "unvisited poolTxns added' \<le> fuel" using unvisited_mono [of added added' poolTxns] 4(6) by simp
      then obtain st'' where "addDeps_inputs H fuel poolTxns is' (added', deps' @ [parent]) = Some st''"
        "deps_grow H poolTxns (added', deps' @ [parent]) st''"
        using 4(4) [OF refl Some False st'(1) refl 4(5)] by auto
      then show ?thesis using Some False st'(1) deps_grow_trans [OF g] by auto
    qed
  qed
qed (auto simp: deps_grow_refl)

section \<open>Parents before children\<close>

abbreviation parent_txid :: "txn_input \<Rightarrow> transaction_id" where
  "parent_txid inp \<equiv> ei_Source (se_ID (oe_SE (in_Parent inp)))"

text \<open>
  Transactions do not spend each other's outputs in a cycle (an ID is the hash of the parents' IDs): some \<open>rank\<close>
  decreases from every pooled transaction to its pooled parents.
\<close>

definition ranked :: "(transaction_id \<times> transaction) list \<Rightarrow> (transaction_id \<Rightarrow> nat) \<Rightarrow> bool" where
  "ranked poolTxns rank \<longleftrightarrow> (\<forall>e\<in>set poolTxns. \<forall>inp\<in>set (tx_Inputs (snd e)).
     parent_txid inp \<in> fst ` set poolTxns \<longrightarrow> rank (parent_txid inp) < rank (fst e))"

definition parents_first :: "hashfn \<Rightarrow> transaction_id set \<Rightarrow> transaction list \<Rightarrow> bool" where
  "parents_first H pooled txns \<longleftrightarrow> (\<forall>i<length txns. \<forall>inp\<in>set (tx_Inputs (txns ! i)).
     parent_txid inp \<in> pooled \<longrightarrow> (\<exists>j<i. Transaction_ID H (txns ! j) = parent_txid inp))"

lemma parents_first_Nil [simp]: "parents_first H pooled []"
  by (simp add: parents_first_def)

lemma ID_image: "x \<in> Transaction_ID H ` set xs \<longleftrightarrow> (\<exists>j<length xs. Transaction_ID H (xs ! j) = x)"
  by (metis (no_types, lifting) in_set_conv_nth length_map nth_map set_map)

lemma parents_first_append:
  "parents_first H pooled (xs @ ys) \<longleftrightarrow> parents_first H pooled xs
     \<and> parents_first H (pooled - Transaction_ID H ` set xs) ys"
proof
  assume l: "parents_first H pooled (xs @ ys)"
  have "parents_first H pooled xs"
    unfolding parents_first_def
  proof (intro allI ballI impI)
    fix i inp assume "i < length xs" "inp \<in> set (tx_Inputs (xs ! i))" "parent_txid inp \<in> pooled"
    then have "\<exists>j<i. Transaction_ID H ((xs @ ys) ! j) = parent_txid inp"
      using l [unfolded parents_first_def, rule_format, of i inp] by (simp add: nth_append)
    then show "\<exists>j<i. Transaction_ID H (xs ! j) = parent_txid inp" using \<open>i < length xs\<close> by (auto simp: nth_append)
  qed
  moreover have "parents_first H (pooled - Transaction_ID H ` set xs) ys"
    unfolding parents_first_def
  proof (intro allI ballI impI)
    fix i inp assume i: "i < length ys" "inp \<in> set (tx_Inputs (ys ! i))" "parent_txid inp \<in> pooled - Transaction_ID H ` set xs"
    then obtain j where j: "j < length xs + i" "Transaction_ID H ((xs @ ys) ! j) = parent_txid inp"
      using l [unfolded parents_first_def, rule_format, of "length xs + i" inp] by (auto simp: nth_append)
    moreover have "parent_txid inp \<notin> Transaction_ID H ` set xs" using i(3) by simp
    ultimately have "\<not> j < length xs" unfolding ID_image by (auto simp: nth_append)
    then show "\<exists>j<i. Transaction_ID H (ys ! j) = parent_txid inp"
      using j by (intro exI [of _ "j - length xs"]) (auto simp: nth_append)
  qed
  ultimately show "parents_first H pooled xs \<and> parents_first H (pooled - Transaction_ID H ` set xs) ys" ..
next
  assume r: "parents_first H pooled xs \<and> parents_first H (pooled - Transaction_ID H ` set xs) ys"
  show "parents_first H pooled (xs @ ys)"
    unfolding parents_first_def
  proof (intro allI ballI impI)
    fix i inp assume i: "i < length (xs @ ys)" "inp \<in> set (tx_Inputs ((xs @ ys) ! i))" "parent_txid inp \<in> pooled"
    show "\<exists>j<i. Transaction_ID H ((xs @ ys) ! j) = parent_txid inp"
    proof (cases "i < length xs")
      case True
      then have "inp \<in> set (tx_Inputs (xs ! i))" using i(2) by (simp add: nth_append)
      then obtain j where "j < i" "Transaction_ID H (xs ! j) = parent_txid inp"
        using r i(3) True unfolding parents_first_def by blast
      then show ?thesis using True by (intro exI [of _ j]) (simp add: nth_append)
    next
      case False
      show ?thesis
      proof (cases "parent_txid inp \<in> Transaction_ID H ` set xs")
        case True
        then obtain j where "j < length xs" "Transaction_ID H (xs ! j) = parent_txid inp" unfolding ID_image by blast
        then show ?thesis using False by (intro exI [of _ j]) (simp add: nth_append)
      next
        case no: False
        have "i - length xs < length ys" "inp \<in> set (tx_Inputs (ys ! (i - length xs)))"
          using False i by (auto simp: nth_append)
        then obtain j where "j < i - length xs" "Transaction_ID H (ys ! j) = parent_txid inp"
          using r i(3) no unfolding parents_first_def by blast
        then show ?thesis by (intro exI [of _ "length xs + j"]) (auto simp: nth_append)
      qed
    qed
  qed
qed

lemma parents_first_snoc:
  "parents_first H pooled (xs @ [t]) \<longleftrightarrow> parents_first H pooled xs
     \<and> (\<forall>inp\<in>set (tx_Inputs t). parent_txid inp \<in> pooled \<longrightarrow> parent_txid inp \<in> Transaction_ID H ` set xs)"
  unfolding parents_first_append by (auto simp: parents_first_def)

text \<open>
  A visited transaction is listed already or is one whose visit has not ended; the rank of the latter is above
  that of what is visited now, so no dependency is skipped.
\<close>

definition open_above :: "hashfn \<Rightarrow> (transaction_id \<Rightarrow> nat) \<Rightarrow> nat \<Rightarrow> transaction_id list \<times> transaction list \<Rightarrow> bool" where
  "open_above H rank r st \<longleftrightarrow> (\<forall>a\<in>set (fst st). a \<in> Transaction_ID H ` set (snd st) \<or> r < rank a)"

lemma addDeps_order:
  "keyed H poolTxns \<Longrightarrow> ranked poolTxns rank \<Longrightarrow> (Transaction_ID H txn, txn) \<in> set poolTxns \<Longrightarrow>
     parents_first H (fst ` set poolTxns) (snd st) \<Longrightarrow> open_above H rank (rank (Transaction_ID H txn)) st \<Longrightarrow>
     addDeps H fuel poolTxns txn st = Some st' \<Longrightarrow>
     parents_first H (fst ` set poolTxns) (snd st' @ [txn])
     \<and> set (snd st) \<subseteq> set (snd st')
     \<and> set (fst st') \<subseteq> insert (Transaction_ID H txn) (set (fst st) \<union> Transaction_ID H ` set (snd st'))"
  "keyed H poolTxns \<Longrightarrow> ranked poolTxns rank \<Longrightarrow> \<forall>inp\<in>set is. parent_txid inp \<in> fst ` set poolTxns \<longrightarrow> rank (parent_txid inp) < r \<Longrightarrow>
     parents_first H (fst ` set poolTxns) (snd st) \<Longrightarrow> (\<forall>a\<in>set (fst st). a \<in> Transaction_ID H ` set (snd st) \<or> r \<le> rank a) \<Longrightarrow>
     addDeps_inputs H fuel poolTxns is st = Some st' \<Longrightarrow>
     parents_first H (fst ` set poolTxns) (snd st')
     \<and> set (snd st) \<subseteq> set (snd st')
     \<and> set (fst st') \<subseteq> set (fst st) \<union> Transaction_ID H ` set (snd st')
     \<and> (\<forall>inp\<in>set is. parent_txid inp \<in> fst ` set poolTxns \<longrightarrow> parent_txid inp \<in> Transaction_ID H ` set (snd st'))"
proof (induction H fuel poolTxns txn st and H fuel poolTxns "is" st arbitrary: st' and r st' rule: addDeps_addDeps_inputs.induct)
  case (2 H fuel poolTxns txn added deps)
  have "\<forall>inp\<in>set (tx_Inputs txn). parent_txid inp \<in> fst ` set poolTxns \<longrightarrow> rank (parent_txid inp) < rank (Transaction_ID H txn)"
    using 2(3,4) unfolding ranked_def by fastforce
  moreover have "\<forall>a\<in>set (Transaction_ID H txn # added). a \<in> Transaction_ID H ` set deps \<or> rank (Transaction_ID H txn) \<le> rank a"
    using 2(6) by (auto simp: open_above_def)
  ultimately have "parents_first H (fst ` set poolTxns) (snd st')
     \<and> set deps \<subseteq> set (snd st')
     \<and> set (fst st') \<subseteq> set (Transaction_ID H txn # added) \<union> Transaction_ID H ` set (snd st')
     \<and> (\<forall>inp\<in>set (tx_Inputs txn). parent_txid inp \<in> fst ` set poolTxns \<longrightarrow> parent_txid inp \<in> Transaction_ID H ` set (snd st'))"
    using 2(1) [of "rank (Transaction_ID H txn)" st'] 2(2,3,5,7) by simp
  then show ?case by (auto simp: parents_first_snoc)
next
  case (4 H fuel poolTxns inp is' added deps)
  let ?P = "fst ` set poolTxns" and ?pid = "parent_txid inp"
  show ?case
  proof (cases "map_of poolTxns ?pid")
    case None
    then have "?pid \<notin> ?P" by (simp add: map_of_eq_None_iff)
    then show ?thesis using 4(1) [OF refl None, of r st'] 4(5-10) None by simp
  next
    case (Some parent)
    then have k: "(?pid, parent) \<in> set poolTxns" by (rule map_of_SomeD)
    then have id: "?pid = Transaction_ID H parent" using 4(5) by (auto simp: keyed_def)
    have pP: "?pid \<in> ?P" using k by force
    then have rp: "rank ?pid < r" using 4(7) by simp
    show ?thesis
    proof (cases "?pid \<in> set added")
      case True
      then have "?pid \<in> Transaction_ID H ` set deps" using 4(9) rp by auto
      then show ?thesis using 4(2) [OF refl Some True, of r st'] 4(5-10) Some True by auto
    next
      case False
      obtain added' deps' where a: "addDeps H fuel poolTxns parent (added, deps) = Some (added', deps')"
        "addDeps_inputs H fuel poolTxns is' (added', deps' @ [parent]) = Some st'"
        using 4(10) Some False by (auto split: Option.bind_splits)
      have "open_above H rank (rank (Transaction_ID H parent)) (added, deps)"
        using 4(9) rp unfolding open_above_def id by auto
      then have b: "parents_first H ?P (deps' @ [parent])" "set deps \<subseteq> set deps'"
        "set added' \<subseteq> insert ?pid (set added \<union> Transaction_ID H ` set deps')"
        using 4(3) [OF refl Some False 4(5,6) _ _ _ a(1)] k 4(8) unfolding id by auto
      have "\<forall>x\<in>set added'. x \<in> Transaction_ID H ` set (deps' @ [parent]) \<or> r \<le> rank x"
      proof
        fix x assume "x \<in> set added'"
        then consider "x = ?pid" | "x \<in> set added" | "x \<in> Transaction_ID H ` set deps'" using b(3) by blast
        then show "x \<in> Transaction_ID H ` set (deps' @ [parent]) \<or> r \<le> rank x"
          using 4(9) b(2) id by cases auto
      qed
      then have c: "parents_first H ?P (snd st')" "set (deps' @ [parent]) \<subseteq> set (snd st')"
        "set (fst st') \<subseteq> set added' \<union> Transaction_ID H ` set (snd st')"
        "\<forall>inp\<in>set is'. parent_txid inp \<in> ?P \<longrightarrow> parent_txid inp \<in> Transaction_ID H ` set (snd st')"
        using 4(4) [OF refl Some False a(1) refl 4(5,6) _ _ _ a(2), of r] b(1) 4(7) by auto
      have "?pid \<in> Transaction_ID H ` set (snd st')" using c(2) id by auto
      moreover have "set (fst st') \<subseteq> set added \<union> Transaction_ID H ` set (snd st')"
      proof
        fix x assume "x \<in> set (fst st')"
        then consider "x = ?pid" | "x \<in> set added" | "x \<in> Transaction_ID H ` set deps'" | "x \<in> Transaction_ID H ` set (snd st')"
          using b(3) c(3) by blast
        then show "x \<in> set added \<union> Transaction_ID H ` set (snd st')"
          using c(2) \<open>?pid \<in> Transaction_ID H ` set (snd st')\<close> by cases auto
      qed
      ultimately show ?thesis using b(2) c by auto
    qed
  qed
qed auto

section \<open>The chosen transactions\<close>

lemma BlockWeight_loop_add: "BlockWeight_loop s txns w = w + BlockWeight_loop s txns 0"
proof (induction txns arbitrary: w)
  case (Cons t txns)
  have "BlockWeight_loop s (t # txns) w = (w + TransactionWeight s t) + BlockWeight_loop s txns 0"
    using Cons.IH [of "w + TransactionWeight s t"] by simp
  moreover have "BlockWeight_loop s (t # txns) 0 = TransactionWeight s t + BlockWeight_loop s txns 0"
    using Cons.IH [of "TransactionWeight s t"] by simp
  ultimately show ?case by simp
qed simp

lemma BlockWeight_append: "BlockWeight s (xs @ ys) = BlockWeight s xs + BlockWeight s ys"
proof -
  have "BlockWeight_loop s (xs @ ys) w = BlockWeight_loop s ys (BlockWeight_loop s xs w)" for w
    by (induction xs arbitrary: w) simp_all
  then have "BlockWeight s (xs @ ys) = BlockWeight_loop s ys (BlockWeight s xs)" by (simp only: BlockWeight_def)
  then show ?thesis unfolding BlockWeight_def [of s ys] by (simp only: BlockWeight_loop_add [of s ys "BlockWeight s xs"])
qed

lemma delete_confirmed_eq:
  "delete_confirmed H ts Q = filter (\<lambda>(k, _). k \<notin> Transaction_ID H ` set ts) Q"
  by (induction ts arbitrary: Q) (auto simp: delete_confirmed_def AList.delete_eq intro!: filter_cong)

lemma parents_first_mono: "parents_first H A xs \<Longrightarrow> B \<subseteq> A \<Longrightarrow> parents_first H B xs"
  unfolding parents_first_def by blast

text \<open>
  The state of the loop: \<open>Q\<close> is what is left of the pooled transactions \<open>P\<close>, the rest is in the block, and the
  weight of the block and the capacity left make up the limit.
\<close>

definition choice_inv ::
    "hashfn \<Rightarrow> chain_state \<Rightarrow> (transaction_id \<times> transaction) list \<Rightarrow> (transaction_id \<times> transaction) list
     \<Rightarrow> transaction list \<Rightarrow> u64 \<Rightarrow> bool" where
  "choice_inv H s P Q blockTxns capacity \<longleftrightarrow>
     set Q \<subseteq> set P \<and> distinct (map fst Q)
     \<and> fst ` set P \<subseteq> fst ` set Q \<union> Transaction_ID H ` set blockTxns
     \<and> fst ` set Q \<inter> Transaction_ID H ` set blockTxns = {}
     \<and> set blockTxns \<subseteq> snd ` set P \<and> distinct (map (Transaction_ID H) blockTxns)
     \<and> parents_first H (fst ` set P) blockTxns
     \<and> unat (BlockWeight s blockTxns) + unat capacity = unat (MaxBlockWeight s)"

lemma ranked_subset: "ranked P rank \<Longrightarrow> set Q \<subseteq> set P \<Longrightarrow> ranked Q rank"
proof -
  assume r: "ranked P rank" and s: "set Q \<subseteq> set P"
  have "rank (parent_txid inp) < rank (fst e)"
    if a: "e \<in> set Q" "inp \<in> set (tx_Inputs (snd e))" "parent_txid inp \<in> fst ` set Q" for e inp
  proof -
    have "parent_txid inp \<in> fst ` set P" "e \<in> set P" using a(1,3) s by auto
    then show ?thesis using r a(2) unfolding ranked_def by blast
  qed
  then show "ranked Q rank" unfolding ranked_def by blast
qed

lemma disjoint_sub: "B \<subseteq> C \<Longrightarrow> C \<inter> A = {} \<Longrightarrow> A \<inter> B = {}"
  by blast

lemma choice_inv_step:
  assumes k: "keyed H P" and r: "ranked P rank" and inv: "choice_inv H s P Q bt cap"
    and txn: "map_of Q txid = Some txn"
  shows "\<exists>deps. calcDeps H Q txn = Some deps
    \<and> (BlockWeight s (deps @ [txn]) \<le> cap \<longrightarrow>
        choice_inv H s P (delete_confirmed H (deps @ [txn]) Q) (bt @ deps @ [txn]) (cap - BlockWeight s (deps @ [txn])))"
proof -
  have QP: "set Q \<subseteq> set P" using inv by (simp add: choice_inv_def)
  have disj: "fst ` set Q \<inter> Transaction_ID H ` set bt = {}" and dist: "distinct (map (Transaction_ID H) bt)"
    using inv by (simp_all add: choice_inv_def)
  have kQ: "keyed H Q" using k QP unfolding keyed_def by blast
  have "fst ` set Q \<subseteq> fst ` set P" using QP by (rule image_mono)
  then have rQ: "ranked Q rank" using ranked_subset [OF r QP] by blast
  have "(txid, txn) \<in> set Q" using txn by (rule map_of_SomeD)
  then have tQ: "(Transaction_ID H txn, txn) \<in> set Q" using kQ by (auto simp: keyed_def)
  have "unvisited Q (Transaction_ID H txn # fst ([], [])) \<le> length Q"
  proof -
    have "unvisited Q (Transaction_ID H txn # fst ([], [])) \<le> card (set (map fst Q))"
      unfolding unvisited_def by (rule card_mono) auto
    also have "\<dots> \<le> length Q" using card_length [of "map fst Q"] by simp
    finally show ?thesis .
  qed
  then obtain added deps where d: "addDeps H (Suc (length Q)) Q txn ([], []) = Some (added, deps)"
    "deps_grow H Q ([Transaction_ID H txn], []) (added, deps)"
    using addDeps_total(1) [OF kQ, of txn "([], [])" "Suc (length Q)"] by auto
  then have new: "distinct (map (Transaction_ID H) deps)"
    "\<forall>t\<in>set deps. (Transaction_ID H t, t) \<in> set Q \<and> Transaction_ID H t \<noteq> Transaction_ID H txn"
    by (auto simp: deps_grow_def)
  have pf: "parents_first H (fst ` set Q) (deps @ [txn])"
    using addDeps_order(1) [OF kQ rQ tQ _ _ d(1)] by (simp add: open_above_def)
  let ?g = "deps @ [txn]" and ?IDs = "\<lambda>xs. Transaction_ID H ` set xs"
  have gQ: "\<forall>t\<in>set ?g. (Transaction_ID H t, t) \<in> set Q" using new(2) tQ by auto
  have gd: "distinct (map (Transaction_ID H) ?g)" using new by auto
  have gk: "?IDs ?g \<subseteq> fst ` set Q" using gQ by force
  have "choice_inv H s P (delete_confirmed H ?g Q) (bt @ ?g) (cap - BlockWeight s ?g)"
    if w: "BlockWeight s ?g \<le> cap"
  proof -
    have keys: "fst ` set (delete_confirmed H ?g Q) = fst ` set Q - ?IDs ?g"
      unfolding delete_confirmed_eq by force
    have "parents_first H (fst ` set P - ?IDs bt) ?g"
      using inv by (intro parents_first_mono [OF pf]) (auto simp: choice_inv_def)
    then have "parents_first H (fst ` set P) (bt @ ?g)"
      using inv unfolding parents_first_append by (simp add: choice_inv_def)
    moreover have "unat (BlockWeight s (bt @ ?g)) + unat (cap - BlockWeight s ?g) = unat (MaxBlockWeight s)"
    proof -
      have c: "unat (cap - BlockWeight s ?g) = unat cap - unat (BlockWeight s ?g)" "unat (BlockWeight s ?g) \<le> unat cap"
        using w by (simp_all add: unat_sub word_le_nat_alt)
      have m: "unat (BlockWeight s bt) + unat cap = unat (MaxBlockWeight s)" using inv by (simp add: choice_inv_def)
      then have "unat (BlockWeight s bt) + unat (BlockWeight s ?g) < 2 ^ 64"
        using c(2) unat64_lt [of "MaxBlockWeight s"] by linarith
      then have "unat (BlockWeight s (bt @ ?g)) = unat (BlockWeight s bt) + unat (BlockWeight s ?g)"
        unfolding BlockWeight_append [of s bt] unat_word_ariths by simp
      then show ?thesis using c m by linarith
    qed
    moreover have "distinct (map fst (delete_confirmed H ?g Q))"
      using inv by (simp add: choice_inv_def delete_confirmed_eq distinct_map_filter)
    moreover have "set (delete_confirmed H ?g Q) \<subseteq> set P"
      using QP delete_confirmed_subset by blast
    moreover have "distinct (map (Transaction_ID H) (bt @ ?g))"
    proof -
      have "set (map (Transaction_ID H) bt) \<inter> set (map (Transaction_ID H) ?g) = {}"
        unfolding set_map by (rule disjoint_sub [OF gk disj])
      with gd dist show ?thesis by (simp only: map_append [of _ bt] distinct_append simp_thms)
    qed
    moreover have "set (bt @ ?g) \<subseteq> snd ` set P"
    proof
      fix t assume "t \<in> set (bt @ ?g)"
      then consider "t \<in> set bt" | "t \<in> set ?g" by auto
      then show "t \<in> snd ` set P"
      proof cases
        case 1
        then show ?thesis using inv by (auto simp: choice_inv_def)
      next
        case 2
        then have "(Transaction_ID H t, t) \<in> set P" using gQ QP by blast
        then show ?thesis by (intro image_eqI [of _ _ "(Transaction_ID H t, t)"]) simp_all
      qed
    qed
    moreover have "fst ` set P \<subseteq> (fst ` set Q - ?IDs ?g) \<union> ?IDs (bt @ ?g)"
      using inv unfolding choice_inv_def by auto
    moreover have "(fst ` set Q - ?IDs ?g) \<inter> ?IDs (bt @ ?g) = {}"
      using inv unfolding choice_inv_def by auto
    ultimately show ?thesis unfolding choice_inv_def keys by blast
  qed
  then show ?thesis using d(1) by (simp add: calcDeps_def)
qed

lemma txnsForBlock_loop_inv:
  assumes "keyed H P" "ranked P rank" "choice_inv H s P Q bt cap"
  shows "\<exists>bt' Q' cap'. txnsForBlock_loop H s order Q bt cap = Some bt' \<and> choice_inv H s P Q' bt' cap'"
  using assms(3)
proof (induction order arbitrary: Q bt cap)
  case (Cons txid order)
  show ?case
  proof (cases "map_of Q txid")
    case (Some txn)
    obtain deps where d: "calcDeps H Q txn = Some deps"
      "BlockWeight s (deps @ [txn]) \<le> cap \<longrightarrow>
        choice_inv H s P (delete_confirmed H (deps @ [txn]) Q) (bt @ deps @ [txn]) (cap - BlockWeight s (deps @ [txn]))"
      using choice_inv_step [OF assms(1,2) Cons.prems Some] by blast
    show ?thesis
    proof (cases "BlockWeight s (deps @ [txn]) \<le> cap")
      case True
      then show ?thesis using Cons.IH d Some
        by (simp add: Let_def not_less [symmetric] delete_confirmed_def)
    next
      case False
      then show ?thesis using Cons.IH [OF Cons.prems] d(1) Some by (simp add: Let_def not_le)
    qed
  qed (use Cons in simp)
qed auto

text \<open>The map of the pooled transactions, rebuilt by their IDs.\<close>

lemma by_ID:
  fixes m :: "(transaction_id \<times> transaction) list"
  shows "keyed H m \<Longrightarrow> distinct (map fst m) \<Longrightarrow>
    keyed H (fold (\<lambda>txn m. AList.update (Transaction_ID H txn) txn m) txns m)
    \<and> distinct (map fst (fold (\<lambda>txn m. AList.update (Transaction_ID H txn) txn m) txns m))
    \<and> snd ` set (fold (\<lambda>txn m. AList.update (Transaction_ID H txn) txn m) txns m) \<subseteq> set txns \<union> snd ` set m
    \<and> fst ` set (fold (\<lambda>txn m. AList.update (Transaction_ID H txn) txn m) txns m) = Transaction_ID H ` set txns \<union> fst ` set m"
proof (induction txns arbitrary: m)
  case (Cons t txns)
  let ?m = "AList.update (Transaction_ID H t) t m"
  let ?F = "fold (\<lambda>txn m. AList.update (Transaction_ID H txn) txn m) txns ?m"
  have k: "keyed H ?m" using Cons.prems(1) set_update_subset [of "Transaction_ID H t" t m] unfolding keyed_def by auto
  have d: "distinct (map fst ?m)" using Cons.prems(2) by (rule distinct_update)
  have sn: "snd ` set ?m \<subseteq> insert t (snd ` set m)" using set_update_subset [of "Transaction_ID H t" t m] by force
  have fs: "fst ` set ?m = insert (Transaction_ID H t) (fst ` set m)" by (simp add: dom_map_of_conv_image_fst [symmetric] update_conv')
  note IH = Cons.IH [OF k d]
  have sub: "X \<subseteq> set (t # txns) \<union> S" if "X \<subseteq> set txns \<union> T" "T \<subseteq> insert t S" for X S T :: "transaction set"
    using that by auto
  have "snd ` set ?F \<subseteq> set (t # txns) \<union> snd ` set m"
    by (rule sub [OF IH [THEN conjunct2, THEN conjunct2, THEN conjunct1] sn])
  moreover have "fst ` set ?F = Transaction_ID H ` set (t # txns) \<union> fst ` set m"
    unfolding IH [THEN conjunct2, THEN conjunct2, THEN conjunct2] fs by simp
  ultimately show ?case using IH by (simp del: set_simps)
qed simp

section \<open>Properties\<close>

text \<open>C33. The miner's choice of transactions never panics and always ends; it takes pooled transactions, each at most
  once, whose total weight is within the block limit, and it places every pooled parent of a transaction before
  it, in whatever order it ranges over the pool; provided that transactions do not depend on each other in a
  cycle.\<close>

theorem txnsForBlock_sound:
  assumes "\<forall>txn\<in>set (Pool_Transactions p). \<forall>inp\<in>set (tx_Inputs txn).
      parent_txid inp \<in> Transaction_ID H ` set (Pool_Transactions p) \<longrightarrow> rank (parent_txid inp) < (rank (Transaction_ID H txn) :: nat)"
  shows "\<exists>txns. txnsForBlock H s p order = Some txns
    \<and> set txns \<subseteq> set (Pool_Transactions p) \<and> distinct (map (Transaction_ID H) txns)
    \<and> BlockWeight s txns \<le> MaxBlockWeight s
    \<and> parents_first H (Transaction_ID H ` set (Pool_Transactions p)) txns"
proof -
  let ?P = "fold (\<lambda>txn m. AList.update (Transaction_ID H txn) txn m) (Pool_Transactions p) []"
  have P: "keyed H ?P" "distinct (map fst ?P)" "snd ` set ?P \<subseteq> set (Pool_Transactions p)"
    "fst ` set ?P = Transaction_ID H ` set (Pool_Transactions p)"
    using by_ID [of H "[]" "Pool_Transactions p"] by (auto simp: keyed_def)
  have "rank (parent_txid inp) < rank (fst e)"
    if a: "e \<in> set ?P" "inp \<in> set (tx_Inputs (snd e))" "parent_txid inp \<in> fst ` set ?P" for e inp
  proof -
    have "snd e \<in> set (Pool_Transactions p)" "fst e = Transaction_ID H (snd e)"
      using a(1) P(1,3) by (auto simp: keyed_def)
    then show ?thesis using assms a(2,3) unfolding P(4) by auto
  qed
  then have r: "ranked ?P rank" unfolding ranked_def by blast
  have "choice_inv H s ?P ?P [] (MaxBlockWeight s)"
    using P(2) by (simp add: choice_inv_def BlockWeight_def)
  from txnsForBlock_loop_inv [OF P(1) r this] obtain txns Q cap where
    t: "txnsForBlock H s p order = Some txns" and i: "choice_inv H s ?P Q txns cap"
    unfolding txnsForBlock_def by blast
  have "set txns \<subseteq> set (Pool_Transactions p)" "distinct (map (Transaction_ID H) txns)"
    "parents_first H (Transaction_ID H ` set (Pool_Transactions p)) txns"
    using i P(3) unfolding choice_inv_def P(4) by auto
  moreover have "BlockWeight s txns \<le> MaxBlockWeight s"
    using i by (simp add: choice_inv_def word_le_nat_alt)
  ultimately show ?thesis using t by blast
qed

theorem txnsForBlock_sound_witness:
  "\<exists>txns. txnsForBlock sample_hash sample_state
      ((Pool_New sample_state)\<lparr>p_txns := [(Transaction_ID sample_hash sample_txn1, sample_txn1)]\<rparr>)
      [Transaction_ID sample_hash sample_txn1] = Some txns \<and> set txns \<subseteq> {sample_txn1}"
proof -
  let ?p = "(Pool_New sample_state)\<lparr>p_txns := [(Transaction_ID sample_hash sample_txn1, sample_txn1)]\<rparr>"
  have t: "Pool_Transactions ?p = [sample_txn1]" by (simp add: Pool_Transactions_def)
  have "7 \<noteq> Transaction_ID sample_hash sample_txn1"
    using sample_ids_differ by (auto simp: sample_element_def sample_simps Transaction_OutputID_def)
  moreover have "ei_Source (se_ID (oe_SE sample_element)) = 7" by (simp add: sample_element_def)
  ultimately show ?thesis
    using txnsForBlock_sound [of ?p sample_hash "\<lambda>_. 0" sample_state "[Transaction_ID sample_hash sample_txn1]"]
    by (auto simp: t sample_txn_simps)
qed

text \<open>The grinder: what it returns meets the target, and it ends whenever some nonce does.\<close>

lemma GrindNonce_result:
  assumes "GrindNonce H h target = Some h'"
  shows "BlockID_MeetsTarget (BlockHeader_ID H h') target \<and> (\<exists>n. h' = h\<lparr>bh_Nonce := n\<rparr>)"
proof (rule GrindNonce.raw_induct
    [of "\<lambda>H h target h'. BlockID_MeetsTarget (BlockHeader_ID H h') target \<and> (\<exists>n. h' = h\<lparr>bh_Nonce := n\<rparr>)", OF _ assms])
  fix rec :: "hashfn \<Rightarrow> block_header \<Rightarrow> block_id \<Rightarrow> block_header option" and H h target h'
  assume IH: "\<And>H h target h'. rec H h target = Some h' \<Longrightarrow>
      BlockID_MeetsTarget (BlockHeader_ID H h') target \<and> (\<exists>n. h' = h\<lparr>bh_Nonce := n\<rparr>)"
    and step: "(if BlockID_MeetsTarget (BlockHeader_ID H h) target then Some h
      else rec H (h\<lparr>bh_Nonce := bh_Nonce h + 1\<rparr>) target) = Some h'"
  show "BlockID_MeetsTarget (BlockHeader_ID H h') target \<and> (\<exists>n. h' = h\<lparr>bh_Nonce := n\<rparr>)"
  proof (cases "BlockID_MeetsTarget (BlockHeader_ID H h) target")
    case True
    then show ?thesis using step by (auto intro!: exI [of _ "bh_Nonce h"])
  next
    case False
    then have "rec H (h\<lparr>bh_Nonce := bh_Nonce h + 1\<rparr>) target = Some h'" using step by simp
    from IH [OF this] show ?thesis by auto
  qed
qed

lemma GrindNonce_ends:
  "BlockID_MeetsTarget (BlockHeader_ID H (h\<lparr>bh_Nonce := bh_Nonce h + word_of_nat k\<rparr>)) target \<Longrightarrow>
     GrindNonce H h target \<noteq> None"
proof (induction k arbitrary: h)
  case 0
  then show ?case by (simp add: GrindNonce.simps)
next
  case (Suc k)
  have "GrindNonce H (h\<lparr>bh_Nonce := bh_Nonce h + 1\<rparr>) target \<noteq> None"
    using Suc.prems by (intro Suc.IH) (simp add: add.assoc)
  then show ?case by (subst GrindNonce.simps) simp
qed

text \<open>The CPU grinder ends exactly when some nonce makes the header's ID meet the target; the header it returns
  meets the target and differs in the nonce only.\<close>

theorem GrindNonce_finds:
  "case GrindNonce H h target of
     Some h' \<Rightarrow> BlockID_MeetsTarget (BlockHeader_ID H h') target \<and> (\<exists>n. h' = h\<lparr>bh_Nonce := n\<rparr>)
   | None \<Rightarrow> \<forall>n. \<not> BlockID_MeetsTarget (BlockHeader_ID H (h\<lparr>bh_Nonce := n\<rparr>)) target"
proof (cases "GrindNonce H h target")
  case None
  have "\<not> BlockID_MeetsTarget (BlockHeader_ID H (h\<lparr>bh_Nonce := n\<rparr>)) target" for n
    using GrindNonce_ends [of H h "unat (n - bh_Nonce h)" target] None by auto
  then show ?thesis using None by simp
next
  case (Some h')
  then show ?thesis using GrindNonce_result [OF Some] by simp
qed

lemma distinct_concat_map:
  assumes "distinct xs" "\<forall>x\<in>set xs. distinct (f x)" "\<forall>x\<in>set xs. \<forall>y\<in>set xs. x \<noteq> y \<longrightarrow> set (f x) \<inter> set (f y) = {}"
  shows "distinct (concat (map f xs))"
  using assms
proof (induction xs)
  case (Cons x xs)
  have "distinct (concat (map f xs))" using Cons by simp
  moreover have "set (f x) \<inter> set (f y) = {}" if "y \<in> set xs" for y using Cons.prems that by auto
  ultimately show ?case using Cons.prems by auto
qed simp

text \<open>C34. A block that the miner returns is valid on the state it was mined on, when the miner follows the pool's state,
  the clock is not behind the median timestamp, and the pool holds neither ephemeral inputs nor two transactions
  with a common input (the pool itself does not exclude the latter).\<close>

theorem mined_block_valid:
  assumes round: "MineBlock_round H (GrindNonce H) m p order now after = Some (m', Some b)"
    and pool: "pool_reach H verify p" "p_cs p = mn_cs m"
    and acyclic: "\<forall>txn\<in>set (Pool_Transactions p). \<forall>inp\<in>set (tx_Inputs txn).
      parent_txid inp \<in> Transaction_ID H ` set (Pool_Transactions p) \<longrightarrow> rank (parent_txid inp) < (rank (Transaction_ID H txn) :: nat)"
    and eph: "\<forall>txn\<in>set (Pool_Transactions p). \<forall>inp\<in>set (tx_Inputs txn). \<not> is_ephemeral inp"
    and own: "\<forall>txn\<in>set (Pool_Transactions p). distinct (parent_ids txn)"
    and apart: "\<forall>txn\<in>set (Pool_Transactions p). \<forall>txn'\<in>set (Pool_Transactions p). txn \<noteq> txn' \<longrightarrow> set (parent_ids txn) \<inter> set (parent_ids txn') = {}"
    and time: "medianTimestamp (mn_cs m) = Some t" "t \<le> now"
    and nz: "BlockHeader_ID H (b_Header b) \<noteq> 0"
  shows "ValidateBlock H verify (mn_cs m) b = Some (Inr ()) \<and> cs_Index after = cs_Index (mn_cs m)"
proof -
  let ?s = "mn_cs m"
  obtain target txns h where r: "HashRequiringWork (cs_Difficulty ?s) = Some target" "txnsForBlock H ?s p order = Some txns"
    "GrindNonce H (b_Header (MineBlock_template H m txns now)) target = Some h" "cs_Index after = cs_Index ?s"
    "b = (MineBlock_template H m txns now)\<lparr>b_Header := h\<rparr>"
    using round by (auto simp: MineBlock_round_def Let_def split: Option.bind_splits if_splits)
  obtain n where h: "h = (b_Header (MineBlock_template H m txns now))\<lparr>bh_Nonce := n\<rparr>"
    and meets: "BlockID_MeetsTarget (BlockHeader_ID H h) target"
    using GrindNonce_result [OF r(3)] by blast
  have b: "b_Header b = h" "b_Transactions b = txns" by (simp_all add: r(5) MineBlock_template_def)
  have txns: "set txns \<subseteq> set (Pool_Transactions p)" "distinct (map (Transaction_ID H) txns)" "BlockWeight ?s txns \<le> MaxBlockWeight ?s"
    using txnsForBlock_sound [OF acyclic, of ?s order] r(2) by auto
  obtain w where w: "WorkRequiredForHash (BlockHeader_ID H h) = Some w" using nz b by (simp add: WorkRequiredForHash_eq)
  have "NumHashes (cs_Difficulty ?s) \<noteq> 0" using r(1) by (auto simp: HashRequiringWork_eq)
  from MeetsTarget_iff [OF this nz [unfolded b] r(1) w]
  have "validateHeader H ?s h = valid"
    using meets w time by (simp add: validateHeader_valid h MineBlock_template_def)
  moreover have "bh_Commitment h = Commitment H ?s (bh_MinerAddress h) txns" by (simp add: h MineBlock_template_def)
  moreover have "ValidateTransactionSet H verify ?s txns = valid"
  proof -
    have "validateEphemeralOutputs H txns = valid"
      using eph txns(1) unfolding validateEphemeralOutputs_def list_ex_iff by (metis subsetD)
    moreover have "distinct txns" using txns(2) by (simp add: distinct_map)
    then have "distinct (concat (map parent_ids txns))"
      using txns(1) own apart by (intro distinct_concat_map) blast+
    then have "noDoubleSpends txns = valid" by (simp add: noDoubleSpends_def doubleSpends_loop(1))
    moreover have "\<forall>txn\<in>set txns. txn_valid H verify ?s txn"
      using pool_reach_ok [OF pool(1)] txns(1) pool(2) by (fastforce simp: pool_ok_def entries_ok_def Pool_Transactions_def)
    ultimately show ?thesis
      using txns(3) by (simp add: ValidateTransactionSet_def ValidateTransactions_loop_valid(1) not_less [symmetric])
  qed
  ultimately show ?thesis using r(4) by (simp add: ValidateBlock_valid b)
qed

theorem mined_block_valid_witness:
  "\<exists>m' b. MineBlock_round sample_hash (GrindNonce sample_hash) (Miner_New sample_state VoidAddress)
      ((Pool_New sample_state)\<lparr>p_txns := [(Transaction_ID sample_hash sample_txn1, sample_txn1)]\<rparr>)
      [Transaction_ID sample_hash sample_txn1] 0 sample_state = Some (m', Some b)
    \<and> ValidateBlock sample_hash sample_verify sample_state b = Some (Inr ())"
proof -
  let ?p = "(Pool_New sample_state)\<lparr>p_txns := [(Transaction_ID sample_hash sample_txn1, sample_txn1)]\<rparr>"
  let ?m = "Miner_New sample_state VoidAddress" and ?id = "Transaction_ID sample_hash sample_txn1"
  have t: "Pool_Transactions ?p = [sample_txn1]" by (simp add: Pool_Transactions_def)
  have reach: "pool_reach sample_hash sample_verify ?p" by (rule pool_reach.add [OF pool_reach.new sample_pool])
  have s: "p_cs ?p = mn_cs ?m" "mn_cs ?m = sample_state" by (simp_all add: Pool_New_def Miner_New_def)
  have "7 \<noteq> ?id" using sample_ids_differ by (auto simp: sample_element_def sample_simps Transaction_OutputID_def)
  moreover have "ei_Source (se_ID (oe_SE sample_element)) = 7" by (simp add: sample_element_def)
  ultimately have ac: "\<forall>txn\<in>set (Pool_Transactions ?p). \<forall>inp\<in>set (tx_Inputs txn).
      parent_txid inp \<in> Transaction_ID sample_hash ` set (Pool_Transactions ?p) \<longrightarrow>
      (\<lambda>_. 0 :: nat) (parent_txid inp) < (\<lambda>_. 0) (Transaction_ID sample_hash txn)"
    by (simp add: t sample_txn_simps)
  obtain txns where txns: "txnsForBlock sample_hash sample_state ?p [?id] = Some txns"
    using txnsForBlock_sound [OF ac, of sample_state "[?id]"] by blast
  have target: "HashRequiringWork (cs_Difficulty sample_state) = Some (- 1)"
    by (simp add: HashRequiringWork_def sample_state_header)
  let ?b = "MineBlock_template sample_hash ?m txns 0"
  have g: "GrindNonce sample_hash (b_Header ?b) (- 1) = Some (b_Header ?b)"
    by (simp add: GrindNonce.simps BlockID_MeetsTarget_def)
  have r: "MineBlock_round sample_hash (GrindNonce sample_hash) ?m ?p [?id] 0 sample_state
      = Some (?m\<lparr>mn_cs := sample_state, mn_mined := mn_mined ?m + 1\<rparr>, Some ?b)"
    by (simp add: MineBlock_round_def s target txns Let_def g)
  have nz: "BlockHeader_ID sample_hash (b_Header ?b) \<noteq> 0" by (simp add: BlockHeader_ID_def HashBytes_def)
  have e: "\<forall>txn\<in>set (Pool_Transactions ?p). \<forall>inp\<in>set (tx_Inputs txn). \<not> is_ephemeral inp"
    "\<forall>txn\<in>set (Pool_Transactions ?p). distinct (parent_ids txn)"
    "\<forall>txn\<in>set (Pool_Transactions ?p). \<forall>txn'\<in>set (Pool_Transactions ?p). txn \<noteq> txn' \<longrightarrow> set (parent_ids txn) \<inter> set (parent_ids txn') = {}"
    by (simp_all add: t sample_txn_simps is_ephemeral_def sample_simps parent_ids_def)
  have time: "medianTimestamp (mn_cs ?m) = Some zero_time" "zero_time \<le> 0"
    by (simp_all add: s sample_state_header) (simp add: zero_time_def unix_to_internal_def)
  from mined_block_valid [OF r reach s(1) ac e time nz] show ?thesis using r s(2) by auto
qed

text \<open>
  The pool accepts two transactions that spend the same output, and the miner puts both into its block: such a
  block is not valid, although \<open>MineBlock\<close> is documented to mine a valid one.
\<close>

lemma conflicting_block:
  "\<exists>p. pool_reach sample_hash sample_verify p \<and>
     txnsForBlock sample_hash sample_state p [Transaction_ID sample_hash sample_txn1, Transaction_ID sample_hash sample_spend]
       = Some [sample_txn1, sample_spend]
   \<and> ValidateTransactionSet sample_hash sample_verify sample_state [sample_txn1, sample_spend] \<noteq> valid"
proof -
  let ?a = "Transaction_ID sample_hash sample_txn1" and ?b = "Transaction_ID sample_hash sample_spend"
  let ?p = "(Pool_New sample_state)\<lparr>p_txns := [(?a, sample_txn1)]\<rparr>" and ?q = "(Pool_New sample_state)\<lparr>p_txns := [(?a, sample_txn1), (?b, sample_spend)]\<rparr>"
  have ne: "?a \<noteq> ?b" unfolding Transaction_ID_def
    by (rule sample_hash_length)
      (simp add: txn_effects_def sample_txn1_def sample_spend_def WriteString_def WriteBytes_def str_bytes_def ElementID_EncodeTo_def
        Hash256_EncodeTo_def Output_EncodeTo_def Currency_EncodeTo_def Address_EncodeTo_def)
  have ins: "tx_Inputs sample_spend = [\<lparr>in_Parent = sample_element, in_PublicKey = 3, in_Signature = 0\<rparr>]"
    "tx_Outputs sample_spend = []" by (simp_all add: sample_spend_def)
  have v: "ValidateTransaction sample_hash sample_verify sample_state sample_spend = valid"
    using sample_spend_valid by (simp add: ValidateTransaction_valid)
  have "Pool_AddTransaction sample_hash sample_verify ?p sample_spend = Some (Inr ?q)"
    using v ne by (simp add: Pool_AddTransaction_def Pool_addTransaction_def Pool_validateTransaction_def Pool_refresh_def
        Pool_New_def Let_def ins is_ephemeral_def sample_simps)
  then have reach: "pool_reach sample_hash sample_verify ?q"
    by (rule pool_reach.add [OF pool_reach.add [OF pool_reach.new sample_pool]])
  have src: "ei_Source (se_ID (oe_SE sample_element)) = 7" by (simp add: sample_element_def)
  have "7 \<noteq> ?a" using sample_ids_differ by (auto simp: sample_element_def sample_simps Transaction_OutputID_def)
  moreover have "7 \<noteq> ?b"
  proof
    assume "7 = ?b"
    moreover have "length (txn_effects ''sunyata/id/transaction'' sample_spend) = 102"
      by (simp add: txn_effects_def sample_spend_def WriteString_def WriteBytes_def str_bytes_def ElementID_EncodeTo_def
          Hash256_EncodeTo_def Currency_EncodeTo_def)
    then have "7 < unat ?b" by (simp add: Transaction_ID_def unat_sample_hash sample_key_def)
    ultimately show False by auto
  qed
  ultimately have "txnsForBlock sample_hash sample_state ?q [?a, ?b] = Some [sample_txn1, sample_spend]"
    using ne by (simp add: txnsForBlock_def Pool_Transactions_def calcDeps_def sample_txn_simps ins src
        BlockWeight_def TransactionWeight_def MaxBlockWeight_def Let_def)
  moreover have "ValidateTransactionSet sample_hash sample_verify sample_state [sample_txn1, sample_spend] \<noteq> valid"
    using ValidateTransactionSet_sound(2) [of sample_hash sample_verify sample_state "[sample_txn1, sample_spend]"]
    by (auto simp: parent_ids_def sample_txn_simps ins)
  ultimately show ?thesis using reach by blast
qed

end
