(* ===== verification/Manager_Invariant.thy ===== *)
theory Manager_Invariant
  imports Manager_Paths Miner
begin

text \<open>
  The invariant of the chain manager, for any reliable store and any subscriber that follows the states it is told:
  the manager's state is the state of the last block of the best chain, that chain is a chain of valid blocks, and
  every subscriber is at the manager's state. The pool and the miner are such subscribers.
\<close>

section \<open>Subscribers that follow the chain\<close>

locale follower =
  fixes U :: "'u subscriber" and H :: hashfn and verify :: verifier and follows :: "'u \<Rightarrow> chain_state \<Rightarrow> bool"
  assumes follows_apply: "follows u s \<Longrightarrow> ValidateBlock H verify s b = Some (Inr ()) \<Longrightarrow> ApplyBlock H s b = Some au \<Longrightarrow>
      sb_Apply U u \<lparr>cau_Update = au, cau_Block = b\<rparr> mayCommit = Some (None, u') \<Longrightarrow> follows u' (au_State au)"
    and follows_revert: "follows u s' \<Longrightarrow> ValidateBlock H verify s b = Some (Inr ()) \<Longrightarrow> RevertBlock H s b = Some ru \<Longrightarrow>
      sb_Revert U u \<lparr>cru_Update = ru, cru_Block = b\<rparr> = Some (None, u') \<Longrightarrow> follows u' s"
begin

lemma notify_follows:
  assumes "notify f us = Some (None, us')" "\<forall>u\<in>set us. P u" "\<And>u u'. P u \<Longrightarrow> f u = Some (None, u') \<Longrightarrow> Q u'"
  shows "\<forall>u\<in>set us'. Q u"
  using assms(1,2)
proof (induction us arbitrary: us')
  case (Cons u us)
  then obtain u' us'' where "f u = Some (None, u')" "notify f us = Some (None, us'')" "us' = u' # us''"
    by (auto split: Option.bind_splits option.splits)
  then show ?case using Cons.IH Cons.prems(2) assms(3) by auto
qed simp

lemma notify_apply_follows:
  assumes "notify_apply U au b mc m = Some (Inr x, m')" "\<forall>u\<in>set (m_subscribers m). follows u s"
    "ValidateBlock H verify s b = Some (Inr ())" "ApplyBlock H s b = Some au"
  shows "m' = m\<lparr>m_subscribers := m_subscribers m'\<rparr> \<and> (\<forall>u\<in>set (m_subscribers m'). follows u (au_State au))"
proof -
  obtain us where us: "notify (\<lambda>u. sb_Apply U u \<lparr>cau_Update = au, cau_Block = b\<rparr> mc) (m_subscribers m) = Some (None, us)"
    "m' = m\<lparr>m_subscribers := us\<rparr>"
    using assms(1) by (auto simp: notify_apply_def split: Option.bind_splits option.splits)
  have "\<forall>u\<in>set us. follows u (au_State au)"
    by (rule notify_follows [OF us(1) assms(2)]) (rule follows_apply [OF _ assms(3,4)])
  then show ?thesis by (simp add: us(2))
qed

end

text \<open>The pool and the miner as subscribers; they never report an error.\<close>

definition PoolSubscriber :: "hashfn \<Rightarrow> verifier \<Rightarrow> pool subscriber" where
  "PoolSubscriber H verify =
     \<lparr>sb_Apply = (\<lambda>p cau mayCommit. map_option (Pair None) (Pool_ProcessChainApplyUpdate H verify p cau)),
      sb_Revert = (\<lambda>p cru. map_option (Pair None) (Pool_ProcessChainRevertUpdate H verify p cru))\<rparr>"

definition MinerSubscriber :: "miner subscriber" where
  "MinerSubscriber =
     \<lparr>sb_Apply = (\<lambda>m cau mayCommit. Some (None, Miner_ProcessChainApplyUpdate m cau)),
      sb_Revert = (\<lambda>m cru. Some (None, Miner_ProcessChainRevertUpdate m cru))\<rparr>"

definition pool_follows :: "hashfn \<Rightarrow> verifier \<Rightarrow> pool \<Rightarrow> chain_state \<Rightarrow> bool" where
  "pool_follows H verify p s \<longleftrightarrow> pool_reach H verify p \<and> p_cs p = s"

lemma RevertBlock_State: "RevertBlock H s b = Some ru \<Longrightarrow> ru_State ru = s"
  by (auto simp: RevertBlock_def updatedInBlock_eq createdInBlock_eq split: if_splits Option.bind_splits)

interpretation pool_follower: follower "PoolSubscriber H verify" H verify "pool_follows H verify"
proof unfold_locales
  fix p s b au mc p'
  assume "pool_follows H verify p s"
    and "sb_Apply (PoolSubscriber H verify) p \<lparr>cau_Update = au, cau_Block = b\<rparr> mc = Some (None, p')"
  then have r: "pool_reach H verify p" and p': "Pool_ProcessChainApplyUpdate H verify p \<lparr>cau_Update = au, cau_Block = b\<rparr> = Some p'"
    by (auto simp: PoolSubscriber_def pool_follows_def)
  have "p_cs p' = au_State au"
    using p' by (auto simp: Pool_ProcessChainApplyUpdate_def split: Option.bind_splits)
  then show "pool_follows H verify p' (au_State au)"
    using pool_reach.apply_block [OF r p'] by (simp add: pool_follows_def)
next
  fix p s' s b ru p'
  assume "pool_follows H verify p s'" and v: "ValidateBlock H verify s b = Some (Inr ())"
    and ru: "RevertBlock H s b = Some ru"
    and "sb_Revert (PoolSubscriber H verify) p \<lparr>cru_Update = ru, cru_Block = b\<rparr> = Some (None, p')"
  then have r: "pool_reach H verify p" and p': "Pool_ProcessChainRevertUpdate H verify p \<lparr>cru_Update = ru, cru_Block = b\<rparr> = Some p'"
    by (auto simp: PoolSubscriber_def pool_follows_def)
  have "p_cs p' = s"
    using p' RevertBlock_State [OF ru] by (auto simp: Pool_ProcessChainRevertUpdate_def split: Option.bind_splits)
  moreover have "pool_reach H verify p'"
    using v RevertBlock_State [OF ru] by (intro pool_reach.revert_block [OF r p']) (simp add: ValidateBlock_valid)
  ultimately show "pool_follows H verify p' s" by (simp add: pool_follows_def)
qed

interpretation miner_follower: follower MinerSubscriber H verify "\<lambda>m s. mn_cs m = s"
  by unfold_locales
    (auto simp: MinerSubscriber_def Miner_ProcessChainApplyUpdate_def Miner_ProcessChainRevertUpdate_def dest: RevertBlock_State)

section \<open>The invariant\<close>

text \<open>
  The blocks \<open>B\<close> that are offered to the manager: none has the index of the base checkpoint, of its parent, or the
  zero index, and blocks with the same index have the same parent and the same effect.
\<close>

definition names_blocks :: "hashfn \<Rightarrow> checkpoint \<Rightarrow> block set \<Rightarrow> bool" where
  "names_blocks H c0 B \<longleftrightarrow>
     Block_Index H (cp_Block c0) = cs_Index (cp_State c0)
     \<and> (\<forall>b\<in>B. Block_Index H b \<notin> {cs_Index (cp_State c0), zero_index, BlockHeader_ParentIndex (b_Header (cp_Block c0))})
     \<and> (\<forall>b\<in>B. \<forall>b'\<in>B. Block_Index H b = Block_Index H b' \<longrightarrow>
          BlockHeader_ParentIndex (b_Header b) = BlockHeader_ParentIndex (b_Header b')
          \<and> (\<forall>s au au'. ApplyBlock H s b = Some au \<longrightarrow> ApplyBlock H s b' = Some au' \<longrightarrow> au_State au = au_State au'))"

definition valid_child :: "hashfn \<Rightarrow> verifier \<Rightarrow> checkpoint \<Rightarrow> checkpoint \<Rightarrow> bool" where
  "valid_child H verify p c \<longleftrightarrow>
     BlockHeader_ParentIndex (b_Header (cp_Block c)) = cs_Index (cp_State p)
     \<and> ValidateBlock H verify (cp_State p) (cp_Block c) = Some (Inr ())
     \<and> (\<exists>au. ApplyBlock H (cp_State p) (cp_Block c) = Some au \<and> au_State au = cp_State c)"

text \<open>Every entry but the base is an offered block that is valid on its parent, which is stored too.\<close>

definition entries_valid ::
    "hashfn \<Rightarrow> verifier \<Rightarrow> checkpoint \<Rightarrow> block set \<Rightarrow> (chain_index \<rightharpoonup> checkpoint) \<Rightarrow> bool" where
  "entries_valid H verify c0 B E \<longleftrightarrow>
     E (cs_Index (cp_State c0)) = Some c0
     \<and> (\<forall>i c. E i = Some c \<longrightarrow> cs_Index (cp_State c) = i \<and> Block_Index H (cp_Block c) = i
          \<and> (i \<noteq> cs_Index (cp_State c0) \<longrightarrow> cp_Block c \<in> B
              \<and> (\<exists>p. E (BlockHeader_ParentIndex (b_Header (cp_Block c))) = Some p \<and> valid_child H verify p c)))"

definition best_valid :: "(chain_index \<rightharpoonup> checkpoint) \<Rightarrow> chain_index \<Rightarrow> chain_index list \<Rightarrow> bool" where
  "best_valid E base is \<longleftrightarrow> is \<noteq> [] \<and> hd is = base
     \<and> successively (\<lambda>i j. j \<noteq> base \<and> (\<exists>c. E j = Some c \<and> BlockHeader_ParentIndex (b_Header (cp_Block c)) = i)) is"

lemma best_valid_snoc:
  assumes "best_valid E base is" "j \<noteq> base" "E j = Some c" "BlockHeader_ParentIndex (b_Header (cp_Block c)) = last is"
  shows "best_valid E base (is @ [j])"
  using assms by (auto simp: best_valid_def successively_append_iff)

lemma best_valid_butlast:
  assumes "best_valid E base is" "last is \<noteq> base" "E (last is) = Some c"
  shows "best_valid E base (butlast is)" "last (butlast is) = BlockHeader_ParentIndex (b_Header (cp_Block c))"
proof -
  have ne: "is \<noteq> []" and hd: "hd is = base" using assms(1) by (simp_all add: best_valid_def)
  have b: "butlast is \<noteq> []"
    using assms(2) ne hd by (cases "is" rule: rev_cases) auto
  have eq: "is = butlast is @ [last is]" using ne by simp
  let ?P = "\<lambda>i j. j \<noteq> base \<and> (\<exists>c. E j = Some c \<and> BlockHeader_ParentIndex (b_Header (cp_Block c)) = i)"
  have "successively ?P (butlast is @ [last is])" using assms(1) eq unfolding best_valid_def by metis
  then have s: "successively ?P (butlast is)" "?P (last (butlast is)) (last is)"
    using b by (auto simp: successively_append_iff)
  have h: "hd (butlast is) = base" using b hd eq by (metis hd_append2)
  show "best_valid E base (butlast is)"
    using s(1) b h by (simp add: best_valid_def)
  show "last (butlast is) = BlockHeader_ParentIndex (b_Header (cp_Block c))" using s(2) assms(3) by auto
qed

lemma best_valid_mono:
  assumes "best_valid E base is" "\<And>j c. E j = Some c \<Longrightarrow> \<exists>c'. E' j = Some c'
      \<and> BlockHeader_ParentIndex (b_Header (cp_Block c')) = BlockHeader_ParentIndex (b_Header (cp_Block c))"
  shows "best_valid E' base is"
  using assms(1) unfolding best_valid_def
  by (auto elim!: successively_mono dest!: assms(2))

text \<open>Adding a valid block keeps the entries valid, also when it was stored before; parents and states stay.\<close>

lemma entries_valid_add:
  assumes ev: "entries_valid H verify c0 B E" and nb: "names_blocks H c0 B"
    and c: "cp_Block c \<in> B" "E (BlockHeader_ParentIndex (b_Header (cp_Block c))) = Some p" "valid_child H verify p c"
    and E': "E' = E(cs_Index (cp_State c) \<mapsto> c)"
  shows "entries_valid H verify c0 B E'"
    and "E i = Some d \<Longrightarrow> \<exists>d'. E' i = Some d' \<and> cp_State d' = cp_State d
      \<and> BlockHeader_ParentIndex (b_Header (cp_Block d')) = BlockHeader_ParentIndex (b_Header (cp_Block d))"
proof -
  let ?i = "cs_Index (cp_State c)" and ?base = "cs_Index (cp_State c0)"
  obtain au where au: "ApplyBlock H (cp_State p) (cp_Block c) = Some au" "au_State au = cp_State c"
    using c(3) by (auto simp: valid_child_def)
  have i: "?i = Block_Index H (cp_Block c)"
    using header_part_ApplyBlock [OF au(1)] au(2) header_part_simps(1) [of "cp_State c"]
    by (metis Block_Index_def header_step_Index header_part_simps(1))
  then have nbase: "?i \<noteq> ?base" using nb c(1) by (simp add: names_blocks_def)
  have evD: "cs_Index (cp_State d) = j" "Block_Index H (cp_Block d) = j" "j \<noteq> ?base \<Longrightarrow> cp_Block d \<in> B"
    "j \<noteq> ?base \<Longrightarrow> \<exists>p. E (BlockHeader_ParentIndex (b_Header (cp_Block d))) = Some p \<and> valid_child H verify p d"
    if "E j = Some d" for j d
    using ev that by (simp_all add: entries_valid_def)
  have same: "cp_State c = cp_State d
      \<and> BlockHeader_ParentIndex (b_Header (cp_Block c)) = BlockHeader_ParentIndex (b_Header (cp_Block d))"
    if d: "E ?i = Some d" for d
  proof -
    note d' = evD(2) [OF d] evD(3) [OF d nbase]
    obtain q where q: "E (BlockHeader_ParentIndex (b_Header (cp_Block d))) = Some q" "valid_child H verify q d"
      using evD(4) [OF d nbase] by blast
    have eq: "Block_Index H (cp_Block c) = Block_Index H (cp_Block d)" using d'(1) i by simp
    then have p: "BlockHeader_ParentIndex (b_Header (cp_Block c)) = BlockHeader_ParentIndex (b_Header (cp_Block d))"
      and st: "\<And>s au au'. ApplyBlock H s (cp_Block c) = Some au \<Longrightarrow> ApplyBlock H s (cp_Block d) = Some au' \<Longrightarrow> au_State au = au_State au'"
      using nb c(1) d'(2) unfolding names_blocks_def by blast+
    have "q = p" using q(1) c(2) p by simp
    then obtain au' where "ApplyBlock H (cp_State p) (cp_Block d) = Some au'" "au_State au' = cp_State d"
      using q(2) by (auto simp: valid_child_def)
    then show ?thesis using st [OF au(1)] au(2) p by simp
  qed
  show keep: "\<exists>d'. E' i = Some d' \<and> cp_State d' = cp_State d
      \<and> BlockHeader_ParentIndex (b_Header (cp_Block d')) = BlockHeader_ParentIndex (b_Header (cp_Block d))"
    if "E i = Some d" for i d
    using that same [of d] by (cases "i = ?i") (auto simp: E')
  have child: "valid_child H verify q' d" if "valid_child H verify q d" "cp_State q' = cp_State q" for q q' d
    using that by (simp add: valid_child_def)
  show "entries_valid H verify c0 B E'"
    unfolding entries_valid_def
  proof (intro conjI allI impI)
    show "E' ?base = Some c0" using ev nbase by (simp add: entries_valid_def E')
  next
    fix j d
    assume d: "E' j = Some d"
    have cases: "j = ?i \<and> d = c \<or> E j = Some d" using d by (simp add: E' split: if_splits)
    show "cs_Index (cp_State d) = j" using cases evD(1) by blast
    show "Block_Index H (cp_Block d) = j" using cases evD(2) i by metis
    assume j: "j \<noteq> ?base"
    show "cp_Block d \<in> B" using cases evD(3) [OF _ j] c(1) by blast
    obtain q where q: "E (BlockHeader_ParentIndex (b_Header (cp_Block d))) = Some q" "valid_child H verify q d"
      using cases evD(4) [OF _ j] c(2,3) by blast
    from keep [OF q(1)] obtain q' where "E' (BlockHeader_ParentIndex (b_Header (cp_Block d))) = Some q'" "cp_State q' = cp_State q"
      by blast
    then show "\<exists>p. E' (BlockHeader_ParentIndex (b_Header (cp_Block d))) = Some p \<and> valid_child H verify p d"
      using child [OF q(2)] by blast
  qed
qed

definition at_state :: "(chain_index \<rightharpoonup> checkpoint) \<Rightarrow> chain_state \<Rightarrow> bool" where
  "at_state E s \<longleftrightarrow> (\<exists>c. E (cs_Index s) = Some c \<and> cp_State c = s)"

definition mgr_inv ::
    "hashfn \<Rightarrow> verifier \<Rightarrow> ('s \<Rightarrow> chain_index \<rightharpoonup> checkpoint) \<Rightarrow> ('s \<Rightarrow> chain_index list) \<Rightarrow> ('u \<Rightarrow> chain_state \<Rightarrow> bool)
     \<Rightarrow> checkpoint \<Rightarrow> block set \<Rightarrow> ('s, 'u) manager \<Rightarrow> bool" where
  "mgr_inv H verify entries best follows c0 B m \<longleftrightarrow>
     entries_valid H verify c0 B (entries (m_store m))
     \<and> best_valid (entries (m_store m)) (cs_Index (cp_State c0)) (best (m_store m))
     \<and> last (best (m_store m)) = cs_Index (m_cs m)
     \<and> at_state (entries (m_store m)) (m_cs m)
     \<and> (\<forall>sc\<in>set (m_chains m). at_state (entries (m_store m)) (sc_ts sc))
     \<and> (\<forall>u\<in>set (m_subscribers m). follows u (m_cs m))"

fun subscriber_error :: "manager_error \<Rightarrow> bool" where
  "subscriber_error (ErrSubscriber msg) \<longleftrightarrow> True"
| "subscriber_error (ErrReorg e) \<longleftrightarrow> subscriber_error e"
| "subscriber_error _ \<longleftrightarrow> False"

abbreviation no_sub :: "manager_error + 'a \<Rightarrow> bool" where
  "no_sub r \<equiv> (\<forall>e. r = Inl e \<longrightarrow> \<not> subscriber_error e)"

text \<open>A walk along parents.\<close>

fun trail :: "(chain_index \<rightharpoonup> checkpoint) \<Rightarrow> chain_index \<Rightarrow> chain_index list \<Rightarrow> chain_index \<Rightarrow> bool" where
  "trail E a [] z \<longleftrightarrow> a = z"
| "trail E a (p # ps) z \<longleftrightarrow> p = a \<and> (\<exists>a'. entry_parent E a = Some a' \<and> trail E a' ps z)"

lemma trail_append: "trail E a (ps @ qs) z \<longleftrightarrow> (\<exists>y. trail E a ps y \<and> trail E y qs z)"
  by (induction ps arbitrary: a) auto

definition heaviest :: "(chain_index \<rightharpoonup> checkpoint) \<Rightarrow> chain_state \<Rightarrow> bool" where
  "heaviest E s \<longleftrightarrow> (\<forall>i c. E i = Some c \<longrightarrow> work_nat (cs_TotalWork (cp_State c)) \<le> work_nat (cs_TotalWork s))"

locale managed = reliable_store S entries best + follower U H verify follows
  for S :: "'s manager_store" and entries best and U :: "'u subscriber" and H verify follows
begin

abbreviation inv :: "checkpoint \<Rightarrow> block set \<Rightarrow> ('s, 'u) manager \<Rightarrow> bool" where
  "inv \<equiv> mgr_inv H verify entries best follows"

lemma inv_entry:
  assumes "inv c0 B m" "entries (m_store m) i = Some c"
  shows "cs_Index (cp_State c) = i" "Block_Index H (cp_Block c) = i"
    "i \<noteq> cs_Index (cp_State c0) \<Longrightarrow> cp_Block c \<in> B"
    "i \<noteq> cs_Index (cp_State c0) \<Longrightarrow>
       \<exists>p. entries (m_store m) (BlockHeader_ParentIndex (b_Header (cp_Block c))) = Some p \<and> valid_child H verify p c"
  using assms by (simp_all add: mgr_inv_def entries_valid_def)

lemma inv_base: "inv c0 B m \<Longrightarrow> entries (m_store m) (cs_Index (cp_State c0)) = Some c0"
  unfolding mgr_inv_def entries_valid_def by blast

lemma base_parent_missing:
  assumes "inv c0 B m" "names_blocks H c0 B"
  shows "entries (m_store m) (BlockHeader_ParentIndex (b_Header (cp_Block c0))) = None"
proof (rule ccontr)
  let ?i = "BlockHeader_ParentIndex (b_Header (cp_Block c0))"
  assume "entries (m_store m) ?i \<noteq> None"
  then obtain c where c: "entries (m_store m) ?i = Some c" by blast
  have "cs_Index (cp_State c0) = Block_Index H (cp_Block c0)" using assms(2) by (simp add: names_blocks_def)
  then have "ci_Height ?i \<noteq> ci_Height (cs_Index (cp_State c0))"
    by (simp add: BlockHeader_ParentIndex_def Block_Index_def BlockHeader_Index_def)
  then have "?i \<noteq> cs_Index (cp_State c0)" by auto
  then have "cp_Block c \<in> B" "Block_Index H (cp_Block c) = ?i" using inv_entry(2,3) [OF assms(1) c] by blast+
  then show False using assms(2) unfolding names_blocks_def by blast
qed

lemma flush_tip_frame:
  "\<exists>mc s t. flush_tip S now m = (Inr mc, m\<lparr>m_store := s, m_lastFlush := t\<rparr>)
     \<and> entries s = entries (m_store m) \<and> best s = best (m_store m)"
proof (cases "time_Sub now (m_lastFlush m) > 60 * 1000000000")
  case True
  obtain s where "ms_Flush S (m_store m) = Inr s" using Flush_ok by blast
  then show ?thesis using True Flush_law by (auto simp: flush_tip_def)
next
  case False
  then have "flush_tip S now m = (Inr False, m\<lparr>m_store := m_store m, m_lastFlush := m_lastFlush m\<rparr>)"
    by (simp add: flush_tip_def)
  then show ?thesis by blast
qed

text \<open>Applying a stored block to the tip.\<close>

lemma applyTip_inv:
  assumes inv: "inv c0 B m" and nb: "names_blocks H c0 B"
    and app: "Manager_applyTip H S U now m index = Some (r, m')" and ok: "no_sub r"
  shows "inv c0 B m' \<and> m_chains m' = m_chains m \<and> entries (m_store m') = entries (m_store m)
    \<and> (r = Inr () \<longrightarrow> cs_Index (m_cs m') = index) \<and> (r = Inr () \<or> entries (m_store m) index = None)"
proof (cases "entries (m_store m) index")
  case None
  then show ?thesis using app inv by (auto simp: Manager_applyTip_def Checkpoint_ok)
next
  case (Some c)
  let ?E = "entries (m_store m)" and ?base = "cs_Index (cp_State c0)"
  have parent: "BlockHeader_ParentIndex (b_Header (cp_Block c)) = cs_Index (m_cs m)"
    using app Some by (simp add: Manager_applyTip_def Checkpoint_ok split: if_splits)
  obtain c1 where c1: "?E (cs_Index (m_cs m)) = Some c1" "cp_State c1 = m_cs m"
    using inv by (auto simp: mgr_inv_def at_state_def)
  have "index \<noteq> ?base"
  proof
    assume "index = ?base"
    then have "c = c0" using Some inv_base [OF inv] by (metis option.inject)
    then show False using base_parent_missing [OF inv nb] parent c1(1) by simp
  qed
  from inv_entry(4) [OF inv Some this] obtain p where p: "?E (BlockHeader_ParentIndex (b_Header (cp_Block c))) = Some p"
    "valid_child H verify p c" by blast
  then have "valid_child H verify c1 c" using parent c1(1) by simp
  then obtain au where au: "ValidateBlock H verify (m_cs m) (cp_Block c) = Some (Inr ())"
    "ApplyBlock H (m_cs m) (cp_Block c) = Some au" "au_State au = cp_State c"
    unfolding valid_child_def c1(2) by blast
  have idx: "cs_Index (cp_State c) = index" by (rule inv_entry(1) [OF inv Some])
  obtain s where s: "ms_ExtendBest S (m_store m) index = Some (Inr s)" using ExtendBest_ok Some by fastforce
  note ext = ExtendBest_law [OF s]
  let ?m = "m\<lparr>m_store := s\<rparr>"
  obtain mc s2 t where fl: "flush_tip S now ?m = (Inr mc, ?m\<lparr>m_store := s2, m_lastFlush := t\<rparr>)"
    "entries s2 = ?E" "best s2 = best (m_store m) @ [index]"
    using flush_tip_frame [of now ?m] ext by auto
  let ?m2 = "?m\<lparr>m_store := s2, m_lastFlush := t\<rparr>"
  have "do { (r, m) \<leftarrow> notify_apply U au (cp_Block c) mc ?m2;
      Some (case r of Inl e \<Rightarrow> (Inl e, m) | Inr _ \<Rightarrow> (Inr (), m\<lparr>m_cs := au_State au\<rparr>)) } = Some (r, m')"
    using app Some parent au(2) by (simp add: Manager_applyTip_def Checkpoint_ok idx s fl(1))
  then obtain r1 m1 where n: "notify_apply U au (cp_Block c) mc ?m2 = Some (r1, m1)"
    "(r, m') = (case r1 of Inl e \<Rightarrow> (Inl e, m1) | Inr _ \<Rightarrow> (Inr (), m1\<lparr>m_cs := au_State au\<rparr>))"
    by (auto split: Option.bind_splits)
  have "\<exists>x. r1 = Inr x"
  proof (cases r1)
    case (Inl e)
    then have "r = Inl e" using n(2) by simp
    moreover have "subscriber_error e"
      using n(1) Inl by (auto simp: notify_apply_def split: Option.bind_splits option.splits)
    ultimately show ?thesis using ok by simp
  qed simp
  then obtain x where x: "r1 = Inr x" by blast
  have "\<forall>u\<in>set (m_subscribers ?m2). follows u (m_cs m)" using inv by (simp add: mgr_inv_def)
  note f = notify_apply_follows [OF n(1) [unfolded x] this au(1,2)]
  obtain us where us: "m1 = ?m2\<lparr>m_subscribers := us\<rparr>" "\<forall>u\<in>set us. follows u (cp_State c)"
    using f au(3) by metis
  have m': "m' = ?m2\<lparr>m_subscribers := us, m_cs := cp_State c\<rparr>" and r: "r = Inr ()"
    using n(2) x us(1) au(3) by simp_all
  have "best_valid ?E ?base (best (m_store m) @ [index])"
    using inv \<open>index \<noteq> ?base\<close> Some parent by (intro best_valid_snoc) (simp_all add: mgr_inv_def)
  then show ?thesis
    using inv us(2) Some idx r by (simp add: m' mgr_inv_def fl at_state_def)
qed

text \<open>Reverting the tip.\<close>

lemma revertTip_inv:
  assumes inv: "inv c0 B m" and nb: "names_blocks H c0 B"
    and rev: "Manager_revertTip H S U m = Some (r, m')" and ok: "no_sub r"
  shows "inv c0 B m' \<and> m_chains m' = m_chains m \<and> entries (m_store m') = entries (m_store m)
    \<and> (r = Inr () \<longrightarrow> best (m_store m') = butlast (best (m_store m)))"
proof -
  let ?E = "entries (m_store m)" and ?base = "cs_Index (cp_State c0)"
  obtain c where c: "?E (cs_Index (m_cs m)) = Some c" "cp_State c = m_cs m"
    using inv by (auto simp: mgr_inv_def at_state_def)
  let ?i = "BlockHeader_ParentIndex (b_Header (cp_Block c))"
  show ?thesis
  proof (cases "?E ?i")
    case None
    then show ?thesis using rev inv c by (auto simp: Manager_revertTip_def Checkpoint_ok)
  next
    case (Some p)
    have nbase: "cs_Index (m_cs m) \<noteq> ?base"
    proof
      assume "cs_Index (m_cs m) = ?base"
      then have "c = c0" using c(1) inv_base [OF inv] by (metis option.inject)
      then show False using base_parent_missing [OF inv nb] Some by simp
    qed
    have pv: "valid_child H verify p c" using inv_entry(4) [OF inv c(1) nbase] Some by auto
    have pi: "cs_Index (cp_State p) = ?i" by (rule inv_entry(1) [OF inv Some])
    have bv: "best_valid ?E ?base (best (m_store m))" "last (best (m_store m)) = cs_Index (m_cs m)"
      using inv by (simp_all add: mgr_inv_def)
    note bl = best_valid_butlast [OF bv(1), unfolded bv(2), OF nbase c(1)]
    have "best (m_store m) \<noteq> []" using bv(1) by (simp add: best_valid_def)
    then obtain s where s: "ms_RewindBest S (m_store m) = Some (Inr s)" using RewindBest_ok by blast
    note rw = RewindBest_law [OF s]
    obtain ru e us where n: "RevertBlock H (cp_State p) (cp_Block c) = Some ru"
      "notify (\<lambda>u. sb_Revert U u \<lparr>cru_Update = ru, cru_Block = cp_Block c\<rparr>) (m_subscribers m) = Some (e, us)"
      "(case e of Some msg \<Rightarrow> Some (Inl (ErrSubscriber msg), m\<lparr>m_subscribers := us\<rparr>)
         | None \<Rightarrow> do { r \<leftarrow> ms_RewindBest S (m_store m);
             Some (case r of Inl e \<Rightarrow> (Inl (ErrStoreFailed e), m\<lparr>m_subscribers := us\<rparr>)
                   | Inr s \<Rightarrow> (Inr (), m\<lparr>m_subscribers := us, m_store := s, m_cs := cp_State p\<rparr>)) }) = Some (r, m')"
      using rev by (auto simp: Manager_revertTip_def Checkpoint_ok c(1) Some Let_def split: Option.bind_splits)
    have e: "e = None" using n(3) ok by (cases e) auto
    have v: "ValidateBlock H verify (cp_State p) (cp_Block c) = Some (Inr ())" using pv by (simp add: valid_child_def)
    have old: "\<forall>u\<in>set (m_subscribers m). follows u (m_cs m)" using inv by (simp add: mgr_inv_def)
    have "\<forall>u\<in>set us. follows u (cp_State p)"
      by (rule notify_follows [OF n(2) [unfolded e] old]) (rule follows_revert [OF _ v n(1)])
    moreover have "m' = m\<lparr>m_subscribers := us, m_store := s, m_cs := cp_State p\<rparr>" "r = Inr ()" using n(3) by (simp_all add: e s)
    ultimately show ?thesis
      using inv bl rw Some pi by (simp add: mgr_inv_def at_state_def)
  qed
qed

lemma revert_loop_inv:
  assumes "revert_loop H S U target m = Some (r, m')" "inv c0 B m" "names_blocks H c0 B" "no_sub r"
    "target \<in> set (best (m_store m))"
  shows "inv c0 B m' \<and> m_chains m' = m_chains m \<and> entries (m_store m') = entries (m_store m)
    \<and> (r = Inr () \<longrightarrow> cs_Index (m_cs m') = target)"
proof -
  let ?P = "\<lambda>H' S' U' target m (r, m'). H' = H \<longrightarrow> S' = S \<longrightarrow> U' = U \<longrightarrow> inv c0 B m \<longrightarrow> no_sub r \<longrightarrow>
    target \<in> set (best (m_store m)) \<longrightarrow>
    inv c0 B m' \<and> m_chains m' = m_chains m \<and> entries (m_store m') = entries (m_store m)
    \<and> (r = Inr () \<longrightarrow> cs_Index (m_cs m') = target)"
  have "?P H S U target m (r, m')"
  proof (rule revert_loop.raw_induct [of ?P, OF _ assms(1)])
    fix rec :: "hashfn \<Rightarrow> 's manager_store \<Rightarrow> 'u subscriber \<Rightarrow> chain_index \<Rightarrow> ('s, 'u) manager
      \<Rightarrow> ((manager_error + unit) \<times> ('s, 'u) manager) option"
      and H' S' U' target m and y :: "(manager_error + unit) \<times> ('s, 'u) manager"
    assume IH: "\<And>H' S' U' target m y. rec H' S' U' target m = Some y \<Longrightarrow> ?P H' S' U' target m y"
      and step: "(if cs_Index (m_cs m) = target then Some (Inr (), m)
        else do {
          (r, m) \<leftarrow> Manager_revertTip H' S' U' m;
          (case r of Inl e \<Rightarrow> Some (Inl e, m) | Inr _ \<Rightarrow> rec H' S' U' target m)
        }) = Some y"
    obtain r m2 where y: "y = (r, m2)" by (cases y)
    have "inv c0 B m2 \<and> m_chains m2 = m_chains m \<and> entries (m_store m2) = entries (m_store m)
        \<and> (r = Inr () \<longrightarrow> cs_Index (m_cs m2) = target)"
      if eqs: "H' = H" "S' = S" "U' = U" and inv: "inv c0 B m" and ok: "no_sub r" and t: "target \<in> set (best (m_store m))"
    proof (cases "cs_Index (m_cs m) = target")
      case True
      then show ?thesis using step inv by (simp add: y)
    next
      case False
      then obtain r1 m1 where r1: "Manager_revertTip H S U m = Some (r1, m1)"
        "(case r1 of Inl e \<Rightarrow> Some (Inl e, m1) | Inr _ \<Rightarrow> rec H S U target m1) = Some (r, m2)"
        using step [unfolded eqs y] by (auto split: Option.bind_splits)
      have ok1: "no_sub r1" using r1(2) ok by (auto split: sum.splits)
      note t1 = revertTip_inv [OF inv assms(3) r1(1) ok1]
      show ?thesis
      proof (cases r1)
        case (Inl e)
        then show ?thesis using r1(2) t1 by auto
      next
        case (Inr x)
        have "last (best (m_store m)) = cs_Index (m_cs m)" "best (m_store m) \<noteq> []"
          using inv by (simp_all add: mgr_inv_def best_valid_def)
        then have "best (m_store m) = butlast (best (m_store m)) @ [cs_Index (m_cs m)]" by (metis append_butlast_last_id)
        then have "target \<in> set (butlast (best (m_store m)))" using t False by (metis Un_iff in_set_butlast_appendI rotate1.simps(2) set_ConsD set_append set_rotate1)
        then have "target \<in> set (best (m_store m1))" using t1 Inr by simp
        then show ?thesis using IH [of H S U target m1 "(r, m2)"] r1(2) Inr t1 ok by simp
      qed
    qed
    then show "?P H' S' U' target m y" unfolding y by blast
  qed
  then show ?thesis using assms(2,4,5) by simp
qed

lemma apply_loop_inv:
  assumes "apply_loop H S U now sc rebase m = Some (r, m')" "inv c0 B m" "names_blocks H c0 B" "no_sub r"
  shows "inv c0 B m' \<and> m_chains m' = m_chains m \<and> entries (m_store m') = entries (m_store m)
    \<and> (r = Inr () \<longrightarrow> cs_Index (m_cs m') = ScratchChain_ValidTip sc)"
proof -
  let ?P = "\<lambda>H' S' U' (now :: gotime) sc rebase m (r, m'). H' = H \<longrightarrow> S' = S \<longrightarrow> U' = U \<longrightarrow> inv c0 B m \<longrightarrow> no_sub r \<longrightarrow>
    inv c0 B m' \<and> m_chains m' = m_chains m \<and> entries (m_store m') = entries (m_store m)
    \<and> (r = Inr () \<longrightarrow> cs_Index (m_cs m') = ScratchChain_ValidTip sc)"
  have "?P H S U now sc rebase m (r, m')"
  proof (rule apply_loop.raw_induct [of ?P, OF _ assms(1)])
    fix rec :: "hashfn \<Rightarrow> 's manager_store \<Rightarrow> 'u subscriber \<Rightarrow> gotime \<Rightarrow> scratch_chain \<Rightarrow> chain_index list \<Rightarrow> ('s, 'u) manager
      \<Rightarrow> ((manager_error + unit) \<times> ('s, 'u) manager) option"
      and H' S' U' now sc rebase m and y :: "(manager_error + unit) \<times> ('s, 'u) manager"
    assume IH: "\<And>H' S' U' now sc rebase m y. rec H' S' U' now sc rebase m = Some y \<Longrightarrow> ?P H' S' U' now sc rebase m y"
      and step: "(if cs_Index (m_cs m) = ScratchChain_ValidTip sc then Some (Inr (), m)
        else do {
          next_index \<leftarrow> (if rebase \<noteq> [] then Some (last rebase) else ScratchChain_Index sc (ci_Height (cs_Index (m_cs m)) + 1));
          (r, m) \<leftarrow> Manager_applyTip H' S' U' now m next_index;
          (case r of Inl e \<Rightarrow> Some (Inl e, m) | Inr _ \<Rightarrow> rec H' S' U' now sc (butlast rebase) m)
        }) = Some y"
    obtain r m2 where y: "y = (r, m2)" by (cases y)
    have "inv c0 B m2 \<and> m_chains m2 = m_chains m \<and> entries (m_store m2) = entries (m_store m)
        \<and> (r = Inr () \<longrightarrow> cs_Index (m_cs m2) = ScratchChain_ValidTip sc)"
      if eqs: "H' = H" "S' = S" "U' = U" and inv: "inv c0 B m" and ok: "no_sub r"
    proof (cases "cs_Index (m_cs m) = ScratchChain_ValidTip sc")
      case True
      then show ?thesis using step inv by (simp add: y)
    next
      case False
      then obtain i r1 m1 where r1: "Manager_applyTip H S U now m i = Some (r1, m1)"
        "(case r1 of Inl e \<Rightarrow> Some (Inl e, m1) | Inr _ \<Rightarrow> rec H S U now sc (butlast rebase) m1) = Some (r, m2)"
        using step [unfolded eqs y] by (auto split: Option.bind_splits)
      have ok1: "no_sub r1" using r1(2) ok by (auto split: sum.splits)
      note t1 = applyTip_inv [OF inv assms(3) r1(1) ok1]
      show ?thesis
      proof (cases r1)
        case (Inr x)
        then show ?thesis using IH [of H S U now sc "butlast rebase" m1 "(r, m2)"] r1(2) t1 ok by simp
      qed (use r1(2) t1 in auto)
    qed
    then show "?P H' S' U' now sc rebase m y" unfolding y by blast
  qed
  then show ?thesis using assms(2,4) by simp
qed

text \<open>The walk down to the best chain ends on it.\<close>

lemma rebase_loop_best:
  assumes "rebase_loop H S s base rb = Some (Inr (h, rb'))" "entries s i = Some c" "b_Header (cp_Block c) = base"
    and zero: "\<And>i c. entries s i = Some c \<Longrightarrow> Block_Index H (cp_Block c) = zero_index \<Longrightarrow> zero_index \<in> set (best s)"
  shows "BlockHeader_Index H h \<in> set (best s)"
proof -
  let ?stored = "\<lambda>base. \<exists>i c. entries s i = Some c \<and> b_Header (cp_Block c) = base"
  let ?P = "\<lambda>H' S' s' base (rb :: chain_index list) (y :: manager_error + block_header \<times> chain_index list). H' = H \<longrightarrow> S' = S \<longrightarrow> s' = s \<longrightarrow> ?stored base \<longrightarrow>
    (\<forall>h rb'. y = Inr (h, rb') \<longrightarrow> BlockHeader_Index H h \<in> set (best s))"
  have "?P H S s base rb (Inr (h, rb'))"
  proof (rule rebase_loop.raw_induct [of ?P, OF _ assms(1)])
    fix rec :: "hashfn \<Rightarrow> 's manager_store \<Rightarrow> 's \<Rightarrow> block_header \<Rightarrow> chain_index list
      \<Rightarrow> (manager_error + block_header \<times> chain_index list) option"
      and H' S' s' base rb y
    assume IH: "\<And>H' S' s' base rb y. rec H' S' s' base rb = Some y \<Longrightarrow> ?P H' S' s' base rb y"
      and step: "do {
        r \<leftarrow> ms_BestIndex S' s' (bh_Height base);
        (case r of
           Inl e \<Rightarrow>
             if e \<noteq> ErrUnknownIndex then Some (Inl (ErrStoreFailed e))
             else if zero_index = BlockHeader_Index H' base then Some (Inr (base, rb))
             else (case ms_Header S' s' (BlockHeader_ParentIndex base) of
                     Inl e \<Rightarrow> Some (Inl (ErrStoreFailed e))
                   | Inr h \<Rightarrow> rec H' S' s' h (rb @ [BlockHeader_Index H' base]))
         | Inr index \<Rightarrow>
             if index = BlockHeader_Index H' base then Some (Inr (base, rb))
             else (case ms_Header S' s' (BlockHeader_ParentIndex base) of
                     Inl e \<Rightarrow> Some (Inl (ErrStoreFailed e))
                   | Inr h \<Rightarrow> rec H' S' s' h (rb @ [BlockHeader_Index H' base])))
      } = Some y"
    have "BlockHeader_Index H h \<in> set (best s)"
      if eqs: "H' = H" "S' = S" "s' = s" and st: "?stored base" and y: "y = Inr (h, rb')" for h rb'
    proof -
      obtain r where r: "ms_BestIndex S s (bh_Height base) = Some r" using step [unfolded eqs] by (auto split: Option.bind_splits)
      consider "base = h" "BlockHeader_Index H base = (case r of Inl _ \<Rightarrow> zero_index | Inr index \<Rightarrow> index)"
        | h1 where "ms_Header S s (BlockHeader_ParentIndex base) = Inr h1" "rec H S s h1 (rb @ [BlockHeader_Index H base]) = Some (Inr (h, rb'))"
        using step [unfolded eqs y] r by (auto split: sum.splits if_splits)
      then show ?thesis
      proof cases
        case 1
        obtain i c where "entries s i = Some c" "Block_Index H (cp_Block c) = BlockHeader_Index H base"
          using st by (auto simp: Block_Index_def)
        then show ?thesis using 1 zero r by (cases r) (auto dest: BestIndex_law)
      next
        case 2
        from Header_law [OF 2(1)] have "?stored h1" by auto
        then show ?thesis using IH [OF 2(2)] by blast
      qed
    qed
    then show "?P H' S' s' base rb y" by blast
  qed
  then show ?thesis using assms(2,3) by blast
qed

lemma reorgTo_inv:
  assumes inv: "inv c0 B m" and nb: "names_blocks H c0 B"
    and re: "Manager_reorgTo H S U now sc m = Some (r, m')" and ok: "no_sub r"
  shows "inv c0 B m' \<and> m_chains m' = m_chains m \<and> entries (m_store m') = entries (m_store m)
    \<and> (r = Inr () \<longrightarrow> cs_Index (m_cs m') = ScratchChain_ValidTip sc)"
proof (cases "ms_Header S (m_store m) (ScratchChain_Base sc)")
  case (Inl e)
  then show ?thesis using re inv by (auto simp: Manager_reorgTo_def)
next
  case (Inr h)
  then obtain rl where rl: "rebase_loop H S (m_store m) h [] = Some rl"
    using re by (auto simp: Manager_reorgTo_def split: Option.bind_splits)
  show ?thesis
  proof (cases rl)
    case (Inl e)
    then show ?thesis using re inv Inr rl by (auto simp: Manager_reorgTo_def)
  next
    case (Inr br)
    obtain base rebase where br: "br = (base, rebase)" by (cases br)
    obtain c where c: "entries (m_store m) (ScratchChain_Base sc) = Some c" "b_Header (cp_Block c) = h"
      using Header_law [OF \<open>ms_Header S (m_store m) (ScratchChain_Base sc) = Inr h\<close>] by blast
    have zero: "zero_index \<in> set (best (m_store m))"
      if d: "entries (m_store m) i = Some d" "Block_Index H (cp_Block d) = zero_index" for i d
    proof -
      have "i = zero_index" using inv_entry(2) [OF inv d(1)] d(2) by simp
      then have "i = cs_Index (cp_State c0)"
        using inv_entry(3) [OF inv d(1)] d(2) nb unfolding names_blocks_def by blast
      then show ?thesis
        using inv \<open>i = zero_index\<close> unfolding mgr_inv_def best_valid_def by (metis hd_in_set)
    qed
    have target: "BlockHeader_Index H base \<in> set (best (m_store m))"
      by (rule rebase_loop_best [OF rl [unfolded Inr br] c zero])
    obtain r1 m1 where r1: "revert_loop H S U (BlockHeader_Index H base) m = Some (r1, m1)"
      "(case r1 of Inl e \<Rightarrow> Some (Inl e, m1) | Inr _ \<Rightarrow> apply_loop H S U now sc rebase m1) = Some (r, m')"
      using re rl Inr br \<open>ms_Header S (m_store m) (ScratchChain_Base sc) = Inr h\<close>
      by (auto simp: Manager_reorgTo_def split: Option.bind_splits)
    have ok1: "no_sub r1" using r1(2) ok by (auto split: sum.splits)
    note t1 = revert_loop_inv [OF r1(1) inv nb ok1 target]
    show ?thesis
    proof (cases r1)
      case (Inr x)
      then have "apply_loop H S U now sc rebase m1 = Some (r, m')" using r1(2) by simp
      from apply_loop_inv [OF this _ nb ok] t1 show ?thesis by auto
    qed (use r1(2) t1 in auto)
  qed
qed

text \<open>Storing a valid block.\<close>

lemma at_state_add:
  assumes "at_state E s" "\<And>i d. E i = Some d \<Longrightarrow> \<exists>d'. E' i = Some d' \<and> cp_State d' = cp_State d"
  shows "at_state E' s"
  using assms unfolding at_state_def by metis

lemma store_child_inv:
  assumes inv: "inv c0 B m" and nb: "names_blocks H c0 B" and b: "b \<in> B"
    and st: "at_state (entries (m_store m)) s" and v: "ValidateBlock H verify s b = Some (Inr ())"
    and au: "ApplyBlock H s b = Some au"
    and add: "ms_AddCheckpoint S (m_store m) \<lparr>cp_Block = b, cp_State = au_State au\<rparr> = Some (Inr s')"
  shows "inv c0 B (m\<lparr>m_store := s'\<rparr>) \<and> best s' = best (m_store m)
    \<and> cs_Index (au_State au) = Block_Index H b \<and> Block_Index H b \<noteq> cs_Index (cp_State c0)
    \<and> entries s' (Block_Index H b) = Some \<lparr>cp_Block = b, cp_State = au_State au\<rparr>
    \<and> at_state (entries s') (au_State au)
    \<and> (\<forall>i d. entries (m_store m) i = Some d \<longrightarrow> (\<exists>d'. entries s' i = Some d' \<and> cp_State d' = cp_State d))
    \<and> (\<forall>i d. entries s' i = Some d \<longrightarrow> d = \<lparr>cp_Block = b, cp_State = au_State au\<rparr> \<or> entries (m_store m) i = Some d)
    \<and> BlockHeader_ParentIndex (b_Header b) = cs_Index s"
proof -
  let ?c = "\<lparr>cp_Block = b, cp_State = au_State au\<rparr>" and ?E = "entries (m_store m)"
  obtain p where p: "?E (cs_Index s) = Some p" "cp_State p = s" using st by (auto simp: at_state_def)
  have pi: "BlockHeader_ParentIndex (b_Header b) = cs_Index s"
    using v by (cases "cs_Index s") (simp add: ValidateBlock_valid validateHeader_valid BlockHeader_ParentIndex_def)
  have child: "valid_child H verify p ?c" using p pi v au by (simp add: valid_child_def)
  have law: "entries s' = ?E(cs_Index (au_State au) \<mapsto> ?c)" "best s' = best (m_store m)"
    using AddCheckpoint_law [OF add] by simp_all
  have ev: "entries_valid H verify c0 B ?E" using inv by (simp add: mgr_inv_def)
  have E': "entries s' = ?E(cs_Index (cp_State ?c) \<mapsto> ?c)" using law by simp
  have cB: "cp_Block ?c \<in> B" "?E (BlockHeader_ParentIndex (b_Header (cp_Block ?c))) = Some p" using b p pi by simp_all
  note add1 = entries_valid_add(1) [OF ev nb cB child E']
  note add2 = entries_valid_add(2) [OF ev nb cB child E']
  have idx: "cs_Index (au_State au) = Block_Index H b"
  proof -
    have "entries s' (cs_Index (au_State au)) = Some ?c" by (simp add: law)
    then have "Block_Index H (cp_Block ?c) = cs_Index (au_State au)"
      using add1 unfolding entries_valid_def by blast
    then show ?thesis by simp
  qed
  have keep: "\<exists>d'. entries s' i = Some d' \<and> cp_State d' = cp_State d" if "?E i = Some d" for i d
    using add2 [OF that] by blast
  have bv: "best_valid ?E (cs_Index (cp_State c0)) (best (m_store m))" using inv by (simp add: mgr_inv_def)
  have "best_valid (entries s') (cs_Index (cp_State c0)) (best (m_store m))"
    by (rule best_valid_mono [OF bv]) (drule add2, blast)
  moreover have "at_state (entries s') t" if "at_state ?E t" for t
    by (rule at_state_add [OF that keep])
  ultimately have "inv c0 B (m\<lparr>m_store := s'\<rparr>)"
    using inv add1 law(2) by (simp add: mgr_inv_def)
  moreover have "Block_Index H b \<noteq> cs_Index (cp_State c0)" using nb b by (auto simp: names_blocks_def)
  ultimately show ?thesis using law idx keep pi by (simp add: at_state_def)
qed

text \<open>\<open>AddTipBlock\<close>\<close>

lemma commit_tip_inv:
  assumes inv: "inv c0 B m" and nb: "names_blocks H c0 B" and b: "b \<in> B"
    and v: "ValidateBlock H verify (m_cs m) b = Some (Inr ())"
    and com: "commit_tip H S U now m b = Some (r, m')" and ok: "no_sub r"
  shows "inv c0 B m' \<and> r = Inr () \<and> cs_Index (m_cs m') = Block_Index H b"
proof -
  obtain au where au: "ApplyBlock H (m_cs m) b = Some au"
    using com by (auto simp: commit_tip_def split: Option.bind_splits)
  obtain s1 where s1: "ms_AddCheckpoint S (m_store m) \<lparr>cp_Block = b, cp_State = au_State au\<rparr> = Some (Inr s1)"
    using AddCheckpoint_ok by blast
  have st: "at_state (entries (m_store m)) (m_cs m)" using inv by (simp add: mgr_inv_def)
  note add = store_child_inv [OF inv nb b st v au s1]
  obtain s2 where s2: "ms_ExtendBest S s1 (Block_Index H b) = Some (Inr s2)" using add ExtendBest_ok by fastforce
  note ext = ExtendBest_law [OF s2]
  let ?m = "m\<lparr>m_store := s2, m_cs := au_State au\<rparr>"
  obtain mc s3 t where fl: "flush_tip S now ?m = (Inr mc, ?m\<lparr>m_store := s3, m_lastFlush := t\<rparr>)"
    "entries s3 = entries s1" "best s3 = best (m_store m) @ [Block_Index H b]"
    using flush_tip_frame [of now ?m] ext add by auto
  let ?m3 = "?m\<lparr>m_store := s3, m_lastFlush := t\<rparr>"
  have n: "notify_apply U au b mc ?m3 = Some (r, m')"
    using com by (simp add: commit_tip_def au s1 s2 fl(1))
  have "\<exists>x. r = Inr x"
    using n ok by (auto simp: notify_apply_def split: Option.bind_splits option.splits)
  then have r: "r = Inr ()" by auto
  have "\<forall>u\<in>set (m_subscribers ?m3). follows u (m_cs m)" using inv by (simp add: mgr_inv_def)
  note f = notify_apply_follows [OF n [unfolded r] this v au]
  obtain us where us: "m' = ?m3\<lparr>m_subscribers := us\<rparr>" "\<forall>u\<in>set us. follows u (au_State au)"
    using f by metis
  have i1: "best_valid (entries s1) (cs_Index (cp_State c0)) (best (m_store m))"
    "last (best (m_store m)) = cs_Index (m_cs m)" "entries_valid H verify c0 B (entries s1)"
    "\<forall>sc\<in>set (m_chains m). at_state (entries s1) (sc_ts sc)"
    using add inv unfolding mgr_inv_def by auto
  have "best_valid (entries s1) (cs_Index (cp_State c0)) (best (m_store m) @ [Block_Index H b])"
    using add i1(2) by (intro best_valid_snoc [OF i1(1)]) auto
  then show ?thesis
    using us i1(3,4) add r by (simp add: mgr_inv_def fl(2,3))
qed

lemma AddTipBlock_inv:
  assumes inv: "inv c0 B m" and nb: "names_blocks H c0 B" and b: "b \<in> B"
    and add: "Manager_AddTipBlock H verify S U now m b = Some (r, m')" and ok: "no_sub r"
  shows "inv c0 B m' \<and> (r = Inr () \<longrightarrow> cs_Index (m_cs m') = Block_Index H b) \<and> (\<forall>e. r = Inl e \<longrightarrow> m' = m)"
proof (cases "m' = m \<and> (\<exists>e. r = Inl e)")
  case True
  then show ?thesis using inv by auto
next
  case False
  then have "bh_ParentID (b_Header b) = ci_ID (cs_Index (m_cs m))"
    "\<not> MaxFutureTimestamp (m_cs m) now < bh_Timestamp (b_Header b)"
    using add by (auto simp: Manager_AddTipBlock_def split: if_splits Option.bind_splits)
  then obtain v where v: "ValidateBlock H verify (m_cs m) b = Some v"
    "(case v of Inl e \<Rightarrow> Some (Inl (ErrInvalidTip e), m) | Inr _ \<Rightarrow> commit_tip H S U now m b) = Some (r, m')"
    using add by (auto simp: Manager_AddTipBlock_def split: Option.bind_splits)
  then obtain x where x: "v = Inr x" using False by (cases v) auto
  then have "ValidateBlock H verify (m_cs m) b = Some (Inr ())" "commit_tip H S U now m b = Some (r, m')"
    using v by simp_all
  from commit_tip_inv [OF inv nb b this ok] show ?thesis by auto
qed

text \<open>\<open>AddBlocks\<close>\<close>

text \<open>The rule of the fork choice: no stored state has more work than the tip.\<close>

lemma heaviest_switch:
  assumes "heaviest E s" "inv c0 B m" "entries (m_store m) (cs_Index (m_cs m)) = Some c"
    "\<And>i d. entries (m_store m) i = Some d \<Longrightarrow> d = c \<or> E i = Some d"
    "work_nat (cs_TotalWork s) \<le> work_nat (cs_TotalWork (cp_State c))"
  shows "heaviest (entries (m_store m)) (m_cs m)"
proof -
  have "at_state (entries (m_store m)) (m_cs m)" using assms(2) by (simp add: mgr_inv_def)
  then have "cp_State c = m_cs m" using assms(3) by (simp add: at_state_def)
  moreover have "work_nat (cs_TotalWork (cp_State d)) \<le> work_nat (cs_TotalWork (cp_State c))"
    if d: "entries (m_store m) i = Some d" for i d
    using assms(4) [OF d]
  proof
    assume "E i = Some d"
    then have "work_nat (cs_TotalWork (cp_State d)) \<le> work_nat (cs_TotalWork s)" using assms(1) by (simp add: heaviest_def)
    then show ?thesis using assms(5) by linarith
  qed simp
  ultimately show ?thesis by (auto simp: heaviest_def)
qed

lemma set_chain_inv:
  assumes "inv c0 B m" "at_state (entries (m_store m)) (sc_ts sc)"
  shows "inv c0 B (m\<lparr>m_chains := (m_chains m)[i := sc]\<rparr>)"
  using assms by (auto simp: mgr_inv_def dest: subsetD [OF List.set_update_subset_insert])

lemma add_blocks_loop_inv:
  assumes "inv c0 B m" "names_blocks H c0 B" "set bs \<subseteq> B"
    "add_blocks_loop H verify S U now i m bs = Some (r, m')" "no_sub r"
  shows "inv c0 B m' \<and> (heaviest (entries (m_store m)) (m_cs m) \<longrightarrow> (\<forall>e. r \<noteq> Inl (ErrReorg e)) \<longrightarrow>
    heaviest (entries (m_store m')) (m_cs m'))"
  using assms
proof (induction bs arbitrary: m)
  case Nil
  then show ?case by simp
next
  case (Cons b bs)
  note nb = Cons.prems(2) and ok = Cons.prems(5)
  obtain sc where sc: "at (m_chains m) i = Some sc"
    using Cons.prems(4) by (auto split: Option.bind_splits)
  then have scin: "sc \<in> set (m_chains m)" by (auto simp: at_def split: if_splits)
  obtain ra where ra: "ScratchChain_ApplyBlock H verify sc b = Some ra"
    using Cons.prems(4) sc by (auto split: Option.bind_splits)
  show ?case
  proof (cases ra)
    case (Inl e)
    then show ?thesis using Cons.prems(1,4) sc ra by simp
  next
    case (Inr csc)
    obtain c sc' where csc: "csc = (c, sc')" by (cases csc)
    obtain au where au: "ValidateBlock H verify (sc_ts sc) b = Some (Inr ())" "ApplyBlock H (sc_ts sc) b = Some au"
      "c = \<lparr>cp_Block = b, cp_State = au_State au\<rparr>" "sc' = sc\<lparr>sc_ts := au_State au\<rparr>"
      using ra Inr csc
      by (auto simp: ScratchChain_ApplyBlock_def split: if_splits option.splits sum.splits Option.bind_splits)
    let ?m1 = "m\<lparr>m_chains := (m_chains m)[i := sc']\<rparr>"
    obtain s1 where s1: "ms_AddCheckpoint S (m_store m) c = Some (Inr s1)" using AddCheckpoint_ok by blast
    have st: "at_state (entries (m_store m)) (sc_ts sc)" using Cons.prems(1) scin by (simp add: mgr_inv_def)
    have b: "b \<in> B" "set bs \<subseteq> B" using Cons.prems(3) by simp_all
    note add = store_child_inv [OF Cons.prems(1) nb b(1) st au(1,2) s1 [unfolded au(3)]]
    let ?m2 = "?m1\<lparr>m_store := s1\<rparr>"
    have "inv c0 B ((m\<lparr>m_store := s1\<rparr>)\<lparr>m_chains := (m_chains (m\<lparr>m_store := s1\<rparr>))[i := sc']\<rparr>)"
      using add by (intro set_chain_inv) (simp_all add: au(4))
    moreover have "(m\<lparr>m_store := s1\<rparr>)\<lparr>m_chains := (m_chains (m\<lparr>m_store := s1\<rparr>))[i := sc']\<rparr> = ?m2" by (cases m) simp
    ultimately have inv2: "inv c0 B ?m2" by metis
    have step: "(if Work_Cmp (cs_TotalWork (cp_State c)) (cs_TotalWork (m_cs ?m2)) \<le> 0
         then add_blocks_loop H verify S U now i ?m2 bs
         else if cs_Index (m_cs ?m2) \<noteq> BlockHeader_ParentIndex (b_Header (cp_Block c)) then do {
           (r, m) \<leftarrow> Manager_reorgTo H S U now sc' ?m2;
           (case r of Inl e \<Rightarrow> Some (Inl (ErrReorg e), m) | Inr _ \<Rightarrow> add_blocks_loop H verify S U now i m bs)
         }
         else do {
           (r, m) \<leftarrow> Manager_applyTip H S U now ?m2 (cs_Index (cp_State c));
           (case r of Inl e \<Rightarrow> Some (Inl e, m) | Inr _ \<Rightarrow> add_blocks_loop H verify S U now i m bs)
         }) = Some (r, m')"
      using Cons.prems(4) by (simp add: sc ra Inr csc s1 Let_def cong: if_cong)
    have new: "entries (m_store ?m2) (cs_Index (cp_State c)) = Some c"
      "\<And>i d. entries (m_store ?m2) i = Some d \<Longrightarrow> d = c \<or> entries (m_store m) i = Some d"
      using add by (simp_all add: au(3))
    consider "add_blocks_loop H verify S U now i ?m2 bs = Some (r, m')"
        "work_nat (cs_TotalWork (cp_State c)) \<le> work_nat (cs_TotalWork (m_cs m))"
      | r2 m3 where "Manager_reorgTo H S U now sc' ?m2 = Some (r2, m3)"
          "(case r2 of Inl e \<Rightarrow> Some (Inl (ErrReorg e), m3) | Inr _ \<Rightarrow> add_blocks_loop H verify S U now i m3 bs) = Some (r, m')"
          "work_nat (cs_TotalWork (m_cs m)) \<le> work_nat (cs_TotalWork (cp_State c))"
      | r2 m3 where "Manager_applyTip H S U now ?m2 (cs_Index (cp_State c)) = Some (r2, m3)"
          "(case r2 of Inl e \<Rightarrow> Some (Inl e, m3) | Inr _ \<Rightarrow> add_blocks_loop H verify S U now i m3 bs) = Some (r, m')"
          "work_nat (cs_TotalWork (m_cs m)) \<le> work_nat (cs_TotalWork (cp_State c))"
      using step by (auto simp: Work_Cmp_nat split: if_splits Option.bind_splits)
    then show ?thesis
    proof cases
      case 1
      have "heaviest (entries (m_store ?m2)) (m_cs ?m2)" if "heaviest (entries (m_store m)) (m_cs m)"
        using that new(2) 1(2) unfolding heaviest_def by fastforce
      then show ?thesis using Cons.IH [OF inv2 nb b(2) 1(1) ok] by blast
    next
      case 2
      have "no_sub r2" using 2(2) ok by (auto split: sum.splits)
      note inv3 = reorgTo_inv [OF inv2 nb 2(1) this]
      show ?thesis
      proof (cases r2)
        case (Inr x)
        then have "entries (m_store m3) (cs_Index (m_cs m3)) = Some c" and E3: "entries (m_store m3) = entries (m_store ?m2)"
          using inv3 new(1) by (simp_all add: ScratchChain_ValidTip_def au(3,4))
        then have "heaviest (entries (m_store m3)) (m_cs m3)" if "heaviest (entries (m_store m)) (m_cs m)"
          using inv3 new(2) by (intro heaviest_switch [OF that _ _ _ 2(3)]) auto
        then show ?thesis using Cons.IH [of m3, OF _ nb b(2) _ ok] inv3 2(2) Inr by auto
      qed (use 2(2) inv3 in auto)
    next
      case 3
      have "no_sub r2" using 3(2) ok by (auto split: sum.splits)
      note inv3 = applyTip_inv [OF inv2 nb 3(1) this]
      then have r2: "r2 = Inr ()" and "entries (m_store m3) (cs_Index (m_cs m3)) = Some c"
        and E3: "entries (m_store m3) = entries (m_store ?m2)"
        using new(1) by auto
      then have "heaviest (entries (m_store m3)) (m_cs m3)" if "heaviest (entries (m_store m)) (m_cs m)"
        using inv3 new(2) by (intro heaviest_switch [OF that _ _ _ 3(3)]) auto
      then show ?thesis using Cons.IH [of m3, OF _ nb b(2) _ ok] inv3 3(2) r2 by auto
    qed
  qed
qed

lemma AddBlocks_inv:
  assumes inv: "inv c0 B m" and nb: "names_blocks H c0 B" and bs: "set blocks \<subseteq> B"
    and add: "Manager_AddBlocks H verify S U now m blocks = Some (r, m')" and ok: "no_sub r"
  shows "inv c0 B m' \<and> (heaviest (entries (m_store m)) (m_cs m) \<longrightarrow> (\<forall>e. r \<noteq> Inl (ErrReorg e)) \<longrightarrow>
    heaviest (entries (m_store m')) (m_cs m'))
    \<and> (\<forall>chain. r = Inr (Some chain) \<longrightarrow> at_state (entries (m_store m')) (sc_ts chain))"
proof (cases "m' = m \<and> (\<forall>chain. r \<noteq> Inr (Some chain))")
  case False
  then have ne: "blocks \<noteq> []" using add by (auto simp: Manager_AddBlocks_def)
  then obtain i where i: "find_block_chain (Block_Index H (hd blocks)) 0 (m_chains m) = Some (Some i)"
    using False add by (auto simp: Manager_AddBlocks_def Let_def split: Option.bind_splits option.splits)
  let ?k = "unat (ci_Height (ScratchChain_ValidTip (m_chains m ! i)) - (ci_Height (Block_Index H (hd blocks)) - 1))"
  have k: "\<not> length blocks < ?k"
    using ne i add by (auto simp: Manager_AddBlocks_def Let_def split: if_splits)
  obtain r1 m1 where r1: "add_blocks_loop H verify S U now i m (drop ?k blocks) = Some (r1, m1)"
    "(case r1 of Inl e \<Rightarrow> Some (Inl e, m1)
      | Inr _ \<Rightarrow> do { chain \<leftarrow> at (m_chains m1) i;
          Some (Inr (Some chain), if ScratchChain_FullyValidated chain then Manager_discardChain i m1 else m1) }) = Some (r, m')"
    using ne i k add by (auto simp: Manager_AddBlocks_def Let_def split: Option.bind_splits)
  have ok1: "no_sub r1" using r1(2) ok by (auto split: sum.splits)
  have sub: "set (drop ?k blocks) \<subseteq> B" using bs set_drop_subset [of ?k blocks] by blast
  note inv1 = add_blocks_loop_inv [OF inv nb sub r1(1) ok1]
  have m': "m' = m1 \<or> m' = Manager_discardChain i m1"
    using r1(2) by (auto split: sum.splits Option.bind_splits if_splits)
  moreover have "inv c0 B (Manager_discardChain i m1)"
    using inv1 by (auto simp: mgr_inv_def Manager_discardChain_def dest: in_set_takeD in_set_dropD)
  moreover have "m_store m' = m_store m1" "m_cs m' = m_cs m1" using m' by (auto simp: Manager_discardChain_def)
  moreover have "at_state (entries (m_store m1)) (sc_ts chain)" if "r = Inr (Some chain)" for chain
  proof -
    have "chain \<in> set (m_chains m1)"
      using r1(2) that by (auto simp: at_def split: sum.splits Option.bind_splits if_splits)
    then show ?thesis using inv1 by (simp add: mgr_inv_def)
  qed
  moreover have "\<forall>e. r1 \<noteq> Inl (ErrReorg e)" if "\<forall>e. r \<noteq> Inl (ErrReorg e)" using r1(2) that by (auto split: sum.splits)
  ultimately show ?thesis using inv1 by auto
qed (use inv in simp)

text \<open>\<open>AddHeaders\<close> changes scratch chains only, and of these only the headers.\<close>

lemma append_headers_ts: "append_headers H limit sc hs = Some (r, sc') \<Longrightarrow> sc_ts sc' = sc_ts sc"
proof (induction hs arbitrary: sc)
  case (Cons h hs)
  show ?case
  proof (cases "limit < bh_Timestamp h")
    case False
    then obtain ra where ra: "ScratchChain_AppendHeader H sc h = Some ra"
      "(case ra of Inl e \<Rightarrow> Some (Inl (ErrInvalidHeader e), sc) | Inr sc \<Rightarrow> append_headers H limit sc hs) = Some (r, sc')"
      using Cons.prems by (auto split: Option.bind_splits)
    then show ?thesis
      using Cons.IH by (cases ra) (auto simp: ScratchChain_AppendHeader_def split: option.splits sum.splits Option.bind_splits)
  qed (use Cons.prems in auto)
qed simp

lemma extend_chain_inv:
  assumes "inv c0 B m" "extend_chain H now i hs m = Some (r, m')"
  shows "inv c0 B m'"
proof -
  obtain sc sc' where sc: "at (m_chains m) i = Some sc" "sc_ts sc' = sc_ts sc" "m' = m\<lparr>m_chains := (m_chains m)[i := sc']\<rparr>"
    using assms(2) by (auto simp: extend_chain_def Let_def split: Option.bind_splits sum.splits dest!: append_headers_ts)
  then have "at_state (entries (m_store m)) (sc_ts sc')"
    using assms(1) by (auto simp: mgr_inv_def at_def split: if_splits)
  then show ?thesis unfolding sc(3) by (rule set_chain_inv [OF assms(1)])
qed

lemma AddHeaders_inv:
  assumes inv: "inv c0 B m" and add: "Manager_AddHeaders H S now m headers = Some (r, m')"
  shows "inv c0 B m'"
proof (cases "m' = m")
  case False
  then consider i k where "extend_chain H now i (drop k headers) m = Some (r, m')"
    | "new_chain_headers H S now headers m = Some (r, m')"
    using add by (auto simp: Manager_AddHeaders_def Let_def split: if_splits Option.bind_splits option.splits)
  then show ?thesis
  proof cases
    case 1
    then show ?thesis by (rule extend_chain_inv [OF inv])
  next
    case 2
    then obtain base h hs c where c: "ms_Checkpoint S (m_store m) (BlockHeader_Index H base) = Inr c"
      "extend_chain H now (length (m_chains m)) (h # hs) (m\<lparr>m_chains := m_chains m @ [NewScratchChain (cp_State c)]\<rparr>) = Some (r, m')"
      using False by (auto simp: new_chain_headers_def split: sum.splits list.splits)
    note e = Checkpoint_law [OF c(1)]
    have "at_state (entries (m_store m)) (cp_State c)"
      using e inv_entry(1) [OF inv e] by (simp add: at_state_def)
    then have "inv c0 B (m\<lparr>m_chains := m_chains m @ [NewScratchChain (cp_State c)]\<rparr>)"
      using inv by (simp add: mgr_inv_def NewScratchChain_def)
    then show ?thesis using c(2) by (rule extend_chain_inv)
  qed
qed (use inv in simp)

text \<open>\<open>AddSubscriber\<close>: whatever path is found leads from the subscriber's tip to the manager's.\<close>

lemma rewind_to_trail:
  assumes "rewind_to S s h a acc = Some (Inr (a', acc'))"
  shows "\<exists>ps. acc' = acc @ ps \<and> trail (entries s) a ps a'"
proof -
  let ?P = "\<lambda>S' s' h a acc (y :: store_error + chain_index \<times> chain_index list). S' = S \<longrightarrow> s' = s \<longrightarrow>
    (\<forall>a' acc'. y = Inr (a', acc') \<longrightarrow> (\<exists>ps. acc' = acc @ ps \<and> trail (entries s) a ps a'))"
  have "?P S s h a acc (Inr (a', acc'))"
  proof (rule rewind_to.raw_induct [of ?P, OF _ assms])
    fix rec :: "'s manager_store \<Rightarrow> 's \<Rightarrow> u64 \<Rightarrow> chain_index \<Rightarrow> chain_index list \<Rightarrow> (store_error + chain_index \<times> chain_index list) option"
      and S' s' h a acc y
    assume IH: "\<And>S' s' h a acc y. rec S' s' h a acc = Some y \<Longrightarrow> ?P S' s' h a acc y"
      and step: "(if h < ci_Height a then
          (case rewind S' s' a of Inl e \<Rightarrow> Some (Inl e) | Inr a' \<Rightarrow> rec S' s' h a' (acc @ [a]))
        else Some (Inr (a, acc))) = Some y"
    have "\<exists>ps. acc' = acc @ ps \<and> trail (entries s) a ps a'"
      if eqs: "S' = S" "s' = s" and y: "y = Inr (a', acc')" for a' acc'
    proof (cases "h < ci_Height a")
      case True
      then obtain a1 where a1: "rewind S s a = Inr a1" "rec S s h a1 (acc @ [a]) = Some y"
        using step [unfolded eqs] y by (auto split: sum.splits)
      then obtain ps where "acc' = (acc @ [a]) @ ps" "trail (entries s) a1 ps a'" using IH [OF a1(2)] y by blast
      moreover have "entry_parent (entries s) a = Some a1" using a1(1) by (simp add: rewind_parent split: option.splits)
      ultimately show ?thesis by (intro exI [of _ "a # ps"]) simp
    qed (use step y in auto)
    then show "?P S' s' h a acc y" by blast
  qed
  then show ?thesis by simp
qed

lemma rewind_both_trail:
  assumes "rewind_both S s a b rs as = Some (Inr (rs', as'))"
  shows "\<exists>ps qs c. rs' = rs @ ps \<and> as' = as @ qs \<and> trail (entries s) a ps c \<and> trail (entries s) b qs c"
proof -
  let ?P = "\<lambda>S' s' a b rs as (y :: store_error + chain_index list \<times> chain_index list). S' = S \<longrightarrow> s' = s \<longrightarrow>
    (\<forall>rs' as'. y = Inr (rs', as') \<longrightarrow>
       (\<exists>ps qs c. rs' = rs @ ps \<and> as' = as @ qs \<and> trail (entries s) a ps c \<and> trail (entries s) b qs c))"
  have "?P S s a b rs as (Inr (rs', as'))"
  proof (rule rewind_both.raw_induct [of ?P, OF _ assms])
    fix rec :: "'s manager_store \<Rightarrow> 's \<Rightarrow> chain_index \<Rightarrow> chain_index \<Rightarrow> chain_index list \<Rightarrow> chain_index list
        \<Rightarrow> (store_error + chain_index list \<times> chain_index list) option"
      and S' s' a b rs as y
    assume IH: "\<And>S' s' a b rs as y. rec S' s' a b rs as = Some y \<Longrightarrow> ?P S' s' a b rs as y"
      and step: "(if a = b then Some (Inr (rs, as))
        else (case rewind S' s' a of
                Inl e \<Rightarrow> Some (Inl e)
              | Inr a' \<Rightarrow>
             (case rewind S' s' b of
                Inl e \<Rightarrow> Some (Inl e)
              | Inr b' \<Rightarrow> rec S' s' a' b' (rs @ [a]) (as @ [b])))) = Some y"
    have "\<exists>ps qs c. rs' = rs @ ps \<and> as' = as @ qs \<and> trail (entries s) a ps c \<and> trail (entries s) b qs c"
      if eqs: "S' = S" "s' = s" and y: "y = Inr (rs', as')" for rs' as'
    proof (cases "a = b")
      case False
      then obtain a1 b1 where ab: "rewind S s a = Inr a1" "rewind S s b = Inr b1" "rec S s a1 b1 (rs @ [a]) (as @ [b]) = Some y"
        using step [unfolded eqs] y by (auto split: sum.splits)
      then obtain ps qs c where "rs' = (rs @ [a]) @ ps" "as' = (as @ [b]) @ qs" "trail (entries s) a1 ps c" "trail (entries s) b1 qs c"
        using IH [OF ab(3)] y by blast
      moreover have "entry_parent (entries s) a = Some a1" "entry_parent (entries s) b = Some b1"
        using ab(1,2) by (simp_all add: rewind_parent split: option.splits)
      ultimately show ?thesis by (intro exI [of _ "a # ps"] exI [of _ "b # qs"] exI [of _ c]) simp
    qed (use step y in \<open>auto intro: exI [of _ "[]"]\<close>)
    then show "?P S' s' a b rs as y" by blast
  qed
  then show ?thesis by simp
qed

lemma reorgPath_trail:
  assumes "reorgPath S s a b = Some (Inr (rs, as))"
  shows "\<exists>c. trail (entries s) a rs c \<and> trail (entries s) b (rev as) c"
proof -
  obtain a' ps b' qs as' where p: "rewind_to S s (ci_Height b) a [] = Some (Inr (a', ps))"
    "rewind_to S s (ci_Height a') b [] = Some (Inr (b', qs))"
    "rewind_both S s a' b' ps qs = Some (Inr (rs, as'))" "as = rev as'"
    using assms by (auto simp: reorgPath_def split: Option.bind_splits sum.splits prod.splits)
  obtain ps' qs' c where c: "rs = ps @ ps'" "as' = qs @ qs'" "trail (entries s) a' ps' c" "trail (entries s) b' qs' c"
    using rewind_both_trail [OF p(3)] by blast
  have "trail (entries s) a ps a'" "trail (entries s) b qs b'"
    using rewind_to_trail [OF p(1)] rewind_to_trail [OF p(2)] by auto
  then show ?thesis using c p(4) by (auto simp: trail_append)
qed

lemma block_and_parent_inv:
  assumes inv: "inv c0 B m" and nb: "names_blocks H c0 B" and p: "entry_parent (entries (m_store m)) i = Some j"
    and bp: "block_and_parent S (m_store m) i = Inr (b, s)"
  shows "\<exists>c d. entries (m_store m) i = Some c \<and> entries (m_store m) j = Some d \<and> cp_State d = s \<and> cp_Block c = b
    \<and> valid_child H verify d c"
proof -
  obtain c d where c: "entries (m_store m) i = Some c" "entries (m_store m) (BlockHeader_ParentIndex (b_Header (cp_Block c))) = Some d"
    "b = cp_Block c" "s = cp_State d"
    using bp by (auto simp: block_and_parent_def split: sum.splits dest!: Checkpoint_law)
  have "i \<noteq> cs_Index (cp_State c0)"
  proof
    assume "i = cs_Index (cp_State c0)"
    then have "c = c0" using inv_base [OF inv] c(1) by simp
    then show False using base_parent_missing [OF inv nb] c(2) by simp
  qed
  from inv_entry(4) [OF inv c(1) this] c(2) have "valid_child H verify d c" by auto
  moreover have "j = BlockHeader_ParentIndex (b_Header (cp_Block c))" using p c(1) by (simp add: entry_parent_def)
  ultimately show ?thesis using c by blast
qed

lemma send_reverts_follows:
  assumes inv: "inv c0 B m" and nb: "names_blocks H c0 B"
  shows "trail (entries (m_store m)) a ps z \<Longrightarrow> entries (m_store m) a = Some c \<Longrightarrow> follows u (cp_State c) \<Longrightarrow>
    send_reverts H S (m_store m) U u ps = Some (None, u') \<Longrightarrow> \<exists>d. entries (m_store m) z = Some d \<and> follows u' (cp_State d)"
proof (induction ps arbitrary: a c u)
  case (Cons i ps)
  then obtain j where j: "i = a" "entry_parent (entries (m_store m)) a = Some j" "trail (entries (m_store m)) j ps z" by auto
  obtain b s where bp: "block_and_parent S (m_store m) a = Inr (b, s)" using Cons.prems(4) j(1) by (auto split: sum.splits)
  then obtain ru u1 where r: "RevertBlock H s b = Some ru" "sb_Revert U u \<lparr>cru_Update = ru, cru_Block = b\<rparr> = Some (None, u1)"
    "send_reverts H S (m_store m) U u1 ps = Some (None, u')"
    using Cons.prems(4) j(1) by (auto split: Option.bind_splits option.splits)
  obtain c1 d where d: "entries (m_store m) a = Some c1" "entries (m_store m) j = Some d" "cp_State d = s" "cp_Block c1 = b"
    "valid_child H verify d c1"
    using block_and_parent_inv [OF inv nb j(2) bp] by blast
  have "ValidateBlock H verify s b = Some (Inr ())" using d(3-5) by (auto simp: valid_child_def)
  from follows_revert [OF Cons.prems(3) this r(1,2)] have "follows u1 (cp_State d)" using d(3) by simp
  from Cons.IH [OF j(3) d(2) this r(3)] show ?case .
qed auto

lemma send_applies_append:
  "send_applies H S s U tip u (is @ js) =
    (case send_applies H S s U tip u is of
       None \<Rightarrow> None
     | Some (Some fault, u') \<Rightarrow> Some (Some fault, u')
     | Some (None, u') \<Rightarrow> send_applies H S s U tip u' js)"
  by (induction "is" arbitrary: u) (auto split: sum.splits Option.bind_splits option.splits)

lemma send_applies_follows:
  assumes inv: "inv c0 B m" and nb: "names_blocks H c0 B"
    and z: "entries (m_store m) z = Some d" "follows u (cp_State d)"
  shows "trail (entries (m_store m)) b ps z \<Longrightarrow> send_applies H S (m_store m) U tip u (rev ps) = Some (None, u') \<Longrightarrow>
    \<exists>c. entries (m_store m) b = Some c \<and> follows u' (cp_State c)"
proof (induction ps arbitrary: b u')
  case (Cons i ps)
  then obtain j where j: "i = b" "entry_parent (entries (m_store m)) b = Some j" "trail (entries (m_store m)) j ps z" by auto
  obtain u1 where u1: "send_applies H S (m_store m) U tip u (rev ps) = Some (None, u1)"
    "send_applies H S (m_store m) U tip u1 [b] = Some (None, u')"
    using Cons.prems(2) j(1) by (auto simp: send_applies_append split: option.splits prod.splits)
  from Cons.IH [OF j(3) u1(1)] obtain c where c: "entries (m_store m) j = Some c" "follows u1 (cp_State c)" by blast
  obtain blk s where bp: "block_and_parent S (m_store m) b = Inr (blk, s)" using u1(2) by (auto split: sum.splits)
  then obtain au where r: "ApplyBlock H s blk = Some au" "sb_Apply U u1 \<lparr>cau_Update = au, cau_Block = blk\<rparr> (b = tip) = Some (None, u')"
    using u1(2) by (auto split: Option.bind_splits option.splits)
  obtain c1 where d: "entries (m_store m) b = Some c1" "cp_State c = s" "cp_Block c1 = blk" "valid_child H verify c c1"
    using block_and_parent_inv [OF inv nb j(2) bp] c(1) by auto
  have v: "ValidateBlock H verify s blk = Some (Inr ())" "au_State au = cp_State c1"
    using d(2-4) r(1) by (auto simp: valid_child_def)
  have f: "follows u1 s" using c(2) d(2) by simp
  from follows_apply [OF f v(1) r(1,2)] d(1) v(2) show ?case by simp
qed (use z in auto)

lemma AddSubscriber_inv:
  assumes inv: "inv c0 B m" and nb: "names_blocks H c0 B"
    and u: "entries (m_store m) tip = Some c" "follows u (cp_State c)"
    and add: "Manager_AddSubscriber H S U m u tip = Some (r, m')"
  shows "inv c0 B m'"
proof (cases "m' = m")
  case False
  then obtain rs as u1 u2 where p: "reorgPath S (m_store m) tip (cs_Index (m_cs m)) = Some (Inr (rs, as))"
    "send_reverts H S (m_store m) U u rs = Some (None, u1)"
    "send_applies H S (m_store m) U (cs_Index (m_cs m)) u1 as = Some (None, u2)"
    "m' = m\<lparr>m_subscribers := m_subscribers m @ [u2]\<rparr>"
    using add by (auto simp: Manager_AddSubscriber_def split: Option.bind_splits sum.splits option.splits prod.splits)
  obtain z where z: "trail (entries (m_store m)) tip rs z" "trail (entries (m_store m)) (cs_Index (m_cs m)) (rev as) z"
    using reorgPath_trail [OF p(1)] by blast
  from send_reverts_follows [OF inv nb z(1) u p(2)] obtain d where d: "entries (m_store m) z = Some d" "follows u1 (cp_State d)"
    by blast
  have "\<exists>c. entries (m_store m) (cs_Index (m_cs m)) = Some c \<and> follows u2 (cp_State c)"
    using send_applies_follows [OF inv nb d z(2)] p(3) by simp
  then have "follows u2 (m_cs m)" using inv by (auto simp: mgr_inv_def at_state_def)
  then show ?thesis using inv p(4) by (simp add: mgr_inv_def)
qed (use inv in simp)

end

end
