(* ===== verification/Manager_Properties.thy ===== *)
theory Manager_Properties
  imports Manager_Invariant
begin

text \<open>The manager on the in-memory store with pools as subscribers: what holds after every run.\<close>

interpretation pool_manager: managed EphemeralStore es_entries es_best "PoolSubscriber H verify" H verify "pool_follows H verify"
  by unfold_locales

section \<open>Runs\<close>

text \<open>
  A manager starts on a base checkpoint. Blocks of \<open>B\<close> and any headers are offered, pools are subscribed at a
  stored tip, and the pools are used by others. A run stops where a subscriber reports an error.
\<close>

inductive mgr_reach :: "hashfn \<Rightarrow> verifier \<Rightarrow> checkpoint \<Rightarrow> block set \<Rightarrow> (ephemeral_store, pool) manager \<Rightarrow> bool"
  for H verify c0 B where
  start: "mgr_reach H verify c0 B (NewManager (NewEphemeralStore c0) (cp_State c0) now)"
| tip_block: "mgr_reach H verify c0 B m \<Longrightarrow> b \<in> B \<Longrightarrow>
    Manager_AddTipBlock H verify EphemeralStore (PoolSubscriber H verify) now m b = Some (r, m') \<Longrightarrow> no_sub r \<Longrightarrow>
    mgr_reach H verify c0 B m'"
| blocks: "mgr_reach H verify c0 B m \<Longrightarrow> set bs \<subseteq> B \<Longrightarrow>
    Manager_AddBlocks H verify EphemeralStore (PoolSubscriber H verify) now m bs = Some (r, m') \<Longrightarrow> no_sub r \<Longrightarrow>
    mgr_reach H verify c0 B m'"
| headers: "mgr_reach H verify c0 B m \<Longrightarrow> Manager_AddHeaders H EphemeralStore now m hs = Some (r, m') \<Longrightarrow>
    mgr_reach H verify c0 B m'"
| subscribe: "mgr_reach H verify c0 B m \<Longrightarrow> es_entries (m_store m) tip = Some c \<Longrightarrow> pool_follows H verify p (cp_State c) \<Longrightarrow>
    Manager_AddSubscriber H EphemeralStore (PoolSubscriber H verify) m p tip = Some (r, m') \<Longrightarrow>
    mgr_reach H verify c0 B m'"
| use_pool: "mgr_reach H verify c0 B m \<Longrightarrow> \<forall>p\<in>set ps. pool_reach H verify p \<and> p_cs p = m_cs m \<Longrightarrow>
    mgr_reach H verify c0 B (m\<lparr>m_subscribers := ps\<rparr>)"

lemma start_inv:
  assumes "names_blocks H c0 B"
  shows "pool_manager.inv H verify c0 B (NewManager (NewEphemeralStore c0) (cp_State c0) now)"
  using assms
  by (simp add: mgr_inv_def NewManager_def NewEphemeralStore_def entries_valid_def best_valid_def at_state_def names_blocks_def)

lemma mgr_reach_inv:
  assumes nb: "names_blocks H c0 B"
  shows "mgr_reach H verify c0 B m \<Longrightarrow> pool_manager.inv H verify c0 B m"
proof (induction rule: mgr_reach.induct)
  case (start now)
  show ?case by (rule start_inv [OF nb])
next
  case (tip_block m b now r m')
  then show ?case using pool_manager.AddTipBlock_inv [OF _ nb] by blast
next
  case (blocks m bs now r m')
  then show ?case using pool_manager.AddBlocks_inv [OF _ nb] by blast
next
  case (headers m now hs r m')
  then show ?case using pool_manager.AddHeaders_inv by blast
next
  case (subscribe m tip c p r m')
  then show ?case using pool_manager.AddSubscriber_inv [OF _ nb] by blast
next
  case (use_pool m ps)
  then show ?case by (simp add: mgr_inv_def pool_follows_def)
qed

section \<open>A concrete run\<close>

definition base_block :: block where
  "base_block =
     \<lparr>b_Header = \<lparr>bh_Height = 0, bh_ParentID = 0, bh_Nonce = 0, bh_Timestamp = 0, bh_MinerAddress = VoidAddress,
                  bh_Commitment = 0\<rparr>, b_Transactions = []\<rparr>"

definition base_state :: chain_state where
  "base_state = sample_state\<lparr>cs_Index := Block_Index sample_hash base_block\<rparr>"

definition base_checkpoint :: checkpoint where
  "base_checkpoint = \<lparr>cp_Block = base_block, cp_State = base_state\<rparr>"

definition next_block :: block where
  "next_block =
     \<lparr>b_Header = \<lparr>bh_Height = 1, bh_ParentID = ci_ID (Block_Index sample_hash base_block), bh_Nonce = 5, bh_Timestamp = 0,
                  bh_MinerAddress = VoidAddress, bh_Commitment = Commitment sample_hash base_state VoidAddress []\<rparr>,
      b_Transactions = []\<rparr>"

lemma base_state_header:
  "cs_Difficulty base_state = \<lparr>NumHashes = 1\<rparr>" "cs_Index base_state = Block_Index sample_hash base_block"
  "medianTimestamp base_state = Some zero_time" "ci_Height (Block_Index sample_hash base_block) = 0"
  using sample_state_header
  by (simp_all add: base_state_def medianTimestamp_def numTimestamps_def sample_state_def genesis_state_def
      Block_Index_def BlockHeader_Index_def base_block_def at_def)

lemma next_block_valid: "ValidateBlock sample_hash sample_verify base_state next_block = Some (Inr ())"
proof -
  have t: "HashRequiringWork (cs_Difficulty base_state) = Some (- 1)"
    by (simp add: HashRequiringWork_def base_state_header)
  have nz: "BlockHeader_ID sample_hash (b_Header next_block) \<noteq> 0" by (simp add: BlockHeader_ID_def HashBytes_def)
  obtain w where w: "WorkRequiredForHash (BlockHeader_ID sample_hash (b_Header next_block)) = Some w"
    using nz by (simp add: WorkRequiredForHash_eq)
  have "NumHashes (cs_Difficulty base_state) \<noteq> 0" by (simp add: base_state_header)
  from MeetsTarget_iff [OF this nz t w]
  have "validateHeader sample_hash base_state (b_Header next_block) = valid"
    using w by (simp add: validateHeader_valid base_state_header BlockID_MeetsTarget_def)
      (simp add: next_block_def zero_time_def unix_to_internal_def)
  moreover have "ValidateTransactionSet sample_hash sample_verify base_state [] = valid"
    by (simp add: ValidateTransactionSet_def validateEphemeralOutputs_def noDoubleSpends_def MaxBlockWeight_def BlockWeight_def)
  ultimately show ?thesis by (simp add: ValidateBlock_valid next_block_def)
qed

lemma next_block_applies: "\<exists>au. ApplyBlock sample_hash base_state next_block = Some au"
proof -
  have rep: "state_repr sample_hash sample_ledger [] base_state"
    using sample_state_represents by (simp add: state_repr_def base_state_def)
  have acc: "acc_repr sample_hash sample_ledger (cs_Elements base_state)" using rep by (simp add: state_repr_def)
  have p: "spent_parents next_block = []" by (simp add: spent_parents_def block_inputs_def next_block_def)
  have inj: "inj_on sample_hash (set (block_preimages sample_hash sample_ledger next_block))"
    by (simp add: block_preimages_def p ledger_preimages_def forest_preimages_single sample_ledger_def)
  obtain c where "BlockReward base_state = Some c" using BlockReward_nat by blast
  then have "length sample_ledger + length (new_elements sample_hash base_state next_block) < 2 ^ 62"
    by (simp add: new_elements_def createdInBlock_def next_block_def sample_ledger_def)
  then show ?thesis
    using ApplyBlock_refines [OF rep block_ok_if_valid [OF acc next_block_valid inj]] by auto
qed

lemma next_names: "names_blocks sample_hash base_checkpoint {next_block}"
proof -
  have h: "ci_Height (Block_Index sample_hash next_block) = 1"
    by (simp add: Block_Index_def BlockHeader_Index_def next_block_def)
  then have "Block_Index sample_hash next_block \<noteq> Block_Index sample_hash base_block"
    "Block_Index sample_hash next_block \<noteq> zero_index"
    "Block_Index sample_hash next_block \<noteq> BlockHeader_ParentIndex (b_Header base_block)"
    using base_state_header(4)
    by (metis zero_neq_one, auto simp: zero_index_def BlockHeader_ParentIndex_def base_block_def)
  then show ?thesis by (simp add: names_blocks_def base_checkpoint_def base_state_header)
qed

text \<open>A new pool is subscribed at the base and the block arrives.\<close>

definition run_start :: "(ephemeral_store, pool) manager" where
  "run_start = NewManager (NewEphemeralStore base_checkpoint) base_state 0"

definition run_subscribed :: "(ephemeral_store, pool) manager" where
  "run_subscribed = run_start\<lparr>m_subscribers := [Pool_New base_state]\<rparr>"

lemma run_subscribe:
  "Manager_AddSubscriber sample_hash EphemeralStore (PoolSubscriber sample_hash sample_verify) run_start (Pool_New base_state)
     (cs_Index base_state) = Some (Inr (), run_subscribed)"
  by (simp add: Manager_AddSubscriber_def reorgPath_def rewind_to.simps rewind_both.simps run_start_def NewManager_def run_subscribed_def)

lemma run_subscribed_reach: "mgr_reach sample_hash sample_verify base_checkpoint {next_block} run_subscribed"
proof (rule mgr_reach.subscribe [OF _ _ _ run_subscribe])
  show "mgr_reach sample_hash sample_verify base_checkpoint {next_block} run_start"
    using mgr_reach.start [of sample_hash sample_verify base_checkpoint "{next_block}" 0]
    by (simp add: run_start_def base_checkpoint_def)
  show "es_entries (m_store run_start) (cs_Index base_state) = Some base_checkpoint"
    by (simp add: run_start_def NewManager_def NewEphemeralStore_def base_checkpoint_def)
  show "pool_follows sample_hash sample_verify (Pool_New base_state) (cp_State base_checkpoint)"
    by (simp add: pool_follows_def pool_reach.new base_checkpoint_def) (simp add: Pool_New_def)
qed

lemma run_block:
  "\<exists>m'. Manager_AddTipBlock sample_hash sample_verify EphemeralStore (PoolSubscriber sample_hash sample_verify) 0 run_subscribed next_block
     = Some (Inr (), m') \<and> es_best (m_store m') = [cs_Index base_state, Block_Index sample_hash next_block]"
proof -
  obtain au where au: "ApplyBlock sample_hash base_state next_block = Some au" using next_block_applies by blast
  have m: "m_cs run_subscribed = base_state" "m_store run_subscribed = NewEphemeralStore base_checkpoint"
    "m_subscribers run_subscribed = [Pool_New base_state]" "m_lastFlush run_subscribed = 0"
    by (simp_all add: run_subscribed_def run_start_def NewManager_def)
  have idx: "cs_Index (au_State au) = Block_Index sample_hash next_block"
    using header_part_ApplyBlock [OF au] header_part_simps(1) [of "au_State au"]
    by (metis Block_Index_def header_step_Index header_part_simps(1))
  have d: "delete_confirmed H txns [] = []" for H txns
    by (induction txns) (simp_all add: delete_confirmed_def)
  have "bh_ParentID (b_Header next_block) = ci_ID (cs_Index base_state)" "bh_Timestamp (b_Header next_block) = 0"
    by (simp_all add: next_block_def base_state_header)
  moreover have "es_best (NewEphemeralStore base_checkpoint) = [cs_Index base_state]"
    by (simp add: NewEphemeralStore_def base_checkpoint_def)
  ultimately show ?thesis
    by (simp add: Manager_AddTipBlock_def m next_block_valid commit_tip_def au EphemeralStore_AddCheckpoint_def
        EphemeralStore_ExtendBest_def idx flush_tip_def time_Sub_def notify_apply_def PoolSubscriber_def
        Pool_ProcessChainApplyUpdate_def Pool_New_def d MaxFutureTimestamp_def)
qed

section \<open>Properties\<close>

lemma mgr_reach_in_sync:
  assumes "mgr_reach H verify c0 B m" "names_blocks H c0 B"
  shows "hd (es_best (m_store m)) = cs_Index (cp_State c0) \<and> last (es_best (m_store m)) = Manager_Tip m
    \<and> Manager_State EphemeralStore m (Manager_Tip m) = Inr (Manager_TipState m)
    \<and> (\<forall>k. Suc k < length (es_best (m_store m)) \<longrightarrow>
        (\<exists>p c. es_entries (m_store m) (es_best (m_store m) ! k) = Some p
           \<and> es_entries (m_store m) (es_best (m_store m) ! Suc k) = Some c \<and> valid_child H verify p c))
    \<and> (\<forall>p\<in>set (m_subscribers m). p_cs p = Manager_TipState m
        \<and> (\<forall>(txid, txn)\<in>set (p_txns p). ValidateTransaction H verify (Manager_TipState m) txn = Some (Inr ())))"
proof -
  let ?E = "es_entries (m_store m)" and ?best = "es_best (m_store m)"
  note inv = mgr_reach_inv [OF assms(2,1)]
  have bv: "best_valid ?E (cs_Index (cp_State c0)) ?best" and l: "last ?best = cs_Index (m_cs m)"
    and st: "at_state ?E (m_cs m)" and f: "\<forall>p\<in>set (m_subscribers m). pool_follows H verify p (m_cs m)"
    using inv by (simp_all add: mgr_inv_def)
  have child: "\<exists>p c. ?E (?best ! k) = Some p \<and> ?E (?best ! Suc k) = Some c \<and> valid_child H verify p c"
    if k: "Suc k < length ?best" for k
  proof -
    obtain c where c: "?best ! Suc k \<noteq> cs_Index (cp_State c0)" "?E (?best ! Suc k) = Some c"
      "BlockHeader_ParentIndex (b_Header (cp_Block c)) = ?best ! k"
      using bv k unfolding best_valid_def successively_conv_nth by blast
    from pool_manager.inv_entry(4) [OF inv c(2,1)] c(2,3) show ?thesis by auto
  qed
  have pools: "p_cs p = m_cs m \<and> (\<forall>(txid, txn)\<in>set (p_txns p). ValidateTransaction H verify (m_cs m) txn = Some (Inr ()))"
    if p: "p \<in> set (m_subscribers m)" for p
  proof -
    have p': "pool_reach H verify p" "p_cs p = m_cs m" using f p by (auto simp: pool_follows_def)
    from pool_reach_ok [OF p'(1)] p'(2) ValidateTransaction_valid show ?thesis
      by (auto simp: pool_ok_def entries_ok_def)
  qed
  have "hd ?best = cs_Index (cp_State c0)" using bv by (simp add: best_valid_def)
  moreover have "Manager_State EphemeralStore m (Manager_Tip m) = Inr (m_cs m)"
    using st by (auto simp: at_state_def Manager_State_def Manager_Tip_def Manager_TipState_def EphemeralStore_Checkpoint_def)
  ultimately show ?thesis using l child pools by (simp add: Manager_Tip_def Manager_TipState_def)
qed



text \<open>The same block by way of a header and then the block.\<close>

definition next_chain :: scratch_chain where
  "next_chain = \<lparr>sc_base = cs_Index base_state, sc_headers = [b_Header next_block],
      sc_hs = header_step sample_hash base_state (b_Header next_block), sc_ts = base_state\<rparr>"

definition run_headers :: "(ephemeral_store, pool) manager" where
  "run_headers = run_subscribed\<lparr>m_chains := [next_chain]\<rparr>"

lemma next_height: "ci_Height (Block_Index sample_hash next_block) = 1" "BlockHeader_Index sample_hash (b_Header next_block) = Block_Index sample_hash next_block"
  "BlockHeader_ParentIndex (b_Header next_block) = cs_Index base_state" "bh_Timestamp (b_Header next_block) = 0"
  "Block_Index sample_hash next_block \<noteq> cs_Index base_state"
  using base_state_header(4)
  by (auto simp: Block_Index_def BlockHeader_Index_def next_block_def BlockHeader_ParentIndex_def base_state_header base_block_def)

lemma run_AddHeaders:
  "Manager_AddHeaders sample_hash EphemeralStore 0 run_subscribed [b_Header next_block] = Some (Inr (Some next_chain), run_headers)"
proof -
  have m: "m_cs run_subscribed = base_state" "m_store run_subscribed = NewEphemeralStore base_checkpoint" "m_chains run_subscribed = []"
    by (simp_all add: run_subscribed_def run_start_def NewManager_def)
  have e: "es_entries (NewEphemeralStore base_checkpoint) = [cs_Index base_state \<mapsto> base_checkpoint]"
    by (simp add: NewEphemeralStore_def base_checkpoint_def)
  have b: "BlockHeader_Index sample_hash (b_Header base_block) = cs_Index base_state"
    by (simp add: base_state_header Block_Index_def)
  have v: "validateHeader sample_hash base_state (b_Header next_block) = Some (Inr ())"
    using next_block_valid by (simp add: ValidateBlock_valid)
  have w: "cs_TotalWork (header_step sample_hash base_state (b_Header next_block)) = Work_Add (cs_TotalWork base_state) (cs_Difficulty base_state)"
    using next_height(1) by (simp add: header_step_def applyHeader_def Let_def next_block_def DifficultyAdjustmentInterval_def)
  have "work_nat (Work_Add (cs_TotalWork base_state) (cs_Difficulty base_state)) = 1" "work_nat (cs_TotalWork base_state) = 0"
    by (simp_all add: Work_Add_word base_state_def sample_state_def genesis_state_def)
  then have w2: "Work_Cmp (ScratchChain_TotalWork next_chain) (cs_TotalWork base_state) = 1"
    by (simp add: ScratchChain_TotalWork_def next_chain_def w Work_Cmp_nat)
  have hdr: "EphemeralStore_Header (NewEphemeralStore base_checkpoint) (cs_Index base_state) = Inr (b_Header base_block)"
    "EphemeralStore_Header (NewEphemeralStore base_checkpoint) (Block_Index sample_hash next_block) = Inl ErrUnknownIndex"
    "EphemeralStore_Checkpoint (NewEphemeralStore base_checkpoint) (cs_Index base_state) = Inr base_checkpoint"
    using next_height(5) by (simp_all add: EphemeralStore_Header_def EphemeralStore_Checkpoint_def e) (simp add: base_checkpoint_def)
  have "extend_chain sample_hash 0 0 [b_Header next_block] (run_subscribed\<lparr>m_chains := [NewScratchChain base_state]\<rparr>)
      = Some (Inr (Some next_chain), run_headers)"
    using w2 by (simp add: extend_chain_def at_def m MaxFutureTimestamp_def next_height ScratchChain_AppendHeader_def
        NewScratchChain_def v applyHeader_step next_chain_def run_headers_def)
  then have "new_chain_headers sample_hash EphemeralStore 0 [b_Header next_block] run_subscribed = Some (Inr (Some next_chain), run_headers)"
    by (simp add: new_chain_headers_def m next_height hdr b) (simp add: base_checkpoint_def)
  then show ?thesis
    using next_height(5) [symmetric] by (simp add: Manager_AddHeaders_def Let_def m next_height hdr)
qed

lemma run_headers_reach: "mgr_reach sample_hash sample_verify base_checkpoint {next_block} run_headers"
  by (rule mgr_reach.headers [OF run_subscribed_reach run_AddHeaders])

lemma run_AddBlocks:
  "\<exists>m' chain. Manager_AddBlocks sample_hash sample_verify EphemeralStore (PoolSubscriber sample_hash sample_verify) 0 run_headers [next_block]
     = Some (Inr (Some chain), m') \<and> chain = next_chain\<lparr>sc_ts := sc_ts chain\<rparr> \<and> ScratchChain_FullyValidated chain"
proof -
  have m: "m_cs run_headers = base_state" "m_store run_headers = NewEphemeralStore base_checkpoint"
    "m_chains run_headers = [next_chain]" "m_subscribers run_headers = [Pool_New base_state]" "m_lastFlush run_headers = 0"
    by (simp_all add: run_headers_def run_subscribed_def run_start_def NewManager_def)
  obtain au where au: "ApplyBlock sample_hash base_state next_block = Some au" using next_block_applies by blast
  let ?c = "\<lparr>cp_Block = next_block, cp_State = au_State au\<rparr>" and ?sc = "next_chain\<lparr>sc_ts := au_State au\<rparr>"
  have hp: "header_part (au_State au) = header_step sample_hash (header_part base_state) (b_Header next_block)"
    by (rule header_part_ApplyBlock [OF au])
  have idx: "cs_Index (au_State au) = Block_Index sample_hash next_block"
    using hp next_height(2) header_part_simps(1) [of "au_State au"] by (metis header_step_Index)
  have "cs_TotalWork (header_step sample_hash (header_part base_state) (b_Header next_block))
      = Work_Add (cs_TotalWork base_state) (cs_Difficulty base_state)"
    by (simp add: header_step_def applyHeader_def Let_def next_block_def DifficultyAdjustmentInterval_def)
  then have "cs_TotalWork (au_State au) = Work_Add (cs_TotalWork base_state) (cs_Difficulty base_state)"
    using hp header_part_simps(2) [of "au_State au"] by metis
  moreover have "work_nat (Work_Add (cs_TotalWork base_state) (cs_Difficulty base_state)) = 1" "work_nat (cs_TotalWork base_state) = 0"
    by (simp_all add: Work_Add_word base_state_def sample_state_def genesis_state_def)
  ultimately have w: "Work_Cmp (cs_TotalWork (au_State au)) (cs_TotalWork base_state) = 1" by (simp add: Work_Cmp_nat)
  have tip: "cs_Index (sc_hs next_chain) = Block_Index sample_hash next_block" "sc_ts next_chain = base_state"
    "sc_base next_chain = cs_Index base_state"
    using next_height(2) by (simp_all add: next_chain_def)
  have f: "find_block_chain (Block_Index sample_hash next_block) 0 [next_chain] = Some (Some 0)"
    using next_height(1,5) base_state_header(2,4)
    by (simp add: ScratchChain_FullyValidated_def tip ScratchChain_ValidTip_def ScratchChain_Contains_def
        ScratchChain_Base_def ScratchChain_Tip_def ScratchChain_Index_def word_less_nat_alt)
  have a: "ScratchChain_ApplyBlock sample_hash sample_verify next_chain next_block = Some (Inr (?c, ?sc))"
    using next_height(1) base_state_header(2,4) by (simp add: ScratchChain_ApplyBlock_def tip next_block_valid au)
  have d: "delete_confirmed H txns [] = []" for H txns
    by (induction txns) (simp_all add: delete_confirmed_def)
  let ?es = "(NewEphemeralStore base_checkpoint)\<lparr>es_entries := (es_entries (NewEphemeralStore base_checkpoint))(Block_Index sample_hash next_block \<mapsto> ?c)\<rparr>"
  let ?m = "run_headers\<lparr>m_chains := [?sc], m_store := ?es\<rparr>"
  have t: "\<exists>m'. Manager_applyTip sample_hash EphemeralStore (PoolSubscriber sample_hash sample_verify) 0 ?m (Block_Index sample_hash next_block)
      = Some (Inr (), m') \<and> m_chains m' = [?sc]"
    by (simp add: Manager_applyTip_def EphemeralStore_Checkpoint_def m next_height(3) EphemeralStore_ExtendBest_def idx
        flush_tip_def time_Sub_def au notify_apply_def PoolSubscriber_def Pool_ProcessChainApplyUpdate_def Pool_New_def d)
  then obtain m' where m': "Manager_applyTip sample_hash EphemeralStore (PoolSubscriber sample_hash sample_verify) 0 ?m
      (Block_Index sample_hash next_block) = Some (Inr (), m')" "m_chains m' = [?sc]" by blast
  have l: "add_blocks_loop sample_hash sample_verify EphemeralStore (PoolSubscriber sample_hash sample_verify) 0 0 run_headers [next_block]
      = Some (Inr (), m')"
    using m' by (simp add: m at_def a EphemeralStore_AddCheckpoint_def idx w next_height(3))
  have k: "unat (ci_Height (ScratchChain_ValidTip next_chain) - (ci_Height (Block_Index sample_hash next_block) - 1)) = 0"
    using next_height(1) base_state_header(2,4) by (simp add: ScratchChain_ValidTip_def tip)
  have fv: "ScratchChain_FullyValidated ?sc" by (simp add: ScratchChain_FullyValidated_def idx tip)
  show ?thesis
    by (simp add: Manager_AddBlocks_def Let_def m f k l m'(2) at_def fv del: find_block_chain.simps add_blocks_loop.simps)
qed





text \<open>\<open>AddBlocks\<close> panics when the chain has already validated more blocks from the first one on than it is given:
  the slice of the blocks it does not have yet starts beyond their end.\<close>

theorem known_blocks_panic:
  assumes "blocks \<noteq> []" "find_block_chain (Block_Index H (hd blocks)) 0 (m_chains m) = Some (Some i)"
    "length blocks < unat (ci_Height (ScratchChain_ValidTip (m_chains m ! i)) - (ci_Height (Block_Index H (hd blocks)) - 1))"
  shows "Manager_AddBlocks H verify S U now m blocks = None"
  using assms by (simp add: Manager_AddBlocks_def)

definition behind_chain :: scratch_chain where
  "behind_chain =
     (let h = (b_Header next_block)\<lparr>bh_Height := 2, bh_ParentID := ci_ID (Block_Index sample_hash next_block)\<rparr> in
      \<lparr>sc_base = cs_Index base_state, sc_headers = [b_Header next_block, h, h],
       sc_hs = base_state\<lparr>cs_Index := \<lparr>ci_Height = 3, ci_ID = 0\<rparr>\<rparr>,
       sc_ts = base_state\<lparr>cs_Index := \<lparr>ci_Height = 2, ci_ID = 0\<rparr>\<rparr>\<rparr>)"

theorem known_blocks_panic_witness:
  "Manager_AddBlocks sample_hash sample_verify EphemeralStore (PoolSubscriber sample_hash sample_verify) 0
     (run_start\<lparr>m_chains := [behind_chain]\<rparr>) [next_block] = None"
proof -
  let ?m = "run_start\<lparr>m_chains := [behind_chain]\<rparr>"
  have tips: "ScratchChain_ValidTip behind_chain = \<lparr>ci_Height = 2, ci_ID = 0\<rparr>" "ScratchChain_Tip behind_chain = \<lparr>ci_Height = 3, ci_ID = 0\<rparr>"
    "ScratchChain_Base behind_chain = cs_Index base_state" "\<not> ScratchChain_FullyValidated behind_chain"
    by (simp_all add: behind_chain_def Let_def ScratchChain_ValidTip_def ScratchChain_Tip_def ScratchChain_Base_def ScratchChain_FullyValidated_def)
  have h: "sc_headers behind_chain ! 1 = (b_Header next_block)\<lparr>bh_Height := 2, bh_ParentID := ci_ID (Block_Index sample_hash next_block)\<rparr>"
    "length (sc_headers behind_chain) = 3" by (simp_all add: behind_chain_def Let_def)
  have p: "BlockHeader_ParentIndex (sc_headers behind_chain ! 1) = Block_Index sample_hash next_block"
    unfolding h using next_height(1) by (cases "Block_Index sample_hash next_block") (simp add: BlockHeader_ParentIndex_def)
  have "ScratchChain_Index behind_chain 1 = Some (Block_Index sample_hash next_block)"
    using p base_state_header(2,4) h(2) by (simp add: ScratchChain_Index_def tips at_def)
  then have f: "find_block_chain (Block_Index sample_hash (hd [next_block])) 0 (m_chains ?m) = Some (Some 0)"
    using next_height(1) base_state_header(2,4) by (simp add: tips ScratchChain_Contains_def word_less_nat_alt word_le_nat_alt)
  have "length [next_block] < unat (ci_Height (ScratchChain_ValidTip (m_chains ?m ! 0)) - (ci_Height (Block_Index sample_hash (hd [next_block])) - 1))"
    using next_height(1) by (simp add: tips)
  from known_blocks_panic [OF _ f this] show ?thesis by simp
qed

end
