(* ===== verification/Manager_Sync.thy ===== *)
theory Manager_Sync
  imports Manager_Properties
begin

text \<open>
  chain/manager.go: what a node tells a peer about its best chain, \<open>History\<close>, and what the peer answers,
  \<open>HeadersForHistory\<close>. \<open>None\<close> is a panic or a loop that does not end.
\<close>

section \<open>The code\<close>

text \<open>\<open>sort.Search\<close> with a predicate that may panic.\<close>

function search_panicking :: "(nat \<Rightarrow> bool option) \<Rightarrow> nat \<Rightarrow> nat \<Rightarrow> nat option" where
  "search_panicking f i j =
     (if i < j then do {
        let h = (i + j) div 2;
        ok \<leftarrow> f h;
        if \<not> ok then search_panicking f (h + 1) j else search_panicking f i h
      }
      else Some i)"
  by pat_completeness auto
termination by (relation "measure (\<lambda>(f, i, j). j - i)") auto

definition baseHeight :: "'s manager_store \<Rightarrow> ('s, 'u) manager \<Rightarrow> u64 option" where
  "baseHeight S m =
     map_option word_of_nat
       (search_panicking (\<lambda>height. map_option (\<lambda>r. \<not> isl r) (ms_BestIndex S (m_store m) (word_of_nat height)))
          0 (nat (sint (ci_Height (cs_Index (m_cs m))))))"

definition histHeight :: "u64 \<Rightarrow> u64 \<Rightarrow> nat \<Rightarrow> u64" where
  "histHeight tip base i =
     (let offset = (if word_of_nat i \<ge> (10 :: u64) then 7 + push_bit (i - 8) 1 else word_of_nat i);
          offset = (if offset > tip - base then tip - base else offset)
      in tip - offset)"

partial_function (option) history_loop ::
    "'s manager_store \<Rightarrow> 's \<Rightarrow> u64 \<Rightarrow> u64 \<Rightarrow> chain_index list \<Rightarrow> (store_error + chain_index list) option" where
  "history_loop S s tip base history = do {
     r \<leftarrow> ms_BestIndex S s (histHeight tip base (length history));
     (case r of
        Inl e \<Rightarrow> Some (Inl e)
      | Inr index \<Rightarrow>
          if ci_Height index = base then Some (Inr (history @ [index]))
          else history_loop S s tip base (history @ [index]))
   }"

definition Manager_History :: "'s manager_store \<Rightarrow> ('s, 'u) manager \<Rightarrow> (store_error + chain_index list) option" where
  "Manager_History S m = do {
     base \<leftarrow> baseHeight S m;
     history_loop S (m_store m) (ci_Height (cs_Index (m_cs m))) base []
   }"

fun attach_height :: "'s manager_store \<Rightarrow> 's \<Rightarrow> chain_index list \<Rightarrow> (store_error + u64) option" where
  "attach_height S s [] = Some (Inr 0)"
| "attach_height S s (h # hs) = do {
     r \<leftarrow> ms_BestIndex S s (ci_Height h);
     (case r of
        Inl ErrStoreIO \<Rightarrow> Some (Inl ErrStoreIO)
      | Inl _ \<Rightarrow> if zero_index = h then Some (Inr (ci_Height h)) else attach_height S s hs
      | Inr index \<Rightarrow> if index = h then Some (Inr (ci_Height h)) else attach_height S s hs)
   }"

text \<open>\<open>n\<close> is the length of the slice that remains to be filled.\<close>

fun fill_headers :: "'s manager_store \<Rightarrow> 's \<Rightarrow> u64 \<Rightarrow> nat \<Rightarrow> (store_error + block_header list) option" where
  "fill_headers S s height 0 = Some (Inr [])"
| "fill_headers S s height (Suc n) = do {
     r \<leftarrow> ms_BestIndex S s (height + 1);
     (case r of
        Inl _ \<Rightarrow> Some (Inr [])
      | Inr index \<Rightarrow>
          (case ms_Header S s index of
             Inl e \<Rightarrow> Some (Inl e)
           | Inr h \<Rightarrow> map_option (map_sum id ((#) h)) (fill_headers S s (height + 1) n)))
   }"

definition Manager_HeadersForHistory ::
    "'s manager_store \<Rightarrow> ('s, 'u) manager \<Rightarrow> nat \<Rightarrow> chain_index list \<Rightarrow> (store_error + block_header list) option" where
  "Manager_HeadersForHistory S m n history = do {
     r \<leftarrow> attach_height S (m_store m) history;
     (case r of
        Inl e \<Rightarrow> Some (Inl e)
      | Inr attachHeight \<Rightarrow> fill_headers S (m_store m) attachHeight n)
   }"

section \<open>The best chain by height\<close>

lemma search_panicking_total:
  "(\<And>k. i \<le> k \<Longrightarrow> k < j \<Longrightarrow> f k = Some (p k)) \<Longrightarrow> search_panicking f i j = Some (sort_Search_loop p i j)"
proof (induction f i j rule: search_panicking.induct)
  case (1 f i j)
  show ?case
  proof (cases "i < j")
    case True
    then have h: "i \<le> (i + j) div 2" "(i + j) div 2 < j" by simp_all
    then have fh: "f ((i + j) div 2) = Some (p ((i + j) div 2))" using "1.prems" by simp
    show ?thesis
    proof (cases "p ((i + j) div 2)")
      case p: True
      have "search_panicking f i ((i + j) div 2) = Some (sort_Search_loop p i ((i + j) div 2))"
        using "1.prems" h p True fh by (intro "1.IH"(2) [OF True refl fh]) auto
      then show ?thesis using True fh p by (subst search_panicking.simps, subst sort_Search_loop.simps) (simp add: Let_def)
    next
      case p: False
      have "search_panicking f ((i + j) div 2 + 1) j = Some (sort_Search_loop p ((i + j) div 2 + 1) j)"
        using "1.prems" h p True fh by (intro "1.IH"(1) [OF True refl fh]) auto
      then show ?thesis using True fh p by (subst search_panicking.simps, subst sort_Search_loop.simps) (simp add: Let_def)
    qed
  qed (simp add: search_panicking.simps sort_Search_loop.simps)
qed

context managed
begin

lemma inv_consecutive:
  assumes inv: "inv c0 B m" and n: "unat (ci_Height (cs_Index (cp_State c0))) + length (best (m_store m)) \<le> 2 ^ 64"
  shows "consecutive (best (m_store m))"
proof -
  let ?is = "best (m_store m)" and ?b = "unat (ci_Height (cs_Index (cp_State c0)))"
  have bv: "best_valid (entries (m_store m)) (cs_Index (cp_State c0)) ?is" using inv by (simp add: mgr_inv_def)
  then have hd: "?is \<noteq> []" "hd ?is = cs_Index (cp_State c0)" by (simp_all add: best_valid_def)
  have "k < length ?is \<Longrightarrow> unat (ci_Height (?is ! k)) = ?b + k" for k
  proof (induction k)
    case 0
    then show ?case using hd by (simp add: hd_conv_nth)
  next
    case (Suc k)
    obtain c where c: "?is ! Suc k \<noteq> cs_Index (cp_State c0)" "entries (m_store m) (?is ! Suc k) = Some c"
      "BlockHeader_ParentIndex (b_Header (cp_Block c)) = ?is ! k"
      using bv Suc.prems unfolding best_valid_def successively_conv_nth by blast
    have "Block_Index H (cp_Block c) = ?is ! Suc k" by (rule inv_entry(2) [OF inv c(2)])
    then have "ci_Height (?is ! Suc k) = ci_Height (?is ! k) + 1"
      unfolding c(3) [symmetric] by (auto simp: Block_Index_def BlockHeader_Index_def BlockHeader_ParentIndex_def dest: sym)
    moreover have "unat (ci_Height (?is ! k)) = ?b + k" using Suc by simp
    ultimately show ?case using n Suc.prems by (simp add: unat_word_ariths)
  qed
  then show ?thesis using hd n by (simp add: consecutive_def)
qed

end

section \<open>History\<close>

text \<open>How far below the tip the entries of the history lie.\<close>

definition hist_offset :: "nat \<Rightarrow> nat" where
  "hist_offset i = (if i < 10 then i else 7 + 2 ^ (i - 8))"

lemma hist_offset_mono: "i < j \<Longrightarrow> hist_offset i < hist_offset j"
proof -
  have "2 ^ (i - 8) < (2::nat) ^ (j - 8)" if "10 \<le> i" "i < j" using that by (intro power_strict_increasing) simp_all
  moreover have "(2::nat) ^ 2 \<le> 2 ^ (j - 8)" if "10 \<le> j" using that by (intro power_increasing) simp_all
  ultimately show "i < j \<Longrightarrow> hist_offset i < hist_offset j" by (auto simp: hist_offset_def)
qed

lemma histHeight_nat:
  assumes "base \<le> tip" "i \<le> 71"
  shows "unat (histHeight tip base i) = unat tip - min (hist_offset i) (unat tip - unat base)"
proof -
  have le: "unat base \<le> unat tip" using assms(1) by (simp add: word_le_nat_alt)
  have d: "unat (tip - base) = unat tip - unat base" using assms(1) by (simp add: unat_sub)
  have i: "unat (word_of_nat i :: u64) = i" using assms(2) by (intro unat_of_nat64) simp
  define off :: u64 where "off = (if word_of_nat i \<ge> (10 :: u64) then 7 + push_bit (i - 8) 1 else word_of_nat i)"
  have "unat off = hist_offset i"
  proof (cases "10 \<le> i")
    case True
    then have k: "i - 8 \<le> 63" using assms(2) by simp
    then have p: "(2::nat) ^ (i - 8) \<le> 2 ^ 63" by (intro power_increasing) simp_all
    have "push_bit (i - 8) (1::u64) = word_of_nat (2 ^ (i - 8))" by (simp add: push_bit_eq_mult)
    then have "unat (push_bit (i - 8) (1::u64)) = 2 ^ (i - 8)"
      using unat_of_nat64 [of "2 ^ (i - 8)"] p by (simp only:) (simp del: of_nat_power)
    then show ?thesis
      using True i p by (simp add: off_def hist_offset_def word_le_nat_alt unat_word_ariths)
  next
    case False
    then show ?thesis using i by (simp add: off_def hist_offset_def word_le_nat_alt)
  qed
  moreover have "histHeight tip base i = tip - (if off > tip - base then tip - base else off)"
    by (simp add: histHeight_def off_def Let_def)
  ultimately show ?thesis using le d by (auto simp: word_less_nat_alt unat_sub word_le_nat_alt)
qed

context reliable_store
begin

lemma best_at:
  assumes "consecutive (best s)" "k < length (best s)" "unat h = unat (ci_Height (hd (best s))) + k"
  shows "ms_BestIndex S s h = Some (Inr (best s ! k))"
  using BestIndex_ok [OF assms(1), of h] assms(2,3) by simp

lemma history_loop_best:
  assumes cons: "consecutive (best s)" and D: "D = length (best s) - 1" and len: "length history = n"
    and K: "D \<le> hist_offset K" "\<And>i. i < K \<Longrightarrow> hist_offset i < D" "K \<le> 71" and n: "n \<le> K"
  shows "history_loop S s (ci_Height (last (best s))) (ci_Height (hd (best s))) history
    = Some (Inr (history @ map (\<lambda>i. best s ! (D - min (hist_offset i) D)) [n..<Suc K]))"
  using len n
proof (induction "K - n" arbitrary: n history)
  have ne: "best s \<noteq> []" using cons by (simp add: consecutive_def)
  note lst = consecutive_last [OF cons, folded D]
  have le: "ci_Height (hd (best s)) \<le> ci_Height (last (best s))" using lst by (simp add: word_le_nat_alt)
  have step: "ms_BestIndex S s (histHeight (ci_Height (last (best s))) (ci_Height (hd (best s))) n) = Some (Inr (best s ! (D - min (hist_offset n) D)))"
    if "n \<le> K" for n
  proof (rule best_at [OF cons])
    show "D - min (hist_offset n) D < length (best s)" using ne D by (cases "best s") simp_all
    show "unat (histHeight (ci_Height (last (best s))) (ci_Height (hd (best s))) n)
        = unat (ci_Height (hd (best s))) + (D - min (hist_offset n) D)"
      using histHeight_nat [OF le, of n] that K(3) lst by simp
  qed
  have base: "ci_Height (best s ! (D - min (hist_offset n) D)) = ci_Height (hd (best s)) \<longleftrightarrow> D \<le> hist_offset n" for n
  proof -
    have "D - min (hist_offset n) D < length (best s)" using ne D by (cases "best s") simp_all
    then have "unat (ci_Height (best s ! (D - min (hist_offset n) D))) = unat (ci_Height (hd (best s))) + (D - min (hist_offset n) D)"
      using cons by (simp add: consecutive_def)
    then show ?thesis by (auto simp: word_unat_eq_iff)
  qed
  {
    case 0
    then have "n = K" by simp
    then show ?case using 0 step [of K] base [of K] K(1) by (subst history_loop.simps) simp
  next
    case (Suc d)
    then have lt: "n < K" by simp
    then have off: "\<not> D \<le> hist_offset n" using K(2) [of n] by simp
    have IH: "history_loop S s (ci_Height (last (best s))) (ci_Height (hd (best s))) (history @ [best s ! (D - min (hist_offset n) D)])
        = Some (Inr ((history @ [best s ! (D - min (hist_offset n) D)]) @ map (\<lambda>i. best s ! (D - min (hist_offset i) D)) [Suc n..<Suc K]))"
      using Suc lt by (intro Suc.hyps(1)) simp_all
    have "[n..<Suc K] = n # [Suc n..<Suc K]" using lt by (simp add: upt_rec)
    then show ?case
      using Suc.prems lt step [of n] base [of n] off IH by (subst history_loop.simps) simp
  }
qed

lemma baseHeight_best:
  assumes cons: "consecutive (best (m_store m))" and tip: "last (best (m_store m)) = cs_Index (m_cs m)"
    and n: "unat (ci_Height (hd (best (m_store m)))) + length (best (m_store m)) \<le> 2 ^ 63"
  shows "baseHeight S m = Some (ci_Height (hd (best (m_store m))))"
proof -
  let ?is = "best (m_store m)"
  let ?b = "unat (ci_Height (hd ?is))" and ?t = "unat (ci_Height (cs_Index (m_cs m)))"
  let ?f = "\<lambda>height. map_option (\<lambda>r. \<not> isl r) (ms_BestIndex S (m_store m) (word_of_nat height))"
  have ne: "?is \<noteq> []" using cons by (simp add: consecutive_def)
  have t: "?t = ?b + (length ?is - 1)" using consecutive_last [OF cons] tip by simp
  have t63: "?t < 2 ^ 63" using t n ne by (cases ?is) simp_all
  then have i: "int ?t < int (2 ^ 63)" by (simp only: of_nat_less_iff)
  have "int (2 ^ 63) = 2 ^ 63" by (simp only: of_nat_power of_nat_numeral)
  then have u: "int ?t < 2 ^ 63" using i by (simp only:)
  have l: "- (2 ^ 63) \<le> int ?t" by (rule order_trans [OF _ of_nat_0_le_iff]) simp
  have "signed_take_bit 63 (int ?t) = int ?t" by (rule signed_take_bit_int_eq_self [OF l u])
  then have "sint (ci_Height (cs_Index (m_cs m))) = int ?t" by (simp add: sint_uint)
  then have sint: "nat (sint (ci_Height (cs_Index (m_cs m)))) = ?t" by simp
  have f: "?f k = Some (?b \<le> k)" if "k < ?t" for k
  proof -
    have k: "unat (word_of_nat k :: u64) = k" using that t63 by (intro unat_of_nat64) simp
    have "k < ?b + length ?is" using that t by simp
    then show ?thesis using BestIndex_ok [OF cons, of "word_of_nat k"] k by simp
  qed
  have s: "search_panicking ?f 0 ?t = Some (sort_Search_loop (\<lambda>k. ?b \<le> k) 0 ?t)"
    using f by (intro search_panicking_total) simp
  have r: "sort_Search_loop (\<lambda>k. ?b \<le> k) 0 ?t \<le> ?t \<and> (\<forall>k<?t. ?b \<le> k \<longleftrightarrow> sort_Search_loop (\<lambda>k. ?b \<le> k) 0 ?t \<le> k)"
    by (rule sort_Search_loop) auto
  define x where "x = sort_Search_loop (\<lambda>k. ?b \<le> k) 0 ?t"
  have x: "x \<le> ?t" "\<And>k. k < ?t \<Longrightarrow> ?b \<le> k \<longleftrightarrow> x \<le> k" using r by (simp_all add: x_def)
  have bt: "?b \<le> ?t" using t by linarith
  have "\<not> x < ?b" using x(2) [of x] bt by linarith
  moreover have "x \<le> ?b" using x(1) x(2) [of ?b] bt by linarith
  ultimately have "sort_Search_loop (\<lambda>k. ?b \<le> k) 0 ?t = ?b" by (simp add: x_def)
  then show ?thesis unfolding baseHeight_def sint s by simp
qed

lemma History_best:
  assumes cons: "consecutive (best (m_store m))" and tip: "last (best (m_store m)) = cs_Index (m_cs m)"
    and n: "unat (ci_Height (hd (best (m_store m)))) + length (best (m_store m)) \<le> 2 ^ 63"
    and D: "D = length (best (m_store m)) - 1"
  shows "\<exists>K\<le>71. Manager_History S m = Some (Inr (map (\<lambda>i. best (m_store m) ! (D - min (hist_offset i) D)) [0..<Suc K]))
    \<and> D \<le> hist_offset K \<and> (\<forall>i<K. hist_offset i < D)"
proof -
  have "D \<le> hist_offset 71" using n D by (simp add: hist_offset_def)
  define K where "K = (LEAST k. D \<le> hist_offset k)"
  have K: "D \<le> hist_offset K" "K \<le> 71" unfolding K_def
    by (rule LeastI [of "\<lambda>k. D \<le> hist_offset k", OF \<open>D \<le> hist_offset 71\<close>],
        rule Least_le [of "\<lambda>k. D \<le> hist_offset k", OF \<open>D \<le> hist_offset 71\<close>])
  have lt: "hist_offset i < D" if "i < K" for i using not_less_Least [of i "\<lambda>k. D \<le> hist_offset k"] that K_def by simp
  have "history_loop S (m_store m) (ci_Height (last (best (m_store m)))) (ci_Height (hd (best (m_store m)))) []
      = Some (Inr ([] @ map (\<lambda>i. best (m_store m) ! (D - min (hist_offset i) D)) [0..<Suc K]))"
    using K lt by (intro history_loop_best [OF cons D]) simp_all
  then have "Manager_History S m = Some (Inr (map (\<lambda>i. best (m_store m) ! (D - min (hist_offset i) D)) [0..<Suc K]))"
    by (simp add: Manager_History_def baseHeight_best [OF cons tip n] tip)
  then show ?thesis using K lt by blast
qed

end

section \<open>HeadersForHistory\<close>

definition header_at :: "(chain_index \<rightharpoonup> checkpoint) \<Rightarrow> chain_index \<Rightarrow> block_header" where
  "header_at E i = b_Header (cp_Block (the (E i)))"

context reliable_store
begin

lemma BestIndex_genesis:
  assumes cons: "consecutive (best s)" and zero: "ci_Height (hd (best s)) = 0"
  shows "ms_BestIndex S s h = Some (if unat h < length (best s) then Inr (best s ! unat h) else Inl ErrUnknownIndex)"
  using BestIndex_ok [OF cons, of h] zero by simp

lemma attach_height_best:
  assumes cons: "consecutive (best s)" and zero: "ci_Height (hd (best s)) = 0"
  shows "\<exists>k<length (best s). attach_height S s history = Some (Inr (word_of_nat k)) \<and> unat (word_of_nat k :: u64) = k
    \<and> (case find (\<lambda>h. h \<in> set (best s)) history of Some h \<Rightarrow> best s ! k = h | None \<Rightarrow> k = 0)"
proof (induction history)
  case Nil
  then show ?case using cons by (intro exI [of _ 0]) (simp add: consecutive_def)
next
  case (Cons h hs)
  let ?n = "unat (ci_Height h)"
  have nth: "unat (ci_Height (best s ! k)) = k" if "k < length (best s)" for k
    using cons zero that by (simp add: consecutive_def)
  have mem: "h \<in> set (best s) \<longleftrightarrow> ?n < length (best s) \<and> best s ! ?n = h"
    using nth by (metis in_set_conv_nth)
  have z: "h \<noteq> zero_index" if "\<not> ?n < length (best s)"
    using that cons by (auto simp: zero_index_def consecutive_def)
  show ?case
  proof (cases "h \<in> set (best s)")
    case True
    then show ?thesis using mem BestIndex_genesis [OF cons zero, of "ci_Height h"]
      by (intro exI [of _ ?n]) simp
  next
    case False
    then have "attach_height S s (h # hs) = attach_height S s hs"
      using mem z BestIndex_genesis [OF cons zero, of "ci_Height h"] by auto
    then show ?thesis using Cons.IH False by simp
  qed
qed

lemma fill_headers_best:
  assumes cons: "consecutive (best s)" and zero: "ci_Height (hd (best s)) = 0" and len: "length (best s) < 2 ^ 64"
    and E: "\<And>i. i \<in> set (best s) \<Longrightarrow> entries s i \<noteq> None"
  shows "k < length (best s) \<Longrightarrow> unat h = k \<Longrightarrow>
    fill_headers S s h n = Some (Inr (map (header_at (entries s)) (take n (drop (Suc k) (best s)))))"
proof (induction n arbitrary: k h)
  case (Suc n)
  have h: "unat (h + 1) = Suc k" using Suc.prems len by (simp add: unat_word_ariths)
  note bi = BestIndex_genesis [OF cons zero, of "h + 1", unfolded h]
  show ?case
  proof (cases "Suc k < length (best s)")
    case True
    then obtain c where c: "entries s (best s ! Suc k) = Some c" using E [of "best s ! Suc k"] by auto
    have "drop (Suc k) (best s) = best s ! Suc k # drop (Suc (Suc k)) (best s)" using True by (simp add: Cons_nth_drop_Suc)
    then show ?thesis
      using True bi c Suc.IH [OF True h] by (simp add: Header_ok header_at_def)
  next
    case False
    then show ?thesis using bi by simp
  qed
qed simp

end

context managed
begin

lemma best_linked:
  assumes inv: "inv c0 B m" and k: "k < length (best (m_store m))"
  shows "linked H (best (m_store m) ! k) (map (header_at (entries (m_store m))) (drop (Suc k) (best (m_store m))))"
  using k
proof (induction "length (best (m_store m)) - Suc k" arbitrary: k)
  case (Suc d)
  let ?is = "best (m_store m)" and ?E = "entries (m_store m)"
  have k: "Suc k < length ?is" using Suc.hyps(2) by simp
  have "best_valid ?E (cs_Index (cp_State c0)) ?is" using inv by (simp add: mgr_inv_def)
  then obtain c where c: "?E (?is ! Suc k) = Some c" "BlockHeader_ParentIndex (b_Header (cp_Block c)) = ?is ! k"
    using k unfolding best_valid_def successively_conv_nth by blast
  have idx: "BlockHeader_Index H (b_Header (cp_Block c)) = ?is ! Suc k"
    using inv_entry(2) [OF inv c(1)] by (simp add: Block_Index_def)
  have "bh_Height (b_Header (cp_Block c)) = ci_Height (?is ! k) + 1"
    unfolding c(2) [symmetric] by (simp add: BlockHeader_ParentIndex_def)
  moreover have "drop (Suc k) ?is = ?is ! Suc k # drop (Suc (Suc k)) ?is" using k by (simp add: Cons_nth_drop_Suc)
  ultimately show ?case
    using Suc.hyps(1) [of "Suc k"] Suc.hyps(2) k c idx by (simp add: header_at_def)
qed simp

lemma linked_take: "linked H i hs \<Longrightarrow> linked H i (take n hs)"
proof (induction hs arbitrary: i n)
  case (Cons h hs)
  then show ?case by (cases n) simp_all
qed simp

lemma best_entries:
  assumes "inv c0 B m" "i \<in> set (best (m_store m))"
  shows "entries (m_store m) i \<noteq> None"
proof -
  have bv: "best_valid (entries (m_store m)) (cs_Index (cp_State c0)) (best (m_store m))" using assms(1) by (simp add: mgr_inv_def)
  obtain k where k: "k < length (best (m_store m))" "i = best (m_store m) ! k" using assms(2) by (auto simp: in_set_conv_nth)
  show ?thesis
  proof (cases k)
    case 0
    then have "i = cs_Index (cp_State c0)" using bv k by (auto simp: best_valid_def hd_conv_nth [symmetric])
    then show ?thesis using inv_base [OF assms(1)] by simp
  next
    case (Suc j)
    then show ?thesis using bv k unfolding best_valid_def successively_conv_nth by blast
  qed
qed

lemma HeadersForHistory_best:
  assumes inv: "inv c0 B m" and zero: "ci_Height (cs_Index (cp_State c0)) = 0" and n: "length (best (m_store m)) < 2 ^ 63"
  shows "\<exists>k hs. k < length (best (m_store m))
    \<and> (case find (\<lambda>h. h \<in> set (best (m_store m))) history of Some h \<Rightarrow> best (m_store m) ! k = h | None \<Rightarrow> k = 0)
    \<and> Manager_HeadersForHistory S m l history = Some (Inr hs)
    \<and> hs = map (header_at (entries (m_store m))) (take l (drop (Suc k) (best (m_store m))))
    \<and> linked H (best (m_store m) ! k) hs"
proof -
  let ?is = "best (m_store m)"
  have cons: "consecutive ?is" using n zero by (intro inv_consecutive [OF inv]) simp
  have hd: "ci_Height (hd ?is) = 0" using inv zero by (simp add: mgr_inv_def best_valid_def)
  obtain k where k: "k < length ?is" "attach_height S (m_store m) history = Some (Inr (word_of_nat k))"
    "unat (word_of_nat k :: u64) = k"
    "case find (\<lambda>h. h \<in> set ?is) history of Some h \<Rightarrow> ?is ! k = h | None \<Rightarrow> k = 0"
    using attach_height_best [OF cons hd] by blast
  let ?hs = "map (header_at (entries (m_store m))) (take l (drop (Suc k) ?is))"
  have "fill_headers S (m_store m) (word_of_nat k) l = Some (Inr ?hs)"
    using n k by (intro fill_headers_best [OF cons hd]) (simp_all add: best_entries [OF inv])
  moreover have "linked H (?is ! k) ?hs"
    unfolding take_map [symmetric] by (rule linked_take [OF best_linked [OF inv k(1)]])
  ultimately show ?thesis using k by (intro exI [of _ k] exI [of _ ?hs]) (simp add: Manager_HeadersForHistory_def)
qed

end

section \<open>Properties\<close>

text \<open>C10. \<open>History\<close> of every reachable manager ends without an error, has at most 72 indices, begins with the tip and
  ends with the base of the store: its i-th index is the one of the best chain that lies \<open>hist_offset i\<close> below the
  tip (the last ten one by one, then twice as far each time), and the last offset that would pass the base is cut
  off there.\<close>

theorem history_spans_chain:
  assumes "mgr_reach H verify c0 B m" "names_blocks H c0 B"
    "unat (ci_Height (cs_Index (cp_State c0))) + length (es_best (m_store m)) \<le> 2 ^ 63"
  shows "\<exists>hist. Manager_History EphemeralStore m = Some (Inr hist) \<and> 0 < length hist \<and> length hist \<le> 72
    \<and> hd hist = Manager_Tip m \<and> last hist = cs_Index (cp_State c0)
    \<and> (\<forall>i<length hist. hist ! i = es_best (m_store m) !
         (length (es_best (m_store m)) - 1 - min (hist_offset i) (length (es_best (m_store m)) - 1)))"
proof -
  let ?is = "es_best (m_store m)" and ?D = "length (es_best (m_store m)) - 1"
  note inv = mgr_reach_inv [OF assms(2,1)]
  have cons: "consecutive ?is" using assms(3) by (intro pool_manager.inv_consecutive [OF inv]) simp
  have ends: "hd ?is = cs_Index (cp_State c0)" "last ?is = cs_Index (m_cs m)" "?is \<noteq> []"
    using inv by (simp_all add: mgr_inv_def best_valid_def)
  obtain K where K: "K \<le> 71" "Manager_History EphemeralStore m = Some (Inr (map (\<lambda>i. ?is ! (?D - min (hist_offset i) ?D)) [0..<Suc K]))"
    "?D \<le> hist_offset K"
    using ephemeral.History_best [OF cons ends(2) _ refl] assms(3) ends(1) by auto
  let ?h = "map (\<lambda>i. ?is ! (?D - min (hist_offset i) ?D)) [0..<Suc K]"
  have "hd ?h = ?is ! ?D" by (simp add: upt_rec hist_offset_def del: upt_Suc)
  then have "hd ?h = Manager_Tip m" using ends by (simp add: last_conv_nth Manager_Tip_def Manager_TipState_def)
  moreover have "last ?h = ?is ! 0" using K(3) by simp
  then have "last ?h = cs_Index (cp_State c0)" using ends by (simp add: hd_conv_nth)
  moreover have "?h ! i = ?is ! (?D - min (hist_offset i) ?D)" if "i < length ?h" for i
    using that by (simp del: upt_Suc)
  ultimately show ?thesis using K(1,2) by (intro exI [of _ ?h]) simp
qed

theorem history_spans_chain_witness:
  "Manager_History EphemeralStore run_subscribed = Some (Inr [cs_Index base_state])"
proof -
  have b: "es_best (m_store run_subscribed) = [cs_Index base_state]"
    by (simp add: run_subscribed_def run_start_def NewManager_def NewEphemeralStore_def base_checkpoint_def)
  have "unat (ci_Height (cs_Index (cp_State base_checkpoint))) + length (es_best (m_store run_subscribed)) \<le> 2 ^ 63"
    by (simp add: b base_checkpoint_def base_state_header)
  from history_spans_chain [OF run_subscribed_reach next_names this] obtain hist where
    h: "Manager_History EphemeralStore run_subscribed = Some (Inr hist)" "0 < length hist"
      "\<forall>i<length hist. hist ! i = cs_Index base_state" "last hist = cs_Index base_state"
    by (auto simp: b base_checkpoint_def)
  have "hist = [cs_Index base_state]"
    using h(1) by (auto simp: Manager_History_def history_loop.simps [of EphemeralStore] baseHeight_def b
        search_panicking.simps base_state_header run_subscribed_def run_start_def NewManager_def histHeight_def
        EphemeralStore_BestIndex_def NewEphemeralStore_def base_checkpoint_def at_def)
  then show ?thesis using h(1) by simp
qed

text \<open>\<open>HeadersForHistory\<close> of every reachable manager whose store begins at height zero answers without an error:
  the attach point is the first index of the history that lies on the best chain, or the genesis block, and the
  headers are those of the best chain right above it, as many as asked for or up to the tip; each is the child of
  the one before it, so a peer that has the attach point can append them.\<close>

theorem headers_follow_attach_point:
  assumes "mgr_reach H verify c0 B m" "names_blocks H c0 B" "ci_Height (cs_Index (cp_State c0)) = 0"
    "length (es_best (m_store m)) < 2 ^ 63"
  shows "\<exists>k hs. k < length (es_best (m_store m))
    \<and> (case find (\<lambda>h. h \<in> set (es_best (m_store m))) history of Some h \<Rightarrow> es_best (m_store m) ! k = h | None \<Rightarrow> k = 0)
    \<and> Manager_HeadersForHistory EphemeralStore m n history = Some (Inr hs)
    \<and> hs = map (header_at (es_entries (m_store m))) (take n (drop (Suc k) (es_best (m_store m))))
    \<and> linked H (es_best (m_store m) ! k) hs"
  by (rule pool_manager.HeadersForHistory_best [OF mgr_reach_inv [OF assms(2,1)] assms(3,4)])

theorem headers_follow_attach_point_witness:
  "\<exists>m' hs. Manager_AddTipBlock sample_hash sample_verify EphemeralStore (PoolSubscriber sample_hash sample_verify) 0 run_subscribed next_block
      = Some (Inr (), m')
    \<and> Manager_HeadersForHistory EphemeralStore m' 10 [cs_Index base_state] = Some (Inr hs)
    \<and> length hs = 1 \<and> linked sample_hash (cs_Index base_state) hs"
proof -
  obtain m' where m': "Manager_AddTipBlock sample_hash sample_verify EphemeralStore (PoolSubscriber sample_hash sample_verify) 0
      run_subscribed next_block = Some (Inr (), m')"
      "es_best (m_store m') = [cs_Index base_state, Block_Index sample_hash next_block]" using run_block by blast
  have r: "mgr_reach sample_hash sample_verify base_checkpoint {next_block} m'"
    by (rule mgr_reach.tip_block [OF run_subscribed_reach _ m'(1)]) simp_all
  have z: "ci_Height (cs_Index (cp_State base_checkpoint)) = 0" by (simp add: base_checkpoint_def base_state_header)
  have n: "length (es_best (m_store m')) < 2 ^ 63" by (simp add: m'(2))
  have "\<exists>k hs. (case find (\<lambda>h. h \<in> set (es_best (m_store m'))) [cs_Index base_state] of Some h \<Rightarrow> es_best (m_store m') ! k = h | None \<Rightarrow> k = 0)
      \<and> k < 2 \<and> Manager_HeadersForHistory EphemeralStore m' 10 [cs_Index base_state] = Some (Inr hs)
      \<and> length hs = length (take 10 (drop (Suc k) (es_best (m_store m')))) \<and> linked sample_hash (es_best (m_store m') ! k) hs"
    using headers_follow_attach_point [OF r next_names z n, of "[cs_Index base_state]" 10] by (auto simp: m'(2))
  then obtain k hs where k: "[cs_Index base_state, Block_Index sample_hash next_block] ! k = cs_Index base_state" "k < 2"
    "Manager_HeadersForHistory EphemeralStore m' 10 [cs_Index base_state] = Some (Inr hs)"
    "length hs = length (take 10 (drop (Suc k) (es_best (m_store m'))))" "linked sample_hash (es_best (m_store m') ! k) hs"
    by (auto simp: m'(2))
  then have "k = 0" using next_height(5) by (cases k) auto
  then show ?thesis using k m' by auto
qed

end
