(* ===== verification/Text_Forms.thy ===== *)
theory Text_Forms
  imports Currency_Text Work Encoding
begin

text \<open>
  sunyata.go: the text and JSON forms of hashes, identifiers, addresses, keys, signatures, indices and work. Texts
  are byte lists. An \<open>Unmarshal\<close> method gives its error, if any, and what the receiver holds afterwards, since it
  writes into the receiver as it reads; \<open>None\<close> is a panic. The functions of encoding/hex, bytes, strconv and
  math/big that the code calls are written out as the library documents them.
\<close>

section \<open>The library\<close>

definition hex_digit :: "byte \<Rightarrow> byte" where
  "hex_digit n = (if n < 10 then 48 + n else 87 + n)"

definition hex_EncodeToString :: "byte list \<Rightarrow> byte list" where
  "hex_EncodeToString bs = concat (map (\<lambda>b. [hex_digit (b div 16), hex_digit (b mod 16)]) bs)"

definition fromHexChar :: "byte \<Rightarrow> byte option" where
  "fromHexChar c =
     (if 48 \<le> c \<and> c \<le> 57 then Some (c - 48)
      else if 97 \<le> c \<and> c \<le> 102 then Some (c - 87)
      else if 65 \<le> c \<and> c \<le> 70 then Some (c - 55)
      else None)"

datatype text_error =
  ErrInvalidByte byte | ErrLength | ErrShort | ErrSyntax | ErrRange
| ErrSeparators | ErrChecksum | ErrNegative | ErrOverflow

text \<open>\<open>hex.Decode(dst, src)\<close>: the number of bytes written, the error, and \<open>dst\<close>; it panics when \<open>dst\<close> is full.\<close>

fun hex_decode_loop :: "byte list \<Rightarrow> nat \<Rightarrow> byte list \<Rightarrow> (nat \<times> text_error option \<times> byte list) option" where
  "hex_decode_loop dst i [] = Some (i, None, dst)"
| "hex_decode_loop dst i [p] =
     Some (i, Some (case fromHexChar p of None \<Rightarrow> ErrInvalidByte p | Some a \<Rightarrow> ErrLength), dst)"
| "hex_decode_loop dst i (p # q # src) =
     (case fromHexChar p of
        None \<Rightarrow> Some (i, Some (ErrInvalidByte p), dst)
      | Some a \<Rightarrow>
          (case fromHexChar q of
             None \<Rightarrow> Some (i, Some (ErrInvalidByte q), dst)
           | Some b \<Rightarrow>
               if i < length dst then hex_decode_loop (dst[i := push_bit 4 a OR b]) (i + 1) src else None))"

definition hex_Decode :: "byte list \<Rightarrow> byte list \<Rightarrow> (nat \<times> text_error option \<times> byte list) option" where
  "hex_Decode dst src = hex_decode_loop dst 0 src"

definition bytes_TrimPrefix :: "byte list \<Rightarrow> byte list \<Rightarrow> byte list" where
  "bytes_TrimPrefix s pre = (if take (length pre) s = pre then drop (length pre) s else s)"

text \<open>\<open>bytes.Split\<close> with a separator that is not empty; \<open>cur\<close> is the part read so far.\<close>

function split_loop :: "byte list \<Rightarrow> byte list \<Rightarrow> byte list \<Rightarrow> byte list list" where
  "split_loop sep cur [] = [cur]"
| "split_loop sep cur (b # s) =
     (if take (length sep) (b # s) = sep then cur # split_loop sep [] (drop (length sep - 1) s)
      else split_loop sep (cur @ [b]) s)"
  by pat_completeness auto
termination by (relation "measure (\<lambda>(sep, cur, s). length s)") auto

definition bytes_Split :: "byte list \<Rightarrow> byte list \<Rightarrow> byte list list" where
  "bytes_Split s sep = split_loop sep [] s"

text \<open>\<open>strconv.ParseUint(s, 10, 64)\<close>: the value that comes with an error is 0, or the greatest one out of range.\<close>

fun ParseUint_loop :: "nat \<Rightarrow> byte list \<Rightarrow> u64 \<times> text_error option" where
  "ParseUint_loop n [] = (word_of_nat n, None)"
| "ParseUint_loop n (c # s) =
     (if \<not> is_digit c then (0, Some ErrSyntax)
      else let n' = 10 * n + (unat c - 48) in
        if 2 ^ 64 \<le> n' then (- 1, Some ErrRange) else ParseUint_loop n' s)"

definition strconv_ParseUint :: "byte list \<Rightarrow> u64 \<times> text_error option" where
  "strconv_ParseUint s = (if s = [] then (0, Some ErrSyntax) else ParseUint_loop 0 s)"

section \<open>Hex forms\<close>

definition stringerHex :: "string \<Rightarrow> byte list \<Rightarrow> byte list" where
  "stringerHex pre data = str_bytes pre @ str_bytes '':'' @ hex_EncodeToString data"

definition marshalHex :: "string \<Rightarrow> byte list \<Rightarrow> byte list" where
  "marshalHex pre data = stringerHex pre data"

definition unmarshalHex :: "byte list \<Rightarrow> string \<Rightarrow> byte list \<Rightarrow> (text_error option \<times> byte list) option" where
  "unmarshalHex dst pre data = do {
     (n, err, dst') \<leftarrow> hex_Decode dst (bytes_TrimPrefix data (str_bytes (pre @ '':'')));
     Some (if n < length dst' then Some ErrShort else err, dst')
   }"

definition marshalJSONHex :: "string \<Rightarrow> byte list \<Rightarrow> byte list" where
  "marshalJSONHex pre data = [34] @ stringerHex pre data @ [34]"

definition unmarshalJSONHex :: "byte list \<Rightarrow> string \<Rightarrow> byte list \<Rightarrow> (text_error option \<times> byte list) option" where
  "unmarshalJSONHex dst pre data = unmarshalHex dst pre (trim_quotes data)"

text \<open>The methods of the types that are byte arrays: each gives its size and prefix.\<close>

definition array_result :: "(text_error option \<times> byte list) option \<Rightarrow> (text_error option \<times> 'a::len word) option" where
  "array_result r = map_option (map_prod id array_word) r"

definition Hash256_String :: "hash256 \<Rightarrow> byte list" where
  "Hash256_String h = stringerHex ''h'' (array_bytes 32 h)"

definition Hash256_MarshalText :: "hash256 \<Rightarrow> byte list" where
  "Hash256_MarshalText h = marshalHex ''h'' (array_bytes 32 h)"

definition Hash256_UnmarshalText :: "hash256 \<Rightarrow> byte list \<Rightarrow> (text_error option \<times> hash256) option" where
  "Hash256_UnmarshalText h b = array_result (unmarshalHex (array_bytes 32 h) ''h'' b)"

definition Hash256_MarshalJSON :: "hash256 \<Rightarrow> byte list" where
  "Hash256_MarshalJSON h = marshalJSONHex ''h'' (array_bytes 32 h)"

definition Hash256_UnmarshalJSON :: "hash256 \<Rightarrow> byte list \<Rightarrow> (text_error option \<times> hash256) option" where
  "Hash256_UnmarshalJSON h b = array_result (unmarshalJSONHex (array_bytes 32 h) ''h'' b)"

definition BlockID_String :: "block_id \<Rightarrow> byte list" where
  "BlockID_String x = stringerHex ''bid'' (array_bytes 32 x)"

definition BlockID_MarshalText :: "block_id \<Rightarrow> byte list" where
  "BlockID_MarshalText x = marshalHex ''bid'' (array_bytes 32 x)"

definition BlockID_UnmarshalText :: "block_id \<Rightarrow> byte list \<Rightarrow> (text_error option \<times> block_id) option" where
  "BlockID_UnmarshalText x b = array_result (unmarshalHex (array_bytes 32 x) ''bid'' b)"

definition BlockID_MarshalJSON :: "block_id \<Rightarrow> byte list" where
  "BlockID_MarshalJSON x = marshalJSONHex ''bid'' (array_bytes 32 x)"

definition BlockID_UnmarshalJSON :: "block_id \<Rightarrow> byte list \<Rightarrow> (text_error option \<times> block_id) option" where
  "BlockID_UnmarshalJSON x b = array_result (unmarshalJSONHex (array_bytes 32 x) ''bid'' b)"

definition PublicKey_String :: "public_key \<Rightarrow> byte list" where
  "PublicKey_String x = stringerHex ''ed25519'' (array_bytes 32 x)"

definition PublicKey_MarshalText :: "public_key \<Rightarrow> byte list" where
  "PublicKey_MarshalText x = marshalHex ''ed25519'' (array_bytes 32 x)"

definition PublicKey_UnmarshalText :: "public_key \<Rightarrow> byte list \<Rightarrow> (text_error option \<times> public_key) option" where
  "PublicKey_UnmarshalText x b = array_result (unmarshalHex (array_bytes 32 x) ''ed25519'' b)"

definition PublicKey_MarshalJSON :: "public_key \<Rightarrow> byte list" where
  "PublicKey_MarshalJSON x = marshalJSONHex ''ed25519'' (array_bytes 32 x)"

definition PublicKey_UnmarshalJSON :: "public_key \<Rightarrow> byte list \<Rightarrow> (text_error option \<times> public_key) option" where
  "PublicKey_UnmarshalJSON x b = array_result (unmarshalJSONHex (array_bytes 32 x) ''ed25519'' b)"

definition TransactionID_String :: "transaction_id \<Rightarrow> byte list" where
  "TransactionID_String x = stringerHex ''txid'' (array_bytes 32 x)"

definition TransactionID_MarshalText :: "transaction_id \<Rightarrow> byte list" where
  "TransactionID_MarshalText x = marshalHex ''txid'' (array_bytes 32 x)"

definition TransactionID_UnmarshalText :: "transaction_id \<Rightarrow> byte list \<Rightarrow> (text_error option \<times> transaction_id) option" where
  "TransactionID_UnmarshalText x b = array_result (unmarshalHex (array_bytes 32 x) ''txid'' b)"

definition TransactionID_MarshalJSON :: "transaction_id \<Rightarrow> byte list" where
  "TransactionID_MarshalJSON x = marshalJSONHex ''txid'' (array_bytes 32 x)"

definition TransactionID_UnmarshalJSON :: "transaction_id \<Rightarrow> byte list \<Rightarrow> (text_error option \<times> transaction_id) option" where
  "TransactionID_UnmarshalJSON x b = array_result (unmarshalJSONHex (array_bytes 32 x) ''txid'' b)"

definition Signature_String :: "signature \<Rightarrow> byte list" where
  "Signature_String x = stringerHex ''sig'' (array_bytes 64 x)"

definition Signature_MarshalText :: "signature \<Rightarrow> byte list" where
  "Signature_MarshalText x = marshalHex ''sig'' (array_bytes 64 x)"

definition Signature_UnmarshalText :: "signature \<Rightarrow> byte list \<Rightarrow> (text_error option \<times> signature) option" where
  "Signature_UnmarshalText x b = array_result (unmarshalHex (array_bytes 64 x) ''sig'' b)"

definition Signature_MarshalJSON :: "signature \<Rightarrow> byte list" where
  "Signature_MarshalJSON x = marshalJSONHex ''sig'' (array_bytes 64 x)"

definition Signature_UnmarshalJSON :: "signature \<Rightarrow> byte list \<Rightarrow> (text_error option \<times> signature) option" where
  "Signature_UnmarshalJSON x b = array_result (unmarshalJSONHex (array_bytes 64 x) ''sig'' b)"

section \<open>Indices and element IDs\<close>

text \<open>The \<open>%d\<close> and \<open>%x\<close> of package fmt are the decimal numeral and the hex text.\<close>

definition ChainIndex_String :: "chain_index \<Rightarrow> byte list" where
  "ChainIndex_String ci =
     digits10 (unat (ci_Height ci)) @ str_bytes ''::'' @ hex_EncodeToString (drop 28 (array_bytes 32 (ci_ID ci)))"

definition ChainIndex_MarshalText :: "chain_index \<Rightarrow> byte list" where
  "ChainIndex_MarshalText ci =
     digits10 (unat (ci_Height ci)) @ str_bytes ''::'' @ hex_EncodeToString (array_bytes 32 (ci_ID ci))"

definition ChainIndex_UnmarshalText :: "chain_index \<Rightarrow> byte list \<Rightarrow> (text_error option \<times> chain_index) option" where
  "ChainIndex_UnmarshalText ci b =
     (let parts = bytes_Split b (str_bytes ''::'') in
      if length parts \<noteq> 2 then Some (Some ErrSeparators, ci)
      else
        let (height, err) = strconv_ParseUint (parts ! 0); ci = ci\<lparr>ci_Height := height\<rparr> in
        if err \<noteq> None then Some (err, ci)
        else do {
          (n, err, i) \<leftarrow> hex_Decode (array_bytes 32 (ci_ID ci)) (parts ! 1);
          let ci = ci\<lparr>ci_ID := array_word i\<rparr>;
          if err \<noteq> None then Some (err, ci)
          else if n < 32 then Some (Some ErrShort, ci)
          else Some (None, ci)
        })"

definition zero_chain_index :: chain_index where
  "zero_chain_index = \<lparr>ci_Height = 0, ci_ID = 0\<rparr>"

definition ParseChainIndex :: "byte list \<Rightarrow> (text_error option \<times> chain_index) option" where
  "ParseChainIndex s = ChainIndex_UnmarshalText zero_chain_index s"

definition ElementID_String :: "element_id \<Rightarrow> byte list" where
  "ElementID_String eid =
     str_bytes ''elem:'' @ hex_EncodeToString (array_bytes 32 (ei_Source eid)) @ str_bytes '':''
     @ digits10 (unat (ei_Index eid))"

definition ElementID_MarshalText :: "element_id \<Rightarrow> byte list" where
  "ElementID_MarshalText eid = ElementID_String eid"

definition ElementID_UnmarshalText :: "element_id \<Rightarrow> byte list \<Rightarrow> (text_error option \<times> element_id) option" where
  "ElementID_UnmarshalText eid b =
     (let parts = bytes_Split b (str_bytes '':'') in
      if length parts \<noteq> 3 then Some (Some ErrSeparators, eid)
      else do {
        (n, err, s) \<leftarrow> hex_Decode (array_bytes 32 (ei_Source eid)) (parts ! 1);
        let eid = eid\<lparr>ei_Source := array_word s\<rparr>;
        if err \<noteq> None then Some (err, eid)
        else if n < 32 then Some (Some ErrShort, eid)
        else
          let (index, err) = strconv_ParseUint (parts ! 2) in Some (err, eid\<lparr>ei_Index := index\<rparr>)
      })"

section \<open>Addresses\<close>

definition address_checksum :: "hashfn \<Rightarrow> byte list \<Rightarrow> byte list" where
  "address_checksum H a = take 6 (array_bytes 32 (HashBytes H a))"

definition Address_String :: "hashfn \<Rightarrow> address \<Rightarrow> byte list" where
  "Address_String H a = stringerHex ''addr'' (array_bytes 32 a @ address_checksum H (array_bytes 32 a))"

definition Address_MarshalText :: "hashfn \<Rightarrow> address \<Rightarrow> byte list" where
  "Address_MarshalText H a = Address_String H a"

text \<open>The address is copied from the buffer even when there is an error.\<close>

definition Address_UnmarshalText :: "hashfn \<Rightarrow> byte list \<Rightarrow> (text_error option \<times> address) option" where
  "Address_UnmarshalText H b = do {
     (n, err, withChecksum) \<leftarrow> hex_Decode (replicate 38 0) (bytes_TrimPrefix b (str_bytes ''addr:''));
     let err = (if err \<noteq> None then err
                else if n \<noteq> 38 then Some ErrShort
                else if address_checksum H (take 32 withChecksum) \<noteq> drop 32 withChecksum then Some ErrChecksum
                else None);
     Some (err, array_word (take 32 withChecksum))
   }"

definition Address_MarshalJSON :: "hashfn \<Rightarrow> address \<Rightarrow> byte list" where
  "Address_MarshalJSON H a = marshalJSONHex ''addr'' (array_bytes 32 a @ address_checksum H (array_bytes 32 a))"

definition Address_UnmarshalJSON :: "hashfn \<Rightarrow> byte list \<Rightarrow> (text_error option \<times> address) option" where
  "Address_UnmarshalJSON H b = Address_UnmarshalText H (trim_quotes b)"

definition ParseAddress :: "hashfn \<Rightarrow> byte list \<Rightarrow> (text_error option \<times> address) option" where
  "ParseAddress H s = Address_UnmarshalText H s"

section \<open>Work\<close>

text \<open>
  \<open>big.Int.UnmarshalText\<close> reads a numeral in the base its prefix names (\<open>0x\<close>, \<open>0o\<close>, \<open>0b\<close>, or \<open>0\<close> for octal),
  with an optional sign and single underscores between digits. \<open>scan_digits\<close> is its scanner: the last character
  read is a digit, an underscore or neither; it gives the value, the number of digits, whether an underscore is
  misplaced, and the rest.
\<close>

datatype scanned = Start | Digit | Underscore

definition digit_value :: "byte \<Rightarrow> nat" where
  "digit_value c =
     (if 48 \<le> c \<and> c \<le> 57 then unat (c - 48)
      else if 97 \<le> c \<and> c \<le> 122 then unat (c - 87)
      else if 65 \<le> c \<and> c \<le> 90 then unat (c - 55)
      else 63)"

fun scan_digits :: "nat \<Rightarrow> nat \<Rightarrow> nat \<Rightarrow> bool \<Rightarrow> scanned \<Rightarrow> byte list \<Rightarrow> nat \<times> nat \<times> bool \<times> byte list" where
  "scan_digits base v count bad prev [] = (v, count, bad \<or> prev = Underscore, [])"
| "scan_digits base v count bad prev (c # s) =
     (if c = 95 then scan_digits base v count (bad \<or> prev \<noteq> Digit) Underscore s
      else if base \<le> digit_value c then (v, count, bad \<or> prev = Underscore, c # s)
      else scan_digits base (v * base + digit_value c) (count + 1) bad Digit s)"

definition number_base :: "byte list \<Rightarrow> nat \<times> bool \<times> scanned \<times> byte list" where
  "number_base s =
     (case s of
        (c # c' # t) \<Rightarrow>
          if c = 48 then
            (if c' \<in> {98, 66} then (2, False, Digit, t)
             else if c' \<in> {111, 79} then (8, False, Digit, t)
             else if c' \<in> {120, 88} then (16, False, Digit, t)
             else (8, True, Digit, c' # t))
          else (10, False, Start, s)
      | _ \<Rightarrow> (10, False, Start, s))"

definition nat_scan :: "byte list \<Rightarrow> nat option" where
  "nat_scan s =
     (let (base, octal0, prev, t) = number_base s; (v, count, bad, rest) = scan_digits base 0 0 False prev t
      in if bad \<or> rest \<noteq> [] \<or> count = 0 \<and> \<not> octal0 then None else Some v)"

definition big_UnmarshalText :: "byte list \<Rightarrow> int option" where
  "big_UnmarshalText s =
     (case s of
        [] \<Rightarrow> None
      | c # t \<Rightarrow> if c = 45 then map_option (\<lambda>n. - int n) (nat_scan t)
                 else if c = 43 then map_option int (nat_scan t)
                 else map_option int (nat_scan s))"

definition Work_String :: "work \<Rightarrow> byte list" where
  "Work_String w = digits10 (unat (NumHashes w))"

definition Work_MarshalText :: "work \<Rightarrow> byte list" where
  "Work_MarshalText w = digits10 (unat (NumHashes w))"

definition Work_UnmarshalText :: "work \<Rightarrow> byte list \<Rightarrow> text_error option \<times> work" where
  "Work_UnmarshalText w b =
     (case big_UnmarshalText b of
        None \<Rightarrow> (Some ErrSyntax, w)
      | Some i \<Rightarrow>
          if i < 0 then (Some ErrNegative, w)
          else if bit_len (nat i) > 256 then (Some ErrOverflow, w)
          else (None, \<lparr>NumHashes = word_of_int i\<rparr>))"

definition Work_MarshalJSON :: "work \<Rightarrow> byte list" where
  "Work_MarshalJSON w = [34] @ digits10 (unat (NumHashes w)) @ [34]"

definition Work_UnmarshalJSON :: "work \<Rightarrow> byte list \<Rightarrow> text_error option \<times> work" where
  "Work_UnmarshalJSON w b = Work_UnmarshalText w (trim_quotes b)"

section \<open>Hex texts are read back\<close>

lemma hex_digit_back: "n < 16 \<Longrightarrow> fromHexChar (hex_digit n) = Some n"
proof -
  assume "n < 16"
  then have n: "unat n < 16" by (simp add: word_less_nat_alt)
  then have "unat (48 + n) = 48 + unat n" "unat (87 + n) = 87 + unat n" by (simp_all add: unat_word_ariths)
  then show ?thesis using n by (auto simp: hex_digit_def fromHexChar_def word_le_nat_alt word_less_nat_alt)
qed

lemma nibbles: "push_bit 4 (b div 16) OR (b mod 16) = (b :: byte)"
proof -
  have "b div 16 = drop_bit 4 b" "b mod 16 = take_bit 4 b"
    by (simp_all add: drop_bit_eq_div take_bit_eq_mod)
  then show ?thesis by (simp only:) (auto intro!: bit_word_eqI simp: bit_simps)
qed

lemma nibble_less: "b div 16 < 16" "b mod 16 < (16 :: byte)"
proof -
  have "unat b < 256" using unsigned_less [of b] by simp
  then show "b div 16 < 16" by (simp add: word_less_nat_alt unat_div less_mult_imp_div_less)
  show "b mod 16 < 16" by (simp add: word_less_nat_alt unat_mod)
qed

lemma hex_decode_loop_encoded:
  "length bs \<le> length rest \<Longrightarrow>
   hex_decode_loop (pre @ rest) (length pre) (hex_EncodeToString bs)
     = Some (length pre + length bs, None, pre @ bs @ drop (length bs) rest)"
proof (induction bs arbitrary: pre rest)
  case (Cons b bs)
  then obtain r rest' where rest: "rest = r # rest'" by (cases rest) auto
  have "hex_decode_loop (pre @ rest) (length pre) (hex_EncodeToString (b # bs))
      = hex_decode_loop ((pre @ [b]) @ rest') (length (pre @ [b])) (hex_EncodeToString bs)"
    by (simp add: hex_EncodeToString_def hex_digit_back nibble_less nibbles rest)
  then show ?case using Cons.IH [of rest' "pre @ [b]"] Cons.prems by (simp add: rest)
qed (simp add: hex_EncodeToString_def)

lemma hex_Decode_encoded:
  "length bs \<le> length dst \<Longrightarrow>
   hex_Decode dst (hex_EncodeToString bs) = Some (length bs, None, bs @ drop (length bs) dst)"
  using hex_decode_loop_encoded [of bs dst "[]"] by (simp add: hex_Decode_def)

text \<open>What \<open>hex.Decode\<close> does on any text: its value, if it is one, and the panic when there is no room.\<close>

fun hex_value :: "byte list \<Rightarrow> byte list option" where
  "hex_value [] = Some []"
| "hex_value [p] = None"
| "hex_value (p # q # src) = do {
     a \<leftarrow> fromHexChar p; b \<leftarrow> fromHexChar q; bs \<leftarrow> hex_value src; Some ((push_bit 4 a OR b) # bs)
   }"

lemma hex_decode_loop_value:
  assumes "i \<le> length dst"
  shows "hex_decode_loop dst i src = Some (n, None, dst') \<longleftrightarrow>
     (\<exists>bs. hex_value src = Some bs \<and> i + length bs \<le> length dst \<and> n = i + length bs
        \<and> dst' = take i dst @ bs @ drop (i + length bs) dst)"
  using assms
proof (induction dst i src rule: hex_decode_loop.induct)
  case (3 dst i p q src)
  show ?case
  proof (cases "i < length dst")
    case True
    then have t: "take (Suc i) (dst[i := x]) = take i dst @ [x]" for x by (simp add: take_Suc_conv_app_nth)
    show ?thesis
      using 3 True by (cases "hex_value src") (auto split: option.splits simp: t)
  next
    case False
    then show ?thesis by (auto split: option.splits Option.bind_splits)
  qed
qed auto

lemma hex_decode_loop_panics:
  "hex_decode_loop dst i src = None \<longleftrightarrow>
     i \<le> length dst \<and> 2 * (length dst - i) + 2 \<le> length src
     \<and> list_all (\<lambda>c. fromHexChar c \<noteq> None) (take (2 * (length dst - i) + 2) src)" if "i \<le> length dst"
  using that
proof (induction dst i src rule: hex_decode_loop.induct)
  case (3 dst i p q src)
  show ?case
  proof (cases "i < length dst")
    case True
    then have "2 * (length dst - i) + 2 = Suc (Suc (2 * (length dst - Suc i) + 2))" by simp
    then show ?thesis using 3 True by (auto split: option.splits)
  next
    case False
    then have "length dst = i" using 3 by simp
    then show ?thesis by (auto split: option.splits)
  qed
qed auto

lemma bytes_TrimPrefix_append [simp]: "bytes_TrimPrefix (pre @ s) pre = s"
  by (simp add: bytes_TrimPrefix_def)

lemma str_bytes_append: "str_bytes (s @ t) = str_bytes s @ str_bytes t"
  by (simp add: str_bytes_def)

lemma length_hex_EncodeToString [simp]: "length (hex_EncodeToString bs) = 2 * length bs"
  by (induction bs) (simp_all add: hex_EncodeToString_def)

lemma hex_text_props:
  assumes "c \<in> set (hex_EncodeToString bs)"
  shows "fromHexChar c \<noteq> None"
  using assms hex_digit_back [OF nibble_less(1)] hex_digit_back [OF nibble_less(2)]
  by (auto simp: hex_EncodeToString_def)

lemma fromHexChar_not_special: "fromHexChar c \<noteq> None \<Longrightarrow> c \<noteq> 34 \<and> c \<noteq> 58"
  by (auto simp: fromHexChar_def)

lemma trim_quotes_quoted:
  assumes "s \<noteq> []" "hd s \<noteq> 34" "last s \<noteq> 34"
  shows "trim_quotes ([34] @ s @ [34]) = s"
proof -
  have "dropWhile (\<lambda>b. b = 34) ([34] @ s @ [34]) = s @ [34]" using assms(1,2) by (cases s) simp_all
  moreover have "dropWhile (\<lambda>b. b = 34) (rev (s @ [34])) = rev s"
    using assms(1,3) by (cases s rule: rev_cases) simp_all
  ultimately show ?thesis by (simp only: trim_quotes_def rev_rev_ident)
qed

lemma unmarshalHex_back:
  assumes "length bs = length dst"
  shows "unmarshalHex dst pre (stringerHex pre bs) = Some (None, bs)"
proof -
  have "bytes_TrimPrefix (stringerHex pre bs) (str_bytes (pre @ '':'')) = hex_EncodeToString bs"
    unfolding stringerHex_def append_assoc [symmetric] str_bytes_append [symmetric] by simp
  then show ?thesis using assms by (simp add: unmarshalHex_def hex_Decode_encoded)
qed

lemma stringerHex_not_quoted:
  assumes "pre \<noteq> []" "list_all (\<lambda>c. of_char c \<noteq> (34 :: byte)) pre"
  shows "stringerHex pre bs \<noteq> []" "hd (stringerHex pre bs) \<noteq> 34" "last (stringerHex pre bs) \<noteq> 34"
proof -
  show "stringerHex pre bs \<noteq> []" using assms(1) by (simp add: stringerHex_def str_bytes_def)
  show "hd (stringerHex pre bs) \<noteq> 34" using assms by (cases pre) (simp_all add: stringerHex_def str_bytes_def)
  show "last (stringerHex pre bs) \<noteq> 34"
  proof (cases "hex_EncodeToString bs = []")
    case True
    then show ?thesis by (simp add: stringerHex_def str_bytes_def)
  next
    case False
    then show ?thesis
      using hex_text_props [of "last (hex_EncodeToString bs)" bs] fromHexChar_not_special
      by (auto simp: stringerHex_def)
  qed
qed

lemma unmarshalJSONHex_back:
  assumes "length bs = length dst" "pre \<noteq> []" "list_all (\<lambda>c. of_char c \<noteq> (34 :: byte)) pre"
  shows "unmarshalJSONHex dst pre (marshalJSONHex pre bs) = Some (None, bs)"
  unfolding unmarshalJSONHex_def marshalJSONHex_def
  by (simp only: trim_quotes_quoted [OF stringerHex_not_quoted [OF assms(2,3)]] unmarshalHex_back [OF assms(1)])

section \<open>The interface of the text forms\<close>

text \<open>What is written is read back, whatever the receiver held.\<close>

locale text_form =
  fixes marshal :: "'a \<Rightarrow> byte list" and unmarshal :: "'a \<Rightarrow> byte list \<Rightarrow> (text_error option \<times> 'a) option"
  assumes read_back: "unmarshal x0 (marshal x) = Some (None, x)"
begin

lemma marshal_inj: "marshal x = marshal y \<longleftrightarrow> x = y"
  using read_back by (metis option.inject prod.inject)

end

interpretation hash256_text: text_form Hash256_MarshalText Hash256_UnmarshalText
  by unfold_locales
    (simp add: Hash256_MarshalText_def Hash256_UnmarshalText_def marshalHex_def unmarshalHex_back array_result_def array_word_bytes)

interpretation hash256_json: text_form Hash256_MarshalJSON Hash256_UnmarshalJSON
  by unfold_locales
    (simp add: Hash256_MarshalJSON_def Hash256_UnmarshalJSON_def unmarshalJSONHex_back array_result_def array_word_bytes)

interpretation block_id_text: text_form BlockID_MarshalText BlockID_UnmarshalText
  by unfold_locales
    (simp add: BlockID_MarshalText_def BlockID_UnmarshalText_def marshalHex_def unmarshalHex_back array_result_def array_word_bytes)

interpretation block_id_json: text_form BlockID_MarshalJSON BlockID_UnmarshalJSON
  by unfold_locales
    (simp add: BlockID_MarshalJSON_def BlockID_UnmarshalJSON_def unmarshalJSONHex_back array_result_def array_word_bytes)

interpretation public_key_text: text_form PublicKey_MarshalText PublicKey_UnmarshalText
  by unfold_locales
    (simp add: PublicKey_MarshalText_def PublicKey_UnmarshalText_def marshalHex_def unmarshalHex_back array_result_def array_word_bytes)

interpretation public_key_json: text_form PublicKey_MarshalJSON PublicKey_UnmarshalJSON
  by unfold_locales
    (simp add: PublicKey_MarshalJSON_def PublicKey_UnmarshalJSON_def unmarshalJSONHex_back array_result_def array_word_bytes)

interpretation transaction_id_text: text_form TransactionID_MarshalText TransactionID_UnmarshalText
  by unfold_locales
    (simp add: TransactionID_MarshalText_def TransactionID_UnmarshalText_def marshalHex_def unmarshalHex_back array_result_def array_word_bytes)

interpretation transaction_id_json: text_form TransactionID_MarshalJSON TransactionID_UnmarshalJSON
  by unfold_locales
    (simp add: TransactionID_MarshalJSON_def TransactionID_UnmarshalJSON_def unmarshalJSONHex_back array_result_def array_word_bytes)

interpretation signature_text: text_form Signature_MarshalText Signature_UnmarshalText
  by unfold_locales
    (simp add: Signature_MarshalText_def Signature_UnmarshalText_def marshalHex_def unmarshalHex_back array_result_def array_word_bytes)

interpretation signature_json: text_form Signature_MarshalJSON Signature_UnmarshalJSON
  by unfold_locales
    (simp add: Signature_MarshalJSON_def Signature_UnmarshalJSON_def unmarshalJSONHex_back array_result_def array_word_bytes)

section \<open>Texts with separators\<close>

lemma split_loop_none: "sep \<noteq> [] \<Longrightarrow> hd sep \<notin> set s \<Longrightarrow> split_loop sep cur s = [cur @ s]"
  by (induction s arbitrary: cur) (auto simp: neq_Nil_conv)

lemma split_loop_part:
  assumes "sep \<noteq> []" "hd sep \<notin> set s"
  shows "split_loop sep cur (s @ sep @ t) = (cur @ s) # split_loop sep [] t"
  using assms(2)
proof (induction s arbitrary: cur)
  case Nil
  obtain c sep' where sep: "sep = c # sep'" using assms(1) by (cases sep) auto
  show ?case by (simp add: sep)
next
  case (Cons b s)
  then have "take (length sep) (b # s @ sep @ t) \<noteq> sep" using assms(1) by (cases sep) auto
  then show ?case using Cons by simp
qed

lemma digits10_chars: "c \<in> set (digits10 n) \<Longrightarrow> is_digit c"
  using digits10_props [of n] by (simp add: list_all_iff)

lemma digits10_no_colon: "58 \<notin> set (digits10 n)"
  using digits10_chars [of 58 n] by (auto simp: is_digit_def)

lemma hex_no_colon: "58 \<notin> set (hex_EncodeToString bs)"
  using hex_text_props [of 58 bs] by (auto simp: fromHexChar_def)

lemma foldl_digits_ge: "n \<le> foldl (\<lambda>a b. 10 * a + (unat b - 48)) n (s :: byte list)"
proof (induction s arbitrary: n)
  case (Cons c s)
  have "n \<le> 10 * n + (unat c - 48)" by simp
  also have "\<dots> \<le> foldl (\<lambda>a b. 10 * a + (unat b - 48)) (10 * n + (unat c - 48)) s" by (rule Cons.IH)
  finally show ?case by simp
qed simp

lemma ParseUint_loop_digits:
  "list_all is_digit s \<Longrightarrow> foldl (\<lambda>a b. 10 * a + (unat b - 48)) n s < 2 ^ 64 \<Longrightarrow>
   ParseUint_loop n s = (word_of_nat (foldl (\<lambda>a b. 10 * a + (unat b - 48)) n s), None)"
proof (induction s arbitrary: n)
  case (Cons c s)
  have "10 * n + (unat c - 48) < 2 ^ 64"
    using foldl_digits_ge [of "10 * n + (unat c - 48)" s] Cons.prems(2) by simp
  then show ?case using Cons by (simp add: Let_def)
qed simp

lemma ParseUint_digits10: "strconv_ParseUint (digits10 (unat (u :: u64))) = (u, None)"
proof -
  have "ParseUint_loop 0 (digits10 (unat u)) = (word_of_nat (unat u), None)"
    using ParseUint_loop_digits [of "digits10 (unat u)" 0] digits10_props [of "unat u"] unat64_lt [of u] by simp
  then show ?thesis using digits10_props [of "unat u"] by (simp add: strconv_ParseUint_def)
qed

lemma array_bytes_decoded:
  "hex_Decode (array_bytes n x) (hex_EncodeToString (array_bytes n y)) = Some (n, None, array_bytes n y)"
  by (simp add: hex_Decode_encoded)

interpretation chain_index_text: text_form ChainIndex_MarshalText ChainIndex_UnmarshalText
proof unfold_locales
  fix x0 x :: chain_index
  have "bytes_Split (ChainIndex_MarshalText x) (str_bytes ''::'')
      = [digits10 (unat (ci_Height x)), hex_EncodeToString (array_bytes 32 (ci_ID x))]"
    unfolding bytes_Split_def ChainIndex_MarshalText_def
    by (subst split_loop_part)
      (simp_all add: str_bytes_def digits10_no_colon split_loop_none hex_no_colon)
  then show "ChainIndex_UnmarshalText x0 (ChainIndex_MarshalText x) = Some (None, x)"
    by (simp add: ChainIndex_UnmarshalText_def ParseUint_digits10 array_bytes_decoded array_word_bytes Let_def)
qed

interpretation element_id_text: text_form ElementID_MarshalText ElementID_UnmarshalText
proof unfold_locales
  fix x0 x :: element_id
  let ?h = "hex_EncodeToString (array_bytes 32 (ei_Source x))"
  have e: "str_bytes ''elem:'' = str_bytes ''elem'' @ [58]" "str_bytes '':'' = [58]"
    "58 \<notin> set (str_bytes ''elem'')" by (simp_all add: str_bytes_def)
  have "bytes_Split (ElementID_MarshalText x) (str_bytes '':'')
      = [str_bytes ''elem'', ?h, digits10 (unat (ei_Index x))]"
    unfolding bytes_Split_def ElementID_MarshalText_def ElementID_String_def e append_assoc
    using split_loop_part [of "[58]" "str_bytes ''elem''" "[]" "?h @ [58] @ digits10 (unat (ei_Index x))"]
      split_loop_part [of "[58]" ?h "[]" "digits10 (unat (ei_Index x))"]
      split_loop_none [of "[58]" "digits10 (unat (ei_Index x))" "[]"]
    by (simp add: e digits10_no_colon hex_no_colon)
  then show "ElementID_UnmarshalText x0 (ElementID_MarshalText x) = Some (None, x)"
    by (simp add: ElementID_UnmarshalText_def ParseUint_digits10 array_bytes_decoded array_word_bytes Let_def)
qed

section \<open>Addresses and work\<close>

lemma length_address_checksum [simp]: "length (address_checksum H b) = 6"
  by (simp add: address_checksum_def)

lemma address_back: "Address_UnmarshalText H (Address_String H a) = Some (None, a)"
proof -
  let ?b = "array_bytes 32 a" let ?d = "?b @ address_checksum H ?b"
  have l: "length ?d = 38" by (simp add: address_checksum_def)
  have "str_bytes ''addr:'' = str_bytes ''addr'' @ str_bytes '':''" by (simp add: str_bytes_def)
  then have "bytes_TrimPrefix (Address_String H a) (str_bytes ''addr:'') = hex_EncodeToString ?d"
    unfolding Address_String_def stringerHex_def by (metis append_assoc bytes_TrimPrefix_append)
  moreover have "hex_Decode (replicate 38 0) (hex_EncodeToString ?d) = Some (38, None, ?d)"
    using hex_Decode_encoded [of ?d "replicate 38 0"] l by simp
  ultimately show ?thesis by (simp add: Address_UnmarshalText_def array_word_bytes)
qed

interpretation address_text: text_form "Address_MarshalText H" "\<lambda>_. Address_UnmarshalText H"
  by unfold_locales (simp add: Address_MarshalText_def address_back)

interpretation address_json: text_form "Address_MarshalJSON H" "\<lambda>_. Address_UnmarshalJSON H"
proof unfold_locales
  fix a :: address
  have "trim_quotes (Address_MarshalJSON H a) = Address_String H a"
    unfolding Address_MarshalJSON_def marshalJSONHex_def Address_String_def
    by (intro trim_quotes_quoted stringerHex_not_quoted) simp_all
  then show "Address_UnmarshalJSON H (Address_MarshalJSON H a) = Some (None, a)"
    by (simp add: Address_UnmarshalJSON_def address_back)
qed

lemma digit_value_digit: "is_digit c \<Longrightarrow> digit_value c = unat c - 48 \<and> \<not> 10 \<le> unat c - 48 \<and> c \<noteq> 95"
  by (auto simp: is_digit_def digit_value_def word_le_nat_alt unat_sub)

lemma scan_digits10:
  "list_all is_digit s \<Longrightarrow> prev \<noteq> Underscore \<Longrightarrow>
   scan_digits 10 v count bad prev s = (foldl (\<lambda>a b. 10 * a + (unat b - 48)) v s, count + length s, bad, [])"
  by (induction s arbitrary: v count prev) (auto simp: digit_value_digit mult.commute)

lemma hd_digits10: "0 < n \<Longrightarrow> hd (digits10 n) \<noteq> 48"
proof (induction n rule: digits10.induct)
  case (1 n)
  show ?case
  proof (cases "n < 10")
    case True
    then have "unat (48 + word_of_nat n :: byte) = 48 + n" using digit_byte [of n] by simp
    then have "48 + word_of_nat n \<noteq> (48 :: byte)" using 1(2) by auto
    then show ?thesis using True by (simp add: digits10.simps [of n])
  next
    case False
    then show ?thesis using 1 digits10_props [of "n div 10"] by (simp add: digits10.simps [of n])
  qed
qed

lemma nat_scan_digits10: "nat_scan (digits10 n) = Some n"
proof -
  have "number_base (digits10 n) = (10, False, Start, digits10 n)"
  proof (cases "n = 0")
    case True
    then show ?thesis by (simp add: number_base_def digits10.simps)
  next
    case False
    then show ?thesis using hd_digits10 [of n] by (auto simp: number_base_def split: list.splits)
  qed
  then show ?thesis
    using scan_digits10 [of "digits10 n" Start 0 0 False] digits10_props [of n] by (simp add: nat_scan_def)
qed

lemma big_UnmarshalText_digits10: "big_UnmarshalText (digits10 n) = Some (int n)"
proof -
  obtain b t where bt: "digits10 n = b # t" "is_digit b"
    using digits10_props [of n] by (cases "digits10 n") auto
  then show ?thesis using digits_not_special [OF bt(2)] nat_scan_digits10 [of n]
    by (simp add: big_UnmarshalText_def)
qed

lemma Work_back: "Work_UnmarshalText w0 (Work_MarshalText w) = (None, w)"
proof -
  have "\<not> 256 < bit_len (unat (NumHashes w))"
    using unsigned_less [of "NumHashes w"] by (simp add: not_less bit_len_le_iff)
  then show ?thesis by (simp add: Work_UnmarshalText_def Work_MarshalText_def big_UnmarshalText_digits10)
qed

interpretation work_text: text_form Work_MarshalText "\<lambda>w b. Some (Work_UnmarshalText w b)"
  by unfold_locales (simp add: Work_back)

interpretation work_json: text_form Work_MarshalJSON "\<lambda>w b. Some (Work_UnmarshalJSON w b)"
proof unfold_locales
  fix w0 w :: work
  let ?s = "digits10 (unat (NumHashes w))"
  have ne: "?s \<noteq> []" using digits10_props by blast
  then have "?s \<noteq> []" "hd ?s \<noteq> 34" "last ?s \<noteq> 34"
    using digits10_chars [OF hd_in_set [OF ne]] digits10_chars [OF last_in_set [OF ne]] by (auto simp: is_digit_def)
  from trim_quotes_quoted [OF this] show "Some (Work_UnmarshalJSON w0 (Work_MarshalJSON w)) = Some (None, w)"
    using Work_back [of w0 w] by (simp add: Work_UnmarshalJSON_def Work_MarshalJSON_def Work_MarshalText_def)
qed

section \<open>Properties\<close>

text \<open>C40. Every text form and every JSON form is read back, whatever the receiver held before: hashes, block and
  transaction IDs, public keys, signatures, chain indices, element IDs, addresses with their checksum, and
  work.\<close>

theorem text_forms_roundtrip:
  "Hash256_UnmarshalText h0 (Hash256_MarshalText h) = Some (None, h)
   \<and> Hash256_UnmarshalJSON h0 (Hash256_MarshalJSON h) = Some (None, h)
   \<and> BlockID_UnmarshalText h0 (BlockID_MarshalText h) = Some (None, h)
   \<and> BlockID_UnmarshalJSON h0 (BlockID_MarshalJSON h) = Some (None, h)
   \<and> PublicKey_UnmarshalText h0 (PublicKey_MarshalText h) = Some (None, h)
   \<and> PublicKey_UnmarshalJSON h0 (PublicKey_MarshalJSON h) = Some (None, h)
   \<and> TransactionID_UnmarshalText h0 (TransactionID_MarshalText h) = Some (None, h)
   \<and> TransactionID_UnmarshalJSON h0 (TransactionID_MarshalJSON h) = Some (None, h)
   \<and> Signature_UnmarshalText sig0 (Signature_MarshalText sig) = Some (None, sig)
   \<and> Signature_UnmarshalJSON sig0 (Signature_MarshalJSON sig) = Some (None, sig)
   \<and> ChainIndex_UnmarshalText ci0 (ChainIndex_MarshalText ci) = Some (None, ci)
   \<and> ElementID_UnmarshalText eid0 (ElementID_MarshalText eid) = Some (None, eid)
   \<and> Address_UnmarshalText H (Address_MarshalText H a) = Some (None, a)
   \<and> Address_UnmarshalJSON H (Address_MarshalJSON H a) = Some (None, a)
   \<and> Work_UnmarshalText w0 (Work_MarshalText w) = (None, w)
   \<and> Work_UnmarshalJSON w0 (Work_MarshalJSON w) = (None, w)"
  using work_json.read_back [of w0 w]
  by (simp add: hash256_text.read_back hash256_json.read_back block_id_text.read_back block_id_json.read_back
      public_key_text.read_back public_key_json.read_back transaction_id_text.read_back transaction_id_json.read_back
      signature_text.read_back signature_json.read_back chain_index_text.read_back element_id_text.read_back
      address_text.read_back address_json.read_back Work_back)

text \<open>What the readers of hex texts do on any input.\<close>

lemma unmarshalHex_panics:
  fixes pre :: string and data :: "byte list"
  defines "t \<equiv> bytes_TrimPrefix data (str_bytes (pre @ '':''))"
  shows "unmarshalHex dst pre data = None \<longleftrightarrow>
     2 * length dst + 2 \<le> length t \<and> list_all (\<lambda>c. fromHexChar c \<noteq> None) (take (2 * length dst + 2) t)"
  using hex_decode_loop_panics [of 0 dst t]
  by (auto simp: unmarshalHex_def hex_Decode_def t_def split: Option.bind_splits)

lemma hex_decode_loop_length: "hex_decode_loop dst i src = Some (n, e, dst') \<Longrightarrow> length dst' = length dst"
  by (induction dst i src rule: hex_decode_loop.induct) (auto split: option.splits if_splits)

lemma unmarshalHex_accepts:
  fixes pre :: string and data :: "byte list"
  defines "t \<equiv> bytes_TrimPrefix data (str_bytes (pre @ '':''))"
  shows "unmarshalHex dst pre data = Some (None, bs) \<longleftrightarrow> hex_value t = Some bs \<and> length bs = length dst"
proof -
  have "unmarshalHex dst pre data = Some (None, bs) \<longleftrightarrow>
      (\<exists>n. hex_decode_loop dst 0 t = Some (n, None, bs) \<and> length bs \<le> n)"
    by (auto simp: unmarshalHex_def hex_Decode_def t_def split: Option.bind_splits)
  also have "\<dots> \<longleftrightarrow> hex_value t = Some bs \<and> length bs = length dst"
    using hex_decode_loop_value [of 0 dst t _ bs] hex_decode_loop_length [of dst 0 t _ None bs] by auto
  finally show ?thesis .
qed

lemma Address_accepts:
  "Address_UnmarshalText H b = Some (None, a) \<longleftrightarrow>
     hex_value (bytes_TrimPrefix b (str_bytes ''addr:''))
       = Some (array_bytes 32 a @ address_checksum H (array_bytes 32 a))" (is "?l \<longleftrightarrow> hex_value ?t = Some ?d")
proof -
  have len: "length ?d = 38" by (simp add: address_checksum_def)
  have "?l \<longleftrightarrow> (\<exists>bs. hex_decode_loop (replicate 38 0) 0 ?t = Some (38, None, bs)
      \<and> address_checksum H (take 32 bs) = drop 32 bs \<and> a = array_word (take 32 bs))"
    by (auto simp: Address_UnmarshalText_def hex_Decode_def split: Option.bind_splits if_splits)
  also have "\<dots> \<longleftrightarrow> (\<exists>bs. hex_value ?t = Some bs \<and> length bs = 38
      \<and> address_checksum H (take 32 bs) = drop 32 bs \<and> a = array_word (take 32 bs))"
    using hex_decode_loop_value [of 0 "replicate 38 0" ?t] by auto
  also have "\<dots> \<longleftrightarrow> hex_value ?t = Some ?d"
  proof
    assume "\<exists>bs. hex_value ?t = Some bs \<and> length bs = 38
      \<and> address_checksum H (take 32 bs) = drop 32 bs \<and> a = array_word (take 32 bs)"
    then obtain bs where bs: "hex_value ?t = Some bs" "length bs = 38"
      "address_checksum H (take 32 bs) = drop 32 bs" "a = array_word (take 32 bs)" by blast
    have "array_bytes (length (take 32 bs)) a = take 32 bs"
      unfolding bs(4) by (rule array_bytes_word) (simp add: bs(2))
    then have "array_bytes 32 a = take 32 bs" by (simp add: bs(2))
    then show "hex_value ?t = Some ?d" using bs(1,3) by simp
  qed (intro exI [of _ ?d], simp add: len array_word_bytes)
  finally show ?thesis .
qed

text \<open>An identifier is read without error exactly from the hex digits, upper or lower case, of an array of its
  size, with or without the prefix; reading panics exactly when the text goes on with at least two more digits than
  the array takes. An address is read exactly from the digits of its bytes and its checksum.\<close>

theorem hex_text_outcome:
  "(let t = bytes_TrimPrefix data (str_bytes (pre @ '':'')) in
      (unmarshalHex dst pre data = Some (None, bs) \<longleftrightarrow> hex_value t = Some bs \<and> length bs = length dst)
    \<and> (unmarshalHex dst pre data = None \<longleftrightarrow>
         2 * length dst + 2 \<le> length t \<and> list_all (\<lambda>c. fromHexChar c \<noteq> None) (take (2 * length dst + 2) t)))
    \<and> (Address_UnmarshalText H b = Some (None, a) \<longleftrightarrow>
         hex_value (bytes_TrimPrefix b (str_bytes ''addr:''))
           = Some (array_bytes 32 a @ address_checksum H (array_bytes 32 a)))"
  unfolding Let_def by (simp only: unmarshalHex_accepts unmarshalHex_panics Address_accepts)

end
