(* ===== verification/Wallet.thy ===== *)
theory Wallet
  imports Text_Forms Txpool
begin

text \<open>
  wallet/wallet.go: seeds, the interface of wallet stores with its contract, and the transaction builder. \<open>None\<close>
  is a panic. Ed25519 is a parameter, the record of the functions of crypto/ed25519 that sunyata.go calls.
\<close>

section \<open>Keys\<close>

type_synonym private_key = "byte list"

record ed25519 =
  ed_NewKeyFromSeed :: "byte list \<Rightarrow> private_key"
  ed_Sign :: "private_key \<Rightarrow> byte list \<Rightarrow> byte list"

text \<open>\<open>NewKeyFromSeed\<close> and \<open>Sign\<close> panic on a seed or key of the wrong length.\<close>

definition NewPrivateKeyFromSeed :: "ed25519 \<Rightarrow> byte list \<Rightarrow> private_key option" where
  "NewPrivateKeyFromSeed ed seed = (if length seed = 32 then Some (ed_NewKeyFromSeed ed seed) else None)"

definition PrivateKey_PublicKey :: "private_key \<Rightarrow> public_key option" where
  "PrivateKey_PublicKey priv =
     (if length priv < 32 then None else Some (array_word (go_copy (replicate 32 0) (drop 32 priv))))"

definition PrivateKey_SignHash :: "ed25519 \<Rightarrow> private_key \<Rightarrow> hash256 \<Rightarrow> signature option" where
  "PrivateKey_SignHash ed priv h =
     (if length priv \<noteq> 64 then None
      else Some (array_word (go_copy (replicate 64 0) (ed_Sign ed priv (array_bytes 32 h)))))"

section \<open>Seeds\<close>

record seed =
  sd_entropy :: "128 word"

definition Seed_String :: "seed \<Rightarrow> byte list" where
  "Seed_String s = hex_EncodeToString (array_bytes 16 (sd_entropy s))"

definition Seed_PrivateKey :: "hashfn \<Rightarrow> ed25519 \<Rightarrow> seed \<Rightarrow> u64 \<Rightarrow> private_key option" where
  "Seed_PrivateKey H ed s index =
     NewPrivateKeyFromSeed ed (array_bytes 32 (HashBytes H (array_bytes 16 (sd_entropy s) @ le_bytes 8 index)))"

definition Seed_PublicKey :: "hashfn \<Rightarrow> ed25519 \<Rightarrow> seed \<Rightarrow> u64 \<Rightarrow> public_key option" where
  "Seed_PublicKey H ed s index = do { priv \<leftarrow> Seed_PrivateKey H ed s index; PrivateKey_PublicKey priv }"

definition SeedFromEntropy :: "128 word \<Rightarrow> seed" where
  "SeedFromEntropy entropy = \<lparr>sd_entropy = entropy\<rparr>"

definition SeedFromString :: "byte list \<Rightarrow> (text_error + seed) option" where
  "SeedFromString s = do {
     (n, err, entropy) \<leftarrow> hex_Decode (replicate 16 0) s;
     Some (case err of
             Some e \<Rightarrow> Inl e
           | None \<Rightarrow> if n \<noteq> 16 then Inl ErrShort else Inr (SeedFromEntropy (array_word entropy)))
   }"

section \<open>The store interface\<close>

record wallet_txn =
  wt_Raw :: transaction
  wt_Index :: chain_index
  wt_ID :: transaction_id
  wt_Inflow :: currency
  wt_Outflow :: currency
  wt_Timestamp :: gotime

datatype wallet_error = ErrUnknownAddress | ErrInsufficientBalance | ErrNoInput | ErrNoKey | ErrWalletStore

text \<open>A value of the interface \<open>Store\<close> is its method table; a number of transactions is a Go \<open>int\<close>.\<close>

record 'w wallet_store =
  ws_SeedIndex :: "'w \<Rightarrow> u64"
  ws_Balance :: "'w \<Rightarrow> currency option"
  ws_AddAddress :: "'w \<Rightarrow> address \<Rightarrow> u64 \<Rightarrow> wallet_error + 'w"
  ws_AddressIndex :: "'w \<Rightarrow> address \<Rightarrow> wallet_error + u64"
  ws_Addresses :: "'w \<Rightarrow> wallet_error + address list"
  ws_UnspentOutputElements :: "'w \<Rightarrow> wallet_error + output_element list"
  ws_Transactions :: "'w \<Rightarrow> gotime \<Rightarrow> int \<Rightarrow> wallet_error + wallet_txn list"

section \<open>The transaction builder\<close>

text \<open>The map \<open>used\<close> only ever holds \<open>true\<close>, so it is the set of its keys.\<close>

record 'w txn_builder =
  tb_store :: 'w
  tb_used :: "element_id set"

definition NewTransactionBuilder :: "'w \<Rightarrow> 'w txn_builder" where
  "NewTransactionBuilder w = \<lparr>tb_store = w, tb_used = {}\<rparr>"

abbreviation input_id :: "txn_input \<Rightarrow> element_id" where
  "input_id inp \<equiv> se_ID (oe_SE (in_Parent inp))"

abbreviation element_oid :: "output_element \<Rightarrow> element_id" where
  "element_oid oe \<equiv> se_ID (oe_SE oe)"

definition TransactionBuilder_ReleaseInputs :: "'w txn_builder \<Rightarrow> transaction \<Rightarrow> 'w txn_builder" where
  "TransactionBuilder_ReleaseInputs tb txn = tb\<lparr>tb_used := tb_used tb - input_id ` set (tx_Inputs txn)\<rparr>"

definition pool_spends :: "transaction list \<Rightarrow> element_id set" where
  "pool_spends pool = input_id ` set (concat (map tx_Inputs pool))"

text \<open>The loop that collects elements until their sum reaches the amount.\<close>

fun collect_funds ::
    "(output_element \<Rightarrow> bool) \<Rightarrow> currency \<Rightarrow> output_element list \<Rightarrow> currency \<Rightarrow> output_element list
     \<Rightarrow> (currency \<times> output_element list) option" where
  "collect_funds skip amount [] outputSum funding = Some (outputSum, funding)"
| "collect_funds skip amount (sce # utxos) outputSum funding =
     (if skip sce then collect_funds skip amount utxos outputSum funding
      else do {
        outputSum \<leftarrow> Currency_Add outputSum (out_Value (oe_Output sce));
        if Currency_Cmp outputSum amount \<ge> 0 then Some (outputSum, funding @ [sce])
        else collect_funds skip amount utxos outputSum (funding @ [sce])
      })"

definition TransactionBuilder_ReserveFunds ::
    "'w wallet_store \<Rightarrow> 'w txn_builder \<Rightarrow> currency \<Rightarrow> transaction list
     \<Rightarrow> ((wallet_error + output_element list) \<times> 'w txn_builder) option" where
  "TransactionBuilder_ReserveFunds W tb amount pool =
     (if Currency_IsZero amount then Some (Inr [], tb)
      else
        (case ws_UnspentOutputElements W (tb_store tb) of
           Inl e \<Rightarrow> Some (Inl e, tb)
         | Inr utxos \<Rightarrow> do {
             (outputSum, funding) \<leftarrow>
               collect_funds (\<lambda>sce. element_oid sce \<in> tb_used tb \<or> element_oid sce \<in> pool_spends pool)
                 amount utxos ZeroCurrency [];
             if Currency_Cmp outputSum amount < 0 then Some (Inl ErrInsufficientBalance, tb)
             else Some (Inr funding, tb\<lparr>tb_used := tb_used tb \<union> element_oid ` set funding\<rparr>)
           }))"

text \<open>
  \<open>Fund\<close> changes the transaction and the builder as it goes, and leaves what it did when it fails. First the change
  output, then the inputs.
\<close>

definition add_change ::
    "hashfn \<Rightarrow> ed25519 \<Rightarrow> 'w wallet_store \<Rightarrow> seed \<Rightarrow> currency \<Rightarrow> currency \<Rightarrow> 'w txn_builder \<Rightarrow> transaction
     \<Rightarrow> (wallet_error option \<times> 'w txn_builder \<times> transaction) option" where
  "add_change H ed W seed outputSum amount tb txn =
     (if Currency_Cmp outputSum amount > 0 then do {
        let index = ws_SeedIndex W (tb_store tb);
        pk \<leftarrow> Seed_PublicKey H ed seed index;
        let addr = PublicKey_Address H pk;
        (case ws_AddAddress W (tb_store tb) addr index of
           Inl e \<Rightarrow> Some (Some e, tb, txn)
         | Inr w \<Rightarrow> do {
             change \<leftarrow> Currency_Sub outputSum amount;
             Some (None, tb\<lparr>tb_store := w\<rparr>,
               txn\<lparr>tx_Outputs := tx_Outputs txn @ [\<lparr>out_Value = change, out_Address = addr\<rparr>]\<rparr>)
           })
      }
      else Some (None, tb, txn))"

fun add_inputs ::
    "hashfn \<Rightarrow> ed25519 \<Rightarrow> 'w wallet_store \<Rightarrow> seed \<Rightarrow> output_element list \<Rightarrow> 'w txn_builder \<Rightarrow> transaction
     \<Rightarrow> (wallet_error option \<times> 'w txn_builder \<times> transaction) option" where
  "add_inputs H ed W seed [] tb txn = Some (None, tb, txn)"
| "add_inputs H ed W seed (sce # funding) tb txn =
     (case ws_AddressIndex W (tb_store tb) (out_Address (oe_Output sce)) of
        Inl e \<Rightarrow> Some (Some e, tb, txn)
      | Inr index \<Rightarrow> do {
          pk \<leftarrow> Seed_PublicKey H ed seed index;
          add_inputs H ed W seed funding (tb\<lparr>tb_used := insert (element_oid sce) (tb_used tb)\<rparr>)
            (txn\<lparr>tx_Inputs := tx_Inputs txn @ [\<lparr>in_Parent = sce, in_PublicKey = pk, in_Signature = 0\<rparr>]\<rparr>)
        })"

definition TransactionBuilder_Fund ::
    "hashfn \<Rightarrow> ed25519 \<Rightarrow> 'w wallet_store \<Rightarrow> 'w txn_builder \<Rightarrow> chain_state \<Rightarrow> transaction \<Rightarrow> currency \<Rightarrow> seed
     \<Rightarrow> transaction list \<Rightarrow> ((wallet_error + element_id list) \<times> 'w txn_builder \<times> transaction) option" where
  "TransactionBuilder_Fund H ed W tb cs txn amount seed pool =
     (if Currency_IsZero amount then Some (Inr [], tb, txn)
      else
        (case ws_UnspentOutputElements W (tb_store tb) of
           Inl e \<Rightarrow> Some (Inl e, tb, txn)
         | Inr utxos \<Rightarrow> do {
             (outputSum, funding) \<leftarrow>
               collect_funds (\<lambda>sce. element_oid sce \<in> tb_used tb \<or> element_oid sce \<in> pool_spends pool
                   \<or> ci_Height (cs_Index cs) < oe_MaturityHeight sce)
                 amount utxos ZeroCurrency [];
             if Currency_Cmp outputSum amount < 0 then Some (Inl ErrInsufficientBalance, tb, txn)
             else do {
               (err, tb, txn) \<leftarrow> add_change H ed W seed outputSum amount tb txn;
               (case err of
                  Some e \<Rightarrow> Some (Inl e, tb, txn)
                | None \<Rightarrow> do {
                    (err, tb, txn) \<leftarrow> add_inputs H ed W seed funding tb txn;
                    Some (case err of Some e \<Rightarrow> Inl e | None \<Rightarrow> Inr (map element_oid funding), tb, txn)
                  })
             }
           }))"

section \<open>Signing\<close>

text \<open>
  Without a list of inputs to sign, the loop signs the copy of each input that \<open>range\<close> makes, so the transaction
  stays as it is.
\<close>

fun sign_copies ::
    "hashfn \<Rightarrow> ed25519 \<Rightarrow> 'w wallet_store \<Rightarrow> 'w \<Rightarrow> seed \<Rightarrow> hash256 \<Rightarrow> txn_input list \<Rightarrow> wallet_error option option" where
  "sign_copies H ed W w seed sigHash [] = Some None"
| "sign_copies H ed W w seed sigHash (inp # inps) =
     (case ws_AddressIndex W w (out_Address (oe_Output (in_Parent inp))) of
        Inr index \<Rightarrow> do {
          priv \<leftarrow> Seed_PrivateKey H ed seed index;
          sig \<leftarrow> PrivateKey_SignHash ed priv sigHash;
          sign_copies H ed W w seed sigHash inps
        }
      | Inl e \<Rightarrow> if e \<noteq> ErrUnknownAddress then Some (Some e) else sign_copies H ed W w seed sigHash inps)"

fun set_signature :: "element_id \<Rightarrow> signature \<Rightarrow> txn_input list \<Rightarrow> txn_input list" where
  "set_signature eid sig [] = []"
| "set_signature eid sig (inp # inps) =
     (if input_id inp = eid then inp\<lparr>in_Signature := sig\<rparr> # inps else inp # set_signature eid sig inps)"

fun sign_inputs ::
    "hashfn \<Rightarrow> ed25519 \<Rightarrow> 'w wallet_store \<Rightarrow> 'w \<Rightarrow> seed \<Rightarrow> hash256 \<Rightarrow> element_id list \<Rightarrow> transaction
     \<Rightarrow> (wallet_error option \<times> transaction) option" where
  "sign_inputs H ed W w seed sigHash [] txn = Some (None, txn)"
| "sign_inputs H ed W w seed sigHash (eid # toSign) txn =
     (case find (\<lambda>inp. input_id inp = eid) (tx_Inputs txn) of
        None \<Rightarrow> Some (Some ErrNoInput, txn)
      | Some inp \<Rightarrow>
          (case ws_AddressIndex W w (out_Address (oe_Output (in_Parent inp))) of
             Inl e \<Rightarrow> Some (Some (if e = ErrUnknownAddress then ErrNoKey else e), txn)
           | Inr index \<Rightarrow> do {
               priv \<leftarrow> Seed_PrivateKey H ed seed index;
               sig \<leftarrow> PrivateKey_SignHash ed priv sigHash;
               sign_inputs H ed W w seed sigHash toSign (txn\<lparr>tx_Inputs := set_signature eid sig (tx_Inputs txn)\<rparr>)
             }))"

definition TransactionBuilder_SignTransaction ::
    "hashfn \<Rightarrow> ed25519 \<Rightarrow> 'w wallet_store \<Rightarrow> 'w txn_builder \<Rightarrow> chain_state \<Rightarrow> transaction \<Rightarrow> element_id list \<Rightarrow> seed
     \<Rightarrow> (wallet_error option \<times> transaction) option" where
  "TransactionBuilder_SignTransaction H ed W tb cs txn toSign seed =
     (let sigHash = InputSigHash H cs txn in
      if toSign = [] then map_option (\<lambda>e. (e, txn)) (sign_copies H ed W (tb_store tb) seed sigHash (tx_Inputs txn))
      else sign_inputs H ed W (tb_store tb) seed sigHash toSign txn)"

section \<open>What the loops do\<close>

abbreviation element_value :: "output_element \<Rightarrow> currency" where
  "element_value oe \<equiv> out_Value (oe_Output oe)"

abbreviation element_address :: "output_element \<Rightarrow> address" where
  "element_address oe \<equiv> out_Address (oe_Output oe)"

text \<open>The funds are the available elements of a prefix that reaches the amount, or all of them.\<close>

lemma collect_funds_spec:
  assumes "cur_nat outputSum + value_sum (map element_value utxos) < 2 ^ 128" "cur_nat outputSum < cur_nat amount"
  shows "\<exists>pre rest sum. utxos = pre @ rest
    \<and> collect_funds skip amount utxos outputSum funding = Some (sum, funding @ filter (\<lambda>x. \<not> skip x) pre)
    \<and> cur_nat sum = cur_nat outputSum + value_sum (map element_value (filter (\<lambda>x. \<not> skip x) pre))
    \<and> (cur_nat amount \<le> cur_nat sum \<or> rest = [])"
  using assms
proof (induction utxos arbitrary: outputSum funding)
  case Nil
  then show ?case by (simp add: value_sum_def)
next
  case (Cons sce utxos)
  have le: "cur_nat outputSum + cur_nat (element_value sce) + value_sum (map element_value utxos) < 2 ^ 128"
    using Cons.prems(1) by (simp add: value_sum_def)
  show ?case
  proof (cases "skip sce")
    case True
    have "cur_nat outputSum + value_sum (map element_value utxos) < 2 ^ 128" using le by simp
    from Cons.IH [OF this Cons.prems(2), of funding] obtain pre rest sum where
      "utxos = pre @ rest" "collect_funds skip amount utxos outputSum funding = Some (sum, funding @ filter (\<lambda>x. \<not> skip x) pre)"
      "cur_nat sum = cur_nat outputSum + value_sum (map element_value (filter (\<lambda>x. \<not> skip x) pre))"
      "cur_nat amount \<le> cur_nat sum \<or> rest = []" by blast
    then show ?thesis using True by (intro exI [of _ "sce # pre"] exI [of _ rest] exI [of _ sum]) simp
  next
    case False
    obtain sum where sum: "Currency_Add outputSum (element_value sce) = Some sum"
      "cur_nat sum = cur_nat outputSum + cur_nat (element_value sce)"
      using Currency_Add_total le by (metis add_lessD1)
    show ?thesis
    proof (cases "cur_nat amount \<le> cur_nat sum")
      case True
      then show ?thesis using False sum
        by (intro exI [of _ "[sce]"] exI [of _ utxos] exI [of _ sum]) (simp add: Currency_Cmp_nat value_sum_def)
    next
      case less: False
      have "cur_nat sum + value_sum (map element_value utxos) < 2 ^ 128" using le sum(2) by simp
      from Cons.IH [OF this, of "funding @ [sce]"] less obtain pre rest sum' where
        "utxos = pre @ rest" "collect_funds skip amount utxos sum (funding @ [sce]) = Some (sum', (funding @ [sce]) @ filter (\<lambda>x. \<not> skip x) pre)"
        "cur_nat sum' = cur_nat sum + value_sum (map element_value (filter (\<lambda>x. \<not> skip x) pre))"
        "cur_nat amount \<le> cur_nat sum' \<or> rest = []" by auto
      then show ?thesis using False sum less
        by (intro exI [of _ "sce # pre"] exI [of _ rest] exI [of _ sum']) (simp add: Currency_Cmp_nat value_sum_def)
    qed
  qed
qed

lemma set_signature_other: "eid \<notin> set (map input_id inps) \<Longrightarrow> set_signature eid sig inps = inps"
  by (induction inps) auto

lemma set_signature_append:
  "eid \<notin> set (map input_id xs) \<Longrightarrow> set_signature eid sig (xs @ inp # ys) =
     xs @ (if input_id inp = eid then inp\<lparr>in_Signature := sig\<rparr> # ys else inp # set_signature eid sig ys)"
  by (induction xs) auto

lemma find_append: "eid \<notin> set (map input_id xs) \<Longrightarrow> input_id inp = eid \<Longrightarrow>
    find (\<lambda>inp. input_id inp = eid) (xs @ inp # ys) = Some inp"
  by (induction xs) auto

section \<open>The contract of a store\<close>

text \<open>
  A store keeps a map of addresses to key indices and a list of unspent elements; it answers without errors of its
  own. Under this contract the builder pays: what \<open>Fund\<close> and \<open>SignTransaction\<close> build is valid.
\<close>

definition ed_ok :: "ed25519 \<Rightarrow> verifier \<Rightarrow> bool" where
  "ed_ok ed verify \<longleftrightarrow> (\<forall>seed. length seed = 32 \<longrightarrow> length (ed_NewKeyFromSeed ed seed) = 64
     \<and> (\<forall>h. length (ed_Sign ed (ed_NewKeyFromSeed ed seed) (array_bytes 32 h)) = 64
          \<and> verify (array_word (drop 32 (ed_NewKeyFromSeed ed seed))) h
               (array_word (ed_Sign ed (ed_NewKeyFromSeed ed seed) (array_bytes 32 h)))))"

definition derived_keys :: "hashfn \<Rightarrow> ed25519 \<Rightarrow> seed \<Rightarrow> (address \<rightharpoonup> u64) \<Rightarrow> bool" where
  "derived_keys H ed seed m \<longleftrightarrow>
     (\<forall>a i. m a = Some i \<longrightarrow> map_option (PublicKey_Address H) (Seed_PublicKey H ed seed i) = Some a)"

lemma go_copy_full: "length dst = length src \<Longrightarrow> go_copy dst src = src"
  by (simp add: go_copy_def)

lemma seed_keys:
  assumes "ed_ok ed verify"
  obtains priv pk where "Seed_PrivateKey H ed seed i = Some priv" "Seed_PublicKey H ed seed i = Some pk"
    "\<And>h. \<exists>sig. PrivateKey_SignHash ed priv h = Some sig \<and> verify pk h sig"
proof -
  let ?s = "array_bytes 32 (HashBytes H (array_bytes 16 (sd_entropy seed) @ le_bytes 8 i))"
  let ?priv = "ed_NewKeyFromSeed ed ?s"
  have k: "length ?priv = 64" "\<And>h :: hash256. length (ed_Sign ed ?priv (array_bytes 32 h)) = 64"
    "\<And>h. verify (array_word (drop 32 ?priv)) h (array_word (ed_Sign ed ?priv (array_bytes 32 h)))"
    using assms by (simp_all add: ed_ok_def)
  have priv: "Seed_PrivateKey H ed seed i = Some ?priv" by (simp add: Seed_PrivateKey_def NewPrivateKeyFromSeed_def)
  then have "Seed_PublicKey H ed seed i = Some (array_word (drop 32 ?priv))"
    by (simp add: Seed_PublicKey_def PrivateKey_PublicKey_def k(1) go_copy_full)
  then show ?thesis using k by (intro that [OF priv]) (simp_all add: PrivateKey_SignHash_def go_copy_full)
qed

locale wallet_contract =
  fixes W :: "'w wallet_store" and addrs :: "'w \<Rightarrow> address \<rightharpoonup> u64" and outputs :: "'w \<Rightarrow> output_element list"
  assumes AddAddress_law: "\<exists>w'. ws_AddAddress W w a i = Inr w' \<and> addrs w' = (addrs w)(a \<mapsto> i) \<and> outputs w' = outputs w"
    and AddressIndex_law: "ws_AddressIndex W w a = (case addrs w a of None \<Rightarrow> Inl ErrUnknownAddress | Some i \<Rightarrow> Inr i)"
    and Unspent_law: "ws_UnspentOutputElements W w = Inr (outputs w)"
begin

definition has_key :: "hashfn \<Rightarrow> ed25519 \<Rightarrow> seed \<Rightarrow> 'w \<Rightarrow> txn_input \<Rightarrow> bool" where
  "has_key H ed seed w inp \<longleftrightarrow> (\<exists>i. addrs w (element_address (in_Parent inp)) = Some i
     \<and> Seed_PublicKey H ed seed i = Some (in_PublicKey inp))"

lemma has_key_address:
  assumes "has_key H ed seed w inp" "derived_keys H ed seed (addrs w)"
  shows "PublicKey_Address H (in_PublicKey inp) = element_address (in_Parent inp)"
proof -
  obtain i where i: "addrs w (element_address (in_Parent inp)) = Some i" "Seed_PublicKey H ed seed i = Some (in_PublicKey inp)"
    using assms(1) by (auto simp: has_key_def)
  have "map_option (PublicKey_Address H) (Seed_PublicKey H ed seed i) = Some (element_address (in_Parent inp))"
    using assms(2) i(1) unfolding derived_keys_def by blast
  then show ?thesis by (simp add: i(2))
qed

lemma add_inputs_spec:
  assumes "ed_ok ed verify" "\<forall>sce\<in>set funding. addrs (tb_store tb) (element_address sce) \<noteq> None"
  shows "\<exists>ins. add_inputs H ed W seed funding tb txn =
      Some (None, tb\<lparr>tb_used := tb_used tb \<union> element_oid ` set funding\<rparr>, txn\<lparr>tx_Inputs := tx_Inputs txn @ ins\<rparr>)
    \<and> map in_Parent ins = funding \<and> (\<forall>inp\<in>set ins. has_key H ed seed (tb_store tb) inp)"
  using assms(2)
proof (induction funding arbitrary: tb txn)
  case (Cons sce funding)
  obtain i where i: "addrs (tb_store tb) (element_address sce) = Some i" using Cons.prems by auto
  obtain pk where pk: "Seed_PublicKey H ed seed i = Some pk" by (rule seed_keys [OF assms(1)])
  let ?tb = "tb\<lparr>tb_used := insert (element_oid sce) (tb_used tb)\<rparr>"
  let ?inp = "\<lparr>in_Parent = sce, in_PublicKey = pk, in_Signature = 0\<rparr>"
  let ?txn = "txn\<lparr>tx_Inputs := tx_Inputs txn @ [?inp]\<rparr>"
  have "\<forall>sce\<in>set funding. addrs (tb_store ?tb) (element_address sce) \<noteq> None" using Cons.prems by simp
  from Cons.IH [OF this, of ?txn] obtain ins where
    ins: "add_inputs H ed W seed funding ?tb ?txn =
      Some (None, ?tb\<lparr>tb_used := tb_used ?tb \<union> element_oid ` set funding\<rparr>, ?txn\<lparr>tx_Inputs := tx_Inputs ?txn @ ins\<rparr>)"
    "map in_Parent ins = funding" "\<forall>inp\<in>set ins. has_key H ed seed (tb_store ?tb) inp" by blast
  have "has_key H ed seed (tb_store tb) ?inp" using i pk by (simp add: has_key_def)
  then show ?case using ins i pk by (intro exI [of _ "?inp # ins"]) (simp add: AddressIndex_law)
qed simp

lemma sign_inputs_spec:
  assumes "ed_ok ed verify" "distinct (map input_id (before @ todo))" "\<forall>inp\<in>set todo. has_key H ed seed w inp"
  shows "\<exists>todo'. sign_inputs H ed W w seed h (map input_id todo) (txn\<lparr>tx_Inputs := before @ todo\<rparr>)
      = Some (None, txn\<lparr>tx_Inputs := before @ todo'\<rparr>)
    \<and> map in_Parent todo' = map in_Parent todo
    \<and> (\<forall>inp\<in>set todo'. verify (in_PublicKey inp) h (in_Signature inp) \<and> has_key H ed seed w inp)"
  using assms(2,3)
proof (induction todo arbitrary: before)
  case (Cons inp todo)
  obtain i where i: "addrs w (element_address (in_Parent inp)) = Some i"
    "Seed_PublicKey H ed seed i = Some (in_PublicKey inp)" using Cons.prems(2) by (auto simp: has_key_def)
  obtain priv pk where k: "Seed_PrivateKey H ed seed i = Some priv" "Seed_PublicKey H ed seed i = Some pk"
    "\<And>h. \<exists>sig. PrivateKey_SignHash ed priv h = Some sig \<and> verify pk h sig"
    using seed_keys [OF assms(1)] by metis
  then obtain sig where sig: "PrivateKey_SignHash ed priv h = Some sig" "verify (in_PublicKey inp) h sig"
    using i(2) by auto
  let ?inp = "inp\<lparr>in_Signature := sig\<rparr>"
  have n: "input_id inp \<notin> set (map input_id before)" using Cons.prems(1) by simp
  have "distinct (map input_id ((before @ [?inp]) @ todo))" using Cons.prems(1) by simp
  from Cons.IH [OF this] Cons.prems(2) obtain todo' where
    "sign_inputs H ed W w seed h (map input_id todo) (txn\<lparr>tx_Inputs := (before @ [?inp]) @ todo\<rparr>)
      = Some (None, txn\<lparr>tx_Inputs := (before @ [?inp]) @ todo'\<rparr>)"
    "map in_Parent todo' = map in_Parent todo"
    "\<forall>inp\<in>set todo'. verify (in_PublicKey inp) h (in_Signature inp) \<and> has_key H ed seed w inp" by auto
  moreover have "has_key H ed seed w ?inp" using i by (simp add: has_key_def)
  moreover have "find (\<lambda>i. input_id i = input_id inp) (before @ inp # todo) = Some inp"
    by (rule find_append [OF n refl])
  moreover have "set_signature (input_id inp) sig (before @ inp # todo) = before @ ?inp # todo"
    using set_signature_append [OF n, of sig inp todo] by simp
  ultimately show ?case using i(1) k(1) sig
    by (intro exI [of _ "?inp # todo'"]) (simp add: AddressIndex_law)
qed simp

abbreviation available :: "'w txn_builder \<Rightarrow> chain_state \<Rightarrow> transaction list \<Rightarrow> output_element list" where
  "available tb cs pool \<equiv> filter (\<lambda>x. \<not> (element_oid x \<in> tb_used tb \<or> element_oid x \<in> pool_spends pool
     \<or> ci_Height (cs_Index cs) < oe_MaturityHeight x)) (outputs (tb_store tb))"

lemma add_change_spec:
  assumes "ed_ok ed verify" "cur_nat amount \<le> cur_nat funds" "derived_keys H ed seed (addrs (tb_store tb))"
  shows "\<exists>w change. add_change H ed W seed funds amount tb txn =
      Some (None, tb\<lparr>tb_store := w\<rparr>, txn\<lparr>tx_Outputs := tx_Outputs txn @ change\<rparr>)
    \<and> outputs w = outputs (tb_store tb) \<and> derived_keys H ed seed (addrs w)
    \<and> (\<forall>a. addrs (tb_store tb) a \<noteq> None \<longrightarrow> addrs w a \<noteq> None)
    \<and> value_sum (map out_Value change) = cur_nat funds - cur_nat amount
    \<and> length change \<le> 1 \<and> (\<forall>out\<in>set change. 0 < cur_nat (out_Value out) \<and> addrs w (out_Address out) \<noteq> None)"
proof (cases "cur_nat funds = cur_nat amount")
  case True
  then show ?thesis using assms(3)
    by (intro exI [of _ "tb_store tb"] exI [of _ "[]"]) (simp add: add_change_def Currency_Cmp_nat value_sum_def)
next
  case False
  let ?i = "ws_SeedIndex W (tb_store tb)"
  obtain pk where pk: "Seed_PublicKey H ed seed ?i = Some pk" by (rule seed_keys [OF assms(1)])
  let ?a = "PublicKey_Address H pk"
  obtain w where w: "ws_AddAddress W (tb_store tb) ?a ?i = Inr w" "addrs w = (addrs (tb_store tb))(?a \<mapsto> ?i)"
    "outputs w = outputs (tb_store tb)" using AddAddress_law by blast
  obtain d where d: "Currency_Sub funds amount = Some d" "cur_nat d = cur_nat funds - cur_nat amount"
    using Currency_Sub_total [OF assms(2)] by blast
  have "derived_keys H ed seed (addrs w)" using assms(3) pk by (auto simp: derived_keys_def w(2))
  then show ?thesis using False assms(2) pk w d
    by (intro exI [of _ w] exI [of _ "[\<lparr>out_Value = d, out_Address = ?a\<rparr>]"])
      (simp add: add_change_def Currency_Cmp_nat value_sum_def)
qed

lemma value_sum_filter: "value_sum (map f (filter P xs)) \<le> value_sum (map f xs)"
  by (induction xs) (auto simp: value_sum_def)

lemma payment:
  assumes ed: "ed_ok ed verify" and keys: "derived_keys H ed seed (addrs (tb_store tb))"
    and els: "\<forall>oe\<in>set (outputs (tb_store tb)). addrs (tb_store tb) (element_address oe) \<noteq> None
        \<and> ContainsUnspentOutputElement H (cs_Elements cs) oe"
      "distinct (map element_oid (outputs (tb_store tb)))"
      "2 * value_sum (map element_value (outputs (tb_store tb))) < 2 ^ 128"
    and h: "unat (ci_Height (cs_Index cs)) + 1 < 2 ^ 64"
    and txn: "tx_Inputs txn = []" "\<forall>out\<in>set (tx_Outputs txn). 0 < cur_nat (out_Value out)"
      "value_sum (map out_Value (tx_Outputs txn)) + cur_nat (tx_MinerFee txn) = cur_nat amount" "0 < cur_nat amount"
  shows "\<exists>r tb' txn'. TransactionBuilder_Fund H ed W tb cs txn amount seed pool = Some (r, tb', txn')
    \<and> (if value_sum (map element_value (available tb cs pool)) < cur_nat amount
       then r = Inl ErrInsufficientBalance \<and> tb' = tb \<and> txn' = txn
       else r = Inr (map input_id (tx_Inputs txn'))
         \<and> tb_used tb' = tb_used tb \<union> input_id ` set (tx_Inputs txn')
         \<and> (\<exists>txn''. TransactionBuilder_SignTransaction H ed W tb' cs txn' (map input_id (tx_Inputs txn')) seed = Some (None, txn'')
              \<and> map in_Parent (tx_Inputs txn'') = map in_Parent (tx_Inputs txn')
              \<and> set (map in_Parent (tx_Inputs txn'')) \<subseteq> set (available tb cs pool)
              \<and> (\<exists>change. tx_Outputs txn'' = tx_Outputs txn @ change \<and> length change \<le> 1
                   \<and> (\<forall>out\<in>set change. addrs (tb_store tb') (out_Address out) \<noteq> None))
              \<and> tx_MinerFee txn'' = tx_MinerFee txn
              \<and> ValidateTransaction H verify cs txn'' = valid))"
proof -
  let ?w = "tb_store tb" and ?avail = "available tb cs pool"
  let ?skip = "\<lambda>x. element_oid x \<in> tb_used tb \<or> element_oid x \<in> pool_spends pool \<or> ci_Height (cs_Index cs) < oe_MaturityHeight x"
  have amt: "\<not> Currency_IsZero amount" using txn(4) by (simp add: Currency_IsZero_iff)
  have lt: "cur_nat ZeroCurrency + value_sum (map element_value (outputs ?w)) < 2 ^ 128"
    "cur_nat ZeroCurrency < cur_nat amount" using els(3) txn(4) by simp_all
  obtain pre rest funds where c0: "outputs ?w = pre @ rest"
    "collect_funds ?skip amount (outputs ?w) ZeroCurrency [] = Some (funds, [] @ filter (\<lambda>x. \<not> ?skip x) pre)"
    "cur_nat funds = cur_nat ZeroCurrency + value_sum (map element_value (filter (\<lambda>x. \<not> ?skip x) pre))"
    "cur_nat amount \<le> cur_nat funds \<or> rest = []"
    using collect_funds_spec [OF lt, of ?skip "[]"] by blast
  note c = c0(1) c0(2) [unfolded append_Nil] c0(3) [unfolded cur_nat_simps(1) add_0] c0(4)
  let ?fs = "filter (\<lambda>x. \<not> ?skip x) pre"
  have le: "cur_nat funds \<le> value_sum (map element_value ?avail)"
    unfolding c(3) c(1) by (simp add: value_sum_def)
  have short: "value_sum (map element_value ?avail) < cur_nat amount \<longleftrightarrow> cur_nat funds < cur_nat amount"
    using c le by auto
  show ?thesis
  proof (cases "cur_nat funds < cur_nat amount")
    case True
    then show ?thesis using amt c(2) short
      by (simp add: TransactionBuilder_Fund_def Unspent_law Currency_Cmp_nat)
  next
    case False
    then have ge: "cur_nat amount \<le> cur_nat funds" by simp
    from add_change_spec [OF ed this keys, of txn] obtain w change where
      ch: "add_change H ed W seed funds amount tb txn =
        Some (None, tb\<lparr>tb_store := w\<rparr>, txn\<lparr>tx_Outputs := tx_Outputs txn @ change\<rparr>)"
      "\<forall>a. addrs ?w a \<noteq> None \<longrightarrow> addrs w a \<noteq> None"
      "value_sum (map out_Value change) = cur_nat funds - cur_nat amount" "length change \<le> 1"
      "\<forall>out\<in>set change. 0 < cur_nat (out_Value out) \<and> addrs w (out_Address out) \<noteq> None"
      "derived_keys H ed seed (addrs w)" by blast
    let ?tb = "tb\<lparr>tb_store := w\<rparr>" and ?txn = "txn\<lparr>tx_Outputs := tx_Outputs txn @ change\<rparr>"
    have sub: "set ?fs \<subseteq> set ?avail" "set ?fs \<subseteq> set (outputs ?w)" using c(1) by auto
    have "\<forall>sce\<in>set ?fs. addrs (tb_store ?tb) (element_address sce) \<noteq> None"
      using els(1) sub(2) ch(2) by auto
    from add_inputs_spec [OF ed this, of H seed ?txn] obtain ins where
      ins: "add_inputs H ed W seed ?fs ?tb ?txn =
        Some (None, ?tb\<lparr>tb_used := tb_used tb \<union> element_oid ` set ?fs\<rparr>, ?txn\<lparr>tx_Inputs := ins\<rparr>)"
      "map in_Parent ins = ?fs" "\<forall>inp\<in>set ins. has_key H ed seed w inp" using txn(1) by auto
    let ?tb' = "?tb\<lparr>tb_used := tb_used tb \<union> element_oid ` set ?fs\<rparr>" and ?txn' = "?txn\<lparr>tx_Inputs := ins\<rparr>"
    have ids: "map input_id ins = map element_oid ?fs" using arg_cong [OF ins(2), of "map element_oid"] by (simp add: comp_def)
    have fund: "TransactionBuilder_Fund H ed W tb cs txn amount seed pool = Some (Inr (map input_id ins), ?tb', ?txn')"
      using amt c(2) ge ch(1) ins(1) ids
      by (simp add: TransactionBuilder_Fund_def Unspent_law Currency_Cmp_nat)
    have dist: "distinct (map input_id ([] @ ins))"
      using els(2) unfolding c(1) by (simp add: ids distinct_map_filter)
    let ?h = "InputSigHash H cs ?txn'"
    from sign_inputs_spec [OF ed dist ins(3), of ?h ?txn'] obtain ins' where
      sg: "sign_inputs H ed W w seed ?h (map input_id ins) ?txn' = Some (None, ?txn'\<lparr>tx_Inputs := ins'\<rparr>)"
      "map in_Parent ins' = map in_Parent ins"
      "\<forall>inp\<in>set ins'. verify (in_PublicKey inp) ?h (in_Signature inp) \<and> has_key H ed seed w inp" by auto
    let ?txn'' = "?txn'\<lparr>tx_Inputs := ins'\<rparr>"
    have ids': "map input_id ins' = map input_id ins" using arg_cong [OF sg(2), of "map element_oid"] by (simp add: comp_def)
    have ne: "map input_id ins \<noteq> []"
      using c(3) ge txn(4) unfolding ids by (auto simp: value_sum_def)
    have sign: "TransactionBuilder_SignTransaction H ed W ?tb' cs ?txn' (map input_id ins) seed = Some (None, ?txn'')"
      using ne sg(1) by (simp add: TransactionBuilder_SignTransaction_def Let_def)
    have hash: "InputSigHash H cs ?txn'' = ?h"
      by (rule InputSigHash_cong) (simp add: txn_core_def ids')
    have total: "value_sum (map in_value ins') = cur_nat funds"
      using arg_cong [OF sg(2), of "map element_value"] arg_cong [OF ins(2), of "map element_value"] c(3) by (simp add: comp_def)
    have out: "value_sum (map out_Value (tx_Outputs txn @ change)) + cur_nat (tx_MinerFee txn) = cur_nat funds"
      using txn(3) ch(3) ge by (simp add: value_sum_def)
    have "cur_nat funds \<le> value_sum (map element_value (outputs ?w))"
      unfolding c(3) c(1) using value_sum_filter [of element_value "\<lambda>x. \<not> ?skip x" pre] by (simp add: value_sum_def)
    then have small: "cur_nat funds + cur_nat funds < 2 ^ 128" using els(3) by simp
    have parents: "in_Parent inp \<in> set ?fs" if "inp \<in> set ins'" for inp
      using that sg(2) ins(2) by (metis imageI list.set_map)
    have inputs: "ContainsUnspentOutputElement H (cs_Elements cs) (in_Parent inp)
        \<and> oe_MaturityHeight (in_Parent inp) \<le> ci_Height (cs_Index cs) + 1
        \<and> PublicKey_Address H (in_PublicKey inp) = element_address (in_Parent inp)
        \<and> verify (in_PublicKey inp) ?h (in_Signature inp)" if inp: "inp \<in> set ins'" for inp
    proof -
      have "oe_MaturityHeight (in_Parent inp) \<le> ci_Height (cs_Index cs)"
        using parents [OF inp] by (auto simp: not_less)
      also have "\<dots> \<le> ci_Height (cs_Index cs) + 1"
        using h by (simp add: word_le_nat_alt unat_word_ariths)
      finally have "oe_MaturityHeight (in_Parent inp) \<le> ci_Height (cs_Index cs) + 1" .
      moreover have "has_key H ed seed w inp" "verify (in_PublicKey inp) ?h (in_Signature inp)" using sg(3) inp by blast+
      moreover have "ContainsUnspentOutputElement H (cs_Elements cs) (in_Parent inp)"
        using els(1) sub(2) parents [OF inp] by blast
      ultimately show ?thesis using has_key_address ch(6) by blast
    qed
    have "txn_valid H verify cs ?txn''"
      unfolding txn_valid_def using inputs hash txn(2) ch(5) total out small by (auto simp: txn_total_def)
    then have valid: "ValidateTransaction H verify cs ?txn'' = valid" by (simp only: ValidateTransaction_valid)
    have "in_Parent ` set ins' \<subseteq> set ?avail" using parents sub(1) by auto
    moreover have "tb_used ?tb' = tb_used tb \<union> input_id ` set ins"
      using arg_cong [OF ids, of set] by simp
    moreover have "\<not> value_sum (map element_value ?avail) < cur_nat amount" using short ge by linarith
    ultimately show ?thesis
      using sg(2) ch(4,5) valid sign fund
      by (intro exI [of _ "Inr (map input_id ins)"] exI [of _ ?tb'] exI [of _ ?txn'])
        (simp add: exI [of _ ?txn''])
  qed
qed

end

end
