(* ===== verification/Wallet_Store.thy ===== *)
theory Wallet_Store
  imports Wallet
begin

text \<open>
  internal/walletutil/store.go: the in-memory wallet store, which follows the chain as a subscriber, the store that
  is backed by a JSON file, and the testing wallet. \<open>None\<close> is a panic. A Go map is an association list in the
  order of an iteration over it.
\<close>

section \<open>EphemeralStore\<close>

record mem_wallet =
  mw_tip :: chain_index
  mw_seedIndex :: u64
  mw_addrs :: "(address \<times> u64) list"
  mw_outputs :: "output_element list"
  mw_txns :: "wallet_txn list"

definition NewMemWallet :: "chain_index \<Rightarrow> mem_wallet" where
  "NewMemWallet tip = \<lparr>mw_tip = tip, mw_seedIndex = 0, mw_addrs = [], mw_outputs = [], mw_txns = []\<rparr>"

definition MemWallet_SeedIndex :: "mem_wallet \<Rightarrow> u64" where
  "MemWallet_SeedIndex w = mw_seedIndex w"

definition MemWallet_Balance :: "mem_wallet \<Rightarrow> currency option" where
  "MemWallet_Balance w =
     sum_values (map element_value (filter (\<lambda>out. oe_MaturityHeight out < ci_Height (mw_tip w)) (mw_outputs w))) ZeroCurrency"

definition MemWallet_AddAddress :: "mem_wallet \<Rightarrow> address \<Rightarrow> u64 \<Rightarrow> mem_wallet" where
  "MemWallet_AddAddress w addr index =
     (let w = w\<lparr>mw_addrs := AList.update addr index (mw_addrs w)\<rparr>
      in if mw_seedIndex w \<le> index then w\<lparr>mw_seedIndex := index + 1\<rparr> else w)"

definition MemWallet_AddressIndex :: "mem_wallet \<Rightarrow> address \<Rightarrow> wallet_error + u64" where
  "MemWallet_AddressIndex w addr =
     (case map_of (mw_addrs w) addr of None \<Rightarrow> Inl ErrUnknownAddress | Some index \<Rightarrow> Inr index)"

definition MemWallet_Addresses :: "mem_wallet \<Rightarrow> wallet_error + address list" where
  "MemWallet_Addresses w = Inr (map fst (mw_addrs w))"

definition MemWallet_UnspentOutputElements :: "mem_wallet \<Rightarrow> wallet_error + output_element list" where
  "MemWallet_UnspentOutputElements w = Inr (mw_outputs w)"

text \<open>The first \<open>limit\<close> transactions after a time; a negative \<open>limit\<close> is never reached.\<close>

fun transactions_loop :: "gotime \<Rightarrow> int \<Rightarrow> wallet_txn list \<Rightarrow> wallet_txn list \<Rightarrow> wallet_txn list" where
  "transactions_loop since limit [] acc = acc"
| "transactions_loop since limit (txn # txns) acc =
     (if int (length acc) = limit then acc
      else if since < wt_Timestamp txn then transactions_loop since limit txns (acc @ [txn])
      else transactions_loop since limit txns acc)"

definition MemWallet_Transactions :: "mem_wallet \<Rightarrow> gotime \<Rightarrow> int \<Rightarrow> wallet_error + wallet_txn list" where
  "MemWallet_Transactions w since limit = Inr (transactions_loop since limit (mw_txns w) [])"

text \<open>Its method table.\<close>

definition MemWallet :: "mem_wallet wallet_store" where
  "MemWallet =
     \<lparr>ws_SeedIndex = MemWallet_SeedIndex, ws_Balance = MemWallet_Balance,
      ws_AddAddress = (\<lambda>w addr index. Inr (MemWallet_AddAddress w addr index)),
      ws_AddressIndex = MemWallet_AddressIndex, ws_Addresses = MemWallet_Addresses,
      ws_UnspentOutputElements = MemWallet_UnspentOutputElements, ws_Transactions = MemWallet_Transactions\<rparr>"

section \<open>Following the chain\<close>

definition tracked :: "mem_wallet \<Rightarrow> address \<Rightarrow> bool" where
  "tracked w addr \<longleftrightarrow> map_of (mw_addrs w) addr \<noteq> None"

definition update_outputs ::
    "(state_element \<Rightarrow> state_element option) \<Rightarrow> output_element list \<Rightarrow> output_element list option" where
  "update_outputs upd outs = map_option_list (\<lambda>o'. do { e \<leftarrow> upd (oe_SE o'); Some (o'\<lparr>oe_SE := e\<rparr>) }) outs"

text \<open>The record of a transaction, if any of its inputs or outputs has an address of the wallet.\<close>

definition relevant_txn ::
    "hashfn \<Rightarrow> mem_wallet \<Rightarrow> chain_index \<Rightarrow> gotime \<Rightarrow> transaction \<Rightarrow> wallet_txn option option" where
  "relevant_txn H w index timestamp txn = do {
     inflow \<leftarrow> sum_values (map out_Value (filter (\<lambda>out. tracked w (out_Address out)) (tx_Outputs txn))) ZeroCurrency;
     outflow \<leftarrow> sum_values (map in_value (filter (\<lambda>inp. tracked w (element_address (in_Parent inp))) (tx_Inputs txn)))
                  ZeroCurrency;
     Some (if \<not> Currency_IsZero inflow \<or> \<not> Currency_IsZero outflow
           then Some \<lparr>wt_Raw = txn, wt_Index = index, wt_ID = Transaction_ID H txn, wt_Inflow = inflow,
                      wt_Outflow = outflow, wt_Timestamp = timestamp\<rparr>
           else None)
   }"

fun relevant_txns ::
    "hashfn \<Rightarrow> mem_wallet \<Rightarrow> chain_index \<Rightarrow> gotime \<Rightarrow> transaction list \<Rightarrow> wallet_txn list option" where
  "relevant_txns H w index timestamp [] = Some []"
| "relevant_txns H w index timestamp (txn # txns) = do {
     r \<leftarrow> relevant_txn H w index timestamp txn;
     rs \<leftarrow> relevant_txns H w index timestamp txns;
     Some (case r of None \<Rightarrow> rs | Some t \<Rightarrow> t # rs)
   }"

definition MemWallet_ProcessChainApplyUpdate :: "hashfn \<Rightarrow> mem_wallet \<Rightarrow> chain_apply_update \<Rightarrow> mem_wallet option" where
  "MemWallet_ProcessChainApplyUpdate H w cau =
     (let au = cau_Update cau; b = cau_Block cau;
          rem = filter (\<lambda>out. \<not> ApplyUpdate_OutputElementWasSpent au out) (mw_outputs w)
      in do {
        outs \<leftarrow> update_outputs (ElementApplyUpdate_UpdateElementProof H (au_Element au)) rem;
        let outs = outs @ filter (\<lambda>o'. tracked w (element_address o')) (au_NewOutputElements au);
        txns \<leftarrow> relevant_txns H w (cs_Index (au_State au)) (bh_Timestamp (b_Header b)) (b_Transactions b);
        Some (w\<lparr>mw_outputs := outs, mw_txns := mw_txns w @ txns, mw_tip := cs_Index (au_State au)\<rparr>)
      })"

definition MemWallet_ProcessChainRevertUpdate :: "hashfn \<Rightarrow> mem_wallet \<Rightarrow> chain_revert_update \<Rightarrow> mem_wallet option" where
  "MemWallet_ProcessChainRevertUpdate H w cru =
     (let ru = cru_Update cru; b = cru_Block cru;
          rem = filter (\<lambda>o'. \<not> RevertUpdate_OutputElementWasRemoved ru o') (mw_outputs w);
          outs = rem @ filter (\<lambda>o'. tracked w (element_address o')) (ru_SpentOutputs ru)
      in do {
        outs \<leftarrow> update_outputs (ElementRevertUpdate_UpdateElementProof H (ru_Element ru)) outs;
        Some (w\<lparr>mw_outputs := outs,
                mw_txns := takeWhile (\<lambda>txn. wt_Index txn \<noteq> Block_Index H b) (mw_txns w),
                mw_tip := cs_Index (ru_State ru)\<rparr>)
      })"

section \<open>JSONStore\<close>

text \<open>
  The file \<open>wallet.json\<close> holds what \<open>save\<close> last wrote; encoding/json is taken to read back what it wrote. \<open>io\<close> says
  whether an operation on the file system fails.
\<close>

record json_persist =
  jp_Tip :: chain_index
  jp_SeedIndex :: u64
  jp_Addrs :: "(address \<times> u64) list"
  jp_OutputElements :: "output_element list"
  jp_Transactions :: "wallet_txn list"

record json_store =
  js_mem :: mem_wallet
  js_file :: "json_persist option"

datatype io_result = IoOk | IoError

definition JSONStore_save :: "io_result \<Rightarrow> json_store \<Rightarrow> io_result \<times> json_store" where
  "JSONStore_save io s =
     (case io of
        IoError \<Rightarrow> (IoError, s)
      | IoOk \<Rightarrow> (IoOk, s\<lparr>js_file := Some \<lparr>jp_Tip = mw_tip (js_mem s), jp_SeedIndex = mw_seedIndex (js_mem s),
                   jp_Addrs = mw_addrs (js_mem s), jp_OutputElements = mw_outputs (js_mem s),
                   jp_Transactions = mw_txns (js_mem s)\<rparr>\<rparr>))"

text \<open>\<open>load\<close> keeps the caller's tip in the store and returns the one of the file.\<close>

definition JSONStore_load :: "io_result \<Rightarrow> json_store \<Rightarrow> chain_index \<Rightarrow> (io_result + chain_index) \<times> json_store" where
  "JSONStore_load io s tip =
     (case js_file s of
        None \<Rightarrow> (Inr tip, s\<lparr>js_mem := (js_mem s)\<lparr>mw_tip := tip, mw_addrs := []\<rparr>\<rparr>)
      | Some p \<Rightarrow>
          (case io of
             IoError \<Rightarrow> (Inl IoError, s)
           | IoOk \<Rightarrow> (Inr (jp_Tip p),
               s\<lparr>js_mem := \<lparr>mw_tip = tip, mw_seedIndex = jp_SeedIndex p, mw_addrs = jp_Addrs p,
                           mw_outputs = jp_OutputElements p, mw_txns = jp_Transactions p\<rparr>\<rparr>)))"

definition JSONStore_AddAddress :: "io_result \<Rightarrow> json_store \<Rightarrow> address \<Rightarrow> u64 \<Rightarrow> io_result \<times> json_store" where
  "JSONStore_AddAddress io s addr index =
     JSONStore_save io (s\<lparr>js_mem := MemWallet_AddAddress (js_mem s) addr index\<rparr>)"

definition JSONStore_ProcessChainApplyUpdate ::
    "hashfn \<Rightarrow> io_result \<Rightarrow> json_store \<Rightarrow> chain_apply_update \<Rightarrow> bool \<Rightarrow> (io_result \<times> json_store) option" where
  "JSONStore_ProcessChainApplyUpdate H io s cau mayCommit = do {
     w \<leftarrow> MemWallet_ProcessChainApplyUpdate H (js_mem s) cau;
     Some (if mayCommit then JSONStore_save io (s\<lparr>js_mem := w\<rparr>) else (IoOk, s\<lparr>js_mem := w\<rparr>))
   }"

definition NewJSONStore :: "io_result \<Rightarrow> json_persist option \<Rightarrow> chain_index \<Rightarrow> (io_result + chain_index) \<times> json_store" where
  "NewJSONStore io file tip = JSONStore_load io \<lparr>js_mem = NewMemWallet tip, js_file = file\<rparr> tip"

section \<open>TestingWallet\<close>

text \<open>The wallet and its builder share the store, so it is the builder's.\<close>

record testing_wallet =
  tw_tb :: "mem_wallet txn_builder"
  tw_Seed :: seed
  tw_cs :: chain_state

abbreviation tw_store :: "testing_wallet \<Rightarrow> mem_wallet" where
  "tw_store w \<equiv> tb_store (tw_tb w)"

definition set_store :: "testing_wallet \<Rightarrow> mem_wallet \<Rightarrow> testing_wallet" where
  "set_store w store = w\<lparr>tw_tb := (tw_tb w)\<lparr>tb_store := store\<rparr>\<rparr>"

definition NewTestingWallet :: "seed \<Rightarrow> chain_state \<Rightarrow> testing_wallet" where
  "NewTestingWallet seed cs =
     \<lparr>tw_tb = NewTransactionBuilder (NewMemWallet (cs_Index cs)), tw_Seed = seed, tw_cs = cs\<rparr>"

definition TestingWallet_Balance :: "testing_wallet \<Rightarrow> currency option" where
  "TestingWallet_Balance w = MemWallet_Balance (tw_store w)"

definition TestingWallet_Address :: "hashfn \<Rightarrow> ed25519 \<Rightarrow> testing_wallet \<Rightarrow> address option" where
  "TestingWallet_Address H ed w =
     map_option (PublicKey_Address H) (Seed_PublicKey H ed (tw_Seed w) (MemWallet_SeedIndex (tw_store w)))"

definition TestingWallet_NewAddress :: "hashfn \<Rightarrow> ed25519 \<Rightarrow> testing_wallet \<Rightarrow> (address \<times> testing_wallet) option" where
  "TestingWallet_NewAddress H ed w = do {
     addr \<leftarrow> TestingWallet_Address H ed w;
     Some (addr, set_store w (MemWallet_AddAddress (tw_store w) addr (MemWallet_SeedIndex (tw_store w))))
   }"

definition TestingWallet_FundTransaction ::
    "hashfn \<Rightarrow> ed25519 \<Rightarrow> testing_wallet \<Rightarrow> transaction \<Rightarrow> currency \<Rightarrow> transaction list
     \<Rightarrow> ((wallet_error + element_id list) \<times> testing_wallet \<times> transaction) option" where
  "TestingWallet_FundTransaction H ed w txn amount pool = do {
     (r, tb, txn) \<leftarrow> TransactionBuilder_Fund H ed MemWallet (tw_tb w) (tw_cs w) txn amount (tw_Seed w) pool;
     Some (r, w\<lparr>tw_tb := tb\<rparr>, txn)
   }"

definition TestingWallet_SignTransaction ::
    "hashfn \<Rightarrow> ed25519 \<Rightarrow> testing_wallet \<Rightarrow> chain_state \<Rightarrow> transaction \<Rightarrow> element_id list
     \<Rightarrow> (wallet_error option \<times> transaction) option" where
  "TestingWallet_SignTransaction H ed w cs txn toSign =
     TransactionBuilder_SignTransaction H ed MemWallet (tw_tb w) cs txn toSign (tw_Seed w)"

fun sub_values :: "currency list \<Rightarrow> currency \<Rightarrow> currency option" where
  "sub_values [] acc = Some acc"
| "sub_values (v # vs) acc = do { acc \<leftarrow> Currency_Sub acc v; sub_values vs acc }"

definition TestingWallet_FundAndSign ::
    "hashfn \<Rightarrow> ed25519 \<Rightarrow> testing_wallet \<Rightarrow> transaction \<Rightarrow> (wallet_error option \<times> testing_wallet \<times> transaction) option" where
  "TestingWallet_FundAndSign H ed w txn = do {
     amount \<leftarrow> sum_values (map out_Value (tx_Outputs txn)) ZeroCurrency;
     amount \<leftarrow> Currency_Add amount (tx_MinerFee txn);
     amount \<leftarrow> sub_values (map in_value (tx_Inputs txn)) amount;
     (r, tb, txn) \<leftarrow> TransactionBuilder_Fund H ed MemWallet (tw_tb w) (tw_cs w) txn amount (tw_Seed w) [];
     let w = w\<lparr>tw_tb := tb\<rparr>;
     (case r of
        Inl e \<Rightarrow> Some (Some e, w, txn)
      | Inr toSign \<Rightarrow> do {
          (e, txn) \<leftarrow> TransactionBuilder_SignTransaction H ed MemWallet (tw_tb w) (tw_cs w) txn toSign (tw_Seed w);
          Some (e, w, txn)
        })
   }"

definition TestingWallet_ProcessChainApplyUpdate :: "hashfn \<Rightarrow> testing_wallet \<Rightarrow> chain_apply_update \<Rightarrow> testing_wallet option" where
  "TestingWallet_ProcessChainApplyUpdate H w cau = do {
     store \<leftarrow> MemWallet_ProcessChainApplyUpdate H (tw_store w) cau;
     Some ((set_store w store)\<lparr>tw_cs := au_State (cau_Update cau)\<rparr>)
   }"

definition TestingWallet_ProcessChainRevertUpdate :: "hashfn \<Rightarrow> testing_wallet \<Rightarrow> chain_revert_update \<Rightarrow> testing_wallet option" where
  "TestingWallet_ProcessChainRevertUpdate H w cru = do {
     store \<leftarrow> MemWallet_ProcessChainRevertUpdate H (tw_store w) cru;
     Some ((set_store w store)\<lparr>tw_cs := ru_State (cru_Update cru)\<rparr>)
   }"

section \<open>The store meets the contract\<close>

lemma MemWallet_simps [simp]:
  "ws_SeedIndex MemWallet = MemWallet_SeedIndex" "ws_Balance MemWallet = MemWallet_Balance"
  "ws_AddAddress MemWallet = (\<lambda>w addr index. Inr (MemWallet_AddAddress w addr index))"
  "ws_AddressIndex MemWallet = MemWallet_AddressIndex" "ws_Addresses MemWallet = MemWallet_Addresses"
  "ws_UnspentOutputElements MemWallet = MemWallet_UnspentOutputElements"
  "ws_Transactions MemWallet = MemWallet_Transactions"
  by (simp_all add: MemWallet_def)

interpretation mem_wallet: wallet_contract MemWallet "\<lambda>w. map_of (mw_addrs w)" mw_outputs
  by unfold_locales
    (auto simp: MemWallet_AddAddress_def MemWallet_AddressIndex_def MemWallet_UnspentOutputElements_def Let_def
      AList.update_conv' split: option.splits)

end
