(* ===== verification/Wallet_Invariant.thy ===== *)
theory Wallet_Invariant
  imports Wallet_Store
begin

text \<open>
  A wallet that follows a chain holds exactly the outputs at its addresses that no input of the chain has spent, each
  with its valid proof. The chain is the list of applied blocks, the last one first, each with the state, the ledger
  and the history before it.
\<close>

section \<open>The chain a wallet follows\<close>

type_synonym applied = "block \<times> chain_state \<times> ledger \<times> chain_index list"

text \<open>All elements ever created, by leaf number; the leaves that inputs have spent; and the leaves of outputs that
  were spent in the block that created them.\<close>

fun chain_elements :: "hashfn \<Rightarrow> output_element list \<Rightarrow> applied list \<Rightarrow> output_element list" where
  "chain_elements H E0 [] = E0"
| "chain_elements H E0 ((b, s, A, hs) # ch) = chain_elements H E0 ch @ new_elements H s b"

definition leaf_of :: "output_element \<Rightarrow> nat" where
  "leaf_of oe = unat (se_LeafIndex (oe_SE oe))"

fun spent_by_chain :: "applied list \<Rightarrow> nat set" where
  "spent_by_chain [] = {}"
| "spent_by_chain ((b, s, A, hs) # ch) = spent_by_chain ch \<union> leaf_of ` set (spent_parents b)"

fun spent_at_birth :: "hashfn \<Rightarrow> applied list \<Rightarrow> nat set" where
  "spent_at_birth H [] = {}"
| "spent_at_birth H ((b, s, A, hs) # ch) = spent_at_birth H ch \<union>
     {length A + j |j. j < length (new_elements H s b) \<and> element_oid (new_elements H s b ! j) \<in> set (ephemeral_spent b)}"

definition element_preimages :: "output_element list \<Rightarrow> byte list list" where
  "element_preimages E = map output_preimage E"

text \<open>The blocks are valid, fit, and their elements do not collide.\<close>

fun chain_ok ::
    "hashfn \<Rightarrow> verifier \<Rightarrow> output_element list \<Rightarrow> applied list \<Rightarrow> chain_state \<Rightarrow> ledger \<Rightarrow> chain_index list \<Rightarrow> bool" where
  "chain_ok H verify E0 [] s A hs \<longleftrightarrow>
     state_repr H A hs s \<and> length A = length E0 \<and> (\<forall>i<length A. fst (A ! i) = H (output_preimage (E0 ! i)))"
| "chain_ok H verify E0 ((b, s0, A0, hs0) # ch) s A hs \<longleftrightarrow>
     chain_ok H verify E0 ch s0 A0 hs0
     \<and> ValidateBlock H verify s0 b = Some (Inr ())
     \<and> inj_on H (set (block_preimages H A0 b @ element_preimages (chain_elements H E0 ch)))
     \<and> length A0 + length (new_elements H s0 b) < 2 ^ 62 \<and> length hs0 < 2 ^ 62
     \<and> (\<exists>au. ApplyBlock H s0 b = Some au \<and> s = au_State au)
     \<and> A = ledger_apply H s0 b A0 \<and> hs = hs0 @ [Block_Index H b]"

text \<open>What a wallet goes through: it is created, learns addresses nothing has been sent to before, and is told of
  blocks that are applied and reverted.\<close>

inductive wallet_run ::
    "hashfn \<Rightarrow> verifier \<Rightarrow> output_element list \<Rightarrow> applied list \<Rightarrow> chain_state \<Rightarrow> ledger \<Rightarrow> chain_index list
     \<Rightarrow> mem_wallet \<Rightarrow> bool" for H verify E0 where
  start: "chain_ok H verify E0 [] s A hs \<Longrightarrow> wallet_run H verify E0 [] s A hs (NewMemWallet (cs_Index s))"
| address: "wallet_run H verify E0 ch s A hs w \<Longrightarrow>
    tracked w addr \<or> addr \<notin> element_address ` set (chain_elements H E0 ch) \<Longrightarrow>
    wallet_run H verify E0 ch s A hs (MemWallet_AddAddress w addr index)"
| apply_block: "wallet_run H verify E0 ch s A hs w \<Longrightarrow> chain_ok H verify E0 ((b, s, A, hs) # ch) (au_State au) A' hs' \<Longrightarrow>
    ApplyBlock H s b = Some au \<Longrightarrow>
    MemWallet_ProcessChainApplyUpdate H w \<lparr>cau_Update = au, cau_Block = b\<rparr> = Some w' \<Longrightarrow>
    wallet_run H verify E0 ((b, s, A, hs) # ch) (au_State au) A' hs' w'"
| revert_block: "wallet_run H verify E0 ((b, s, A, hs) # ch) s' A' hs' w \<Longrightarrow> bh_Height (b_Header b) \<noteq> 0 \<Longrightarrow>
    RevertBlock H s b = Some ru \<Longrightarrow>
    MemWallet_ProcessChainRevertUpdate H w \<lparr>cru_Update = ru, cru_Block = b\<rparr> = Some w' \<Longrightarrow>
    wallet_run H verify E0 ch s A hs w'"

section \<open>The ledger of the chain\<close>

lemma chain_ok_repr: "chain_ok H verify E0 ch s A hs \<Longrightarrow> state_repr H A hs s \<and> length A = length (chain_elements H E0 ch)
    \<and> (ch \<noteq> [] \<longrightarrow> length A < 2 ^ 62)"
proof (induction ch arbitrary: s A hs)
  case (Cons x ch)
  obtain b s0 A0 hs0 where x: "x = (b, s0, A0, hs0)" by (cases x)
  have ok: "chain_ok H verify E0 ch s0 A0 hs0" using Cons.prems by (simp add: x)
  then have rep: "state_repr H A0 hs0 s0" and len: "length A0 = length (chain_elements H E0 ch)"
    using Cons.IH by blast+
  have acc: "acc_repr H A0 (cs_Elements s0)" using rep by (simp add: state_repr_def)
  have "inj_on H (set (block_preimages H A0 b))" and v: "ValidateBlock H verify s0 b = Some (Inr ())"
    using Cons.prems by (auto simp: x intro: inj_on_subset)
  from block_ok_if_valid [OF acc v this(1)] have "block_ok H A0 s0 b" .
  from ApplyBlock_refines [OF rep this] Cons.prems show ?case
    by (auto simp: x len ledger_apply_def created_leaves_def)
qed simp

lemma chain_ok_block:
  assumes "chain_ok H verify E0 ((b, s, A, hs) # ch) s' A' hs'"
  shows "block_ok H A s b" "state_repr H A hs s" "length A = length (chain_elements H E0 ch)"
proof -
  have ok: "chain_ok H verify E0 ch s A hs" using assms by simp
  then show rep: "state_repr H A hs s" and "length A = length (chain_elements H E0 ch)"
    using chain_ok_repr [OF ok] by blast+
  have acc: "acc_repr H A (cs_Elements s)" using rep by (simp add: state_repr_def)
  have "inj_on H (set (block_preimages H A b))" and v: "ValidateBlock H verify s b = Some (Inr ())"
    using assms by (auto intro: inj_on_subset)
  from block_ok_if_valid [OF acc v this(1)] show "block_ok H A s b" .
qed

lemma spent_leaves_idx: "idx ` set (spent_leaves H b x) = leaf_of ` set (spent_parents b)"
  by (simp add: spent_leaves_def image_image leaf_of_def)

text \<open>The entry of a leaf: the hash of its element, and whether it is spent.\<close>

lemma ledger_apply_nth:
  assumes ok: "block_ok H A s b" and i: "i < length A + length (new_elements H s b)"
  shows "fst (ledger_apply H s b A ! i) =
      (if i < length A then fst (A ! i) else H (output_preimage (new_elements H s b ! (i - length A))))"
    and "snd (ledger_apply H s b A ! i) \<longleftrightarrow>
      (if i < length A then snd (A ! i) \<or> i \<in> leaf_of ` set (spent_parents b)
       else element_oid (new_elements H s b ! (i - length A)) \<in> set (ephemeral_spent b))"
proof -
  have d: "distinct (map idx (spent_leaves H b True))"
    using ok by (simp add: block_ok_def spent_leaves_def comp_def)
  have "fst (ledger_apply H s b A ! i) =
      (if i < length A then fst (A ! i) else H (output_preimage (new_elements H s b ! (i - length A))))
    \<and> (snd (ledger_apply H s b A ! i) \<longleftrightarrow>
      (if i < length A then snd (A ! i) \<or> i \<in> leaf_of ` set (spent_parents b)
       else element_oid (new_elements H s b ! (i - length A)) \<in> set (ephemeral_spent b)))"
  proof (cases "i < length A")
    case True
    note n = nth_ledger_update [OF True d]
    show ?thesis
    proof (cases "i \<in> leaf_of ` set (spent_parents b)")
      case spent: True
      then obtain oe where oe: "oe \<in> set (spent_parents b)" "leaf_of oe = i" by auto
      have "OutputLeaf H oe True \<in> set (spent_leaves H b True)" "idx (OutputLeaf H oe True) = i"
        using oe by (auto simp: spent_leaves_def leaf_of_def)
      then have u: "ledger_update (spent_leaves H b True) A ! i = leaf_data (OutputLeaf H oe True)" using n by blast
      have "leaf_in H A (OutputLeaf H oe False)" using ok oe(1) by (simp add: block_ok_def)
      then have "fst (A ! i) = H (output_preimage oe)" using oe(2) by (simp add: leaf_in_def leaf_of_def leaf_data_def OutputLeaf_def)
      then show ?thesis using True spent u by (simp add: ledger_apply_def nth_append leaf_data_def OutputLeaf_def)
    next
      case False
      then have "ledger_update (spent_leaves H b True) A ! i = A ! i" using n by (simp add: spent_leaves_idx)
      then show ?thesis using True False by (simp add: ledger_apply_def nth_append)
    qed
  next
    case False
    then have "i - length A < length (new_elements H s b)" using i by simp
    then show ?thesis using False
      by (simp add: ledger_apply_def nth_append created_leaves_def leaf_data_def OutputLeaf_def)
  qed
  then show "fst (ledger_apply H s b A ! i) =
      (if i < length A then fst (A ! i) else H (output_preimage (new_elements H s b ! (i - length A))))"
    "snd (ledger_apply H s b A ! i) \<longleftrightarrow>
      (if i < length A then snd (A ! i) \<or> i \<in> leaf_of ` set (spent_parents b)
       else element_oid (new_elements H s b ! (i - length A)) \<in> set (ephemeral_spent b))" by blast+
qed

lemma spent_less: "block_ok H A s b \<Longrightarrow> oe \<in> set (spent_parents b) \<Longrightarrow> leaf_of oe < length A \<and> \<not> snd (A ! leaf_of oe)"
  by (auto simp: block_ok_def leaf_in_def leaf_of_def leaf_data_def OutputLeaf_def)

lemma chain_ledger:
  "chain_ok H verify E0 ch s A hs \<Longrightarrow>
     spent_by_chain ch \<subseteq> {..<length A} \<and> spent_at_birth H ch \<subseteq> {..<length A}
     \<and> (\<forall>i<length A. fst (A ! i) = H (output_preimage (chain_elements H E0 ch ! i))
        \<and> (length E0 \<le> i \<longrightarrow> (snd (A ! i) \<longleftrightarrow> i \<in> spent_by_chain ch \<union> spent_at_birth H ch)))"
proof (induction ch arbitrary: s A hs)
  case (Cons x ch)
  obtain b s0 A0 hs0 where x: "x = (b, s0, A0, hs0)" by (cases x)
  note blk = chain_ok_block [OF Cons.prems [unfolded x]]
  have ok: "chain_ok H verify E0 ch s0 A0 hs0" and A: "A = ledger_apply H s0 b A0" using Cons.prems by (simp_all add: x)
  note IH = Cons.IH [OF ok]
  have len: "length A = length A0 + length (new_elements H s0 b)" by (simp add: A ledger_apply_def created_leaves_def)
  have sp: "leaf_of ` set (spent_parents b) \<subseteq> {..<length A0}" using spent_less [OF blk(1)] by auto
  have birth: "length A0 + j \<in> spent_at_birth H ((b, s0, A0, hs0) # ch) \<longleftrightarrow>
      element_oid (new_elements H s0 b ! j) \<in> set (ephemeral_spent b)" if "j < length (new_elements H s0 b)" for j
    using IH that by auto
  have "fst (A ! i) = H (output_preimage (chain_elements H E0 (x # ch) ! i))
        \<and> (length E0 \<le> i \<longrightarrow> (snd (A ! i) \<longleftrightarrow> i \<in> spent_by_chain (x # ch) \<union> spent_at_birth H (x # ch)))"
    if i: "i < length A" for i
  proof (cases "i < length A0")
    case True
    then show ?thesis
      using ledger_apply_nth [OF blk(1), of i] i len IH blk(3) by (auto simp: A x nth_append)
  next
    case False
    then obtain j where j: "i = length A0 + j" "j < length (new_elements H s0 b)" using i len
      by (metis add_diff_inverse_nat nat_add_left_cancel_less)
    have "i \<notin> spent_by_chain (x # ch)" using IH sp False by (auto simp: x)
    then show ?thesis
      using ledger_apply_nth [OF blk(1), of i] i len blk(3) birth [OF j(2)] j by (auto simp: A x nth_append)
  qed
  moreover have "spent_by_chain (x # ch) \<subseteq> {..<length A}" "spent_at_birth H (x # ch) \<subseteq> {..<length A}"
    using IH sp len by (auto simp: x)
  ultimately show ?case by blast
qed simp

lemma start_elements: "set E0 \<subseteq> set (chain_elements H E0 ch)"
  by (induction ch) auto

lemma chain_elements_start:
  "length E0 \<le> length (chain_elements H E0 ch) \<and> (i < length E0 \<longrightarrow> chain_elements H E0 ch ! i = E0 ! i)"
  by (induction ch) (auto simp: nth_append)

section \<open>The invariant of the wallet\<close>

definition same_element :: "output_element \<Rightarrow> output_element \<Rightarrow> bool" where
  "same_element a b \<longleftrightarrow> element_oid a = element_oid b \<and> oe_Output a = oe_Output b \<and> oe_MaturityHeight a = oe_MaturityHeight b"

definition holdings :: "hashfn \<Rightarrow> output_element list \<Rightarrow> applied list \<Rightarrow> (address \<Rightarrow> bool) \<Rightarrow> nat set" where
  "holdings H E0 ch P =
     {i. i < length (chain_elements H E0 ch) \<and> P (element_address (chain_elements H E0 ch ! i)) \<and> i \<notin> spent_by_chain ch}"

definition wallet_ok :: "hashfn \<Rightarrow> output_element list \<Rightarrow> applied list \<Rightarrow> chain_state \<Rightarrow> ledger \<Rightarrow> mem_wallet \<Rightarrow> bool" where
  "wallet_ok H E0 ch s A w \<longleftrightarrow>
     mw_tip w = cs_Index s \<and> (\<forall>e\<in>set E0. \<not> tracked w (element_address e))
     \<and> distinct (map leaf_of (mw_outputs w))
     \<and> leaf_of ` set (mw_outputs w) = holdings H E0 ch (tracked w)
     \<and> (\<forall>oe\<in>set (mw_outputs w). element_in H A (oe_SE oe) \<and> same_element oe (chain_elements H E0 ch ! leaf_of oe))"

definition reproof :: "hashfn \<Rightarrow> ledger \<Rightarrow> output_element \<Rightarrow> output_element" where
  "reproof H A oe = oe\<lparr>oe_SE := (oe_SE oe)\<lparr>se_MerkleProof := valid_proof H A (leaf_of oe)\<rparr>\<rparr>"

lemma reproof_simps [simp]:
  "leaf_of (reproof H A oe) = leaf_of oe" "oe_Output (reproof H A oe) = oe_Output oe"
  "same_element (reproof H A oe) e = same_element oe e"
  by (simp_all add: reproof_def leaf_of_def same_element_def)

lemma reproof_in: "leaf_of oe < length A \<Longrightarrow> element_in H A (oe_SE (reproof H A oe))"
  by (simp add: reproof_def leaf_of_def element_in_def)

lemma reproof_same: "element_in H A (oe_SE oe) \<Longrightarrow> (oe_SE oe)\<lparr>se_MerkleProof := valid_proof H A (leaf_of oe)\<rparr> = oe_SE oe"
  by (cases "oe_SE oe") (simp add: leaf_of_def element_in_def)

lemma update_outputs_reproof:
  "\<forall>oe\<in>set outs. upd (oe_SE oe) = Some ((oe_SE oe)\<lparr>se_MerkleProof := valid_proof H A (leaf_of oe)\<rparr>) \<Longrightarrow>
   update_outputs upd outs = Some (map (reproof H A) outs)"
  unfolding update_outputs_def by (induction outs) (simp_all add: reproof_def)

lemma leaf_of_eq: "se_LeafIndex (oe_SE a) = se_LeafIndex (oe_SE b) \<longleftrightarrow> leaf_of a = leaf_of b"
  by (simp add: leaf_of_def word_unat_eq_iff)

lemma WasSpent_iff:
  "au_SpentOutputs au = spent_parents b \<Longrightarrow>
   ApplyUpdate_OutputElementWasSpent au oe \<longleftrightarrow> leaf_of oe \<in> leaf_of ` set (spent_parents b)"
  unfolding ApplyUpdate_OutputElementWasSpent_def list_ex_iff leaf_of_eq by (metis imageE imageI)

lemma placed_facts:
  assumes "length A + length (new_elements H s b) < 2 ^ 62"
  shows "map leaf_of (placed_elements H s b A) = map ((+) (length A)) [0..<length (new_elements H s b)]"
    "oe \<in> set (placed_elements H s b A) \<Longrightarrow> length A \<le> leaf_of oe \<and> leaf_of oe < length A + length (new_elements H s b)
      \<and> element_in H (ledger_apply H s b A) (oe_SE oe) \<and> same_element oe (new_elements H s b ! (leaf_of oe - length A))"
proof -
  have u: "unat (word_of_nat (length A + j) :: u64) = length A + j" if "j < length (new_elements H s b)" for j
    using that assms by (intro unat_of_nat64) simp
  show "map leaf_of (placed_elements H s b A) = map ((+) (length A)) [0..<length (new_elements H s b)]"
    using u by (simp add: placed_elements_def Let_def leaf_of_def del: of_nat_add)
  assume "oe \<in> set (placed_elements H s b A)"
  then obtain j where "j < length (new_elements H s b)"
    "oe = (new_elements H s b ! j)\<lparr>oe_SE := \<lparr>se_ID = element_oid (new_elements H s b ! j), se_LeafIndex = word_of_nat (length A + j),
                 se_MerkleProof = valid_proof H (ledger_apply H s b A) (length A + j)\<rparr>\<rparr>"
    by (auto simp: placed_elements_def Let_def simp del: of_nat_add)
  then show "length A \<le> leaf_of oe \<and> leaf_of oe < length A + length (new_elements H s b)
      \<and> element_in H (ledger_apply H s b A) (oe_SE oe) \<and> same_element oe (new_elements H s b ! (leaf_of oe - length A))"
    using u [of j] by (simp add: leaf_of_def element_in_def same_element_def ledger_apply_def created_leaves_def del: of_nat_add)
qed

section \<open>Every step keeps the invariant\<close>

lemma tracked_outputs [simp]: "tracked (w\<lparr>mw_outputs := outs, mw_txns := txns, mw_tip := tip\<rparr>) a = tracked w a"
  by (simp add: tracked_def)

lemma wallet_ok_address:
  assumes ok: "wallet_ok H E0 ch s A w" and a: "tracked w addr \<or> addr \<notin> element_address ` set (chain_elements H E0 ch)"
  shows "wallet_ok H E0 ch s A (MemWallet_AddAddress w addr index)"
proof -
  let ?w = "MemWallet_AddAddress w addr index"
  have t: "tracked ?w x \<longleftrightarrow> x = addr \<or> tracked w x" for x
    by (auto simp: MemWallet_AddAddress_def Let_def tracked_def AList.update_conv')
  have same: "tracked ?w (element_address e) = tracked w (element_address e)" if "e \<in> set (chain_elements H E0 ch)" for e
    using a that t by auto
  have "holdings H E0 ch (tracked ?w) = holdings H E0 ch (tracked w)" using same by (auto simp: holdings_def)
  moreover have "mw_outputs ?w = mw_outputs w" "mw_tip ?w = mw_tip w" by (simp_all add: MemWallet_AddAddress_def Let_def)
  moreover have "\<forall>e\<in>set E0. \<not> tracked ?w (element_address e)"
    using ok same start_elements [of E0 H ch] by (auto simp: wallet_ok_def)
  ultimately show ?thesis using ok by (simp add: wallet_ok_def)
qed

lemma chain_ok_apply:
  assumes "chain_ok H verify E0 ((b, s, A, hs) # ch) (au_State au) A' hs'" "ApplyBlock H s b = Some au"
  shows "cs_Index (au_State au) = Block_Index H b" "au_SpentOutputs au = spent_parents b"
    "au_NewOutputElements au = placed_elements H s b A" "A' = ledger_apply H s b A"
    "length A + length (new_elements H s b) < 2 ^ 62"
    "element_in H A e \<Longrightarrow> ElementApplyUpdate_UpdateElementProof H (au_Element au) e =
       Some (e\<lparr>se_MerkleProof := valid_proof H A' (unat (se_LeafIndex e))\<rparr>)"
  using ApplyBlock_refines [OF chain_ok_block(2,1) [OF assms(1)]] assms by auto

lemma sub_value_sum: "value_sum (map f (filter P xs)) \<le> value_sum (map f xs)"
  by (induction xs) (auto simp: value_sum_def)

lemma relevant_txns_total:
  "\<forall>txn\<in>set txns. txn_total txn < 2 ^ 128 \<Longrightarrow> \<exists>rs. relevant_txns H w index timestamp txns = Some rs"
proof (induction txns)
  case (Cons txn txns)
  have small: "txn_total txn < 2 ^ 128" using Cons.prems by (meson list.set_intros(1))
  let ?outs = "map out_Value (filter (\<lambda>out. tracked w (out_Address out)) (tx_Outputs txn))"
  let ?ins = "map in_value (filter (\<lambda>inp. tracked w (element_address (in_Parent inp))) (tx_Inputs txn))"
  have "cur_nat ZeroCurrency + value_sum ?outs < 2 ^ 128" "cur_nat ZeroCurrency + value_sum ?ins < 2 ^ 128"
    using small sub_value_sum [of out_Value "\<lambda>out. tracked w (out_Address out)" "tx_Outputs txn"]
      sub_value_sum [of in_value "\<lambda>inp. tracked w (element_address (in_Parent inp))" "tx_Inputs txn"]
    by (simp_all add: txn_total_def)
  then obtain x y where "sum_values ?outs ZeroCurrency = Some x" "sum_values ?ins ZeroCurrency = Some y"
    using sum_values_nat by metis
  then have "\<exists>r. relevant_txn H w index timestamp txn = Some r" unfolding relevant_txn_def by simp
  moreover have "\<exists>rs. relevant_txns H w index timestamp txns = Some rs"
    using Cons.prems by (intro Cons.IH ballI) (meson list.set_intros(2))
  ultimately show ?case by auto
qed simp

text \<open>What the wallet is after a block: the outputs that stay, with their new proofs, and those of the block.\<close>

lemma apply_outcome:
  assumes ok: "wallet_ok H E0 ch s A w" and ch: "chain_ok H verify E0 ((b, s, A, hs) # ch) (au_State au) A' hs'"
    and au: "ApplyBlock H s b = Some au"
  shows "\<exists>txns. MemWallet_ProcessChainApplyUpdate H w \<lparr>cau_Update = au, cau_Block = b\<rparr> =
    Some (w\<lparr>mw_outputs := map (reproof H A') (filter (\<lambda>oe. leaf_of oe \<notin> leaf_of ` set (spent_parents b)) (mw_outputs w))
              @ filter (\<lambda>oe. tracked w (element_address oe)) (placed_elements H s b A),
            mw_txns := mw_txns w @ txns, mw_tip := cs_Index (au_State au)\<rparr>)"
proof -
  note a = chain_ok_apply [OF ch au]
  let ?rem = "filter (\<lambda>oe. leaf_of oe \<notin> leaf_of ` set (spent_parents b)) (mw_outputs w)"
  have in_A: "element_in H A (oe_SE oe)" if "oe \<in> set ?rem" for oe using that ok by (auto simp: wallet_ok_def)
  have upd: "update_outputs (ElementApplyUpdate_UpdateElementProof H (au_Element au)) ?rem = Some (map (reproof H A') ?rem)"
    using a(6) in_A by (intro update_outputs_reproof) (auto simp: leaf_of_def)
  have "ValidateTransactionSet H verify s (b_Transactions b) = valid" using ch by (simp add: ValidateBlock_valid)
  from ValidateTransactionSet_sound(4) [OF this] have "\<forall>txn\<in>set (b_Transactions b). txn_total txn < 2 ^ 128"
    by (auto simp: ValidateTransaction_valid txn_valid_def list_all_iff simp del: power_numeral)
  from relevant_txns_total [OF this] obtain txns where
    "relevant_txns H w (cs_Index (au_State au)) (bh_Timestamp (b_Header b)) (b_Transactions b) = Some txns" by blast
  then show ?thesis using upd
    by (intro exI [of _ txns]) (simp add: MemWallet_ProcessChainApplyUpdate_def Let_def a(3) WasSpent_iff [OF a(2)])
qed

lemma wallet_ok_apply:
  assumes ok: "wallet_ok H E0 ch s A w" and ch: "chain_ok H verify E0 ((b, s, A, hs) # ch) (au_State au) A' hs'"
    and au: "ApplyBlock H s b = Some au"
    and w': "MemWallet_ProcessChainApplyUpdate H w \<lparr>cau_Update = au, cau_Block = b\<rparr> = Some w'"
  shows "wallet_ok H E0 ((b, s, A, hs) # ch) (au_State au) A' w'"
proof -
  let ?E = "chain_elements H E0 ch" and ?new = "new_elements H s b" and ?sp = "leaf_of ` set (spent_parents b)"
  let ?rem = "filter (\<lambda>oe. leaf_of oe \<notin> ?sp) (mw_outputs w)"
  note a = chain_ok_apply [OF ch au] and blk = chain_ok_block [OF ch]
  have len: "length A' = length A + length ?new" by (simp add: a(4) ledger_apply_def created_leaves_def)
  have w'_eq: "mw_outputs w' = map (reproof H A') ?rem @ filter (\<lambda>x. tracked w (element_address x)) (placed_elements H s b A)"
    "mw_tip w' = cs_Index (au_State au)" "tracked w' = tracked w"
    using apply_outcome [OF ok ch au] w' by (auto simp: tracked_def fun_eq_iff)
  have old: "leaf_of oe < length A" if "oe \<in> set (mw_outputs w)" for oe
    using that ok by (auto simp: wallet_ok_def element_in_def leaf_of_def)
  note new = placed_facts [OF a(5)]
  have addr: "element_address oe = element_address (?new ! (leaf_of oe - length A))" if "oe \<in> set (placed_elements H s b A)" for oe
    using new(2) [OF that] by (simp add: same_element_def)
  have "distinct (map leaf_of (placed_elements H s b A))" unfolding new(1) by (simp add: distinct_map)
  then have "distinct (map leaf_of (mw_outputs w'))"
    using ok old new(2) by (force simp: w'_eq wallet_ok_def distinct_map_filter comp_def)
  moreover have "leaf_of ` set (mw_outputs w') = holdings H E0 ((b, s, A, hs) # ch) (tracked w')"
  proof -
    have "leaf_of ` set (placed_elements H s b A) = {length A..<length A + length ?new}"
      using arg_cong [OF new(1), of set] by (simp add: image_add_atLeastLessThan add.commute)
    then have "leaf_of ` {x \<in> set (placed_elements H s b A). tracked w (element_address x)} =
        {i. length A \<le> i \<and> i < length A + length ?new \<and> tracked w (element_address (?new ! (i - length A)))}"
      using addr by (auto simp: set_eq_iff image_iff) metis
    moreover have "leaf_of ` {oe \<in> set (mw_outputs w). leaf_of oe \<notin> ?sp} = holdings H E0 ch (tracked w) - ?sp"
      using ok by (auto simp: wallet_ok_def)
    ultimately have "leaf_of ` set (mw_outputs w') = (holdings H E0 ch (tracked w) - ?sp) \<union>
        {i. length A \<le> i \<and> i < length A + length ?new \<and> tracked w (element_address (?new ! (i - length A)))}"
      by (simp add: w'_eq image_Un image_image)
    also have "\<dots> = holdings H E0 ((b, s, A, hs) # ch) (tracked w')"
      using chain_ledger [of H verify E0 ch s A hs] ch spent_less [OF blk(1)] blk(3)
      by (auto simp: holdings_def w'_eq(3) nth_append)
    finally show ?thesis .
  qed
  moreover have "\<forall>oe\<in>set (mw_outputs w'). element_in H A' (oe_SE oe)
      \<and> same_element oe (chain_elements H E0 ((b, s, A, hs) # ch) ! leaf_of oe)"
  proof
    fix oe assume "oe \<in> set (mw_outputs w')"
    then consider (kept) x where "x \<in> set (mw_outputs w)" "oe = reproof H A' x" | (new) "oe \<in> set (placed_elements H s b A)"
      by (auto simp: w'_eq)
    then show "element_in H A' (oe_SE oe) \<and> same_element oe (chain_elements H E0 ((b, s, A, hs) # ch) ! leaf_of oe)"
    proof cases
      case kept
      then have "same_element x (?E ! leaf_of x)" using ok by (simp add: wallet_ok_def)
      then show ?thesis using kept old [OF kept(1)] len blk(3) by (simp add: reproof_in nth_append)
    next
      case new: new
      show ?thesis using placed_facts(2) [OF a(5) new] blk(3) by (simp add: a(4) nth_append)
    qed
  qed
  ultimately show ?thesis using ok w'_eq by (simp add: wallet_ok_def)
qed

text \<open>A revert takes the elements of the ledger before the block to their proofs there, those it brings back too.\<close>

lemma RevertBlock_keeps:
  assumes rep: "state_repr H A hs s" and ok: "block_ok H A s b" and n: "length A < 2 ^ 62"
    and ru: "RevertBlock H s b = Some ru" and e: "element_in H A e"
  shows "ElementRevertUpdate_UpdateElementProof H (ru_Element ru) e = Some e"
proof -
  have acc: "acc_repr H A (cs_Elements s)" using rep by (simp add: state_repr_def)
  have us: "leaf_in H A l" if "l \<in> set (spent_leaves H b False)" for l
    using that ok by (auto simp: spent_leaves_def block_ok_def)
  obtain eru where eru: "ElementAccumulator_RevertBlock (cs_Elements s) (spent_leaves H b False) = Some eru"
    "\<And>e. element_in H A e \<Longrightarrow> unat (se_LeafIndex e) < length A \<Longrightarrow> ElementRevertUpdate_UpdateElementProof H eru e =
       Some (e\<lparr>se_MerkleProof := valid_proof H A (unat (se_LeafIndex e))\<rparr>)"
    using RevertBlock_ledger [OF acc n us le_refl refl] by blast
  have "ru_Element ru = eru"
    using ru eru(1) by (auto simp: RevertBlock_def updatedInBlock_eq createdInBlock_eq split: if_splits)
  moreover have "e\<lparr>se_MerkleProof := valid_proof H A (unat (se_LeafIndex e))\<rparr> = e" "unat (se_LeafIndex e) < length A"
    using e by (simp_all add: element_in_def)
  ultimately show ?thesis using eru(2) [OF e] by simp
qed

text \<open>The outputs that a block spent are elements of the chain before it.\<close>

lemma parent_facts:
  assumes ch: "chain_ok H verify E0 ((b, s, A, hs) # ch) s' A' hs'" and oe: "oe \<in> set (spent_parents b)"
  shows "leaf_of oe < length A" "element_in H A (oe_SE oe)" "same_element oe (chain_elements H E0 ch ! leaf_of oe)"
    "leaf_of oe \<notin> spent_by_chain ch \<or> leaf_of oe < length E0"
proof -
  let ?E = "chain_elements H E0 ch"
  note blk = chain_ok_block [OF ch]
  have ok0: "chain_ok H verify E0 ch s A hs" and inj: "inj_on H (set (block_preimages H A b @ element_preimages ?E))"
    using ch by simp_all
  note led = chain_ledger [OF ok0]
  have l: "leaf_in H A (OutputLeaf H oe False)" using blk(1) oe by (simp add: block_ok_def)
  then show i: "leaf_of oe < length A" "element_in H A (oe_SE oe)"
    by (simp_all add: leaf_in_def element_in_def leaf_of_def OutputLeaf_def)
  have "fst (A ! leaf_of oe) = H (output_preimage oe)"
    using l by (simp add: leaf_in_def leaf_data_def OutputLeaf_def leaf_of_def)
  then have "H (output_preimage oe) = H (output_preimage (?E ! leaf_of oe))" using led i(1) by metis
  moreover have "?E ! leaf_of oe \<in> set ?E" using i(1) blk(3) by simp
  ultimately have "output_preimage oe = output_preimage (?E ! leaf_of oe)"
    using oe by (intro inj_onD [OF inj]) (auto simp: block_preimages_def element_preimages_def)
  then show "same_element oe (?E ! leaf_of oe)" by (simp add: output_preimage_inj same_element_def)
  show "leaf_of oe \<notin> spent_by_chain ch \<or> leaf_of oe < length E0"
    using spent_less [OF blk(1) oe] led by auto
qed

lemma revert_outcome:
  assumes ok: "wallet_ok H E0 ((b, s, A, hs) # ch) s' A' w" and ch: "chain_ok H verify E0 ((b, s, A, hs) # ch) s' A' hs'"
    and h: "bh_Height (b_Header b) \<noteq> 0" and ru: "RevertBlock H s b = Some ru"
  shows "MemWallet_ProcessChainRevertUpdate H w \<lparr>cru_Update = ru, cru_Block = b\<rparr> =
    Some (w\<lparr>mw_outputs := map (reproof H A) (filter (\<lambda>oe. leaf_of oe < length A) (mw_outputs w)
              @ filter (\<lambda>oe. tracked w (element_address oe)) (spent_parents b)),
            mw_txns := takeWhile (\<lambda>txn. wt_Index txn \<noteq> Block_Index H b) (mw_txns w), mw_tip := cs_Index s\<rparr>)"
proof -
  note blk = chain_ok_block [OF ch] and again = parent_facts [OF ch]
  have A': "A' = ledger_apply H s b A" and n: "length A + length (new_elements H s b) < 2 ^ 62" "length A < 2 ^ 62"
    using ch by simp_all
  have len: "length A' = length A + length (new_elements H s b)" by (simp add: A' ledger_apply_def created_leaves_def)
  from RevertBlock_refines [OF blk(2,1) h n(1)] ru have r: "ru_State ru = s" "ru_SpentOutputs ru = spent_parents b"
    "\<And>oe. RevertUpdate_OutputElementWasRemoved ru oe \<longleftrightarrow>
        se_LeafIndex (oe_SE oe) \<noteq> EphemeralLeafIndex \<and> length A \<le> leaf_of oe"
    "\<And>e. element_in H A' e \<Longrightarrow> unat (se_LeafIndex e) < length A \<Longrightarrow>
        ElementRevertUpdate_UpdateElementProof H (ru_Element ru) e =
          Some (e\<lparr>se_MerkleProof := valid_proof H A (unat (se_LeafIndex e))\<rparr>)"
    by (auto simp: A' leaf_of_def)
  have held: "element_in H A' (oe_SE oe)" "leaf_of oe < length A'" if "oe \<in> set (mw_outputs w)" for oe
    using ok that by (auto simp: wallet_ok_def element_in_def leaf_of_def)
  have removed: "(\<not> RevertUpdate_OutputElementWasRemoved ru oe) \<longleftrightarrow> leaf_of oe < length A" if "oe \<in> set (mw_outputs w)" for oe
    using not_ephemeral [of "se_LeafIndex (oe_SE oe)" "length A'"] held(2) [OF that] n len by (auto simp: r(3) leaf_of_def)
  let ?rem = "filter (\<lambda>oe. leaf_of oe < length A) (mw_outputs w)"
  let ?again = "filter (\<lambda>x. tracked w (element_address x)) (spent_parents b)"
  have "ElementRevertUpdate_UpdateElementProof H (ru_Element ru) (oe_SE oe) =
      Some ((oe_SE oe)\<lparr>se_MerkleProof := valid_proof H A (leaf_of oe)\<rparr>)" if oe: "oe \<in> set (?rem @ ?again)" for oe
  proof -
    consider "oe \<in> set (mw_outputs w)" "leaf_of oe < length A" | "oe \<in> set (spent_parents b)" using oe by auto
    then show ?thesis
    proof cases
      case 1
      then show ?thesis using r(4) [of "oe_SE oe"] held(1) by (simp add: leaf_of_def)
    next
      case 2
      from RevertBlock_keeps [OF blk(2,1) n(2) ru again(2) [OF 2]] show ?thesis by (simp add: reproof_same [OF again(2) [OF 2]])
    qed
  qed
  then have "update_outputs (ElementRevertUpdate_UpdateElementProof H (ru_Element ru)) (?rem @ ?again) = Some (map (reproof H A) (?rem @ ?again))"
    by (intro update_outputs_reproof) blast
  moreover have "filter (\<lambda>x. \<not> RevertUpdate_OutputElementWasRemoved ru x) (mw_outputs w) = ?rem"
    using removed by (intro filter_cong) auto
  ultimately show ?thesis by (simp add: MemWallet_ProcessChainRevertUpdate_def Let_def r(1,2))
qed

lemma wallet_ok_revert:
  assumes ok: "wallet_ok H E0 ((b, s, A, hs) # ch) s' A' w" and ch: "chain_ok H verify E0 ((b, s, A, hs) # ch) s' A' hs'"
    and h: "bh_Height (b_Header b) \<noteq> 0" and ru: "RevertBlock H s b = Some ru"
    and w': "MemWallet_ProcessChainRevertUpdate H w \<lparr>cru_Update = ru, cru_Block = b\<rparr> = Some w'"
  shows "wallet_ok H E0 ch s A w'"
proof -
  let ?E = "chain_elements H E0 ch" and ?sp = "leaf_of ` set (spent_parents b)"
  let ?rem = "filter (\<lambda>oe. leaf_of oe < length A) (mw_outputs w)"
  let ?again = "filter (\<lambda>x. tracked w (element_address x)) (spent_parents b)"
  note blk = chain_ok_block [OF ch] and again = parent_facts [OF ch]
  have w'_eq: "mw_outputs w' = map (reproof H A) (?rem @ ?again)" "mw_tip w' = cs_Index s" "tracked w' = tracked w"
    using revert_outcome [OF ok ch h ru] w' by (auto simp: tracked_def fun_eq_iff)
  have same: "same_element oe ((?E @ new_elements H s b) ! leaf_of oe)" if "oe \<in> set (mw_outputs w)" for oe
    using ok that by (auto simp: wallet_ok_def)
  have fresh: "leaf_of oe \<notin> spent_by_chain ch" if oe: "oe \<in> set ?again" for oe
  proof (rule ccontr)
    assume "\<not> leaf_of oe \<notin> spent_by_chain ch"
    then have i: "leaf_of oe < length E0" using again(4) oe by auto
    then have "element_address oe = element_address (E0 ! leaf_of oe)"
      using again(3) [of oe] oe chain_elements_start [of E0 H ch "leaf_of oe"] by (simp add: same_element_def)
    moreover have "E0 ! leaf_of oe \<in> set E0" using i by simp
    ultimately show False using ok oe by (auto simp: wallet_ok_def)
  qed
  have hold: "leaf_of ` set (mw_outputs w) = holdings H E0 ((b, s, A, hs) # ch) (tracked w)"
    and dist: "distinct (map leaf_of (mw_outputs w))" using ok by (simp_all add: wallet_ok_def)
  have "distinct (map leaf_of (spent_parents b))" using blk(1) by (simp add: block_ok_def leaf_of_def [abs_def])
  moreover have "leaf_of x \<noteq> leaf_of y" if "x \<in> set (mw_outputs w)" "y \<in> set (spent_parents b)" for x y
    using hold that by (auto simp: holdings_def)
  ultimately have "distinct (map leaf_of (mw_outputs w'))"
    using dist by (force simp: w'_eq distinct_map_filter comp_def)
  moreover have "leaf_of ` set (mw_outputs w') = holdings H E0 ch (tracked w')"
  proof -
    have "leaf_of ` {oe \<in> set (mw_outputs w). leaf_of oe < length A}
        = {i \<in> holdings H E0 ((b, s, A, hs) # ch) (tracked w). i < length A}" unfolding hold [symmetric] by auto
    also have "\<dots> = {i \<in> holdings H E0 ch (tracked w). i \<notin> ?sp}"
      by (auto simp: holdings_def nth_append blk(3))
    finally have "leaf_of ` {oe \<in> set (mw_outputs w). leaf_of oe < length A} = {i \<in> holdings H E0 ch (tracked w). i \<notin> ?sp}" .
    moreover have "leaf_of ` set ?again = {i \<in> holdings H E0 ch (tracked w). i \<in> ?sp}"
      using again(1,3) fresh blk(3) by (auto simp: holdings_def same_element_def)
    ultimately show ?thesis
      unfolding w'_eq(1,3) by (auto simp: image_Un image_image)
  qed
  moreover have "\<forall>oe\<in>set (mw_outputs w'). element_in H A (oe_SE oe) \<and> same_element oe (?E ! leaf_of oe)"
  proof
    fix oe assume "oe \<in> set (mw_outputs w')"
    then obtain x where x: "x \<in> set (?rem @ ?again)" "oe = reproof H A x" unfolding w'_eq(1) by auto
    then have "x \<in> set (mw_outputs w) \<and> leaf_of x < length A \<or> x \<in> set (spent_parents b)" by auto
    then have "leaf_of x < length A \<and> same_element x (?E ! leaf_of x)"
      using again(1,3) [of x] same [of x] by (auto simp: nth_append blk(3))
    then show "element_in H A (oe_SE oe) \<and> same_element oe (?E ! leaf_of oe)"
      using x(2) by (simp add: reproof_in)
  qed
  ultimately show ?thesis using ok w'_eq by (simp add: wallet_ok_def)
qed

end
