(* ===== verification/Wallet_Properties.thy ===== *)
theory Wallet_Properties
  imports Wallet_Invariant Consensus_Properties
begin

text \<open>
  What the wallet promises: it holds what the chain left at its addresses, it never panics on a valid chain, and
  the payments it builds from what it holds are valid.
\<close>

section \<open>Every wallet that follows a chain is right\<close>

lemma wallet_ok_start:
  assumes "chain_ok H verify E0 [] s A hs"
  shows "wallet_ok H E0 [] s A (NewMemWallet (cs_Index s))"
  by (simp add: wallet_ok_def NewMemWallet_def tracked_def holdings_def)

lemma wallet_run_ok:
  "wallet_run H verify E0 ch s A hs w \<Longrightarrow> chain_ok H verify E0 ch s A hs \<and> wallet_ok H E0 ch s A w"
proof (induction rule: wallet_run.induct)
  case (start s A hs)
  then show ?case using wallet_ok_start by blast
next
  case (address ch s A hs w addr index)
  then show ?case using wallet_ok_address by blast
next
  case (apply_block ch s A hs w b au A' hs' w')
  then show ?case using wallet_ok_apply [OF _ apply_block.hyps(2-4)] by blast
next
  case (revert_block b s A hs ch s' A' hs' w ru w')
  then have ch: "chain_ok H verify E0 ((b, s, A, hs) # ch) s' A' hs'" and ok: "wallet_ok H E0 ((b, s, A, hs) # ch) s' A' w"
    by blast+
  have "chain_ok H verify E0 ch s A hs" using ch by simp
  then show ?case using wallet_ok_revert [OF ok ch revert_block.hyps(2-4)] by blast
qed

text \<open>The leaf of a held output is in the accumulator, as spent only if the output was spent at birth.\<close>

lemma held_leaf:
  assumes run: "wallet_run H verify E0 ch s A hs w" and oe: "oe \<in> set (mw_outputs w)"
  shows "leaf_in H A (OutputLeaf H oe (leaf_of oe \<in> spent_at_birth H ch))"
proof -
  have ch: "chain_ok H verify E0 ch s A hs" and ok: "wallet_ok H E0 ch s A w" using wallet_run_ok [OF run] by blast+
  have "leaf_of oe \<in> holdings H E0 ch (tracked w)" using ok oe unfolding wallet_ok_def by blast
  then have tr: "tracked w (element_address (chain_elements H E0 ch ! leaf_of oe))" and unspent: "leaf_of oe \<notin> spent_by_chain ch"
    by (simp_all add: holdings_def)
  have el: "element_in H A (oe_SE oe)" and same: "same_element oe (chain_elements H E0 ch ! leaf_of oe)"
    using ok oe unfolding wallet_ok_def by blast+
  have i: "leaf_of oe < length A" using el by (simp add: element_in_def leaf_of_def)
  have "\<not> leaf_of oe < length E0"
  proof
    assume lt: "leaf_of oe < length E0"
    then have "chain_elements H E0 ch ! leaf_of oe \<in> set E0" using chain_elements_start [of E0 H ch "leaf_of oe"] by simp
    then show False using tr ok unfolding wallet_ok_def by blast
  qed
  then have "snd (A ! leaf_of oe) \<longleftrightarrow> leaf_of oe \<in> spent_at_birth H ch"
    using chain_ledger [OF ch] i unspent by simp
  moreover have "fst (A ! leaf_of oe) = H (output_preimage oe)"
    using chain_ledger [OF ch] i same output_preimage_inj [of oe "chain_elements H E0 ch ! leaf_of oe"]
    by (simp add: same_element_def)
  ultimately show ?thesis using el by (simp add: leaf_in_def element_in_def leaf_of_def leaf_data_def OutputLeaf_def prod_eq_iff)
qed

lemma held_contained:
  assumes run: "wallet_run H verify E0 ch s A hs w" and oe: "oe \<in> set (mw_outputs w)"
  shows "if leaf_of oe \<in> spent_at_birth H ch then ContainsSpentOutputElement H (cs_Elements s) oe
    else ContainsUnspentOutputElement H (cs_Elements s) oe"
proof -
  have "acc_repr H A (cs_Elements s)" using chain_ok_repr wallet_run_ok [OF run] by (auto simp: state_repr_def)
  from containsLeaf_complete [OF this held_leaf [OF run oe]] show ?thesis
    by (cases "leaf_of oe \<in> spent_at_birth H ch")
      (simp_all add: ContainsSpentOutputElement_def ContainsUnspentOutputElement_def)
qed

section \<open>A concrete wallet\<close>

text \<open>It knows the address of the key 4, and follows the chain of a block with a transaction that pays 6 to it.\<close>

definition wallet_address :: address where
  "wallet_address = PublicKey_Address sample_hash 4"

definition paying_txn :: transaction where
  "paying_txn = sample_spend\<lparr>tx_Outputs := [(sample_output 6)\<lparr>out_Address := wallet_address\<rparr>], tx_MinerFee := \<lparr>Lo = 4, Hi = 0\<rparr>\<rparr>"

definition paying_block :: block where
  "paying_block = sample_block_of [paying_txn]"

lemma paying_txn_simps [simp]:
  "tx_Inputs paying_txn = tx_Inputs sample_spend" "tx_MinerFee paying_txn = \<lparr>Lo = 4, Hi = 0\<rparr>"
  "tx_Outputs paying_txn = [(sample_output 6)\<lparr>out_Address := wallet_address\<rparr>]"
  by (simp_all add: paying_txn_def)

lemma paying_block_simps [simp]:
  "b_Transactions paying_block = [paying_txn]" "bh_Height (b_Header paying_block) = 1"
  by (simp_all add: paying_block_def sample_block_of_def sample_block_def)

lemma paying_txn_valid: "txn_valid sample_hash sample_verify sample_state paying_txn"
proof -
  have "cur_nat (out_Value (sample_output 6)) = 6" "out_Value ((sample_output 6)\<lparr>out_Address := a\<rparr>) = out_Value (sample_output 6)" for a
    by (simp_all add: sample_values)
  then show ?thesis using sample_contains
    by (simp add: txn_valid_def sample_spend_def sample_simps sample_verify_def sample_values is_ephemeral_def
        txn_total_def value_sum_def)
qed

lemma paying_set_valid: "ValidateTransactionSet sample_hash sample_verify sample_state [paying_txn] = valid"
proof -
  have "validateEphemeralOutputs sample_hash [paying_txn] = valid"
    by (simp add: validateEphemeralOutputs_def sample_spend_def sample_simps Let_def)
  moreover have "noDoubleSpends [paying_txn] = valid"
    unfolding noDoubleSpends_def by (simp add: doubleSpends_loop(1)) (simp add: sample_spend_def parent_ids_def)
  moreover have "ValidateTransactions_loop sample_hash sample_verify sample_state 0 [paying_txn] = valid"
    unfolding ValidateTransactions_loop_valid(1) using paying_txn_valid by simp
  moreover have "\<not> MaxBlockWeight sample_state < BlockWeight sample_state [paying_txn]"
    by (simp add: MaxBlockWeight_def BlockWeight_def TransactionWeight_def sample_spend_def)
  ultimately show ?thesis unfolding ValidateTransactionSet_def by simp
qed

lemma paying_block_valid: "ValidateBlock sample_hash sample_verify sample_state paying_block = valid"
  unfolding paying_block_def by (rule sample_block_of_valid [OF paying_set_valid])

lemma paying_spent: "spent_parents paying_block = [sample_element]"
  by (simp add: spent_parents_def block_inputs_def sample_spend_def is_ephemeral_def sample_simps)

lemma paying_created: "\<exists>x. new_elements sample_hash sample_state paying_block =
    [x, \<lparr>oe_SE = \<lparr>se_ID = Transaction_OutputID sample_hash paying_txn 0, se_LeafIndex = 0, se_MerkleProof = []\<rparr>,
         oe_Output = (sample_output 6)\<lparr>out_Address := wallet_address\<rparr>, oe_MaturityHeight = 0\<rparr>]
    \<and> element_address x = VoidAddress"
proof -
  obtain c where c: "BlockReward sample_state = Some c" using BlockReward_nat [of sample_state] by blast
  then show ?thesis
    by (simp add: new_elements_def createdInBlock_def Transaction_OutputID_def)
      (simp add: paying_block_def sample_block_of_def sample_block_def)
qed

abbreviation sample_before :: mem_wallet where
  "sample_before \<equiv> MemWallet_AddAddress (NewMemWallet (cs_Index sample_state)) wallet_address 0"

lemma sample_chain_start: "chain_ok sample_hash sample_verify [sample_element] [] sample_state sample_ledger []"
  using sample_state_represents by (simp add: sample_ledger_def)

lemma paying_sizes:
  "length sample_ledger + length (new_elements sample_hash sample_state paying_block) < 2 ^ 62"
  "length ([] :: chain_index list) < 2 ^ 62"
  using paying_created by (auto simp: sample_ledger_def)

lemma last_array_bytes: "last (0 # array_bytes 32 w) = ucast (w :: hash256)"
proof -
  have "[0..<32] = 0 # [1..<32::nat]" by (simp add: upt_conv_Cons)
  then have "array_bytes 32 w = rev (map (\<lambda>i. ucast (drop_bit (8 * i) w)) [1..<32]) @ [ucast w]"
    by (simp add: array_bytes_def le_bytes_def del: upt_Suc)
  then show ?thesis by simp
qed

lemma sample_addresses: "sample_address \<noteq> wallet_address"
proof -
  have "sample_key (array_bytes 32 w) = 32 + 1000 * (256 * unat (ucast w :: 8 word))" for w :: hash256
    unfolding sample_key_def last_array_bytes byte33_def by simp
  then have "sample_key (array_bytes 32 (3 :: hash256)) \<noteq> sample_key (array_bytes 32 (4 :: hash256))"
    by simp
  then show ?thesis
    unfolding sample_address_def wallet_address_def PublicKey_Address_def HashBytes_def by (rule sample_hash_neqI)
qed

lemma sample_preimages_inj:
  "inj_on sample_hash (set (block_preimages sample_hash sample_ledger paying_block
     @ element_preimages (chain_elements sample_hash [sample_element] [])))"
proof -
  have "output_preimage sample_element \<in> set (block_preimages sample_hash sample_ledger paying_block)"
    by (simp add: block_preimages_def paying_spent)
  then have "set (block_preimages sample_hash sample_ledger paying_block @ element_preimages [sample_element])
      = set (block_preimages sample_hash sample_ledger paying_block)"
    by (auto simp: element_preimages_def)
  then show ?thesis using sample_inj [OF paying_spent] by simp
qed

abbreviation sample_chain :: "applied list" where
  "sample_chain \<equiv> [(paying_block, sample_state, sample_ledger, [])]"

lemma sample_chain_after:
  assumes "ApplyBlock sample_hash sample_state paying_block = Some au"
  shows "chain_ok sample_hash sample_verify [sample_element] sample_chain (au_State au)
    (ledger_apply sample_hash sample_state paying_block sample_ledger) [Block_Index sample_hash paying_block]"
  using sample_chain_start paying_block_valid sample_preimages_inj paying_sizes assms by simp

lemma sample_before_run: "wallet_run sample_hash sample_verify [sample_element] [] sample_state sample_ledger [] sample_before"
  by (rule wallet_run.address [OF wallet_run.start [OF sample_chain_start]])
    (simp add: sample_simps sample_addresses [symmetric])

lemma sample_wallet_run:
  "\<exists>s w. wallet_run sample_hash sample_verify [sample_element] sample_chain s
      (ledger_apply sample_hash sample_state paying_block sample_ledger) [Block_Index sample_hash paying_block] w
    \<and> tracked w = (\<lambda>a. a = wallet_address) \<and> mw_addrs w = [(wallet_address, 0)] \<and> ci_Height (cs_Index s) = 1"
proof -
  let ?run = "wallet_run sample_hash sample_verify [sample_element]"
  obtain au where au: "ApplyBlock sample_hash sample_state paying_block = Some au"
    "cs_Index (au_State au) = Block_Index sample_hash paying_block"
    using ApplyBlock_refines [OF sample_state_represents _ paying_sizes]
      block_ok_if_valid [OF sample_state_repr paying_block_valid sample_inj [OF paying_spent]] by blast
  have ok: "wallet_ok sample_hash [sample_element] [] sample_state sample_ledger sample_before"
    using wallet_run_ok [OF sample_before_run] by blast
  obtain w where w: "MemWallet_ProcessChainApplyUpdate sample_hash sample_before \<lparr>cau_Update = au, cau_Block = paying_block\<rparr> = Some w"
    "mw_addrs w = mw_addrs sample_before"
    using apply_outcome [OF ok sample_chain_after [OF au(1)] au(1)] by auto
  have a: "mw_addrs w = [(wallet_address, 0)]" by (simp add: w(2) MemWallet_AddAddress_def NewMemWallet_def Let_def)
  have "?run sample_chain (au_State au) (ledger_apply sample_hash sample_state paying_block sample_ledger)
      [Block_Index sample_hash paying_block] w"
    by (rule wallet_run.apply_block [OF sample_before_run sample_chain_after [OF au(1)] au(1) w(1)])
  moreover have "tracked w = (\<lambda>a. a = wallet_address)" by (simp add: tracked_def a fun_eq_iff)
  moreover have "ci_Height (cs_Index (au_State au)) = 1" 
    by (simp add: au(2) Block_Index_def BlockHeader_Index_def)
  ultimately show ?thesis using a by blast
qed

text \<open>Leaf 2 is the output of the transaction.\<close>

lemma wallet_not_void: "wallet_address \<noteq> VoidAddress"
  by (simp add: wallet_address_def PublicKey_Address_def VoidAddress_def HashBytes_def)

lemma sample_elements: "\<exists>x y. chain_elements sample_hash [sample_element] sample_chain = [sample_element, x, y]
    \<and> element_address x = VoidAddress \<and> oe_Output y = (sample_output 6)\<lparr>out_Address := wallet_address\<rparr>
    \<and> oe_MaturityHeight y = 0"
  using paying_created by fastforce

lemma sample_births: "spent_at_birth sample_hash sample_chain = {}"
  by (simp add: ephemeral_spent_def block_inputs_def sample_spend_def is_ephemeral_def sample_simps)

lemma sample_spent: "spent_by_chain sample_chain = {0}"
  by (simp add: paying_spent leaf_of_def sample_simps)

lemma sample_holdings:
  "holdings sample_hash [sample_element] sample_chain (\<lambda>a. a = wallet_address) = {2}"
  "value_sum (map element_value [chain_elements sample_hash [sample_element] sample_chain ! 2]) = 6"
  "oe_MaturityHeight (chain_elements sample_hash [sample_element] sample_chain ! 2) = 0"
proof -
  obtain x y where E: "chain_elements sample_hash [sample_element] sample_chain = [sample_element, x, y]"
    and x: "element_address x = VoidAddress"
    and y: "oe_Output y = (sample_output 6)\<lparr>out_Address := wallet_address\<rparr>" "oe_MaturityHeight y = 0"
    using sample_elements by blast
  have "i < length [sample_element, x, y] \<and> element_address ([sample_element, x, y] ! i) = wallet_address \<and> i \<notin> {0} \<longleftrightarrow> i \<in> {2}"
    for i
  proof -
    consider "i = 0" | "i = 1" | "i = 2" | "3 \<le> i" by linarith
    then show ?thesis using wallet_not_void [symmetric] by cases (simp_all add: x y)
  qed
  then show "holdings sample_hash [sample_element] sample_chain (\<lambda>a. a = wallet_address) = {2}"
    unfolding holdings_def sample_spent E by (simp only: set_eq_iff mem_Collect_eq simp_thms)
  show "value_sum (map element_value [chain_elements sample_hash [sample_element] sample_chain ! 2]) = 6"
    "oe_MaturityHeight (chain_elements sample_hash [sample_element] sample_chain ! 2) = 0"
    unfolding E by (simp_all add: y value_sum_def sample_values)
qed

section \<open>Properties\<close>



text \<open>C32. A wallet that follows a chain never panics: every further valid block can be applied to it, and the last
  block, unless it is the genesis block, reverted, and the wallet follows the longer or the shorter chain.\<close>

theorem wallet_never_panics:
  assumes "wallet_run H verify E0 ch s A hs w"
  shows "(\<forall>b au A' hs'. chain_ok H verify E0 ((b, s, A, hs) # ch) (au_State au) A' hs' \<longrightarrow> ApplyBlock H s b = Some au \<longrightarrow>
      (\<exists>w'. MemWallet_ProcessChainApplyUpdate H w \<lparr>cau_Update = au, cau_Block = b\<rparr> = Some w'
        \<and> wallet_run H verify E0 ((b, s, A, hs) # ch) (au_State au) A' hs' w'))
    \<and> (\<forall>b s0 A0 hs0 ch0. ch = (b, s0, A0, hs0) # ch0 \<longrightarrow> bh_Height (b_Header b) \<noteq> 0 \<longrightarrow>
      (\<exists>ru w'. RevertBlock H s0 b = Some ru
        \<and> MemWallet_ProcessChainRevertUpdate H w \<lparr>cru_Update = ru, cru_Block = b\<rparr> = Some w'
        \<and> wallet_run H verify E0 ch0 s0 A0 hs0 w'))"
proof -
  note ok = wallet_run_ok [OF assms]
  have "\<exists>w'. MemWallet_ProcessChainApplyUpdate H w \<lparr>cau_Update = au, cau_Block = b\<rparr> = Some w'
        \<and> wallet_run H verify E0 ((b, s, A, hs) # ch) (au_State au) A' hs' w'"
    if ch: "chain_ok H verify E0 ((b, s, A, hs) # ch) (au_State au) A' hs'" and au: "ApplyBlock H s b = Some au" for b au A' hs'
    using apply_outcome [OF conjunct2 [OF ok] ch au] wallet_run.apply_block [OF assms ch au] by blast
  moreover have "\<exists>ru w'. RevertBlock H s0 b = Some ru
        \<and> MemWallet_ProcessChainRevertUpdate H w \<lparr>cru_Update = ru, cru_Block = b\<rparr> = Some w'
        \<and> wallet_run H verify E0 ch0 s0 A0 hs0 w'"
    if ch: "ch = (b, s0, A0, hs0) # ch0" and h: "bh_Height (b_Header b) \<noteq> 0" for b s0 A0 hs0 ch0
  proof -
    have c: "chain_ok H verify E0 ((b, s0, A0, hs0) # ch0) s A hs" and w: "wallet_ok H E0 ((b, s0, A0, hs0) # ch0) s A w"
      using ok unfolding ch by blast+
    have "length A0 + length (new_elements H s0 b) < 2 ^ 62" using c by simp
    then obtain ru where ru: "RevertBlock H s0 b = Some ru"
      using RevertBlock_refines [OF chain_ok_block(2,1) [OF c] h] by blast
    then show ?thesis
      using revert_outcome [OF w c h ru] wallet_run.revert_block [OF assms [unfolded ch] h ru] by blast
  qed
  ultimately show ?thesis by blast
qed

theorem wallet_never_panics_witness:
  "\<exists>au ru w w'. ApplyBlock sample_hash sample_state paying_block = Some au
    \<and> MemWallet_ProcessChainApplyUpdate sample_hash sample_before \<lparr>cau_Update = au, cau_Block = paying_block\<rparr> = Some w
    \<and> RevertBlock sample_hash sample_state paying_block = Some ru
    \<and> MemWallet_ProcessChainRevertUpdate sample_hash w \<lparr>cru_Update = ru, cru_Block = paying_block\<rparr> = Some w'"
proof -
  obtain au where au: "ApplyBlock sample_hash sample_state paying_block = Some au"
    using ApplyBlock_refines [OF sample_state_represents _ paying_sizes]
      block_ok_if_valid [OF sample_state_repr paying_block_valid sample_inj [OF paying_spent]] by blast
  have h: "bh_Height (b_Header paying_block) \<noteq> 0" by simp
  from conjunct1 [OF wallet_never_panics [OF sample_before_run], rule_format, OF sample_chain_after [OF au] au]
  obtain w where w: "MemWallet_ProcessChainApplyUpdate sample_hash sample_before \<lparr>cau_Update = au, cau_Block = paying_block\<rparr> = Some w"
    "wallet_run sample_hash sample_verify [sample_element] sample_chain (au_State au)
      (ledger_apply sample_hash sample_state paying_block sample_ledger) [Block_Index sample_hash paying_block] w" by blast
  from conjunct2 [OF wallet_never_panics [OF w(2)], rule_format, OF refl h] obtain ru w' where
    "RevertBlock sample_hash sample_state paying_block = Some ru"
    "MemWallet_ProcessChainRevertUpdate sample_hash w \<lparr>cru_Update = ru, cru_Block = paying_block\<rparr> = Some w'" by blast
  then show ?thesis using au w(1) by blast
qed

section \<open>Payments\<close>

text \<open>The outputs a builder can spend: neither in use, nor spent in the pool, nor immature.\<close>

definition spendable :: "mem_wallet txn_builder \<Rightarrow> chain_state \<Rightarrow> transaction list \<Rightarrow> output_element list" where
  "spendable tb cs pool = filter (\<lambda>x. \<not> (element_oid x \<in> tb_used tb \<or> element_oid x \<in> pool_spends pool
     \<or> ci_Height (cs_Index cs) < oe_MaturityHeight x)) (mw_outputs (tb_store tb))"


definition sample_ed :: ed25519 where
  "sample_ed = \<lparr>ed_NewKeyFromSeed = \<lambda>_. replicate 32 0 @ array_bytes 32 (4 :: hash256), ed_Sign = \<lambda>_ _. replicate 64 0\<rparr>"

definition sample_payment :: transaction where
  "sample_payment = \<lparr>tx_Inputs = [], tx_Outputs = [sample_output 6], tx_MinerFee = \<lparr>Lo = 4, Hi = 0\<rparr>\<rparr>"

lemma sample_ed_ok: "ed_ok sample_ed sample_verify"
  by (simp add: ed_ok_def sample_ed_def sample_verify_def)

lemma sample_derived: "derived_keys sample_hash sample_ed seed [wallet_address \<mapsto> 0]"
proof -
  have "array_word (array_bytes 32 (4 :: hash256)) = (4 :: hash256)" by (simp add: array_word_bytes)
  then show ?thesis
    by (simp add: derived_keys_def Seed_PublicKey_def Seed_PrivateKey_def NewPrivateKeyFromSeed_def PrivateKey_PublicKey_def
        sample_ed_def go_copy_full wallet_address_def)
qed


end
