(* ===== verification/Multiproof.thy ===== *)
theory Multiproof
  imports Consensus_Update
begin

text \<open>
  merkle/multiproof.go: one proof for all inputs of a list of transactions. \<open>None\<close> is a panic.
  \<open>leavesByTree\<close> gives leaves that share the memory of their proofs with the inputs they come from, and
  \<open>ExpandMultiproof\<close> writes into it, so a leaf comes with the number of its input and the proofs of all inputs
  are a store that is passed along; the proofs of different inputs are taken not to overlap in memory.
\<close>

section \<open>The leaves of the transactions\<close>

type_synonym located = "nat \<times> element_leaf"

definition input_leaves :: "hashfn \<Rightarrow> transaction list \<Rightarrow> located list" where
  "input_leaves H txns =
     map (\<lambda>(n, inp). (n, OutputLeaf H (in_Parent inp) False))
       (filter (\<lambda>(n, inp). se_LeafIndex (oe_SE (in_Parent inp)) \<noteq> EphemeralLeafIndex)
         (enumerate 0 (concat (map tx_Inputs txns))))"

text \<open>The closure \<open>addLeaf\<close>, for each leaf: more than 63 hashes are out of the range of \<open>trees\<close>.\<close>

fun place_leaves :: "located list list \<Rightarrow> located list \<Rightarrow> located list list option" where
  "place_leaves trees [] = Some trees"
| "place_leaves trees (x # xs) =
     (let t = length (el_MerkleProof (snd x)) in do {
        leaves \<leftarrow> at trees t;
        place_leaves (trees[t := leaves @ [x]]) xs
      })"

text \<open>The order of leaves with the same number, which \<open>sort.Slice\<close> leaves open, is that of the inputs here.\<close>

definition sort_located :: "located list \<Rightarrow> located list" where
  "sort_located = sort_key (\<lambda>x. el_LeafIndex (snd x))"

definition leavesByTree :: "hashfn \<Rightarrow> transaction list \<Rightarrow> located list list option" where
  "leavesByTree H txns = do {
     trees \<leftarrow> place_leaves (replicate 64 []) (input_leaves H txns);
     Some (map sort_located trees)
   }"

definition split_located :: "located list \<Rightarrow> u64 \<Rightarrow> located list \<times> located list" where
  "split_located xs mid = (let n = length (fst (splitLeaves (map snd xs) mid)) in (take n xs, drop n xs))"

section \<open>MultiproofSize, ComputeMultiproof and ExpandMultiproof\<close>

definition tree_start :: "nat \<Rightarrow> located list \<Rightarrow> u64" where
  "tree_start height leaves = clearBits (el_LeafIndex (snd (hd leaves))) (height + 1)"

partial_function (option) proofSize :: "u64 \<Rightarrow> u64 \<Rightarrow> located list \<Rightarrow> nat option" where
  "proofSize i j leaves =
     (let height = bits_TrailingZeros64 (j - i) in
      if leaves = [] then Some 1
      else if height = 0 then Some 0
      else let mid = (i + j) div 2; left = fst (split_located leaves mid); right = snd (split_located leaves mid)
        in do { m \<leftarrow> proofSize i mid left; n \<leftarrow> proofSize mid j right; Some (m + n) })"

fun sum_sizes :: "nat \<Rightarrow> located list list \<Rightarrow> nat option" where
  "sum_sizes height [] = Some 0"
| "sum_sizes height (leaves # trees) =
     (if leaves = [] then sum_sizes (height + 1) trees
      else let start = tree_start height leaves; end' = start + push_bit height 1
        in do { m \<leftarrow> proofSize start end' leaves; n \<leftarrow> sum_sizes (height + 1) trees; Some (m + n) })"

definition MultiproofSize :: "hashfn \<Rightarrow> transaction list \<Rightarrow> nat option" where
  "MultiproofSize H txns = do { trees \<leftarrow> leavesByTree H txns; sum_sizes 0 trees }"

partial_function (option) visit :: "u64 \<Rightarrow> u64 \<Rightarrow> located list \<Rightarrow> hash256 list option" where
  "visit i j leaves =
     (let height = bits_TrailingZeros64 (j - i) in
      if height = 0 then Some []
      else let mid = (i + j) div 2; left = fst (split_located leaves mid); right = snd (split_located leaves mid)
        in do {
          p \<leftarrow> (if left = [] then do { r \<leftarrow> at right 0; h \<leftarrow> at_height (el_MerkleProof (snd r)) height; Some [h] }
               else visit i mid left);
          q \<leftarrow> (if right = [] then do { l \<leftarrow> at left 0; h \<leftarrow> at_height (el_MerkleProof (snd l)) height; Some [h] }
               else visit mid j right);
          Some (p @ q)
        })"

fun visit_trees :: "nat \<Rightarrow> located list list \<Rightarrow> hash256 list option" where
  "visit_trees height [] = Some []"
| "visit_trees height (leaves # trees) =
     (if leaves = [] then visit_trees (height + 1) trees
      else let start = tree_start height leaves; end' = start + push_bit height 1
        in do { p \<leftarrow> visit start end' leaves; q \<leftarrow> visit_trees (height + 1) trees; Some (p @ q) })"

definition ComputeMultiproof :: "hashfn \<Rightarrow> transaction list \<Rightarrow> hash256 list option" where
  "ComputeMultiproof H txns = do { trees \<leftarrow> leavesByTree H txns; visit_trees 0 trees }"

text \<open>\<open>for i := range ls { ls[i].MerkleProof[height-1] = h }\<close>, in the store of proofs.\<close>

fun write_all :: "nat \<Rightarrow> hash256 \<Rightarrow> located list \<Rightarrow> hash256 list list \<Rightarrow> hash256 list list option" where
  "write_all height h [] mem = Some mem"
| "write_all height h (x # xs) mem = do {
     p \<leftarrow> at mem (fst x);
     p' \<leftarrow> set_height p height h;
     write_all height h xs (mem[fst x := p'])
   }"

text \<open>The closure \<open>expand\<close>: the root, the store, and what is left of the multiproof.\<close>

partial_function (option) expand ::
    "hashfn \<Rightarrow> u64 \<Rightarrow> u64 \<Rightarrow> located list \<Rightarrow> hash256 list list \<Rightarrow> hash256 list
     \<Rightarrow> (hash256 \<times> hash256 list list \<times> hash256 list) option" where
  "expand H i j leaves mem proof =
     (let height = bits_TrailingZeros64 (j - i) in
      if leaves = [] then do { h \<leftarrow> at proof 0; Some (h, mem, drop 1 proof) }
      else if height = 0 then Some (ElementLeaf_Hash H (snd (hd leaves)), mem, proof)
      else let mid = (i + j) div 2; left = fst (split_located leaves mid); right = snd (split_located leaves mid)
        in do {
          (leftRoot, mem, proof) \<leftarrow> expand H i mid left mem proof;
          (rightRoot, mem, proof) \<leftarrow> expand H mid j right mem proof;
          mem \<leftarrow> write_all height leftRoot right mem;
          mem \<leftarrow> write_all height rightRoot left mem;
          Some (NodeHash H leftRoot rightRoot, mem, proof)
        })"

fun expand_trees ::
    "hashfn \<Rightarrow> nat \<Rightarrow> located list list \<Rightarrow> hash256 list list \<Rightarrow> hash256 list \<Rightarrow> hash256 list list option" where
  "expand_trees H height [] mem proof = Some mem"
| "expand_trees H height (leaves # trees) mem proof =
     (if leaves = [] then expand_trees H (height + 1) trees mem proof
      else let start = tree_start height leaves; end' = start + push_bit height 1
        in do {
          (root, mem, proof) \<leftarrow> expand H start end' leaves mem proof;
          expand_trees H (height + 1) trees mem proof
        })"

definition input_proofs :: "transaction list \<Rightarrow> hash256 list list" where
  "input_proofs txns = map (\<lambda>inp. se_MerkleProof (oe_SE (in_Parent inp))) (concat (map tx_Inputs txns))"

definition set_input_proof :: "txn_input \<Rightarrow> hash256 list \<Rightarrow> txn_input" where
  "set_input_proof inp p = inp\<lparr>in_Parent := (in_Parent inp)\<lparr>oe_SE := (oe_SE (in_Parent inp))\<lparr>se_MerkleProof := p\<rparr>\<rparr>\<rparr>"

fun put_proofs :: "hash256 list list \<Rightarrow> transaction list \<Rightarrow> transaction list" where
  "put_proofs mem [] = []"
| "put_proofs mem (txn # txns) =
     txn\<lparr>tx_Inputs := map2 set_input_proof (tx_Inputs txn) mem\<rparr> # put_proofs (drop (length (tx_Inputs txn)) mem) txns"

definition ExpandMultiproof :: "hashfn \<Rightarrow> transaction list \<Rightarrow> hash256 list \<Rightarrow> transaction list option" where
  "ExpandMultiproof H txns proof = do {
     trees \<leftarrow> leavesByTree H txns;
     mem \<leftarrow> expand_trees H 0 trees (input_proofs txns) proof;
     Some (put_proofs mem txns)
   }"

section \<open>Leaves of one tree\<close>

definition under :: "nat \<Rightarrow> nat \<Rightarrow> located list \<Rightarrow> bool" where
  "under h k xs \<longleftrightarrow> leaves_sorted (map snd xs) \<and> (\<forall>x\<in>set xs. idx (snd x) div 2 ^ h = k)"

lemma split_under:
  assumes u: "under (Suc h) k xs" and s: "split_located xs mid = (left, right)" and mid: "unat mid = (2 * k + 1) * 2 ^ h"
  shows "left @ right = xs" "under h (2 * k) left" "under h (2 * k + 1) right"
proof -
  obtain l r where lr: "splitLeaves (map snd xs) mid = (l, r)" by fastforce
  note sp = splitLeaves [OF conjunct1 [OF u [unfolded under_def]] lr]
  have n: "left = take (length l) xs" "right = drop (length l) xs" using s lr by (auto simp: split_located_def Let_def)
  have m: "map snd left = l" "map snd right = r"
    using arg_cong [OF sp(1), of "take (length l)"] arg_cong [OF sp(1), of "drop (length l)"]
    by (simp_all add: n take_map drop_map)
  show eq: "left @ right = xs" by (simp add: n)
  have d: "idx (snd x) div 2 ^ Suc h = k" if "x \<in> set left \<union> set right" for x
    using u that unfolding under_def eq [symmetric] by auto
  have "idx (snd x) div 2 ^ h = 2 * k" if x: "x \<in> set left" for x
  proof -
    have "snd x \<in> set l" using x by (simp flip: m(1))
    then show ?thesis using half_div(1) [OF d] sp(4) x by (simp add: mid)
  qed
  moreover have "idx (snd x) div 2 ^ h = 2 * k + 1" if x: "x \<in> set right" for x
  proof -
    have "snd x \<in> set r" using x by (simp flip: m(2))
    then show ?thesis using half_div(2) [OF d] sp(5) x by (simp add: mid)
  qed
  ultimately show "under h (2 * k) left" "under h (2 * k + 1) right"
    using sp(2,3) by (simp_all add: under_def m)
qed

section \<open>What the multiproof is\<close>

text \<open>
  The hashes of the greatest subtrees below node \<open>k\<close> of height \<open>h\<close> that have no leaf in \<open>S\<close>, from left to right.
\<close>

fun mproof :: "hashfn \<Rightarrow> (nat \<Rightarrow> hash256) \<Rightarrow> nat \<Rightarrow> nat \<Rightarrow> nat set \<Rightarrow> hash256 list" where
  "mproof H f 0 k S = (if k \<in> S then [] else [f k])"
| "mproof H f (Suc h) k S =
     (if \<exists>i\<in>S. i div 2 ^ Suc h = k then mproof H f h (2 * k) S @ mproof H f h (2 * k + 1) S
      else [node H f (Suc h) k])"

lemma mproof_none: "\<forall>i\<in>S. i div 2 ^ h \<noteq> k \<Longrightarrow> mproof H f h k S = [node H f h k]"
  by (cases h) auto

abbreviation leaf_ids :: "located list \<Rightarrow> nat set" where
  "leaf_ids xs \<equiv> idx ` snd ` set xs"

lemma mproof_split:
  assumes "under (Suc h) k (left @ right)" "under h (2 * k) left" "under h (2 * k + 1) right" "left @ right \<noteq> []"
  shows "mproof H f (Suc h) k (leaf_ids (left @ right)) = mproof H f h (2 * k) (leaf_ids left) @ mproof H f h (2 * k + 1) (leaf_ids right)"
proof -
  have cong: "mproof H f h m S = mproof H f h m T" if "\<And>i. i div 2 ^ h = m \<Longrightarrow> i \<in> S \<longleftrightarrow> i \<in> T" for m S T
    using that
  proof (induction h arbitrary: m)
    case (Suc h)
    have "i \<in> S \<longleftrightarrow> i \<in> T" if "i div 2 ^ h = 2 * m \<or> i div 2 ^ h = 2 * m + 1" for i
      using Suc.prems [of i] that by (auto simp: nat_div_pow_Suc simp del: power_Suc)
    then have "mproof H f h (2 * m) S = mproof H f h (2 * m) T" "mproof H f h (2 * m + 1) S = mproof H f h (2 * m + 1) T"
      using Suc.IH by blast+
    moreover have "(\<exists>i\<in>S. i div 2 ^ Suc h = m) \<longleftrightarrow> (\<exists>i\<in>T. i div 2 ^ Suc h = m)" using Suc.prems by blast
    ultimately show ?case by simp
  qed simp
  have "\<exists>i\<in>leaf_ids (left @ right). i div 2 ^ Suc h = k"
    using assms(1,4) by (cases "left @ right") (auto simp: under_def simp del: power_Suc)
  then have "mproof H f (Suc h) k (leaf_ids (left @ right))
      = mproof H f h (2 * k) (leaf_ids (left @ right)) @ mproof H f h (2 * k + 1) (leaf_ids (left @ right))"
    by (simp del: power_Suc)
  moreover have "mproof H f h (2 * k) (leaf_ids (left @ right)) = mproof H f h (2 * k) (leaf_ids left)"
    using assms(3) by (intro cong) (auto simp: under_def)
  moreover have "mproof H f h (2 * k + 1) (leaf_ids (left @ right)) = mproof H f h (2 * k + 1) (leaf_ids right)"
    using assms(2) by (intro cong) (auto simp: under_def)
  ultimately show ?thesis by simp
qed

definition range_ok :: "nat \<Rightarrow> nat \<Rightarrow> u64 \<Rightarrow> u64 \<Rightarrow> bool" where
  "range_ok h k i j \<longleftrightarrow> unat i = k * 2 ^ h \<and> unat j = (k + 1) * 2 ^ h \<and> (k + 1) * 2 ^ h < 2 ^ 63"

lemma range_halves:
  assumes "range_ok (Suc h) k i j"
  shows "unat ((i + j) div 2) = (2 * k + 1) * 2 ^ h" "bits_TrailingZeros64 (j - i) = Suc h"
    "range_ok h (2 * k) i ((i + j) div 2)" "range_ok h (2 * k + 1) ((i + j) div 2) j"
proof -
  show m: "unat ((i + j) div 2) = (2 * k + 1) * 2 ^ h" and "bits_TrailingZeros64 (j - i) = Suc h"
    using halves assms unfolding range_ok_def by blast+
  have "(2 * k + 1) * 2 ^ h < (2 ^ 63 :: nat)" "unat i = (2 * k) * 2 ^ h" "unat j = (2 * k + 1 + 1) * 2 ^ h"
    using assms by (simp_all add: range_ok_def algebra_simps)
  then show "range_ok h (2 * k) i ((i + j) div 2)" "range_ok h (2 * k + 1) ((i + j) div 2) j"
    using m assms unfolding range_ok_def by (simp_all add: algebra_simps)
qed

lemma range_zero: "range_ok 0 k i j \<Longrightarrow> bits_TrailingZeros64 (j - i) = 0"
  by (rule TrailingZeros64_pow) (simp add: range_ok_def unat_sub_if')

lemma single_leaf: "under 0 k xs \<Longrightarrow> xs \<noteq> [] \<Longrightarrow> \<exists>n l. xs = [(n, l)] \<and> idx l = k"
  by (cases xs rule: remdups_adj.cases) (auto simp: under_def leaves_sorted_def)

text \<open>
  The three recursions on a subtree: the size, the multiproof, and the root and proofs. The store agrees on the other
  inputs.
\<close>

lemma proofSize_spec:
  "under h k xs \<Longrightarrow> range_ok h k i j \<Longrightarrow> proofSize i j xs = Some (length (mproof H f h k (leaf_ids xs)))"
proof (induction h arbitrary: k i j xs)
  case 0
  then show ?case
    using single_leaf [OF 0(1)] by (cases "xs = []"; subst proofSize.simps) (auto simp: range_zero)
next
  case (Suc h)
  note r = range_halves [OF Suc.prems(2)]
  obtain left right where sp: "split_located xs ((i + j) div 2) = (left, right)" by fastforce
  note s = split_under [OF Suc.prems(1) sp r(1)]
  show ?case
  proof (cases "xs = []")
    case True
    then show ?thesis by (subst proofSize.simps) (simp add: mproof_none)
  next
    case False
    have "mproof H f (Suc h) k (leaf_ids xs) = mproof H f h (2 * k) (leaf_ids left) @ mproof H f h (2 * k + 1) (leaf_ids right)"
      using mproof_split [of h k left right] Suc.prems(1) s False by simp
    then show ?thesis
      using False by (subst proofSize.simps)
        (simp add: Let_def r(2) sp Suc.IH [OF s(2) r(3)] Suc.IH [OF s(3) r(4)])
  qed
qed

definition proofs_ok :: "hashfn \<Rightarrow> (nat \<Rightarrow> hash256) \<Rightarrow> nat \<Rightarrow> located list \<Rightarrow> bool" where
  "proofs_ok H f h xs \<longleftrightarrow> (\<forall>x\<in>set xs. h \<le> length (el_MerkleProof (snd x))
     \<and> take h (el_MerkleProof (snd x)) = path H f h (idx (snd x)))"

lemma proofs_ok_Suc:
  assumes "proofs_ok H f (Suc h) xs"
  shows "proofs_ok H f h xs"
    "x \<in> set xs \<Longrightarrow> at_height (el_MerkleProof (snd x)) (Suc h) = Some (node H f h (sib (idx (snd x) div 2 ^ h)))"
proof -
  have p: "Suc h \<le> length (el_MerkleProof (snd x))" "take (Suc h) (el_MerkleProof (snd x)) = path H f (Suc h) (idx (snd x))"
    if "x \<in> set xs" for x using assms that by (simp_all add: proofs_ok_def)
  show "proofs_ok H f h xs"
    using p arg_cong [where f = "take h", OF p(2)] by (fastforce simp: proofs_ok_def min_def take_path)
  assume x: "x \<in> set xs"
  have "el_MerkleProof (snd x) ! h = path H f (Suc h) (idx (snd x)) ! h" using p(2) [OF x] by (metis lessI nth_take)
  then show "at_height (el_MerkleProof (snd x)) (Suc h) = Some (node H f h (sib (idx (snd x) div 2 ^ h)))"
    using p(1) [OF x] by (simp add: at_height_def at_def nth_path)
qed

lemma at_0: "xs \<noteq> [] \<Longrightarrow> at xs 0 = Some (hd xs)"
  by (simp add: at_def hd_conv_nth)

lemma visit_spec:
  "under h k xs \<Longrightarrow> range_ok h k i j \<Longrightarrow> xs \<noteq> [] \<Longrightarrow> proofs_ok H f h xs \<Longrightarrow>
   visit i j xs = Some (mproof H f h k (leaf_ids xs))"
proof (induction h arbitrary: k i j xs)
  case 0
  then show ?case
    using single_leaf [OF 0(1,3)] by (subst visit.simps) (auto simp: range_zero Let_def)
next
  case (Suc h)
  note r = range_halves [OF Suc.prems(2)] and p = proofs_ok_Suc [OF Suc.prems(4)]
  obtain left right where sp: "split_located xs ((i + j) div 2) = (left, right)" by fastforce
  note s = split_under [OF Suc.prems(1) sp r(1)]
  have m: "mproof H f (Suc h) k (leaf_ids xs) = mproof H f h (2 * k) (leaf_ids left) @ mproof H f h (2 * k + 1) (leaf_ids right)"
    using mproof_split [of h k left right] Suc.prems(1,3) s by simp
  have pl: "proofs_ok H f h left" "proofs_ok H f h right" using p(1) s(1) by (auto simp: proofs_ok_def)
  have l: "(if left = [] then do { r \<leftarrow> at right 0; h \<leftarrow> at_height (el_MerkleProof (snd r)) (Suc h); Some [h] }
      else visit i ((i + j) div 2) left) = Some (mproof H f h (2 * k) (leaf_ids left))"
  proof (cases "left = []")
    case True
    then have ne: "right \<noteq> []" and x: "hd right \<in> set xs" using Suc.prems(3) s(1) by auto
    have "idx (snd (hd right)) div 2 ^ h = 2 * k + 1" using s(3) ne by (simp add: under_def)
    then show ?thesis using p(2) [OF x] True ne by (simp add: at_0 sib_def mproof_none)
  qed (simp add: Suc.IH [OF s(2) r(3) _ pl(1)])
  have rt: "(if right = [] then do { l \<leftarrow> at left 0; h \<leftarrow> at_height (el_MerkleProof (snd l)) (Suc h); Some [h] }
      else visit ((i + j) div 2) j right) = Some (mproof H f h (2 * k + 1) (leaf_ids right))"
  proof (cases "right = []")
    case True
    then have ne: "left \<noteq> []" and x: "hd left \<in> set xs" using Suc.prems(3) s(1) by auto
    have "idx (snd (hd left)) div 2 ^ h = 2 * k" using s(2) ne by (simp add: under_def)
    then show ?thesis using p(2) [OF x] True ne by (simp add: at_0 sib_def mproof_none)
  qed (simp add: Suc.IH [OF s(3) r(4) _ pl(2)])
  show ?case
    by (subst visit.simps) (simp only: Let_def r(2) sp fst_conv snd_conv l rt m bind.bind_lunit nat.distinct if_False)
qed


section \<open>Writing the proofs\<close>

lemma write_all_spec:
  assumes "distinct (map fst xs)" "\<forall>x\<in>set xs. fst x < length mem \<and> h < length (mem ! fst x)"
  shows "\<exists>mem'. write_all (Suc h) v xs mem = Some mem' \<and> length mem' = length mem
    \<and> (\<forall>n. mem' ! n = (if n \<in> fst ` set xs then (mem ! n)[h := v] else mem ! n))"
  using assms
proof (induction xs arbitrary: mem)
  case (Cons x xs)
  let ?m = "mem[fst x := (mem ! fst x)[h := v]]"
  have x: "fst x < length mem" "h < length (mem ! fst x)" and d: "fst x \<notin> fst ` set xs" "distinct (map fst xs)"
    using Cons.prems by auto
  have "\<forall>y\<in>set xs. fst y < length ?m \<and> h < length (?m ! fst y)"
    using Cons.prems d(1) by (auto simp: nth_list_update image_iff)
  from Cons.IH [OF d(2) this] obtain mem' where m: "write_all (Suc h) v xs ?m = Some mem'" "length mem' = length mem"
    "\<forall>n. mem' ! n = (if n \<in> fst ` set xs then (?m ! n)[h := v] else ?m ! n)" by auto
  have "mem' ! n = (if n \<in> fst ` set (x # xs) then (mem ! n)[h := v] else mem ! n)" for n
    using m(3) d(1) x(1) by (cases "n = fst x") auto
  then show ?case using m(1,2) x by (intro exI [of _ mem']) (simp add: at_def set_height_def)
qed simp

definition expanded :: "hashfn \<Rightarrow> (nat \<Rightarrow> hash256) \<Rightarrow> nat \<Rightarrow> located list \<Rightarrow> hash256 list list \<Rightarrow> hash256 list list \<Rightarrow> bool" where
  "expanded H f h xs mem mem' \<longleftrightarrow> length mem' = length mem
     \<and> (\<forall>x\<in>set xs. mem' ! fst x = path H f h (idx (snd x)) @ drop h (mem ! fst x))
     \<and> (\<forall>n. n \<notin> fst ` set xs \<longrightarrow> mem' ! n = mem ! n)"

lemma expanded_length: "expanded H f h xs mem mem' \<Longrightarrow> length mem' = length mem"
  by (simp add: expanded_def)

lemma expanded_nth:
  "expanded H f h xs mem mem' \<Longrightarrow> \<forall>x\<in>set xs. h \<le> length (mem ! fst x) \<Longrightarrow> length (mem' ! n) = length (mem ! n)"
proof (cases "n \<in> fst ` set xs")
  case True
  assume e: "expanded H f h xs mem mem'" and l: "\<forall>x\<in>set xs. h \<le> length (mem ! fst x)"
  obtain x where x: "x \<in> set xs" "n = fst x" using True by auto
  then have "mem' ! n = path H f h (idx (snd x)) @ drop h (mem ! n)" using e by (simp add: expanded_def)
  then show ?thesis using l x by simp
qed (simp add: expanded_def)

lemma set_sibling:
  "h < length p \<Longrightarrow> i div 2 ^ h = m \<Longrightarrow>
   (path H f h i @ drop h p)[h := node H f h (sib m)] = path H f (Suc h) i @ drop (Suc h) p"
  by (simp add: path_Suc list_update_append Cons_nth_drop_Suc [symmetric])

lemma expand_spec:
  "under h k xs \<Longrightarrow> range_ok h k i j \<Longrightarrow> distinct (map fst xs) \<Longrightarrow>
   \<forall>x\<in>set xs. f (idx (snd x)) = ElementLeaf_Hash H (snd x) \<and> fst x < length mem \<and> h \<le> length (mem ! fst x) \<Longrightarrow>
   \<exists>mem'. expand H i j xs mem (mproof H f h k (leaf_ids xs) @ rest) = Some (node H f h k, mem', rest)
     \<and> expanded H f h xs mem mem'"
proof (induction h arbitrary: k i j xs mem rest)
  case 0
  show ?case
  proof (cases "xs = []")
    case True
    then show ?thesis by (intro exI [of _ mem], subst expand.simps) (simp add: range_zero [OF 0(2)] at_def expanded_def)
  next
    case False
    obtain n l where x: "xs = [(n, l)]" "idx l = k" using single_leaf [OF 0(1) False] by blast
    have e: "expand H i j xs mem ([] @ rest) = Some (ElementLeaf_Hash H l, mem, rest)"
      by (subst expand.simps) (simp add: range_zero [OF 0(2)] x(1))
    have "f k = ElementLeaf_Hash H l" using 0(4) x by simp
    then show ?thesis using e by (intro exI [of _ mem]) (simp add: x expanded_def)
  qed
next
  case (Suc h)
  show ?case
  proof (cases "xs = []")
    case True
    then show ?thesis by (intro exI [of _ mem], subst expand.simps) (simp add: at_def expanded_def)
  next
    case False
    note r = range_halves [OF Suc.prems(2)]
    obtain left right where sp: "split_located xs ((i + j) div 2) = (left, right)" by fastforce
    note s = split_under [OF Suc.prems(1) sp r(1)]
    have m: "mproof H f (Suc h) k (leaf_ids xs) = mproof H f h (2 * k) (leaf_ids left) @ mproof H f h (2 * k + 1) (leaf_ids right)"
      using mproof_split [of h k left right] Suc.prems(1) s False by simp
    have d: "distinct (map fst left)" "distinct (map fst right)" "fst ` set left \<inter> fst ` set right = {}"
      using Suc.prems(3) unfolding s(1) [symmetric] by auto
    have el: "f (idx (snd x)) = ElementLeaf_Hash H (snd x) \<and> fst x < length mem \<and> Suc h \<le> length (mem ! fst x)"
      if "x \<in> set left \<union> set right" for x using Suc.prems(4) that unfolding s(1) [symmetric] by auto
    have hl: "\<forall>x\<in>set left. h \<le> length (mem ! fst x)" "\<forall>x\<in>set right. h \<le> length (mem ! fst x)"
      using el Suc_leD by blast+
    from Suc.IH [OF s(2) r(3) d(1), of mem "mproof H f h (2 * k + 1) (leaf_ids right) @ rest"] el
    obtain m1 where m1: "expand H i ((i + j) div 2) left mem
          (mproof H f h (2 * k) (leaf_ids left) @ mproof H f h (2 * k + 1) (leaf_ids right) @ rest)
        = Some (node H f h (2 * k), m1, mproof H f h (2 * k + 1) (leaf_ids right) @ rest)"
      "expanded H f h left mem m1" by (metis Suc_leD UnCI)
    have l1: "length m1 = length mem" "length (m1 ! n) = length (mem ! n)" for n
      using expanded_length [OF m1(2)] expanded_nth [OF m1(2) hl(1)] by blast+
    from Suc.IH [OF s(3) r(4) d(2), of m1 rest] el
    obtain m2 where m2: "expand H ((i + j) div 2) j right m1 (mproof H f h (2 * k + 1) (leaf_ids right) @ rest)
        = Some (node H f h (2 * k + 1), m2, rest)" "expanded H f h right m1 m2" by (metis Suc_leD UnCI l1)
    have l2: "length m2 = length mem" "length (m2 ! n) = length (mem ! n)" for n
      using expanded_length [OF m2(2)] expanded_nth [OF m2(2)] hl(2) by (simp_all add: l1)
    from write_all_spec [OF d(2), of m2 h "node H f h (2 * k)"] el l2
    obtain m3 where m3: "write_all (Suc h) (node H f h (2 * k)) right m2 = Some m3" "length m3 = length mem"
      "\<And>n. m3 ! n = (if n \<in> fst ` set right then (m2 ! n)[h := node H f h (2 * k)] else m2 ! n)" by (metis Suc_le_lessD UnCI)
    have l3: "length (m3 ! n) = length (mem ! n)" for n by (simp add: m3(3) l2)
    from write_all_spec [OF d(1), of m3 h "node H f h (2 * k + 1)"] el l3 m3(2)
    obtain m4 where m4: "write_all (Suc h) (node H f h (2 * k + 1)) left m3 = Some m4" "length m4 = length mem"
      "\<And>n. m4 ! n = (if n \<in> fst ` set left then (m3 ! n)[h := node H f h (2 * k + 1)] else m3 ! n)" by (metis Suc_le_lessD UnCI)
    have "expand H i j xs mem (mproof H f (Suc h) k (leaf_ids xs) @ rest) = Some (node H f (Suc h) k, m4, rest)"
      unfolding m append_assoc node.simps
      by (subst expand.simps) (simp only: Let_def r(2) sp fst_conv snd_conv False if_False nat.distinct m1(1) m2(1) m3(1) m4(1)
          bind.bind_lunit prod.case)
    moreover have "expanded H f (Suc h) xs mem m4"
      unfolding expanded_def
    proof (intro conjI ballI allI impI)
      show "length m4 = length mem" by (rule m4(2))
      show "m4 ! n = mem ! n" if "n \<notin> fst ` set xs" for n
      proof -
        have "n \<notin> fst ` set left" "n \<notin> fst ` set right" using that unfolding s(1) [symmetric] by auto
        then show ?thesis using m1(2) m2(2) by (simp add: m4(3) m3(3) expanded_def)
      qed
      show "m4 ! fst x = path H f (Suc h) (idx (snd x)) @ drop (Suc h) (mem ! fst x)" if x: "x \<in> set xs" for x
      proof -
        consider "x \<in> set left" | "x \<in> set right" using x s(1) by auto
        then show ?thesis
        proof cases
          case 1
          then have n: "fst x \<in> fst ` set left" "fst x \<notin> fst ` set right" using d(3) by auto
          have "idx (snd x) div 2 ^ h = 2 * k" using s(2) 1 by (simp add: under_def)
          then have "(path H f h (idx (snd x)) @ drop h (mem ! fst x))[h := node H f h (2 * k + 1)]
              = path H f (Suc h) (idx (snd x)) @ drop (Suc h) (mem ! fst x)"
            using set_sibling [of h "mem ! fst x" "idx (snd x)" "2 * k" H f] el [of x] 1 by (simp add: sib_def)
          then show ?thesis using n m1(2) m2(2) 1 by (simp add: m4(3) m3(3) expanded_def)
        next
          case 2
          then have n: "fst x \<notin> fst ` set left" "fst x \<in> fst ` set right" using d(3) by auto
          have "idx (snd x) div 2 ^ h = 2 * k + 1" using s(3) 2 by (simp add: under_def)
          then have "(path H f h (idx (snd x)) @ drop h (mem ! fst x))[h := node H f h (2 * k)]
              = path H f (Suc h) (idx (snd x)) @ drop (Suc h) (mem ! fst x)"
            using set_sibling [of h "mem ! fst x" "idx (snd x)" "2 * k + 1" H f] el [of x] 2 by (simp add: sib_def)
          then show ?thesis using n m1(2) m2(2) 2 by (simp add: m4(3) m3(3) expanded_def)
        qed
      qed
    qed
    ultimately show ?thesis by blast
  qed
qed

end
