(* ===== verification/Multiproof_Trees.thy ===== *)
theory Multiproof_Trees
  imports Multiproof
begin

text \<open>
  From the recursions on one subtree to the functions on transactions: the leaves are grouped by the trees of the
  ledger's forest, and the multiproof of the transactions is the multiproofs of the trees one after the other.
\<close>

section \<open>Grouping\<close>

abbreviation proof_len :: "located \<Rightarrow> nat" where
  "proof_len x \<equiv> length (el_MerkleProof (snd x))"

lemma place_leaves_spec:
  assumes "\<forall>x\<in>set xs. proof_len x < length trees"
  shows "place_leaves trees xs = Some (map (\<lambda>t. trees ! t @ filter (\<lambda>x. proof_len x = t) xs) [0..<length trees])"
  using assms
proof (induction xs arbitrary: trees)
  case Nil
  then show ?case by (simp add: map_nth)
next
  case (Cons x xs)
  let ?t = "proof_len x"
  have "place_leaves (trees[?t := trees ! ?t @ [x]]) xs =
      Some (map (\<lambda>t. trees[?t := trees ! ?t @ [x]] ! t @ filter (\<lambda>x. proof_len x = t) xs) [0..<length trees])"
    using Cons.IH [of "trees[?t := trees ! ?t @ [x]]"] Cons.prems by simp
  also have "map (\<lambda>t. trees[?t := trees ! ?t @ [x]] ! t @ filter (\<lambda>x. proof_len x = t) xs) [0..<length trees]
      = map (\<lambda>t. trees ! t @ filter (\<lambda>x. proof_len x = t) (x # xs)) [0..<length trees]"
    by (intro map_cong refl) auto
  finally show ?case using Cons.prems by (simp add: at_def Let_def)
qed

definition tree_leaves :: "located list \<Rightarrow> nat \<Rightarrow> located list" where
  "tree_leaves xs t = sort_located (filter (\<lambda>x. proof_len x = t) xs)"

lemma leavesByTree_eq:
  assumes "\<forall>x\<in>set (input_leaves H txns). proof_len x < 64"
  shows "leavesByTree H txns = Some (map (tree_leaves (input_leaves H txns)) [0..<64])"
proof -
  have "place_leaves (replicate 64 []) (input_leaves H txns) =
      Some (map (\<lambda>t. replicate 64 [] ! t @ filter (\<lambda>x. proof_len x = t) (input_leaves H txns)) [0..<64])"
    using assms place_leaves_spec [of "input_leaves H txns" "replicate 64 []"] by (simp del: upt_Suc)
  moreover have "map sort_located (map (\<lambda>t. replicate 64 [] ! t @ filter (\<lambda>x. proof_len x = t) (input_leaves H txns)) [0..<64])
      = map (tree_leaves (input_leaves H txns)) [0..<64]"
    unfolding map_map by (intro map_cong refl) (simp add: tree_leaves_def)
  ultimately show ?thesis unfolding leavesByTree_def by (simp only: bind.bind_lunit)
qed

lemma set_tree_leaves [simp]: "set (tree_leaves xs t) = {x \<in> set xs. proof_len x = t}"
  by (simp add: tree_leaves_def sort_located_def)

lemma distinct_tree_leaves: "distinct (map g xs) \<Longrightarrow> distinct (map g (tree_leaves xs t))"
  by (auto simp: tree_leaves_def sort_located_def distinct_map intro: inj_on_subset)

section \<open>Leaves of a ledger\<close>

definition ledger_leaves :: "hashfn \<Rightarrow> ledger \<Rightarrow> located list \<Rightarrow> bool" where
  "ledger_leaves H A xs \<longleftrightarrow> length A < 2 ^ 63 \<and> distinct (map fst xs) \<and> distinct (map (\<lambda>x. idx (snd x)) xs)
     \<and> (\<forall>x\<in>set xs. idx (snd x) < length A \<and> proof_len x = theight (length A) (idx (snd x))
          \<and> ledger_hash H A (idx (snd x)) = ElementLeaf_Hash H (snd x))"

lemma ledger_leaves_tree:
  assumes ok: "ledger_leaves H A xs" and ne: "tree_leaves xs t \<noteq> []"
  shows "under t (length A div 2 ^ t - 1) (tree_leaves xs t)"
    "range_ok t (length A div 2 ^ t - 1) (tree_start t (tree_leaves xs t)) (tree_start t (tree_leaves xs t) + push_bit t 1)"
proof -
  let ?ys = "tree_leaves xs t" and ?n = "length A" and ?k = "length A div 2 ^ t - 1"
  have y: "in_tree ?n t (idx (snd x))" if "x \<in> set ?ys" for x
    using ok that in_tree_theight by (auto simp: ledger_leaves_def)
  have it: "in_tree ?n t (idx (snd (hd ?ys)))" by (rule y [OF hd_in_set [OF ne]])
  have d: "distinct (map (\<lambda>x. idx (snd x)) ?ys)" using ok distinct_tree_leaves by (auto simp: ledger_leaves_def)
  have "sorted (map (\<lambda>x. el_LeafIndex (snd x)) ?ys)" by (simp add: tree_leaves_def sort_located_def)
  then have "sorted (map (\<lambda>x. idx (snd x)) ?ys)"
    by (simp add: sorted_map word_le_nat_alt)
  then have "leaves_sorted (map snd ?ys)"
    using d by (simp add: leaves_sorted_def comp_def strict_sorted_iff)
  then show "under t ?k ?ys" using y by (simp add: under_def in_tree_def)
  have n: "?n < 2 ^ 63" using ok by (simp add: ledger_leaves_def)
  have o': "odd (?n div 2 ^ t)" "idx (snd (hd ?ys)) div 2 ^ t = ?k" using it by (simp_all add: in_tree_def)
  have "2 ^ t \<le> ?n" using o'(1) by (metis div_less even_zero not_le)
  then have t: "t < 63" using n by (metis le_less_trans power_less_imp_less_exp one_less_numeral_iff semiring_norm(76))
  have ev: "even ?k" "?k + 1 = ?n div 2 ^ t" using o'(1) by (auto elim: oddE)
  have "idx (snd (hd ?ys)) div 2 ^ Suc t = ?k div 2" unfolding nat_div_pow_Suc o'(2) ..
  moreover have "unat (tree_start t ?ys) = idx (snd (hd ?ys)) div 2 ^ Suc t * 2 ^ Suc t"
    unfolding tree_start_def Suc_eq_plus1 using t by (intro unat_clearBits) simp
  ultimately have "unat (tree_start t ?ys) = ?k div 2 * 2 * 2 ^ t" by simp
  also have "\<dots> = ?k * 2 ^ t" using ev(1) by simp
  finally have s: "unat (tree_start t ?ys) = ?k * 2 ^ t" .
  have lt: "(?k + 1) * 2 ^ t < 2 ^ 63" using n ev(2) by (metis div_times_less_eq_dividend le_less_trans)
  have p: "unat (push_bit t 1 :: u64) = 2 ^ t"
  proof -
    have "push_bit t 1 = (word_of_nat (2 ^ t) :: u64)" by simp
    moreover have "(2 ^ t :: nat) < 2 ^ 64" using t by (intro power_strict_increasing) simp_all
    ultimately show ?thesis using unat_of_nat64 by metis
  qed
  have "unat (tree_start t ?ys + push_bit t 1) = (?k + 1) * 2 ^ t"
  proof -
    have e: "?k * 2 ^ t + 2 ^ t = (?k + 1) * 2 ^ t" by (simp only: add_mult_distrib mult_1)
    have "(?k + 1) * 2 ^ t < 2 ^ LENGTH(64)" using lt by simp
    then show ?thesis unfolding unat_word_ariths s p e by (rule mod_less)
  qed
  then show "range_ok t ?k (tree_start t ?ys) (tree_start t ?ys + push_bit t 1)"
    using s lt by (simp add: range_ok_def)
qed

section \<open>All trees\<close>

definition tree_mproof :: "hashfn \<Rightarrow> ledger \<Rightarrow> located list \<Rightarrow> nat \<Rightarrow> hash256 list" where
  "tree_mproof H A xs t =
     (if tree_leaves xs t = [] then []
      else mproof H (ledger_hash H A) t (length A div 2 ^ t - 1) (leaf_ids (tree_leaves xs t)))"

lemma sum_sizes_spec:
  assumes "ledger_leaves H A xs"
  shows "sum_sizes h (map (tree_leaves xs) [h..<h + m]) = Some (length (concat (map (tree_mproof H A xs) [h..<h + m])))"
proof (induction m arbitrary: h)
  case (Suc m)
  have u: "[h..<h + Suc m] = h # [Suc h..<Suc h + m]" by (simp add: upt_conv_Cons)
  show ?case
  proof (cases "tree_leaves xs h = []")
    case True
    then show ?thesis unfolding u using Suc.IH [of "Suc h"] by (simp add: tree_mproof_def del: upt_Suc)
  next
    case False
    note l = ledger_leaves_tree [OF assms False]
    note p = proofSize_spec [OF l, where H = H and f = "ledger_hash H A"]
    have t: "tree_mproof H A xs h = mproof H (ledger_hash H A) h (length A div 2 ^ h - 1) (leaf_ids (tree_leaves xs h))"
      using False by (simp add: tree_mproof_def)
    show ?thesis unfolding u list.map sum_sizes.simps if_not_P [OF False] Let_def p [folded t] bind.bind_lunit
      using Suc.IH [of "Suc h"] by (simp del: upt_Suc)
  qed
qed simp

lemma visit_trees_spec:
  assumes "ledger_leaves H A xs" and p: "\<forall>x\<in>set xs. el_MerkleProof (snd x) = valid_proof H A (idx (snd x))"
  shows "visit_trees h (map (tree_leaves xs) [h..<h + m]) = Some (concat (map (tree_mproof H A xs) [h..<h + m]))"
proof (induction m arbitrary: h)
  case (Suc m)
  have u: "[h..<h + Suc m] = h # [Suc h..<Suc h + m]" by (simp add: upt_conv_Cons)
  show ?case
  proof (cases "tree_leaves xs h = []")
    case True
    then show ?thesis unfolding u using Suc.IH [of "Suc h"] by (simp add: tree_mproof_def del: upt_Suc)
  next
    case False
    note l = ledger_leaves_tree [OF assms(1) False]
    have "proofs_ok H (ledger_hash H A) h (tree_leaves xs h)"
      using p assms(1) by (auto simp: proofs_ok_def valid_proof_def proof_of_def ledger_leaves_def)
    note v = visit_spec [OF l False this]
    have t: "tree_mproof H A xs h = mproof H (ledger_hash H A) h (length A div 2 ^ h - 1) (leaf_ids (tree_leaves xs h))"
      using False by (simp add: tree_mproof_def)
    show ?thesis unfolding u list.map visit_trees.simps if_not_P [OF False] Let_def v [folded t] bind.bind_lunit
      using Suc.IH [of "Suc h"] by (simp del: upt_Suc)
  qed
qed simp

lemma other_location:
  assumes "ledger_leaves H A xs" "x \<in> set xs" "\<not> P x"
  shows "fst x \<notin> fst ` {y \<in> set xs. P y}"
proof -
  have "inj_on fst (set xs)" using assms(1) by (simp add: ledger_leaves_def distinct_map)
  then show ?thesis using inj_on_image_mem_iff [of fst "set xs" x "{y \<in> set xs. P y}"] assms by auto
qed

lemma expand_trees_spec:
  assumes ok: "ledger_leaves H A xs"
  shows "\<forall>x\<in>set xs. fst x < length mem \<and> length (mem ! fst x) = proof_len x \<Longrightarrow>
    \<exists>mem'. expand_trees H h (map (tree_leaves xs) [h..<h + m]) mem (concat (map (tree_mproof H A xs) [h..<h + m])) = Some mem'
      \<and> length mem' = length mem
      \<and> (\<forall>x\<in>set xs. h \<le> proof_len x \<longrightarrow> proof_len x < h + m \<longrightarrow> mem' ! fst x = valid_proof H A (idx (snd x)))
      \<and> (\<forall>n. n \<notin> fst ` {x \<in> set xs. h \<le> proof_len x \<and> proof_len x < h + m} \<longrightarrow> mem' ! n = mem ! n)"
proof (induction m arbitrary: h mem)
  case 0
  then show ?case by auto
next
  case (Suc m)
  have u: "[h..<h + Suc m] = h # [Suc h..<Suc h + m]" by (simp add: upt_conv_Cons)
  let ?rest = "concat (map (tree_mproof H A xs) [Suc h..<Suc h + m])"
  obtain mem1 where m1: "expand_trees H h (map (tree_leaves xs) [h..<h + Suc m]) mem (tree_mproof H A xs h @ ?rest)
      = expand_trees H (Suc h) (map (tree_leaves xs) [Suc h..<Suc h + m]) mem1 ?rest"
    "length mem1 = length mem"
    "\<forall>x\<in>set xs. proof_len x = h \<longrightarrow> mem1 ! fst x = valid_proof H A (idx (snd x))"
    "\<forall>n. n \<notin> fst ` {x \<in> set xs. proof_len x = h} \<longrightarrow> mem1 ! n = mem ! n"
  proof (cases "tree_leaves xs h = []")
    case True
    have none: "\<forall>x\<in>set xs. proof_len x \<noteq> h"
    proof (intro ballI notI)
      fix x assume "x \<in> set xs" "proof_len x = h"
      then have "x \<in> set (tree_leaves xs h)" by simp
      then show False by (simp only: True list.set empty_iff)
    qed
    show ?thesis
    proof (rule that [of mem])
      show "\<forall>x\<in>set xs. proof_len x = h \<longrightarrow> mem ! fst x = valid_proof H A (idx (snd x))" using none by blast
      show "expand_trees H h (map (tree_leaves xs) [h..<h + Suc m]) mem (tree_mproof H A xs h @ ?rest)
        = expand_trees H (Suc h) (map (tree_leaves xs) [Suc h..<Suc h + m]) mem ?rest"
        unfolding u list.map expand_trees.simps if_P [OF True] using True by (simp add: tree_mproof_def del: upt_Suc)
    qed simp_all
  next
    case False
    note l = ledger_leaves_tree [OF ok False]
    have d: "distinct (map fst (tree_leaves xs h))" using ok distinct_tree_leaves by (auto simp: ledger_leaves_def)
    have "\<forall>x\<in>set (tree_leaves xs h). ledger_hash H A (idx (snd x)) = ElementLeaf_Hash H (snd x)
        \<and> fst x < length mem \<and> h \<le> length (mem ! fst x)"
      using Suc.prems ok by (auto simp: ledger_leaves_def)
    from expand_spec [OF l d this, of ?rest] obtain mem1 where e:
      "expand H (tree_start h (tree_leaves xs h)) (tree_start h (tree_leaves xs h) + push_bit h 1) (tree_leaves xs h) mem
         (tree_mproof H A xs h @ ?rest)
       = Some (node H (ledger_hash H A) h (length A div 2 ^ h - 1), mem1, ?rest)"
      "expanded H (ledger_hash H A) h (tree_leaves xs h) mem mem1"
      unfolding tree_mproof_def if_not_P [OF False] by blast
    have "expand_trees H h (map (tree_leaves xs) [h..<h + Suc m]) mem (tree_mproof H A xs h @ ?rest)
      = expand_trees H (Suc h) (map (tree_leaves xs) [Suc h..<Suc h + m]) mem1 ?rest"
      unfolding u list.map expand_trees.simps if_not_P [OF False] Let_def e(1) bind.bind_lunit prod.case by simp
    moreover have "mem1 ! fst x = valid_proof H A (idx (snd x))" if "x \<in> set xs" "proof_len x = h" for x
      using e(2) that Suc.prems ok by (auto simp: expanded_def valid_proof_def proof_of_def ledger_leaves_def)
    ultimately show ?thesis using that [of mem1] e(2) by (auto simp: expanded_def)
  qed
  have keep: "\<forall>x\<in>set xs. fst x < length mem1 \<and> length (mem1 ! fst x) = proof_len x"
  proof
    fix x assume x: "x \<in> set xs"
    show "fst x < length mem1 \<and> length (mem1 ! fst x) = proof_len x"
    proof (cases "proof_len x = h")
      case True
      then show ?thesis using m1(2,3) x Suc.prems ok by (auto simp: valid_proof_def proof_of_def ledger_leaves_def)
    next
      case False
      then have "fst x \<notin> fst ` {x \<in> set xs. proof_len x = h}" using other_location [OF ok x] by simp
      then show ?thesis using m1(2,4) x Suc.prems by simp
    qed
  qed
  from Suc.IH [OF keep, of "Suc h"] obtain mem' where m': "expand_trees H (Suc h) (map (tree_leaves xs) [Suc h..<Suc h + m]) mem1 ?rest = Some mem'"
    "length mem' = length mem1"
    "\<forall>x\<in>set xs. Suc h \<le> proof_len x \<longrightarrow> proof_len x < Suc h + m \<longrightarrow> mem' ! fst x = valid_proof H A (idx (snd x))"
    "\<forall>n. n \<notin> fst ` {x \<in> set xs. Suc h \<le> proof_len x \<and> proof_len x < Suc h + m} \<longrightarrow> mem' ! n = mem1 ! n" by blast
  have first: "mem' ! fst x = valid_proof H A (idx (snd x))" if x: "x \<in> set xs" "proof_len x = h" for x
  proof -
    have "\<not> (Suc h \<le> proof_len x \<and> proof_len x < Suc h + m)" using x(2) by simp
    then have "fst x \<notin> fst ` {x \<in> set xs. Suc h \<le> proof_len x \<and> proof_len x < Suc h + m}"
      by (rule other_location [OF ok x(1)])
    then show ?thesis using m'(4) m1(3) x by simp
  qed
  show ?case
  proof (intro exI conjI ballI allI impI)
    have "concat (map (tree_mproof H A xs) [h..<h + Suc m]) = tree_mproof H A xs h @ ?rest" unfolding u by simp
    then show "expand_trees H h (map (tree_leaves xs) [h..<h + Suc m]) mem (concat (map (tree_mproof H A xs) [h..<h + Suc m]))
        = Some mem'" by (simp only: m1(1) m'(1))
    show "length mem' = length mem" using m'(2) m1(2) by simp
    show "mem' ! fst x = valid_proof H A (idx (snd x))" if "x \<in> set xs" "h \<le> proof_len x" "proof_len x < h + Suc m" for x
      using first [OF that(1)] m'(3) that by (cases "proof_len x = h") auto
    show "mem' ! n = mem ! n" if n: "n \<notin> fst ` {x \<in> set xs. h \<le> proof_len x \<and> proof_len x < h + Suc m}" for n
    proof -
      have "{x \<in> set xs. Suc h \<le> proof_len x \<and> proof_len x < Suc h + m} \<subseteq> {x \<in> set xs. h \<le> proof_len x \<and> proof_len x < h + Suc m}"
        "{x \<in> set xs. proof_len x = h} \<subseteq> {x \<in> set xs. h \<le> proof_len x \<and> proof_len x < h + Suc m}" by auto
      then have "n \<notin> fst ` {x \<in> set xs. Suc h \<le> proof_len x \<and> proof_len x < Suc h + m}" "n \<notin> fst ` {x \<in> set xs. proof_len x = h}"
        using n by blast+
      then show ?thesis using m'(4) m1(4) by simp
    qed
  qed
qed

section \<open>Transactions\<close>

abbreviation all_inputs :: "transaction list \<Rightarrow> txn_input list" where
  "all_inputs txns \<equiv> concat (map tx_Inputs txns)"

abbreviation input_proof :: "txn_input \<Rightarrow> hash256 list" where
  "input_proof inp \<equiv> se_MerkleProof (oe_SE (in_Parent inp))"

text \<open>What the network keeps of the proofs: their lengths.\<close>

definition strip_input :: "txn_input \<Rightarrow> txn_input" where
  "strip_input inp = set_input_proof inp (replicate (length (input_proof inp)) 0)"

definition strip_proofs :: "transaction list \<Rightarrow> transaction list" where
  "strip_proofs txns = map (\<lambda>txn. txn\<lparr>tx_Inputs := map strip_input (tx_Inputs txn)\<rparr>) txns"

lemma all_inputs_strip: "all_inputs (strip_proofs txns) = map strip_input (all_inputs txns)"
  by (simp add: strip_proofs_def map_concat comp_def)

lemma set_input_proof_simps [simp]:
  "input_proof (set_input_proof inp p) = p" "set_input_proof (set_input_proof inp p) q = set_input_proof inp q"
  "se_LeafIndex (oe_SE (in_Parent (set_input_proof inp p))) = se_LeafIndex (oe_SE (in_Parent inp))"
  "set_input_proof inp (input_proof inp) = inp"
  by (simp_all add: set_input_proof_def)

lemma strip_input_simps [simp]:
  "length (input_proof (strip_input inp)) = length (input_proof inp)"
  "se_LeafIndex (oe_SE (in_Parent (strip_input inp))) = se_LeafIndex (oe_SE (in_Parent inp))"
  "set_input_proof (strip_input inp) p = set_input_proof inp p"
  by (simp_all add: strip_input_def)

lemma map2_restore: "map2 set_input_proof (map strip_input is) (map input_proof is @ ps) = is"
  by (induction "is") simp_all

lemma put_proofs_restore: "put_proofs (input_proofs txns) (strip_proofs txns) = txns"
proof -
  have "put_proofs (map input_proof (all_inputs txns)) (strip_proofs txns) = txns"
    by (induction txns) (simp_all add: strip_proofs_def map2_restore)
  then show ?thesis by (simp add: input_proofs_def)
qed

lemma filter_enumerate: "map snd (filter (\<lambda>x. P (snd x)) (enumerate n xs)) = filter P xs"
  by (induction xs arbitrary: n) auto

lemma input_leaves_alt:
  "input_leaves H txns = map (\<lambda>x. (fst x, OutputLeaf H (in_Parent (snd x)) False))
     (filter (\<lambda>x. \<not> is_ephemeral (snd x)) (enumerate 0 (all_inputs txns)))"
  by (simp add: input_leaves_def is_ephemeral_def case_prod_unfold)

lemma in_input_leaves:
  "x \<in> set (input_leaves H txns) \<longleftrightarrow> (\<exists>n<length (all_inputs txns). \<not> is_ephemeral (all_inputs txns ! n)
     \<and> x = (n, OutputLeaf H (in_Parent (all_inputs txns ! n)) False))"
proof -
  have "(n, inp) \<in> set (enumerate 0 (all_inputs txns)) \<longleftrightarrow> n < length (all_inputs txns) \<and> all_inputs txns ! n = inp" for n inp
    by (auto simp: in_set_enumerate_eq)
  then show ?thesis unfolding input_leaves_alt by (fastforce simp: image_iff)
qed

text \<open>The inputs that spend from the ledger, each with its right proof, and each leaf once.\<close>

definition spends :: "hashfn \<Rightarrow> ledger \<Rightarrow> transaction list \<Rightarrow> bool" where
  "spends H A txns \<longleftrightarrow>
     (\<forall>inp\<in>set (all_inputs txns). \<not> is_ephemeral inp \<longrightarrow> leaf_in H A (OutputLeaf H (in_Parent inp) False))
     \<and> distinct (map (\<lambda>inp. unat (se_LeafIndex (oe_SE (in_Parent inp)))) (filter (\<lambda>inp. \<not> is_ephemeral inp) (all_inputs txns)))"

lemma ledger_leaves_txns:
  assumes "spends H A txns" "length A < 2 ^ 63"
  shows "ledger_leaves H A (input_leaves H txns)"
    "x \<in> set (input_leaves H txns) \<Longrightarrow> el_MerkleProof (snd x) = valid_proof H A (idx (snd x))"
proof -
  have l: "leaf_in H A (snd x)" if x: "x \<in> set (input_leaves H txns)" for x
  proof -
    obtain n where "n < length (all_inputs txns)" "\<not> is_ephemeral (all_inputs txns ! n)"
      "snd x = OutputLeaf H (in_Parent (all_inputs txns ! n)) False" using x by (auto simp: in_input_leaves)
    then show ?thesis using assms(1) nth_mem unfolding spends_def by metis
  qed
  show p: "el_MerkleProof (snd x) = valid_proof H A (idx (snd x))" if "x \<in> set (input_leaves H txns)" for x
    using l [OF that] by (simp add: leaf_in_def)
  have "distinct (map fst (input_leaves H txns))"
  proof -
    have "distinct (map fst (enumerate 0 (all_inputs txns)))" by simp
    then have "distinct (map fst (filter (\<lambda>x. \<not> is_ephemeral (snd x)) (enumerate 0 (all_inputs txns))))"
      by (rule distinct_map_filter)
    then show ?thesis unfolding input_leaves_alt by (simp add: comp_def)
  qed
  moreover have "distinct (map (\<lambda>x. idx (snd x)) (input_leaves H txns))"
  proof -
    have "map (\<lambda>x. idx (snd x)) (input_leaves H txns) = map (\<lambda>inp. unat (se_LeafIndex (oe_SE (in_Parent inp))))
        (map snd (filter (\<lambda>x. \<not> is_ephemeral (snd x)) (enumerate 0 (all_inputs txns))))"
      by (simp add: input_leaves_alt)
    also have "\<dots> = map (\<lambda>inp. unat (se_LeafIndex (oe_SE (in_Parent inp)))) (filter (\<lambda>inp. \<not> is_ephemeral inp) (all_inputs txns))"
      unfolding filter_enumerate [where P = "\<lambda>inp. \<not> is_ephemeral inp"] ..
    finally show ?thesis using assms(1) by (simp add: spends_def)
  qed
  moreover have "idx (snd x) < length A \<and> proof_len x = theight (length A) (idx (snd x))
      \<and> ledger_hash H A (idx (snd x)) = ElementLeaf_Hash H (snd x)" if "x \<in> set (input_leaves H txns)" for x
    using l [OF that] p [OF that] ledger_hash_leaf by (auto simp: leaf_in_def valid_proof_def proof_of_def)
  ultimately show "ledger_leaves H A (input_leaves H txns)" using assms(2) by (simp add: ledger_leaves_def)
qed

lemma input_leaves_strip:
  "input_leaves H (strip_proofs txns) = map (\<lambda>x. (fst x, set_proof (replicate (proof_len x) 0) (snd x))) (input_leaves H txns)"
proof -
  have e: "enumerate n (map strip_input is) = map (\<lambda>x. (fst x, strip_input (snd x))) (enumerate n is)" for n "is"
    by (induction "is" arbitrary: n) simp_all
  have p: "output_preimage (in_Parent (strip_input inp)) = output_preimage (in_Parent inp)" for inp
    by (simp add: strip_input_def set_input_proof_def output_preimage_inj)
  have s: "OutputLeaf H (in_Parent (strip_input inp)) False
      = set_proof (replicate (length (input_proof inp)) 0) (OutputLeaf H (in_Parent inp) False)" for inp
    by (simp add: OutputLeaf_def set_proof_def p) (simp add: strip_input_def set_input_proof_def)
  have i: "is_ephemeral (strip_input inp) = is_ephemeral inp" for inp by (simp add: is_ephemeral_def)
  show ?thesis unfolding input_leaves_alt all_inputs_strip e by (simp add: filter_map comp_def i s)
qed

lemma strip_leaves:
  assumes "ledger_leaves H A xs"
  shows "ledger_leaves H A (map (\<lambda>x. (fst x, set_proof (replicate (proof_len x) 0) (snd x))) xs)"
    "tree_mproof H A (map (\<lambda>x. (fst x, set_proof (replicate (proof_len x) 0) (snd x))) xs) t = tree_mproof H A xs t"
proof -
  let ?f = "\<lambda>x. (fst x, set_proof (replicate (proof_len x) 0) (snd x)) :: located"
  show "ledger_leaves H A (map ?f xs)"
    using assms by (simp add: ledger_leaves_def comp_def)
  have s: "set (tree_leaves (map ?f xs) t) = ?f ` set (tree_leaves xs t)" by force
  have "leaf_ids (tree_leaves (map ?f xs) t) = leaf_ids (tree_leaves xs t)"
    unfolding s by (simp add: image_image)
  moreover have "tree_leaves (map ?f xs) t = [] \<longleftrightarrow> tree_leaves xs t = []"
    unfolding set_empty [symmetric] s by (rule image_is_empty)
  ultimately show "tree_mproof H A (map ?f xs) t = tree_mproof H A xs t" by (simp only: tree_mproof_def)
qed

text \<open>
  The proofs of transactions that spend from a ledger are restored from their lengths and the multiproof; ephemeral
  inputs have no proofs to speak of.
\<close>

theorem multiproof_restores:
  assumes sp: "spends H A txns" and n: "length A < 2 ^ 63"
    and eph: "\<forall>inp\<in>set (all_inputs txns). is_ephemeral inp \<longrightarrow> input_proof inp = replicate (length (input_proof inp)) 0"
  shows "\<exists>proof. ComputeMultiproof H txns = Some proof
    \<and> MultiproofSize H (strip_proofs txns) = Some (length proof)
    \<and> ExpandMultiproof H (strip_proofs txns) proof = Some txns"
proof -
  let ?xs = "input_leaves H txns" and ?ys = "input_leaves H (strip_proofs txns)"
  note l = ledger_leaves_txns [OF sp n]
  have ly: "ledger_leaves H A ?ys" and mp: "tree_mproof H A ?ys = tree_mproof H A ?xs"
    unfolding input_leaves_strip fun_eq_iff using strip_leaves [OF l(1)] by blast+
  have lt: "proof_len x < 64" if "ledger_leaves H A zs" "x \<in> set zs" for x zs
  proof -
    have "theight (length A) (idx (snd x)) < 63" using that n by (intro theight_less) (auto simp: ledger_leaves_def)
    then show ?thesis using that by (simp add: ledger_leaves_def)
  qed
  have tx: "leavesByTree H txns = Some (map (tree_leaves ?xs) [0..<0 + 64])"
    and ty: "leavesByTree H (strip_proofs txns) = Some (map (tree_leaves ?ys) [0..<0 + 64])"
    using leavesByTree_eq lt [OF l(1)] lt [OF ly] by (simp_all del: upt_Suc)
  let ?proof = "concat (map (tree_mproof H A ?xs) [0..<0 + 64])"
  have "ComputeMultiproof H txns = Some ?proof"
    unfolding ComputeMultiproof_def tx bind.bind_lunit using l by (intro visit_trees_spec) blast+
  moreover have "MultiproofSize H (strip_proofs txns) = Some (length ?proof)"
    unfolding MultiproofSize_def ty bind.bind_lunit mp [symmetric] by (rule sum_sizes_spec [OF ly])
  moreover have "ExpandMultiproof H (strip_proofs txns) ?proof = Some txns"
  proof -
    let ?mem = "input_proofs (strip_proofs txns)"
    have mem: "?mem ! k = replicate (length (input_proof (all_inputs txns ! k))) 0" "length ?mem = length (all_inputs txns)"
      if "k < length (all_inputs txns)" for k
      using that by (simp_all add: input_proofs_def all_inputs_strip strip_input_def)
    have "\<forall>x\<in>set ?ys. fst x < length ?mem \<and> length (?mem ! fst x) = proof_len x"
    proof
      fix y assume "y \<in> set ?ys"
      then obtain k where k: "k < length (all_inputs (strip_proofs txns))"
        "y = (k, OutputLeaf H (in_Parent (all_inputs (strip_proofs txns) ! k)) False)"
        by (auto simp: in_input_leaves)
      then show "fst y < length ?mem \<and> length (?mem ! fst y) = proof_len y"
        by (simp add: input_proofs_def)
    qed
    note ex = expand_trees_spec [OF ly this, of 0 64, unfolded mp]
    have all: "{x \<in> set ?ys. 0 \<le> proof_len x \<and> proof_len x < 0 + 64} = set ?ys" using lt [OF ly] by auto
    obtain mem' where e: "expand_trees H 0 (map (tree_leaves ?ys) [0..<0 + 64]) ?mem ?proof = Some mem'" "length mem' = length ?mem"
      "\<forall>x\<in>set ?ys. 0 \<le> proof_len x \<longrightarrow> proof_len x < 0 + 64 \<longrightarrow> mem' ! fst x = valid_proof H A (idx (snd x))"
      "\<forall>k. k \<notin> fst ` set ?ys \<longrightarrow> mem' ! k = ?mem ! k"
      using ex unfolding all by blast
    have e3: "mem' ! fst x = valid_proof H A (idx (snd x))" if "x \<in> set ?ys" for x using e(3) lt [OF ly] that by simp
    have "mem' = input_proofs txns"
    proof (rule nth_equalityI)
      show "length mem' = length (input_proofs txns)" using e(2) by (simp add: input_proofs_def all_inputs_strip)
      fix k assume "k < length mem'"
      then have k: "k < length (all_inputs txns)" using e(2) by (simp add: input_proofs_def all_inputs_strip)
      let ?inp = "all_inputs txns ! k"
      show "mem' ! k = input_proofs txns ! k"
      proof (cases "is_ephemeral ?inp")
        case True
        have "k \<notin> fst ` set ?ys"
          unfolding input_leaves_strip using True by (auto simp: in_input_leaves)
        then have "mem' ! k = replicate (length (input_proof ?inp)) 0" using e(4) mem(1) [OF k] by simp
        also have "\<dots> = input_proof ?inp" using eph True k nth_mem by metis
        finally show ?thesis using k by (simp add: input_proofs_def)
      next
        case False
        let ?x = "(k, OutputLeaf H (in_Parent ?inp) False)"
        have x: "?x \<in> set ?xs" using False k by (auto simp: in_input_leaves)
        then have "(k, set_proof (replicate (proof_len ?x) 0) (snd ?x)) \<in> set ?ys" unfolding input_leaves_strip by force
        from e3 [OF this] have "mem' ! k = valid_proof H A (idx (snd ?x))" by (simp add: set_proof_def)
        also have "\<dots> = input_proof ?inp" using l(2) [OF x] by simp
        finally show ?thesis using k by (simp add: input_proofs_def)
      qed
    qed
    then show ?thesis
      unfolding ExpandMultiproof_def ty bind.bind_lunit e(1) by (simp only: put_proofs_restore bind.bind_lunit)
  qed
  ultimately show ?thesis by blast
qed

end
