(* ===== verification/Multiproof_Total.thy ===== *)
theory Multiproof_Total
  imports Multiproof_Trees
begin

text \<open>
  \<open>MultiproofSize\<close> and \<open>ExpandMultiproof\<close> run on transactions from the network, whose leaf numbers and proof lengths
  can be anything. They end and do not panic when no proof has more than 63 hashes and the multiproof has the right
  size. The sum \<open>i + j\<close> of the recursions can wrap around, but the ranges stay aligned.
\<close>

section \<open>Aligned ranges\<close>

definition aligned :: "nat \<Rightarrow> u64 \<Rightarrow> u64 \<Rightarrow> bool" where
  "aligned h i j \<longleftrightarrow> (\<exists>a c. unat i = 2 ^ h * a \<and> unat j = 2 ^ h * c \<and> odd (a + c))"

lemma trailing_zeros_odd: "odd q \<Longrightarrow> trailing_zeros (2 ^ h * q) = h"
proof (induction h)
  case (Suc h)
  have "2 ^ Suc h * q \<noteq> 0" using Suc.prems by (cases "q = 0") auto
  then show ?case using Suc by (subst trailing_zeros.simps) (simp add: mult.assoc)
qed (simp add: trailing_zeros.simps)

lemma odd_mod_pow: "0 < m \<Longrightarrow> odd (x mod 2 ^ m :: nat) \<longleftrightarrow> odd x"
  by (cases m) (simp_all add: odd_iff_mod_2_eq_one mod_mod_cancel)

lemma aligned_TrailingZeros:
  assumes "aligned h i j" "h \<le> 63"
  shows "bits_TrailingZeros64 (j - i) = h"
proof -
  obtain a c where ac: "unat i = 2 ^ h * a" "unat j = 2 ^ h * c" "odd (a + c)" using assms(1) by (auto simp: aligned_def)
  have p: "(2 ^ 64 :: nat) = 2 ^ h * 2 ^ (64 - h)" using assms(2) by (simp flip: power_add)
  have "\<exists>q. odd q \<and> unat (j - i) = 2 ^ h * q"
  proof (cases "unat i \<le> unat j")
    case True
    then have le: "a \<le> c" by (simp add: ac(1,2))
    have "unat (j - i) = 2 ^ h * (c - a)" using True by (simp add: unat_sub_if' ac(1,2) diff_mult_distrib2)
    moreover have "odd (c - a)" using ac(3) le by simp
    ultimately show ?thesis by blast
  next
    case False
    have "2 ^ h * a < 2 ^ h * 2 ^ (64 - h)" using unat64_lt [of i] unfolding ac(1) p .
    then have le: "a \<le> 2 ^ (64 - h) + c" by simp
    have "unat (j - i) = unat j + 2 ^ 64 - unat i" using False by (simp add: unat_sub_if')
    also have "\<dots> = 2 ^ h * (c + 2 ^ (64 - h) - a)" unfolding ac(1,2) p by (simp add: algebra_simps)
    finally have "unat (j - i) = 2 ^ h * (c + 2 ^ (64 - h) - a)" .
    moreover have "odd (c + 2 ^ (64 - h) - a)" using ac(3) le assms(2) by (simp add: add.commute)
    ultimately show ?thesis by blast
  qed
  then obtain q where q: "odd q" "unat (j - i) = 2 ^ h * q" by blast
  then have "j - i \<noteq> 0" by (metis even_zero mult_eq_0_iff power_eq_0_iff unat_0 zero_neq_numeral)
  then show ?thesis by (simp add: bits_TrailingZeros64_def q trailing_zeros_odd)
qed

lemma aligned_halves:
  assumes "aligned (Suc h) i j" "Suc h \<le> 63"
  shows "aligned h i ((i + j) div 2)" "aligned h ((i + j) div 2) j"
proof -
  obtain a c where ac: "unat i = 2 ^ Suc h * a" "unat j = 2 ^ Suc h * c" "odd (a + c)" using assms(1) by (auto simp: aligned_def)
  have p: "(2 ^ 64 :: nat) = 2 ^ Suc h * 2 ^ (64 - Suc h)" using assms(2) by (simp flip: power_add)
  let ?q = "(a + c) mod 2 ^ (64 - Suc h)"
  have "unat (i + j) = (unat i + unat j) mod 2 ^ 64" by (simp add: unat_word_ariths)
  also have "\<dots> = 2 ^ Suc h * ?q" unfolding ac(1,2) p by (simp only: distrib_left [symmetric] mult_mod_right)
  finally have "unat ((i + j) div 2) = 2 ^ h * ?q" by (simp add: unat_div)
  moreover have "odd ?q" using ac(3) assms(2) by (subst odd_mod_pow) simp_all
  moreover have "unat i = 2 ^ h * (2 * a)" "unat j = 2 ^ h * (2 * c)" by (simp_all add: ac(1,2))
  ultimately show "aligned h i ((i + j) div 2)" "aligned h ((i + j) div 2) j"
    unfolding aligned_def by (metis even_add even_mult_iff even_numeral)+
qed

lemma tree_start_aligned:
  assumes "t \<le> 63"
  shows "aligned t (tree_start t xs) (tree_start t xs + push_bit t 1)"
proof -
  let ?i = "el_LeafIndex (snd (hd xs))"
  have pb: "push_bit t 1 = (word_of_nat (2 ^ t) :: u64)" by simp
  have lt: "(2 ^ t :: nat) < 2 ^ 64" using assms by (intro power_strict_increasing) simp_all
  have p: "unat (push_bit t 1 :: u64) = 2 ^ t" unfolding pb by (rule unat_of_nat64 [OF lt])
  show ?thesis
  proof (cases "t = 63")
    case True
    have "push_bit 64 (1 :: u64) = 0" by (rule push_bit_word_beyond) simp
    then have "clearBits ?i 64 = 0" unfolding clearBits_def by (simp only: diff_0 bit.compl_one and_zero_eq)
    then have "tree_start t xs = 0" by (simp add: tree_start_def True)
    then show ?thesis using p by (auto simp: aligned_def intro!: exI [of _ 0] exI [of _ 1])
  next
    case False
    let ?q = "unat ?i div 2 ^ Suc t"
    have s: "unat (tree_start t xs) = ?q * 2 ^ Suc t"
      unfolding tree_start_def Suc_eq_plus1 using assms False by (intro unat_clearBits) simp
    have e: "(2 ^ 64 :: nat) = 2 ^ (64 - Suc t) * 2 ^ Suc t" using assms by (simp flip: power_add)
    have "?q * 2 ^ Suc t < 2 ^ (64 - Suc t) * 2 ^ Suc t" unfolding e [symmetric] using unat64_lt [of ?i]
      by (rule le_less_trans [OF div_times_less_eq_dividend])
    then have "?q + 1 \<le> 2 ^ (64 - Suc t)" by simp
    then have "(?q + 1) * 2 ^ Suc t \<le> 2 ^ 64" unfolding e by (intro mult_right_mono) simp_all
    then have "?q * 2 ^ Suc t + 2 ^ Suc t \<le> 2 ^ 64" by (simp only: add_mult_distrib mult_1)
    moreover have "(2 ^ t :: nat) < 2 ^ Suc t" by simp
    ultimately have "?q * 2 ^ Suc t + 2 ^ t < 2 ^ 64" by linarith
    then have "unat (tree_start t xs + push_bit t 1) = ?q * 2 ^ Suc t + 2 ^ t"
      unfolding unat_word_ariths s p by simp
    then show ?thesis using s by (auto simp: aligned_def intro!: exI [of _ "2 * ?q"] exI [of _ "2 * ?q + 1"])
  qed
qed

section \<open>The recursions end\<close>

lemma set_split_located: "split_located xs mid = (left, right) \<Longrightarrow> left @ right = xs"
  by (auto simp: split_located_def Let_def)

lemma proofSize_total: "aligned h i j \<Longrightarrow> h \<le> 63 \<Longrightarrow> \<exists>n. proofSize i j xs = Some n"
proof (induction h arbitrary: i j xs)
  case 0
  then show ?case by (subst proofSize.simps) (simp add: Let_def aligned_TrailingZeros)
next
  case (Suc h)
  note a = aligned_halves [OF Suc.prems]
  obtain m n where "proofSize i ((i + j) div 2) (fst (split_located xs ((i + j) div 2))) = Some m"
    "proofSize ((i + j) div 2) j (snd (split_located xs ((i + j) div 2))) = Some n"
    using Suc.IH [OF a(1)] Suc.IH [OF a(2)] Suc.prems(2) by (metis Suc_leD)
  then show ?case by (subst proofSize.simps) (simp add: Let_def)
qed

definition room :: "nat \<Rightarrow> located list \<Rightarrow> hash256 list list \<Rightarrow> bool" where
  "room h xs mem \<longleftrightarrow> (\<forall>x\<in>set xs. fst x < length mem \<and> h \<le> length (mem ! fst x))"

lemma room_append: "room h (xs @ ys) mem \<longleftrightarrow> room h xs mem \<and> room h ys mem"
  by (auto simp: room_def)

lemma room_Suc: "room (Suc h) xs mem \<Longrightarrow> room h xs mem"
  by (simp add: room_def Suc_le_eq less_imp_le)

lemma same_lengths:
  "map length mem' = map length mem \<Longrightarrow> length mem' = length mem \<and> (\<forall>n<length mem. length (mem' ! n) = length (mem ! n))"
  by (simp add: list_eq_iff_nth_eq)

lemma room_cong: "map length mem' = map length mem \<Longrightarrow> room h xs mem' \<longleftrightarrow> room h xs mem"
  using same_lengths [of mem' mem] by (auto simp: room_def)

lemma write_all_total:
  "room (Suc h) xs mem \<Longrightarrow> \<exists>mem'. write_all (Suc h) v xs mem = Some mem' \<and> map length mem' = map length mem"
proof (induction xs arbitrary: mem)
  case (Cons x xs)
  let ?m = "mem[fst x := (mem ! fst x)[h := v]]"
  have x: "fst x < length mem" "Suc h \<le> length (mem ! fst x)" using Cons.prems by (simp_all add: room_def)
  have l: "map length ?m = map length mem" using x(1) by (simp add: map_update) (metis length_map list_update_id nth_map)
  then have "room (Suc h) xs ?m" unfolding room_cong [OF l] using Cons.prems by (simp add: room_def)
  from Cons.IH [OF this] show ?case using x l by (auto simp: at_def set_height_def)
qed simp

lemma expand_total:
  "aligned h i j \<Longrightarrow> h \<le> 63 \<Longrightarrow> room h xs mem \<Longrightarrow> proofSize i j xs = Some n \<Longrightarrow> n \<le> length mp \<Longrightarrow>
   \<exists>r mem'. expand H i j xs mem mp = Some (r, mem', drop n mp) \<and> map length mem' = map length mem"
proof (induction h arbitrary: i j xs mem n mp)
  case 0
  have z: "bits_TrailingZeros64 (j - i) = 0" using 0(1,2) by (rule aligned_TrailingZeros)
  have "n = (if xs = [] then 1 else 0)"
    using 0(4) by (subst (asm) proofSize.simps) (simp add: Let_def z split: if_splits)
  then show ?case using 0(5) by (cases "xs = []"; subst expand.simps) (auto simp: z at_def)
next
  case (Suc h)
  have z: "bits_TrailingZeros64 (j - i) = Suc h" using Suc.prems(1,2) by (rule aligned_TrailingZeros)
  show ?case
  proof (cases "xs = []")
    case True
    have "n = 1" using Suc.prems(4) True by (subst (asm) proofSize.simps) simp
    then have "at mp 0 = Some (hd mp)" "n = 1" using Suc.prems(5) by (auto simp: at_def hd_conv_nth)
    then show ?thesis using True by (subst expand.simps) simp
  next
    case False
    note a = aligned_halves [OF Suc.prems(1,2)]
    let ?mid = "(i + j) div 2"
    obtain left right where sp: "split_located xs ?mid = (left, right)" by fastforce
    have lr: "left @ right = xs" by (rule set_split_located [OF sp])
    have rm: "room (Suc h) left mem" "room (Suc h) right mem" "room h left mem" "room h right mem"
      using Suc.prems(3) room_Suc unfolding lr [symmetric] room_append by blast+
    have "proofSize i j xs = do { m \<leftarrow> proofSize i ?mid left; n \<leftarrow> proofSize ?mid j right; Some (m + n) }"
      using False by (subst proofSize.simps) (simp add: Let_def z sp)
    then obtain m1 m2 where m: "proofSize i ?mid left = Some m1" "proofSize ?mid j right = Some m2" "n = m1 + m2"
      using Suc.prems(4) by (auto split: Option.bind_splits)
    have h: "h \<le> 63" and le: "m1 \<le> length mp" "m2 \<le> length (drop m1 mp)" using Suc.prems(2,5) m(3) by simp_all
    obtain r1 mem1 where e1: "expand H i ?mid left mem mp = Some (r1, mem1, drop m1 mp)" "map length mem1 = map length mem"
      using Suc.IH [OF a(1) h rm(3) m(1) le(1)] by blast
    have "room h right mem1" using rm(4) by (simp only: room_cong [OF e1(2)])
    from Suc.IH [OF a(2) h this m(2) le(2)] obtain r2 mem2 where
      e2: "expand H ?mid j right mem1 (drop m1 mp) = Some (r2, mem2, drop m2 (drop m1 mp))" "map length mem2 = map length mem"
      using e1(2) by auto
    have "room (Suc h) right mem2" using rm(2) by (simp only: room_cong [OF e2(2)])
    from write_all_total [OF this] obtain mem3 where w3: "write_all (Suc h) r1 right mem2 = Some mem3" "map length mem3 = map length mem"
      using e2(2) by auto
    have "room (Suc h) left mem3" using rm(1) by (simp only: room_cong [OF w3(2)])
    from write_all_total [OF this] obtain mem4 where w4: "write_all (Suc h) r2 left mem3 = Some mem4" "map length mem4 = map length mem"
      using w3(2) by auto
    have "expand H i j xs mem mp = Some (NodeHash H r1 r2, mem4, drop n mp)"
      using False by (subst expand.simps) (simp add: Let_def z sp e1(1) e2(1) w3(1) w4(1) m(3) add.commute)
    then show ?thesis using w4(2) by blast
  qed
qed

lemma sum_sizes_total: "h + m \<le> 64 \<Longrightarrow> \<exists>n. sum_sizes h (map (tree_leaves xs) [h..<h + m]) = Some n"
proof (induction m arbitrary: h)
  case (Suc m)
  have u: "[h..<h + Suc m] = h # [Suc h..<Suc h + m]" by (simp add: upt_conv_Cons)
  have h: "h \<le> 63" using Suc.prems by simp
  obtain k where "proofSize (tree_start h (tree_leaves xs h)) (tree_start h (tree_leaves xs h) + push_bit h 1) (tree_leaves xs h) = Some k"
    using proofSize_total [OF tree_start_aligned [OF h] h] by blast
  moreover obtain n where "sum_sizes (Suc h) (map (tree_leaves xs) [Suc h..<Suc h + m]) = Some n"
    using Suc.IH [of "Suc h"] Suc.prems by auto
  ultimately show ?case unfolding u list.map sum_sizes.simps Let_def by (cases "tree_leaves xs h = []") auto
qed simp

lemma expand_trees_total:
  "h + m \<le> 64 \<Longrightarrow> \<forall>x\<in>set xs. fst x < length mem \<and> length (mem ! fst x) = proof_len x \<Longrightarrow>
   sum_sizes h (map (tree_leaves xs) [h..<h + m]) = Some n \<Longrightarrow> n \<le> length mp \<Longrightarrow>
   \<exists>mem'. expand_trees H h (map (tree_leaves xs) [h..<h + m]) mem mp = Some mem'"
proof (induction m arbitrary: h mem n mp)
  case (Suc m)
  have u: "[h..<h + Suc m] = h # [Suc h..<Suc h + m]" by (simp add: upt_conv_Cons)
  have h: "h \<le> 63" and hm: "Suc h + m \<le> 64" using Suc.prems(1) by simp_all
  show ?case
  proof (cases "tree_leaves xs h = []")
    case True
    then show ?thesis
      using Suc.IH [OF hm Suc.prems(2)] Suc.prems(3,4) unfolding u list.map sum_sizes.simps expand_trees.simps by simp
  next
    case False
    let ?i = "tree_start h (tree_leaves xs h)"
    obtain k l where k: "proofSize ?i (?i + push_bit h 1) (tree_leaves xs h) = Some k"
      "sum_sizes (Suc h) (map (tree_leaves xs) [Suc h..<Suc h + m]) = Some l" "n = k + l"
      using Suc.prems(3) False unfolding u list.map sum_sizes.simps Let_def by (auto split: Option.bind_splits)
    have "room h (tree_leaves xs h) mem" using Suc.prems(2) by (auto simp: room_def)
    moreover have "k \<le> length mp" using Suc.prems(4) k(3) by simp
    ultimately obtain r mem' where e: "expand H ?i (?i + push_bit h 1) (tree_leaves xs h) mem mp = Some (r, mem', drop k mp)"
      "map length mem' = map length mem"
      using expand_total [OF tree_start_aligned [OF h] h _ k(1)] by blast
    have "\<forall>x\<in>set xs. fst x < length mem' \<and> length (mem' ! fst x) = proof_len x"
      using Suc.prems(2) same_lengths [OF e(2)] by simp
    moreover have "l \<le> length (drop k mp)" using Suc.prems(4) k(3) by simp
    ultimately have "\<exists>mem''. expand_trees H (Suc h) (map (tree_leaves xs) [Suc h..<Suc h + m]) mem' (drop k mp) = Some mem''"
      by (rule Suc.IH [OF hm _ k(2)])
    then show ?thesis
      by (simp only: u list.map expand_trees.simps Let_def False if_False e(1) bind.bind_lunit prod.case Suc_eq_plus1 [symmetric])
  qed
qed simp

theorem expand_never_panics:
  assumes "\<forall>inp\<in>set (all_inputs txns). length (input_proof inp) < 64"
  shows "\<exists>n. MultiproofSize H txns = Some n \<and> (\<forall>mp. length mp = n \<longrightarrow> ExpandMultiproof H txns mp \<noteq> None)"
proof -
  let ?xs = "input_leaves H txns"
  have mem: "\<forall>x\<in>set ?xs. fst x < length (input_proofs txns) \<and> length (input_proofs txns ! fst x) = proof_len x"
    by (auto simp: in_input_leaves input_proofs_def)
  have "\<forall>x\<in>set ?xs. proof_len x < 64"
  proof
    fix x assume "x \<in> set ?xs"
    then obtain k where "k < length (all_inputs txns)" "x = (k, OutputLeaf H (in_Parent (all_inputs txns ! k)) False)"
      by (auto simp: in_input_leaves)
    then show "proof_len x < 64" using assms nth_mem by force
  qed
  then have t: "leavesByTree H txns = Some (map (tree_leaves ?xs) [0..<0 + 64])"
    using leavesByTree_eq by (simp del: upt_Suc)
  obtain n where n: "sum_sizes 0 (map (tree_leaves ?xs) [0..<0 + 64]) = Some n" using sum_sizes_total [of 0 64 ?xs] by auto
  have "MultiproofSize H txns = Some n" unfolding MultiproofSize_def t bind.bind_lunit by (rule n)
  moreover have "ExpandMultiproof H txns mp \<noteq> None" if "length mp = n" for mp
    using expand_trees_total [OF _ mem n, of mp H] that unfolding ExpandMultiproof_def t bind.bind_lunit by auto
  ultimately show ?thesis by blast
qed

end
