(* ===== verification/Compressed_Block.thy ===== *)
theory Compressed_Block
  imports Multiproof_Total Data_Properties Consensus_Properties
begin

text \<open>
  merkle/multiproof.go: the form in which blocks go over the network, without their proofs but with one multiproof.
\<close>

section \<open>Encoding without proofs\<close>

definition compressedStateElement_EncodeTo :: "state_element \<Rightarrow> byte list" where
  "compressedStateElement_EncodeTo se =
     ElementID_EncodeTo (se_ID se) @ WriteUint64 (se_LeafIndex se) @ WritePrefix (length (se_MerkleProof se))"

definition compressedStateElement_DecodeFrom :: "state_element dec" where
  "compressedStateElement_DecodeFrom = do {
     i \<leftarrow> ElementID_DecodeFrom;
     l \<leftarrow> ReadUint64;
     n \<leftarrow> ReadPrefix;
     (if 64 \<le> n then Decoder_SetErr ErrProofLen else State_Monad.return ());
     State_Monad.return \<lparr>se_ID = i, se_LeafIndex = l, se_MerkleProof = replicate n 0\<rparr>
   }"

definition compressedOutputElement_EncodeTo :: "output_element \<Rightarrow> byte list" where
  "compressedOutputElement_EncodeTo oe =
     compressedStateElement_EncodeTo (oe_SE oe) @ Output_EncodeTo (oe_Output oe) @ WriteUint64 (oe_MaturityHeight oe)"

definition compressedOutputElement_DecodeFrom :: "output_element dec" where
  "compressedOutputElement_DecodeFrom = do {
     se \<leftarrow> compressedStateElement_DecodeFrom;
     o' \<leftarrow> Output_DecodeFrom;
     m \<leftarrow> ReadUint64;
     State_Monad.return \<lparr>oe_SE = se, oe_Output = o', oe_MaturityHeight = m\<rparr>
   }"

definition compressedInput_EncodeTo :: "txn_input \<Rightarrow> byte list" where
  "compressedInput_EncodeTo i =
     compressedOutputElement_EncodeTo (in_Parent i) @ PublicKey_EncodeTo (in_PublicKey i) @ Signature_EncodeTo (in_Signature i)"

definition compressedInput_DecodeFrom :: "txn_input dec" where
  "compressedInput_DecodeFrom = do {
     p \<leftarrow> compressedOutputElement_DecodeFrom;
     k \<leftarrow> PublicKey_DecodeFrom;
     s \<leftarrow> Signature_DecodeFrom;
     State_Monad.return \<lparr>in_Parent = p, in_PublicKey = k, in_Signature = s\<rparr>
   }"

definition compressedTransaction_EncodeTo :: "transaction \<Rightarrow> byte list" where
  "compressedTransaction_EncodeTo txn =
     WriteUint8 1
     @ WritePrefix (length (tx_Inputs txn)) @ concat (map compressedInput_EncodeTo (tx_Inputs txn))
     @ WritePrefix (length (tx_Outputs txn)) @ concat (map Output_EncodeTo (tx_Outputs txn))
     @ Currency_EncodeTo (tx_MinerFee txn)"

definition compressedTransaction_DecodeFrom :: "transaction dec" where
  "compressedTransaction_DecodeFrom = do {
     version \<leftarrow> ReadUint8;
     if version \<noteq> 1 then do {
       Decoder_SetErr (ErrVersion version);
       State_Monad.return zero_transaction
     } else do {
       is \<leftarrow> do { n \<leftarrow> ReadPrefix; ReadMany n compressedInput_DecodeFrom };
       os \<leftarrow> do { n \<leftarrow> ReadPrefix; ReadMany n Output_DecodeFrom };
       f \<leftarrow> Currency_DecodeFrom;
       State_Monad.return \<lparr>tx_Inputs = is, tx_Outputs = os, tx_MinerFee = f\<rparr>
     }
   }"

section \<open>CompressedBlock\<close>

definition CompressedBlock_EncodeTo :: "hashfn \<Rightarrow> block \<Rightarrow> byte list option" where
  "CompressedBlock_EncodeTo H b = do {
     proof \<leftarrow> ComputeMultiproof H (b_Transactions b);
     Some (WriteUint8 1 @ BlockHeader_EncodeTo (b_Header b)
       @ WritePrefix (length (b_Transactions b)) @ concat (map compressedTransaction_EncodeTo (b_Transactions b))
       @ concat (map Hash256_EncodeTo proof))
   }"

text \<open>The receiver, a new block, keeps its zero value on an unknown version.\<close>

definition zero_block :: block where
  "zero_block =
     \<lparr>b_Header = \<lparr>bh_Height = 0, bh_ParentID = 0, bh_Nonce = 0, bh_Timestamp = zero_time, bh_MinerAddress = 0, bh_Commitment = 0\<rparr>,
      b_Transactions = []\<rparr>"

definition CompressedBlock_DecodeFrom :: "hashfn \<Rightarrow> decoder \<Rightarrow> (block \<times> decoder) option" where
  "CompressedBlock_DecodeFrom H d =
     (let (version, d) = run_state ReadUint8 d in
      if version \<noteq> 1 then Some (zero_block, snd (run_state (Decoder_SetErr (ErrVersion version)) d))
      else
        let (h, d) = run_state BlockHeader_DecodeFrom d;
            (txns, d) = run_state (do { n \<leftarrow> ReadPrefix; ReadMany n compressedTransaction_DecodeFrom }) d
        in if dc_err d \<noteq> None then Some (\<lparr>b_Header = h, b_Transactions = txns\<rparr>, d)
           else do {
             size \<leftarrow> MultiproofSize H txns;
             let (proof, d) = run_state (ReadMany size Hash256_DecodeFrom) d;
             txns \<leftarrow> ExpandMultiproof H txns proof;
             Some (\<lparr>b_Header = h, b_Transactions = txns\<rparr>, d)
           })"

section \<open>The transactions come back without their proofs\<close>

definition stripped_input_ok :: "txn_input \<Rightarrow> bool" where
  "stripped_input_ok i \<longleftrightarrow> length (input_proof i) < 64 \<and> strip_input i = i"

lemma compressedInput_strip [simp]: "compressedInput_EncodeTo (strip_input i) = compressedInput_EncodeTo i"
  by (simp add: compressedInput_EncodeTo_def compressedOutputElement_EncodeTo_def compressedStateElement_EncodeTo_def
      strip_input_def set_input_proof_def)

lemma stripped_proof: "stripped_input_ok i \<Longrightarrow> input_proof i = replicate (length (input_proof i)) 0"
  unfolding stripped_input_ok_def strip_input_def by (metis set_input_proof_simps(1))

lemma compressedInput_decodes:
  assumes "stripped_input_ok i"
  shows "decodes 0 compressedInput_DecodeFrom (compressedInput_EncodeTo i) i"
proof -
  let ?oe = "in_Parent i" and ?se = "oe_SE (in_Parent i)"
  have p: "se_MerkleProof ?se = replicate (length (se_MerkleProof ?se)) 0" "length (se_MerkleProof ?se) < 64"
    using stripped_proof [OF assms] assms by (simp_all add: stripped_input_ok_def)
  have "decodes k (do {
      n \<leftarrow> ReadPrefix;
      (if 64 \<le> n then Decoder_SetErr ErrProofLen else State_Monad.return ());
      State_Monad.return \<lparr>se_ID = se_ID ?se, se_LeafIndex = se_LeafIndex ?se, se_MerkleProof = replicate n 0\<rparr>
    }) (WritePrefix (length (se_MerkleProof ?se))) ?se" if "64 \<le> k" for k
  proof -
    let ?n = "length (se_MerkleProof ?se)"
    let ?f = "\<lambda>n. do {
      (if 64 \<le> n then Decoder_SetErr ErrProofLen else State_Monad.return ());
      State_Monad.return \<lparr>se_ID = se_ID ?se, se_LeafIndex = se_LeafIndex ?se, se_MerkleProof = replicate n 0\<rparr>}"
    have "?se = \<lparr>se_ID = se_ID ?se, se_LeafIndex = se_LeafIndex ?se, se_MerkleProof = replicate ?n 0\<rparr>"
      by (subst p(1) [symmetric]) simp
    then have "decodes k (?f ?n) [] ?se" using p(2) by (auto simp: decodes_def)
    moreover have "decodes (length ([] :: byte list) + k) ReadPrefix (WritePrefix ?n) ?n"
      using p(2) that by (intro decodes_ReadPrefix) simp_all
    ultimately have "decodes k (State_Monad.bind ReadPrefix ?f) (WritePrefix ?n @ []) ?se"
      by (intro decodes_bind)
    then show ?thesis by simp
  qed
  then have se: "decodes k compressedStateElement_DecodeFrom (compressedStateElement_EncodeTo ?se) ?se" if "64 \<le> k" for k
    using that unfolding compressedStateElement_DecodeFrom_def compressedStateElement_EncodeTo_def
    by (intro decodes_bind [OF element_id.dec_enc_k] decodes_bind [OF decodes_ReadUint64]) simp_all
  have oe: "decodes k compressedOutputElement_DecodeFrom (compressedOutputElement_EncodeTo ?oe) ?oe" if "64 \<le> k" for k
    unfolding compressedOutputElement_DecodeFrom_def compressedOutputElement_EncodeTo_def
    by (intro decodes_bind [OF se] decodes_bind [OF txn_output.dec_enc_k] decodes_last [OF decodes_ReadUint64])
      (use that in simp_all)
  show ?thesis
    unfolding compressedInput_DecodeFrom_def compressedInput_EncodeTo_def
    by (intro decodes_bind [OF oe] decodes_bind [OF public_key.dec_enc_k] decodes_last [OF signature.dec_enc_k])
      (simp_all add: PublicKey_EncodeTo_def Signature_EncodeTo_def)
qed

interpretation compressed_input: codec compressedInput_EncodeTo compressedInput_DecodeFrom stripped_input_ok
  by unfold_locales (rule compressedInput_decodes)


lemma compressedInput_not_Nil [simp]: "compressedInput_EncodeTo i \<noteq> []"
  by (simp add: compressedInput_EncodeTo_def PublicKey_EncodeTo_def array_bytes_not_Nil)

definition stripped_ok :: "transaction \<Rightarrow> bool" where
  "stripped_ok txn \<longleftrightarrow> len_ok (tx_Inputs txn) \<and> len_ok (tx_Outputs txn) \<and> (\<forall>i\<in>set (tx_Inputs txn). stripped_input_ok i)"

lemma compressedTransaction_decodes:
  assumes "stripped_ok x"
  shows "decodes 0 compressedTransaction_DecodeFrom (compressedTransaction_EncodeTo x) x"
proof -
  have i: "decodes k (do { n \<leftarrow> ReadPrefix; ReadMany n compressedInput_DecodeFrom })
      (WritePrefix (length (tx_Inputs x)) @ concat (map compressedInput_EncodeTo (tx_Inputs x))) (tx_Inputs x)" for k
    using assms by (intro compressed_input.dec_list) (auto simp: stripped_ok_def len_ok_def)
  have o': "decodes k (do { n \<leftarrow> ReadPrefix; ReadMany n Output_DecodeFrom })
      (WritePrefix (length (tx_Outputs x)) @ concat (map Output_EncodeTo (tx_Outputs x))) (tx_Outputs x)" for k
    using assms by (intro txn_output.dec_list) (auto simp: stripped_ok_def len_ok_def)
  have "decodes 0 (do {
       is \<leftarrow> do { n \<leftarrow> ReadPrefix; ReadMany n compressedInput_DecodeFrom };
       os \<leftarrow> do { n \<leftarrow> ReadPrefix; ReadMany n Output_DecodeFrom };
       f \<leftarrow> Currency_DecodeFrom;
       State_Monad.return \<lparr>tx_Inputs = is, tx_Outputs = os, tx_MinerFee = f\<rparr>
     }) ((WritePrefix (length (tx_Inputs x)) @ concat (map compressedInput_EncodeTo (tx_Inputs x)))
       @ (WritePrefix (length (tx_Outputs x)) @ concat (map Output_EncodeTo (tx_Outputs x)))
       @ Currency_EncodeTo (tx_MinerFee x)) x"
    by (intro decodes_bind [OF i] decodes_bind [OF o'] decodes_last [OF currency.dec_enc_k]) simp_all
  then show ?thesis
    unfolding compressedTransaction_DecodeFrom_def compressedTransaction_EncodeTo_def
    by (intro decodes_bind [OF decodes_ReadUint8]) simp
qed

interpretation compressed_txn: codec compressedTransaction_EncodeTo compressedTransaction_DecodeFrom stripped_ok
  by unfold_locales (rule compressedTransaction_decodes)

lemma compressedTransaction_not_Nil [simp]: "compressedTransaction_EncodeTo t \<noteq> []"
  by (simp add: compressedTransaction_EncodeTo_def Currency_EncodeTo_def)

lemma compressedTransaction_strip: "map compressedTransaction_EncodeTo (strip_proofs txns) = map compressedTransaction_EncodeTo txns"
  by (simp add: strip_proofs_def compressedTransaction_EncodeTo_def comp_def)

text \<open>What a decoder reads it reads in every state that has the bytes.\<close>

lemma decodes_run:
  assumes "decodes k m bs x" "dc_err d = None" "length (dc_buf d) = 64" "dc_R d = bs @ rest" "length bs + k \<le> dc_N d"
  obtains d' where "run_state m d = (x, d')" "dc_err d' = None" "length (dc_buf d') = 64" "dc_R d' = rest"
    "dc_N d' = dc_N d - length bs"
proof -
  obtain b where b: "length b = 64" "run_state m d = (x, d\<lparr>dc_R := rest, dc_N := dc_N d - length bs, dc_buf := b\<rparr>)"
    using assms(1) [unfolded decodes_def, rule_format, OF assms(2-5)] by blast
  show ?thesis by (rule that [OF b(2)]) (simp_all add: assms(2) b(1))
qed

text \<open>The conditions of the wire format: lengths below \<open>2 ^ 64\<close> and the time in whole seconds.\<close>

definition wire_ok :: "block \<Rightarrow> bool" where
  "wire_ok b \<longleftrightarrow> time_ok (bh_Timestamp (b_Header b)) \<and> len_ok (b_Transactions b)
     \<and> (\<forall>txn\<in>set (b_Transactions b). len_ok (tx_Inputs txn) \<and> len_ok (tx_Outputs txn))
     \<and> (\<forall>inp\<in>set (all_inputs (b_Transactions b)). is_ephemeral inp \<longrightarrow> input_proof inp = [])"

lemma stripped_ok_block:
  assumes w: "wire_ok b" and sp: "spends H A (b_Transactions b)" and n: "length A < 2 ^ 63"
  shows "\<forall>txn\<in>set (strip_proofs (b_Transactions b)). stripped_ok txn"
proof
  fix t assume "t \<in> set (strip_proofs (b_Transactions b))"
  then obtain txn where t: "txn \<in> set (b_Transactions b)" "t = txn\<lparr>tx_Inputs := map strip_input (tx_Inputs txn)\<rparr>"
    by (auto simp: strip_proofs_def)
  have "length (input_proof inp) < 64" if "inp \<in> set (tx_Inputs txn)" for inp
  proof (cases "is_ephemeral inp")
    case True
    then show ?thesis using w t(1) that by (auto simp: wire_ok_def)
  next
    case False
    then have "leaf_in H A (OutputLeaf H (in_Parent inp) False)" using sp t(1) that by (auto simp: spends_def)
    then have "length (input_proof inp) = theight (length A) (unat (se_LeafIndex (oe_SE (in_Parent inp))))"
      "unat (se_LeafIndex (oe_SE (in_Parent inp))) < length A"
      by (simp_all add: leaf_in_def valid_proof_def proof_of_def)
    then show ?thesis using theight_less [of _ "length A" 63] n by fastforce
  qed
  then show "stripped_ok t"
    using w t by (auto simp: stripped_ok_def wire_ok_def len_ok_def stripped_input_ok_def strip_input_def)
qed

lemma CompressedBlock_decodes:
  assumes w: "wire_ok b" and sp: "spends H A (b_Transactions b)" and n: "length A < 2 ^ 63"
  shows "\<exists>bs. CompressedBlock_EncodeTo H b = Some bs
    \<and> (\<forall>d rest. dc_err d = None \<longrightarrow> length (dc_buf d) = 64 \<longrightarrow> dc_R d = bs @ rest \<longrightarrow> length bs \<le> dc_N d \<longrightarrow>
        (\<exists>d'. CompressedBlock_DecodeFrom H d = Some (b, d')
          \<and> dc_err d' = None \<and> length (dc_buf d') = 64 \<and> dc_R d' = rest \<and> dc_N d' = dc_N d - length bs))"
proof -
  let ?txns = "b_Transactions b"
  have "\<forall>inp\<in>set (all_inputs ?txns). is_ephemeral inp \<longrightarrow> input_proof inp = replicate (length (input_proof inp)) 0"
    using w by (simp add: wire_ok_def)
  from multiproof_restores [OF sp n this] obtain mp where pr: "ComputeMultiproof H ?txns = Some mp"
    "MultiproofSize H (strip_proofs ?txns) = Some (length mp)"
    "ExpandMultiproof H (strip_proofs ?txns) mp = Some ?txns" by blast
  let ?h = "BlockHeader_EncodeTo (b_Header b)" and ?p = "concat (map Hash256_EncodeTo mp)"
  let ?t = "WritePrefix (length (strip_proofs ?txns)) @ concat (map compressedTransaction_EncodeTo (strip_proofs ?txns))"
  let ?bs = "WriteUint8 1 @ ?h @ ?t @ ?p"
  have enc: "CompressedBlock_EncodeTo H b = Some ?bs"
    by (simp add: CompressedBlock_EncodeTo_def pr(1) compressedTransaction_strip) (simp add: strip_proofs_def)
  have t: "decodes k (do { m \<leftarrow> ReadPrefix; ReadMany m compressedTransaction_DecodeFrom }) ?t (strip_proofs ?txns)" for k
    using stripped_ok_block [OF assms] w
    by (intro compressed_txn.dec_list) (auto simp: wire_ok_def len_ok_def strip_proofs_def)
  have "\<exists>d'. CompressedBlock_DecodeFrom H d = Some (b, d')
        \<and> dc_err d' = None \<and> length (dc_buf d') = 64 \<and> dc_R d' = rest \<and> dc_N d' = dc_N d - length ?bs"
    if d: "dc_err d = None" "length (dc_buf d) = 64" "dc_R d = ?bs @ rest" "length ?bs \<le> dc_N d" for d rest
  proof -
    have lim': "length (WriteUint8 1) + length ?h + length ?t + length ?p \<le> dc_N d" using d(4) by simp
    have s: "dc_err d = None" "length (dc_buf d) = 64" "dc_R d = WriteUint8 1 @ (?h @ ?t @ ?p @ rest)"
      using d by simp_all
    have "length (WriteUint8 1) + 0 \<le> dc_N d" using lim' by linarith
    then obtain d1 where d1: "run_state ReadUint8 d = (1, d1)" "dc_err d1 = None" "length (dc_buf d1) = 64"
      "dc_R d1 = ?h @ (?t @ ?p @ rest)" "dc_N d1 = dc_N d - length (WriteUint8 1)"
      by (rule decodes_run [OF decodes_ReadUint8 s(1-3)])
    have l1: "length ?h + 0 \<le> dc_N d1" using lim' d1(5) by linarith
    have c1: "decodes 0 BlockHeader_DecodeFrom ?h (b_Header b)"
      using w by (intro block_header.dec_enc_k) (simp add: wire_ok_def)
    obtain d2 where d2: "run_state BlockHeader_DecodeFrom d1 = (b_Header b, d2)" "dc_err d2 = None"
      "length (dc_buf d2) = 64" "dc_R d2 = ?t @ (?p @ rest)" "dc_N d2 = dc_N d1 - length ?h"
      by (rule decodes_run [OF c1 d1(2-4) l1])
    have "length ?t + 0 \<le> dc_N d2" using lim' d1(5) d2(5) by linarith
    then obtain d3 where d3: "run_state (do { m \<leftarrow> ReadPrefix; ReadMany m compressedTransaction_DecodeFrom }) d2 = (strip_proofs ?txns, d3)"
      "dc_err d3 = None" "length (dc_buf d3) = 64" "dc_R d3 = ?p @ rest" "dc_N d3 = dc_N d2 - length ?t"
      by (rule decodes_run [OF t d2(2-4)])
    have l3: "length ?p + 0 \<le> dc_N d3" using lim' d1(5) d2(5) d3(5) by linarith
    have c3: "decodes 0 (ReadMany (length mp) Hash256_DecodeFrom) ?p mp" by (intro hash256.dec_many) simp
    obtain d4 where d4: "run_state (ReadMany (length mp) Hash256_DecodeFrom) d3 = (mp, d4)"
      "dc_err d4 = None" "length (dc_buf d4) = 64" "dc_R d4 = rest" "dc_N d4 = dc_N d3 - length ?p"
      by (rule decodes_run [OF c3 d3(2-4) l3])
    have "CompressedBlock_DecodeFrom H d = Some (\<lparr>b_Header = b_Header b, b_Transactions = ?txns\<rparr>, d4)"
      unfolding CompressedBlock_DecodeFrom_def Let_def d1(1) prod.case d2(1) d3(1) pr(2) bind.bind_lunit d4(1) pr(3)
      using d3(2) by simp
    moreover have "dc_N d4 = dc_N d - length ?bs" using d4(5) d3(5) d2(5) d1(5) by simp
    ultimately show ?thesis using d4(2-4) by simp
  qed
  then show ?thesis using enc by blast
qed

section \<open>Blocks from anyone\<close>

text \<open>\<open>yields P m\<close>: what \<open>m\<close> reads satisfies \<open>P\<close>, unless the decoder has an error.\<close>

definition yields :: "('a \<Rightarrow> bool) \<Rightarrow> 'a dec \<Rightarrow> bool" where
  "yields P m \<longleftrightarrow> (\<forall>d. dc_err (snd (run_state m d)) = None \<longrightarrow> P (fst (run_state m d)))"

lemma yields_return: "P x \<Longrightarrow> yields P (State_Monad.return x)"
  by (simp add: yields_def)

lemma yields_bind:
  assumes m: "yields Q m" and f: "\<And>x. Q x \<Longrightarrow> yields P (f x)" and t: "\<And>x. tame (f x)"
  shows "yields P (State_Monad.bind m f)"
  unfolding yields_def
proof (intro allI impI)
  fix d
  obtain x d1 where r: "run_state m d = (x, d1)" by fastforce
  assume "dc_err (snd (run_state (State_Monad.bind m f) d)) = None"
  then have e: "dc_err (snd (run_state (f x) d1)) = None" by (simp add: r)
  then have "dc_err d1 = None" using t [of x] unfolding tame_def by metis
  then have "Q x" using m r by (metis fst_conv snd_conv yields_def)
  then show "P (fst (run_state (State_Monad.bind m f) d))" using f e by (simp add: r yields_def)
qed

lemma yields_any: "yields (\<lambda>_. True) m"
  by (simp add: yields_def)

lemma yields_ReadMany: "yields P m \<Longrightarrow> tame m \<Longrightarrow> yields (list_all P) (ReadMany n m)"
  by (induction n) (auto intro!: yields_bind yields_return tame)

lemmas compressed_defs = compressedTransaction_DecodeFrom_def compressedInput_DecodeFrom_def
  compressedOutputElement_DecodeFrom_def compressedStateElement_DecodeFrom_def reader_defs

lemma tame_compressed: "tame compressedTransaction_DecodeFrom" "tame compressedInput_DecodeFrom"
  "tame compressedOutputElement_DecodeFrom" "tame compressedStateElement_DecodeFrom"
  unfolding compressed_defs by (intro tame)+

lemma yields_StateElement: "yields (\<lambda>se. length (se_MerkleProof se) < 64) compressedStateElement_DecodeFrom"
proof -
  have t: "tame ElementID_DecodeFrom" "tame ReadUint64" "tame ReadPrefix" unfolding reader_defs by (intro tame)+
  have "yields (\<lambda>se. length (se_MerkleProof se) < 64) (do {
      (if 64 \<le> n then Decoder_SetErr ErrProofLen else State_Monad.return ());
      State_Monad.return \<lparr>se_ID = i, se_LeafIndex = l, se_MerkleProof = replicate n 0\<rparr>
    })" for n i l
    by (cases "64 \<le> n") (auto simp: yields_def Decoder_SetErr_def)
  then show ?thesis
    unfolding compressedStateElement_DecodeFrom_def
    by - (rule yields_bind [OF yields_any], rule yields_bind [OF yields_any], rule yields_bind [OF yields_any], assumption,
      (intro tame t)+)
qed

abbreviation short_proof :: "txn_input \<Rightarrow> bool" where
  "short_proof inp \<equiv> length (input_proof inp) < 64"

lemma yields_Transaction: "yields (\<lambda>txn. list_all short_proof (tx_Inputs txn)) compressedTransaction_DecodeFrom"
proof -
  have t: "tame Output_DecodeFrom" "tame PublicKey_DecodeFrom" "tame Signature_DecodeFrom" "tame Currency_DecodeFrom"
    "tame ReadUint64" "tame ReadPrefix" unfolding reader_defs by (intro tame)+
  have "yields (\<lambda>oe. length (se_MerkleProof (oe_SE oe)) < 64) compressedOutputElement_DecodeFrom"
    unfolding compressedOutputElement_DecodeFrom_def
    by (intro yields_bind [OF yields_StateElement] yields_bind [OF yields_any] tame t) (auto intro: yields_return)
  then have i: "yields short_proof compressedInput_DecodeFrom"
    unfolding compressedInput_DecodeFrom_def
    by (rule yields_bind) (auto intro!: yields_bind [OF yields_any] yields_return tame t)
  have ins: "yields (list_all short_proof) (do { n \<leftarrow> ReadPrefix; ReadMany n compressedInput_DecodeFrom })"
    by (intro yields_bind [OF yields_any] yields_ReadMany i tame tame_compressed)
  have "yields (\<lambda>txn. list_all short_proof (tx_Inputs txn)) (do {
       is \<leftarrow> do { n \<leftarrow> ReadPrefix; ReadMany n compressedInput_DecodeFrom };
       os \<leftarrow> do { n \<leftarrow> ReadPrefix; ReadMany n Output_DecodeFrom };
       f \<leftarrow> Currency_DecodeFrom;
       State_Monad.return \<lparr>tx_Inputs = is, tx_Outputs = os, tx_MinerFee = f\<rparr>
     })"
    by (rule yields_bind [OF ins]) (auto intro!: yields_bind [OF yields_any] yields_return tame t)
  then show ?thesis
    unfolding compressedTransaction_DecodeFrom_def
    by (intro yields_bind [OF yields_any] tame tame_compressed t)
      (auto intro!: yields_bind [OF yields_any] yields_return tame t tame_compressed simp: zero_transaction_def)
qed

section \<open>Properties\<close>

lemma valid_block_spends:
  assumes "acc_repr H A (cs_Elements s)" "ValidateBlock H verify s b = Some (Inr ())" "inj_on H (set (block_preimages H A b))"
  shows "spends H A (b_Transactions b)"
  using block_ok_if_valid [OF assms]
  by (auto simp: block_ok_def spends_def spent_parents_def block_inputs_def comp_def)

text \<open>C28. A valid block survives the network: in its compressed form it is sent without Merkle proofs, but for the
  hashes of one multiproof, and the receiver gets back the same block with the same proofs, reads exactly the bytes
  that were sent, and has no error, if its limit allows for them.\<close>

theorem compressed_block_roundtrip:
  assumes "acc_repr H A (cs_Elements s)" "ValidateBlock H verify s b = Some (Inr ())"
    "inj_on H (set (block_preimages H A b))" "length A < 2 ^ 63" "wire_ok b"
  shows "\<exists>bs. CompressedBlock_EncodeTo H b = Some bs
    \<and> (\<forall>rest limit. length bs \<le> limit \<longrightarrow> (\<exists>d. CompressedBlock_DecodeFrom H (NewDecoder (bs @ rest) limit) = Some (b, d)
        \<and> dc_err d = None \<and> dc_R d = rest \<and> dc_N d = limit - length bs))"
proof -
  obtain bs where bs: "CompressedBlock_EncodeTo H b = Some bs"
    "\<And>d rest. dc_err d = None \<Longrightarrow> length (dc_buf d) = 64 \<Longrightarrow> dc_R d = bs @ rest \<Longrightarrow> length bs \<le> dc_N d \<Longrightarrow>
        \<exists>d'. CompressedBlock_DecodeFrom H d = Some (b, d')
          \<and> dc_err d' = None \<and> length (dc_buf d') = 64 \<and> dc_R d' = rest \<and> dc_N d' = dc_N d - length bs"
    using CompressedBlock_decodes [OF assms(5) valid_block_spends [OF assms(1-3)] assms(4)] by blast
  have "\<exists>d. CompressedBlock_DecodeFrom H (NewDecoder (bs @ rest) limit) = Some (b, d)
        \<and> dc_err d = None \<and> dc_R d = rest \<and> dc_N d = limit - length bs" if "length bs \<le> limit" for rest limit
    using bs(2) [of "NewDecoder (bs @ rest) limit" rest] that by (auto simp: NewDecoder_def)
  then show ?thesis using bs(1) by blast
qed

theorem compressed_block_roundtrip_witness:
  "\<exists>bs d. CompressedBlock_EncodeTo sample_hash sample_block = Some bs
    \<and> CompressedBlock_DecodeFrom sample_hash (NewDecoder (bs @ [7, 7]) (length bs)) = Some (sample_block, d) \<and> dc_R d = [7, 7]"
proof -
  have w: "wire_ok sample_block"
    by (simp add: wire_ok_def sample_block_def sample_spend_def len_ok_def is_ephemeral_def sample_simps
        time_ok_def Time_Unix_def time_Unix_def unix_to_internal_def)
  from compressed_block_roundtrip [OF sample_state_repr sample_block_valid sample_block_inj _ w]
  obtain bs where bs: "CompressedBlock_EncodeTo sample_hash sample_block = Some bs"
    "\<forall>rest limit. length bs \<le> limit \<longrightarrow> (\<exists>d. CompressedBlock_DecodeFrom sample_hash (NewDecoder (bs @ rest) limit) = Some (sample_block, d)
        \<and> dc_err d = None \<and> dc_R d = rest \<and> dc_N d = limit - length bs)" by (auto simp: sample_ledger_def)
  from bs(2) [rule_format, of "length bs" "[7, 7]"] show ?thesis using bs(1) by auto
qed

lemma CompressedBlock_total: "\<exists>b d'. CompressedBlock_DecodeFrom H d = Some (b, d') \<and> consumed d d'"
proof -
  obtain v d1 where d1: "run_state ReadUint8 d = (v, d1)" by fastforce
  obtain h d2 where d2: "run_state BlockHeader_DecodeFrom d1 = (h, d2)" by fastforce
  obtain txns d3 where d3: "run_state (do { n \<leftarrow> ReadPrefix; ReadMany n compressedTransaction_DecodeFrom }) d2 = (txns, d3)" by fastforce
  have t: "tame ReadUint8" "tame BlockHeader_DecodeFrom" "tame (do { n \<leftarrow> ReadPrefix; ReadMany n compressedTransaction_DecodeFrom })"
    "tame (ReadMany m Hash256_DecodeFrom)" for m
    unfolding BlockHeader_DecodeFrom_def compressed_defs by (intro tame)+
  have le: "consumed d d1" "consumed d d3"
    by (rule tame_consumed [OF t(1) d1]
        consumed_trans [OF consumed_trans [OF tame_consumed [OF t(1) d1] tame_consumed [OF t(2) d2]] tame_consumed [OF t(3) d3]])+
  show ?thesis
  proof (cases "v = 1 \<and> dc_err d3 = None")
    case False
    have "consumed d1 (snd (run_state (Decoder_SetErr (ErrVersion v)) d1))"
      by (simp add: Decoder_SetErr_def consumed_def)
    from consumed_trans [OF le(1) this] show ?thesis using False d1 d2 d3 le(2)
      by (auto simp: CompressedBlock_DecodeFrom_def Let_def)
  next
    case True
    have "yields (list_all (\<lambda>txn. list_all short_proof (tx_Inputs txn))) (do { n \<leftarrow> ReadPrefix; ReadMany n compressedTransaction_DecodeFrom })"
      by (intro yields_bind [OF yields_any] yields_ReadMany yields_Transaction tame tame_compressed)
    then have "\<forall>inp\<in>set (all_inputs txns). short_proof inp"
      using True d3 by (auto simp: yields_def list_all_iff) (metis fst_conv snd_conv)
    from expand_never_panics [OF this] obtain m where m: "MultiproofSize H txns = Some m"
      "\<And>mp. length mp = m \<Longrightarrow> ExpandMultiproof H txns mp \<noteq> None" by blast
    obtain mp d4 where d4: "run_state (ReadMany m Hash256_DecodeFrom) d3 = (mp, d4)" by fastforce
    have "length mp = m" using length_ReadMany [of m Hash256_DecodeFrom d3] d4 by simp
    from m(2) [OF this] obtain txns' where "ExpandMultiproof H txns mp = Some txns'" by blast
    moreover have "consumed d d4" by (rule consumed_trans [OF le(2) tame_consumed [OF t(4) d4]])
    ultimately show ?thesis using True d1 d2 d3 d4 m(1)
      by (simp add: CompressedBlock_DecodeFrom_def Let_def)
  qed
qed

text \<open>C29. A block from anyone is read without panic: whatever bytes a peer sends, with whatever leaf numbers and proof
  lengths, decoding a compressed block ends, and the decoder has an error or every proof has at most 63 hashes.\<close>

theorem compressed_block_never_panics:
  "\<exists>b d'. CompressedBlock_DecodeFrom H d = Some (b, d') \<and> dc_N d' \<le> dc_N d"
  using CompressedBlock_total [of H d] by (auto simp: consumed_def)

end
