(* ===== verification/P2P_Messages.thy ===== *)
theory P2P_Messages
  imports Compressed_Block
begin

text \<open>
  p2p/messages.go: the messages of the protocol, their wire form, and the framing of a message on a connection. A
  connection is what is left to be read of it; \<open>None\<close> is a panic. The lemmas: every message that fits its limit is
  read back from the connection it was written to, no bytes make the reader of a body panic, and how much a
  truncated message makes it build.
\<close>

section \<open>Messages\<close>

datatype message =
  MsgGetHeaders (mh_History: "chain_index list")
| MsgHeaders (mh_Headers: "block_header list")
| MsgGetBlocks (mg_Blocks: "chain_index list")
| MsgBlocks (mb_Blocks: "block list")
| MsgRelayBlock (mr_Block: block)
| MsgRelayTransactionSet (mr_Transactions: "transaction list")
| MsgGetCheckpoint (mg_Index: chain_index)
| MsgCheckpoint (mc_Block: block) (mc_ParentState: chain_state)

record tagged_message =
  tm_id :: u64
  tm_m :: message

fun msgType :: "message \<Rightarrow> byte" where
  "msgType (MsgGetHeaders h) = 1"
| "msgType (MsgHeaders hs) = 2"
| "msgType (MsgGetBlocks is) = 3"
| "msgType (MsgBlocks bs) = 4"
| "msgType (MsgRelayBlock b) = 5"
| "msgType (MsgRelayTransactionSet txns) = 6"
| "msgType (MsgGetCheckpoint i) = 7"
| "msgType (MsgCheckpoint b s) = 8"

fun isRelayMessage :: "message \<Rightarrow> bool" where
  "isRelayMessage (MsgRelayBlock b) = True"
| "isRelayMessage (MsgRelayTransactionSet txns) = True"
| "isRelayMessage _ = False"

definition zero_state :: chain_state where
  "zero_state =
     \<lparr>cs_Index = \<lparr>ci_Height = 0, ci_ID = 0\<rparr>,
      cs_Elements = \<lparr>acc_Trees = replicate 64 0, acc_NumLeaves = 0\<rparr>,
      cs_History = \<lparr>acc_Trees = replicate 64 0, acc_NumLeaves = 0\<rparr>,
      cs_TotalWork = \<lparr>NumHashes = 0\<rparr>, cs_Difficulty = \<lparr>NumHashes = 0\<rparr>,
      cs_LastAdjust = zero_time, cs_PrevTimestamps = replicate 11 zero_time\<rparr>"

text \<open>A new message has the zero values of its fields; \<open>None\<close> is the nil message.\<close>

definition newMsg :: "byte \<Rightarrow> message option" where
  "newMsg typ =
     (if typ = 1 then Some (MsgGetHeaders [])
      else if typ = 2 then Some (MsgHeaders [])
      else if typ = 3 then Some (MsgGetBlocks [])
      else if typ = 4 then Some (MsgBlocks [])
      else if typ = 5 then Some (MsgRelayBlock zero_block)
      else if typ = 6 then Some (MsgRelayTransactionSet [])
      else if typ = 7 then Some (MsgGetCheckpoint \<lparr>ci_Height = 0, ci_ID = 0\<rparr>)
      else if typ = 8 then Some (MsgCheckpoint zero_block zero_state)
      else None)"

fun MaxLen :: "message \<Rightarrow> nat" where
  "MaxLen (MsgGetHeaders h) = 1000000"
| "MaxLen (MsgHeaders hs) = 1000000"
| "MaxLen (MsgGetBlocks is) = 1000000"
| "MaxLen (MsgBlocks bs) = 100000000"
| "MaxLen (MsgRelayBlock b) = 10000000"
| "MaxLen (MsgRelayTransactionSet txns) = 2000000"
| "MaxLen (MsgGetCheckpoint i) = 1000000"
| "MaxLen (MsgCheckpoint b s) = 10000000"

section \<open>The body of a message\<close>

fun write_blocks :: "hashfn \<Rightarrow> block list \<Rightarrow> byte list option" where
  "write_blocks H [] = Some []"
| "write_blocks H (b # bs) = do {
     xs \<leftarrow> CompressedBlock_EncodeTo H b;
     ys \<leftarrow> write_blocks H bs;
     Some (xs @ ys)
   }"

fun message_EncodeTo :: "hashfn \<Rightarrow> message \<Rightarrow> byte list option" where
  "message_EncodeTo H (MsgGetHeaders h) = Some (WritePrefix (length h) @ concat (map ChainIndex_EncodeTo h))"
| "message_EncodeTo H (MsgHeaders hs) = Some (WritePrefix (length hs) @ concat (map BlockHeader_EncodeTo hs))"
| "message_EncodeTo H (MsgGetBlocks is) = Some (WritePrefix (length is) @ concat (map ChainIndex_EncodeTo is))"
| "message_EncodeTo H (MsgBlocks bs) = do {
     xs \<leftarrow> write_blocks H bs;
     Some (WritePrefix (length bs) @ xs)
   }"
| "message_EncodeTo H (MsgRelayBlock b) = CompressedBlock_EncodeTo H b"
| "message_EncodeTo H (MsgRelayTransactionSet txns) =
     Some (WritePrefix (length txns) @ concat (map Transaction_EncodeTo txns))"
| "message_EncodeTo H (MsgGetCheckpoint i) = Some (ChainIndex_EncodeTo i)"
| "message_EncodeTo H (MsgCheckpoint b s) = do {
     xs \<leftarrow> CompressedBlock_EncodeTo H b;
     Some (xs @ State_EncodeTo s)
   }"

text \<open>Blocks are read with a decoder that can panic; every other reader is lifted to it.\<close>

definition lift_dec :: "'a dec \<Rightarrow> decoder \<Rightarrow> ('a \<times> decoder) option" where
  "lift_dec m d = Some (run_state m d)"

fun read_blocks :: "hashfn \<Rightarrow> nat \<Rightarrow> decoder \<Rightarrow> (block list \<times> decoder) option" where
  "read_blocks H 0 d = Some ([], d)"
| "read_blocks H (Suc n) d = do {
     (b, d) \<leftarrow> CompressedBlock_DecodeFrom H d;
     (bs, d) \<leftarrow> read_blocks H n d;
     Some (b # bs, d)
   }"

fun message_DecodeFrom :: "hashfn \<Rightarrow> message \<Rightarrow> decoder \<Rightarrow> (message \<times> decoder) option" where
  "message_DecodeFrom H (MsgGetHeaders _) d = do {
     (h, d) \<leftarrow> lift_dec (do { n \<leftarrow> ReadPrefix; ReadMany n ChainIndex_DecodeFrom }) d;
     Some (MsgGetHeaders h, d)
   }"
| "message_DecodeFrom H (MsgHeaders _) d = do {
     (hs, d) \<leftarrow> lift_dec (do { n \<leftarrow> ReadPrefix; ReadMany n BlockHeader_DecodeFrom }) d;
     Some (MsgHeaders hs, d)
   }"
| "message_DecodeFrom H (MsgGetBlocks _) d = do {
     (is, d) \<leftarrow> lift_dec (do { n \<leftarrow> ReadPrefix; ReadMany n ChainIndex_DecodeFrom }) d;
     Some (MsgGetBlocks is, d)
   }"
| "message_DecodeFrom H (MsgBlocks _) d = do {
     (n, d) \<leftarrow> lift_dec ReadPrefix d;
     (bs, d) \<leftarrow> read_blocks H n d;
     Some (MsgBlocks bs, d)
   }"
| "message_DecodeFrom H (MsgRelayBlock _) d = do {
     (b, d) \<leftarrow> CompressedBlock_DecodeFrom H d;
     Some (MsgRelayBlock b, d)
   }"
| "message_DecodeFrom H (MsgRelayTransactionSet _) d = do {
     (txns, d) \<leftarrow> lift_dec (do { n \<leftarrow> ReadPrefix; ReadMany n Transaction_DecodeFrom }) d;
     Some (MsgRelayTransactionSet txns, d)
   }"
| "message_DecodeFrom H (MsgGetCheckpoint _) d = do {
     (i, d) \<leftarrow> lift_dec ChainIndex_DecodeFrom d;
     Some (MsgGetCheckpoint i, d)
   }"
| "message_DecodeFrom H (MsgCheckpoint _ _) d = do {
     (b, d) \<leftarrow> CompressedBlock_DecodeFrom H d;
     (s, d) \<leftarrow> lift_dec State_DecodeFrom d;
     Some (MsgCheckpoint b s, d)
   }"

section \<open>Framing\<close>

datatype read_error = ErrMessageType byte | ErrDecode dec_error

text \<open>The type, the ID and what is left of the connection.\<close>

definition readMessageHeader :: "byte list \<Rightarrow> (read_error + byte \<times> u64) \<times> byte list" where
  "readMessageHeader r =
     (let (typ, d) = run_state ReadUint8 (NewDecoder r 9) in
      if 8 < typ then (Inl (ErrMessageType typ), dc_R d)
      else
        let (i, d) = run_state ReadUint64 d
        in (case dc_err d of Some e \<Rightarrow> Inl (ErrDecode e) | None \<Rightarrow> Inr (typ, i), dc_R d))"

text \<open>The message is read into a receiver; reading into the nil message panics.\<close>

definition readMessage :: "hashfn \<Rightarrow> byte list \<Rightarrow> message option \<Rightarrow> ((read_error + message) \<times> byte list) option" where
  "readMessage H r recv = do {
     m \<leftarrow> recv;
     (m, d) \<leftarrow> message_DecodeFrom H m (NewDecoder r (MaxLen m));
     Some (case dc_err d of Some e \<Rightarrow> Inl (ErrDecode e) | None \<Rightarrow> Inr m, dc_R d)
   }"

definition writeMessage :: "hashfn \<Rightarrow> tagged_message \<Rightarrow> byte list option" where
  "writeMessage H tm = do {
     body \<leftarrow> message_EncodeTo H (tm_m tm);
     Some (WriteUint8 (msgType (tm_m tm)) @ WriteUint64 (tm_id tm) @ body)
   }"

section \<open>Messages are read back\<close>

text \<open>\<open>pdecodes m bs x\<close>: as \<open>decodes\<close>, for a reader that can panic.\<close>

definition pdecodes :: "(decoder \<Rightarrow> ('a \<times> decoder) option) \<Rightarrow> byte list \<Rightarrow> 'a \<Rightarrow> bool" where
  "pdecodes m bs x \<longleftrightarrow> (\<forall>d rest. dc_err d = None \<longrightarrow> length (dc_buf d) = 64 \<longrightarrow> dc_R d = bs @ rest \<longrightarrow> length bs \<le> dc_N d \<longrightarrow>
     (\<exists>d'. m d = Some (x, d') \<and> dc_err d' = None \<and> length (dc_buf d') = 64 \<and> dc_R d' = rest \<and> dc_N d' = dc_N d - length bs))"

lemma pdecodesD:
  assumes "pdecodes m bs x" "dc_err d = None" "length (dc_buf d) = 64" "dc_R d = bs @ rest" "length bs \<le> dc_N d"
  obtains d' where "m d = Some (x, d')" "dc_err d' = None" "length (dc_buf d') = 64" "dc_R d' = rest"
    "dc_N d' = dc_N d - length bs"
  using assms unfolding pdecodes_def by blast

lemma pdecodes_lift: "decodes 0 m bs x \<Longrightarrow> pdecodes (lift_dec m) bs x"
  unfolding pdecodes_def lift_dec_def by (metis decodes_run add.right_neutral)

lemma pdecodes_return: "pdecodes (\<lambda>d. Some (x, d)) [] x"
  by (simp add: pdecodes_def)

lemma pdecodes_bind:
  assumes "pdecodes m bs x" "pdecodes (f x) cs y"
  shows "pdecodes (\<lambda>d. do { (x, d) \<leftarrow> m d; f x d }) (bs @ cs) y"
  unfolding pdecodes_def
proof (intro allI impI)
  fix d :: decoder and rest
  assume d: "dc_err d = None" "length (dc_buf d) = 64" "dc_R d = (bs @ cs) @ rest" "length (bs @ cs) \<le> dc_N d"
  then obtain d1 where 1: "m d = Some (x, d1)" "dc_err d1 = None" "length (dc_buf d1) = 64" "dc_R d1 = cs @ rest"
    "dc_N d1 = dc_N d - length bs"
    using pdecodesD [OF assms(1), of d "cs @ rest"] by auto
  have "length cs \<le> dc_N d1" using d(4) 1(5) by simp
  then obtain d2 where 2: "f x d1 = Some (y, d2)" "dc_err d2 = None" "length (dc_buf d2) = 64" "dc_R d2 = rest"
    "dc_N d2 = dc_N d1 - length cs"
    by (rule pdecodesD [OF assms(2) 1(2-4)])
  then show "\<exists>d'. do { (x, d) \<leftarrow> m d; f x d } = Some (y, d') \<and> dc_err d' = None \<and> length (dc_buf d') = 64
      \<and> dc_R d' = rest \<and> dc_N d' = dc_N d - length (bs @ cs)"
    using 1 by simp
qed

lemma pdecodes_prefix:
  assumes "decodes (length cs) m bs x" "pdecodes (f x) cs y"
  shows "pdecodes (\<lambda>d. do { (x, d) \<leftarrow> lift_dec m d; f x d }) (bs @ cs) y"
  unfolding pdecodes_def
proof (intro allI impI)
  fix d :: decoder and rest
  assume d: "dc_err d = None" "length (dc_buf d) = 64" "dc_R d = (bs @ cs) @ rest" "length (bs @ cs) \<le> dc_N d"
  have s: "dc_R d = bs @ (cs @ rest)" "length bs + length cs \<le> dc_N d" using d(3,4) by simp_all
  obtain d1 where 1: "run_state m d = (x, d1)" "dc_err d1 = None" "length (dc_buf d1) = 64" "dc_R d1 = cs @ rest"
    "dc_N d1 = dc_N d - length bs"
    by (rule decodes_run [OF assms(1) d(1,2) s])
  have "length cs \<le> dc_N d1" using s(2) 1(5) by simp
  then obtain d2 where 2: "f x d1 = Some (y, d2)" "dc_err d2 = None" "length (dc_buf d2) = 64" "dc_R d2 = rest"
    "dc_N d2 = dc_N d1 - length cs"
    by (rule pdecodesD [OF assms(2) 1(2-4)])
  then show "\<exists>d'. do { (x, d) \<leftarrow> lift_dec m d; f x d } = Some (y, d') \<and> dc_err d' = None \<and> length (dc_buf d') = 64
      \<and> dc_R d' = rest \<and> dc_N d' = dc_N d - length (bs @ cs)"
    using 1 by (simp add: lift_dec_def)
qed

lemma pdecodes_map: "pdecodes m bs x \<Longrightarrow> pdecodes (\<lambda>d. do { (x, d) \<leftarrow> m d; Some (f x, d) }) bs (f x)"
  using pdecodes_bind [of m bs x "\<lambda>x d. Some (f x, d)" "[]" "f x"] pdecodes_return [of "f x"] by simp

text \<open>The conditions: lengths fit, and the inputs of blocks are in the accumulator of some ledger, as those of
  valid blocks are.\<close>

definition sendable_block :: "hashfn \<Rightarrow> block \<Rightarrow> bool" where
  "sendable_block H b \<longleftrightarrow> wire_ok b \<and> (\<exists>A. spends H A (b_Transactions b) \<and> length A < 2 ^ 63)"

fun sendable :: "hashfn \<Rightarrow> message \<Rightarrow> bool" where
  "sendable H (MsgGetHeaders h) \<longleftrightarrow> len_ok h"
| "sendable H (MsgHeaders hs) \<longleftrightarrow> len_ok hs \<and> (\<forall>h\<in>set hs. time_ok (bh_Timestamp h))"
| "sendable H (MsgGetBlocks is) \<longleftrightarrow> len_ok is"
| "sendable H (MsgBlocks bs) \<longleftrightarrow> len_ok bs \<and> (\<forall>b\<in>set bs. sendable_block H b)"
| "sendable H (MsgRelayBlock b) \<longleftrightarrow> sendable_block H b"
| "sendable H (MsgRelayTransactionSet txns) \<longleftrightarrow> len_ok txns \<and> (\<forall>txn\<in>set txns. txn_ok txn)"
| "sendable H (MsgGetCheckpoint i) \<longleftrightarrow> True"
| "sendable H (MsgCheckpoint b s) \<longleftrightarrow> sendable_block H b \<and> state_ok s"

lemma sendable_block_decodes:
  assumes "sendable_block H b"
  obtains bs where "CompressedBlock_EncodeTo H b = Some bs" "pdecodes (CompressedBlock_DecodeFrom H) bs b" "bs \<noteq> []"
proof -
  obtain A where A: "wire_ok b" "spends H A (b_Transactions b)" "length A < 2 ^ 63"
    using assms by (auto simp: sendable_block_def)
  obtain bs where "CompressedBlock_EncodeTo H b = Some bs" "pdecodes (CompressedBlock_DecodeFrom H) bs b"
    using CompressedBlock_decodes [OF A] unfolding pdecodes_def by blast
  moreover have "bs \<noteq> []" if "CompressedBlock_EncodeTo H b = Some bs" for bs
    using that by (auto simp: CompressedBlock_EncodeTo_def WriteUint8_def bind_eq_Some_conv)
  ultimately show ?thesis using that by blast
qed

lemma write_blocks_decodes:
  assumes "\<forall>b\<in>set bs. sendable_block H b"
  shows "\<exists>xs. write_blocks H bs = Some xs \<and> pdecodes (read_blocks H (length bs)) xs bs \<and> length bs \<le> length xs"
  using assms
proof (induction bs)
  case Nil
  have "read_blocks H 0 = (\<lambda>d. Some ([], d))" by (rule ext) simp
  then show ?case using pdecodes_return [of "[] :: block list"] by simp
next
  case (Cons b bs)
  obtain xs where xs: "CompressedBlock_EncodeTo H b = Some xs" "pdecodes (CompressedBlock_DecodeFrom H) xs b" "xs \<noteq> []"
    using Cons.prems by (auto elim: sendable_block_decodes [of H b])
  obtain ys where ys: "write_blocks H bs = Some ys" "pdecodes (read_blocks H (length bs)) ys bs" "length bs \<le> length ys"
    using Cons by auto
  have "pdecodes (\<lambda>d. do { (b, d) \<leftarrow> CompressedBlock_DecodeFrom H d;
      do { (bs, d) \<leftarrow> read_blocks H (length bs) d; Some (b # bs, d) } }) (xs @ ys) (b # bs)"
    by (rule pdecodes_bind [OF xs(2) pdecodes_map [OF ys(2)]])
  moreover have "read_blocks H (length (b # bs)) = (\<lambda>d. do { (b, d) \<leftarrow> CompressedBlock_DecodeFrom H d;
      do { (bs, d) \<leftarrow> read_blocks H (length bs) d; Some (b # bs, d) } })" by (rule ext) simp
  ultimately have "pdecodes (read_blocks H (length (b # bs))) (xs @ ys) (b # bs)" by simp
  moreover have "length (b # bs) \<le> length (xs @ ys)" using xs(3) ys(3) by (cases xs) auto
  ultimately show ?case using xs(1) ys(1) by (simp del: read_blocks.simps)
qed

lemma list_codec:
  assumes "codec enc dec P" "len_ok xs" "\<forall>x\<in>set xs. P x" "\<And>x. enc x \<noteq> []"
  shows "pdecodes (lift_dec (do { n \<leftarrow> ReadPrefix; ReadMany n dec })) (WritePrefix (length xs) @ concat (map enc xs)) xs"
  using assms by (intro pdecodes_lift codec.dec_list [OF assms(1)]) (auto simp: len_ok_def)

lemma not_Nil [simp]: "ChainIndex_EncodeTo i \<noteq> []" "BlockHeader_EncodeTo h \<noteq> []" "Transaction_EncodeTo t \<noteq> []"
  by (simp_all add: ChainIndex_EncodeTo_def BlockHeader_EncodeTo_def Transaction_EncodeTo_def WriteUint8_def)

text \<open>The readers as functions.\<close>

lemma message_readers:
  "message_DecodeFrom H (MsgGetHeaders x1) = (\<lambda>d. do { (h, d) \<leftarrow> lift_dec (do { n \<leftarrow> ReadPrefix; ReadMany n ChainIndex_DecodeFrom }) d; Some (MsgGetHeaders h, d) })"
  "message_DecodeFrom H (MsgHeaders x2) = (\<lambda>d. do { (hs, d) \<leftarrow> lift_dec (do { n \<leftarrow> ReadPrefix; ReadMany n BlockHeader_DecodeFrom }) d; Some (MsgHeaders hs, d) })"
  "message_DecodeFrom H (MsgGetBlocks x3) = (\<lambda>d. do { (is, d) \<leftarrow> lift_dec (do { n \<leftarrow> ReadPrefix; ReadMany n ChainIndex_DecodeFrom }) d; Some (MsgGetBlocks is, d) })"
  "message_DecodeFrom H (MsgBlocks x4) = (\<lambda>d. do { (n, d) \<leftarrow> lift_dec ReadPrefix d; do { (bs, d) \<leftarrow> read_blocks H n d; Some (MsgBlocks bs, d) } })"
  "message_DecodeFrom H (MsgRelayBlock x5) = (\<lambda>d. do { (b, d) \<leftarrow> CompressedBlock_DecodeFrom H d; Some (MsgRelayBlock b, d) })"
  "message_DecodeFrom H (MsgRelayTransactionSet x6) = (\<lambda>d. do { (txns, d) \<leftarrow> lift_dec (do { n \<leftarrow> ReadPrefix; ReadMany n Transaction_DecodeFrom }) d; Some (MsgRelayTransactionSet txns, d) })"
  "message_DecodeFrom H (MsgGetCheckpoint x7) = (\<lambda>d. do { (i, d) \<leftarrow> lift_dec ChainIndex_DecodeFrom d; Some (MsgGetCheckpoint i, d) })"
  "message_DecodeFrom H (MsgCheckpoint x8 y8) = (\<lambda>d. do { (b, d) \<leftarrow> CompressedBlock_DecodeFrom H d; do { (s, d) \<leftarrow> lift_dec State_DecodeFrom d; Some (MsgCheckpoint b s, d) } })"
  by (rule ext, simp)+

lemma message_decodes:
  assumes "sendable H m" "msgType recv = msgType m"
  shows "\<exists>bs. message_EncodeTo H m = Some bs \<and> pdecodes (message_DecodeFrom H recv) bs m"
proof (cases m)
  case (MsgGetHeaders h)
  then obtain h' where "recv = MsgGetHeaders h'" using assms(2) by (cases recv) auto
  then show ?thesis using MsgGetHeaders assms(1)
    by (auto simp: message_readers simp del: message_DecodeFrom.simps intro!: pdecodes_map list_codec [OF chain_index.codec_axioms])
next
  case (MsgHeaders hs)
  then obtain hs' where "recv = MsgHeaders hs'" using assms(2) by (cases recv) auto
  then show ?thesis using MsgHeaders assms(1)
    by (auto simp: message_readers simp del: message_DecodeFrom.simps intro!: pdecodes_map list_codec [OF block_header.codec_axioms])
next
  case (MsgGetBlocks h)
  then obtain h' where "recv = MsgGetBlocks h'" using assms(2) by (cases recv) auto
  then show ?thesis using MsgGetBlocks assms(1)
    by (auto simp: message_readers simp del: message_DecodeFrom.simps intro!: pdecodes_map list_codec [OF chain_index.codec_axioms])
next
  case (MsgBlocks bs)
  then obtain bs' where r: "recv = MsgBlocks bs'" using assms(2) by (cases recv) auto
  obtain xs where xs: "write_blocks H bs = Some xs" "pdecodes (read_blocks H (length bs)) xs bs" "length bs \<le> length xs"
    using write_blocks_decodes MsgBlocks assms(1) by fastforce
  have "length bs < 2 ^ 64" using MsgBlocks assms(1) by (simp add: len_ok_def)
  then have "decodes (length xs) ReadPrefix (WritePrefix (length bs)) (length bs)"
    using xs(3) by (intro decodes_ReadPrefix)
  then have "pdecodes (\<lambda>d. do { (n, d) \<leftarrow> lift_dec ReadPrefix d; do { (bs, d) \<leftarrow> read_blocks H n d; Some (MsgBlocks bs, d) } })
      (WritePrefix (length bs) @ xs) (MsgBlocks bs)"
    by (rule pdecodes_prefix) (rule pdecodes_map [OF xs(2)])
  then show ?thesis using MsgBlocks r xs(1) by (simp add: message_readers del: message_DecodeFrom.simps)
next
  case (MsgRelayBlock b)
  then obtain b' where "recv = MsgRelayBlock b'" using assms(2) by (cases recv) auto
  then show ?thesis using MsgRelayBlock assms(1) sendable_block_decodes [of H b]
    by (auto simp: message_readers simp del: message_DecodeFrom.simps intro!: pdecodes_map)
next
  case (MsgRelayTransactionSet txns)
  then obtain txns' where "recv = MsgRelayTransactionSet txns'" using assms(2) by (cases recv) auto
  then show ?thesis using MsgRelayTransactionSet assms(1)
    by (auto simp: message_readers simp del: message_DecodeFrom.simps intro!: pdecodes_map list_codec [OF txn.codec_axioms])
next
  case (MsgGetCheckpoint i)
  then obtain i' where "recv = MsgGetCheckpoint i'" using assms(2) by (cases recv) auto
  then show ?thesis using MsgGetCheckpoint
    by (auto simp: message_readers simp del: message_DecodeFrom.simps intro!: pdecodes_map pdecodes_lift chain_index.dec_enc)
next
  case (MsgCheckpoint b s)
  then obtain b' s' where r: "recv = MsgCheckpoint b' s'" using assms(2) by (cases recv) auto
  obtain xs where xs: "CompressedBlock_EncodeTo H b = Some xs" "pdecodes (CompressedBlock_DecodeFrom H) xs b"
    using MsgCheckpoint assms(1) sendable_block_decodes [of H b] by auto
  have "pdecodes (\<lambda>d. do { (b, d) \<leftarrow> CompressedBlock_DecodeFrom H d;
      do { (s, d) \<leftarrow> lift_dec State_DecodeFrom d; Some (MsgCheckpoint b s, d) } }) (xs @ State_EncodeTo s) (MsgCheckpoint b s)"
    using MsgCheckpoint assms(1)
    by (intro pdecodes_bind [OF xs(2)] pdecodes_map pdecodes_lift state.dec_enc) simp
  then show ?thesis using MsgCheckpoint r xs(1) by (simp add: message_readers del: message_DecodeFrom.simps)
qed

section \<open>Reading whatever a peer sends\<close>

lemma tame_readTrees [tame]: "tame (Accumulator_readTrees acc is)"
  by (induction "is") (auto simp: Hash256_DecodeFrom_def intro!: tame)

lemma tame_messages [tame]: "tame ChainIndex_DecodeFrom" "tame BlockHeader_DecodeFrom" "tame State_DecodeFrom"
  unfolding ChainIndex_DecodeFrom_def BlockHeader_DecodeFrom_def State_DecodeFrom_def Accumulator_DecodeFrom_def
    Work_DecodeFrom_def reader_defs by (intro tame)+

lemma tame_ReadPrefix [tame]: "tame ReadPrefix"
  unfolding reader_defs by (intro tame)

text \<open>\<open>total_dec m P\<close>: \<open>m\<close> never panics, and gives a value with \<open>P\<close>.\<close>

definition total_dec :: "(decoder \<Rightarrow> ('a \<times> decoder) option) \<Rightarrow> ('a \<Rightarrow> bool) \<Rightarrow> bool" where
  "total_dec m P \<longleftrightarrow> (\<forall>d. \<exists>x d'. m d = Some (x, d') \<and> consumed d d' \<and> P x)"

lemma total_lift: "tame m \<Longrightarrow> total_dec (lift_dec m) (\<lambda>_. True)"
  unfolding total_dec_def lift_dec_def by (metis surj_pair tame_consumed)

lemma total_bind:
  assumes "total_dec m P" "\<And>x. P x \<Longrightarrow> total_dec (f x) Q"
  shows "total_dec (\<lambda>d. do { (x, d) \<leftarrow> m d; f x d }) Q"
  unfolding total_dec_def
proof
  fix d
  obtain x d1 where 1: "m d = Some (x, d1)" "consumed d d1" "P x" using assms(1) unfolding total_dec_def by blast
  obtain y d2 where 2: "f x d1 = Some (y, d2)" "consumed d1 d2" "Q y"
    using assms(2) [OF 1(3)] unfolding total_dec_def by blast
  show "\<exists>y d'. do { (x, d) \<leftarrow> m d; f x d } = Some (y, d') \<and> consumed d d' \<and> Q y"
    using 1 2 consumed_trans [OF 1(2) 2(2)] by simp
qed

lemma total_return: "P x \<Longrightarrow> total_dec (\<lambda>d. Some (x, d)) P"
  by (simp add: total_dec_def)

lemma total_block: "total_dec (CompressedBlock_DecodeFrom H) (\<lambda>_. True)"
  using CompressedBlock_total by (simp add: total_dec_def)

lemma total_read_blocks: "total_dec (read_blocks H n) (\<lambda>bs. length bs = n)"
proof (induction n)
  case (Suc n)
  have eq: "read_blocks H (Suc n) = (\<lambda>d. do { (b, d) \<leftarrow> CompressedBlock_DecodeFrom H d;
      do { (bs, d) \<leftarrow> read_blocks H n d; Some (b # bs, d) } })" by (rule ext) simp
  show ?case unfolding eq
    by (intro total_bind [OF total_block] total_bind [OF Suc.IH] total_return) simp
qed (simp add: total_dec_def)

lemma total_message: "total_dec (message_DecodeFrom H recv) (\<lambda>m. msgType m = msgType recv)"
proof -
  have txns: "tame (do { n \<leftarrow> ReadPrefix; ReadMany n Transaction_DecodeFrom })"
    by (intro tame tame_Transaction)
  show ?thesis
    by (cases recv; simp only: message_readers)
      (intro total_bind [OF total_lift] total_bind [OF total_block] total_bind [OF total_read_blocks] total_return
        tame txns; simp)+
qed

text \<open>C21. Whatever bytes a peer sends, reading the body of a message into a receiver ends without a panic, takes at most
  the limit of the message from the connection and leaves the rest, and gives an error or a message of the
  receiver's type. Reading a header takes at most nine bytes.\<close>

theorem reading_is_bounded:
  "\<exists>res k. readMessage H r (Some recv) = Some (res, drop k r) \<and> k \<le> MaxLen recv
    \<and> (case res of Inl e \<Rightarrow> True | Inr m \<Rightarrow> msgType m = msgType recv)
    \<and> (\<exists>h j. readMessageHeader r = (h, drop j r) \<and> j \<le> 9)"
proof -
  let ?d = "NewDecoder r (MaxLen recv)"
  obtain m d where d: "message_DecodeFrom H recv ?d = Some (m, d)" "consumed ?d d" "msgType m = msgType recv"
    using total_message unfolding total_dec_def by blast
  obtain ty d1 where 1: "run_state ReadUint8 (NewDecoder r 9) = (ty, d1)" by fastforce
  obtain i d2 where 2: "run_state ReadUint64 d1 = (i, d2)" by fastforce
  have t: "tame ReadUint8" "tame ReadUint64" unfolding reader_defs by (intro tame)+
  have c: "consumed (NewDecoder r 9) d1" "consumed (NewDecoder r 9) d2"
    by (rule tame_consumed [OF t(1) 1] consumed_trans [OF tame_consumed [OF t(1) 1] tame_consumed [OF t(2) 2]])+
  have "\<exists>h j. readMessageHeader r = (h, drop j r) \<and> j \<le> 9"
    using c unfolding readMessageHeader_def 1 Let_def prod.case 2
    by (auto simp: consumed_def NewDecoder_def intro: exI [of _ "9 - dc_N d1"] exI [of _ "9 - dc_N d2"])
  moreover have "readMessage H r (Some recv) = Some (case dc_err d of Some e \<Rightarrow> Inl (ErrDecode e) | None \<Rightarrow> Inr m, dc_R d)"
    by (simp add: readMessage_def d(1))
  moreover have "dc_R d = drop (MaxLen recv - dc_N d) r" using d(2) by (simp add: consumed_def NewDecoder_def)
  ultimately show ?thesis using d(3) by (auto split: option.splits intro!: exI [of _ "MaxLen recv - dc_N d"])
qed

lemma message_is_read:
  assumes "sendable H m" "\<forall>body. message_EncodeTo H m = Some body \<longrightarrow> length body \<le> MaxLen m"
  shows "\<exists>bs. writeMessage H \<lparr>tm_id = i, tm_m = m\<rparr> = Some bs
    \<and> (\<forall>rest. \<exists>r. readMessageHeader (bs @ rest) = (Inr (msgType m, i), r)
        \<and> readMessage H r (newMsg (msgType m)) = Some (Inr m, rest)
        \<and> (\<forall>recv. msgType recv = msgType m \<longrightarrow> readMessage H r (Some recv) = Some (Inr m, rest)))"
proof -
  have ml: "MaxLen recv = MaxLen m" if "msgType recv = msgType m" for recv
    using that by (cases recv; cases m) simp_all
  have new: "\<exists>recv. newMsg (msgType m) = Some recv \<and> msgType recv = msgType m"
    by (cases m) (simp_all add: newMsg_def)
  obtain body where body: "message_EncodeTo H m = Some body" using message_decodes [OF assms(1) refl] by blast
  let ?h = "WriteUint8 (msgType m) @ WriteUint64 i"
  have read: "readMessage H (body @ rest) (Some recv) = Some (Inr m, rest)" if "msgType recv = msgType m" for recv rest
  proof -
    have p: "pdecodes (message_DecodeFrom H recv) body m" using message_decodes [OF assms(1) that] body by simp
    have "length body \<le> dc_N (NewDecoder (body @ rest) (MaxLen recv))"
      using assms(2) body ml [OF that] by (simp add: NewDecoder_def)
    then obtain d' where "message_DecodeFrom H recv (NewDecoder (body @ rest) (MaxLen recv)) = Some (m, d')"
      "dc_err d' = None" "dc_R d' = rest"
      by (rule pdecodesD [OF p, rotated 3]) (simp_all add: NewDecoder_def)
    then show ?thesis by (simp add: readMessage_def)
  qed
  have header: "readMessageHeader ((?h @ body) @ rest) = (Inr (msgType m, i), body @ rest)" for rest
  proof -
    let ?d = "NewDecoder ((?h @ body) @ rest) 9"
    have s: "dc_err ?d = None" "length (dc_buf ?d) = 64" "dc_R ?d = WriteUint8 (msgType m) @ (WriteUint64 i @ body @ rest)"
      "length (WriteUint8 (msgType m)) + 0 \<le> dc_N ?d" by (simp_all add: NewDecoder_def)
    obtain d1 where 1: "run_state ReadUint8 ?d = (msgType m, d1)" "dc_err d1 = None" "length (dc_buf d1) = 64"
      "dc_R d1 = WriteUint64 i @ (body @ rest)" "dc_N d1 = dc_N ?d - length (WriteUint8 (msgType m))"
      by (rule decodes_run [OF decodes_ReadUint8 s])
    have "length (WriteUint64 i) + 0 \<le> dc_N d1" using 1(5) by (simp add: NewDecoder_def)
    then obtain d2 where 2: "run_state ReadUint64 d1 = (i, d2)" "dc_err d2 = None" "dc_R d2 = body @ rest"
      by (rule decodes_run [OF decodes_ReadUint64 1(2-4)])
    have "\<not> 8 < msgType m" by (cases m) simp_all
    then show ?thesis using 1(1) 2 by (simp add: readMessageHeader_def Let_def)
  qed
  have sent: "writeMessage H \<lparr>tm_id = i, tm_m = m\<rparr> = Some (?h @ body)" by (simp add: writeMessage_def body)
  obtain recv where n: "newMsg (msgType m) = Some recv" "msgType recv = msgType m" using new by blast
  have "\<exists>r. readMessageHeader ((?h @ body) @ rest) = (Inr (msgType m, i), r)
      \<and> readMessage H r (newMsg (msgType m)) = Some (Inr m, rest)
      \<and> (\<forall>recv. msgType recv = msgType m \<longrightarrow> readMessage H r (Some recv) = Some (Inr m, rest))" for rest
    by (rule exI [of _ "body @ rest"]) (simp only: header read n simp_thms, simp add: read)
  then show ?thesis using sent by (intro exI [of _ "?h @ body"]) simp
qed



section \<open>A truncated message\<close>

text \<open>
  A read that fails for lack of bytes sets the error of the decoder and leaves its scratch buffer as it is (only
  \<open>SetErr\<close> clears it), so every later number is read from the buffer again.
\<close>

definition stuck :: "u64 \<Rightarrow> decoder \<Rightarrow> bool" where
  "stuck n d \<longleftrightarrow> dc_err d \<noteq> None \<and> take 8 (dc_buf d) = WriteUint64 n \<and> unat n \<le> dc_N d"

lemma WriteUint64_read [simp]: "le_word (WriteUint64 n) = n"
  by (simp add: WriteUint64_def le_word_bytes)

lemma stuck_reads:
  assumes "stuck n d"
  shows "run_state ReadUint8 d = (hd (WriteUint64 n), d)" "run_state ReadUint64 d = (n, d)"
    "run_state ReadPrefix d = (unat n, d)"
proof -
  have b: "take 8 (dc_buf d) = WriteUint64 n" "dc_err d \<noteq> None" "unat n \<le> dc_N d" using assms by (simp_all add: stuck_def)
  have "hd (take 1 (dc_buf d)) = hd (take 8 (dc_buf d))" by (cases "dc_buf d") simp_all
  then show "run_state ReadUint8 d = (hd (WriteUint64 n), d)"
    using b(1,2) by (auto simp: ReadUint8_def ReadBuf_def Let_def)
  show 64: "run_state ReadUint64 d = (n, d)" using b(1,2) by (auto simp: ReadUint64_def ReadBuf_def Let_def)
  show "run_state ReadPrefix d = (unat n, d)" using b(3) by (simp add: ReadPrefix_def 64 State_Monad.get_def)
qed

lemma stuck_run: "tame m \<Longrightarrow> stuck n d \<Longrightarrow> run_state m d = (fst (run_state m d), d)"
  unfolding stuck_def by (metis prod.collapse tame_stuck)

lemma stuck_many: "tame m \<Longrightarrow> stuck n d \<Longrightarrow> run_state (ReadMany k m) d = (replicate k (fst (run_state m d)), d)"
proof (induction k)
  case (Suc k)
  note r = stuck_run [OF Suc.prems]
  show ?case by (simp, subst r) (simp add: Suc)
qed simp

lemma stuck_list:
  assumes "tame m" "stuck n d"
  shows "run_state (do { k \<leftarrow> ReadPrefix; ReadMany k m }) d = (replicate (unat n) (fst (run_state m d)), d)"
  using stuck_many [OF assms] stuck_reads(3) [OF assms(2)] by simp

text \<open>What such a decoder builds: as many transactions as the number says, with as many inputs and outputs each, and
  proofs as long.\<close>

definition bloated :: "nat \<Rightarrow> block \<Rightarrow> bool" where
  "bloated n b \<longleftrightarrow> length (b_Transactions b) = n
     \<and> list_all (\<lambda>txn. length (tx_Inputs txn) = n \<and> length (tx_Outputs txn) = n
         \<and> list_all (\<lambda>inp. length (input_proof inp) = n) (tx_Inputs txn)) (b_Transactions b)"

lemma stuck_bind:
  assumes "tame m" "stuck n d"
  shows "run_state (State_Monad.bind m f) d = run_state (f (fst (run_state m d))) d"
  by (simp, subst stuck_run [OF assms]) simp

lemma tame_parts: "tame ElementID_DecodeFrom" "tame ReadUint64" "tame ReadUint8" "tame Output_DecodeFrom"
  "tame PublicKey_DecodeFrom" "tame Signature_DecodeFrom" "tame Currency_DecodeFrom" "tame Hash256_DecodeFrom"
  unfolding reader_defs by (intro tame)+

lemma stuck_input:
  assumes "stuck n d"
  shows "length (input_proof (fst (run_state compressedInput_DecodeFrom d))) = unat n"
proof -
  have err: "dc_err d \<noteq> None" using assms by (simp add: stuck_def)
  have se: "length (se_MerkleProof (fst (run_state compressedStateElement_DecodeFrom d))) = unat n"
    unfolding compressedStateElement_DecodeFrom_def stuck_bind [OF tame_parts(1) assms] stuck_bind [OF tame_parts(2) assms]
      stuck_bind [OF tame_ReadPrefix assms] stuck_reads [OF assms] fst_conv
    using err by (simp add: Decoder_SetErr_def)
  show ?thesis
    unfolding compressedInput_DecodeFrom_def compressedOutputElement_DecodeFrom_def
      stuck_bind [OF tame_compressed(3) [unfolded compressedOutputElement_DecodeFrom_def] assms] 
      stuck_bind [OF tame_parts(5) assms] stuck_bind [OF tame_parts(6) assms]
      stuck_bind [OF tame_compressed(4) assms] stuck_bind [OF tame_parts(4) assms] stuck_bind [OF tame_parts(2) assms]
    using se by simp
qed

lemma stuck_transaction:
  assumes "stuck n d" "hd (WriteUint64 n) = 1"
  shows "run_state compressedTransaction_DecodeFrom d =
    (\<lparr>tx_Inputs = replicate (unat n) (fst (run_state compressedInput_DecodeFrom d)),
      tx_Outputs = replicate (unat n) (fst (run_state Output_DecodeFrom d)),
      tx_MinerFee = fst (run_state Currency_DecodeFrom d)\<rparr>, d)"
proof -
  have t: "tame (do { k \<leftarrow> ReadPrefix; ReadMany k compressedInput_DecodeFrom })"
    "tame (do { k \<leftarrow> ReadPrefix; ReadMany k Output_DecodeFrom })"
    by (intro tame tame_compressed tame_parts)+
  show ?thesis
    unfolding compressedTransaction_DecodeFrom_def stuck_bind [OF tame_parts(3) assms(1)] stuck_reads [OF assms(1)] fst_conv
      assms(2)
    by (simp only: simp_thms not_True_eq_False if_False stuck_bind [OF t(1) assms(1)] stuck_bind [OF t(2) assms(1)]
        stuck_bind [OF tame_parts(7) assms(1)] stuck_list [OF tame_compressed(2) assms(1)]
        stuck_list [OF tame_parts(4) assms(1)] fst_conv) simp
qed

text \<open>The version of a block is one byte: the first of the number. What the buffer gives for it is \<open>1\<close>.\<close>

lemma stuck_block:
  assumes "run_state ReadUint8 d = (1, d1)" "stuck n d1" "hd (WriteUint64 n) = 1"
  shows "\<exists>b. CompressedBlock_DecodeFrom H d = Some (b, d1) \<and> bloated (unat n) b"
proof -
  have e: "dc_err d1 \<noteq> None" using assms(2) by (simp add: stuck_def)
  let ?txns = "replicate (unat n) (fst (run_state compressedTransaction_DecodeFrom d1))"
  note r = stuck_run [OF tame_messages(2) assms(2)] stuck_list [OF tame_compressed(1) assms(2)]
  have "CompressedBlock_DecodeFrom H d = Some (\<lparr>b_Header = fst (run_state BlockHeader_DecodeFrom d1), b_Transactions = ?txns\<rparr>, d1)"
    unfolding CompressedBlock_DecodeFrom_def assms(1) Let_def prod.case
    by (subst r(1), unfold prod.case, subst r(2), unfold prod.case) (simp add: e)
  moreover have "bloated (unat n) \<lparr>b_Header = h, b_Transactions = ?txns\<rparr>" for h
    using stuck_input [OF assms(2)] unfolding stuck_transaction [OF assms(2,3)]
    by (simp add: bloated_def list_all_iff)
  ultimately show ?thesis by blast
qed

lemma stuck_blocks:
  assumes "stuck n d" "hd (WriteUint64 n) = 1"
  shows "\<exists>bs. read_blocks H k d = Some (bs, d) \<and> length bs = k \<and> list_all (bloated (unat n)) bs"
proof (induction k)
  case (Suc k)
  obtain b where "CompressedBlock_DecodeFrom H d = Some (b, d)" "bloated (unat n) b"
    using stuck_block [OF _ assms(1,2)] stuck_reads(1) [OF assms(1)] assms(2) by metis
  then show ?case using Suc by auto
qed simp

text \<open>A truncated message costs the receiver more than it can have: a \<open>MsgBlocks\<close> body of nothing but its 8-byte
  length \<open>n\<close>, when the lowest byte of \<open>n\<close> is 1, makes the decoder build \<open>n\<close> blocks of \<open>n\<close> transactions with \<open>n\<close>
  inputs each, whose proofs have \<open>n\<close> hashes, before the missing bytes are reported.\<close>

theorem truncated_blocks_explode:
  assumes "unat n \<le> 99999992" "hd (WriteUint64 n) = 1"
  shows "\<exists>bs d. message_DecodeFrom H (MsgBlocks []) (NewDecoder (WriteUint64 n) (MaxLen (MsgBlocks []))) = Some (MsgBlocks bs, d)
    \<and> dc_err d = Some ErrEOF \<and> length bs = unat n \<and> list_all (bloated (unat n)) bs"
proof -
  let ?d = "NewDecoder (WriteUint64 n) 100000000"
  let ?d1 = "\<lparr>dc_R = [], dc_N = 99999992, dc_buf = WriteUint64 n @ replicate 56 0, dc_err = None\<rparr>"
  let ?d2 = "?d1\<lparr>dc_err := Some ErrEOF\<rparr>"
  have 64: "run_state ReadUint64 ?d = (n, ?d1)"
    by (simp add: ReadUint64_def ReadBuf_def read_full_def NewDecoder_def Let_def min_def)
  have p: "run_state ReadPrefix ?d = (unat n, ?d1)" using assms(1) by (simp add: ReadPrefix_def 64 State_Monad.get_def)
  have st: "stuck n ?d2" using assms(1) by (simp add: stuck_def)
  have v: "run_state ReadUint8 ?d1 = (1, ?d2)"
    using assms(2) by (cases "WriteUint64 n") (simp_all add: ReadUint8_def ReadBuf_def read_full_def Let_def)
  obtain bs where "read_blocks H (unat n) ?d1 = Some (bs, ?d2)" "length bs = unat n" "list_all (bloated (unat n)) bs"
  proof (cases "unat n")
    case 0
    then have "n = 0" by (simp add: unat_eq_0)
    then show ?thesis using assms(2) by (simp add: WriteUint64_def le_bytes_def upt_rec)
  next
    case (Suc k)
    obtain b where b: "CompressedBlock_DecodeFrom H ?d1 = Some (b, ?d2)" "bloated (unat n) b"
      using stuck_block [OF v st assms(2)] by blast
    obtain bs where "read_blocks H k ?d2 = Some (bs, ?d2)" "length bs = k" "list_all (bloated (unat n)) bs"
      using stuck_blocks [OF st assms(2)] by blast
    then show ?thesis using b Suc by (intro that [of "b # bs"]) simp_all
  qed
  then show ?thesis by (intro exI [of _ bs] exI [of _ ?d2]) (simp add: lift_dec_def p)
qed

theorem truncated_blocks_explode_witness:
  "\<exists>bs d. message_DecodeFrom sample_hash (MsgBlocks []) (NewDecoder (WriteUint64 65537) 100000000) = Some (MsgBlocks bs, d)
    \<and> length bs = 65537 \<and> list_all (bloated 65537) bs"
proof -
  have "hd (WriteUint64 65537) = 1" by (simp add: WriteUint64_def le_bytes_def upt_rec)
  from truncated_blocks_explode [OF _ this, of sample_hash] show ?thesis by auto
qed

end
