(* ===== verification/P2P_Peer.thy ===== *)
theory P2P_Peer
  imports P2P_Messages "HOL-Library.AList"
begin

text \<open>
  p2p/peer.go: the handshake, and a peer with its incoming and outgoing messages and its pending calls. The two
  goroutines of a peer hold its mutex except while they read or write the connection, so their bodies are the atomic
  steps between two releases of it; the other methods hold it for their whole body. A call is an object that its
  caller keeps: calls live in a heap, and the map of the peer holds their places. What the network delivers is
  arbitrary: any bytes, or a failure. Error values stand for the error messages.
\<close>

section \<open>Handshake\<close>

record peer_handshake =
  hs_Version :: byte
  hs_Genesis :: block_id
  hs_Tip :: chain_index
  hs_Key :: "256 word"

text \<open>The magic string is one character of three bytes.\<close>

definition handshake_magic :: "byte list" where
  "handshake_magic = [0xE7, 0xA9, 0xBA]"

definition writeHandshake :: "peer_handshake \<Rightarrow> byte list" where
  "writeHandshake m =
     handshake_magic @ WriteUint8 (hs_Version m) @ BlockID_EncodeTo (hs_Genesis m) @ ChainIndex_EncodeTo (hs_Tip m)
     @ array_bytes 32 (hs_Key m)"

datatype handshake_error = ErrMagic | ErrHandshake dec_error

definition handshake_fields :: "peer_handshake dec" where
  "handshake_fields = do {
     v \<leftarrow> ReadUint8;
     g \<leftarrow> BlockID_DecodeFrom;
     t \<leftarrow> ChainIndex_DecodeFrom;
     k \<leftarrow> ReadArray 32;
     State_Monad.return \<lparr>hs_Version = v, hs_Genesis = g, hs_Tip = t, hs_Key = array_word k\<rparr>
   }"

definition readHandshake :: "byte list \<Rightarrow> (handshake_error + peer_handshake) \<times> byte list" where
  "readHandshake r =
     (let (magic, d) = run_state (ReadArray 3) (NewDecoder r 1000000) in
      if magic \<noteq> handshake_magic then (Inl ErrMagic, dc_R d)
      else
        let (m, d) = run_state handshake_fields d
        in (case dc_err d of Some e \<Rightarrow> Inl (ErrHandshake e) | None \<Rightarrow> Inr m, dc_R d))"

section \<open>The peer\<close>

text \<open>\<open>None\<close> for a read error is a failure of the connection itself.\<close>

datatype peer_error =
  ErrClosing | ErrBanned | ErrReadHeader "read_error option" | ErrWrongResponse | ErrUnsolicited
| ErrReadBody "read_error option" | ErrWrite | ErrCanceled

record call =
  cl_id :: u64
  cl_done :: bool
  cl_resp :: message
  cl_err :: "peer_error option"

text \<open>\<open>pr_conn\<close> names the connection, and with it the peer; \<open>pr_heap\<close> holds every call ever made.\<close>

record peer =
  pr_conn :: nat
  pr_handshake :: peer_handshake
  pr_in :: "tagged_message list"
  pr_out :: "tagged_message list"
  pr_nextID :: u64
  pr_calls :: "(u64 \<times> nat) list"
  pr_heap :: "call list"
  pr_err :: "peer_error option"
  pr_closed :: bool

definition NewPeer :: "nat \<Rightarrow> peer_handshake \<Rightarrow> peer" where
  "NewPeer conn theirs =
     \<lparr>pr_conn = conn, pr_handshake = theirs, pr_in = [], pr_out = [], pr_nextID = 0, pr_calls = [], pr_heap = [],
      pr_err = None, pr_closed = False\<rparr>"

definition set_call :: "nat \<Rightarrow> (call \<Rightarrow> call) \<Rightarrow> call list \<Rightarrow> call list" where
  "set_call k f heap = (if k < length heap then heap[k := f (heap ! k)] else heap)"

fun fail_calls :: "peer_error \<Rightarrow> (u64 \<times> nat) list \<Rightarrow> call list \<Rightarrow> call list" where
  "fail_calls e [] heap = heap"
| "fail_calls e ((i, k) # calls) heap = fail_calls e calls (set_call k (\<lambda>c. c\<lparr>cl_err := Some e, cl_done := True\<rparr>) heap)"

definition Peer_setErr :: "peer_error \<Rightarrow> peer \<Rightarrow> peer" where
  "Peer_setErr e p =
     (if pr_err p = None
      then p\<lparr>pr_err := Some e, pr_heap := fail_calls e (pr_calls p) (pr_heap p), pr_closed := True\<rparr>
      else p)"

definition Peer_ban :: "peer \<Rightarrow> peer" where
  "Peer_ban p = Peer_setErr ErrBanned p"

text \<open>The body of \<open>warn\<close> is commented out.\<close>

definition Peer_warn :: "peer \<Rightarrow> peer" where
  "Peer_warn p = p"

definition Peer_disconnect :: "peer \<Rightarrow> peer" where
  "Peer_disconnect p = Peer_setErr ErrClosing p"

definition Peer_newID :: "peer \<Rightarrow> u64 \<times> peer" where
  "Peer_newID p = (pr_nextID p, p\<lparr>pr_nextID := pr_nextID p + 2\<rparr>)"

definition Peer_send :: "tagged_message \<Rightarrow> peer \<Rightarrow> peer" where
  "Peer_send tm p = p\<lparr>pr_out := pr_out p @ [tm]\<rparr>"

section \<open>Calls\<close>

definition Peer_RPC :: "message \<Rightarrow> message \<Rightarrow> peer \<Rightarrow> nat \<times> peer" where
  "Peer_RPC req resp p =
     (let (reqID, p) = Peer_newID p; respID = reqID OR 1;
          p = Peer_send \<lparr>tm_id = reqID, tm_m = req\<rparr> p;
          k = length (pr_heap p);
          call = \<lparr>cl_id = respID, cl_done = False, cl_resp = resp, cl_err = None\<rparr>
      in (k, p\<lparr>pr_heap := pr_heap p @ [call], pr_calls := AList.update respID k (pr_calls p)\<rparr>))"

text \<open>\<open>None\<close> means that \<open>Wait\<close> blocks.\<close>

definition Call_Wait :: "nat \<Rightarrow> peer \<Rightarrow> peer_error option option" where
  "Call_Wait k p = (if cl_done (pr_heap p ! k) then Some (cl_err (pr_heap p ! k)) else None)"

definition Call_Cancel :: "nat \<Rightarrow> peer \<Rightarrow> peer" where
  "Call_Cancel k p =
     p\<lparr>pr_heap := set_call k (\<lambda>c. c\<lparr>cl_err := Some ErrCanceled\<rparr>) (pr_heap p),
       pr_calls := AList.delete (cl_id (pr_heap p ! k)) (pr_calls p)\<rparr>"

section \<open>handleIn\<close>

text \<open>Where the goroutine is: it reads a header, or the body of the message with an ID into a receiver, or it has ended.\<close>

datatype in_stage = InHeader | InBody u64 "message option" | InStopped | InPanicked

definition handleIn_header :: "(read_error option + byte \<times> u64) \<Rightarrow> peer \<Rightarrow> in_stage \<times> peer" where
  "handleIn_header res p =
     (case res of
        Inl e \<Rightarrow> (InStopped, Peer_setErr (ErrReadHeader e) p)
      | Inr (typ, i) \<Rightarrow>
          if i AND 1 = 0 then (InBody i (newMsg typ), p)
          else (case map_of (pr_calls p) i of
             Some k \<Rightarrow>
               if typ \<noteq> msgType (cl_resp (pr_heap p ! k))
               then (InStopped, Peer_setErr ErrWrongResponse
                      (p\<lparr>pr_heap := set_call k (\<lambda>c. c\<lparr>cl_done := True\<rparr>) (pr_heap p), pr_calls := AList.delete i (pr_calls p)\<rparr>))
               else (InBody i (Some (cl_resp (pr_heap p ! k))), p)
           | None \<Rightarrow> (InStopped, Peer_setErr ErrUnsolicited p)))"

text \<open>The body is read into the receiver; a nil receiver panics, and so does a response whose call is gone.\<close>

definition handleIn_body :: "(read_error option + message) option \<Rightarrow> u64 \<Rightarrow> peer \<Rightarrow> in_stage \<times> peer" where
  "handleIn_body res i p =
     (case res of
        None \<Rightarrow> (InPanicked, p)
      | Some (Inl e) \<Rightarrow> (InStopped, Peer_setErr (ErrReadBody e) p)
      | Some (Inr m) \<Rightarrow>
          if i AND 1 = 0 then (InHeader, p\<lparr>pr_in := pr_in p @ [\<lparr>tm_id = i, tm_m = m\<rparr>]\<rparr>)
          else (case map_of (pr_calls p) i of
             None \<Rightarrow> (InPanicked, p)
           | Some k \<Rightarrow>
               (InHeader, p\<lparr>pr_heap := set_call k (\<lambda>c. c\<lparr>cl_resp := m, cl_done := True\<rparr>) (pr_heap p),
                            pr_calls := AList.delete i (pr_calls p)\<rparr>)))"

section \<open>handleOut\<close>

datatype out_stage = OutIdle | OutWriting tagged_message | OutStopped | OutPanicked

text \<open>\<open>None\<close> while it waits.\<close>

definition handleOut_take :: "peer \<Rightarrow> (out_stage \<times> peer) option" where
  "handleOut_take p =
     (if pr_err p \<noteq> None then Some (OutStopped, p)
      else (case pr_out p of [] \<Rightarrow> None | tm # rest \<Rightarrow> Some (OutWriting tm, p\<lparr>pr_out := rest\<rparr>)))"

definition handleOut_wrote :: "bool \<Rightarrow> peer \<Rightarrow> out_stage \<times> peer" where
  "handleOut_wrote ok p = (if ok then (OutIdle, p) else (OutStopped, Peer_setErr ErrWrite p))"

section \<open>Steps\<close>

text \<open>What the network delivers: \<open>Some bs\<close> are the bytes that can be read, \<open>None\<close> is a failure.\<close>

definition net_header :: "byte list option \<Rightarrow> read_error option + byte \<times> u64" where
  "net_header r = (case r of None \<Rightarrow> Inl None | Some bs \<Rightarrow> map_sum Some id (fst (readMessageHeader bs)))"

definition net_body :: "hashfn \<Rightarrow> byte list option \<Rightarrow> message option \<Rightarrow> (read_error option + message) option" where
  "net_body H r recv =
     (case recv of
        None \<Rightarrow> None
      | Some m \<Rightarrow>
          (case r of None \<Rightarrow> Some (Inl None)
           | Some bs \<Rightarrow> map_option (map_sum Some id \<circ> fst) (readMessage H bs recv)))"

text \<open>
  The steps of a peer: those of its goroutines, of its callers, and of the syncer that takes requests and sends
  responses and relayed messages. Request IDs count up by two; a run is shorter than \<open>2 ^ 63\<close> of them.
\<close>

type_synonym peer_run = "in_stage \<times> out_stage \<times> peer"

inductive peer_step :: "hashfn \<Rightarrow> peer_run \<Rightarrow> peer_run \<Rightarrow> bool" for H where
  read_header: "handleIn_header (net_header r) p = (st, p') \<Longrightarrow> peer_step H (InHeader, os, p) (st, os, p')"
| read_body: "handleIn_body (net_body H r recv) i p = (st, p') \<Longrightarrow> peer_step H (InBody i recv, os, p) (st, os, p')"
| take_out: "handleOut_take p = Some (st, p') \<Longrightarrow> peer_step H (is, OutIdle, p) (is, st, p')"
| write_out: "writeMessage H tm \<noteq> None \<Longrightarrow> handleOut_wrote ok p = (st, p') \<Longrightarrow>
    peer_step H (is, OutWriting tm, p) (is, st, p')"
| write_panic: "writeMessage H tm = None \<Longrightarrow> peer_step H (is, OutWriting tm, p) (is, OutPanicked, p)"
| call: "unat (pr_nextID p) < 2 ^ 64 - 2 \<Longrightarrow> Peer_RPC req resp p = (k, p') \<Longrightarrow> peer_step H (is, os, p) (is, os, p')"
| cancel: "k < length (pr_heap p) \<Longrightarrow> peer_step H (is, os, p) (is, os, Call_Cancel k p)"
| fail: "peer_step H (is, os, p) (is, os, Peer_setErr e p)"
| take_in: "pr_in p = tm # rest \<Longrightarrow> peer_step H (is, os, p) (is, os, p\<lparr>pr_in := rest\<rparr>)"
| respond: "peer_step H (is, os, p) (is, os, Peer_send \<lparr>tm_id = i OR 1, tm_m = m\<rparr> p)"
| relay: "unat (pr_nextID p) < 2 ^ 64 - 2 \<Longrightarrow> Peer_newID p = (i, p') \<Longrightarrow>
    peer_step H (is, os, p) (is, os, Peer_send \<lparr>tm_id = i, tm_m = m\<rparr> p')"
| tip: "peer_step H (is, os, p) (is, os, p\<lparr>pr_handshake := (pr_handshake p)\<lparr>hs_Tip := i\<rparr>\<rparr>)"

abbreviation peer_steps :: "hashfn \<Rightarrow> peer_run \<Rightarrow> peer_run \<Rightarrow> bool" where
  "peer_steps H \<equiv> (peer_step H)\<^sup>*\<^sup>*"

definition peer_start :: "nat \<Rightarrow> peer_handshake \<Rightarrow> peer_run" where
  "peer_start conn theirs = (InHeader, OutIdle, NewPeer conn theirs)"

section \<open>Handshakes are read back\<close>

definition handshake_enc :: "peer_handshake \<Rightarrow> byte list" where
  "handshake_enc m =
     WriteUint8 (hs_Version m) @ BlockID_EncodeTo (hs_Genesis m) @ ChainIndex_EncodeTo (hs_Tip m) @ array_bytes 32 (hs_Key m)"

interpretation handshake: codec handshake_enc handshake_fields "\<lambda>_. True"
proof
  fix m :: peer_handshake
  have key: "decodes 0 (ReadArray 32) (array_bytes 32 (hs_Key m)) (array_bytes 32 (hs_Key m))"
    by (rule decodes_ReadArray) simp
  show "decodes 0 handshake_fields (handshake_enc m) m"
    unfolding handshake_fields_def handshake_enc_def
    by (intro decodes_bind [OF decodes_ReadUint8] decodes_bind [OF block_id.dec_enc_k] decodes_bind [OF chain_index.dec_enc_k]
        decodes_last [OF key]) (simp_all add: array_word_bytes)
qed

text \<open>The handshake that is written is the handshake that is read, and reading it takes nothing that follows it from
  the connection.\<close>

lemma handshake_is_read: "readHandshake (writeHandshake m @ rest) = (Inr m, rest)"
proof -
  let ?d = "NewDecoder (writeHandshake m @ rest) 1000000"
  have len: "length (handshake_enc m) = 105"
    by (simp add: handshake_enc_def BlockID_EncodeTo_def ChainIndex_EncodeTo_def)
  have s: "dc_err ?d = None" "length (dc_buf ?d) = 64" "dc_R ?d = handshake_magic @ (handshake_enc m @ rest)"
    "length handshake_magic + 0 \<le> dc_N ?d"
    by (simp_all add: NewDecoder_def writeHandshake_def handshake_enc_def handshake_magic_def)
  have magic: "decodes 0 (ReadArray 3) handshake_magic handshake_magic"
    by (rule decodes_ReadArray) (simp add: handshake_magic_def)
  obtain d1 where 1: "run_state (ReadArray 3) ?d = (handshake_magic, d1)" "dc_err d1 = None" "length (dc_buf d1) = 64"
    "dc_R d1 = handshake_enc m @ rest" "dc_N d1 = dc_N ?d - length handshake_magic"
    by (rule decodes_run [OF magic s])
  have "length (handshake_enc m) + 0 \<le> dc_N d1" using 1(5) by (simp add: len NewDecoder_def handshake_magic_def)
  then obtain d2 where "run_state handshake_fields d1 = (m, d2)" "dc_err d2 = None" "dc_R d2 = rest"
    by (rule decodes_run [OF handshake.dec_enc [OF TrueI] 1(2-4)])
  then show ?thesis using 1(1) by (simp add: readHandshake_def)
qed

section \<open>What every peer keeps\<close>

lemma length_set_call [simp]: "length (set_call k f heap) = length heap"
  by (simp add: set_call_def)

lemma nth_set_call: "j < length heap \<Longrightarrow> set_call k f heap ! j = (if j = k then f (heap ! j) else heap ! j)"
  by (auto simp: set_call_def)

lemma length_fail_calls [simp]: "length (fail_calls e calls heap) = length heap"
  by (induction e calls heap rule: fail_calls.induct) simp_all

lemma nth_fail_calls: "j < length heap \<Longrightarrow>
    fail_calls e calls heap ! j = (if j \<in> snd ` set calls then (heap ! j)\<lparr>cl_err := Some e, cl_done := True\<rparr> else heap ! j)"
  by (induction e calls heap rule: fail_calls.induct) (auto simp: nth_set_call)

text \<open>
  The map of calls names each registered call by its ID; a call that is not registered is finished or canceled; IDs
  are never given twice.
\<close>

definition registered :: "peer \<Rightarrow> nat \<Rightarrow> bool" where
  "registered p k \<longleftrightarrow> map_of (pr_calls p) (cl_id (pr_heap p ! k)) = Some k"

definition accounted :: "peer \<Rightarrow> nat \<Rightarrow> bool" where
  "accounted p k \<longleftrightarrow> cl_done (pr_heap p ! k) \<or> cl_err (pr_heap p ! k) = Some ErrCanceled \<or> registered p k"

definition peer_ok :: "peer \<Rightarrow> bool" where
  "peer_ok p \<longleftrightarrow> distinct (map fst (pr_calls p))
     \<and> (\<forall>i k. map_of (pr_calls p) i = Some k \<longrightarrow> k < length (pr_heap p) \<and> cl_id (pr_heap p ! k) = i
          \<and> (pr_err p = None \<longrightarrow> \<not> cl_done (pr_heap p ! k) \<and> cl_err (pr_heap p ! k) = None))
     \<and> (\<forall>k<length (pr_heap p). accounted p k
          \<and> odd (cl_id (pr_heap p ! k)) \<and> unat (cl_id (pr_heap p ! k)) < unat (pr_nextID p))
     \<and> inj_on (\<lambda>k. cl_id (pr_heap p ! k)) {..<length (pr_heap p)}
     \<and> even (pr_nextID p) \<and> (pr_closed p \<longleftrightarrow> pr_err p \<noteq> None)"

fun stage_ok :: "in_stage \<Rightarrow> peer \<Rightarrow> bool" where
  "stage_ok (InBody i recv) p \<longleftrightarrow> (odd i \<longrightarrow> (\<exists>k<length (pr_heap p). cl_id (pr_heap p ! k) = i
      \<and> map_option msgType recv = Some (msgType (cl_resp (pr_heap p ! k)))
      \<and> (registered p k \<or> cl_err (pr_heap p ! k) = Some ErrCanceled)))"
| "stage_ok _ p \<longleftrightarrow> True"

definition run_ok :: "peer_run \<Rightarrow> bool" where
  "run_ok s \<longleftrightarrow> (case s of (st, os, p) \<Rightarrow> peer_ok p \<and> stage_ok st p)"

lemma registered_in:
  assumes "peer_ok p" "k < length (pr_heap p)"
  shows "k \<in> snd ` set (pr_calls p) \<longleftrightarrow> registered p k"
proof
  assume "k \<in> snd ` set (pr_calls p)"
  then obtain i where "(i, k) \<in> set (pr_calls p)" by auto
  moreover have d: "distinct (map fst (pr_calls p))" using assms(1) by (simp add: peer_ok_def)
  ultimately have m: "map_of (pr_calls p) i = Some k" by simp
  then have "cl_id (pr_heap p ! k) = i" using assms(1) by (simp add: peer_ok_def)
  then show "registered p k" using m by (simp add: registered_def)
next
  assume "registered p k"
  then show "k \<in> snd ` set (pr_calls p)" unfolding registered_def by (metis map_of_SomeD image_eqI snd_conv)
qed

text \<open>A failure finishes the registered calls.\<close>

lemma setErr_call:
  assumes "peer_ok p" "k < length (pr_heap p)" "pr_err p = None"
  shows "pr_heap (Peer_setErr e p) ! k = (if registered p k then (pr_heap p ! k)\<lparr>cl_err := Some e, cl_done := True\<rparr> else pr_heap p ! k)"
  using nth_fail_calls [OF assms(2)] registered_in [OF assms(1,2)] assms(3) by (simp add: Peer_setErr_def)

lemma setErr_simps [simp]:
  "pr_calls (Peer_setErr e p) = pr_calls p" "pr_nextID (Peer_setErr e p) = pr_nextID p"
  "length (pr_heap (Peer_setErr e p)) = length (pr_heap p)" "pr_err (Peer_setErr e p) \<noteq> None"
  "pr_err p \<noteq> None \<Longrightarrow> Peer_setErr e p = p" "pr_err p = None \<Longrightarrow> pr_closed (Peer_setErr e p)"
  by (auto simp: Peer_setErr_def)

lemma setErr_kept:
  assumes "peer_ok p" "k < length (pr_heap p)"
  shows "cl_id (pr_heap (Peer_setErr e p) ! k) = cl_id (pr_heap p ! k)"
    "cl_resp (pr_heap (Peer_setErr e p) ! k) = cl_resp (pr_heap p ! k)"
    "registered (Peer_setErr e p) k = registered p k"
  using setErr_call [OF assms, of e] by (cases "pr_err p"; simp add: registered_def)+

lemma peer_ok_setErr:
  assumes "peer_ok p"
  shows "peer_ok (Peer_setErr e p)" "stage_ok st p \<Longrightarrow> stage_ok st (Peer_setErr e p)"
proof -
  note kept = setErr_kept [OF assms] and c = setErr_call [OF assms]
  show "peer_ok (Peer_setErr e p)"
  proof (cases "pr_err p = None")
    case True
    have a: "accounted (Peer_setErr e p) k" if "k < length (pr_heap p)" "accounted p k" for k
      using that c [OF that(1) True] kept [OF that(1)] by (auto simp: accounted_def)
    have "inj_on (\<lambda>k. cl_id (pr_heap (Peer_setErr e p) ! k)) {..<length (pr_heap p)}
        = inj_on (\<lambda>k. cl_id (pr_heap p ! k)) {..<length (pr_heap p)}"
      by (rule inj_on_cong) (simp add: kept)
    then show ?thesis using assms kept True a unfolding peer_ok_def setErr_simps(1-4) setErr_simps(6) [OF True]
      by (simp add: setErr_simps(6))
  qed (use assms in simp)
  show "stage_ok st (Peer_setErr e p)" if st: "stage_ok st p"
  proof (cases "pr_err p = None")
    case True
    have x: "cl_err (pr_heap (Peer_setErr e p) ! k) = Some ErrCanceled"
      if "k < length (pr_heap p)" "cl_err (pr_heap p ! k) = Some ErrCanceled" for k
    proof -
      have "\<not> registered p k" using assms that True by (auto simp: peer_ok_def registered_def)
      then show ?thesis using c [OF that(1) True] that(2) by simp
    qed
    show ?thesis
    proof (cases st)
      case (InBody i recv)
      then show ?thesis using st kept x by auto
    qed simp_all
  qed (use st in simp)
qed

text \<open>Two calls of a peer have different IDs, as IDs only grow; so each registered call is the only one with its ID.\<close>

lemma even_or_1: "even (i :: u64) \<Longrightarrow> i OR 1 = i + 1"
  by (simp add: or_one_eq)

lemma and_1_even: "(i :: u64) AND 1 = 0 \<longleftrightarrow> even i"
  by (simp add: and_one_eq even_iff_mod_2_eq_zero)

lemma next_ID:
  fixes i :: u64
  assumes "unat i < 2 ^ 64 - 2"
  shows "unat (i + 1) = unat i + 1" "unat (i + 2) = unat i + 2"
  using assms by (simp_all add: unat_word_ariths)

lemma RPC_simps:
  assumes "Peer_RPC req resp p = (k, p')"
  shows "k = length (pr_heap p)" "pr_err p' = pr_err p" "pr_closed p' = pr_closed p" "pr_nextID p' = pr_nextID p + 2"
    "pr_heap p' = pr_heap p @ [\<lparr>cl_id = pr_nextID p OR 1, cl_done = False, cl_resp = resp, cl_err = None\<rparr>]"
    "pr_calls p' = AList.update (pr_nextID p OR 1) (length (pr_heap p)) (pr_calls p)"
    "pr_out p' = pr_out p @ [\<lparr>tm_id = pr_nextID p, tm_m = req\<rparr>]"
  using assms by (auto simp: Peer_RPC_def Peer_newID_def Peer_send_def Let_def)

lemma peer_ok_RPC:
  assumes "peer_ok p" "unat (pr_nextID p) < 2 ^ 64 - 2" "Peer_RPC req resp p = (k, p')"
  shows "peer_ok p'" "stage_ok st p \<Longrightarrow> stage_ok st p'"
proof -
  note r = RPC_simps [OF assms(3)] and n = next_ID [OF assms(2)]
  have ev: "even (pr_nextID p)" using assms(1) by (simp add: peer_ok_def)
  then have i: "pr_nextID p OR 1 = pr_nextID p + 1" by (rule even_or_1)
  have new: "cl_id (pr_heap p ! j) \<noteq> pr_nextID p + 1" if "j < length (pr_heap p)" for j
  proof
    assume "cl_id (pr_heap p ! j) = pr_nextID p + 1"
    then show False using assms(1) that n(1) by (fastforce simp: peer_ok_def)
  qed
  have m: "map_of (pr_calls p') = (map_of (pr_calls p))(pr_nextID p + 1 \<mapsto> length (pr_heap p))"
    by (simp add: r(6) i update_conv')
  have reg: "registered p' j = (if j = length (pr_heap p) then True else registered p j)" if "j \<le> length (pr_heap p)" for j
    using that new [of j] by (auto simp: registered_def m r(5) i nth_append)
  have acc: "accounted p' j" if "j \<le> length (pr_heap p)" for j
    using that reg [OF that] assms(1) by (auto simp: accounted_def peer_ok_def r(5) nth_append)
  have d: "distinct (map fst (pr_calls p'))" using assms(1) by (simp add: r(6) distinct_update peer_ok_def)
  have "inj_on (\<lambda>k. cl_id (pr_heap p ! k)) {..<length (pr_heap p)}" using assms(1) by (simp add: peer_ok_def)
  then have inj: "inj_on (\<lambda>k. cl_id (pr_heap p' ! k)) {..<length (pr_heap p')}"
    using new by (auto simp: inj_on_def r(5) i nth_append less_Suc_eq) metis
  show "peer_ok p'"
    using assms(1) d acc ev n inj unfolding peer_ok_def m
    by (auto simp: r(2-5) i nth_append less_Suc_eq_le split: if_splits) (meson less_imp_le)+
  show "stage_ok st p'" if "stage_ok st p"
  proof (cases st)
    case (InBody j recv)
    then show ?thesis using that reg by (fastforce simp: r(5) nth_append)
  qed simp_all
qed

text \<open>Taking a call from the map, finished or canceled.\<close>

definition drop_call :: "nat \<Rightarrow> (call \<Rightarrow> call) \<Rightarrow> peer \<Rightarrow> peer" where
  "drop_call k f p = p\<lparr>pr_heap := set_call k f (pr_heap p), pr_calls := AList.delete (cl_id (pr_heap p ! k)) (pr_calls p)\<rparr>"

lemma drop_call_simps [simp]:
  "length (pr_heap (drop_call k f p)) = length (pr_heap p)" "pr_err (drop_call k f p) = pr_err p"
  "pr_closed (drop_call k f p) = pr_closed p" "pr_nextID (drop_call k f p) = pr_nextID p"
  "pr_in (drop_call k f p) = pr_in p" "pr_out (drop_call k f p) = pr_out p"
  by (simp_all add: drop_call_def)

lemma drop_call_nth: "j < length (pr_heap p) \<Longrightarrow>
    pr_heap (drop_call k f p) ! j = (if j = k then f (pr_heap p ! j) else pr_heap p ! j)"
  by (simp add: drop_call_def nth_set_call)

lemma peer_ok_drop:
  assumes "peer_ok p" "k < length (pr_heap p)" "cl_id (f (pr_heap p ! k)) = cl_id (pr_heap p ! k)"
    "cl_done (f (pr_heap p ! k)) \<or> cl_err (f (pr_heap p ! k)) = Some ErrCanceled"
  shows "peer_ok (drop_call k f p)" "j < length (pr_heap p) \<Longrightarrow> j \<noteq> k \<Longrightarrow> registered (drop_call k f p) j = registered p j"
proof -
  let ?p = "drop_call k f p"
  have ids: "cl_id (pr_heap ?p ! j) = cl_id (pr_heap p ! j)" if "j < length (pr_heap p)" for j
    using drop_call_nth [OF that] assms(3) by simp
  have ne: "cl_id (pr_heap p ! j) \<noteq> cl_id (pr_heap p ! k)" if "j < length (pr_heap p)" "j \<noteq> k" for j
    using assms(1,2) that unfolding peer_ok_def inj_on_def by blast
  have m: "map_of (pr_calls ?p) = (map_of (pr_calls p))(cl_id (pr_heap p ! k) := None)"
    by (simp add: drop_call_def delete_conv')
  have reg: "registered ?p j = registered p j" if "j < length (pr_heap p)" "j \<noteq> k" for j
    using ids [OF that(1)] ne [OF that] by (simp add: registered_def m)
  then show "j < length (pr_heap p) \<Longrightarrow> j \<noteq> k \<Longrightarrow> registered ?p j = registered p j" .
  have acc: "accounted ?p j" if j: "j < length (pr_heap p)" for j
  proof (cases "j = k")
    case True
    then show ?thesis using assms(4) drop_call_nth [OF j] by (auto simp: accounted_def)
  next
    case False
    have "accounted p j" using assms(1) j by (simp add: peer_ok_def)
    then show ?thesis using reg [OF j False] drop_call_nth [OF j] False by (simp add: accounted_def)
  qed
  have calls: "j < length (pr_heap p) \<and> cl_id (pr_heap ?p ! j) = i
      \<and> (pr_err p = None \<longrightarrow> \<not> cl_done (pr_heap ?p ! j) \<and> cl_err (pr_heap ?p ! j) = None)"
    if "map_of (pr_calls ?p) i = Some j" for i j
  proof -
    have i: "i \<noteq> cl_id (pr_heap p ! k)" "map_of (pr_calls p) i = Some j" using that by (simp_all add: m split: if_splits)
    then have j: "j < length (pr_heap p) \<and> cl_id (pr_heap p ! j) = i
      \<and> (pr_err p = None \<longrightarrow> \<not> cl_done (pr_heap p ! j) \<and> cl_err (pr_heap p ! j) = None)"
      using assms(1) unfolding peer_ok_def by blast
    then have "j \<noteq> k" using i(1) by blast
    then show ?thesis using j drop_call_nth [of j p k f] by simp
  qed
  have "inj_on (\<lambda>k. cl_id (pr_heap ?p ! k)) {..<length (pr_heap p)} = inj_on (\<lambda>k. cl_id (pr_heap p ! k)) {..<length (pr_heap p)}"
    by (rule inj_on_cong) (simp add: ids)
  moreover have "distinct (map fst (pr_calls ?p))" using assms(1) by (simp add: drop_call_def distinct_delete peer_ok_def)
  ultimately show "peer_ok ?p" using assms(1) acc calls ids unfolding peer_ok_def by simp
qed

lemma registered_call:
  assumes "peer_ok p" "map_of (pr_calls p) i = Some k"
  shows "k < length (pr_heap p)" "cl_id (pr_heap p ! k) = i" "registered p k"
  using assms by (auto simp: peer_ok_def registered_def)

lemma header_wrong:
  assumes "peer_ok p" "map_of (pr_calls p) i = Some k"
  shows "p\<lparr>pr_heap := set_call k f (pr_heap p), pr_calls := AList.delete i (pr_calls p)\<rparr> = drop_call k f p"
  by (simp add: drop_call_def registered_call(2) [OF assms])

lemma handleIn_header_ok:
  assumes "peer_ok p" "handleIn_header res p = (st, p')"
  shows "peer_ok p' \<and> stage_ok st p'"
proof (cases res)
  case (Inr x)
  obtain ty i where x: "x = (ty, i)" by fastforce
  show ?thesis
  proof (cases "even i")
    case False
    then have i: "i AND 1 \<noteq> 0" by (simp add: and_1_even)
    show ?thesis
    proof (cases "map_of (pr_calls p) i")
      case None
      then show ?thesis using assms i by (auto simp: handleIn_header_def Inr x peer_ok_setErr)
    next
      case (Some k)
      note k = registered_call [OF assms(1) Some]
      show ?thesis
      proof (cases "ty = msgType (cl_resp (pr_heap p ! k))")
        case True
        then show ?thesis using assms i Some k by (auto simp: handleIn_header_def Inr x)
      next
        case False
        have d: "peer_ok (drop_call k (\<lambda>c. c\<lparr>cl_done := True\<rparr>) p)" using k(1) by (intro peer_ok_drop(1) [OF assms(1)]) simp_all
        have "st = InStopped" "p' = Peer_setErr ErrWrongResponse (drop_call k (\<lambda>c. c\<lparr>cl_done := True\<rparr>) p)"
          using assms(2) i Some False by (auto simp: handleIn_header_def Inr x header_wrong [OF assms(1) Some])
        then show ?thesis using peer_ok_setErr(1) [OF d] by simp
      qed
    qed
  qed (use assms in \<open>auto simp: handleIn_header_def Inr x and_1_even\<close>)
qed (use assms in \<open>auto simp: handleIn_header_def peer_ok_setErr\<close>)

lemma handleIn_body_ok:
  assumes "peer_ok p" "handleIn_body res i p = (st, p')"
  shows "peer_ok p' \<and> stage_ok st p'"
proof (cases res)
  case (Some r)
  show ?thesis
  proof (cases r)
    case (Inr m)
    show ?thesis
    proof (cases "map_of (pr_calls p) i")
      case (Some k)
      note k = registered_call [OF assms(1) Some]
      have "peer_ok (drop_call k (\<lambda>c. c\<lparr>cl_resp := m, cl_done := True\<rparr>) p)"
        using k(1) by (intro peer_ok_drop(1) [OF assms(1)]) simp_all
      then show ?thesis using assms Some
        by (auto simp: handleIn_body_def \<open>res = Some r\<close> Inr header_wrong [OF assms(1) Some] peer_ok_def accounted_def registered_def
            split: if_splits)
    qed (use assms in \<open>auto simp: handleIn_body_def \<open>res = Some r\<close> Inr peer_ok_def accounted_def registered_def split: if_splits\<close>)
  qed (use assms in \<open>auto simp: handleIn_body_def Some peer_ok_setErr\<close>)
qed (use assms in \<open>auto simp: handleIn_body_def\<close>)

lemma peer_ok_cancel:
  assumes "peer_ok p" "k < length (pr_heap p)"
  shows "peer_ok (Call_Cancel k p)" "stage_ok st p \<Longrightarrow> stage_ok st (Call_Cancel k p)"
proof -
  let ?f = "\<lambda>c. c\<lparr>cl_err := Some ErrCanceled\<rparr>"
  have c: "Call_Cancel k p = drop_call k ?f p" by (simp add: Call_Cancel_def drop_call_def)
  note d = peer_ok_drop [OF assms, of ?f, simplified]
  show "peer_ok (Call_Cancel k p)" using d(1) by (simp add: c)
  show "stage_ok st (Call_Cancel k p)" if "stage_ok st p"
  proof (cases st)
    case (InBody i recv)
    have "\<exists>j<length (pr_heap p). cl_id (pr_heap (drop_call k ?f p) ! j) = i
        \<and> map_option msgType recv = Some (msgType (cl_resp (pr_heap (drop_call k ?f p) ! j)))
        \<and> (registered (drop_call k ?f p) j \<or> cl_err (pr_heap (drop_call k ?f p) ! j) = Some ErrCanceled)" if odd: "odd i"
    proof -
      obtain j where j: "j < length (pr_heap p)" "cl_id (pr_heap p ! j) = i"
        "map_option msgType recv = Some (msgType (cl_resp (pr_heap p ! j)))"
        "registered p j \<or> cl_err (pr_heap p ! j) = Some ErrCanceled"
        using \<open>stage_ok st p\<close> odd InBody by auto
      show ?thesis
      proof (cases "j = k")
        case True
        then show ?thesis using j drop_call_nth [OF j(1)] by (intro exI [of _ j]) simp
      next
        case False
        then show ?thesis using j drop_call_nth [OF j(1)] d(2) [OF j(1)] by (intro exI [of _ j]) simp
      qed
    qed
    then show ?thesis by (simp add: InBody c)
  qed simp_all
qed

lemma peer_ok_more:
  assumes "peer_ok p" "pr_calls p' = pr_calls p" "pr_heap p' = pr_heap p" "pr_err p' = pr_err p" "pr_closed p' = pr_closed p"
    "even (pr_nextID p')" "unat (pr_nextID p) \<le> unat (pr_nextID p')"
  shows "peer_ok p'" "stage_ok st p \<Longrightarrow> stage_ok st p'"
proof -
  show "peer_ok p'" using assms by (auto simp: peer_ok_def accounted_def registered_def intro: order_less_le_trans)
  show "stage_ok st p \<Longrightarrow> stage_ok st p'" using assms(2,3) by (cases st) (simp_all add: registered_def)
qed

lemma peer_ok_buffers [simp]:
  "peer_ok (p\<lparr>pr_in := x\<rparr>) = peer_ok p" "peer_ok (p\<lparr>pr_out := x\<rparr>) = peer_ok p" "peer_ok (p\<lparr>pr_handshake := h\<rparr>) = peer_ok p"
  "stage_ok st (p\<lparr>pr_in := x\<rparr>) = stage_ok st p" "stage_ok st (p\<lparr>pr_out := x\<rparr>) = stage_ok st p"
  "stage_ok st (p\<lparr>pr_handshake := h\<rparr>) = stage_ok st p"
  by (simp_all add: peer_ok_def accounted_def registered_def) (cases st; simp add: registered_def)+

lemma peer_step_ok:
  assumes "peer_step H s s'" "run_ok s"
  shows "run_ok s'"
  using assms
proof cases
  case (read_header r p st p' os)
  then show ?thesis using assms(2) handleIn_header_ok by (auto simp: run_ok_def)
next
  case (read_body r recv i p st p' os)
  then show ?thesis using assms(2) handleIn_body_ok by (auto simp: run_ok_def)
next
  case (take_out p st p' "is")
  then show ?thesis using assms(2)
    by (auto simp: run_ok_def handleOut_take_def split: if_splits list.splits)
next
  case (write_out tm ok p st p' "is")
  then show ?thesis using assms(2) by (auto simp: run_ok_def handleOut_wrote_def peer_ok_setErr split: if_splits)
next
  case (write_panic tm "is" p)
  then show ?thesis using assms(2) by (simp add: run_ok_def)
next
  case (call p req resp k p' "is" os)
  then show ?thesis using assms(2) peer_ok_RPC [OF _ call(3,4)] by (simp add: run_ok_def)
next
  case (cancel k p "is" os)
  then show ?thesis using assms(2) peer_ok_cancel by (simp add: run_ok_def)
next
  case (fail "is" os p e)
  then show ?thesis using assms(2) by (simp add: run_ok_def peer_ok_setErr)
next
  case (take_in p tm rest "is" os)
  then show ?thesis using assms(2) by (simp add: run_ok_def)
next
  case (respond "is" os p i m)
  then show ?thesis using assms(2) by (simp add: run_ok_def Peer_send_def)
next
  case (relay p i p' "is" os m)
  then have "peer_ok p" "stage_ok is p" using assms(2) by (simp_all add: run_ok_def)
  moreover have "p' = p\<lparr>pr_nextID := pr_nextID p + 2\<rparr>" "even (pr_nextID p)"
    using relay(4) calculation by (auto simp: Peer_newID_def peer_ok_def)
  ultimately have "peer_ok p'" "stage_ok is p'"
    using next_ID(2) [OF relay(3)] by (auto intro: peer_ok_more [of p])
  then show ?thesis using relay by (simp add: run_ok_def Peer_send_def)
next
  case (tip "is" os p h)
  then show ?thesis using assms(2) by (simp add: run_ok_def)
qed

lemma peer_steps_ok: "peer_steps H s s' \<Longrightarrow> run_ok s \<Longrightarrow> run_ok s'"
  by (induction rule: rtranclp_induct) (auto dest: peer_step_ok)

lemma peer_start_ok: "run_ok (peer_start conn theirs)"
  by (simp add: peer_start_def run_ok_def NewPeer_def peer_ok_def)

end
