(* ===== verification/P2P_Calls.thy ===== *)
theory P2P_Calls
  imports P2P_Peer
begin

text \<open>What becomes of the calls of a peer in any run, and what stops the peer: the promises of p2p/peer.go and where it breaks them.\<close>

section \<open>What happens to a call in a step\<close>

lemma readMessage_type:
  assumes "readMessage H bs (Some recv) = Some (Inr m, rest)"
  shows "msgType m = msgType recv"
proof -
  obtain m' d where d: "message_DecodeFrom H recv (NewDecoder bs (MaxLen recv)) = Some (m', d)" "msgType m' = msgType recv"
    using total_message [of H recv] unfolding total_dec_def by blast
  then show ?thesis using assms by (auto simp: readMessage_def split: option.splits)
qed

text \<open>
  A call keeps its ID and the type of its response, and once it is finished it stays so. It is finished by an error, by
  a message that was read for it, or without either when the response has the wrong type.
\<close>

definition call_kept :: "hashfn \<Rightarrow> in_stage \<Rightarrow> peer \<Rightarrow> peer \<Rightarrow> nat \<Rightarrow> bool" where
  "call_kept H st p p' k \<longleftrightarrow>
     (let c = pr_heap p ! k; c' = pr_heap p' ! k in
      k < length (pr_heap p') \<and> cl_id c' = cl_id c \<and> msgType (cl_resp c') = msgType (cl_resp c) \<and> (cl_done c \<longrightarrow> cl_done c')
      \<and> (cl_done c \<or> \<not> cl_done c' \<or> cl_err c' \<noteq> None
         \<or> (\<exists>recv bs rest. st = InBody (cl_id c) (Some recv) \<and> readMessage H bs (Some recv) = Some (Inr (cl_resp c'), rest))
         \<or> (st = InHeader \<and> cl_resp c' = cl_resp c \<and> pr_err p' \<noteq> None)))"

lemma call_kept_same: "k < length (pr_heap p) \<Longrightarrow> pr_heap p' = pr_heap p \<Longrightarrow> call_kept H st p p' k"
  by (simp add: call_kept_def Let_def)

lemma call_kept_setErr: "peer_ok p \<Longrightarrow> k < length (pr_heap p) \<Longrightarrow> call_kept H st p (Peer_setErr e p) k"
  using setErr_call [of p k e] setErr_kept [of p k e]
  by (cases "pr_err p") (auto simp: call_kept_def Let_def)

lemma call_kept_header:
  assumes "peer_ok p" "k < length (pr_heap p)" "handleIn_header res p = (st, p')"
  shows "call_kept H InHeader p p' k"
proof (cases res)
  case (Inr x)
  obtain ty i where x: "x = (ty, i)" by fastforce
  show ?thesis
  proof (cases "even i \<or> map_of (pr_calls p) i = None")
    case True
    then show ?thesis
      using assms call_kept_setErr [OF assms(1,2)] call_kept_same [OF assms(2)]
      by (auto simp: handleIn_header_def Inr x and_1_even split: if_splits)
  next
    case False
    then obtain j where j: "map_of (pr_calls p) i = Some j" by auto
    note jc = registered_call [OF assms(1) j]
    show ?thesis
    proof (cases "ty = msgType (cl_resp (pr_heap p ! j))")
      case True
      then show ?thesis using assms False j call_kept_same [OF assms(2)]
        by (auto simp: handleIn_header_def Inr x and_1_even)
    next
      case ty: False
      let ?f = "\<lambda>c. c\<lparr>cl_done := True\<rparr>"
      let ?p = "drop_call j ?f p"
      have p': "p' = Peer_setErr ErrWrongResponse ?p"
        using assms(3) False j ty by (auto simp: handleIn_header_def Inr x and_1_even header_wrong [OF assms(1) j])
      have d: "peer_ok ?p" using jc(1) by (intro peer_ok_drop(1) [OF assms(1)]) simp_all
      have k: "k < length (pr_heap ?p)" using assms(2) by simp
      show ?thesis
      proof (cases "k = j")
        case True
        have "\<not> registered ?p j"
          using jc by (simp add: registered_def drop_call_nth) (simp add: drop_call_def delete_conv')
        then have "pr_heap p' ! k = ?f (pr_heap p ! k)"
          using setErr_call [OF d k, of ErrWrongResponse] True drop_call_nth [OF assms(2), of j ?f]
          by (cases "pr_err ?p") (simp_all add: p' del: drop_call_simps)
        then show ?thesis using assms(2) by (simp add: call_kept_def Let_def p')
      next
        case False
        then show ?thesis
          using call_kept_setErr [OF d k, of H InHeader ErrWrongResponse] drop_call_nth [OF assms(2), of j ?f]
          by (auto simp: call_kept_def Let_def p')
      qed
    qed
  qed
qed (use assms call_kept_setErr in \<open>auto simp: handleIn_header_def\<close>)

lemma net_body_read:
  assumes "net_body H r recv = Some (Inr m)"
  shows "\<exists>recv' bs rest. recv = Some recv' \<and> readMessage H bs (Some recv') = Some (Inr m, rest)"
proof -
  obtain recv' bs where r: "recv = Some recv'" "r = Some bs" using assms by (auto simp: net_body_def split: option.splits)
  obtain res rest where rd: "readMessage H bs (Some recv') = Some (res, rest)" "map_sum Some id res = Inr m"
    using assms r by (auto simp: net_body_def)
  then have "res = Inr m" by (cases res) simp_all
  then show ?thesis using r rd(1) by blast
qed

lemma call_kept_body:
  assumes "peer_ok p" "k < length (pr_heap p)" "stage_ok (InBody i recv) p" "handleIn_body (net_body H r recv) i p = (st, p')"
  shows "call_kept H (InBody i recv) p p' k"
proof (cases "\<exists>m j. net_body H r recv = Some (Inr m) \<and> odd i \<and> map_of (pr_calls p) i = Some j")
  case False
  then show ?thesis
    using assms call_kept_setErr [OF assms(1,2)] call_kept_same [OF assms(2)]
    by (auto simp: handleIn_body_def and_1_even split: option.splits sum.splits if_splits)
next
  case True
  then obtain m j where m: "net_body H r recv = Some (Inr m)" "odd i" "map_of (pr_calls p) i = Some j" by blast
  note jc = registered_call [OF assms(1) m(3)]
  obtain recv' bs rest where rd: "recv = Some recv'" "readMessage H bs (Some recv') = Some (Inr m, rest)"
    using net_body_read [OF m(1)] by blast
  have "msgType m = msgType (cl_resp (pr_heap p ! j))"
  proof -
    obtain l where l: "l < length (pr_heap p)" "cl_id (pr_heap p ! l) = i" "msgType recv' = msgType (cl_resp (pr_heap p ! l))"
      using assms(3) m(2) rd(1) by auto
    have "l = j" using l jc assms(1) unfolding peer_ok_def inj_on_def by auto
    then show ?thesis using readMessage_type [OF rd(2)] l(3) by simp
  qed
  moreover have "p' = drop_call j (\<lambda>c. c\<lparr>cl_resp := m, cl_done := True\<rparr>) p"
    using assms(4) m by (auto simp: handleIn_body_def and_1_even header_wrong [OF assms(1) m(3)])
  ultimately show ?thesis using assms(2) rd jc(2) by (auto simp: call_kept_def Let_def drop_call_nth)
qed

lemma call_kept_step:
  assumes "run_ok (st, os, p)" "peer_step H (st, os, p) (st', os', p')" "k < length (pr_heap p)"
  shows "call_kept H st p p' k"
proof -
  have ok: "peer_ok p" "stage_ok st p" using assms(1) by (simp_all add: run_ok_def)
  have same: "call_kept H st p p' k" if "pr_heap p' = pr_heap p" by (rule call_kept_same [OF assms(3) that])
  show ?thesis
    using assms(2)
  proof cases
    case (read_header r)
    then show ?thesis using call_kept_header [OF ok(1) assms(3)] by auto
  next
    case (read_body r recv i)
    then show ?thesis using call_kept_body [OF ok(1) assms(3)] ok(2) by auto
  next
    case take_out
    then show ?thesis by (intro same) (auto simp: handleOut_take_def split: if_splits list.splits)
  next
    case (write_out tm ok)
    then show ?thesis using call_kept_setErr [OF \<open>peer_ok p\<close> assms(3)] same
      by (auto simp: handleOut_wrote_def split: if_splits)
  next
    case (call req resp j)
    then show ?thesis using assms(3) RPC_simps(5) [OF call(4)] by (simp add: call_kept_def Let_def nth_append)
  next
    case (cancel j)
    have "p' = drop_call j (\<lambda>c. c\<lparr>cl_err := Some ErrCanceled\<rparr>) p" using cancel by (simp add: Call_Cancel_def drop_call_def)
    then show ?thesis using assms(3) by (simp add: call_kept_def Let_def drop_call_nth)
  next
    case (fail e)
    then show ?thesis using call_kept_setErr [OF ok(1) assms(3)] by simp
  next
    case (relay i q m)
    then show ?thesis by (intro same) (auto simp: Peer_send_def Peer_newID_def)
  qed (rule same; simp add: Peer_send_def)+
qed

text \<open>After the end of \<open>handleIn\<close> an unfinished call of a failed peer stays unfinished.\<close>

definition unanswered :: "nat \<Rightarrow> peer_run \<Rightarrow> bool" where
  "unanswered k s \<longleftrightarrow> (case s of (st, os, p) \<Rightarrow>
     st = InStopped \<and> pr_err p \<noteq> None \<and> k < length (pr_heap p) \<and> \<not> cl_done (pr_heap p ! k))"

lemma unanswered_step:
  assumes "peer_step H s s'" "unanswered k s"
  shows "unanswered k s'"
  using assms
  by cases (auto simp: unanswered_def handleOut_take_def handleOut_wrote_def Call_Cancel_def nth_set_call Peer_send_def
      Peer_newID_def nth_append Peer_RPC_def Let_def split: if_splits list.splits)

section \<open>Properties\<close>


text \<open>A call on a new peer, which then fails.\<close>

definition sample_handshake :: peer_handshake where
  "sample_handshake = \<lparr>hs_Version = 1, hs_Genesis = 0, hs_Tip = \<lparr>ci_Height = 0, ci_ID = 0\<rparr>, hs_Key = 5\<rparr>"

definition sample_peer :: peer where
  "sample_peer = snd (Peer_RPC (MsgGetHeaders []) (MsgHeaders []) (NewPeer 0 sample_handshake))"

lemma sample_peer_reached: "peer_steps H (peer_start 0 sample_handshake) (InHeader, OutIdle, sample_peer)"
proof -
  have "peer_step H (InHeader, OutIdle, NewPeer 0 sample_handshake) (InHeader, OutIdle, sample_peer)"
    by (rule peer_step.call [where k = 0]) (simp_all add: sample_peer_def NewPeer_def Peer_RPC_def Peer_newID_def Peer_send_def Let_def)
  then show ?thesis by (simp add: peer_start_def)
qed

lemma sample_peer_call:
  "pr_heap sample_peer = [\<lparr>cl_id = 1, cl_done = False, cl_resp = MsgHeaders [], cl_err = None\<rparr>]"
  "pr_calls sample_peer = [(1, 0)]" "pr_err sample_peer = None"
  by (simp_all add: sample_peer_def NewPeer_def Peer_RPC_def Peer_newID_def Peer_send_def Let_def)


text \<open>C18. No call of a healthy peer is lost: in every reachable state a call is finished, or was canceled by its caller, or
  waits in the map under its own ID, which no other call has; and when the peer fails, with whatever error, every
  call that was not canceled is finished, so that its caller wakes up.\<close>

theorem calls_accounted:
  assumes "peer_steps H (peer_start conn theirs) (st, os, p)" "k < length (pr_heap p)"
  shows "(Call_Wait k p \<noteq> None \<or> cl_err (pr_heap p ! k) = Some ErrCanceled
      \<or> map_of (pr_calls p) (cl_id (pr_heap p ! k)) = Some k)
    \<and> (\<forall>j<length (pr_heap p). cl_id (pr_heap p ! j) = cl_id (pr_heap p ! k) \<longrightarrow> j = k)
    \<and> (pr_err p = None \<longrightarrow> cl_err (pr_heap p ! k) \<noteq> Some ErrCanceled \<longrightarrow> Call_Wait k (Peer_setErr e p) \<noteq> None)"
proof -
  have ok: "peer_ok p" using peer_steps_ok [OF assms(1) peer_start_ok] by (simp add: run_ok_def)
  have acc: "accounted p k" using ok assms(2) by (simp add: peer_ok_def)
  have inj: "inj_on (\<lambda>k. cl_id (pr_heap p ! k)) {..<length (pr_heap p)}" using ok by (simp add: peer_ok_def)
  have ids: "j = k" if "j < length (pr_heap p)" "cl_id (pr_heap p ! j) = cl_id (pr_heap p ! k)" for j
    by (rule inj_onD [OF inj that(2)]) (use that assms(2) in simp_all)
  have wakes: "Call_Wait k (Peer_setErr e p) \<noteq> None" if "pr_err p = None" "cl_err (pr_heap p ! k) \<noteq> Some ErrCanceled"
    using acc that setErr_call [OF ok assms(2) that(1), of e] by (auto simp: accounted_def Call_Wait_def)
  show ?thesis
    using acc ids wakes by (auto simp: accounted_def Call_Wait_def registered_def)
qed

theorem calls_accounted_witness:
  "map_of (pr_calls sample_peer) 1 = Some 0 \<and> Call_Wait 0 sample_peer = None
    \<and> Call_Wait 0 (Peer_setErr ErrWrite sample_peer) \<noteq> None"
  using calls_accounted [OF sample_peer_reached, of 0 ErrWrite] by (simp add: sample_peer_call Call_Wait_def)

text \<open>A call on a peer that has failed never returns: once \<open>handleIn\<close> has ended, a new call stays unfinished through
  every further step, and \<open>Wait\<close> blocks for ever. The sync loop makes such a call when the peer it synchronizes
  with fails between two requests.\<close>

theorem failed_peer_never_answers:
  assumes "pr_err p \<noteq> None" "Peer_RPC req resp p = (k, p')" "peer_steps H (InStopped, os, p') (st, os', p'')"
  shows "Call_Wait k p'' = None"
proof -
  have "unanswered k (InStopped, os, p')" using RPC_simps [OF assms(2)] assms(1) by (simp add: unanswered_def)
  with assms(3) have "unanswered k (st, os', p'')"
    by (induction rule: rtranclp_induct) (auto intro: unanswered_step)
  then show ?thesis by (simp add: Call_Wait_def unanswered_def)
qed

theorem failed_peer_never_answers_witness:
  "\<exists>p'. Peer_RPC (MsgGetHeaders []) (MsgHeaders []) (Peer_disconnect (NewPeer 0 sample_handshake)) = (0, p')
    \<and> Call_Wait 0 p' = None"
proof -
  let ?p = "Peer_disconnect (NewPeer 0 sample_handshake)"
  obtain p' where p': "Peer_RPC (MsgGetHeaders []) (MsgHeaders []) ?p = (0, p')"
    by (simp add: Peer_RPC_def Peer_newID_def Peer_send_def Let_def Peer_disconnect_def Peer_setErr_def NewPeer_def)
  have "pr_err ?p \<noteq> None" by (simp add: Peer_disconnect_def)
  from failed_peer_never_answers [OF this p', of sample_hash OutStopped] p' show ?thesis by blast
qed

text \<open>A response of the wrong type looks like an answer: the call is finished without an error and with the response
  its caller passed in, usually an empty one, while the peer fails.\<close>

theorem wrong_type_unnoticed:
  assumes "peer_steps H (peer_start conn theirs) (InHeader, os, p)" "pr_err p = None" "map_of (pr_calls p) i = Some k"
    "typ \<noteq> msgType (cl_resp (pr_heap p ! k))" "handleIn_header (Inr (typ, i)) p = (st, p')"
  shows "Call_Wait k p' = Some None \<and> cl_resp (pr_heap p' ! k) = cl_resp (pr_heap p ! k) \<and> pr_err p' = Some ErrWrongResponse"
proof -
  have ok: "peer_ok p" using peer_steps_ok [OF assms(1) peer_start_ok] by (simp add: run_ok_def)
  note k = registered_call [OF ok assms(3)]
  let ?f = "\<lambda>c. c\<lparr>cl_done := True\<rparr>"
  let ?p = "drop_call k ?f p"
  have odd: "odd i" and err: "cl_err (pr_heap p ! k) = None"
    using ok k assms(2,3) unfolding peer_ok_def by blast+
  then have p': "p' = Peer_setErr ErrWrongResponse ?p"
    using assms(3-5) by (auto simp: handleIn_header_def and_1_even header_wrong [OF ok assms(3)])
  have d: "peer_ok ?p" using k(1) by (intro peer_ok_drop(1) [OF ok]) simp_all
  have "\<not> registered ?p k" using k by (simp add: registered_def drop_call_nth) (simp add: drop_call_def delete_conv')
  then have "pr_heap p' ! k = ?f (pr_heap p ! k)"
    using setErr_call [OF d, of k ErrWrongResponse] k(1) assms(2) drop_call_nth [OF k(1), of k ?f] by (simp add: p')
  then show ?thesis using err assms(2) by (simp add: Call_Wait_def p' Peer_setErr_def)
qed

theorem wrong_type_unnoticed_witness:
  "Call_Wait 0 (snd (handleIn_header (Inr (4, 1)) sample_peer)) = Some None"
  using wrong_type_unnoticed [OF sample_peer_reached _ _ _ surjective_pairing, of 1 0 4] by (simp add: sample_peer_call)



end
