(* ===== verification/P2P_Syncer.thy ===== *)
theory P2P_Syncer
  imports P2P_Calls Manager_Sync
begin

text \<open>
  p2p/syncer.go and the rest of p2p/peer.go: the syncer with its peers, the answers to requests, and the request
  loop; p2p/checkpoint.go: what makes a downloaded checkpoint acceptable. Every method holds the mutex of the syncer
  for its whole body, so one turn of the request loop is one step. A peer is named by its connection. The pool is a
  subscriber of the manager, and the syncer holds its place among them. \<open>None\<close> is a panic; the errors that the
  program words are values.
\<close>

section \<open>The syncer\<close>

datatype syncer_error =
  ErrSyncClosing | ErrAccept | ErrLoadHeaders store_error | ErrLoadBlock store_error | ErrLoadState store_error
| ErrTipBlock manager_error | ErrSyncHistory store_error | ErrSyncHeaders manager_error

record 's syncer =
  sy_cm :: "('s, pool) manager"
  sy_tp :: nat
  sy_peers :: "peer list"
  sy_handshake :: peer_handshake
  sy_err :: "syncer_error option"
  sy_listening :: bool

definition NewSyncer :: "block_id \<Rightarrow> 256 word \<Rightarrow> ('s, pool) manager \<Rightarrow> nat \<Rightarrow> 's syncer" where
  "NewSyncer genesisID key cm tp =
     \<lparr>sy_cm = cm, sy_tp = tp, sy_peers = [],
      sy_handshake = \<lparr>hs_Version = 1, hs_Genesis = genesisID, hs_Tip = Manager_Tip cm, hs_Key = key\<rparr>,
      sy_err = None, sy_listening = True\<rparr>"

definition Syncer_setErr :: "syncer_error \<Rightarrow> 's syncer \<Rightarrow> 's syncer" where
  "Syncer_setErr e s =
     (if sy_err s = None
      then s\<lparr>sy_err := Some e, sy_peers := map Peer_disconnect (sy_peers s), sy_listening := False\<rparr>
      else s)"

definition Syncer_Close :: "'s syncer \<Rightarrow> syncer_error option \<times> 's syncer" where
  "Syncer_Close s =
     (let s = Syncer_setErr ErrSyncClosing s
      in (if sy_err s = Some ErrSyncClosing then None else sy_err s, s))"

text \<open>\<open>None\<close> while \<open>Run\<close> blocks.\<close>

definition Syncer_Run :: "'s syncer \<Rightarrow> syncer_error option option" where
  "Syncer_Run s =
     (case sy_err s of None \<Rightarrow> None | Some e \<Rightarrow> Some (if e \<noteq> ErrSyncClosing then Some e else None))"

definition acceptLoop_failed :: "'s syncer \<Rightarrow> 's syncer" where
  "acceptLoop_failed s = Syncer_setErr ErrAccept s"

text \<open>The change of the peer with a connection.\<close>

definition on_peer :: "nat \<Rightarrow> (peer \<Rightarrow> peer) \<Rightarrow> 's syncer \<Rightarrow> 's syncer" where
  "on_peer conn f s = s\<lparr>sy_peers := map (\<lambda>p. if pr_conn p = conn then f p else p) (sy_peers s)\<rparr>"

section \<open>Connections\<close>

definition removeDisconnected :: "'s syncer \<Rightarrow> 's syncer" where
  "removeDisconnected s = s\<lparr>sy_peers := filter (\<lambda>p. pr_err p = None) (sy_peers s)\<rparr>"

datatype connect_error =
  ErrReadHandshake handshake_error | ErrOurself | ErrGenesis | ErrPeerVersion | ErrAlreadyConnected

text \<open>\<open>conn\<close> is the new connection.\<close>

definition addPeer :: "nat \<Rightarrow> peer_handshake \<Rightarrow> peer_handshake \<Rightarrow> 's syncer \<Rightarrow> (connect_error + unit) \<times> 's syncer" where
  "addPeer conn ours theirs s =
     (if hs_Key theirs = hs_Key ours then (Inl ErrOurself, s)
      else if hs_Genesis theirs \<noteq> hs_Genesis ours then (Inl ErrGenesis, s)
      else if hs_Version theirs \<noteq> hs_Version ours then (Inl ErrPeerVersion, s)
      else if list_ex (\<lambda>p. hs_Key (pr_handshake p) = hs_Key theirs) (sy_peers s) then (Inl ErrAlreadyConnected, s)
      else (Inr (), s\<lparr>sy_peers := sy_peers s @ [NewPeer conn theirs]\<rparr>))"

definition our_handshake :: "'s syncer \<Rightarrow> peer_handshake" where
  "our_handshake s = (sy_handshake s)\<lparr>hs_Tip := Manager_Tip (sy_cm s)\<rparr>"

text \<open>
  The two ends of a new connection, whose network calls succeed: what is sent, what is read, and the syncer that
  results. Our side of \<open>Connect\<close> sends first.
\<close>

definition Syncer_Connect :: "nat \<Rightarrow> byte list \<Rightarrow> 's syncer \<Rightarrow> byte list \<times> (connect_error + unit) \<times> 's syncer" where
  "Syncer_Connect conn r s =
     (let ours = our_handshake s in
      (writeHandshake ours,
       case fst (readHandshake r) of
         Inl e \<Rightarrow> (Inl (ErrReadHandshake e), s)
       | Inr theirs \<Rightarrow> addPeer conn ours theirs s))"

definition acceptConnection :: "nat \<Rightarrow> byte list \<Rightarrow> 's syncer \<Rightarrow> byte list \<times> (connect_error + unit) \<times> 's syncer" where
  "acceptConnection conn r s =
     (let ours = our_handshake s in
      case fst (readHandshake r) of
        Inl e \<Rightarrow> ([], Inl (ErrReadHandshake e), s)
      | Inr theirs \<Rightarrow>
          if hs_Genesis theirs \<noteq> hs_Genesis ours then ([], Inl ErrGenesis, s)
          else if hs_Version theirs \<noteq> hs_Version ours then ([], Inl ErrPeerVersion, s)
          else (writeHandshake ours, addPeer conn ours theirs s))"

text \<open>\<open>addr_of\<close> gives the remote address of a connection; the first peer at the address is disconnected.\<close>

fun find_addr :: "(nat \<Rightarrow> string) \<Rightarrow> string \<Rightarrow> peer list \<Rightarrow> nat option" where
  "find_addr addr_of addr [] = None"
| "find_addr addr_of addr (p # ps) = (if addr_of (pr_conn p) = addr then Some (pr_conn p) else find_addr addr_of addr ps)"

definition Syncer_Disconnect :: "(nat \<Rightarrow> string) \<Rightarrow> string \<Rightarrow> 's syncer \<Rightarrow> bool \<times> 's syncer" where
  "Syncer_Disconnect addr_of addr s =
     (case find_addr addr_of addr (sy_peers s) of
        None \<Rightarrow> (False, s)
      | Some conn \<Rightarrow> (True, removeDisconnected (on_peer conn Peer_disconnect s)))"

definition Syncer_Peers :: "'s syncer \<Rightarrow> peer list \<times> 's syncer" where
  "Syncer_Peers s = (let s = removeDisconnected s in (sy_peers s, s))"

text \<open>A message to every peer but the one it came from; each peer gives it an ID of its own.\<close>

definition relay_to :: "message \<Rightarrow> peer \<Rightarrow> peer" where
  "relay_to m p = (let (i, p) = Peer_newID p in Peer_send \<lparr>tm_id = i, tm_m = m\<rparr> p)"

definition Syncer_relay :: "nat option \<Rightarrow> message \<Rightarrow> 's syncer \<Rightarrow> 's syncer" where
  "Syncer_relay orig m s =
     s\<lparr>sy_peers := map (\<lambda>p. if Some (pr_conn p) \<noteq> orig then relay_to m p else p) (sy_peers s)\<rparr>"

definition Syncer_Broadcast :: "message \<Rightarrow> 's syncer \<Rightarrow> 's syncer" where
  "Syncer_Broadcast m s = Syncer_relay None m s"

text \<open>The first request of the first peer that has one.\<close>

fun pop_request :: "peer list \<Rightarrow> ((nat \<times> tagged_message) \<times> peer list) option" where
  "pop_request [] = None"
| "pop_request (p # ps) =
     (case pr_in p of
        tm # rest \<Rightarrow> Some ((pr_conn p, tm), p\<lparr>pr_in := rest\<rparr> # ps)
      | [] \<Rightarrow> map_option (\<lambda>(x, ps). (x, p # ps)) (pop_request ps))"

definition nextRequest :: "'s syncer \<Rightarrow> ((nat \<times> tagged_message) \<times> 's syncer) option" where
  "nextRequest s = map_option (\<lambda>(x, ps). (x, s\<lparr>sy_peers := ps\<rparr>)) (pop_request (sy_peers s))"

section \<open>Requests\<close>

text \<open>
  A handler gives its response, if any, and the syncer it leaves. The history is sorted from the highest index down;
  the order of indices of one height, which \<open>sort.Slice\<close> leaves open, does not matter, as at most one of them is on
  the best chain.
\<close>

definition sort_history :: "chain_index list \<Rightarrow> chain_index list" where
  "sort_history h = sort_key (\<lambda>i. 2 ^ 64 - unat (ci_Height i)) h"

definition handleMsgGetHeaders ::
    "'s manager_store \<Rightarrow> chain_index list \<Rightarrow> 's syncer \<Rightarrow> (message option \<times> 's syncer) option" where
  "handleMsgGetHeaders S history s = do {
     r \<leftarrow> Manager_HeadersForHistory S (sy_cm s) 2000 (sort_history history);
     Some (case r of
       Inl e \<Rightarrow> (None, Syncer_setErr (ErrLoadHeaders e) s)
     | Inr headers \<Rightarrow> (Some (MsgHeaders headers), s))
   }"

text \<open>The loop ends at the first block the store does not have.\<close>

fun collect_blocks :: "'s manager_store \<Rightarrow> ('s, pool) manager \<Rightarrow> chain_index list \<Rightarrow> store_error + block list" where
  "collect_blocks S m [] = Inr []"
| "collect_blocks S m (i # is) =
     (case Manager_Block S m i of
        Inl ErrStoreIO \<Rightarrow> Inl ErrStoreIO
      | Inl _ \<Rightarrow> Inr []
      | Inr b \<Rightarrow> map_sum id ((#) b) (collect_blocks S m is))"

definition handleMsgGetBlocks :: "'s manager_store \<Rightarrow> nat \<Rightarrow> chain_index list \<Rightarrow> 's syncer \<Rightarrow> message option \<times> 's syncer" where
  "handleMsgGetBlocks S conn indices s =
     (if indices = [] then (None, on_peer conn Peer_ban s)
      else (case collect_blocks S (sy_cm s) indices of
        Inl e \<Rightarrow> (None, Syncer_setErr (ErrLoadBlock e) s)
      | Inr blocks \<Rightarrow> (Some (MsgBlocks blocks), s)))"

definition handleMsgGetCheckpoint :: "'s manager_store \<Rightarrow> nat \<Rightarrow> chain_index \<Rightarrow> 's syncer \<Rightarrow> message option \<times> 's syncer" where
  "handleMsgGetCheckpoint S conn index s =
     (case Manager_Block S (sy_cm s) index of
        Inl ErrPruned \<Rightarrow> (None, s)
      | Inl ErrUnknownIndex \<Rightarrow> (None, on_peer conn Peer_warn s)
      | Inl e \<Rightarrow> (None, Syncer_setErr (ErrLoadBlock e) s)
      | Inr b \<Rightarrow>
     (case Manager_State S (sy_cm s) (BlockHeader_ParentIndex (b_Header b)) of
        Inl ErrPruned \<Rightarrow> (None, s)
      | Inl e \<Rightarrow> (None, Syncer_setErr (ErrLoadState e) s)
      | Inr cs \<Rightarrow> (Some (MsgCheckpoint b cs), s)))"

text \<open>The errors that wrap \<open>ErrUnknownIndex\<close>.\<close>

definition unknown_index :: "manager_error \<Rightarrow> bool" where
  "unknown_index e \<longleftrightarrow> e = ErrMissingParent \<or> e = ErrStoreFailed ErrUnknownIndex"

definition handleMsgRelayBlock ::
    "hashfn \<Rightarrow> verifier \<Rightarrow> 's manager_store \<Rightarrow> gotime \<Rightarrow> nat \<Rightarrow> block \<Rightarrow> 's syncer \<Rightarrow> (message option \<times> 's syncer) option" where
  "handleMsgRelayBlock H verify S now conn b s = do {
     (r, m) \<leftarrow> Manager_AddTipBlock H verify S (PoolSubscriber H verify) now (sy_cm s) b;
     let s = s\<lparr>sy_cm := m\<rparr>;
     Some (case r of
       Inr _ \<Rightarrow> (Some (MsgRelayBlock b), s)
     | Inl e \<Rightarrow>
         if e = ErrKnownBlock then (None, s)
         else if unknown_index e then
           (None, on_peer conn (\<lambda>p. p\<lparr>pr_handshake := (pr_handshake p)\<lparr>hs_Tip := Block_Index H b\<rparr>\<rparr>) s)
         else (None, Syncer_setErr (ErrTipBlock e) s))
   }"

text \<open>The pool after the transactions, and whether all of them were added.\<close>

fun relay_txns :: "hashfn \<Rightarrow> verifier \<Rightarrow> pool \<Rightarrow> transaction list \<Rightarrow> (bool \<times> pool) option" where
  "relay_txns H verify p [] = Some (True, p)"
| "relay_txns H verify p (txn # txns) = do {
     r \<leftarrow> Pool_AddTransaction H verify p txn;
     (case r of Inl e \<Rightarrow> Some (False, p) | Inr p \<Rightarrow> relay_txns H verify p txns)
   }"

definition handleMsgRelayTransactionSet ::
    "hashfn \<Rightarrow> verifier \<Rightarrow> nat \<Rightarrow> transaction list \<Rightarrow> 's syncer \<Rightarrow> (message option \<times> 's syncer) option" where
  "handleMsgRelayTransactionSet H verify conn txns s = do {
     p \<leftarrow> at (m_subscribers (sy_cm s)) (sy_tp s);
     (ok, p) \<leftarrow> relay_txns H verify p txns;
     let s = s\<lparr>sy_cm := (sy_cm s)\<lparr>m_subscribers := (m_subscribers (sy_cm s))[sy_tp s := p]\<rparr>\<rparr>;
     Some (if ok then (Some (MsgRelayTransactionSet txns), s) else (None, on_peer conn Peer_warn s))
   }"

definition handleRequest ::
    "hashfn \<Rightarrow> verifier \<Rightarrow> 's manager_store \<Rightarrow> gotime \<Rightarrow> nat \<Rightarrow> message \<Rightarrow> 's syncer \<Rightarrow> (message option \<times> 's syncer) option" where
  "handleRequest H verify S now conn msg s =
     (case msg of
        MsgGetHeaders h \<Rightarrow> handleMsgGetHeaders S h s
      | MsgGetBlocks is \<Rightarrow> Some (handleMsgGetBlocks S conn is s)
      | MsgGetCheckpoint i \<Rightarrow> Some (handleMsgGetCheckpoint S conn i s)
      | MsgRelayBlock b \<Rightarrow> handleMsgRelayBlock H verify S now conn b s
      | MsgRelayTransactionSet txns \<Rightarrow> handleMsgRelayTransactionSet H verify conn txns s
      | _ \<Rightarrow> Some (None, s))"

text \<open>One turn of the request loop: \<open>Some (False, s)\<close> when it waits for a request.\<close>

definition request_turn :: "hashfn \<Rightarrow> verifier \<Rightarrow> 's manager_store \<Rightarrow> gotime \<Rightarrow> 's syncer \<Rightarrow> (bool \<times> 's syncer) option" where
  "request_turn H verify S now s =
     (let s = removeDisconnected s in
      case nextRequest s of
        None \<Rightarrow> Some (False, s)
      | Some ((conn, tm), s) \<Rightarrow> do {
          (resp, s) \<leftarrow> handleRequest H verify S now conn (tm_m tm) s;
          Some (True, case resp of
            None \<Rightarrow> s
          | Some m \<Rightarrow>
              if isRelayMessage m then Syncer_relay (Some conn) m s
              else on_peer conn (Peer_send \<lparr>tm_id = tm_id tm OR 1, tm_m = m\<rparr>) s)
        })"

section \<open>Checkpoints\<close>

datatype checkpoint_error =
  ErrCheckpointHandshake handshake_error | ErrCheckpointGenesis | ErrCheckpointVersion | ErrCheckpointCall peer_error
| ErrCheckpointHeader | ErrCheckpointCommitment

text \<open>Our handshake names the genesis block as our tip.\<close>

definition checkpoint_handshake :: "block_id \<Rightarrow> 256 word \<Rightarrow> peer_handshake" where
  "checkpoint_handshake genesisID key =
     \<lparr>hs_Version = 1, hs_Genesis = genesisID, hs_Tip = \<lparr>ci_Height = 0, ci_ID = genesisID\<rparr>, hs_Key = key\<rparr>"

text \<open>What \<open>DownloadCheckpoint\<close> makes of the response.\<close>

definition accept_checkpoint ::
    "hashfn \<Rightarrow> chain_index \<Rightarrow> block \<Rightarrow> chain_state \<Rightarrow> (checkpoint_error + checkpoint) option" where
  "accept_checkpoint H index b parent =
     (if Block_Index H b \<noteq> index \<or> BlockHeader_ParentIndex (b_Header b) \<noteq> cs_Index parent then Some (Inl ErrCheckpointHeader)
      else if Commitment H parent (bh_MinerAddress (b_Header b)) (b_Transactions b) \<noteq> bh_Commitment (b_Header b)
      then Some (Inl ErrCheckpointCommitment)
      else do {
        au \<leftarrow> ApplyBlock H parent b;
        Some (Inr \<lparr>cp_Block = b, cp_State = au_State au\<rparr>)
      })"

text \<open>
  The whole download on a connection: \<open>r\<close> is what the peer sends for its handshake, and \<open>answer\<close> tells, for the call
  on the peer, what \<open>Wait\<close> returns and the response then holds. A peer that serves checkpoints is a new one with one
  call.
\<close>

definition DownloadCheckpoint ::
    "hashfn \<Rightarrow> block_id \<Rightarrow> 256 word \<Rightarrow> nat \<Rightarrow> chain_index \<Rightarrow> byte list \<Rightarrow> (nat \<times> peer \<Rightarrow> peer_error + block \<times> chain_state)
     \<Rightarrow> byte list \<times> (checkpoint_error + checkpoint) option" where
  "DownloadCheckpoint H genesisID key conn index r answer =
     (let ours = checkpoint_handshake genesisID key in
      (writeHandshake ours,
       case fst (readHandshake r) of
         Inl e \<Rightarrow> Some (Inl (ErrCheckpointHandshake e))
       | Inr theirs \<Rightarrow>
           if hs_Genesis theirs \<noteq> hs_Genesis ours then Some (Inl ErrCheckpointGenesis)
           else if hs_Version theirs \<noteq> hs_Version ours then Some (Inl ErrCheckpointVersion)
           else (case answer (Peer_RPC (MsgGetCheckpoint index) (the (newMsg 8)) (NewPeer conn theirs)) of
             Inl e \<Rightarrow> Some (Inl (ErrCheckpointCall e))
           | Inr (b, parent) \<Rightarrow> accept_checkpoint H index b parent)))"

end
