(* ===== verification/P2P_Service.thy ===== *)
theory P2P_Service
  imports P2P_Syncer
begin

text \<open>What a node serves to its peers: answers to requests, relayed blocks and checkpoints, between honest nodes and against others.\<close>

section \<open>Pools never fail the manager\<close>

lemma notify_pools:
  assumes "notify (\<lambda>u. sb_Apply (PoolSubscriber H verify) u cau mc) us = Some (e, us')"
  shows "e = None"
  using assms
  by (induction us arbitrary: e us') (auto simp: PoolSubscriber_def split: Option.bind_splits option.splits)

lemma commit_tip_ok:
  assumes "commit_tip H EphemeralStore (PoolSubscriber H verify) now m b = Some (r, m')"
  shows "r = Inr ()"
proof -
  have f: "flush_tip EphemeralStore now m1 \<noteq> (Inl e, m2)" for m1 e m2
    by (auto simp: flush_tip_def EphemeralStore_Flush_def split: if_splits)
  have n: "notify_apply (PoolSubscriber H verify) au b mc m1 = Some (r1, m2) \<Longrightarrow> r1 = Inr ()" for au b mc m1 r1 m2
    by (auto simp: notify_apply_def split: Option.bind_splits option.splits dest: notify_pools)
  show ?thesis using assms unfolding commit_tip_def Let_def EphemeralStore_simps EphemeralStore_AddCheckpoint_def
    by (auto simp: f EphemeralStore_ExtendBest_def split: Option.bind_splits sum.splits prod.splits if_splits dest: n)
qed

text \<open>The errors of \<open>AddTipBlock\<close> on the in-memory store with pools.\<close>

lemma AddTipBlock_errors:
  assumes "Manager_AddTipBlock H verify EphemeralStore (PoolSubscriber H verify) now m b = Some (Inl e, m')"
  shows "(if bh_ParentID (b_Header b) = ci_ID (cs_Index (m_cs m))
      then (e = ErrFutureBlock \<and> MaxFutureTimestamp (m_cs m) now < bh_Timestamp (b_Header b))
        \<or> (\<exists>v. e = ErrInvalidTip v \<and> ValidateBlock H verify (m_cs m) b = Some (Inl v))
      else e = ErrKnownBlock \<or> e = ErrMissingParent)"
  using assms
  by (auto simp: Manager_AddTipBlock_def detached_error_def EphemeralStore_Header_def EphemeralStore_Checkpoint_def
      split: if_splits Option.bind_splits sum.splits option.splits store_error.splits dest: commit_tip_ok)

lemma AddTipBlock_no_sub:
  assumes "Manager_AddTipBlock H verify EphemeralStore (PoolSubscriber H verify) now m b = Some (r, m')"
  shows "no_sub r"
  using AddTipBlock_errors assms by (fastforce split: if_splits)

section \<open>Relayed blocks\<close>


definition sample_syncer :: "ephemeral_store syncer" where
  "sample_syncer = (NewSyncer (ci_ID (cs_Index base_state)) 9 run_subscribed 0)\<lparr>sy_peers := [NewPeer 3 sample_handshake]\<rparr>"

lemma sample_syncer_simps [simp]:
  "sy_cm sample_syncer = run_subscribed" "sy_err sample_syncer = None" "sy_peers sample_syncer = [NewPeer 3 sample_handshake]"
  by (simp_all add: sample_syncer_def NewSyncer_def)


section \<open>Blocks and checkpoints on request\<close>

lemma Block_known:
  "Manager_Block EphemeralStore m i = (case es_entries (m_store m) i of None \<Rightarrow> Inl ErrUnknownIndex | Some c \<Rightarrow> Inr (cp_Block c))"
  "Manager_State EphemeralStore m i = (case es_entries (m_store m) i of None \<Rightarrow> Inl ErrUnknownIndex | Some c \<Rightarrow> Inr (cp_State c))"
  by (simp_all add: Manager_Block_def Manager_State_def EphemeralStore_Checkpoint_def split: option.split)

text \<open>The blocks served are those up to the first index that the store does not have.\<close>

lemma collect_blocks_eq:
  "collect_blocks EphemeralStore m is =
     Inr (map (\<lambda>i. cp_Block (the (es_entries (m_store m) i))) (takeWhile (\<lambda>i. es_entries (m_store m) i \<noteq> None) is))"
  by (induction "is") (auto simp: Block_known split: option.split)

text \<open>C22. A checkpoint that a node serves is one that the client accepts, and the client ends with the very checkpoint of
  the node: for every stored index above the base the handler answers with the block and the state of its parent,
  every check of the client passes, and applying the block gives the stored state.\<close>

theorem served_checkpoint_accepted:
  assumes "mgr_reach H verify c0 B (sy_cm s)" "names_blocks H c0 B"
    "es_entries (m_store (sy_cm s)) i = Some c" "i \<noteq> cs_Index (cp_State c0)"
  shows "\<exists>b cs. handleMsgGetCheckpoint EphemeralStore conn i s = (Some (MsgCheckpoint b cs), s)
    \<and> accept_checkpoint H i b cs = Some (Inr c)"
proof -
  note inv = mgr_reach_inv [OF assms(2,1)]
  obtain p where p: "es_entries (m_store (sy_cm s)) (BlockHeader_ParentIndex (b_Header (cp_Block c))) = Some p"
    "valid_child H verify p c"
    using pool_manager.inv_entry(4) [OF inv assms(3,4)] by blast
  have "bh_Commitment (b_Header (cp_Block c)) = Commitment H (cp_State p) (bh_MinerAddress (b_Header (cp_Block c))) (b_Transactions (cp_Block c))"
    using p(2) by (simp add: valid_child_def ValidateBlock_valid)
  moreover obtain au where "ApplyBlock H (cp_State p) (cp_Block c) = Some au" "au_State au = cp_State c"
    using p(2) by (auto simp: valid_child_def)
  moreover have "Block_Index H (cp_Block c) = i" by (rule pool_manager.inv_entry(2) [OF inv assms(3)])
  moreover have "BlockHeader_ParentIndex (b_Header (cp_Block c)) = cs_Index (cp_State p)" using p(2) by (simp add: valid_child_def)
  ultimately have "accept_checkpoint H i (cp_Block c) (cp_State p) = Some (Inr c)" by (simp add: accept_checkpoint_def)
  moreover have "handleMsgGetCheckpoint EphemeralStore conn i s = (Some (MsgCheckpoint (cp_Block c) (cp_State p)), s)"
    using assms(3) p(1) by (simp add: handleMsgGetCheckpoint_def Block_known)
  ultimately show ?thesis by blast
qed

lemma run_block_entry:
  obtains m' c where "Manager_AddTipBlock sample_hash sample_verify EphemeralStore (PoolSubscriber sample_hash sample_verify) 0
      run_subscribed next_block = Some (Inr (), m')"
    "mgr_reach sample_hash sample_verify base_checkpoint {next_block} m'"
    "es_entries (m_store m') (Block_Index sample_hash next_block) = Some c"
proof -
  obtain m' where m': "Manager_AddTipBlock sample_hash sample_verify EphemeralStore (PoolSubscriber sample_hash sample_verify) 0
      run_subscribed next_block = Some (Inr (), m')"
      "es_best (m_store m') = [cs_Index base_state, Block_Index sample_hash next_block]" using run_block by blast
  have r: "mgr_reach sample_hash sample_verify base_checkpoint {next_block} m'"
    by (rule mgr_reach.tip_block [OF run_subscribed_reach _ m'(1)]) simp_all
  have "es_entries (m_store m') (Block_Index sample_hash next_block) \<noteq> None"
    by (rule pool_manager.best_entries [OF mgr_reach_inv [OF next_names r]]) (simp add: m'(2))
  then show ?thesis using that m'(1) r by blast
qed

theorem served_checkpoint_accepted_witness:
  "\<exists>m' b cs c. handleMsgGetCheckpoint EphemeralStore 3 (Block_Index sample_hash next_block) (sample_syncer\<lparr>sy_cm := m'\<rparr>)
      = (Some (MsgCheckpoint b cs), sample_syncer\<lparr>sy_cm := m'\<rparr>)
    \<and> accept_checkpoint sample_hash (Block_Index sample_hash next_block) b cs = Some (Inr c)"
proof -
  obtain m' c where m': "mgr_reach sample_hash sample_verify base_checkpoint {next_block} m'"
    "es_entries (m_store m') (Block_Index sample_hash next_block) = Some c" by (rule run_block_entry)
  have ne: "Block_Index sample_hash next_block \<noteq> cs_Index (cp_State base_checkpoint)"
    using next_height(5) by (simp add: base_checkpoint_def)
  have "\<exists>b cs. handleMsgGetCheckpoint EphemeralStore 3 (Block_Index sample_hash next_block) (sample_syncer\<lparr>sy_cm := m'\<rparr>)
      = (Some (MsgCheckpoint b cs), sample_syncer\<lparr>sy_cm := m'\<rparr>)
    \<and> accept_checkpoint sample_hash (Block_Index sample_hash next_block) b cs = Some (Inr c)"
    by (rule served_checkpoint_accepted [OF _ next_names _ ne]) (use m' in simp_all)
  then show ?thesis by blast
qed

text \<open>One request stops the node: asked for the checkpoint of its base block, which every peer knows, it looks for the
  state of a parent that it does not have, takes the missing index for a failure of its own store, disconnects every
  peer and returns the error from \<open>Run\<close>.\<close>

theorem base_checkpoint_stops_node:
  assumes "mgr_reach H verify c0 B (sy_cm s)" "names_blocks H c0 B" "sy_err s = None"
    "handleMsgGetCheckpoint EphemeralStore conn (cs_Index (cp_State c0)) s = (resp, s')"
  shows "resp = None \<and> Syncer_Run s' = Some (Some (ErrLoadState ErrUnknownIndex)) \<and> (\<forall>p\<in>set (sy_peers s'). pr_err p \<noteq> None)"
proof -
  note inv = mgr_reach_inv [OF assms(2,1)]
  have "resp = None \<and> s' = Syncer_setErr (ErrLoadState ErrUnknownIndex) s"
    using assms(4) pool_manager.inv_base [OF inv] pool_manager.base_parent_missing [OF inv assms(2)]
    by (simp add: handleMsgGetCheckpoint_def Block_known)
  then show ?thesis using assms(3)
    by (auto simp: Syncer_setErr_def Syncer_Run_def Peer_disconnect_def simp del: not_None_eq)
qed

theorem base_checkpoint_stops_node_witness:
  "Syncer_Run (snd (handleMsgGetCheckpoint EphemeralStore 3 (cs_Index base_state) sample_syncer))
     = Some (Some (ErrLoadState ErrUnknownIndex))"
proof -
  have "mgr_reach sample_hash sample_verify base_checkpoint {next_block} (sy_cm sample_syncer)" using run_subscribed_reach by simp
  from base_checkpoint_stops_node [OF this next_names _ surjective_pairing, of 3] show ?thesis by (simp add: base_checkpoint_def)
qed

section \<open>Forged checkpoints\<close>

lemma header_preimage_inj:
  assumes "header_preimage h = header_preimage h'" "time_ok (bh_Timestamp h)" "time_ok (bh_Timestamp h')"
  shows "bh_Nonce h = bh_Nonce h' \<and> bh_Timestamp h = bh_Timestamp h' \<and> bh_Commitment h = bh_Commitment h'"
proof -
  have e: "le_bytes 8 (bh_Nonce h) = le_bytes 8 (bh_Nonce h')" "le_bytes 8 (Time_Unix (bh_Timestamp h)) = le_bytes 8 (Time_Unix (bh_Timestamp h'))"
    "array_bytes 32 (bh_Commitment h) = array_bytes 32 (bh_Commitment h')"
    using assms(1) by (simp_all add: header_preimage_def)
  have "bh_Nonce h = bh_Nonce h'" "Time_Unix (bh_Timestamp h) = Time_Unix (bh_Timestamp h')"
    using arg_cong [OF e(1), of "le_word :: _ \<Rightarrow> u64"] arg_cong [OF e(2), of "le_word :: _ \<Rightarrow> u64"] by (simp_all add: le_word_bytes)
  moreover have "bh_Commitment h = bh_Commitment h'"
    using arg_cong [OF e(3), of "array_word :: _ \<Rightarrow> 256 word"] by (simp add: array_word_bytes)
  ultimately show ?thesis using assms(2,3) unfolding time_ok_def by metis
qed

text \<open>What is hashed for the ID of a block on a state.\<close>

definition checkpoint_preimages :: "hashfn \<Rightarrow> block \<Rightarrow> chain_state \<Rightarrow> byte list list" where
  "checkpoint_preimages H b s =
     header_preimage (b_Header b) # commitment_preimages H s (bh_MinerAddress (b_Header b)) (b_Transactions b)"

definition checkpoint_wire_ok :: "block \<Rightarrow> chain_state \<Rightarrow> bool" where
  "checkpoint_wire_ok b s \<longleftrightarrow> time_ok (bh_Timestamp (b_Header b)) \<and> state_ok s \<and> txns_ok (b_Transactions b)"

text \<open>C23. A checkpoint cannot be forged in what its index binds: when a client that asks for the index of a genuine block
  accepts a response, then the response has the header of that block, the state before it, accumulators and
  difficulty included, and transactions with the same parents, outputs and fees, unless the hash collides on what
  was hashed for the two. Nothing binds the proofs of the inputs or their signatures.\<close>

theorem accepted_checkpoint_authentic:
  assumes "snd (DownloadCheckpoint H genesisID key conn index r (\<lambda>_. Inr (b, s))) = Some (Inr c)"
    "Block_Index H b0 = index" "BlockHeader_ParentIndex (b_Header b0) = cs_Index s0"
    "bh_Commitment (b_Header b0) = Commitment H s0 (bh_MinerAddress (b_Header b0)) (b_Transactions b0)"
    "inj_on H (set (checkpoint_preimages H b s @ checkpoint_preimages H b0 s0))"
    "checkpoint_wire_ok b s" "checkpoint_wire_ok b0 s0"
  shows "cp_Block c = b \<and> b_Header b = b_Header b0 \<and> s = s0 \<and> map txn_core (b_Transactions b) = map txn_core (b_Transactions b0)"
proof -
  let ?h = "b_Header b" and ?g = "b_Header b0"
  have accept: "accept_checkpoint H index b s = Some (Inr c)"
    using assms(1) by (auto simp: DownloadCheckpoint_def Let_def split: sum.splits if_splits)
  have acc: "Block_Index H b = index" "BlockHeader_ParentIndex ?h = cs_Index s"
    "bh_Commitment ?h = Commitment H s (bh_MinerAddress ?h) (b_Transactions b)"
    using accept by (auto simp: accept_checkpoint_def split: if_splits)
  have "cp_Block c = b" using accept by (auto simp: accept_checkpoint_def split: if_splits Option.bind_splits)
  have id: "H (header_preimage ?h) = H (header_preimage ?g)" and height: "bh_Height ?h = bh_Height ?g"
    using acc(1) assms(2) by (auto simp: Block_Index_def BlockHeader_Index_def BlockHeader_ID_def HashBytes_def)
  have hp: "header_preimage ?h = header_preimage ?g"
    by (rule inj_onD [OF assms(5) id]) (simp_all add: checkpoint_preimages_def)
  have same: "bh_Nonce ?h = bh_Nonce ?g" "bh_Timestamp ?h = bh_Timestamp ?g" "bh_Commitment ?h = bh_Commitment ?g"
    using header_preimage_inj [OF hp] assms(6,7) by (simp_all add: checkpoint_wire_ok_def)
  have com: "Commitment H s (bh_MinerAddress ?h) (b_Transactions b) = Commitment H s0 (bh_MinerAddress ?g) (b_Transactions b0)"
    using same(3) acc(3) assms(4) by simp
  moreover have "inj_on H (set (commitment_preimages H s (bh_MinerAddress ?h) (b_Transactions b)
      @ commitment_preimages H s0 (bh_MinerAddress ?g) (b_Transactions b0)))"
    by (rule inj_on_subset [OF assms(5)]) (auto simp: checkpoint_preimages_def)
  ultimately have bind: "s = s0" "bh_MinerAddress ?h = bh_MinerAddress ?g" "map txn_core (b_Transactions b) = map txn_core (b_Transactions b0)"
    using Commitment_binds assms(6,7) unfolding checkpoint_wire_ok_def by blast+
  have "bh_ParentID ?h = bh_ParentID ?g"
    using acc(2) assms(3) bind(1) by (metis BlockHeader_ParentIndex_def chain_index.ext_inject)
  then have "?h = ?g" using same height bind(2) by simp
  then show ?thesis using bind \<open>cp_Block c = b\<close> by blast
qed

lemma one_leaf:
  fixes h :: hash256
  defines "acc \<equiv> \<lparr>acc_Trees = h # replicate 63 0, acc_NumLeaves = 1\<rparr>"
  shows "length (Accumulator_EncodeTo acc) = 40" "acc_ok acc"
proof -
  have has: "hasTreeAtHeight acc i \<longleftrightarrow> i = 0" for i
    by (simp add: acc_def hasTreeAtHeight_def and_exp_eq_0_iff_not_bit bit_1_iff)
  have z: "concat (map (\<lambda>(i, root). if i = 0 then Hash256_EncodeTo root else []) (enumerate (Suc 0) xs)) = []" for xs
    by (auto simp: in_set_enumerate_eq)
  show "length (Accumulator_EncodeTo acc) = 40" unfolding Accumulator_EncodeTo_def has by (simp add: acc_def z Hash256_EncodeTo_def)
  show "acc_ok acc" unfolding acc_ok_def has by (auto simp: acc_def nth_Cons')
qed

lemma length_base_state: "length (State_EncodeTo base_state) = 248"
proof -
  have "length (Accumulator_EncodeTo empty_accumulator) = 8"
    by (simp add: Accumulator_EncodeTo_def empty_accumulator_def hasTreeAtHeight_def case_prod_unfold length_concat comp_def)
  then show ?thesis
    using one_leaf(1)
    by (simp add: State_EncodeTo_def base_state_def sample_state_def genesis_state_def ChainIndex_EncodeTo_def BlockID_EncodeTo_def
        Work_EncodeTo_def WriteTime_def length_concat sum_list_replicate)
qed

lemma base_state_ok: "state_ok base_state"
  using genesis_state_ok [of 0 "\<lparr>NumHashes = 1\<rparr>"] one_leaf(2) by (simp add: base_state_def sample_state_def state_ok_def genesis_state_def)

theorem accepted_checkpoint_authentic_witness:
  "\<exists>c. snd (DownloadCheckpoint sample_hash 0 4 7 (Block_Index sample_hash next_block) (writeHandshake sample_handshake)
        (\<lambda>_. Inr (next_block, base_state))) = Some (Inr c)
    \<and> b_Header (cp_Block c) = b_Header next_block"
proof -
  obtain au where au: "ApplyBlock sample_hash base_state next_block = Some au" using next_block_applies by blast
  have com: "bh_Commitment (b_Header next_block) = Commitment sample_hash base_state (bh_MinerAddress (b_Header next_block)) (b_Transactions next_block)"
    by (simp add: next_block_def)
  have acc: "accept_checkpoint sample_hash (Block_Index sample_hash next_block) next_block base_state
      = Some (Inr \<lparr>cp_Block = next_block, cp_State = au_State au\<rparr>)"
    using au com next_height(3) by (simp add: accept_checkpoint_def)
  have len: "length (commitment_preimage sample_hash base_state VoidAddress []) = 122" "length (txns_preimage sample_hash []) = 8"
    "length (header_preimage (b_Header next_block)) = 64" "length (State_EncodeTo base_state) = 248"
    by (simp_all add: length_base_state commitment_preimage_def txns_preimage_def WriteString_def WriteBytes_def str_bytes_def header_preimage_def
        Hash256_EncodeTo_def Address_EncodeTo_def)
  have t: "b_Transactions next_block = []" "bh_MinerAddress (b_Header next_block) = VoidAddress" by (simp_all add: next_block_def)
  have inj: "inj_on sample_hash (set (checkpoint_preimages sample_hash next_block base_state @ checkpoint_preimages sample_hash next_block base_state))"
    using len by (auto simp: checkpoint_preimages_def commitment_preimages_def t inj_on_def dest: sample_hash_length [THEN notE, rotated])
  have wire: "checkpoint_wire_ok next_block base_state"
    by (simp add: base_state_ok checkpoint_wire_ok_def txns_ok_def len_ok_def t) (simp add: next_block_def)
  have "fst (readHandshake (writeHandshake sample_handshake)) = Inr sample_handshake" using handshake_is_read [of sample_handshake "[]"] by simp
  then have down: "snd (DownloadCheckpoint sample_hash 0 4 7 (Block_Index sample_hash next_block) (writeHandshake sample_handshake)
        (\<lambda>_. Inr (next_block, base_state))) = Some (Inr \<lparr>cp_Block = next_block, cp_State = au_State au\<rparr>)"
    using acc by (simp add: DownloadCheckpoint_def checkpoint_handshake_def sample_handshake_def)
  from accepted_checkpoint_authentic [OF down refl next_height(3) com inj wire wire] down show ?thesis by auto
qed

section \<open>A request and its answer\<close>

text \<open>One round of \<open>handleIn\<close> on a connection that has these bytes.\<close>

definition handleIn_round :: "hashfn \<Rightarrow> byte list \<Rightarrow> peer \<Rightarrow> in_stage \<times> peer" where
  "handleIn_round H bs p =
     (case handleIn_header (net_header (Some bs)) p of
        (InBody i recv, p') \<Rightarrow> handleIn_body (net_body H (Some (snd (readMessageHeader bs))) recv) i p'
      | x \<Rightarrow> x)"

text \<open>A message that its sender can write and that fits its limit.\<close>

definition deliverable :: "hashfn \<Rightarrow> message \<Rightarrow> bool" where
  "deliverable H m \<longleftrightarrow> sendable H m \<and> (\<forall>body. message_EncodeTo H m = Some body \<longrightarrow> length body \<le> MaxLen m)"

lemma round_request:
  assumes "deliverable H m" "even i"
  shows "\<exists>bs. writeMessage H \<lparr>tm_id = i, tm_m = m\<rparr> = Some bs
    \<and> handleIn_round H bs p = (InHeader, p\<lparr>pr_in := pr_in p @ [\<lparr>tm_id = i, tm_m = m\<rparr>]\<rparr>)"
proof -
  obtain bs where bs: "writeMessage H \<lparr>tm_id = i, tm_m = m\<rparr> = Some bs"
    "\<forall>rest. \<exists>r. readMessageHeader (bs @ rest) = (Inr (msgType m, i), r)
        \<and> readMessage H r (newMsg (msgType m)) = Some (Inr m, rest)
        \<and> (\<forall>recv. msgType recv = msgType m \<longrightarrow> readMessage H r (Some recv) = Some (Inr m, rest))"
    using message_is_read assms(1) unfolding deliverable_def by blast
  obtain r where r: "readMessageHeader bs = (Inr (msgType m, i), r)" "readMessage H r (newMsg (msgType m)) = Some (Inr m, [])"
    using bs(2) [rule_format, of "[]"] by auto
  then obtain recv where recv: "newMsg (msgType m) = Some recv" by (cases "newMsg (msgType m)") (simp_all add: readMessage_def)
  have "handleIn_round H bs p = (InHeader, p\<lparr>pr_in := pr_in p @ [\<lparr>tm_id = i, tm_m = m\<rparr>]\<rparr>)"
    using r assms(2) by (simp add: handleIn_round_def handleIn_header_def handleIn_body_def net_header_def net_body_def and_1_even recv)
  then show ?thesis using bs(1) by blast
qed

lemma round_response:
  assumes "deliverable H m" "odd i" "map_of (pr_calls p) i = Some k" "msgType (cl_resp (pr_heap p ! k)) = msgType m"
  shows "\<exists>bs. writeMessage H \<lparr>tm_id = i, tm_m = m\<rparr> = Some bs
    \<and> handleIn_round H bs p = (InHeader, p\<lparr>pr_heap := set_call k (\<lambda>c. c\<lparr>cl_resp := m, cl_done := True\<rparr>) (pr_heap p),
        pr_calls := AList.delete i (pr_calls p)\<rparr>)"
proof -
  obtain bs where bs: "writeMessage H \<lparr>tm_id = i, tm_m = m\<rparr> = Some bs"
    "\<forall>rest. \<exists>r. readMessageHeader (bs @ rest) = (Inr (msgType m, i), r)
        \<and> readMessage H r (newMsg (msgType m)) = Some (Inr m, rest)
        \<and> (\<forall>recv. msgType recv = msgType m \<longrightarrow> readMessage H r (Some recv) = Some (Inr m, rest))"
    using message_is_read assms(1) unfolding deliverable_def by blast
  obtain r where r: "readMessageHeader bs = (Inr (msgType m, i), r)"
    "readMessage H r (Some (cl_resp (pr_heap p ! k))) = Some (Inr m, [])"
    using bs(2) [rule_format, of "[]"] assms(4) by auto
  have "handleIn_round H bs p = (InHeader, p\<lparr>pr_heap := set_call k (\<lambda>c. c\<lparr>cl_resp := m, cl_done := True\<rparr>) (pr_heap p),
        pr_calls := AList.delete i (pr_calls p)\<rparr>)"
    using r assms(2-4)
    by (simp add: handleIn_round_def handleIn_header_def handleIn_body_def net_header_def net_body_def and_1_even)
  then show ?thesis using bs(1) by blast
qed

text \<open>A call and its response, as the peer at the other end sees them.\<close>

lemma call_answered:
  assumes "peer_steps H (peer_start conn theirs) (st, os, q)" "unat (pr_nextID q) < 2 ^ 64 - 2" "Peer_RPC req resp q = (k, q')"
    "deliverable H m" "msgType m = msgType resp"
  shows "even (pr_nextID q) \<and> last (pr_out q') = \<lparr>tm_id = pr_nextID q, tm_m = req\<rparr>
    \<and> (\<exists>bs q''. writeMessage H \<lparr>tm_id = pr_nextID q OR 1, tm_m = m\<rparr> = Some bs \<and> handleIn_round H bs q' = (InHeader, q'')
        \<and> Call_Wait k q'' = Some None \<and> cl_resp (pr_heap q'' ! k) = m)"
proof -
  have ok: "peer_ok q" using peer_steps_ok [OF assms(1) peer_start_ok] by (simp add: run_ok_def)
  then have ev: "even (pr_nextID q)" by (simp add: peer_ok_def)
  note r = RPC_simps [OF assms(3)]
  have i: "map_of (pr_calls q') (pr_nextID q OR 1) = Some k" "odd (pr_nextID q OR 1)"
    "pr_heap q' ! k = \<lparr>cl_id = pr_nextID q OR 1, cl_done = False, cl_resp = resp, cl_err = None\<rparr>" "k < length (pr_heap q')"
    using ev by (simp_all add: r(1,5,6) update_conv' even_or_1)
  obtain bs where "writeMessage H \<lparr>tm_id = pr_nextID q OR 1, tm_m = m\<rparr> = Some bs"
    "handleIn_round H bs q' = (InHeader, q'\<lparr>pr_heap := set_call k (\<lambda>c. c\<lparr>cl_resp := m, cl_done := True\<rparr>) (pr_heap q'),
        pr_calls := AList.delete (pr_nextID q OR 1) (pr_calls q')\<rparr>)"
    using round_response [OF assms(4) i(2,1)] i(3) assms(5) by auto
  then show ?thesis using i(3,4) ev by (auto simp: Call_Wait_def nth_set_call r(7))
qed

lemma length_header: "length (BlockHeader_EncodeTo h) = 120"
  by (simp add: BlockHeader_EncodeTo_def BlockID_EncodeTo_def WriteTime_def Address_EncodeTo_def Hash256_EncodeTo_def)

lemma length_concat_const: "(\<And>x. x \<in> set xs \<Longrightarrow> length (f x) = n) \<Longrightarrow> length (concat (map f xs)) = n * length xs"
  by (induction xs) simp_all

lemma deliverable_headers:
  assumes "length hs \<le> 2000" "\<forall>h\<in>set hs. time_ok (bh_Timestamp h)"
  shows "deliverable H (MsgHeaders hs)"
  using assms length_concat_const [of hs BlockHeader_EncodeTo 120] by (simp add: deliverable_def len_ok_def length_header)

lemma deliverable_history: "length hist \<le> 24999 \<Longrightarrow> deliverable H (MsgGetHeaders hist)"
  using length_concat_const [of hist ChainIndex_EncodeTo 40]
  by (simp add: deliverable_def len_ok_def ChainIndex_EncodeTo_def BlockID_EncodeTo_def)

end
