(* ===== verification/P2P_Download.thy ===== *)
theory P2P_Download
  imports P2P_Service
begin

text \<open>
  A request, its way to another node, the turn of the request loop there, and the way of the answer back: from the
  call of one node to the return of \<open>Wait\<close>.
\<close>

section \<open>One exchange\<close>

text \<open>
  \<open>q\<close> is the server as the client sees it, \<open>s\<close> the server, whose only peer is the client. The call is written to the
  connection, read by \<open>handleIn\<close> of the server, answered by one turn of its request loop, and the answer is written
  and read in turn. The result is what the call has received.
\<close>

definition exchange ::
    "hashfn \<Rightarrow> verifier \<Rightarrow> gotime \<Rightarrow> message \<Rightarrow> message \<Rightarrow> peer \<Rightarrow> ephemeral_store syncer
     \<Rightarrow> (message \<times> peer \<times> ephemeral_store syncer) option" where
  "exchange H verify now req resp q s = do {
     let (k, q) = Peer_RPC req resp q;
     request \<leftarrow> writeMessage H (last (pr_out q));
     p \<leftarrow> at (sy_peers s) 0;
     (case handleIn_round H request p of
        (InHeader, p) \<Rightarrow> do {
          (_, s) \<leftarrow> request_turn H verify EphemeralStore now (s\<lparr>sy_peers := [p]\<rparr>);
          p \<leftarrow> at (sy_peers s) 0;
          tm \<leftarrow> (if pr_out p = [] then None else Some (last (pr_out p)));
          answer \<leftarrow> writeMessage H tm;
          (case handleIn_round H answer q of
             (InHeader, q) \<Rightarrow> if Call_Wait k q = Some None then Some (cl_resp (pr_heap q ! k), q, s) else None
           | _ \<Rightarrow> None)
        }
      | _ \<Rightarrow> None)
   }"

lemma exchange_answers:
  assumes call: "peer_steps H (peer_start conn theirs) (st, os, q)" "unat (pr_nextID q) < 2 ^ 64 - 2"
    and srv: "sy_peers s = [p]" "pr_err p = None" "pr_in p = []"
    and req: "deliverable H req" "handleRequest H verify EphemeralStore now (pr_conn p) req s = Some (Some m, s)"
    and m: "deliverable H m" "\<not> isRelayMessage m" "msgType m = msgType resp"
  shows "\<exists>q' s'. exchange H verify now req resp q s = Some (m, q', s') \<and> sy_cm s' = sy_cm s"
proof -
  obtain k q1 where rpc: "Peer_RPC req resp q = (k, q1)" by fastforce
  let ?i = "pr_nextID q"
  let ?p = "p\<lparr>pr_in := pr_in p @ [\<lparr>tm_id = ?i, tm_m = req\<rparr>]\<rparr>" and ?r = "\<lparr>tm_id = ?i OR 1, tm_m = m\<rparr>"
  note c = call_answered [OF call rpc m(1,3)]
  obtain bs where bs: "writeMessage H \<lparr>tm_id = ?i, tm_m = req\<rparr> = Some bs" "handleIn_round H bs p = (InHeader, ?p)"
    using round_request [OF req(1), of ?i p] c by blast
  have s: "s\<lparr>sy_peers := [p]\<rparr> = s" using srv(1) by simp
  have p: "p\<lparr>pr_in := []\<rparr> = p" using srv(3) by simp
  have turn: "request_turn H verify EphemeralStore now (s\<lparr>sy_peers := [?p]\<rparr>) = Some (True, s\<lparr>sy_peers := [Peer_send ?r p]\<rparr>)"
    using srv req(2) m(2)
    by (simp add: request_turn_def removeDisconnected_def nextRequest_def p s on_peer_def)
  obtain as q2 where a: "writeMessage H ?r = Some as" "handleIn_round H as q1 = (InHeader, q2)"
    "Call_Wait k q2 = Some None" "cl_resp (pr_heap q2 ! k) = m" using c by blast
  have out: "pr_out (Peer_send ?r p) = pr_out p @ [?r]" by (simp add: Peer_send_def)
  have "exchange H verify now req resp q s = Some (m, q2, s\<lparr>sy_peers := [Peer_send ?r p]\<rparr>)"
    unfolding exchange_def rpc Let_def prod.case using c bs turn a srv(1) by (simp add: at_def out)
  then show ?thesis by simp
qed

section \<open>Headers\<close>

lemma sort_history_first:
  assumes cons: "consecutive is" and zero: "ci_Height (hd is) = 0"
    and k: "k < length is" "case find (\<lambda>h. h \<in> set is) (sort_history hist) of Some h \<Rightarrow> is ! k = h | None \<Rightarrow> k = 0"
  shows "(is ! k \<in> set hist \<or> k = 0) \<and> (\<forall>j<length is. is ! j \<in> set hist \<longrightarrow> j \<le> k)"
proof -
  have nth: "unat (ci_Height (is ! j)) = j" if "j < length is" for j using cons zero that by (simp add: consecutive_def)
  have set: "set (sort_history hist) = set hist" by (simp add: sort_history_def)
  show ?thesis
  proof (cases "find (\<lambda>h. h \<in> set is) (sort_history hist)")
    case None
    then have "is ! j \<notin> set hist" if "j < length is" for j
      using that set unfolding find_None_iff by (metis nth_mem)
    then show ?thesis using k(2) None by auto
  next
    case (Some h)
    then obtain i where i: "i < length (sort_history hist)" "sort_history hist ! i = h" "\<forall>j<i. sort_history hist ! j \<notin> set is"
      by (auto simp: find_Some_iff)
    have h: "is ! k = h" using k(2) Some by simp
    have le: "j \<le> k" if j: "j < length is" "is ! j \<in> set hist" for j
    proof -
      obtain l where l: "l < length (sort_history hist)" "sort_history hist ! l = is ! j"
        using j(2) set by (metis in_set_conv_nth)
      have "i \<le> l" using i(3) l(2) j(1) by (metis not_le nth_mem)
      have "sorted (map (\<lambda>i. 2 ^ 64 - unat (ci_Height i)) (sort_history hist))" unfolding sort_history_def by simp
      from sorted_nth_mono [OF this \<open>i \<le> l\<close>] l i(1,2)
      have "(2 ^ 64 - unat (ci_Height h) :: nat) \<le> 2 ^ 64 - unat (ci_Height (is ! j))" by (simp del: power_numeral)
      then have le: "(2 ^ 64 - k :: nat) \<le> 2 ^ 64 - j" using nth [OF j(1)] nth [OF k(1)] h by (simp del: power_numeral)
      have "length is \<le> 2 ^ 64" using cons by (simp add: consecutive_def del: power_numeral)
      then show ?thesis using le k(1) j(1) by linarith
    qed
    have "h \<in> set hist" using i(1,2) set nth_mem by metis
    then show ?thesis using h le by blast
  qed
qed

text \<open>C15. Headers travel between honest nodes. A client whose connection has run in any way asks a server, whose
  manager is in a reachable state with the genesis block as its base, for the headers after a history in any order.
  The call comes back without an error, the manager of the server is as before, and the client has the headers of
  the server's best chain, up to 2000, right above the highest index of the best chain that is in the history, or
  above the genesis block; each is the child of the one before.\<close>

theorem headers_download:
  assumes "mgr_reach H verify c0 B (sy_cm s)" "names_blocks H c0 B" "ci_Height (cs_Index (cp_State c0)) = 0"
    "length (es_best (m_store (sy_cm s))) < 2 ^ 63" "\<forall>b\<in>B. time_ok (bh_Timestamp (b_Header b))"
    "sy_peers s = [p]" "pr_err p = None" "pr_in p = []"
    "peer_steps H (peer_start conn theirs) (st, os, q)" "unat (pr_nextID q) < 2 ^ 64 - 2" "length hist \<le> 24999"
  shows "\<exists>k hs q' s'. exchange H verify now (MsgGetHeaders hist) (MsgHeaders []) q s = Some (MsgHeaders hs, q', s')
    \<and> sy_cm s' = sy_cm s \<and> k < length (es_best (m_store (sy_cm s)))
    \<and> (es_best (m_store (sy_cm s)) ! k \<in> set hist \<or> k = 0)
    \<and> (\<forall>j<length (es_best (m_store (sy_cm s))). es_best (m_store (sy_cm s)) ! j \<in> set hist \<longrightarrow> j \<le> k)
    \<and> hs = map (header_at (es_entries (m_store (sy_cm s)))) (take 2000 (drop (Suc k) (es_best (m_store (sy_cm s)))))
    \<and> linked H (es_best (m_store (sy_cm s)) ! k) hs"
proof -
  let ?m = "sy_cm s"
  let ?is = "es_best (m_store ?m)" and ?E = "es_entries (m_store ?m)"
  note inv = mgr_reach_inv [OF assms(2,1)]
  obtain k hs where k: "k < length ?is"
    "case find (\<lambda>h. h \<in> set ?is) (sort_history hist) of Some h \<Rightarrow> ?is ! k = h | None \<Rightarrow> k = 0"
    "Manager_HeadersForHistory EphemeralStore ?m 2000 (sort_history hist) = Some (Inr hs)"
    "hs = map (header_at ?E) (take 2000 (drop (Suc k) ?is))" "linked H (?is ! k) hs"
    using pool_manager.HeadersForHistory_best [OF inv assms(3,4), of "sort_history hist" 2000] by blast
  have cons: "consecutive ?is" using assms(3,4) by (intro pool_manager.inv_consecutive [OF inv]) simp
  have hd: "ci_Height (hd ?is) = 0" using inv assms(3) by (simp add: mgr_inv_def best_valid_def)
  have "time_ok (bh_Timestamp h)" if h: "h \<in> set hs" for h
  proof -
    obtain j where j: "Suc k + j < length ?is" "h = header_at ?E (?is ! (Suc k + j))"
    proof -
      obtain i where "i < length hs" "h = hs ! i" using h by (auto simp: in_set_conv_nth)
      then show ?thesis using that [of i] k(4) by (auto simp: add.commute)
    qed
    then obtain c where c: "?E (?is ! (Suc k + j)) = Some c"
      using pool_manager.best_entries [OF inv, of "?is ! (Suc k + j)"] by fastforce
    have "unat (ci_Height (?is ! (Suc k + j))) = Suc k + j" using cons hd j(1) by (simp add: consecutive_def)
    then have "?is ! (Suc k + j) \<noteq> cs_Index (cp_State c0)" using assms(3) by auto
    then have "cp_Block c \<in> B" by (rule pool_manager.inv_entry(3) [OF inv c])
    then show ?thesis using assms(5) j(2) c by (simp add: header_at_def)
  qed
  then have del: "deliverable H (MsgHeaders hs)" using k(4) by (intro deliverable_headers) auto
  have req: "handleRequest H verify EphemeralStore now (pr_conn p) (MsgGetHeaders hist) s = Some (Some (MsgHeaders hs), s)"
    by (simp add: handleRequest_def handleMsgGetHeaders_def k(3))
  obtain q' s' where "exchange H verify now (MsgGetHeaders hist) (MsgHeaders []) q s = Some (MsgHeaders hs, q', s')" "sy_cm s' = sy_cm s"
    using exchange_answers [OF assms(9,10,6-8) deliverable_history [OF assms(11)] req del, of "MsgHeaders []"] by auto
  then show ?thesis using k(1,4,5) sort_history_first [OF cons hd k(1,2)] by blast
qed

theorem headers_download_witness:
  "\<exists>m' q' s'. Manager_AddTipBlock sample_hash sample_verify EphemeralStore (PoolSubscriber sample_hash sample_verify) 0
      run_subscribed next_block = Some (Inr (), m')
    \<and> exchange sample_hash sample_verify 0 (MsgGetHeaders [cs_Index base_state]) (MsgHeaders []) (NewPeer 7 sample_handshake)
        (sample_syncer\<lparr>sy_cm := m'\<rparr>) = Some (MsgHeaders [b_Header next_block], q', s')"
proof -
  obtain m' where m': "Manager_AddTipBlock sample_hash sample_verify EphemeralStore (PoolSubscriber sample_hash sample_verify) 0
      run_subscribed next_block = Some (Inr (), m')"
      "es_best (m_store m') = [cs_Index base_state, Block_Index sample_hash next_block]" using run_block by blast
  have r: "mgr_reach sample_hash sample_verify base_checkpoint {next_block} (sy_cm (sample_syncer\<lparr>sy_cm := m'\<rparr>))"
    using mgr_reach.tip_block [OF run_subscribed_reach _ m'(1)] by simp
  let ?s = "sample_syncer\<lparr>sy_cm := m'\<rparr>" and ?is = "es_best (m_store m')" and ?base = "cs_Index base_state"
  have start: "peer_steps sample_hash (peer_start 7 sample_handshake) (InHeader, OutIdle, NewPeer 7 sample_handshake)"
    by (simp add: peer_start_def)
  have z: "ci_Height (cs_Index (cp_State base_checkpoint)) = 0" by (simp add: base_checkpoint_def base_state_header)
  have t: "\<forall>b\<in>{next_block}. time_ok (bh_Timestamp (b_Header b))" by (simp add: next_block_def)
  obtain k hs q' s' where ex: "exchange sample_hash sample_verify 0 (MsgGetHeaders [?base]) (MsgHeaders []) (NewPeer 7 sample_handshake) ?s
        = Some (MsgHeaders hs, q', s')" and k: "k < length ?is" "?is ! k \<in> set [?base] \<or> k = 0"
      "hs = map (header_at (es_entries (m_store m'))) (take 2000 (drop (Suc k) ?is))"
    using headers_download [OF r next_names z _ t _ _ _ start, of "NewPeer 3 sample_handshake" "[?base]" 0] m'(2)
    by (auto simp: NewPeer_def)
  have "k = 0" using k(1,2) m'(2) next_height(5) by (cases k) auto
  then have hs: "hs = [header_at (es_entries (m_store m')) (Block_Index sample_hash next_block)]" using k(3) m'(2) by simp
  obtain c where c: "es_entries (m_store m') (Block_Index sample_hash next_block) = Some c"
    using pool_manager.best_entries [OF mgr_reach_inv [OF next_names r]] m'(2) by fastforce
  have "Block_Index sample_hash next_block \<noteq> cs_Index (cp_State base_checkpoint)"
    using next_height(5) by (simp add: base_checkpoint_def)
  then have "cp_Block c = next_block"
    using pool_manager.inv_entry(3) [OF mgr_reach_inv [OF next_names r]] c by fastforce
  then show ?thesis using ex m'(1) by (simp add: hs header_at_def c)
qed

end
