(* ===== verification/P2P_Sync.thy ===== *)
theory P2P_Sync
  imports P2P_Download
begin

text \<open>
  p2p/syncer.go, \<open>syncLoop\<close> and \<open>syncToTarget\<close>: headers from the target peer, then blocks in chunks from all peers.
  The goroutine acts when \<open>Wait\<close> of one of its calls returns, so it is a state machine over the answers, which are
  arguments: an error, or what the response holds. \<open>None\<close> is a panic, also in a worker, as it ends the program.
\<close>

section \<open>Calls\<close>

definition ask_peer :: "nat \<Rightarrow> message \<Rightarrow> message \<Rightarrow> 's syncer \<Rightarrow> 's syncer" where
  "ask_peer conn req resp s = on_peer conn (\<lambda>p. snd (Peer_RPC req resp p)) s"

text \<open>\<open>getHeaders\<close> after \<open>Wait\<close> has returned; \<open>None\<close> is its error.\<close>

definition getHeaders ::
    "nat \<Rightarrow> peer_error + block_header list \<Rightarrow> 's syncer \<Rightarrow> block_header list option \<times> 's syncer" where
  "getHeaders conn answer s =
     (case answer of
        Inl e \<Rightarrow> (None, on_peer conn Peer_disconnect s)
      | Inr headers \<Rightarrow>
          if headers \<noteq> [] \<and> bh_Height (hd headers) = 0 then (None, on_peer conn Peer_ban s)
          else (Some headers, s))"

definition getBlocks :: "nat \<Rightarrow> peer_error + block list \<Rightarrow> 's syncer \<Rightarrow> block list option \<times> 's syncer" where
  "getBlocks conn answer s =
     (case answer of Inl e \<Rightarrow> (None, on_peer conn Peer_disconnect s) | Inr blocks \<Rightarrow> (Some blocks, s))"

section \<open>Blocks in chunks\<close>

text \<open>\<open>None\<close> for the peer is the nil pointer of a request that names no peer.\<close>

record request =
  rq_peer :: "nat option"
  rq_chunk :: nat
  rq_blocks :: "chain_index list"

text \<open>
  The local variables of \<open>getBlocksForChain\<close>, with the open requests: those that were sent to the channel and whose
  answer has not been received from the other one. The channels outlive the download, so requests that are open when
  it ends are still open in the next one. A full channel only delays a send and is not modelled.
\<close>

record download =
  dl_chain :: scratch_chain
  dl_peers :: "nat list"
  dl_unvalidated :: "chain_index list"
  dl_next :: nat
  dl_pending :: "request list"
  dl_buf :: "block list option list"
  dl_cursor :: nat

datatype download_error = ErrNoPeers | ErrNoPeersLeft | ErrAddBlocks manager_error

datatype download_status = Downloading download | Downloaded scratch_chain "request list" | DownloadFailed download_error

definition chunk :: "nat \<Rightarrow> chain_index list \<Rightarrow> chain_index list" where
  "chunk k is = take 16 (drop (k * 16) is)"

text \<open>A worker takes the request and calls the peer; without a peer it dereferences nil.\<close>

definition send_request :: "request \<Rightarrow> download \<Rightarrow> 's syncer \<Rightarrow> (download \<times> 's syncer) option" where
  "send_request r d s = do {
     conn \<leftarrow> rq_peer r;
     Some (d\<lparr>dl_pending := dl_pending d @ [r]\<rparr>, ask_peer conn (MsgGetBlocks (rq_blocks r)) (MsgBlocks []) s)
   }"

fun send_requests :: "request list \<Rightarrow> download \<Rightarrow> 's syncer \<Rightarrow> (download \<times> 's syncer) option" where
  "send_requests [] d s = Some (d, s)"
| "send_requests (r # rs) d s = do { (d, s) \<leftarrow> send_request r d s; send_requests rs d s }"

text \<open>\<open>pick\<close> is the choice that the iteration over the map of peers makes, for every request anew.\<close>

definition getBlocksForChain ::
    "(nat \<Rightarrow> nat list \<Rightarrow> nat) \<Rightarrow> request list \<Rightarrow> scratch_chain \<Rightarrow> 's syncer \<Rightarrow> (download_status \<times> 's syncer) option" where
  "getBlocksForChain pick open sc s =
     (let s = removeDisconnected s; peers = map pr_conn (sy_peers s) in
      if peers = [] then Some (DownloadFailed ErrNoPeers, s)
      else do {
        unvalidated \<leftarrow> ScratchChain_Unvalidated sc;
        let ks = takeWhile (\<lambda>k. k * 16 < length unvalidated) [0..<8];
        (d, s) \<leftarrow> send_requests
          (map (\<lambda>k. \<lparr>rq_peer = Some (pick k peers), rq_chunk = k, rq_blocks = chunk k unvalidated\<rparr>) ks)
          \<lparr>dl_chain = sc, dl_peers = peers, dl_unvalidated = unvalidated, dl_next = length ks, dl_pending = open,
           dl_buf = replicate 8 None, dl_cursor = 0\<rparr> s;
        Some (Downloading d, s)
      })"

text \<open>
  The chain is a pointer that \<open>AddBlocks\<close> writes through. No two chains of the manager have the same base and headers,
  so it is the returned chain if that has the base and headers of ours.
\<close>

definition track :: "scratch_chain \<Rightarrow> scratch_chain option \<Rightarrow> scratch_chain" where
  "track sc added =
     (case added of
        Some c \<Rightarrow> if sc_base c = sc_base sc \<and> sc_headers c = sc_headers sc then c else sc
      | None \<Rightarrow> sc)"

text \<open>The loop that adds the buffered chunks from the cursor on. It ends, as every turn empties a slot.\<close>

function drain ::
    "hashfn \<Rightarrow> verifier \<Rightarrow> 's manager_store \<Rightarrow> gotime \<Rightarrow> download \<Rightarrow> 's syncer
     \<Rightarrow> ((manager_error + unit) \<times> download \<times> 's syncer) option" where
  "drain H verify S now d s =
     (let i = dl_cursor d mod length (dl_buf d) in
      case at (dl_buf d) i of
        Some (Some blocks) \<Rightarrow> do {
          (r, m) \<leftarrow> Manager_AddBlocks H verify S (PoolSubscriber H verify) now (sy_cm s) blocks;
          let s = s\<lparr>sy_cm := m\<rparr>;
          (case r of
             Inl e \<Rightarrow> Some (Inl e, d, s)
           | Inr added \<Rightarrow>
               drain H verify S now
                 (d\<lparr>dl_buf := (dl_buf d)[i := None], dl_cursor := dl_cursor d + 1, dl_chain := track (dl_chain d) added\<rparr>) s)
        }
      | _ \<Rightarrow> Some (Inr (), d, s))"
  by pat_completeness auto

lemma fewer_slots:
  assumes "at xs i = Some (Some y)"
  shows "length (filter (\<lambda>x. x \<noteq> None) (xs[i := None])) < length (filter (\<lambda>x. x \<noteq> None) xs)"
proof -
  have i: "i < length xs" "xs ! i = Some y" using assms by (auto simp: at_def split: if_splits)
  then have "xs = take i xs @ Some y # drop (Suc i) xs" by (metis id_take_nth_drop)
  then have f: "length (filter (\<lambda>x. x \<noteq> None) xs)
      = length (filter (\<lambda>x. x \<noteq> None) (take i xs @ Some y # drop (Suc i) xs))" by simp
  have "xs[i := None] = take i xs @ None # drop (Suc i) xs" using i(1) by (simp add: upd_conv_take_nth_drop)
  then show ?thesis unfolding f by simp
qed

termination drain
  by (relation "measure (\<lambda>(_, _, _, _, d, _). length (filter (\<lambda>x. x \<noteq> None) (dl_buf d)))") (auto intro: fewer_slots simp del: not_None_eq)

declare drain.simps [simp del]

text \<open>
  One answer, to open request number \<open>j\<close>. \<open>pick\<close> chooses among the peers that are left. The error of \<open>drain\<close> ends
  the download, and so does the last block; otherwise the next chunk is asked for, with a request that names no peer.
\<close>

definition getBlocksForChain_answer ::
    "hashfn \<Rightarrow> verifier \<Rightarrow> 's manager_store \<Rightarrow> gotime \<Rightarrow> (nat list \<Rightarrow> nat) \<Rightarrow> nat \<Rightarrow> peer_error + block list
     \<Rightarrow> download \<Rightarrow> 's syncer \<Rightarrow> (download_status \<times> 's syncer) option" where
  "getBlocksForChain_answer H verify S now pick j answer d s = do {
     r \<leftarrow> at (dl_pending d) j;
     conn \<leftarrow> rq_peer r;
     let d = d\<lparr>dl_pending := take j (dl_pending d) @ drop (j + 1) (dl_pending d)\<rparr>;
     let (blocks, s) = getBlocks conn answer s;
     (case blocks of
        None \<Rightarrow>
          let d = d\<lparr>dl_peers := removeAll conn (dl_peers d)\<rparr> in
          if dl_peers d = [] then Some (DownloadFailed ErrNoPeersLeft, s)
          else map_option (map_prod Downloading id) (send_request (r\<lparr>rq_peer := Some (pick (dl_peers d))\<rparr>) d s)
      | Some blocks \<Rightarrow> do {
          (e, d, s) \<leftarrow> drain H verify S now
            (d\<lparr>dl_buf := (dl_buf d)[rq_chunk r mod length (dl_buf d) := Some blocks]\<rparr>) s;
          (case e of
             Inl e \<Rightarrow> Some (DownloadFailed (ErrAddBlocks e), s)
           | Inr _ \<Rightarrow>
               if ScratchChain_FullyValidated (dl_chain d) then Some (Downloaded (dl_chain d) (dl_pending d), s)
               else if dl_next d * 16 < length (dl_unvalidated d) then
                 map_option (map_prod Downloading id)
                   (send_request \<lparr>rq_peer = None, rq_chunk = dl_next d, rq_blocks = chunk (dl_next d) (dl_unvalidated d)\<rparr>
                     (d\<lparr>dl_next := dl_next d + 1\<rparr>) s)
               else Some (Downloading d, s))
        })
   }"

section \<open>Headers, then blocks\<close>

datatype sync_phase = AwaitHeaders "request list" | AwaitBlocks download | SyncEnded

definition ask_headers :: "nat \<Rightarrow> request list \<Rightarrow> chain_index list \<Rightarrow> 's syncer \<Rightarrow> sync_phase \<times> 's syncer" where
  "ask_headers conn open history s = (AwaitHeaders open, ask_peer conn (MsgGetHeaders history) (MsgHeaders []) s)"

definition syncToTarget :: "'s manager_store \<Rightarrow> nat \<Rightarrow> 's syncer \<Rightarrow> (sync_phase \<times> 's syncer) option" where
  "syncToTarget S conn s = do {
     r \<leftarrow> Manager_History S (sy_cm s);
     Some (case r of
       Inl e \<Rightarrow> (SyncEnded, Syncer_setErr (ErrSyncHistory e) s)
     | Inr history \<Rightarrow> ask_headers conn [] history s)
   }"

definition syncToTarget_headers ::
    "hashfn \<Rightarrow> 's manager_store \<Rightarrow> gotime \<Rightarrow> (nat \<Rightarrow> nat list \<Rightarrow> nat) \<Rightarrow> nat \<Rightarrow> request list
     \<Rightarrow> peer_error + block_header list \<Rightarrow> 's syncer \<Rightarrow> (sync_phase \<times> 's syncer) option" where
  "syncToTarget_headers H S now pick conn open answer s =
     (let (headers, s) = getHeaders conn answer s in
      case headers of
        None \<Rightarrow> Some (SyncEnded, s)
      | Some headers \<Rightarrow>
          if headers = [] then Some (SyncEnded, s)
          else do {
            (r, m) \<leftarrow> Manager_AddHeaders H S now (sy_cm s) headers;
            let s = s\<lparr>sy_cm := m\<rparr>;
            (case r of
               Inl e \<Rightarrow>
                 Some (SyncEnded, if unknown_index e then s else Syncer_setErr (ErrSyncHeaders e) s)
             | Inr None \<Rightarrow> Some (ask_headers conn open [BlockHeader_Index H (last headers)] s)
             | Inr (Some sc) \<Rightarrow> do {
                 (st, s) \<leftarrow> getBlocksForChain pick open sc s;
                 Some (case st of Downloading d \<Rightarrow> (AwaitBlocks d, s) | _ \<Rightarrow> (SyncEnded, s))
               })
          })"

definition syncToTarget_blocks ::
    "hashfn \<Rightarrow> verifier \<Rightarrow> 's manager_store \<Rightarrow> gotime \<Rightarrow> (nat list \<Rightarrow> nat) \<Rightarrow> nat \<Rightarrow> nat \<Rightarrow> peer_error + block list
     \<Rightarrow> download \<Rightarrow> 's syncer \<Rightarrow> (sync_phase \<times> 's syncer) option" where
  "syncToTarget_blocks H verify S now pick conn j answer d s = do {
     (st, s) \<leftarrow> getBlocksForChain_answer H verify S now pick j answer d s;
     Some (case st of
       Downloading d \<Rightarrow> (AwaitBlocks d, s)
     | Downloaded sc open \<Rightarrow> ask_headers conn open [ScratchChain_ValidTip sc] s
     | DownloadFailed e \<Rightarrow> (SyncEnded, s))
   }"

text \<open>The synchronisations that one pass of \<open>syncLoop\<close> over the peers begins, one after the other, with the tips seen.\<close>

fun sync_targets :: "chain_index set \<Rightarrow> peer list \<Rightarrow> (chain_index \<times> nat) list \<times> chain_index set" where
  "sync_targets seen [] = ([], seen)"
| "sync_targets seen (p # ps) =
     (let tip = hs_Tip (pr_handshake p) in
      if tip \<in> seen then sync_targets seen ps
      else map_prod ((#) (tip, pr_conn p)) id (sync_targets (insert tip seen) ps))"

end
