(* ===== verification/P2P_Node.thy ===== *)
theory P2P_Node
  imports P2P_Sync
begin

text \<open>
  The node as a whole: the request loop and the sync loop work on one manager, in any order, and the peers do what
  they like. The manager stays consistent.
\<close>

section \<open>Pools never report an error\<close>

lemma notify_apply_pools:
  assumes "notify_apply (PoolSubscriber H verify) au b mc m = Some (r, m')"
  shows "r = Inr ()"
  using assms by (auto simp: notify_apply_def split: Option.bind_splits option.splits dest: notify_pools)

lemma notify_reverts:
  assumes "notify (\<lambda>u. sb_Revert (PoolSubscriber H verify) u cru) us = Some (e, us')"
  shows "e = None"
  using assms
  by (induction us arbitrary: e us') (auto simp: PoolSubscriber_def split: Option.bind_splits option.splits)

lemma applyTip_pools:
  assumes "Manager_applyTip H S (PoolSubscriber H verify) now m i = Some (r, m')"
  shows "no_sub r"
  using assms
  by (auto simp: Manager_applyTip_def flush_tip_def
      split: sum.splits if_splits Option.bind_splits prod.splits dest: notify_apply_pools)

lemma revertTip_pools:
  assumes "Manager_revertTip H S (PoolSubscriber H verify) m = Some (r, m')"
  shows "no_sub r"
  using assms
  by (auto simp: Manager_revertTip_def Let_def split: sum.splits if_splits Option.bind_splits option.splits dest: notify_reverts)

lemma revert_loop_pools:
  assumes "revert_loop H S U target m = Some (r, m')" "U = PoolSubscriber H verify"
  shows "no_sub r"
proof -
  let ?P = "\<lambda>H' S' U' target m (r, m'). U' = PoolSubscriber H' verify \<longrightarrow> no_sub r"
  have "?P H S U target m (r, m')"
  proof (rule revert_loop.raw_induct [of ?P, OF _ assms(1)])
    fix rec :: "hashfn \<Rightarrow> 's manager_store \<Rightarrow> pool subscriber \<Rightarrow> chain_index \<Rightarrow> ('s, pool) manager
      \<Rightarrow> ((manager_error + unit) \<times> ('s, pool) manager) option"
      and H' S' U' target m and y :: "(manager_error + unit) \<times> ('s, pool) manager"
    assume IH: "\<And>H' S' U' target m y. rec H' S' U' target m = Some y \<Longrightarrow> ?P H' S' U' target m y"
      and step: "(if cs_Index (m_cs m) = target then Some (Inr (), m)
        else do {
          (r, m) \<leftarrow> Manager_revertTip H' S' U' m;
          (case r of Inl e \<Rightarrow> Some (Inl e, m) | Inr _ \<Rightarrow> rec H' S' U' target m)
        }) = Some y"
    show "?P H' S' U' target m y"
      using step IH by (cases y) (fastforce split: if_splits Option.bind_splits sum.splits dest: revertTip_pools)
  qed
  then show ?thesis using assms(2) by simp
qed

lemma apply_loop_pools:
  assumes "apply_loop H S U now sc rebase m = Some (r, m')" "U = PoolSubscriber H verify"
  shows "no_sub r"
proof -
  let ?P = "\<lambda>H' S' U' (now :: gotime) sc rebase m (r, m'). U' = PoolSubscriber H' verify \<longrightarrow> no_sub r"
  have "?P H S U now sc rebase m (r, m')"
  proof (rule apply_loop.raw_induct [of ?P, OF _ assms(1)])
    fix rec :: "hashfn \<Rightarrow> 's manager_store \<Rightarrow> pool subscriber \<Rightarrow> gotime \<Rightarrow> scratch_chain \<Rightarrow> chain_index list \<Rightarrow> ('s, pool) manager
      \<Rightarrow> ((manager_error + unit) \<times> ('s, pool) manager) option"
      and H' S' U' now sc rebase m and y :: "(manager_error + unit) \<times> ('s, pool) manager"
    assume IH: "\<And>H' S' U' now sc rebase m y. rec H' S' U' now sc rebase m = Some y \<Longrightarrow> ?P H' S' U' now sc rebase m y"
      and step: "(if cs_Index (m_cs m) = ScratchChain_ValidTip sc then Some (Inr (), m)
        else do {
          next_index \<leftarrow> (if rebase \<noteq> [] then Some (last rebase) else ScratchChain_Index sc (ci_Height (cs_Index (m_cs m)) + 1));
          (r, m) \<leftarrow> Manager_applyTip H' S' U' now m next_index;
          (case r of Inl e \<Rightarrow> Some (Inl e, m) | Inr _ \<Rightarrow> rec H' S' U' now sc (butlast rebase) m)
        }) = Some y"
    show "?P H' S' U' now sc rebase m y"
      using step IH by (cases y) (fastforce split: if_splits Option.bind_splits sum.splits dest: applyTip_pools)
  qed
  then show ?thesis using assms(2) by simp
qed

lemma rebase_loop_errors:
  assumes "rebase_loop H S s base rb = Some (Inl e)"
  shows "\<not> subscriber_error e"
proof -
  let ?P = "\<lambda>H' S' s' base (rb :: chain_index list) (y :: manager_error + block_header \<times> chain_index list). no_sub y"
  have "?P H S s base rb (Inl e)"
  proof (rule rebase_loop.raw_induct [of ?P, OF _ assms(1)])
    fix rec :: "hashfn \<Rightarrow> 's manager_store \<Rightarrow> 's \<Rightarrow> block_header \<Rightarrow> chain_index list
      \<Rightarrow> (manager_error + block_header \<times> chain_index list) option"
      and H' S' s' base rb y
    assume IH: "\<And>H' S' s' base rb y. rec H' S' s' base rb = Some y \<Longrightarrow> ?P H' S' s' base rb y"
      and step: "do {
        r \<leftarrow> ms_BestIndex S' s' (bh_Height base);
        (case r of
           Inl e \<Rightarrow>
             if e \<noteq> ErrUnknownIndex then Some (Inl (ErrStoreFailed e))
             else if zero_index = BlockHeader_Index H' base then Some (Inr (base, rb))
             else (case ms_Header S' s' (BlockHeader_ParentIndex base) of
                     Inl e \<Rightarrow> Some (Inl (ErrStoreFailed e))
                   | Inr h \<Rightarrow> rec H' S' s' h (rb @ [BlockHeader_Index H' base]))
         | Inr index \<Rightarrow>
             if index = BlockHeader_Index H' base then Some (Inr (base, rb))
             else (case ms_Header S' s' (BlockHeader_ParentIndex base) of
                     Inl e \<Rightarrow> Some (Inl (ErrStoreFailed e))
                   | Inr h \<Rightarrow> rec H' S' s' h (rb @ [BlockHeader_Index H' base])))
      } = Some y"
    show "?P H' S' s' base rb y"
      using step by (auto split: if_splits Option.bind_splits sum.splits dest!: IH)
  qed
  then show ?thesis by simp
qed

lemma reorgTo_pools:
  assumes "Manager_reorgTo H S (PoolSubscriber H verify) now sc m = Some (r, m')"
  shows "no_sub r"
  using assms
  by (auto simp: Manager_reorgTo_def split: sum.splits Option.bind_splits prod.splits
      dest: rebase_loop_errors revert_loop_pools [OF _ refl] apply_loop_pools [OF _ refl])

lemma add_blocks_loop_pools:
  "add_blocks_loop H verify S (PoolSubscriber H verify) now i m bs = Some (r, m') \<Longrightarrow> no_sub r"
proof (induction bs arbitrary: m r)
  case (Cons b bs)
  show ?case using Cons.prems
    by (auto simp: Let_def split: Option.bind_splits sum.splits if_splits prod.splits
        dest: reorgTo_pools applyTip_pools Cons.IH)
qed simp

lemma AddBlocks_pools:
  assumes "Manager_AddBlocks H verify S (PoolSubscriber H verify) now m bs = Some (r, m')"
  shows "no_sub r"
  using assms
  by (auto simp: Manager_AddBlocks_def Let_def split: Option.bind_splits option.splits sum.splits if_splits prod.splits if_splits
      dest: add_blocks_loop_pools)

section \<open>Requests keep the manager\<close>

lemma relay_txns_pool:
  assumes "relay_txns H verify p txns = Some (ok, p')" "pool_reach H verify p"
  shows "pool_reach H verify p' \<and> p_cs p' = p_cs p"
  using assms
proof (induction txns arbitrary: p)
  case (Cons txn txns)
  obtain r where r: "Pool_AddTransaction H verify p txn = Some r" using Cons.prems(1) by (auto split: Option.bind_splits)
  show ?case
  proof (cases r)
    case (Inl e)
    then show ?thesis using Cons.prems r by simp
  next
    case (Inr p1)
    have "pool_reach H verify p1" using pool_reach.add [OF Cons.prems(2)] r Inr by simp
    moreover have "p_cs p1 = p_cs p"
      using r Inr pool_ok_addTransaction [OF pool_reach_ok [OF Cons.prems(2)]] by (simp add: Pool_AddTransaction_def)
    ultimately show ?thesis using Cons.IH [of p1] Cons.prems(1) r Inr by simp
  qed
qed simp

lemma setErr_cm [simp]: "sy_cm (Syncer_setErr e s) = sy_cm s" by (simp add: Syncer_setErr_def)
lemma on_peer_cm [simp]: "sy_cm (on_peer conn f s) = sy_cm s" by (simp add: on_peer_def)
lemma relay_cm [simp]: "sy_cm (Syncer_relay c m s) = sy_cm s" by (simp add: Syncer_relay_def)
lemma remove_cm [simp]: "sy_cm (removeDisconnected s) = sy_cm s" by (simp add: removeDisconnected_def)

lemma handleRequest_reach:
  assumes "mgr_reach H verify c0 B (sy_cm s)" "names_blocks H c0 B" "\<And>b. msg = MsgRelayBlock b \<Longrightarrow> b \<in> B"
    "handleRequest H verify EphemeralStore now conn msg s = Some (resp, s')"
  shows "mgr_reach H verify c0 B (sy_cm s')"
proof (cases msg)
  case (MsgRelayBlock b)
  then have h: "handleMsgRelayBlock H verify EphemeralStore now conn b s = Some (resp, s')" using assms(4) by (simp add: handleRequest_def)
  then obtain r m where add: "Manager_AddTipBlock H verify EphemeralStore (PoolSubscriber H verify) now (sy_cm s) b = Some (r, m)"
    "sy_cm s' = m" by (auto simp: handleMsgRelayBlock_def Let_def split: Option.bind_splits sum.splits if_splits)
  show ?thesis
    using mgr_reach.tip_block [OF assms(1,3) add(1) AddTipBlock_no_sub [OF add(1)]] MsgRelayBlock add(2) by blast
next
  case (MsgRelayTransactionSet txns)
  then have h: "handleMsgRelayTransactionSet H verify conn txns s = Some (resp, s')" using assms(4) by (simp add: handleRequest_def)
  obtain p ok p' where p: "at (m_subscribers (sy_cm s)) (sy_tp s) = Some p" "relay_txns H verify p txns = Some (ok, p')"
    "sy_cm s' = (sy_cm s)\<lparr>m_subscribers := (m_subscribers (sy_cm s))[sy_tp s := p']\<rparr>"
    using h by (auto simp: handleMsgRelayTransactionSet_def Let_def split: Option.bind_splits if_splits)
  have f: "\<forall>p\<in>set (m_subscribers (sy_cm s)). pool_reach H verify p \<and> p_cs p = m_cs (sy_cm s)"
    using mgr_reach_inv [OF assms(2,1)] by (simp add: mgr_inv_def pool_follows_def)
  have "p \<in> set (m_subscribers (sy_cm s))" using p(1) by (auto simp: at_def split: if_splits)
  then have "pool_reach H verify p' \<and> p_cs p' = m_cs (sy_cm s)" using relay_txns_pool [OF p(2)] f by auto
  then have "\<forall>q\<in>set ((m_subscribers (sy_cm s))[sy_tp s := p']). pool_reach H verify q \<and> p_cs q = m_cs (sy_cm s)"
    using f set_update_subset_insert [of "m_subscribers (sy_cm s)" "sy_tp s" p'] by blast
  then show ?thesis unfolding p(3) by (rule mgr_reach.use_pool [OF assms(1)])
qed (use assms(1,4) in \<open>auto simp: handleRequest_def handleMsgGetHeaders_def handleMsgGetBlocks_def handleMsgGetCheckpoint_def
      split: Option.bind_splits sum.splits store_error.splits if_splits\<close>)

lemma pop_request_in:
  "pop_request ps = Some ((conn, tm), ps') \<Longrightarrow> \<exists>p\<in>set ps. tm \<in> set (pr_in p)"
  by (induction ps arbitrary: ps') (auto split: list.splits)

text \<open>The blocks that wait in the queues.\<close>

definition queued :: "'s syncer \<Rightarrow> block set" where
  "queued s = {b. \<exists>p\<in>set (sy_peers s). \<exists>tm\<in>set (pr_in p). tm_m tm = MsgRelayBlock b}"

lemma request_turn_reach:
  assumes "mgr_reach H verify c0 B (sy_cm s)" "names_blocks H c0 B" "queued s \<subseteq> B"
    "request_turn H verify EphemeralStore now s = Some (x, s')"
  shows "mgr_reach H verify c0 B (sy_cm s')"
proof (cases "nextRequest (removeDisconnected s)")
  case None
  then have "s' = removeDisconnected s" using assms(4) by (simp add: request_turn_def)
  then show ?thesis using assms(1) by simp
next
  case (Some a)
  obtain conn tm s1 where a: "a = ((conn, tm), s1)" by (cases a) auto
  have s1: "sy_cm s1 = sy_cm s" using Some a by (auto simp: nextRequest_def)
  obtain ps where "pop_request (sy_peers (removeDisconnected s)) = Some ((conn, tm), ps)"
    using Some a by (auto simp: nextRequest_def)
  from pop_request_in [OF this] obtain p where p: "p \<in> set (sy_peers s)" "tm \<in> set (pr_in p)"
    by (auto simp: removeDisconnected_def)
  obtain resp s2 where h: "handleRequest H verify EphemeralStore now conn (tm_m tm) s1 = Some (resp, s2)" "sy_cm s' = sy_cm s2"
    using assms(4) Some a by (auto simp: request_turn_def split: Option.bind_splits option.splits if_splits)
  have "mgr_reach H verify c0 B (sy_cm s2)"
    by (rule handleRequest_reach [OF _ assms(2) _ h(1)]) (use assms(1,3) p s1 in \<open>auto simp: queued_def\<close>)
  then show ?thesis using h(2) by simp
qed

section \<open>Synchronisation keeps the manager\<close>

definition buffered :: "download \<Rightarrow> block set" where
  "buffered d = {b. \<exists>bs. Some bs \<in> set (dl_buf d) \<and> b \<in> set bs}"

lemma buffered_slot: "at (dl_buf d) i = Some (Some bs) \<Longrightarrow> set bs \<subseteq> buffered d"
  unfolding buffered_def at_def by (auto split: if_splits) (metis nth_mem)

lemma buffered_update: "buffered (d\<lparr>dl_buf := (dl_buf d)[i := x]\<rparr>) \<subseteq> buffered d \<union> (case x of None \<Rightarrow> {} | Some bs \<Rightarrow> set bs)"
  using set_update_subset_insert [of "dl_buf d" i x] by (fastforce simp: buffered_def)

lemma drain_reach:
  assumes "drain H verify EphemeralStore now d s = Some (e, d', s')" "mgr_reach H verify c0 B (sy_cm s)" "buffered d \<subseteq> B"
  shows "mgr_reach H verify c0 B (sy_cm s') \<and> buffered d' \<subseteq> B"
  using assms
proof (induction H verify "EphemeralStore :: ephemeral_store manager_store" now d s rule: drain.induct)
  case (1 H verify now d s)
  let ?i = "dl_cursor d mod length (dl_buf d)"
  show ?case
  proof (cases "\<exists>blocks. at (dl_buf d) ?i = Some (Some blocks)")
    case False
    then have "d' = d \<and> s' = s"
      using "1.prems"(1) by (subst (asm) drain.simps) (auto simp: Let_def split: option.splits)
    then show ?thesis using "1.prems" by simp
  next
    case True
    then obtain blocks where b: "at (dl_buf d) ?i = Some (Some blocks)" by blast
    have sub: "set blocks \<subseteq> B" using buffered_slot [OF b] "1.prems"(3) by blast
    obtain r m where add: "Manager_AddBlocks H verify EphemeralStore (PoolSubscriber H verify) now (sy_cm s) blocks = Some (r, m)"
      using "1.prems"(1) b by (subst (asm) drain.simps) (auto simp: Let_def split: Option.bind_splits)
    have m: "mgr_reach H verify c0 B (sy_cm (s\<lparr>sy_cm := m\<rparr>))"
      using mgr_reach.blocks [OF "1.prems"(2) sub add AddBlocks_pools [OF add]] by simp
    show ?thesis
    proof (cases r)
      case (Inl x)
      then have "d' = d \<and> s' = s\<lparr>sy_cm := m\<rparr>"
        using "1.prems"(1) b add by (subst (asm) drain.simps) (auto simp: Let_def)
      then show ?thesis using "1.prems"(3) m by simp
    next
      case (Inr added)
      let ?d = "d\<lparr>dl_buf := (dl_buf d)[?i := None], dl_cursor := dl_cursor d + 1, dl_chain := track (dl_chain d) added\<rparr>"
      have rest: "drain H verify EphemeralStore now ?d (s\<lparr>sy_cm := m\<rparr>) = Some (e, d', s')"
        using "1.prems"(1) b add Inr by (subst (asm) drain.simps) (simp add: Let_def)
      have "buffered ?d \<subseteq> B" using buffered_update [of d ?i None] "1.prems"(3) by (auto simp: buffered_def)
      then show ?thesis using "1.hyps" [OF refl b refl add refl refl Inr rest m] by simp
    qed
  qed
qed

lemma send_request_frame:
  "send_request r d s = Some (d', s') \<Longrightarrow> sy_cm s' = sy_cm s \<and> buffered d' = buffered d"
  by (auto simp: send_request_def ask_peer_def buffered_def split: Option.bind_splits)

lemma send_requests_frame:
  "send_requests rs d s = Some (d', s') \<Longrightarrow> sy_cm s' = sy_cm s \<and> buffered d' = buffered d"
  by (induction rs arbitrary: d s) (auto split: Option.bind_splits dest: send_request_frame)

lemma getBlocksForChain_frame:
  assumes "getBlocksForChain pick open sc s = Some (st, s')"
  shows "sy_cm s' = sy_cm s \<and> (\<forall>d. st = Downloading d \<longrightarrow> buffered d = {})"
  using assms
  by (auto simp: getBlocksForChain_def Let_def split: if_splits Option.bind_splits dest!: send_requests_frame)
    (auto simp: buffered_def)

lemma getBlocks_frame: "getBlocks conn answer s = (r, s') \<Longrightarrow> sy_cm s' = sy_cm s"
  by (auto simp: getBlocks_def split: sum.splits)

lemma getHeaders_frame: "getHeaders conn answer s = (r, s') \<Longrightarrow> sy_cm s' = sy_cm s"
  by (auto simp: getHeaders_def split: sum.splits if_splits)

text \<open>The blocks of an answer.\<close>

definition answered :: "peer_error + block list \<Rightarrow> block set" where
  "answered answer = (case answer of Inl _ \<Rightarrow> {} | Inr bs \<Rightarrow> set bs)"

lemma getBlocksForChain_answer_reach:
  assumes "getBlocksForChain_answer H verify EphemeralStore now pick j answer d s = Some (st, s')"
    "mgr_reach H verify c0 B (sy_cm s)" "buffered d \<subseteq> B" "answered answer \<subseteq> B"
  shows "mgr_reach H verify c0 B (sy_cm s') \<and> (\<forall>d'. st = Downloading d' \<longrightarrow> buffered d' \<subseteq> B)"
proof -
  obtain r conn where rc: "at (dl_pending d) j = Some r" "rq_peer r = Some conn"
    using assms(1) by (auto simp: getBlocksForChain_answer_def split: Option.bind_splits)
  obtain blocks s1 where "getBlocks conn answer s = (blocks, s1)" by fastforce
  note r = rc this
  note s1 = getBlocks_frame [OF r(3)]
  let ?d = "d\<lparr>dl_pending := take j (dl_pending d) @ drop (j + 1) (dl_pending d)\<rparr>"
  show ?thesis
  proof (cases blocks)
    case None
    have keep: "buffered (d\<lparr>dl_pending := rs, dl_peers := ps\<rparr>) = buffered d" for rs ps by (simp add: buffered_def)
    show ?thesis using assms(1-3) r s1 None
      by (auto simp: getBlocksForChain_answer_def Let_def keep split: if_splits dest!: send_request_frame)
  next
    case (Some bs)
    let ?d1 = "?d\<lparr>dl_buf := (dl_buf ?d)[rq_chunk r mod length (dl_buf ?d) := Some bs]\<rparr>"
    have bs: "set bs \<subseteq> B" using r(3) Some assms(4) by (auto simp: getBlocks_def answered_def split: sum.splits)
    obtain e d2 s2 where dr: "drain H verify EphemeralStore now ?d1 s1 = Some (e, d2, s2)"
      using assms(1) r Some by (auto simp: getBlocksForChain_answer_def Let_def split: Option.bind_splits)
    have "buffered ?d1 \<subseteq> B" using buffered_update [of ?d "rq_chunk r mod length (dl_buf ?d)" "Some bs"] bs assms(3)
      by (auto simp: buffered_def)
    then have k: "mgr_reach H verify c0 B (sy_cm s2)" "buffered d2 \<subseteq> B"
      using drain_reach [OF dr _ , of c0 B] assms(2) s1 by auto
    have next_b: "buffered (d2\<lparr>dl_next := n\<rparr>) = buffered d2" for n by (simp add: buffered_def)
    show ?thesis using assms(1) r Some dr k
      by (auto simp: getBlocksForChain_answer_def Let_def next_b split: sum.splits if_splits dest!: send_request_frame)
  qed
qed

section \<open>The node\<close>

text \<open>
  The runs of a node, with the phase of its sync loop: turns of the request loop and steps of the sync loop in any
  order, while the peers and their queues change in any way. \<open>B\<close> is the set of blocks that come in.
\<close>

inductive node_run ::
    "hashfn \<Rightarrow> verifier \<Rightarrow> checkpoint \<Rightarrow> block set \<Rightarrow> sync_phase \<Rightarrow> ephemeral_store syncer \<Rightarrow> bool"
  for H verify c0 B where
  start: "mgr_reach H verify c0 B cm \<Longrightarrow> node_run H verify c0 B SyncEnded (NewSyncer gid key cm tp)"
| network: "node_run H verify c0 B ph s \<Longrightarrow> node_run H verify c0 B ph (s\<lparr>sy_peers := ps\<rparr>)"
| request: "node_run H verify c0 B ph s \<Longrightarrow> queued s \<subseteq> B \<Longrightarrow>
    request_turn H verify EphemeralStore now s = Some (x, s') \<Longrightarrow> node_run H verify c0 B ph s'"
| target: "node_run H verify c0 B SyncEnded s \<Longrightarrow> syncToTarget EphemeralStore conn s = Some (ph, s') \<Longrightarrow>
    node_run H verify c0 B ph s'"
| headers: "node_run H verify c0 B (AwaitHeaders open) s \<Longrightarrow>
    syncToTarget_headers H EphemeralStore now pick conn open hanswer s = Some (ph, s') \<Longrightarrow> node_run H verify c0 B ph s'"
| blocks: "node_run H verify c0 B (AwaitBlocks d) s \<Longrightarrow> answered banswer \<subseteq> B \<Longrightarrow>
    syncToTarget_blocks H verify EphemeralStore now pick1 conn j banswer d s = Some (ph, s') \<Longrightarrow> node_run H verify c0 B ph s'"

lemma node_run_reach:
  assumes nb: "names_blocks H c0 B"
  shows "node_run H verify c0 B ph s \<Longrightarrow>
    mgr_reach H verify c0 B (sy_cm s) \<and> (\<forall>d. ph = AwaitBlocks d \<longrightarrow> buffered d \<subseteq> B)"
proof (induction rule: node_run.induct)
  case (start cm gid key tp)
  then show ?case by (simp add: NewSyncer_def)
next
  case (network ph s ps)
  then show ?case by simp
next
  case (request ph s now x s')
  then show ?case using request_turn_reach [OF _ nb] by blast
next
  case (target s conn ph s')
  then show ?case by (auto simp: syncToTarget_def ask_headers_def ask_peer_def split: Option.bind_splits sum.splits)
next
  case (headers "open" s now pick conn answer ph s')
  obtain hs s1 where g: "getHeaders conn answer s = (hs, s1)" by fastforce
  note s1 = getHeaders_frame [OF g]
  show ?case
  proof (cases "\<exists>h. hs = Some h \<and> h \<noteq> []")
    case False
    then have "ph = SyncEnded \<and> s' = s1"
      using headers.hyps(2) g by (auto simp: syncToTarget_headers_def split: option.splits if_splits)
    then show ?thesis using headers.IH s1 by simp
  next
    case True
    then obtain h where h: "hs = Some h" "h \<noteq> []" by blast
    then obtain r m where add: "Manager_AddHeaders H EphemeralStore now (sy_cm s1) h = Some (r, m)"
      using headers.hyps(2) g by (auto simp: syncToTarget_headers_def split: Option.bind_splits)
    have m: "mgr_reach H verify c0 B m" using mgr_reach.headers [OF _ add] headers.IH s1 by auto
    have ph: "(case r of
               Inl e \<Rightarrow> Some (SyncEnded, if unknown_index e then s1\<lparr>sy_cm := m\<rparr> else Syncer_setErr (ErrSyncHeaders e) (s1\<lparr>sy_cm := m\<rparr>))
             | Inr None \<Rightarrow> Some (ask_headers conn open [BlockHeader_Index H (last h)] (s1\<lparr>sy_cm := m\<rparr>))
             | Inr (Some sc) \<Rightarrow> do {
                 (st, s) \<leftarrow> getBlocksForChain pick open sc (s1\<lparr>sy_cm := m\<rparr>);
                 Some (case st of Downloading d \<Rightarrow> (AwaitBlocks d, s) | _ \<Rightarrow> (SyncEnded, s))
               }) = Some (ph, s')"
      using headers.hyps(2) g h add by (simp add: syncToTarget_headers_def Let_def)
    show ?thesis using ph m
      by (auto simp: ask_headers_def ask_peer_def split: sum.splits option.splits Option.bind_splits if_splits download_status.splits
          dest!: getBlocksForChain_frame)
  qed
next
  case (blocks d s answer now pick conn j ph s')
  obtain st s1 where st: "getBlocksForChain_answer H verify EphemeralStore now pick j answer d s = Some (st, s1)"
    using blocks.hyps(3) by (auto simp: syncToTarget_blocks_def split: Option.bind_splits)
  have "mgr_reach H verify c0 B (sy_cm s1) \<and> (\<forall>d'. st = Downloading d' \<longrightarrow> buffered d' \<subseteq> B)"
    using getBlocksForChain_answer_reach [OF st _ _ blocks.hyps(2)] blocks.IH by blast
  then show ?case using blocks.hyps(3) st
    by (auto simp: syncToTarget_blocks_def ask_headers_def ask_peer_def split: download_status.splits)
qed



end
