(* ===== verification/P2P_Blocks.thy ===== *)
theory P2P_Blocks
  imports P2P_Node
begin

text \<open>
  The download of the blocks of a chain: the order of the answers does not matter, and the cases in which the download
  cannot end.
\<close>

section \<open>The order of the answers\<close>

text \<open>The chunks added one after the other, with the chain they belong to.\<close>

fun add_chunks ::
    "hashfn \<Rightarrow> verifier \<Rightarrow> 's manager_store \<Rightarrow> gotime \<Rightarrow> block list list \<Rightarrow> scratch_chain \<Rightarrow> ('s, pool) manager
     \<Rightarrow> (scratch_chain \<times> ('s, pool) manager) option" where
  "add_chunks H verify S now [] sc m = Some (sc, m)"
| "add_chunks H verify S now (bs # bss) sc m = do {
     (r, m) \<leftarrow> Manager_AddBlocks H verify S (PoolSubscriber H verify) now m bs;
     (case r of Inl _ \<Rightarrow> None | Inr added \<Rightarrow> add_chunks H verify S now bss (track sc added) m)
   }"

lemma add_chunks_append:
  "add_chunks H verify S now (xs @ ys) sc m = do {
     (sc, m) \<leftarrow> add_chunks H verify S now xs sc m;
     add_chunks H verify S now ys sc m
   }"
  by (induction xs arbitrary: sc m) (auto split: Option.bind_split sum.split)

text \<open>
  Answers to a download: each event chooses an open request, the peer for a retry, and whether the call fails or
  brings the blocks of its chunk.
\<close>

type_synonym download_event = "(nat list \<Rightarrow> nat) \<times> nat \<times> peer_error option"

fun download_run ::
    "hashfn \<Rightarrow> verifier \<Rightarrow> 's manager_store \<Rightarrow> gotime \<Rightarrow> (nat \<Rightarrow> block list) \<Rightarrow> download_event list
     \<Rightarrow> download_status \<Rightarrow> 's syncer \<Rightarrow> (download_status \<times> 's syncer) option" where
  "download_run H verify S now bl ((pick, j, e) # evs) (Downloading d) s = do {
     let j = j mod length (dl_pending d);
     let answer = (case e of Some e \<Rightarrow> Inl e | None \<Rightarrow> Inr (bl (rq_chunk (dl_pending d ! j))));
     (st, s) \<leftarrow> getBlocksForChain_answer H verify S now pick j answer d s;
     download_run H verify S now bl evs st s
   }"
| "download_run H verify S now bl evs st s = Some (st, s)"

text \<open>
  A download of \<open>n\<close> chunks from chain \<open>sc\<close> and manager \<open>m\<close> on, of which the chunks \<open>D\<close> have been received and those
  below the cursor added.
\<close>

definition received ::
    "hashfn \<Rightarrow> verifier \<Rightarrow> 's manager_store \<Rightarrow> gotime \<Rightarrow> (nat \<Rightarrow> block list) \<Rightarrow> nat \<Rightarrow> scratch_chain \<Rightarrow> ('s, pool) manager
     \<Rightarrow> nat set \<Rightarrow> download \<Rightarrow> 's syncer \<Rightarrow> bool" where
  "received H verify S now bl n sc m D d s \<longleftrightarrow>
     n \<le> 8 \<and> D \<subseteq> {..<n} \<and> length (dl_buf d) = 8 \<and> dl_cursor d \<le> n \<and> {..<dl_cursor d} \<subseteq> D
     \<and> (\<forall>k<8. dl_buf d ! k = (if k \<in> D \<and> dl_cursor d \<le> k then Some (bl k) else None))
     \<and> add_chunks H verify S now (map bl [0..<dl_cursor d]) sc m = Some (dl_chain d, sy_cm s)"

lemma drain_received:
  assumes "received H verify S now bl n sc m D d s" "add_chunks H verify S now (map bl [0..<n]) sc m \<noteq> None"
  shows "\<exists>d' s'. drain H verify S now d s = Some (Inr (), d', s') \<and> received H verify S now bl n sc m D d' s'
    \<and> dl_cursor d' \<notin> D \<and> dl_pending d' = dl_pending d \<and> dl_peers d' = dl_peers d \<and> dl_next d' = dl_next d
    \<and> dl_unvalidated d' = dl_unvalidated d"
  using assms
proof (induction "n - dl_cursor d" arbitrary: d s)
  case 0
  then have c: "dl_cursor d = n" "n \<notin> D" by (auto simp: received_def)
  have b: "at (dl_buf d) (dl_cursor d mod length (dl_buf d)) = Some None"
    using 0(2) c by (cases "n = 8") (auto simp: received_def at_def)
  show ?case using 0(2) c b by (subst drain.simps) (simp add: Let_def)
next
  case (Suc x)
  let ?c = "dl_cursor d"
  have c: "?c < n" using Suc.hyps(2) by simp
  then have i: "?c mod length (dl_buf d) = ?c" "?c < length (dl_buf d)" using Suc.prems(1) by (auto simp: received_def)
  show ?case
  proof (cases "?c \<in> D")
    case False
    then have b: "at (dl_buf d) (?c mod length (dl_buf d)) = Some None"
      using Suc.prems(1) i by (auto simp: received_def at_def)
    show ?thesis using Suc.prems(1) False b by (subst drain.simps) (simp add: Let_def)
  next
    case True
    then have b: "at (dl_buf d) (?c mod length (dl_buf d)) = Some (Some (bl ?c))"
      using Suc.prems(1) i by (auto simp: received_def at_def)
    have "[0..<n] = [0..<?c] @ ?c # [Suc ?c..<n]" using c upt_add_eq_append [of 0 ?c "n - ?c"] by (simp add: upt_conv_Cons)
    then obtain sc1 m1 where "add_chunks H verify S now (bl ?c # map bl [Suc ?c..<n]) (dl_chain d) (sy_cm s) = Some (sc1, m1)"
      using Suc.prems by (auto simp: received_def add_chunks_append)
    then obtain added m2 where add: "Manager_AddBlocks H verify S (PoolSubscriber H verify) now (sy_cm s) (bl ?c) = Some (Inr added, m2)"
      by (auto split: Option.bind_splits sum.splits)
    let ?d = "d\<lparr>dl_buf := (dl_buf d)[?c := None], dl_cursor := ?c + 1, dl_chain := track (dl_chain d) added\<rparr>"
    have rest: "drain H verify S now d s = drain H verify S now ?d (s\<lparr>sy_cm := m2\<rparr>)"
      using b add i by (subst drain.simps) (simp add: Let_def)
    have "{..<Suc ?c} \<subseteq> D" using Suc.prems(1) True by (auto simp: received_def less_Suc_eq)
    moreover have "(dl_buf d)[?c := None] ! k = (if k \<in> D \<and> Suc ?c \<le> k then Some (bl k) else None)" if "k < 8" for k
      using Suc.prems(1) that i by (cases "k = ?c") (auto simp: received_def)
    ultimately have "received H verify S now bl n sc m D ?d (s\<lparr>sy_cm := m2\<rparr>)"
      using Suc.prems(1) c add by (auto simp: received_def add_chunks_append)
    from Suc.hyps(1) [OF _ this Suc.prems(2)] Suc.hyps(2) show ?thesis by (simp add: rest)
  qed
qed

text \<open>What stays true while the download goes on: a request is open for every chunk that is missing.\<close>

definition in_progress ::
    "hashfn \<Rightarrow> verifier \<Rightarrow> 's manager_store \<Rightarrow> gotime \<Rightarrow> (nat \<Rightarrow> block list) \<Rightarrow> nat \<Rightarrow> scratch_chain \<Rightarrow> ('s, pool) manager
     \<Rightarrow> download \<Rightarrow> 's syncer \<Rightarrow> bool" where
  "in_progress H verify S now bl n sc m d s \<longleftrightarrow>
     (\<exists>D. received H verify S now bl n sc m D d s \<and> dl_cursor d \<notin> D \<and> dl_pending d \<noteq> []
        \<and> distinct (map rq_chunk (dl_pending d)) \<and> set (map rq_chunk (dl_pending d)) = {..<n} - D
        \<and> (\<forall>r\<in>set (dl_pending d). rq_peer r \<noteq> None) \<and> length (dl_unvalidated d) \<le> dl_next d * 16)"

lemma in_image_not_Nil: "x \<in> f ` set xs \<Longrightarrow> xs \<noteq> []"
  by auto

lemma take_drop_nth:
  assumes "j < length xs"
  shows "set (take j xs @ drop (Suc j) xs) \<union> {xs ! j} = set xs"
    "distinct (map f xs) \<Longrightarrow> distinct (map f (take j xs @ drop (Suc j) xs)) \<and> f (xs ! j) \<notin> f ` set (take j xs @ drop (Suc j) xs)"
proof -
  have xs: "xs = take j xs @ xs ! j # drop (Suc j) xs" using assms by (rule id_take_nth_drop)
  then show "set (take j xs @ drop (Suc j) xs) \<union> {xs ! j} = set xs"
    by (metis Un_insert_right list.simps(15) set_append sup_bot.right_neutral)
  assume "distinct (map f xs)"
  then have "distinct (map f (take j xs @ xs ! j # drop (Suc j) xs))" using xs by simp
  then show "distinct (map f (take j xs @ drop (Suc j) xs)) \<and> f (xs ! j) \<notin> f ` set (take j xs @ drop (Suc j) xs)"
    by auto
qed

lemma received_cm: "received H verify S now bl n sc m D d s \<Longrightarrow> sy_cm s' = sy_cm s \<Longrightarrow> received H verify S now bl n sc m D d s'"
  by (simp add: received_def)

lemma received_frame:
  "received H verify S now bl n sc m D (d\<lparr>dl_pending := rs\<rparr>) s = received H verify S now bl n sc m D d s"
  "received H verify S now bl n sc m D (d\<lparr>dl_peers := ps\<rparr>) s = received H verify S now bl n sc m D d s"
  by (simp_all add: received_def)

lemma answer_failed:
  assumes ip: "in_progress H verify S now bl n sc m d s" and j: "j < length (dl_pending d)"
  shows "\<exists>st s'. getBlocksForChain_answer H verify S now pick j (Inl e) d s = Some (st, s')
    \<and> (st = DownloadFailed ErrNoPeersLeft
       \<or> (\<exists>d'. st = Downloading d' \<and> in_progress H verify S now bl n sc m d' s' \<and> length (dl_pending d') = length (dl_pending d)))"
proof -
  obtain D where D: "received H verify S now bl n sc m D d s" "dl_cursor d \<notin> D" "distinct (map rq_chunk (dl_pending d))"
    "rq_chunk ` set (dl_pending d) = {..<n} - D" "\<forall>r\<in>set (dl_pending d). rq_peer r \<noteq> None"
    "length (dl_unvalidated d) \<le> dl_next d * 16"
    using ip by (auto simp: in_progress_def)
  let ?r = "dl_pending d ! j" and ?rest = "take j (dl_pending d) @ drop (Suc j) (dl_pending d)"
  obtain conn where conn: "rq_peer ?r = Some conn" using D(5) j nth_mem by blast
  let ?s = "on_peer conn Peer_disconnect s" and ?ps = "removeAll conn (dl_peers d)"
  let ?r' = "?r\<lparr>rq_peer := Some (pick ?ps)\<rparr>"
  let ?d' = "d\<lparr>dl_pending := ?rest @ [?r'], dl_peers := ?ps\<rparr>"
    and ?s' = "ask_peer (pick ?ps) (MsgGetBlocks (rq_blocks ?r)) (MsgBlocks []) ?s"
  have res: "getBlocksForChain_answer H verify S now pick j (Inl e) d s
      = Some (if ?ps = [] then (DownloadFailed ErrNoPeersLeft, ?s) else (Downloading ?d', ?s'))"
    using j conn by (simp add: getBlocksForChain_answer_def at_def getBlocks_def Let_def send_request_def)
  note td = take_drop_nth [OF j]
  have ch: "rq_chunk ` set (?rest @ [?r']) = rq_chunk ` (set ?rest \<union> {?r})" by simp
  have "in_progress H verify S now bl n sc m ?d' ?s'"
    unfolding in_progress_def
  proof (intro exI [of _ D] conjI)
    show "received H verify S now bl n sc m D ?d' ?s'"
      using received_cm [OF D(1), of ?s'] by (simp add: received_frame ask_peer_def received_def)
    show "set (map rq_chunk (dl_pending ?d')) = {..<n} - D" using ch unfolding td(1) D(4) by (simp add: image_Un)
    show "distinct (map rq_chunk (dl_pending ?d'))" using td(2) [OF D(3)] by auto
    show "\<forall>r\<in>set (dl_pending ?d'). rq_peer r \<noteq> None" using D(5) td(1) by auto
  qed (use D(2,6) in simp_all)
  moreover have "length (dl_pending ?d') = length (dl_pending d)" using j by simp
  ultimately show ?thesis using res by (cases "?ps = []") auto
qed

lemma answer_received:
  assumes ip: "in_progress H verify S now bl n sc m d s" and j: "j < length (dl_pending d)"
    and all: "add_chunks H verify S now (map bl [0..<n]) sc m = Some (sc', m')" "ScratchChain_FullyValidated sc'"
    and before: "\<forall>i<n. \<forall>c m1. add_chunks H verify S now (map bl [0..<i]) sc m = Some (c, m1) \<longrightarrow> \<not> ScratchChain_FullyValidated c"
  shows "\<exists>st s'. getBlocksForChain_answer H verify S now pick j (Inr (bl (rq_chunk (dl_pending d ! j)))) d s = Some (st, s')
    \<and> (st = Downloaded sc' [] \<and> sy_cm s' = m'
       \<or> (\<exists>d'. st = Downloading d' \<and> in_progress H verify S now bl n sc m d' s' \<and> length (dl_pending d) = Suc (length (dl_pending d'))))"
proof -
  obtain D where D: "received H verify S now bl n sc m D d s" "dl_cursor d \<notin> D" "distinct (map rq_chunk (dl_pending d))"
    "rq_chunk ` set (dl_pending d) = {..<n} - D" "\<forall>r\<in>set (dl_pending d). rq_peer r \<noteq> None"
    "length (dl_unvalidated d) \<le> dl_next d * 16"
    using ip by (auto simp: in_progress_def)
  let ?r = "dl_pending d ! j" and ?rest = "take j (dl_pending d) @ drop (Suc j) (dl_pending d)"
  let ?k = "rq_chunk ?r"
  obtain conn where conn: "rq_peer ?r = Some conn" using D(5) j nth_mem by blast
  note td = take_drop_nth [OF j]
  have k: "?k < n" "?k \<notin> D" using D(4) j nth_mem by blast+
  have n: "n \<le> 8" "length (dl_buf d) = 8" "{..<dl_cursor d} \<subseteq> D" using D(1) by (simp_all add: received_def)
  then have k8: "?k mod length (dl_buf d) = ?k" "?k < 8" "dl_cursor d \<le> ?k" using k by (auto simp: subset_eq not_less)
  let ?d = "d\<lparr>dl_pending := ?rest, dl_buf := (dl_buf d)[?k := Some (bl ?k)]\<rparr>"
  have rec: "received H verify S now bl n sc m (insert ?k D) ?d s"
    using D(1) k k8 by (auto simp: received_def nth_list_update)
  obtain d' s' where d': "drain H verify S now ?d s = Some (Inr (), d', s')" "received H verify S now bl n sc m (insert ?k D) d' s'"
    "dl_cursor d' \<notin> insert ?k D" "dl_pending d' = ?rest" "dl_next d' = dl_next d" "dl_unvalidated d' = dl_unvalidated d"
    using drain_received [OF rec] all(1) by auto
  have res: "getBlocksForChain_answer H verify S now pick j (Inr (bl ?k)) d s
      = Some (if ScratchChain_FullyValidated (dl_chain d') then (Downloaded (dl_chain d') ?rest, s') else (Downloading d', s'))"
    using j conn d'(1,4,5,6) k8(1) D(6) by (simp add: getBlocksForChain_answer_def at_def getBlocks_def Let_def)
  have cur: "add_chunks H verify S now (map bl [0..<dl_cursor d']) sc m = Some (dl_chain d', sy_cm s')" "dl_cursor d' \<le> n"
    "{..<dl_cursor d'} \<subseteq> insert ?k D" using d'(2) by (simp_all add: received_def)
  have rest: "rq_chunk ` set ?rest = {..<n} - insert ?k D"
    using td(1) td(2) [OF D(3)] D(4) k by blast
  have len: "length (dl_pending d) = Suc (length ?rest)" using j by simp
  show ?thesis
  proof (cases "dl_cursor d' = n")
    case True
    then have "dl_chain d' = sc'" "sy_cm s' = m'" using cur(1) all(1) by simp_all
    moreover have "rq_chunk ` set ?rest = {}" unfolding rest using cur(3) [unfolded True] by blast
    then have "?rest = []" unfolding image_is_empty set_empty .
    ultimately show ?thesis using res all(2) by simp
  next
    case False
    then have lt: "dl_cursor d' < n" using cur(2) by simp
    then have nf: "\<not> ScratchChain_FullyValidated (dl_chain d')" using before cur(1) by blast
    have "in_progress H verify S now bl n sc m d' s'"
      unfolding in_progress_def
    proof (intro exI [of _ "insert ?k D"] conjI)
      have "dl_cursor d' \<in> rq_chunk ` set ?rest" unfolding rest using lt d'(3) by simp
      then show "dl_pending d' \<noteq> []" unfolding d'(4) by (rule in_image_not_Nil)
      show "set (map rq_chunk (dl_pending d')) = {..<n} - insert ?k D" using rest d'(4) by (simp add: image_Un)
      show "distinct (map rq_chunk (dl_pending d'))" using td(2) [OF D(3)] d'(4) by simp
      show "\<forall>r\<in>set (dl_pending d'). rq_peer r \<noteq> None" using D(5) td(1) d'(4) by auto
    qed (use d'(2,3,5,6) D(6) in simp_all)
    then show ?thesis using res nf len d'(4) by auto
  qed
qed

lemma download_run_in_progress:
  assumes "in_progress H verify S now bl n sc m d s"
    "add_chunks H verify S now (map bl [0..<n]) sc m = Some (sc', m')" "ScratchChain_FullyValidated sc'"
    "\<forall>i<n. \<forall>c m1. add_chunks H verify S now (map bl [0..<i]) sc m = Some (c, m1) \<longrightarrow> \<not> ScratchChain_FullyValidated c"
  shows "\<exists>st s'. download_run H verify S now bl evs (Downloading d) s = Some (st, s')
    \<and> (st = Downloaded sc' [] \<and> sy_cm s' = m' \<or> st = DownloadFailed ErrNoPeersLeft \<and> (\<exists>(_, _, e)\<in>set evs. e \<noteq> None)
       \<or> (\<exists>d'. st = Downloading d' \<and> dl_pending d' \<noteq> [] \<and> length (filter (\<lambda>(_, _, e). e = None) evs) < length (dl_pending d)))"
  using assms(1)
proof (induction evs arbitrary: d s)
  case Nil
  then show ?case by (auto simp: in_progress_def)
next
  case (Cons ev evs)
  obtain pick j0 e where ev: "ev = (pick, j0, e)" by (cases ev)
  let ?j = "j0 mod length (dl_pending d)"
  have j: "?j < length (dl_pending d)" using Cons.prems by (auto simp: in_progress_def)
  show ?case
  proof (cases e)
    case None
    from answer_received [OF Cons.prems j assms(2-4), of pick] obtain st s' where
      a: "getBlocksForChain_answer H verify S now pick ?j (Inr (bl (rq_chunk (dl_pending d ! ?j)))) d s = Some (st, s')"
      and st: "st = Downloaded sc' [] \<and> sy_cm s' = m'
       \<or> (\<exists>d'. st = Downloading d' \<and> in_progress H verify S now bl n sc m d' s' \<and> length (dl_pending d) = Suc (length (dl_pending d')))"
      by blast
    show ?thesis using st
    proof (elim disjE exE conjE)
      fix d' assume d': "st = Downloading d'" "in_progress H verify S now bl n sc m d' s'" "length (dl_pending d) = Suc (length (dl_pending d'))"
      from Cons.IH [OF d'(2)] show ?thesis using a d'(1,3) by (auto simp: ev None Let_def)
    qed (use a in \<open>simp add: ev None Let_def\<close>)
  next
    case (Some e')
    from answer_failed [OF Cons.prems j, of pick e'] obtain st s' where
      a: "getBlocksForChain_answer H verify S now pick ?j (Inl e') d s = Some (st, s')"
      and st: "st = DownloadFailed ErrNoPeersLeft
       \<or> (\<exists>d'. st = Downloading d' \<and> in_progress H verify S now bl n sc m d' s' \<and> length (dl_pending d') = length (dl_pending d))"
      by blast
    show ?thesis using st
    proof (elim disjE exE conjE)
      fix d' assume d': "st = Downloading d'" "in_progress H verify S now bl n sc m d' s'" "length (dl_pending d') = length (dl_pending d)"
      from Cons.IH [OF d'(2)] show ?thesis using a d'(1,3) by (auto simp: ev Some Let_def)
    qed (use a in \<open>simp add: ev Some Let_def\<close>)
  qed
qed

text \<open>The first requests.\<close>

lemma send_requests_some:
  "\<forall>r\<in>set rs. rq_peer r \<noteq> None \<Longrightarrow> \<exists>s'. send_requests rs d s = Some (d\<lparr>dl_pending := dl_pending d @ rs\<rparr>, s') \<and> sy_cm s' = sy_cm s"
proof (induction rs arbitrary: d s)
  case (Cons r rs)
  then obtain conn where "rq_peer r = Some conn" by auto
  then show ?case
    using Cons.IH [of "d\<lparr>dl_pending := dl_pending d @ [r]\<rparr>" "ask_peer conn (MsgGetBlocks (rq_blocks r)) (MsgBlocks []) s"] Cons.prems
    by (simp add: send_request_def ask_peer_def)
qed simp

lemma first_chunks: "takeWhile (\<lambda>k. k * 16 < l) [0..<8] = [0..<min 8 ((l + 15) div 16)]"
proof (rule takeWhile_eq_take_P_nth [THEN trans])
  show "\<And>i. i < min 8 ((l + 15) div 16) \<Longrightarrow> i < length [0..<8] \<Longrightarrow> [0..<8] ! i * 16 < l" by auto
  show "min 8 ((l + 15) div 16) < length [0..<8] \<Longrightarrow> \<not> [0..<8] ! min 8 ((l + 15) div 16) * 16 < l" by auto
qed simp

lemma getBlocksForChain_starts:
  assumes "ScratchChain_Unvalidated sc = Some us" "list_ex (\<lambda>p. pr_err p = None) (sy_peers s)"
  shows "\<exists>d s'. getBlocksForChain pick [] sc s = Some (Downloading d, s') \<and> sy_cm s' = sy_cm s
    \<and> dl_chain d = sc \<and> dl_unvalidated d = us \<and> dl_next d = min 8 ((length us + 15) div 16) \<and> dl_buf d = replicate 8 None
    \<and> dl_cursor d = 0 \<and> map rq_chunk (dl_pending d) = [0..<dl_next d] \<and> (\<forall>r\<in>set (dl_pending d). rq_peer r \<noteq> None)
    \<and> map rq_blocks (dl_pending d) = map (\<lambda>k. chunk k us) [0..<dl_next d]"
proof -
  let ?s = "removeDisconnected s" and ?n = "min 8 ((length us + 15) div 16)"
  let ?ps = "map pr_conn (sy_peers ?s)"
  let ?rs = "map (\<lambda>k. \<lparr>rq_peer = Some (pick k ?ps), rq_chunk = k, rq_blocks = chunk k us\<rparr>) [0..<?n]"
  have ps: "?ps \<noteq> []" using assms(2) by (auto simp: removeDisconnected_def list_ex_iff filter_empty_conv)
  have "\<forall>r\<in>set ?rs. rq_peer r \<noteq> None" by auto
  from send_requests_some [OF this, of "\<lparr>dl_chain = sc, dl_peers = ?ps, dl_unvalidated = us, dl_next = ?n, dl_pending = [],
      dl_buf = replicate 8 None, dl_cursor = 0\<rparr>" ?s] ps assms(1)
  show ?thesis by (auto simp: getBlocksForChain_def Let_def first_chunks comp_def)
qed

text \<open>C14. The blocks of a chain with at most 128 blocks to download arrive whatever the order of the answers. When every
  answer is an error or brings the blocks of its chunk, and adding the chunks one after the other makes the chain
  valid, then the download never panics and never waits without an open request; it ends with the manager that the
  chunks in their order give, unless every peer has failed, and it has ended when every chunk has been answered.\<close>

theorem download_any_order:
  assumes "ScratchChain_Unvalidated sc = Some us" "us \<noteq> []" "length us \<le> 128" "list_ex (\<lambda>p. pr_err p = None) (sy_peers s)"
    "add_chunks H verify S now (map bl [0..<(length us + 15) div 16]) sc (sy_cm s) = Some (sc', m')" "ScratchChain_FullyValidated sc'"
    "\<forall>i<(length us + 15) div 16. \<forall>c m1. add_chunks H verify S now (map bl [0..<i]) sc (sy_cm s) = Some (c, m1) \<longrightarrow>
       \<not> ScratchChain_FullyValidated c"
  shows "\<exists>st0 s0 st s'. getBlocksForChain pick [] sc s = Some (st0, s0) \<and> download_run H verify S now bl evs st0 s0 = Some (st, s')
    \<and> (st = Downloaded sc' [] \<and> sy_cm s' = m' \<or> st = DownloadFailed ErrNoPeersLeft \<and> (\<exists>(_, _, e)\<in>set evs. e \<noteq> None)
       \<or> (\<exists>d. st = Downloading d \<and> dl_pending d \<noteq> [] \<and> length (filter (\<lambda>(_, _, e). e = None) evs) < (length us + 15) div 16))"
proof -
  let ?n = "(length us + 15) div 16"
  have n: "?n \<le> 8" "min 8 ?n = ?n" "0 < ?n" using assms(2,3) by (auto simp: div_greater_zero_iff Suc_le_eq)
  obtain d s0 where d: "getBlocksForChain pick [] sc s = Some (Downloading d, s0)" "sy_cm s0 = sy_cm s"
    "dl_chain d = sc" "dl_unvalidated d = us" "dl_next d = ?n" "dl_buf d = replicate 8 None"
    "dl_cursor d = 0" "map rq_chunk (dl_pending d) = [0..<?n]" "\<forall>r\<in>set (dl_pending d). rq_peer r \<noteq> None"
    using getBlocksForChain_starts [OF assms(1,4), of pick] n(2) by auto
  have len: "length (dl_pending d) = ?n" using d(8) by (metis diff_zero length_map length_upt)
  have "in_progress H verify S now bl ?n sc (sy_cm s) d s0"
    unfolding in_progress_def
  proof (intro exI [of _ "{}"] conjI)
    show "received H verify S now bl ?n sc (sy_cm s) {} d s0" using d n(1) by (simp add: received_def)
    show "dl_pending d \<noteq> []" using len n(3) by auto
  qed (use d n in auto)
  from download_run_in_progress [OF this assms(5-7), of evs] show ?thesis using d(1) len by auto
qed

lemma next_chain_unvalidated:
  "ScratchChain_Unvalidated next_chain = Some [Block_Index sample_hash next_block]" "\<not> ScratchChain_FullyValidated next_chain"
proof -
  have tip: "cs_Index (sc_hs next_chain) = Block_Index sample_hash next_block" "sc_ts next_chain = base_state"
    "sc_base next_chain = cs_Index base_state" "sc_headers next_chain = [b_Header next_block]"
    using next_height(2) by (simp_all add: next_chain_def)
  show "ScratchChain_Unvalidated next_chain = Some [Block_Index sample_hash next_block]"
    using next_height(1) by (simp add: ScratchChain_Unvalidated_def ScratchChain_Index_def ScratchChain_Base_def ScratchChain_Tip_def tip
        Block_Index_def BlockHeader_Index_def)
  show "\<not> ScratchChain_FullyValidated next_chain"
    using next_height(5) by (simp add: ScratchChain_FullyValidated_def tip)
qed

theorem download_any_order_witness:
  "\<exists>m' chain. Manager_AddBlocks sample_hash sample_verify EphemeralStore (PoolSubscriber sample_hash sample_verify) 0
      run_headers [next_block] = Some (Inr (Some chain), m')
    \<and> (\<exists>st0 s0 s'. getBlocksForChain (\<lambda>_. hd) [] next_chain (sample_syncer\<lparr>sy_cm := run_headers\<rparr>) = Some (st0, s0)
        \<and> download_run sample_hash sample_verify EphemeralStore 0 (\<lambda>_. [next_block]) [(hd, 0, None)] st0 s0
            = Some (Downloaded chain [], s') \<and> sy_cm s' = m')"
proof -
  obtain m' chain where add: "Manager_AddBlocks sample_hash sample_verify EphemeralStore (PoolSubscriber sample_hash sample_verify) 0
      run_headers [next_block] = Some (Inr (Some chain), m')"
    and c: "chain = next_chain\<lparr>sc_ts := sc_ts chain\<rparr>" "ScratchChain_FullyValidated chain" using run_AddBlocks by blast
  let ?s = "sample_syncer\<lparr>sy_cm := run_headers\<rparr>"
  have "sc_base chain = sc_base next_chain" "sc_headers chain = sc_headers next_chain"
    by (subst c(1), simp)+
  then have tr: "track next_chain (Some chain) = chain" by (simp add: track_def)
  note us = next_chain_unvalidated(1) and nf = next_chain_unvalidated(2)
  have chunks: "add_chunks sample_hash sample_verify EphemeralStore 0 (map (\<lambda>_. [next_block]) [0..<1]) next_chain run_headers = Some (chain, m')"
    using add tr by simp
  have "list_ex (\<lambda>p. pr_err p = None) (sy_peers ?s)" by (simp add: NewPeer_def)
  from download_any_order [OF us _ _ this, of sample_hash sample_verify EphemeralStore 0 "\<lambda>_. [next_block]" chain m'
      "\<lambda>_. hd" "[(hd, 0, None)]"] chunks nf c(2)
  obtain st0 s0 st s' where "getBlocksForChain (\<lambda>_. hd) [] next_chain ?s = Some (st0, s0)"
    "download_run sample_hash sample_verify EphemeralStore 0 (\<lambda>_. [next_block]) [(hd, 0, None)] st0 s0 = Some (st, s')"
    "st = Downloaded chain [] \<and> sy_cm s' = m'" by auto
  then show ?thesis using add by blast
qed

section \<open>Downloads that do not end\<close>

text \<open>A node cannot download a chain of more than 128 blocks: when the first eight requests are out and one of the
  later chunks is answered, the next request is sent without a peer, and the worker that takes it panics.\<close>

theorem long_chain_panics:
  assumes "ScratchChain_Unvalidated sc = Some us" "128 < length us" "\<not> ScratchChain_FullyValidated sc"
    "list_ex (\<lambda>p. pr_err p = None) (sy_peers s)" "0 < j" "j < 8"
  shows "\<exists>d s0. getBlocksForChain pick [] sc s = Some (Downloading d, s0) \<and> length (dl_pending d) = 8
    \<and> getBlocksForChain_answer H verify S now pick1 j (Inr blocks) d s0 = None"
proof -
  have n: "min 8 ((length us + 15) div 16) = 8" using assms(2) by simp
  obtain d s0 where d: "getBlocksForChain pick [] sc s = Some (Downloading d, s0)"
    "dl_chain d = sc" "dl_unvalidated d = us" "dl_next d = 8" "dl_buf d = replicate 8 None"
    "dl_cursor d = 0" "map rq_chunk (dl_pending d) = [0..<8]" "\<forall>r\<in>set (dl_pending d). rq_peer r \<noteq> None"
    using getBlocksForChain_starts [OF assms(1,4), of pick] n by auto
  have len: "length (dl_pending d) = 8" using d(7) by (metis diff_zero length_map length_upt)
  then obtain conn where r: "rq_peer (dl_pending d ! j) = Some conn" "rq_chunk (dl_pending d ! j) = j"
    using d(7,8) assms(6) by (metis add_0 diff_zero nth_map nth_mem nth_upt option.exhaust)
  have b: "at ((replicate 8 None)[j := Some blocks]) 0 = Some None" using assms(5,6) by (simp add: at_def)
  have "getBlocksForChain_answer H verify S now pick1 j (Inr blocks) d s0 = None"
    using assms(2,3,6) len r d(2-6) b
    by (simp add: getBlocksForChain_answer_def at_def [of "dl_pending d"] getBlocks_def Let_def drain.simps send_request_def)
  then show ?thesis using d(1) len by blast
qed

definition long_chain :: scratch_chain where
  "long_chain =
     \<lparr>sc_base = cs_Index base_state, sc_headers = map (\<lambda>i. (b_Header next_block)\<lparr>bh_Height := word_of_nat i\<rparr>) [1..<130],
      sc_hs = base_state\<lparr>cs_Index := \<lparr>ci_Height = 129, ci_ID = 0\<rparr>\<rparr>, sc_ts = base_state\<rparr>"

theorem long_chain_panics_witness:
  "\<exists>d s0. getBlocksForChain (\<lambda>_. hd) [] long_chain sample_syncer = Some (Downloading d, s0) \<and> length (dl_pending d) = 8
    \<and> getBlocksForChain_answer sample_hash sample_verify EphemeralStore 0 hd 1 (Inr []) d s0 = None"
proof -
  let ?f = "\<lambda>h. the (ScratchChain_Index long_chain (bh_Height h))"
  have i: "ScratchChain_Index long_chain (bh_Height h) = Some (?f h)" if h: "h \<in> set (sc_headers long_chain)" for h
  proof -
    obtain k where k: "k < 130" "bh_Height h = word_of_nat k" using h by (auto simp: long_chain_def)
    have "unat (word_of_nat k :: u64) = k" using k(1) by (simp add: unat_of_nat)
    moreover have "ci_Height (cs_Index base_state) = 0" by (simp add: base_state_header)
    ultimately show ?thesis using k
      by (cases "k = 129") (auto simp: ScratchChain_Index_def ScratchChain_Tip_def ScratchChain_Base_def long_chain_def at_def)
  qed
  have "ScratchChain_Unvalidated long_chain = Some (map ?f (sc_headers long_chain))"
  proof -
    have z: "unat (ci_Height (cs_Index (sc_ts long_chain)) - ci_Height (ScratchChain_Base long_chain)) = 0"
      by (simp add: ScratchChain_Base_def long_chain_def)
    show ?thesis unfolding ScratchChain_Unvalidated_def z Let_def using map_option_list_Some [OF i] by simp
  qed
  moreover have "128 < length (map ?f (sc_headers long_chain))" by (simp add: long_chain_def)
  moreover have "\<not> ScratchChain_FullyValidated long_chain"
  proof
    assume "ScratchChain_FullyValidated long_chain"
    then have "ci_Height (cs_Index base_state) = 129" by (simp add: ScratchChain_FullyValidated_def long_chain_def)
    then show False by (simp add: base_state_header)
  qed
  moreover have "list_ex (\<lambda>p. pr_err p = None) (sy_peers sample_syncer)" by (simp add: NewPeer_def)
  ultimately show ?thesis by (rule long_chain_panics) simp_all
qed

lemma drain_stops: "at (dl_buf d) (dl_cursor d mod length (dl_buf d)) = Some None \<Longrightarrow> drain H verify S now d s = Some (Inr (), d, s)"
  by (subst drain.simps) (simp add: Let_def)

lemma drain_nothing:
  "at (dl_buf d) (dl_cursor d mod length (dl_buf d)) = Some (Some []) \<Longrightarrow>
   drain H verify S now d s = drain H verify S now
     (d\<lparr>dl_buf := (dl_buf d)[dl_cursor d mod length (dl_buf d) := None], dl_cursor := dl_cursor d + 1, dl_chain := dl_chain d\<rparr>) s"
  by (subst drain.simps) (simp add: Let_def Manager_AddBlocks_def track_def)

text \<open>A peer that does not have the blocks, or has pruned them, answers with none. The chunk counts as received, the
  loop passes it by, and waits for an answer although no request is open, so the sync loop of the node is stuck for
  good; the manager is as before.\<close>

theorem empty_answer_stalls:
  assumes "ScratchChain_Unvalidated sc = Some us" "us \<noteq> []" "length us \<le> 16" "\<not> ScratchChain_FullyValidated sc"
    "list_ex (\<lambda>p. pr_err p = None) (sy_peers s)"
  shows "\<exists>d s0 d' s'. getBlocksForChain pick [] sc s = Some (Downloading d, s0) \<and> length (dl_pending d) = 1
    \<and> getBlocksForChain_answer H verify S now pick1 0 (Inr []) d s0 = Some (Downloading d', s')
    \<and> dl_pending d' = [] \<and> sy_cm s' = sy_cm s"
proof -
  have n: "min 8 ((length us + 15) div 16) = 1" using assms(2,3) by (cases us) auto
  obtain d s0 where d: "getBlocksForChain pick [] sc s = Some (Downloading d, s0)" "sy_cm s0 = sy_cm s"
    "dl_chain d = sc" "dl_unvalidated d = us" "dl_next d = 1" "dl_buf d = replicate 8 None"
    "dl_cursor d = 0" "map rq_chunk (dl_pending d) = [0]" "\<forall>r\<in>set (dl_pending d). rq_peer r \<noteq> None"
    using getBlocksForChain_starts [OF assms(1,5), of pick] n by auto
  obtain r conn where r: "dl_pending d = [r]" "rq_chunk r = 0" "rq_peer r = Some conn" using d(8,9) by auto
  let ?d1 = "d\<lparr>dl_pending := [], dl_buf := (replicate 8 None)[0 := Some []]\<rparr>"
  let ?d2 = "?d1\<lparr>dl_buf := replicate 8 None, dl_cursor := 1\<rparr>"
  have e: "(replicate 8 None)[0 := None] = (replicate 8 None :: block list option list)"
    by (simp add: numeral_eq_Suc)
  have chain: "?d1\<lparr>dl_buf := replicate 8 None, dl_cursor := Suc 0, dl_chain := dl_chain d\<rparr> = ?d2" by simp
  have "drain H verify S now ?d1 s0 = drain H verify S now ?d2 s0"
    using drain_nothing [of ?d1 H verify S now s0] d(7) chain by (simp add: at_def e)
  also have "\<dots> = Some (Inr (), ?d2, s0)" by (rule drain_stops) (simp add: at_def)
  finally have dr: "drain H verify S now ?d1 s0 = Some (Inr (), ?d2, s0)" .
  have "getBlocksForChain_answer H verify S now pick1 0 (Inr []) d s0 = Some (Downloading ?d2, s0)"
    using assms(3,4) r d(3-6) dr by (simp add: getBlocksForChain_answer_def at_def getBlocks_def Let_def)
  then have "\<exists>d' s'. getBlocksForChain_answer H verify S now pick1 0 (Inr []) d s0 = Some (Downloading d', s')
      \<and> dl_pending d' = [] \<and> sy_cm s' = sy_cm s" using d(2) by simp
  then show ?thesis using d(1) r(1) by auto
qed

theorem empty_answer_stalls_witness:
  "\<exists>d s0 d' s'. getBlocksForChain (\<lambda>_. hd) [] next_chain sample_syncer = Some (Downloading d, s0)
    \<and> getBlocksForChain_answer sample_hash sample_verify EphemeralStore 0 hd 0 (Inr []) d s0 = Some (Downloading d', s')
    \<and> dl_pending d' = []"
proof -
  have "list_ex (\<lambda>p. pr_err p = None) (sy_peers sample_syncer)" by (simp add: NewPeer_def)
  from empty_answer_stalls [OF next_chain_unvalidated(1) _ _ next_chain_unvalidated(2) this, of "\<lambda>_. hd" sample_hash sample_verify
      EphemeralStore 0 hd]
  show ?thesis by auto
qed

end
