(* ===== verification/Flat_Store.thy ===== *)
theory Flat_Store
  imports P2P_Messages Chain_Store
begin

text \<open>
  internal/chainutil/store.go: \<open>FlatStore\<close>, a chain store in four files. The entry file holds the checkpoints one after
  the other, the index file their indices and offsets, the best file the indices of the best chain by height, and the
  meta file the sizes and the tip of the last flush. The calls of the operating system succeed; what they answer
  depends on the files alone. \<open>None\<close> is a panic or a loop that does not end.
\<close>

section \<open>Files\<close>

text \<open>An open file: its bytes and its position.\<close>

record os_file =
  f_data :: "byte list"
  f_pos :: nat

definition File_open :: "byte list \<Rightarrow> os_file" where
  "File_open bs = \<lparr>f_data = bs, f_pos = 0\<rparr>"

definition File_Write :: "byte list \<Rightarrow> os_file \<Rightarrow> os_file" where
  "File_Write bs f =
     \<lparr>f_data = take (f_pos f) (f_data f) @ replicate (f_pos f - length (f_data f)) 0 @ bs @ drop (f_pos f + length bs) (f_data f),
      f_pos = f_pos f + length bs\<rparr>"

definition File_Truncate :: "nat \<Rightarrow> os_file \<Rightarrow> os_file" where
  "File_Truncate n f = f\<lparr>f_data := take n (f_data f) @ replicate (n - length (f_data f)) 0\<rparr>"

definition File_SeekEnd :: "os_file \<Rightarrow> os_file" where
  "File_SeekEnd f = f\<lparr>f_pos := length (f_data f)\<rparr>"

datatype io_error = ErrEOF | ErrUnexpectedEOF | ErrNegativeOffset

text \<open>\<open>ReadAt\<close> with an offset of type int64. A read that is cut short fills the rest of the buffer with zeros.\<close>

definition File_ReadAt :: "nat \<Rightarrow> u64 \<Rightarrow> os_file \<Rightarrow> io_error option \<times> byte list" where
  "File_ReadAt n off f =
     (if sint off < 0 then (Some ErrNegativeOffset, replicate n 0)
      else let bs = take n (drop (unat off) (f_data f)) in
        (if length bs < n then Some ErrEOF else None, bs @ replicate (n - length bs) 0))"

definition ReadFull :: "nat \<Rightarrow> byte list \<Rightarrow> io_error option \<times> byte list" where
  "ReadFull n r =
     (let bs = take n r in
      (if n \<le> length bs then None else if bs = [] then Some ErrEOF else Some ErrUnexpectedEOF,
       bs @ replicate (n - length bs) 0))"

section \<open>Reading and writing\<close>

definition bestSize :: nat where "bestSize = 40"
definition indexSize :: nat where "indexSize = 48"
definition metaSize :: nat where "metaSize = 56"

record metadata =
  md_indexSize :: u64
  md_entrySize :: u64
  md_tip :: chain_index

definition writeMeta :: "metadata \<Rightarrow> byte list" where
  "writeMeta m = WriteUint64 (md_indexSize m) @ WriteUint64 (md_entrySize m) @ ChainIndex_EncodeTo (md_tip m)"

definition readMeta :: "byte list \<Rightarrow> io_error option \<times> metadata" where
  "readMeta r =
     (let (e, buf) = ReadFull metaSize r in
      (e, fst (run_state (do {
         i \<leftarrow> ReadUint64;
         n \<leftarrow> ReadUint64;
         t \<leftarrow> ChainIndex_DecodeFrom;
         State_Monad.return \<lparr>md_indexSize = i, md_entrySize = n, md_tip = t\<rparr>
       }) (NewBufDecoder buf))))"

definition writeBest :: "chain_index \<Rightarrow> byte list" where
  "writeBest index = ChainIndex_EncodeTo index"

definition readBest :: "byte list \<Rightarrow> io_error option \<times> chain_index" where
  "readBest r = (let (e, buf) = ReadFull bestSize r in (e, fst (run_state ChainIndex_DecodeFrom (NewBufDecoder buf))))"

definition writeIndex :: "chain_index \<Rightarrow> u64 \<Rightarrow> byte list" where
  "writeIndex index offset = ChainIndex_EncodeTo index @ WriteUint64 offset"

definition readIndex :: "byte list \<Rightarrow> io_error option \<times> chain_index \<times> u64" where
  "readIndex r =
     (let (e, buf) = ReadFull indexSize r in
      (e, fst (run_state (do {
         i \<leftarrow> ChainIndex_DecodeFrom;
         n \<leftarrow> ReadUint64;
         State_Monad.return (i, n)
       }) (NewBufDecoder buf))))"

definition writeCheckpoint :: "hashfn \<Rightarrow> checkpoint \<Rightarrow> byte list option" where
  "writeCheckpoint H c = do {
     bs \<leftarrow> CompressedBlock_EncodeTo H (cp_Block c);
     Some (bs @ State_EncodeTo (cp_State c))
   }"

definition readCheckpoint :: "hashfn \<Rightarrow> byte list \<Rightarrow> (dec_error + checkpoint) option" where
  "readCheckpoint H r = do {
     (b, d) \<leftarrow> CompressedBlock_DecodeFrom H (NewDecoder r 10000000);
     let (s, d) = run_state State_DecodeFrom d;
     Some (case dc_err d of Some e \<Rightarrow> Inl e | None \<Rightarrow> Inr \<lparr>cp_Block = b, cp_State = s\<rparr>)
   }"

section \<open>The store\<close>

text \<open>
  The position of the entry file is left out: every use of it seeks first. \<open>fs_metafile\<close> is what the meta file on disk
  holds.
\<close>

record flat_store =
  fs_indexFile :: os_file
  fs_entryFile :: "byte list"
  fs_bestFile :: os_file
  fs_meta :: metadata
  fs_metafile :: "byte list option"
  fs_base :: chain_index
  fs_offsets :: "chain_index \<rightharpoonup> u64"

definition FlatStore_AddCheckpoint :: "hashfn \<Rightarrow> flat_store \<Rightarrow> checkpoint \<Rightarrow> (store_error + flat_store) option" where
  "FlatStore_AddCheckpoint H fs c = do {
     let offset = word_of_nat (length (fs_entryFile fs));
     bs \<leftarrow> writeCheckpoint H c;
     let entryFile = fs_entryFile fs @ bs;
     Some (Inr (fs\<lparr>fs_entryFile := entryFile,
       fs_indexFile := File_Write (writeIndex (cs_Index (cp_State c)) offset) (fs_indexFile fs),
       fs_offsets := (fs_offsets fs)(cs_Index (cp_State c) \<mapsto> offset),
       fs_meta := (fs_meta fs)\<lparr>md_entrySize := word_of_nat (length entryFile),
         md_indexSize := md_indexSize (fs_meta fs) + word_of_nat indexSize\<rparr>\<rparr>))
   }"

definition FlatStore_Checkpoint :: "hashfn \<Rightarrow> flat_store \<Rightarrow> chain_index \<Rightarrow> (store_error + checkpoint) option" where
  "FlatStore_Checkpoint H fs index =
     (case fs_offsets fs index of
        None \<Rightarrow> Some (Inl ErrUnknownIndex)
      | Some offset \<Rightarrow>
          if sint offset < 0 then Some (Inl ErrStoreIO)
          else do {
            r \<leftarrow> readCheckpoint H (drop (unat offset) (fs_entryFile fs));
            Some (case r of Inl e \<Rightarrow> Inl ErrStoreIO | Inr c \<Rightarrow> Inr c)
          })"

definition FlatStore_Header :: "flat_store \<Rightarrow> chain_index \<Rightarrow> store_error + block_header" where
  "FlatStore_Header fs index =
     (case fs_offsets fs index of
        None \<Rightarrow> Inl ErrUnknownIndex
      | Some offset \<Rightarrow>
          (case File_ReadAt 121 offset (File_open (fs_entryFile fs)) of
             (Some e, _) \<Rightarrow> Inl ErrStoreIO
           | (None, b) \<Rightarrow>
               let (version, d) = run_state ReadUint8 (NewBufDecoder b) in
               if version \<noteq> 1 then Inl ErrStoreIO
               else let (h, d) = run_state BlockHeader_DecodeFrom d
                 in (case dc_err d of Some e \<Rightarrow> Inl ErrStoreIO | None \<Rightarrow> Inr h)))"

definition FlatStore_ExtendBest :: "flat_store \<Rightarrow> chain_index \<Rightarrow> flat_store" where
  "FlatStore_ExtendBest fs index =
     fs\<lparr>fs_bestFile := File_Write (writeBest index) (fs_bestFile fs), fs_meta := (fs_meta fs)\<lparr>md_tip := index\<rparr>\<rparr>"

text \<open>Of the errors of \<open>ReadAt\<close> only \<open>EOF\<close> is looked at; after any other one the zero buffer is decoded.\<close>

definition FlatStore_BestIndex :: "flat_store \<Rightarrow> u64 \<Rightarrow> store_error + chain_index" where
  "FlatStore_BestIndex fs height =
     (if height < ci_Height (fs_base fs) then Inl ErrPruned
      else let offset = (height - ci_Height (fs_base fs)) * word_of_nat bestSize in
        (case File_ReadAt bestSize offset (fs_bestFile fs) of
           (Some ErrEOF, _) \<Rightarrow> Inl ErrUnknownIndex
         | (_, buf) \<Rightarrow>
             let (index, d) = run_state ChainIndex_DecodeFrom (NewBufDecoder buf)
             in (case dc_err d of Some e \<Rightarrow> Inl ErrStoreIO | None \<Rightarrow> Inr index)))"

definition FlatStore_RewindBest :: "flat_store \<Rightarrow> store_error + flat_store" where
  "FlatStore_RewindBest fs =
     (case FlatStore_BestIndex fs (ci_Height (md_tip (fs_meta fs)) - 1) of
        Inl e \<Rightarrow> Inl e
      | Inr index \<Rightarrow>
          if length (f_data (fs_bestFile fs)) < bestSize then Inl ErrStoreIO
          else let off = length (f_data (fs_bestFile fs)) - bestSize in
            Inr (fs\<lparr>fs_bestFile := File_Truncate off ((fs_bestFile fs)\<lparr>f_pos := off\<rparr>),
              fs_meta := (fs_meta fs)\<lparr>md_tip := index\<rparr>\<rparr>))"

definition FlatStore_Flush :: "flat_store \<Rightarrow> flat_store" where
  "FlatStore_Flush fs = fs\<lparr>fs_metafile := Some (writeMeta (fs_meta fs))\<rparr>"

definition FlatStore_Close :: "flat_store \<Rightarrow> store_error option" where
  "FlatStore_Close fs = None"

section \<open>Opening\<close>

text \<open>What is on disk.\<close>

record disk =
  dk_index :: "byte list"
  dk_entry :: "byte list"
  dk_best :: "byte list"
  dk_meta :: "byte list option"

text \<open>
  The walk of \<open>recoverBest\<close> from the tip to the best file: \<open>Inr None\<close> when it returns at once, else the path and the
  index it ends at.
\<close>

partial_function (option) recover_path ::
    "flat_store \<Rightarrow> chain_index \<Rightarrow> chain_index list \<Rightarrow> (store_error + (chain_index list \<times> chain_index) option) option" where
  "recover_path fs index way =
     (case FlatStore_BestIndex fs (ci_Height index) of
        Inr bestIndex \<Rightarrow> Some (Inr None)
      | Inl e \<Rightarrow>
          if e \<noteq> ErrUnknownIndex then Some (Inl e)
          else if zero_index = index then Some (Inr (Some (way, index)))
          else (case FlatStore_Header fs index of
                  Inl e \<Rightarrow> Some (Inl e)
                | Inr h \<Rightarrow> recover_path fs (BlockHeader_ParentIndex h) (way @ [index])))"

definition recoverBest :: "chain_index \<Rightarrow> flat_store \<Rightarrow> (store_error + flat_store) option" where
  "recoverBest tip fs =
     (if dom (fs_offsets fs) = {} then Some (Inr (fs\<lparr>fs_bestFile := File_Truncate 0 (fs_bestFile fs)\<rparr>))
      else
        let n = length (f_data (fs_bestFile fs)) div bestSize;
            best = (if n mod bestSize \<noteq> 0 then File_Truncate (n * bestSize) (fs_bestFile fs) else fs_bestFile fs)
        in (case readBest (drop (f_pos best) (f_data best)) of
              (Some e, _) \<Rightarrow> Some (Inl ErrStoreIO)
            | (None, base) \<Rightarrow> do {
                let fs = fs\<lparr>fs_bestFile := best\<lparr>f_pos := f_pos best + bestSize\<rparr>, fs_base := base\<rparr>;
                r \<leftarrow> recover_path fs tip [];
                Some (case r of
                  Inl e \<Rightarrow> Inl e
                | Inr None \<Rightarrow> Inr fs
                | Inr (Some (way, index)) \<Rightarrow>
                    if sint ((ci_Height index - ci_Height base) * word_of_nat bestSize) < 0 then Inl ErrStoreIO
                    else Inr (foldl FlatStore_ExtendBest
                      (fs\<lparr>fs_bestFile := File_Truncate (unat ((ci_Height index - ci_Height base) * word_of_nat bestSize)) (fs_bestFile fs)\<rparr>)
                      (rev way)))
              }))"

function read_offsets :: "byte list \<Rightarrow> (chain_index \<rightharpoonup> u64) \<Rightarrow> store_error + (chain_index \<rightharpoonup> u64)" where
  "read_offsets r offsets =
     (case readIndex r of
        (Some ErrEOF, _) \<Rightarrow> Inr offsets
      | (Some _, _) \<Rightarrow> Inl ErrStoreIO
      | (None, index, offset) \<Rightarrow> read_offsets (drop indexSize r) (offsets(index \<mapsto> offset)))"
  by pat_completeness auto

lemma readIndex_length: "readIndex r = (None, x) \<Longrightarrow> indexSize \<le> length r"
  by (auto simp: readIndex_def ReadFull_def Let_def split: if_splits)

lemma shorter: "(None, x) = readIndex r \<Longrightarrow> length r - indexSize < length r"
  using readIndex_length [of r x] by (simp add: indexSize_def)

termination read_offsets
  by (relation "measure (\<lambda>(r, _). length r)") (auto intro: shorter)

declare read_offsets.simps [simp del] recover_path.simps [simp del]

definition NewFlatStore :: "hashfn \<Rightarrow> disk \<Rightarrow> checkpoint \<Rightarrow> (store_error + flat_store \<times> checkpoint) option" where
  "NewFlatStore H dk c =
     (case (case dk_meta dk of
          None \<Rightarrow> Inr (\<lparr>md_indexSize = 0, md_entrySize = 0, md_tip = cs_Index (cp_State c)\<rparr>, dk_index dk, dk_entry dk)
        | Some bs \<Rightarrow>
            (case readMeta bs of
               (Some e, _) \<Rightarrow> Inl ErrStoreIO
             | (None, meta) \<Rightarrow>
                 if sint (md_indexSize meta) < 0 \<or> sint (md_entrySize meta) < 0 then Inl ErrStoreIO
                 else Inr (meta, f_data (File_Truncate (unat (md_indexSize meta)) (File_open (dk_index dk))),
                   f_data (File_Truncate (unat (md_entrySize meta)) (File_open (dk_entry dk)))))) of
        Inl e \<Rightarrow> Some (Inl e)
      | Inr (meta, index, entry) \<Rightarrow>
     (case read_offsets index Map.empty of
        Inl e \<Rightarrow> Some (Inl e)
      | Inr offsets \<Rightarrow> do {
          r \<leftarrow> recoverBest (md_tip meta)
            \<lparr>fs_indexFile = File_SeekEnd (File_open index), fs_entryFile = entry, fs_bestFile = File_open (dk_best dk),
             fs_meta = meta, fs_metafile = dk_meta dk, fs_base = cs_Index (cp_State c), fs_offsets = offsets\<rparr>;
          (case r of
             Inl e \<Rightarrow> Some (Inl e)
           | Inr fs \<Rightarrow>
               let fs = fs\<lparr>fs_bestFile := File_SeekEnd (fs_bestFile fs)\<rparr> in
               if dom offsets = {} then do {
                 r \<leftarrow> FlatStore_AddCheckpoint H fs c;
                 Some (case r of
                   Inl e \<Rightarrow> Inl e
                 | Inr fs \<Rightarrow> Inr (FlatStore_ExtendBest fs (cs_Index (cp_State c)), c))
               }
               else do {
                 r \<leftarrow> FlatStore_Checkpoint H fs (md_tip meta);
                 Some (case r of Inl e \<Rightarrow> Inl e | Inr c \<Rightarrow> Inr (fs, c))
               })
        }))"

section \<open>What was written is read\<close>

lemma decodes_buf:
  assumes "decodes 0 m bs x"
  obtains d where "run_state m (NewBufDecoder bs) = (x, d)" "dc_err d = None"
proof -
  have s: "dc_R (NewBufDecoder bs) = bs @ []" "length bs + 0 \<le> dc_N (NewBufDecoder bs)" "dc_err (NewBufDecoder bs) = None"
    "length (dc_buf (NewBufDecoder bs)) = 64"
    by (simp_all add: NewBufDecoder_def NewDecoder_def)
  show ?thesis by (rule decodes_run [OF assms s(3,4,1,2)]) (rule that)
qed

lemma length_ChainIndex [simp]: "length (ChainIndex_EncodeTo i) = 40"
  by (simp add: ChainIndex_EncodeTo_def BlockID_EncodeTo_def)

lemma ReadFull_append: "length bs = n \<Longrightarrow> ReadFull n (bs @ rest) = (None, bs)"
  by (simp add: ReadFull_def Let_def)

lemma readBest_write [simp]: "readBest (writeBest i @ rest) = (None, i)"
proof -
  obtain d where "run_state ChainIndex_DecodeFrom (NewBufDecoder (ChainIndex_EncodeTo i)) = (i, d)"
    by (rule decodes_buf [OF chain_index.dec_enc]) simp_all
  then show ?thesis by (simp add: readBest_def writeBest_def ReadFull_append bestSize_def)
qed

lemma readIndex_write [simp]: "readIndex (writeIndex i off @ rest) = (None, i, off)"
proof -
  have "decodes 0 (do { i \<leftarrow> ChainIndex_DecodeFrom; n \<leftarrow> ReadUint64; State_Monad.return (i, n) }) (writeIndex i off) (i, off)"
    unfolding writeIndex_def by (intro decodes_bind [OF chain_index.dec_enc_k] decodes_last [OF decodes_ReadUint64]) simp_all
  then obtain d where "run_state (do { i \<leftarrow> ChainIndex_DecodeFrom; n \<leftarrow> ReadUint64; State_Monad.return (i, n) })
      (NewBufDecoder (writeIndex i off)) = ((i, off), d)"
    by (rule decodes_buf)
  moreover have "length (writeIndex i off) = indexSize" by (simp add: writeIndex_def indexSize_def)
  ultimately show ?thesis by (simp add: readIndex_def ReadFull_append)
qed

lemma readMeta_write [simp]: "readMeta (writeMeta m) = (None, m)"
proof -
  let ?r = "do { i \<leftarrow> ReadUint64; n \<leftarrow> ReadUint64; t \<leftarrow> ChainIndex_DecodeFrom;
    State_Monad.return \<lparr>md_indexSize = i, md_entrySize = n, md_tip = t\<rparr> }"
  have "decodes 0 ?r (writeMeta m) m"
    unfolding writeMeta_def
    by (intro decodes_bind [OF decodes_ReadUint64] decodes_last [OF chain_index.dec_enc_k]) simp_all
  then obtain d where "run_state ?r (NewBufDecoder (writeMeta m)) = (m, d)" by (rule decodes_buf)
  moreover have "ReadFull metaSize (writeMeta m) = (None, writeMeta m)"
    using ReadFull_append [of "writeMeta m" metaSize "[]"] by (simp add: writeMeta_def metaSize_def)
  ultimately show ?thesis by (simp add: readMeta_def)
qed

lemma read_offsets_write: "read_offsets (concat (map (\<lambda>(i, off). writeIndex i off) xs)) m = Inr (m ++ map_of (rev xs))"
proof (induction xs arbitrary: m)
  case Nil
  show ?case by (subst read_offsets.simps) (simp add: readIndex_def ReadFull_def indexSize_def)
next
  case (Cons x xs)
  obtain i off where x: "x = (i, off)" by (cases x)
  have "length (writeIndex i off) = indexSize" by (simp add: writeIndex_def indexSize_def)
  then show ?case using Cons by (subst read_offsets.simps) (simp add: x fun_eq_iff map_add_def split: option.split)
qed

text \<open>The checkpoints that fit the limit of \<open>readCheckpoint\<close>.\<close>

definition storable :: "hashfn \<Rightarrow> checkpoint \<Rightarrow> bool" where
  "storable H c \<longleftrightarrow> sendable_block H (cp_Block c) \<and> state_ok (cp_State c)
     \<and> (\<forall>bs. writeCheckpoint H c = Some bs \<longrightarrow> length bs \<le> 10000000)"

lemma storable_read:
  assumes "storable H c"
  obtains bs where "writeCheckpoint H c = Some bs" "\<And>rest. readCheckpoint H (bs @ rest) = Some (Inr c)" "length bs \<le> 10000000"
    "121 \<le> length bs" "take 121 bs = WriteUint8 1 @ BlockHeader_EncodeTo (b_Header (cp_Block c))"
proof -
  have ok: "sendable_block H (cp_Block c)" "state_ok (cp_State c)" using assms by (simp_all add: storable_def)
  obtain bs where bs: "CompressedBlock_EncodeTo H (cp_Block c) = Some bs" "pdecodes (CompressedBlock_DecodeFrom H) bs (cp_Block c)"
    by (rule sendable_block_decodes [OF ok(1)])
  let ?ss = "State_EncodeTo (cp_State c)" and ?d = "\<lambda>rest. NewDecoder ((bs @ State_EncodeTo (cp_State c)) @ rest) 10000000"
  have w: "writeCheckpoint H c = Some (bs @ ?ss)" by (simp add: writeCheckpoint_def bs(1))
  then have len: "length (bs @ ?ss) \<le> 10000000" using assms by (simp add: storable_def)
  have read: "readCheckpoint H ((bs @ ?ss) @ rest) = Some (Inr c)" for rest
  proof -
    have d: "dc_err (?d rest) = None" "length (dc_buf (?d rest)) = 64" "dc_R (?d rest) = bs @ (?ss @ rest)"
      "length bs \<le> dc_N (?d rest)" "dc_N (?d rest) = 10000000" using len by (simp_all add: NewDecoder_def)
    obtain d1 where d1: "CompressedBlock_DecodeFrom H (?d rest) = Some (cp_Block c, d1)" "dc_err d1 = None" "length (dc_buf d1) = 64"
      "dc_R d1 = ?ss @ rest" "dc_N d1 = dc_N (?d rest) - length bs"
      by (rule pdecodesD [OF bs(2) d(1-4)])
    have l1: "length ?ss + 0 \<le> dc_N d1" using len d1(5) d(5) by simp
    obtain d2 where "run_state State_DecodeFrom d1 = (cp_State c, d2)" "dc_err d2 = None"
      by (rule decodes_run [OF state.dec_enc [OF ok(2)] d1(2-4) l1])
    then show ?thesis using d1(1) by (simp add: readCheckpoint_def)
  qed
  obtain tail where "bs = WriteUint8 1 @ BlockHeader_EncodeTo (b_Header (cp_Block c)) @ tail"
    using bs(1) by (auto simp: CompressedBlock_EncodeTo_def bind_eq_Some_conv)
  moreover have "length (BlockHeader_EncodeTo h) = 120" for h
    by (simp add: BlockHeader_EncodeTo_def BlockID_EncodeTo_def WriteTime_def Address_EncodeTo_def Hash256_EncodeTo_def)
  ultimately have "121 \<le> length (bs @ ?ss)" "take 121 (bs @ ?ss) = WriteUint8 1 @ BlockHeader_EncodeTo (b_Header (cp_Block c))"
    by (simp_all add: WriteUint8_def)
  then show ?thesis using that w read len by blast
qed

lemma header_read:
  assumes "time_ok (bh_Timestamp h)"
  shows "\<exists>d1 d2. run_state ReadUint8 (NewBufDecoder (WriteUint8 1 @ BlockHeader_EncodeTo h)) = (1, d1)
    \<and> run_state BlockHeader_DecodeFrom d1 = (h, d2) \<and> dc_err d2 = None"
proof -
  let ?d = "NewBufDecoder (WriteUint8 1 @ BlockHeader_EncodeTo h)"
  have s: "dc_err ?d = None" "length (dc_buf ?d) = 64" "dc_R ?d = WriteUint8 1 @ BlockHeader_EncodeTo h"
    "length (WriteUint8 1) + 0 \<le> dc_N ?d" "dc_N ?d = length (WriteUint8 1) + length (BlockHeader_EncodeTo h)"
    by (simp_all add: NewBufDecoder_def NewDecoder_def)
  obtain d1 where d1: "run_state ReadUint8 ?d = (1, d1)" "dc_err d1 = None" "length (dc_buf d1) = 64"
    "dc_R d1 = BlockHeader_EncodeTo h" "dc_N d1 = dc_N ?d - length (WriteUint8 1)"
    by (rule decodes_run [OF decodes_ReadUint8 s(1-4)])
  have r: "dc_R d1 = BlockHeader_EncodeTo h @ []" "length (BlockHeader_EncodeTo h) + 0 \<le> dc_N d1" using d1(4,5) s(5) by simp_all
  obtain d2 where "run_state BlockHeader_DecodeFrom d1 = (h, d2)" "dc_err d2 = None"
    by (rule decodes_run [OF block_header.dec_enc [OF assms] d1(2,3) r])
  then show ?thesis using d1(1) by blast
qed

section \<open>The store represents the in-memory store\<close>

text \<open>A checkpoint that lies at an offset of the entry file.\<close>

definition stored :: "hashfn \<Rightarrow> byte list \<Rightarrow> u64 \<Rightarrow> checkpoint \<Rightarrow> bool" where
  "stored H data off c \<longleftrightarrow> storable H c \<and> unat off < 2 ^ 63
     \<and> (\<exists>bs rest. writeCheckpoint H c = Some bs \<and> unat off \<le> length data \<and> drop (unat off) data = bs @ rest)"

definition flat_repr :: "hashfn \<Rightarrow> flat_store \<Rightarrow> ephemeral_store \<Rightarrow> bool" where
  "flat_repr H fs es \<longleftrightarrow>
     dom (fs_offsets fs) = dom (es_entries es)
     \<and> (\<forall>i c. es_entries es i = Some c \<longrightarrow> (\<exists>off. fs_offsets fs i = Some off \<and> stored H (fs_entryFile fs) off c))
     \<and> (\<exists>xs. f_data (fs_indexFile fs) = concat (map (\<lambda>(i, off). writeIndex i off) xs) \<and> fs_offsets fs = map_of (rev xs))
     \<and> f_pos (fs_indexFile fs) = length (f_data (fs_indexFile fs))
     \<and> consecutive (es_best es) \<and> set (es_best es) \<subseteq> dom (es_entries es)
     \<and> fs_base fs = hd (es_best es) \<and> md_tip (fs_meta fs) = last (es_best es)
     \<and> f_data (fs_bestFile fs) = concat (map writeBest (es_best es)) \<and> f_pos (fs_bestFile fs) = length (f_data (fs_bestFile fs))
     \<and> unat (md_indexSize (fs_meta fs)) = length (f_data (fs_indexFile fs))
     \<and> unat (md_entrySize (fs_meta fs)) = length (fs_entryFile fs)
     \<and> length (f_data (fs_indexFile fs)) < 2 ^ 63 \<and> length (fs_entryFile fs) < 2 ^ 63 \<and> length (f_data (fs_bestFile fs)) < 2 ^ 63"

lemma sint_small:
  fixes w :: u64
  assumes "unat w < 2 ^ 63"
  shows "\<not> sint w < 0"
proof -
  have i: "int (unat w) < int (2 ^ 63)" using assms by (simp only: of_nat_less_iff)
  have "int (2 ^ 63) = 2 ^ 63" by (simp only: of_nat_power of_nat_numeral)
  then have u: "uint w < 2 ^ 63" using i by simp
  have l: "- (2 ^ 63) \<le> uint w" by (rule order_trans [of _ 0]) simp_all
  have "sint w = uint w" unfolding sint_uint using signed_take_bit_int_eq_self [OF l u] by simp
  then show ?thesis by simp
qed

lemma stored_Checkpoint:
  assumes "fs_offsets fs i = Some off" "stored H (fs_entryFile fs) off c"
  shows "FlatStore_Checkpoint H fs i = Some (Inr c)"
proof -
  obtain bs rest where b: "writeCheckpoint H c = Some bs" "drop (unat off) (fs_entryFile fs) = bs @ rest"
    using assms(2) by (auto simp: stored_def)
  obtain bs' where "writeCheckpoint H c = Some bs'" "\<And>rest. readCheckpoint H (bs' @ rest) = Some (Inr c)"
    by (rule storable_read [of H c]) (use assms(2) in \<open>auto simp: stored_def\<close>)
  then have "readCheckpoint H (bs @ rest) = Some (Inr c)" using b(1) by simp
  moreover have "\<not> sint off < 0" using assms(2) by (intro sint_small) (simp add: stored_def)
  ultimately show ?thesis using assms(1) b(2) by (simp add: FlatStore_Checkpoint_def)
qed

lemma stored_Header:
  assumes "fs_offsets fs i = Some off" "stored H (fs_entryFile fs) off c"
  shows "FlatStore_Header fs i = Inr (b_Header (cp_Block c))"
proof -
  obtain bs rest where b: "writeCheckpoint H c = Some bs" "drop (unat off) (fs_entryFile fs) = bs @ rest"
    using assms(2) by (auto simp: stored_def)
  obtain bs' where "writeCheckpoint H c = Some bs'" "121 \<le> length bs'"
    "take 121 bs' = WriteUint8 1 @ BlockHeader_EncodeTo (b_Header (cp_Block c))"
    by (rule storable_read [of H c]) (use assms(2) in \<open>auto simp: stored_def\<close>)
  then have h: "take 121 (bs @ rest) = WriteUint8 1 @ BlockHeader_EncodeTo (b_Header (cp_Block c))" "121 \<le> length (bs @ rest)"
    using b(1) by simp_all
  have neg: "\<not> sint off < 0" using assms(2) by (intro sint_small) (simp add: stored_def)
  have len: "length (BlockHeader_EncodeTo (b_Header (cp_Block c))) = 120"
    by (simp add: BlockHeader_EncodeTo_def BlockID_EncodeTo_def WriteTime_def Address_EncodeTo_def Hash256_EncodeTo_def)
  have at: "File_ReadAt 121 off (File_open (fs_entryFile fs))
      = (None, WriteUint8 1 @ BlockHeader_EncodeTo (b_Header (cp_Block c)))"
    using h by (simp add: File_ReadAt_def File_open_def neg b(2) Let_def len)
  have t: "time_ok (bh_Timestamp (b_Header (cp_Block c)))"
    using assms(2) by (simp add: stored_def storable_def sendable_block_def wire_ok_def)
  obtain d1 d2 where "run_state ReadUint8 (NewBufDecoder (WriteUint8 1 @ BlockHeader_EncodeTo (b_Header (cp_Block c)))) = (1, d1)"
    "run_state BlockHeader_DecodeFrom d1 = (b_Header (cp_Block c), d2)" "dc_err d2 = None" using header_read [OF t] by blast
  then show ?thesis by (simp add: FlatStore_Header_def assms(1) at)
qed

end
