(* ===== verification/Flat_Properties.thy ===== *)
theory Flat_Properties
  imports Flat_Store P2P_Service
begin

text \<open>
  \<open>FlatStore\<close> implements the in-memory store: every operation keeps the representation, every query gives the same
  answer, and opening the files after a flush gives the store back, whatever has been appended to them since.
\<close>

section \<open>Queries\<close>

lemma repr_Checkpoint:
  assumes "flat_repr H fs es"
  shows "FlatStore_Checkpoint H fs i = Some (EphemeralStore_Checkpoint es i)" "FlatStore_Header fs i = EphemeralStore_Header es i"
proof -
  have "FlatStore_Checkpoint H fs i = Some (EphemeralStore_Checkpoint es i) \<and> FlatStore_Header fs i = EphemeralStore_Header es i"
  proof (cases "es_entries es i")
    case None
    then have "fs_offsets fs i = None" using assms by (metis domIff flat_repr_def)
    then show ?thesis using None
      by (simp add: FlatStore_Checkpoint_def FlatStore_Header_def EphemeralStore_Checkpoint_def EphemeralStore_Header_def)
  next
    case (Some c)
    then obtain off where "fs_offsets fs i = Some off" "stored H (fs_entryFile fs) off c"
      using assms unfolding flat_repr_def by blast
    then show ?thesis using Some stored_Checkpoint stored_Header
      by (simp add: EphemeralStore_Checkpoint_def EphemeralStore_Header_def)
  qed
  then show "FlatStore_Checkpoint H fs i = Some (EphemeralStore_Checkpoint es i)" "FlatStore_Header fs i = EphemeralStore_Header es i"
    by simp_all
qed

lemma length_best: "length (concat (map writeBest is)) = 40 * length is"
  by (induction "is") (simp_all add: writeBest_def)

lemma drop_best: "k < length is \<Longrightarrow> \<exists>rest. drop (40 * k) (concat (map writeBest is)) = writeBest (is ! k) @ rest"
proof (induction "is" arbitrary: k)
  case (Cons i "is")
  then show ?case by (cases k) (auto simp: writeBest_def)
qed simp

lemma times_bestSize:
  fixes x :: u64
  assumes "40 * unat x < 2 ^ 63"
  shows "unat (x * word_of_nat bestSize) = 40 * unat x"
  using assms by (simp add: unat_word_ariths bestSize_def mult.commute)

text \<open>Reading the best file at a height that is at most \<open>2^63\<close> bytes above the base.\<close>

lemma best_file_read:
  assumes "f_data f = concat (map writeBest is)" "b \<le> h" "40 * (unat h - unat b) < 2 ^ 63"
  shows "File_ReadAt bestSize ((h - b) * word_of_nat bestSize) f =
    (if unat h - unat b < length is then (None, ChainIndex_EncodeTo (is ! (unat h - unat b)))
     else (Some ErrEOF, replicate 40 0))"
proof -
  let ?k = "unat h - unat b"
  have k: "unat (h - b) = ?k" using assms(2) by (simp add: unat_sub word_le_nat_alt)
  have u: "unat ((h - b) * word_of_nat bestSize) = 40 * ?k"
    using times_bestSize [of "h - b"] assms(3) k by (simp only: k)
  have neg: "\<not> sint ((h - b) * word_of_nat bestSize) < 0" by (rule sint_small) (simp only: u assms(3))
  show ?thesis
  proof (cases "?k < length is")
    case True
    then obtain rest where "drop (40 * ?k) (f_data f) = writeBest (is ! ?k) @ rest" using drop_best assms(1) by metis
    then show ?thesis using True neg u by (simp add: File_ReadAt_def Let_def bestSize_def writeBest_def)
  next
    case False
    then have "drop (40 * ?k) (f_data f) = []" using assms(1) length_best [of "is"] by simp
    then show ?thesis using False neg u by (simp add: File_ReadAt_def Let_def bestSize_def)
  qed
qed

lemma BestIndex_file:
  assumes "f_data (fs_bestFile fs) = concat (map writeBest is)" "ci_Height (fs_base fs) \<le> h"
    "40 * (unat h - unat (ci_Height (fs_base fs))) < 2 ^ 63"
  shows "FlatStore_BestIndex fs h =
    (if unat h - unat (ci_Height (fs_base fs)) < length is then Inr (is ! (unat h - unat (ci_Height (fs_base fs)))) else Inl ErrUnknownIndex)"
proof -
  let ?k = "unat h - unat (ci_Height (fs_base fs))"
  obtain d where "run_state ChainIndex_DecodeFrom (NewBufDecoder (ChainIndex_EncodeTo (is ! ?k))) = (is ! ?k, d)" "dc_err d = None"
    by (rule decodes_buf [OF chain_index.dec_enc]) simp_all
  then show ?thesis using best_file_read [OF assms] assms(2)
    by (auto simp: FlatStore_BestIndex_def Let_def)
qed

lemma repr_BestIndex:
  assumes "flat_repr H fs es" "ci_Height (hd (es_best es)) \<le> h" "40 * (unat h - unat (ci_Height (hd (es_best es)))) < 2 ^ 63"
  shows "EphemeralStore_BestIndex es h = Some (FlatStore_BestIndex fs h)"
proof -
  have r: "f_data (fs_bestFile fs) = concat (map writeBest (es_best es))" "fs_base fs = hd (es_best es)" "consecutive (es_best es)"
    using assms(1) by (simp_all add: flat_repr_def)
  have b: "FlatStore_BestIndex fs h = (if unat h - unat (ci_Height (hd (es_best es))) < length (es_best es)
      then Inr (es_best es ! (unat h - unat (ci_Height (hd (es_best es))))) else Inl ErrUnknownIndex)"
    using BestIndex_file [OF r(1)] assms(2,3) unfolding r(2) by blast
  have "unat (ci_Height (hd (es_best es))) \<le> unat h" using assms(2) by (simp add: word_le_nat_alt)
  then show ?thesis unfolding b using consecutive_BestIndex [OF r(3), of h] by auto
qed

section \<open>Operations\<close>

lemma stored_append: "stored H data off c \<Longrightarrow> stored H (data @ bs) off c"
  unfolding stored_def by fastforce

text \<open>There is room for one more entry.\<close>

definition has_room :: "flat_store \<Rightarrow> bool" where
  "has_room fs \<longleftrightarrow> length (fs_entryFile fs) + 10000000 < 2 ^ 63 \<and> length (f_data (fs_indexFile fs)) + 48 < 2 ^ 63
     \<and> length (f_data (fs_bestFile fs)) + 40 < 2 ^ 63"

lemma File_Write_end: "f_pos f = length (f_data f) \<Longrightarrow>
    File_Write bs f = \<lparr>f_data = f_data f @ bs, f_pos = length (f_data f @ bs)\<rparr>"
  by (simp add: File_Write_def)

lemma repr_AddCheckpoint:
  assumes r: "flat_repr H fs es" and c: "storable H c" and room: "has_room fs"
  shows "\<exists>fs' es'. FlatStore_AddCheckpoint H fs c = Some (Inr fs') \<and> EphemeralStore_AddCheckpoint es c = Some (Inr es') \<and> flat_repr H fs' es'"
proof -
  let ?i = "cs_Index (cp_State c)" and ?off = "word_of_nat (length (fs_entryFile fs)) :: u64"
  obtain bs where bs: "writeCheckpoint H c = Some bs" "length bs \<le> 10000000" by (rule storable_read [OF c])
  have m: "(2::nat) ^ 63 < 2 ^ 64" by simp
  have off: "unat ?off = length (fs_entryFile fs)" using room m by (simp add: has_room_def unat_of_nat)
  have wi: "length (writeIndex ?i ?off) = 48" by (simp add: writeIndex_def)
  obtain xs where xs: "f_data (fs_indexFile fs) = concat (map (\<lambda>(i, off). writeIndex i off) xs)" "fs_offsets fs = map_of (rev xs)"
    using r unfolding flat_repr_def by blast
  have pos: "f_pos (fs_indexFile fs) = length (f_data (fs_indexFile fs))" using r by (simp add: flat_repr_def)
  define fs' where "fs' = fs\<lparr>fs_entryFile := fs_entryFile fs @ bs,
       fs_indexFile := File_Write (writeIndex ?i ?off) (fs_indexFile fs), fs_offsets := (fs_offsets fs)(?i \<mapsto> ?off),
       fs_meta := (fs_meta fs)\<lparr>md_entrySize := word_of_nat (length (fs_entryFile fs @ bs)),
         md_indexSize := md_indexSize (fs_meta fs) + word_of_nat indexSize\<rparr>\<rparr>"
  then have fs': "FlatStore_AddCheckpoint H fs c = Some (Inr fs')"
    "fs' = fs\<lparr>fs_entryFile := fs_entryFile fs @ bs,
       fs_indexFile := File_Write (writeIndex ?i ?off) (fs_indexFile fs), fs_offsets := (fs_offsets fs)(?i \<mapsto> ?off),
       fs_meta := (fs_meta fs)\<lparr>md_entrySize := word_of_nat (length (fs_entryFile fs @ bs)),
         md_indexSize := md_indexSize (fs_meta fs) + word_of_nat indexSize\<rparr>\<rparr>"
    using bs(1) by (simp_all add: FlatStore_AddCheckpoint_def Let_def)
  let ?es = "es\<lparr>es_entries := (es_entries es)(?i \<mapsto> c)\<rparr>"
  have new: "stored H (fs_entryFile fs @ bs) ?off c"
    using c room bs(1) by (simp add: stored_def off has_room_def)
  have ent: "length (fs_entryFile fs @ bs) < 2 ^ 63" using room bs(2) by (simp add: has_room_def)
  then have es: "unat (word_of_nat (length (fs_entryFile fs @ bs)) :: u64) = length (fs_entryFile fs @ bs)"
    using m by (subst unat_of_nat) (simp only: mod_less len_of_numeral_defs, simp)
  have ix: "unat (md_indexSize (fs_meta fs) + word_of_nat indexSize) = length (f_data (fs_indexFile fs)) + 48"
    using r room m by (simp add: flat_repr_def has_room_def unat_word_ariths indexSize_def)
  have repr: "flat_repr H fs' ?es"
    unfolding flat_repr_def
  proof (intro conjI)
    show "dom (fs_offsets fs') = dom (es_entries ?es)" using r by (simp add: fs'(2) flat_repr_def)
    show "\<forall>i d. es_entries ?es i = Some d \<longrightarrow> (\<exists>off. fs_offsets fs' i = Some off \<and> stored H (fs_entryFile fs') off d)"
    proof (intro allI impI)
      fix i d assume d: "es_entries ?es i = Some d"
      show "\<exists>off. fs_offsets fs' i = Some off \<and> stored H (fs_entryFile fs') off d"
      proof (cases "i = ?i")
        case True
        then show ?thesis using d new by (simp add: fs'(2))
      next
        case False
        then have "es_entries es i = Some d" using d by simp
        then obtain off where "fs_offsets fs i = Some off" "stored H (fs_entryFile fs) off d"
          using r unfolding flat_repr_def by blast
        then show ?thesis using False stored_append by (simp add: fs'(2))
      qed
    qed
    show "\<exists>xs. f_data (fs_indexFile fs') = concat (map (\<lambda>(i, off). writeIndex i off) xs) \<and> fs_offsets fs' = map_of (rev xs)"
      by (rule exI [of _ "xs @ [(?i, ?off)]"]) (simp add: fs'(2) File_Write_end [OF pos] xs)
  qed (use r room bs(2) ent es ix wi in \<open>auto simp: fs'(2) File_Write_end [OF pos] flat_repr_def has_room_def\<close>)
  then show ?thesis using fs'(1) by (simp add: EphemeralStore_AddCheckpoint_def)
qed

lemma unat_64: "unat (w :: u64) < 2 ^ 64"
  using unsigned_less [of w] by simp

lemma consecutive_snoc:
  assumes "consecutive is" "unat (ci_Height i) = Suc (unat (ci_Height (last is)))"
  shows "consecutive (is @ [i])"
  unfolding consecutive_def
proof (intro conjI allI impI)
  have l: "unat (ci_Height (last is)) = unat (ci_Height (hd is)) + (length is - 1)" by (rule consecutive_last [OF assms(1)])
  have ne: "is \<noteq> []" using assms(1) by (simp add: consecutive_def)
  then have hd: "hd (is @ [i]) = hd is" "0 < length is" by simp_all
  have "unat (ci_Height i) < 2 ^ 64" by (rule unat_64)
  then show "unat (ci_Height (hd (is @ [i]))) + length (is @ [i]) \<le> 2 ^ 64" using assms(2) l hd by simp
  show "unat (ci_Height ((is @ [i]) ! k)) = unat (ci_Height (hd (is @ [i]))) + k" if k: "k < length (is @ [i])" for k
  proof (cases "k < length is")
    case True
    then show ?thesis using assms(1) ne by (simp add: consecutive_def nth_append)
  next
    case False
    then have "k = length is" using k by simp
    then show ?thesis using assms(2) l hd by (simp add: nth_append)
  qed
qed simp

lemma repr_ExtendBest:
  assumes r: "flat_repr H fs es" and i: "es_entries es i \<noteq> None" "unat (ci_Height i) = Suc (unat (ci_Height (last (es_best es))))"
    and room: "has_room fs"
  shows "\<exists>es'. EphemeralStore_ExtendBest es i = Some (Inr es') \<and> flat_repr H (FlatStore_ExtendBest fs i) es'"
proof -
  have pos: "f_pos (fs_bestFile fs) = length (f_data (fs_bestFile fs))" using r by (simp add: flat_repr_def)
  have ne: "es_best es \<noteq> []" using r by (simp add: flat_repr_def consecutive_def)
  have con: "consecutive (es_best es @ [i])" using r i(2) by (intro consecutive_snoc) (simp_all add: flat_repr_def)
  have "flat_repr H (FlatStore_ExtendBest fs i) (es\<lparr>es_best := es_best es @ [i]\<rparr>)"
    unfolding flat_repr_def using r i(1) room con ne
    by (auto simp: flat_repr_def FlatStore_ExtendBest_def File_Write_end [OF pos] has_room_def writeBest_def)
  then show ?thesis using i(1) by (simp add: EphemeralStore_ExtendBest_def)
qed

lemma consecutive_butlast:
  assumes "consecutive is" "2 \<le> length is"
  shows "consecutive (butlast is)"
proof -
  have "butlast is \<noteq> []" using assms(2) by (cases "is" rule: rev_cases) auto
  moreover from this have "hd (butlast is) = hd is" using assms(2) by (cases "is" rule: rev_cases) (auto simp: hd_append)
  moreover have "unat (ci_Height (hd is)) + (length is - 1) \<le> 2 ^ 64" using assms(1) unfolding consecutive_def by linarith
  ultimately show ?thesis using assms(1) by (simp add: consecutive_def nth_butlast)
qed

lemma repr_RewindBest:
  assumes r: "flat_repr H fs es" and len: "2 \<le> length (es_best es)"
  shows "\<exists>fs' es'. FlatStore_RewindBest fs = Inr fs' \<and> EphemeralStore_RewindBest es = Some (Inr es') \<and> flat_repr H fs' es'"
proof -
  let ?is = "es_best es" and ?b = "ci_Height (hd (es_best es))"
  have con: "consecutive ?is" and data: "f_data (fs_bestFile fs) = concat (map writeBest ?is)" and base: "fs_base fs = hd ?is"
    and tip: "md_tip (fs_meta fs) = last ?is" and fits: "length (f_data (fs_bestFile fs)) < 2 ^ 63"
    using r unfolding flat_repr_def by blast+
  have ne: "butlast ?is \<noteq> []" "?is = butlast ?is @ [last ?is]" using len by (cases ?is; auto)+
  have l: "unat (ci_Height (last ?is)) = unat ?b + (length ?is - 1)" by (rule consecutive_last [OF con])
  then have "1 \<le> ci_Height (last ?is)" using len by (simp add: word_le_nat_alt)
  then have h: "unat (ci_Height (last ?is) - 1) = unat ?b + (length ?is - 2)" using l len by (simp add: unat_sub)
  have "40 * (length ?is - 2) < 2 ^ 63" using fits data length_best [of ?is] by simp
  then have "FlatStore_BestIndex fs (ci_Height (last ?is) - 1) = Inr (?is ! (length ?is - 2))"
    using BestIndex_file [OF data, of "ci_Height (last ?is) - 1"] h len by (simp add: base word_le_nat_alt)
  moreover have "?is ! (length ?is - 2) = last (butlast ?is)"
    using ne(1) len by (simp add: last_conv_nth nth_butlast numeral_2_eq_2)
  ultimately have prev: "FlatStore_BestIndex fs (ci_Height (md_tip (fs_meta fs)) - 1) = Inr (last (butlast ?is))" by (simp add: tip)
  have d: "f_data (fs_bestFile fs) = concat (map writeBest (butlast ?is)) @ writeBest (last ?is)"
    unfolding data by (subst ne(2)) simp
  let ?off = "length (concat (map writeBest (butlast ?is)))"
  have off: "length (f_data (fs_bestFile fs)) - bestSize = ?off" "\<not> length (f_data (fs_bestFile fs)) < bestSize"
    by (simp_all add: d bestSize_def writeBest_def)
  let ?fs = "fs\<lparr>fs_bestFile := \<lparr>f_data = concat (map writeBest (butlast ?is)), f_pos = ?off\<rparr>,
      fs_meta := (fs_meta fs)\<lparr>md_tip := last (butlast ?is)\<rparr>\<rparr>"
  have "File_Truncate ?off ((fs_bestFile fs)\<lparr>f_pos := ?off\<rparr>) = \<lparr>f_data = concat (map writeBest (butlast ?is)), f_pos = ?off\<rparr>"
    by (simp add: File_Truncate_def d)
  then have res: "FlatStore_RewindBest fs = Inr ?fs" by (simp add: FlatStore_RewindBest_def prev off Let_def)
  have hd: "hd (butlast ?is) = hd ?is" using ne by (metis hd_append2)
  have sub: "set (butlast ?is) \<subseteq> dom (es_entries es)" using r in_set_butlastD unfolding flat_repr_def by fastforce
  have less: "?off < 2 ^ 63" using fits d by simp
  have "flat_repr H ?fs (es\<lparr>es_best := butlast ?is\<rparr>)"
    using r consecutive_butlast [OF con len] hd sub less by (simp add: flat_repr_def)
  moreover have "?is \<noteq> []" using len by auto
  ultimately show ?thesis using res by (simp add: EphemeralStore_RewindBest_def)
qed

section \<open>Opening\<close>

lemma consecutive_single: "consecutive [i]"
  using unat_64 [of "ci_Height i"] by (simp add: consecutive_def Suc_le_eq)

lemma repr_NewFlatStore:
  assumes c: "storable H c"
  shows "\<exists>fs. NewFlatStore H \<lparr>dk_index = [], dk_entry = [], dk_best = old, dk_meta = None\<rparr> c = Some (Inr (fs, c))
    \<and> flat_repr H fs (NewEphemeralStore c)"
proof -
  let ?i = "cs_Index (cp_State c)"
  obtain bs where bs: "writeCheckpoint H c = Some bs" "length bs \<le> 10000000" by (rule storable_read [OF c])
  have off: "read_offsets [] Map.empty = Inr Map.empty" using read_offsets_write [of "[]" Map.empty] by simp
  have len: "length (writeIndex ?i 0) = 48" "length (writeBest ?i) = 40" by (simp_all add: writeIndex_def writeBest_def)
  define fs where "fs =
    \<lparr>fs_indexFile = \<lparr>f_data = writeIndex ?i 0, f_pos = 48\<rparr>, fs_entryFile = bs, fs_bestFile = \<lparr>f_data = writeBest ?i, f_pos = 40\<rparr>,
     fs_meta = \<lparr>md_indexSize = 48, md_entrySize = word_of_nat (length bs), md_tip = ?i\<rparr>, fs_metafile = None, fs_base = ?i,
     fs_offsets = [?i \<mapsto> 0]\<rparr>"
  have new: "NewFlatStore H \<lparr>dk_index = [], dk_entry = [], dk_best = old, dk_meta = None\<rparr> c = Some (Inr (fs, c))"
    using bs(1) len
    by (simp add: NewFlatStore_def off recoverBest_def File_open_def File_SeekEnd_def File_Truncate_def Let_def
        FlatStore_AddCheckpoint_def FlatStore_ExtendBest_def File_Write_def indexSize_def fs_def)
  have u: "unat (word_of_nat (length bs) :: u64) = length bs" using bs(2) by (simp add: unat_of_nat)
  have st: "stored H bs 0 c" using c bs(1) by (auto simp: stored_def)
  have xs: "\<exists>xs. writeIndex ?i 0 = concat (map (\<lambda>(i, off). writeIndex i off) xs) \<and> [?i \<mapsto> 0] = map_of (rev xs)"
    by (rule exI [of _ "[(?i, 0)]"]) simp
  have "flat_repr H fs (NewEphemeralStore c)"
    unfolding flat_repr_def
    by (intro conjI) (use st xs len u bs(2) consecutive_single in \<open>auto simp: fs_def NewEphemeralStore_def\<close>)
  then show ?thesis using new by blast
qed

text \<open>
  The files after a flush, to which entries and indices of the best chain may have been appended that were not flushed.
  The entries are cut off again; the best file keeps what was appended.
\<close>

lemma FlatStore_Checkpoint_cong:
  "fs_offsets a = fs_offsets b \<Longrightarrow> fs_entryFile a = fs_entryFile b \<Longrightarrow> FlatStore_Checkpoint H a i = FlatStore_Checkpoint H b i"
  by (simp add: FlatStore_Checkpoint_def split: option.split)

lemma reopened:
  assumes r: "flat_repr H fs es"
  shows "\<exists>c. es_entries es (last (es_best es)) = Some c
    \<and> NewFlatStore H \<lparr>dk_index = f_data (fs_indexFile fs) @ x, dk_entry = fs_entryFile fs @ y,
        dk_best = f_data (fs_bestFile fs) @ concat (map writeBest ext), dk_meta = fs_metafile (FlatStore_Flush fs)\<rparr> c0
      = Some (Inr (fs\<lparr>fs_bestFile := File_SeekEnd (File_open (f_data (fs_bestFile fs) @ concat (map writeBest ext))),
          fs_metafile := fs_metafile (FlatStore_Flush fs)\<rparr>, c))"
proof -
  let ?is = "es_best es" and ?meta = "fs_meta fs" and ?data = "f_data (fs_bestFile fs) @ concat (map writeBest ext)"
  have con: "consecutive ?is" and sub: "set ?is \<subseteq> dom (es_entries es)" and dom: "dom (fs_offsets fs) = dom (es_entries es)"
    and data: "f_data (fs_bestFile fs) = concat (map writeBest ?is)" and base: "fs_base fs = hd ?is"
    and tip: "md_tip ?meta = last ?is" and fits: "length (f_data (fs_bestFile fs)) < 2 ^ 63"
    and isz: "unat (md_indexSize ?meta) = length (f_data (fs_indexFile fs))" "length (f_data (fs_indexFile fs)) < 2 ^ 63"
    and esz: "unat (md_entrySize ?meta) = length (fs_entryFile fs)" "length (fs_entryFile fs) < 2 ^ 63"
    and pos: "f_pos (fs_indexFile fs) = length (f_data (fs_indexFile fs))"
    using r unfolding flat_repr_def by blast+
  obtain xs where xs: "f_data (fs_indexFile fs) = concat (map (\<lambda>(i, off). writeIndex i off) xs)" "fs_offsets fs = map_of (rev xs)"
    using r unfolding flat_repr_def by blast
  have ne: "?is \<noteq> []" using con by (simp add: consecutive_def)
  obtain c where c: "es_entries es (last ?is) = Some c" using sub ne last_in_set by blast
  have dne: "dom (fs_offsets fs) \<noteq> {}" using c dom by auto
  have neg: "\<not> sint (md_indexSize ?meta) < 0" "\<not> sint (md_entrySize ?meta) < 0"
    using isz esz by (auto intro!: sint_small simp del: power_numeral)
  have off: "read_offsets (f_data (fs_indexFile fs)) Map.empty = Inr (fs_offsets fs)"
    using read_offsets_write [of xs Map.empty] by (simp add: xs)
  let ?best = "File_open ?data"
  have d2: "?data = concat (map writeBest (?is @ ext))" by (simp add: data)
  have fo: "f_data ?best = ?data" "f_pos ?best = 0" by (simp_all add: File_open_def)
  have "length ?data div bestSize * bestSize = length ?data"
    unfolding d2 length_best by (simp add: bestSize_def)
  then have trunc: "File_Truncate (length ?data div bestSize * bestSize) ?best = ?best"
    by (simp add: File_open_def File_Truncate_def)
  have rb: "readBest ?data = (None, hd ?is)"
    using ne by (cases ?is) (simp_all add: data)
  let ?fs0 = "\<lparr>fs_indexFile = File_SeekEnd (File_open (f_data (fs_indexFile fs))), fs_entryFile = fs_entryFile fs, fs_bestFile = ?best,
     fs_meta = ?meta, fs_metafile = Some (writeMeta ?meta), fs_base = cs_Index (cp_State c0), fs_offsets = fs_offsets fs\<rparr>"
  let ?fs1 = "?fs0\<lparr>fs_bestFile := ?best\<lparr>f_pos := bestSize\<rparr>, fs_base := hd ?is\<rparr>"
  have l: "unat (ci_Height (last ?is)) = unat (ci_Height (hd ?is)) + (length ?is - 1)" by (rule consecutive_last [OF con])
  have small: "40 * (length ?is - 1) < 2 ^ 63" using fits data length_best [of ?is] by simp
  have "f_data (fs_bestFile ?fs1) = concat (map writeBest (?is @ ext))" using d2 by (simp add: File_open_def)
  moreover have "length ?is - Suc 0 < length ?is + length ext" using ne by (cases ?is) auto
  ultimately have "FlatStore_BestIndex ?fs1 (ci_Height (last ?is)) = Inr ((?is @ ext) ! (length ?is - 1))"
    using BestIndex_file [of ?fs1 "?is @ ext" "ci_Height (last ?is)"] l small by (simp add: word_le_nat_alt)
  then have path: "recover_path ?fs1 (last ?is) [] = Some (Inr None)" by (subst recover_path.simps) simp
  have rec: "recoverBest (md_tip ?meta) ?fs0 = Some (Inr ?fs1)"
    using dne rb path by (simp add: recoverBest_def Let_def fo trunc tip del: length_append)
  let ?fs2 = "?fs1\<lparr>fs_bestFile := File_SeekEnd (fs_bestFile ?fs1)\<rparr>"
  have "FlatStore_Checkpoint H ?fs2 (last ?is) = FlatStore_Checkpoint H fs (last ?is)"
    by (rule FlatStore_Checkpoint_cong) simp_all
  then have cp: "FlatStore_Checkpoint H ?fs2 (last ?is) = Some (Inr c)"
    using repr_Checkpoint(1) [OF r] c by (simp add: EphemeralStore_Checkpoint_def)
  have "NewFlatStore H \<lparr>dk_index = f_data (fs_indexFile fs) @ x, dk_entry = fs_entryFile fs @ y,
      dk_best = ?data, dk_meta = fs_metafile (FlatStore_Flush fs)\<rparr> c0 = Some (Inr (?fs2, c))"
    using neg isz(1) esz(1) off rec dne cp
    by (simp add: NewFlatStore_def FlatStore_Flush_def File_Truncate_def File_open_def tip)
  moreover have "?fs2 = fs\<lparr>fs_bestFile := File_SeekEnd ?best, fs_metafile := fs_metafile (FlatStore_Flush fs)\<rparr>"
    using base pos by (simp add: FlatStore_Flush_def File_SeekEnd_def File_open_def)
  ultimately show ?thesis using c by metis
qed

lemma repr_reopen:
  assumes r: "flat_repr H fs es"
  shows "\<exists>fs' c. NewFlatStore H \<lparr>dk_index = f_data (fs_indexFile fs) @ x, dk_entry = fs_entryFile fs @ y,
      dk_best = f_data (fs_bestFile fs), dk_meta = fs_metafile (FlatStore_Flush fs)\<rparr> c0 = Some (Inr (fs', c))
    \<and> flat_repr H fs' es \<and> EphemeralStore_Checkpoint es (last (es_best es)) = Inr c"
proof -
  have "flat_repr H (fs\<lparr>fs_bestFile := File_SeekEnd (File_open (f_data (fs_bestFile fs))),
      fs_metafile := fs_metafile (FlatStore_Flush fs)\<rparr>) es"
    using r unfolding flat_repr_def by (auto simp: File_SeekEnd_def File_open_def)
  then show ?thesis using reopened [OF r, of x y "[]" c0] by (auto simp: EphemeralStore_Checkpoint_def)
qed

text \<open>
  So a best chain that was extended after the flush is not cut back to the flushed tip: the reopened store has a tip
  with an index of the best chain above it.
\<close>

lemma unflushed_best_survives:
  assumes "flat_repr H fs es"
  shows "\<exists>fs' c. NewFlatStore H \<lparr>dk_index = f_data (fs_indexFile fs), dk_entry = fs_entryFile fs,
      dk_best = f_data (fs_bestFile fs) @ writeBest i, dk_meta = fs_metafile (FlatStore_Flush fs)\<rparr> c0 = Some (Inr (fs', c))
    \<and> md_tip (fs_meta fs') = last (es_best es) \<and> f_data (fs_bestFile fs') = concat (map writeBest (es_best es @ [i]))"
  using reopened [OF assms, of "[]" "[]" "[i]" c0] assms
  by (auto simp: flat_repr_def File_SeekEnd_def File_open_def)

section \<open>Properties\<close>

text \<open>
  The runs of a store, next to those of an in-memory store: from empty files on, checkpoints that fit are added, the
  best chain is extended by stored indices at consecutive heights and rewound down to the base, and at any time the
  process may flush, add entries that it does not flush, and be started again.
\<close>

inductive flat_run :: "hashfn \<Rightarrow> checkpoint \<Rightarrow> flat_store \<Rightarrow> ephemeral_store \<Rightarrow> bool" for H c0 where
  new: "NewFlatStore H \<lparr>dk_index = [], dk_entry = [], dk_best = old, dk_meta = None\<rparr> c0 = Some (Inr (fs, c)) \<Longrightarrow>
    flat_run H c0 fs (NewEphemeralStore c0)"
| add: "flat_run H c0 fs es \<Longrightarrow> storable H c \<Longrightarrow> has_room fs \<Longrightarrow> FlatStore_AddCheckpoint H fs c = Some (Inr fs') \<Longrightarrow>
    EphemeralStore_AddCheckpoint es c = Some (Inr es') \<Longrightarrow> flat_run H c0 fs' es'"
| extend: "flat_run H c0 fs es \<Longrightarrow> unat (ci_Height i) = Suc (unat (ci_Height (last (es_best es)))) \<Longrightarrow> has_room fs \<Longrightarrow>
    EphemeralStore_ExtendBest es i = Some (Inr es') \<Longrightarrow> flat_run H c0 (FlatStore_ExtendBest fs i) es'"
| rewind: "flat_run H c0 fs es \<Longrightarrow> 2 \<le> length (es_best es) \<Longrightarrow> FlatStore_RewindBest fs = Inr fs' \<Longrightarrow>
    EphemeralStore_RewindBest es = Some (Inr es') \<Longrightarrow> flat_run H c0 fs' es'"
| flush: "flat_run H c0 fs es \<Longrightarrow> flat_run H c0 (FlatStore_Flush fs) es"
| restart: "flat_run H c0 fs es \<Longrightarrow>
    NewFlatStore H \<lparr>dk_index = f_data (fs_indexFile fs) @ x, dk_entry = fs_entryFile fs @ y,
      dk_best = f_data (fs_bestFile fs), dk_meta = fs_metafile (FlatStore_Flush fs)\<rparr> c1 = Some (Inr (fs', c)) \<Longrightarrow>
    flat_run H c0 fs' es"

lemma flat_run_repr:
  assumes c0: "storable H c0"
  shows "flat_run H c0 fs es \<Longrightarrow> flat_repr H fs es"
proof (induction rule: flat_run.induct)
  case (new old fs c)
  then show ?case using repr_NewFlatStore [OF c0, of old] by auto
next
  case (add fs es c fs' es')
  then show ?case using repr_AddCheckpoint [OF add.IH add.hyps(2,3)] by auto
next
  case (extend fs es i es')
  have "es_entries es i \<noteq> None" using extend.hyps(4) by (auto simp: EphemeralStore_ExtendBest_def split: if_splits)
  then show ?case using repr_ExtendBest [OF extend.IH _ extend.hyps(2,3)] extend.hyps(4) by auto
next
  case (rewind fs es fs' es')
  then show ?case using repr_RewindBest [OF rewind.IH rewind.hyps(2)] by auto
next
  case (flush fs es)
  then show ?case by (auto simp: FlatStore_Flush_def flat_repr_def)
next
  case (restart fs es x y c1 fs' c)
  then show ?case using repr_reopen [OF restart.IH, of x y c1] by auto
qed


lemma no_inputs_multiproof: "ComputeMultiproof H [] = Some []"
proof -
  have "visit_trees k (replicate n []) = Some []" for k n by (induction n arbitrary: k) simp_all
  moreover have "map sort_located (replicate 64 []) = replicate 64 []" by (simp add: sort_located_def)
  ultimately show ?thesis by (simp add: ComputeMultiproof_def leavesByTree_def input_leaves_def)
qed

lemma base_storable: "storable sample_hash base_checkpoint"
proof -
  have "sendable_block sample_hash base_block"
    by (auto simp: sendable_block_def wire_ok_def base_block_def len_ok_def spends_def intro: exI [of _ "[]"])
  moreover have "length bs \<le> 10000000" if "writeCheckpoint sample_hash base_checkpoint = Some bs" for bs
    using that by (auto simp: writeCheckpoint_def CompressedBlock_EncodeTo_def base_checkpoint_def base_block_def no_inputs_multiproof
        length_base_state WriteUint8_def BlockHeader_EncodeTo_def BlockID_EncodeTo_def WriteTime_def Address_EncodeTo_def Hash256_EncodeTo_def)
  ultimately show ?thesis using base_state_ok by (simp add: storable_def base_checkpoint_def)
qed


text \<open>C27. A flush survives a crash. After any run, when the files are opened again as they were flushed, with any bytes
  that were appended to the entries and the index since, the store is the one that was flushed, and what it returns
  is the checkpoint of the tip, whatever base it is opened with.\<close>

theorem flushed_store_reopens:
  assumes "storable H c0" "flat_run H c0 fs es"
  shows "\<exists>fs' c. NewFlatStore H \<lparr>dk_index = f_data (fs_indexFile fs) @ x, dk_entry = fs_entryFile fs @ y,
      dk_best = f_data (fs_bestFile fs), dk_meta = fs_metafile (FlatStore_Flush fs)\<rparr> c1 = Some (Inr (fs', c))
    \<and> flat_run H c0 fs' es \<and> EphemeralStore_Checkpoint es (last (es_best es)) = Inr c
    \<and> (\<forall>i. FlatStore_Checkpoint H fs' i = FlatStore_Checkpoint H fs i)"
proof -
  have r: "flat_repr H fs es" by (rule flat_run_repr [OF assms])
  obtain fs' c where n: "NewFlatStore H \<lparr>dk_index = f_data (fs_indexFile fs) @ x, dk_entry = fs_entryFile fs @ y,
      dk_best = f_data (fs_bestFile fs), dk_meta = fs_metafile (FlatStore_Flush fs)\<rparr> c1 = Some (Inr (fs', c))"
    "flat_repr H fs' es" "EphemeralStore_Checkpoint es (last (es_best es)) = Inr c" using repr_reopen [OF r] by blast
  then show ?thesis
    using flat_run.restart [OF assms(2) n(1)] repr_Checkpoint(1) [OF n(2)] repr_Checkpoint(1) [OF r] by auto
qed

theorem flushed_store_reopens_witness:
  "\<exists>fs fs' c. NewFlatStore sample_hash \<lparr>dk_index = [], dk_entry = [], dk_best = [], dk_meta = None\<rparr> base_checkpoint = Some (Inr (fs, c))
    \<and> NewFlatStore sample_hash \<lparr>dk_index = f_data (fs_indexFile fs) @ [1, 2], dk_entry = fs_entryFile fs @ [3],
      dk_best = f_data (fs_bestFile fs), dk_meta = fs_metafile (FlatStore_Flush fs)\<rparr> base_checkpoint = Some (Inr (fs', base_checkpoint))"
proof -
  obtain fs where fs: "NewFlatStore sample_hash \<lparr>dk_index = [], dk_entry = [], dk_best = [], dk_meta = None\<rparr> base_checkpoint
      = Some (Inr (fs, base_checkpoint))" using repr_NewFlatStore [OF base_storable] by blast
  show ?thesis
    using flushed_store_reopens [OF base_storable flat_run.new [OF fs], of "[1, 2]" "[3]" base_checkpoint] fs
    by (auto simp: EphemeralStore_Checkpoint_def NewEphemeralStore_def base_checkpoint_def)
qed

end
