(* ===== verification/Chain_Sim.thy ===== *)
theory Chain_Sim
  imports Miner Wallet_Invariant
begin

text \<open>
  internal/chainutil/chainutil.go: the simulated chain on which the other packages are tested. \<open>None\<close> is a panic or a
  search for a nonce that does not end. Slices of outputs are values here: the code shares the memory of their Merkle
  proofs between a fork and its origin. The private key that \<open>NewChainSim\<close> draws is an argument.
\<close>

section \<open>Helpers\<close>

partial_function (option) FindBlockNonce :: "hashfn \<Rightarrow> chain_state \<Rightarrow> block_header \<Rightarrow> block_id \<Rightarrow> block_header option" where
  [code]: "FindBlockNonce H cs h target =
     (if \<not> BlockID_MeetsTarget (BlockHeader_ID H h) target
      then FindBlockNonce H cs (h\<lparr>bh_Nonce := bh_Nonce h + 1\<rparr>) target else Some h)"

definition JustHeaders :: "block list \<Rightarrow> block_header list" where
  "JustHeaders blocks = map b_Header blocks"

definition JustTransactions :: "block list \<Rightarrow> transaction list list" where
  "JustTransactions blocks = map b_Transactions blocks"

definition JustTransactionIDs :: "hashfn \<Rightarrow> block list \<Rightarrow> transaction_id list list" where
  "JustTransactionIDs H blocks = map (\<lambda>b. map (Transaction_ID H) (b_Transactions b)) blocks"

definition JustChainIndexes :: "hashfn \<Rightarrow> block list \<Rightarrow> chain_index list" where
  "JustChainIndexes H blocks = map (Block_Index H) blocks"

section \<open>The simulation\<close>

record chain_sim =
  cm_Genesis :: checkpoint
  cm_Chain :: "block list"
  cm_State :: chain_state
  cm_nonce :: u64
  cm_pubkey :: public_key
  cm_privkey :: private_key
  cm_outputs :: "output_element list"

text \<open>The origin goes on with another nonce; the fork is a copy from before.\<close>

definition ChainSim_Fork :: "chain_sim \<Rightarrow> chain_sim \<times> chain_sim" where
  "ChainSim_Fork cs = (cs\<lparr>cm_nonce := cm_nonce cs + push_bit 48 1\<rparr>, cs)"

definition prev_header :: "chain_sim \<Rightarrow> block_header" where
  "prev_header cs = (if cm_Chain cs \<noteq> [] then b_Header (last (cm_Chain cs)) else b_Header (cp_Block (cm_Genesis cs)))"

lemma prev_header_update [simp]: "prev_header (cs\<lparr>cm_outputs := x\<rparr>) = prev_header cs" "prev_header (cs\<lparr>cm_nonce := n\<rparr>) = prev_header cs"
  by (simp_all add: prev_header_def)

definition block_template :: "hashfn \<Rightarrow> chain_sim \<Rightarrow> transaction list \<Rightarrow> block" where
  "block_template H cs txns =
     (let prev = prev_header cs in
      \<lparr>b_Header = \<lparr>bh_Height = bh_Height prev + 1, bh_ParentID = BlockHeader_ID H prev, bh_Nonce = cm_nonce cs,
                   bh_Timestamp = bh_Timestamp prev + 1000000000, bh_MinerAddress = VoidAddress,
                   bh_Commitment = Commitment H (cm_State cs) VoidAddress txns\<rparr>,
       b_Transactions = txns\<rparr>)"

definition update_output :: "hashfn \<Rightarrow> apply_update \<Rightarrow> output_element \<Rightarrow> output_element option" where
  "update_output H sau oe = do {
     e \<leftarrow> ElementApplyUpdate_UpdateElementProof H (au_Element sau) (oe_SE oe);
     Some (oe\<lparr>oe_SE := e\<rparr>)
   }"

definition own_outputs :: "hashfn \<Rightarrow> public_key \<Rightarrow> output_element list \<Rightarrow> output_element list" where
  "own_outputs H pubkey oes = filter (\<lambda>out. out_Address (oe_Output out) = PublicKey_Address H pubkey) oes"

definition ChainSim_MineBlockWithTxns :: "hashfn \<Rightarrow> chain_sim \<Rightarrow> transaction list \<Rightarrow> (chain_sim \<times> block) option" where
  "ChainSim_MineBlockWithTxns H cs txns = do {
     let b = block_template H cs txns;
     target \<leftarrow> HashRequiringWork (cs_Difficulty (cm_State cs));
     h \<leftarrow> FindBlockNonce H (cm_State cs) (b_Header b) target;
     let b = b\<lparr>b_Header := h\<rparr>;
     sau \<leftarrow> ApplyBlock H (cm_State cs) b;
     outputs \<leftarrow> map_option_list (update_output H sau) (cm_outputs cs);
     Some (cs\<lparr>cm_State := au_State sau, cm_Chain := cm_Chain cs @ [b],
              cm_outputs := outputs @ own_outputs H (cm_pubkey cs) (au_NewOutputElements sau)\<rparr>, b)
   }"

text \<open>
  The outputs are spent from the front until they pay for everything; the rest stays. When they do not suffice, the
  loop ends with all of them among the inputs.
\<close>

fun select_inputs ::
    "public_key \<Rightarrow> currency \<Rightarrow> output_element list \<Rightarrow> output_element list \<Rightarrow> currency \<Rightarrow> txn_input list
     \<Rightarrow> (output_element list \<times> currency \<times> txn_input list) option" where
  "select_inputs pubkey totalOut all [] totalIn inputs = Some (all, totalIn, inputs)"
| "select_inputs pubkey totalOut all (out # outs) totalIn inputs = do {
     let inputs = inputs @ [\<lparr>in_Parent = out, in_PublicKey = pubkey, in_Signature = 0\<rparr>];
     totalIn \<leftarrow> Currency_Add totalIn (out_Value (oe_Output out));
     if Currency_Cmp totalIn totalOut \<ge> 0 then Some (outs, totalIn, inputs)
     else select_inputs pubkey totalOut all outs totalIn inputs
   }"

definition sign_all :: "hashfn \<Rightarrow> ed25519 \<Rightarrow> chain_sim \<Rightarrow> transaction \<Rightarrow> transaction option" where
  "sign_all H ed cs txn = do {
     let sigHash = InputSigHash H (cm_State cs) txn;
     inputs \<leftarrow> map_option_list (\<lambda>inp. do {
         sig \<leftarrow> PrivateKey_SignHash ed (cm_privkey cs) sigHash;
         Some (inp\<lparr>in_Signature := sig\<rparr>)
       }) (tx_Inputs txn);
     Some (txn\<lparr>tx_Inputs := inputs\<rparr>)
   }"

definition with_change :: "hashfn \<Rightarrow> chain_sim \<Rightarrow> currency \<Rightarrow> currency \<Rightarrow> txn_output list \<Rightarrow> txn_output list option" where
  "with_change H cs totalIn totalOut scos =
     (if Currency_Cmp totalIn totalOut < 0 then None
      else if Currency_Cmp totalIn totalOut > 0 then do {
        change \<leftarrow> Currency_Sub totalIn totalOut;
        Some (scos @ [\<lparr>out_Value = change, out_Address = PublicKey_Address H (cm_pubkey cs)\<rparr>])
      }
      else Some scos)"

definition ChainSim_TxnWithOutputs :: "hashfn \<Rightarrow> ed25519 \<Rightarrow> chain_sim \<Rightarrow> txn_output list \<Rightarrow> (chain_sim \<times> transaction) option" where
  "ChainSim_TxnWithOutputs H ed cs scos = do {
     let fee = NewCurrency64 (ci_Height (cs_Index (cm_State cs)));
     totalOut \<leftarrow> sum_values (map out_Value scos) fee;
     (outputs, totalIn, inputs) \<leftarrow> select_inputs (cm_pubkey cs) totalOut (cm_outputs cs) (cm_outputs cs) ZeroCurrency [];
     scos \<leftarrow> with_change H cs totalIn totalOut scos;
     txn \<leftarrow> sign_all H ed cs \<lparr>tx_Inputs = inputs, tx_Outputs = scos, tx_MinerFee = fee\<rparr>;
     Some (cs\<lparr>cm_outputs := outputs\<rparr>, txn)
   }"

text \<open>The transaction is made by the same statements as above.\<close>

definition ChainSim_MineBlockWithOutputs :: "hashfn \<Rightarrow> ed25519 \<Rightarrow> chain_sim \<Rightarrow> txn_output list \<Rightarrow> (chain_sim \<times> block) option" where
  "ChainSim_MineBlockWithOutputs H ed cs outs = do {
     (cs, txn) \<leftarrow> ChainSim_TxnWithOutputs H ed cs outs;
     ChainSim_MineBlockWithTxns H cs [txn]
   }"

definition fork_address :: "u64 \<Rightarrow> address" where
  "fork_address nonce = array_word ([ucast (drop_bit 48 nonce), ucast (drop_bit 56 nonce), 1, 2, 3] @ replicate 27 0)"

text \<open>Every output is sent on: one unit to an address that depends on the fork, and the rest, less the fee, back.\<close>

definition send_on :: "hashfn \<Rightarrow> ed25519 \<Rightarrow> chain_sim \<Rightarrow> output_element \<Rightarrow> transaction option" where
  "send_on H ed cs out = do {
     let height = ci_Height (cs_Index (cm_State cs));
     rest \<leftarrow> Currency_Sub (out_Value (oe_Output out)) (NewCurrency64 (height + 1));
     sign_all H ed cs
       \<lparr>tx_Inputs = [\<lparr>in_Parent = out, in_PublicKey = cm_pubkey cs, in_Signature = 0\<rparr>],
        tx_Outputs = [\<lparr>out_Value = rest, out_Address = PublicKey_Address H (cm_pubkey cs)\<rparr>,
                      \<lparr>out_Value = NewCurrency64 1, out_Address = fork_address (cm_nonce cs)\<rparr>],
        tx_MinerFee = NewCurrency64 height\<rparr>
   }"

definition ChainSim_MineBlock :: "hashfn \<Rightarrow> ed25519 \<Rightarrow> chain_sim \<Rightarrow> (chain_sim \<times> block) option" where
  "ChainSim_MineBlock H ed cs = do {
     txns \<leftarrow> map_option_list (send_on H ed cs) (cm_outputs cs);
     ChainSim_MineBlockWithTxns H (cs\<lparr>cm_outputs := []\<rparr>) txns
   }"

fun mine_blocks :: "hashfn \<Rightarrow> ed25519 \<Rightarrow> nat \<Rightarrow> chain_sim \<Rightarrow> (chain_sim \<times> block list) option" where
  "mine_blocks H ed 0 cs = Some (cs, [])"
| "mine_blocks H ed (Suc n) cs = do {
     (cs, b) \<leftarrow> ChainSim_MineBlock H ed cs;
     (cs, bs) \<leftarrow> mine_blocks H ed n cs;
     Some (cs, b # bs)
   }"

text \<open>\<open>make\<close> panics for a negative number.\<close>

definition ChainSim_MineBlocks :: "hashfn \<Rightarrow> ed25519 \<Rightarrow> chain_sim \<Rightarrow> int \<Rightarrow> (chain_sim \<times> block list) option" where
  "ChainSim_MineBlocks H ed cs n = (if n < 0 then None else mine_blocks H ed (nat n) cs)"

definition sim_gift :: "address \<Rightarrow> nat \<Rightarrow> txn_output option" where
  "sim_gift ourAddr i = do {
     value \<leftarrow> Currency_Mul64 BaseUnitsPerCoin (10 * word_of_nat (i + 1));
     Some \<lparr>out_Value = value, out_Address = ourAddr\<rparr>
   }"

definition sim_genesis :: "txn_output list \<Rightarrow> block" where
  "sim_genesis gift =
     \<lparr>b_Header = \<lparr>bh_Height = 0, bh_ParentID = 0, bh_Nonce = 0, bh_Timestamp = time_Unix 734600000,
                  bh_MinerAddress = VoidAddress, bh_Commitment = 0\<rparr>,
      b_Transactions = [\<lparr>tx_Inputs = [], tx_Outputs = gift, tx_MinerFee = ZeroCurrency\<rparr>]\<rparr>"

definition NewChainSim :: "hashfn \<Rightarrow> private_key \<Rightarrow> chain_sim option" where
  "NewChainSim H privkey = do {
     pubkey \<leftarrow> PrivateKey_PublicKey privkey;
     gift \<leftarrow> map_option_list (sim_gift (PublicKey_Address H pubkey)) [0..<10];
     sau \<leftarrow> GenesisUpdate H (sim_genesis gift) \<lparr>NumHashes = 4\<rparr>;
     Some \<lparr>cm_Genesis = \<lparr>cp_Block = sim_genesis gift, cp_State = au_State sau\<rparr>, cm_Chain = [], cm_State = au_State sau,
           cm_nonce = 0, cm_pubkey = pubkey, cm_privkey = privkey,
           cm_outputs = own_outputs H pubkey (au_NewOutputElements sau)\<rparr>
   }"

section \<open>Facts\<close>

text \<open>The nonces are tried in the order of the miner's grinder.\<close>

lemma FindBlockNonce_grinds:
  assumes "FindBlockNonce H cs h target = Some h'"
  shows "GrindNonce H h target = Some h'"
proof (rule FindBlockNonce.raw_induct [of "\<lambda>H cs h target h'. GrindNonce H h target = Some h'", OF _ assms])
  fix rec :: "hashfn \<Rightarrow> chain_state \<Rightarrow> block_header \<Rightarrow> block_id \<Rightarrow> block_header option" and H cs h target h'
  assume "\<And>H cs h target h'. rec H cs h target = Some h' \<Longrightarrow> GrindNonce H h target = Some h'"
    and "(if \<not> BlockID_MeetsTarget (BlockHeader_ID H h) target
      then rec H cs (h\<lparr>bh_Nonce := bh_Nonce h + 1\<rparr>) target else Some h) = Some h'"
  then show "GrindNonce H h target = Some h'"
    by (subst GrindNonce.simps) (auto split: if_splits)
qed

lemma map_option_list_all2: "map_option_list f xs = Some ys \<Longrightarrow> list_all2 (\<lambda>x y. f x = Some y) xs ys"
  by (induction xs arbitrary: ys) (auto split: Option.bind_splits)

text \<open>The keys work: what the private key signs verifies under the public key.\<close>

definition keys_ok :: "ed25519 \<Rightarrow> verifier \<Rightarrow> chain_sim \<Rightarrow> bool" where
  "keys_ok ed verify cs \<longleftrightarrow>
     (\<forall>h. \<exists>sig. PrivateKey_SignHash ed (cm_privkey cs) h = Some sig \<and> verify (cm_pubkey cs) h sig)"

lemma sign_all_total:
  assumes "keys_ok ed verify cs"
  obtains txn' where "sign_all H ed cs txn = Some txn'"
proof -
  obtain sig where sig: "PrivateKey_SignHash ed (cm_privkey cs) (InputSigHash H (cm_State cs) txn) = Some sig"
    using assms unfolding keys_ok_def by blast
  show ?thesis using that by (simp add: sign_all_def sig map_option_list_Some [where g = "\<lambda>inp. inp\<lparr>in_Signature := sig\<rparr>"])
qed

lemma sign_all_spec:
  assumes "keys_ok ed verify cs" "sign_all H ed cs txn = Some txn'"
  shows "tx_Outputs txn' = tx_Outputs txn \<and> tx_MinerFee txn' = tx_MinerFee txn
    \<and> map in_Parent (tx_Inputs txn') = map in_Parent (tx_Inputs txn)
    \<and> map in_PublicKey (tx_Inputs txn') = map in_PublicKey (tx_Inputs txn)
    \<and> (\<forall>inp\<in>set (tx_Inputs txn'). verify (cm_pubkey cs) (InputSigHash H (cm_State cs) txn') (in_Signature inp))"
proof -
  let ?h = "InputSigHash H (cm_State cs) txn"
  obtain sig where sig: "PrivateKey_SignHash ed (cm_privkey cs) ?h = Some sig" "verify (cm_pubkey cs) ?h sig"
    using assms(1) unfolding keys_ok_def by blast
  have "map_option_list (\<lambda>inp. do { sig \<leftarrow> PrivateKey_SignHash ed (cm_privkey cs) ?h; Some (inp\<lparr>in_Signature := sig\<rparr>) })
      (tx_Inputs txn) = Some (map (\<lambda>inp. inp\<lparr>in_Signature := sig\<rparr>) (tx_Inputs txn))"
    by (rule map_option_list_Some) (simp add: sig(1))
  then have t: "txn' = txn\<lparr>tx_Inputs := map (\<lambda>inp. inp\<lparr>in_Signature := sig\<rparr>) (tx_Inputs txn)\<rparr>"
    using assms(2) by (simp add: sign_all_def)
  have "InputSigHash H (cm_State cs) txn' = ?h"
    by (rule InputSigHash_cong) (simp add: t txn_core_def comp_def)
  then show ?thesis using sig(2) by (simp add: t comp_def)
qed

section \<open>The invariant\<close>

text \<open>An output that the simulation may spend.\<close>

definition held :: "hashfn \<Rightarrow> public_key \<Rightarrow> ledger \<Rightarrow> output_element \<Rightarrow> bool" where
  "held H pubkey A oe \<longleftrightarrow> leaf_in H A (OutputLeaf H oe False) \<and> element_address oe = PublicKey_Address H pubkey
     \<and> oe_MaturityHeight oe = 0"

definition sim_ok :: "hashfn \<Rightarrow> chain_sim \<Rightarrow> ledger \<Rightarrow> chain_index list \<Rightarrow> bool" where
  "sim_ok H cs A hs \<longleftrightarrow>
     state_repr H A hs (cm_State cs) \<and> cs_Index (cm_State cs) = BlockHeader_Index H (prev_header cs)
     \<and> length (cs_PrevTimestamps (cm_State cs)) = 11
     \<and> (\<forall>t\<in>set (cs_PrevTimestamps (cm_State cs)). t \<le> bh_Timestamp (prev_header cs))
     \<and> (\<forall>oe\<in>set (cm_outputs cs). held H (cm_pubkey cs) A oe) \<and> distinct (map leaf_of (cm_outputs cs))"

lemma held_not_ephemeral:
  assumes "acc_repr H A acc" "held H pubkey A (in_Parent inp)"
  shows "\<not> is_ephemeral inp"
proof -
  have "length A < 2 ^ 64" using assms(1) unfolding acc_repr_def by (rule represents_less)
  moreover have "unat (se_LeafIndex (oe_SE (in_Parent inp))) < length A"
    using assms(2) by (simp add: held_def leaf_in_def OutputLeaf_def)
  moreover have "unat EphemeralLeafIndex = 2 ^ 64 - 1"
    by (simp add: EphemeralLeafIndex_def unsigned_minus_1_eq_mask mask_eq_exp_minus_1)
  ultimately show ?thesis unfolding is_ephemeral_def by force
qed

lemma spendable_output: "acc_repr H A acc \<Longrightarrow> held H pubkey A oe \<Longrightarrow> ContainsUnspentOutputElement H acc oe"
  by (simp add: ContainsUnspentOutputElement_def held_def containsLeaf_complete)

text \<open>A transaction of held outputs that is signed and balances is valid.\<close>

lemma held_txn_valid:
  assumes acc: "acc_repr H A (cs_Elements s)" and held: "\<forall>oe\<in>set (map in_Parent (tx_Inputs txn)). held H pubkey A oe"
    and keys: "\<forall>pk\<in>set (map in_PublicKey (tx_Inputs txn)). pk = pubkey"
    and sigs: "\<forall>inp\<in>set (tx_Inputs txn). verify pubkey (InputSigHash H s txn) (in_Signature inp)"
    and outs: "\<forall>out\<in>set (tx_Outputs txn). 0 < cur_nat (out_Value out)"
    and sum: "value_sum (map element_value (map in_Parent (tx_Inputs txn))) = value_sum (map out_Value (tx_Outputs txn)) + cur_nat (tx_MinerFee txn)"
      "2 * value_sum (map element_value (map in_Parent (tx_Inputs txn))) < 2 ^ 128"
  shows "txn_valid H verify s txn"
proof -
  have "map in_value (tx_Inputs txn) = map element_value (map in_Parent (tx_Inputs txn))" by simp
  then have v: "value_sum (map in_value (tx_Inputs txn)) = value_sum (map out_Value (tx_Outputs txn)) + cur_nat (tx_MinerFee txn)"
    "2 * value_sum (map in_value (tx_Inputs txn)) < 2 ^ 128" using sum by (simp_all only:)
  then have "txn_total txn < 2 ^ 128" unfolding txn_total_def by linarith
  moreover have "ContainsUnspentOutputElement H (cs_Elements s) (in_Parent inp)
      \<and> oe_MaturityHeight (in_Parent inp) \<le> ci_Height (cs_Index s) + 1
      \<and> PublicKey_Address H (in_PublicKey inp) = out_Address (oe_Output (in_Parent inp))
      \<and> verify (in_PublicKey inp) (InputSigHash H s txn) (in_Signature inp)" if i: "inp \<in> set (tx_Inputs txn)" for inp
  proof -
    have h: "held H pubkey A (in_Parent inp)" and k: "in_PublicKey inp = pubkey" using i held keys by simp_all
    show ?thesis using spendable_output [OF acc h] h sigs i by (simp add: k held_def)
  qed
  ultimately show ?thesis using outs v(1) unfolding txn_valid_def by blast
qed

section \<open>The transactions of the simulation\<close>

lemma cur_nat_64 [simp]: "cur_nat (NewCurrency64 c) = unat c"
  by (simp add: cur_nat_def NewCurrency64_def)

lemma sum_values_total: "sum_values vs acc = Some t \<Longrightarrow> cur_nat t = cur_nat acc + value_sum vs"
  by (induction vs arbitrary: acc) (auto simp: value_sum_def Currency_Add_nat split: Option.bind_splits)

lemma send_on_valid:
  assumes acc: "acc_repr H A (cs_Elements (cm_State cs))" and oe: "held H (cm_pubkey cs) A oe" and keys: "keys_ok ed verify cs"
    and send: "send_on H ed cs oe = Some txn"
    and height: "unat (ci_Height (cs_Index (cm_State cs))) + 1 < 2 ^ 64"
    and v: "cur_nat (element_value oe) \<noteq> unat (ci_Height (cs_Index (cm_State cs))) + 1" "2 * cur_nat (element_value oe) < 2 ^ 128"
  shows "txn_valid H verify (cm_State cs) txn \<and> map in_Parent (tx_Inputs txn) = [oe]"
proof -
  let ?h = "ci_Height (cs_Index (cm_State cs))"
  obtain rem where rem: "Currency_Sub (element_value oe) (NewCurrency64 (?h + 1)) = Some rem"
    and signed: "sign_all H ed cs
       \<lparr>tx_Inputs = [\<lparr>in_Parent = oe, in_PublicKey = cm_pubkey cs, in_Signature = 0\<rparr>],
        tx_Outputs = [\<lparr>out_Value = rem, out_Address = PublicKey_Address H (cm_pubkey cs)\<rparr>,
                      \<lparr>out_Value = NewCurrency64 1, out_Address = fork_address (cm_nonce cs)\<rparr>],
        tx_MinerFee = NewCurrency64 ?h\<rparr> = Some txn"
    using send by (auto simp: send_on_def Let_def split: Option.bind_splits)
  have t: "map in_Parent (tx_Inputs txn) = [oe]" "map in_PublicKey (tx_Inputs txn) = [cm_pubkey cs]"
    "map (cur_nat \<circ> out_Value) (tx_Outputs txn) = [cur_nat rem, 1]" "cur_nat (tx_MinerFee txn) = unat ?h"
    "\<forall>inp\<in>set (tx_Inputs txn). verify (cm_pubkey cs) (InputSigHash H (cm_State cs) txn) (in_Signature inp)"
    using sign_all_spec [OF keys signed] by simp_all
  have h: "unat (?h + 1) = unat ?h + 1" using height unat_add_lem [of ?h 1] by simp
  then have d: "cur_nat (element_value oe) = cur_nat rem + (unat ?h + 1)"
    using rem by (simp add: Currency_Sub_nat)
  have p: "\<forall>out\<in>set (tx_Outputs txn). 0 < cur_nat (out_Value out)"
  proof
    fix out assume "out \<in> set (tx_Outputs txn)"
    then have "cur_nat (out_Value out) \<in> set (map (cur_nat \<circ> out_Value) (tx_Outputs txn))" by simp
    then show "0 < cur_nat (out_Value out)" unfolding t(3) using d v(1) by auto
  qed
  have "value_sum (map out_Value (tx_Outputs txn)) = cur_nat rem + 1"
    using t(3) by (simp add: value_sum_def comp_def)
  then have s: "value_sum (map element_value (map in_Parent (tx_Inputs txn)))
      = value_sum (map out_Value (tx_Outputs txn)) + cur_nat (tx_MinerFee txn)"
    "2 * value_sum (map element_value (map in_Parent (tx_Inputs txn))) < 2 ^ 128"
    using d v(2) by (simp_all add: t(1,4) value_sum_def)
  have c: "\<forall>oe\<in>set (map in_Parent (tx_Inputs txn)). held H (cm_pubkey cs) A oe"
    "\<forall>pk\<in>set (map in_PublicKey (tx_Inputs txn)). pk = cm_pubkey cs"
    unfolding t(1,2) by (simp_all add: oe)
  have "txn_valid H verify (cm_State cs) txn"
    by (rule held_txn_valid [where verify = verify and s = "cm_State cs", OF acc c t(5) p s])
  then show ?thesis using t(1) by simp
qed

lemma send_on_total:
  assumes keys: "keys_ok ed verify cs" and height: "unat (ci_Height (cs_Index (cm_State cs))) + 1 < 2 ^ 64"
    and v: "unat (ci_Height (cs_Index (cm_State cs))) + 1 \<le> cur_nat (element_value oe)"
  obtains txn where "send_on H ed cs oe = Some txn" "length (tx_Inputs txn) = 1" "length (tx_Outputs txn) = 2"
proof -
  let ?h = "ci_Height (cs_Index (cm_State cs))"
  have "unat (?h + 1) = unat ?h + 1" using height unat_add_lem [of ?h 1] by simp
  then obtain rem where rem: "Currency_Sub (element_value oe) (NewCurrency64 (?h + 1)) = Some rem"
    using v Currency_Sub_total [of "NewCurrency64 (?h + 1)" "element_value oe"] by auto
  let ?txn = "\<lparr>tx_Inputs = [\<lparr>in_Parent = oe, in_PublicKey = cm_pubkey cs, in_Signature = 0\<rparr>],
        tx_Outputs = [\<lparr>out_Value = rem, out_Address = PublicKey_Address H (cm_pubkey cs)\<rparr>,
                      \<lparr>out_Value = NewCurrency64 1, out_Address = fork_address (cm_nonce cs)\<rparr>],
        tx_MinerFee = NewCurrency64 ?h\<rparr>"
  obtain txn where txn: "sign_all H ed cs ?txn = Some txn" by (rule sign_all_total [OF keys])
  have "map in_Parent (tx_Inputs txn) = [oe]" "length (tx_Outputs txn) = 2" using sign_all_spec [OF keys txn] by simp_all
  then have "length (tx_Inputs txn) = 1" "length (tx_Outputs txn) = 2" by (auto dest: arg_cong [of _ _ length])
  then show ?thesis using txn by (intro that) (simp_all add: send_on_def rem)
qed

lemma select_inputs_spec:
  "select_inputs pubkey totalOut all outs totalIn inputs = Some (rest, t, inputs') \<Longrightarrow>
   \<exists>taken. inputs' = inputs @ map (\<lambda>oe. \<lparr>in_Parent = oe, in_PublicKey = pubkey, in_Signature = 0\<rparr>) taken
     \<and> cur_nat t = cur_nat totalIn + value_sum (map element_value taken)
     \<and> (outs = taken @ rest \<or> rest = all \<and> taken = outs \<and> (outs = [] \<or> cur_nat t < cur_nat totalOut))"
proof (induction pubkey totalOut all outs totalIn inputs rule: select_inputs.induct)
  case (1 pubkey totalOut all totalIn inputs)
  then show ?case by (simp add: value_sum_def)
next
  case (2 pubkey totalOut all out outs totalIn inputs)
  let ?inp = "\<lparr>in_Parent = out, in_PublicKey = pubkey, in_Signature = 0\<rparr>"
  obtain u where u: "Currency_Add totalIn (element_value out) = Some u"
    and r: "(if Currency_Cmp u totalOut \<ge> 0 then Some (outs, u, inputs @ [?inp])
       else select_inputs pubkey totalOut all outs u (inputs @ [?inp])) = Some (rest, t, inputs')"
    using "2.prems" by (auto simp: Let_def split: Option.bind_splits)
  have un: "cur_nat u = cur_nat totalIn + cur_nat (element_value out)" using u by (simp add: Currency_Add_nat)
  show ?case
  proof (cases "Currency_Cmp u totalOut \<ge> 0")
    case True
    then show ?thesis using r un by (intro exI [of _ "[out]"]) (auto simp: value_sum_def)
  next
    case False
    then have less: "cur_nat u < cur_nat totalOut" by (simp add: Currency_Cmp_nat split: if_splits)
    have rec: "select_inputs pubkey totalOut all outs u (inputs @ [?inp]) = Some (rest, t, inputs')" using r False by simp
    obtain taken where taken: "inputs' = (inputs @ [?inp]) @ map (\<lambda>oe. \<lparr>in_Parent = oe, in_PublicKey = pubkey, in_Signature = 0\<rparr>) taken"
      "cur_nat t = cur_nat u + value_sum (map element_value taken)"
      "outs = taken @ rest \<or> rest = all \<and> taken = outs \<and> (outs = [] \<or> cur_nat t < cur_nat totalOut)"
      using "2.IH" [OF refl u False rec] by blast
    have "cur_nat t < cur_nat totalOut" if "outs = []" "taken = outs" using taken(2) less that by (simp add: value_sum_def)
    then show ?thesis using taken un by (intro exI [of _ "out # taken"]) (auto simp: value_sum_def)
  qed
qed

lemma TxnWithOutputs_valid:
  assumes acc: "acc_repr H A (cs_Elements (cm_State cs))" and held: "\<forall>oe\<in>set (cm_outputs cs). held H (cm_pubkey cs) A oe"
    and keys: "keys_ok ed verify cs" and outs: "\<forall>out\<in>set outs. 0 < cur_nat (out_Value out)"
    and small: "2 * value_sum (map element_value (cm_outputs cs)) < 2 ^ 128"
    and txn: "ChainSim_TxnWithOutputs H ed cs outs = Some (cs', txn)"
  obtains taken rest where "cm_outputs cs = taken @ rest" "cs' = cs\<lparr>cm_outputs := rest\<rparr>" "map in_Parent (tx_Inputs txn) = taken"
    "txn_valid H verify (cm_State cs) txn"
proof -
  let ?h = "ci_Height (cs_Index (cm_State cs))"
  obtain totalOut rest totalIn inputs outs' where
    out: "sum_values (map out_Value outs) (NewCurrency64 ?h) = Some totalOut"
    and sel: "select_inputs (cm_pubkey cs) totalOut (cm_outputs cs) (cm_outputs cs) ZeroCurrency [] = Some (rest, totalIn, inputs)"
    and outs': "with_change H cs totalIn totalOut outs = Some outs'"
    and signed: "sign_all H ed cs \<lparr>tx_Inputs = inputs, tx_Outputs = outs', tx_MinerFee = NewCurrency64 ?h\<rparr> = Some txn"
    and cs': "cs' = cs\<lparr>cm_outputs := rest\<rparr>"
    using txn by (auto simp: ChainSim_TxnWithOutputs_def Let_def split: Option.bind_splits prod.splits)
  obtain taken where taken: "inputs = map (\<lambda>oe. \<lparr>in_Parent = oe, in_PublicKey = cm_pubkey cs, in_Signature = 0\<rparr>) taken"
    "cur_nat totalIn = value_sum (map element_value taken)"
    "cm_outputs cs = taken @ rest \<or> rest = cm_outputs cs \<and> taken = cm_outputs cs \<and> (cm_outputs cs = [] \<or> cur_nat totalIn < cur_nat totalOut)"
    using select_inputs_spec [OF sel] by (auto simp: cur_nat_def ZeroCurrency_def)
  have enough: "\<not> cur_nat totalIn < cur_nat totalOut" using outs' by (auto simp: with_change_def Currency_Cmp_nat split: if_splits)
  then have split: "cm_outputs cs = taken @ rest" using taken(3) by auto
  have part: "value_sum (map element_value taken) \<le> value_sum (map element_value (cm_outputs cs))"
    by (simp add: split value_sum_def)
  have t: "map in_Parent (tx_Inputs txn) = taken" "map in_PublicKey (tx_Inputs txn) = map (\<lambda>_. cm_pubkey cs) taken"
    "tx_Outputs txn = outs'" "tx_MinerFee txn = NewCurrency64 ?h"
    "\<forall>inp\<in>set (tx_Inputs txn). verify (cm_pubkey cs) (InputSigHash H (cm_State cs) txn) (in_Signature inp)"
    using sign_all_spec [OF keys signed] by (simp_all add: taken(1) comp_def)
  have to: "cur_nat totalOut = unat ?h + value_sum (map out_Value outs)" using sum_values_total [OF out] by simp
  have o: "(\<forall>out\<in>set outs'. 0 < cur_nat (out_Value out)) \<and> value_sum (map out_Value outs') + unat ?h = cur_nat totalIn"
    using outs' outs enough to by (auto simp: with_change_def Currency_Cmp_nat Currency_Sub_nat value_sum_def split: if_splits Option.bind_splits)
  then have p: "\<forall>out\<in>set (tx_Outputs txn). 0 < cur_nat (out_Value out)" by (simp add: t(3))
  have s: "value_sum (map element_value (map in_Parent (tx_Inputs txn)))
      = value_sum (map out_Value (tx_Outputs txn)) + cur_nat (tx_MinerFee txn)"
    "2 * value_sum (map element_value (map in_Parent (tx_Inputs txn))) < 2 ^ 128"
    unfolding t(1) using o taken(2) part small by (simp_all add: t(3,4))
  have c: "\<forall>oe\<in>set (map in_Parent (tx_Inputs txn)). held H (cm_pubkey cs) A oe"
    "\<forall>pk\<in>set (map in_PublicKey (tx_Inputs txn)). pk = cm_pubkey cs"
    unfolding t(1,2) using held by (simp_all add: split)
  have "txn_valid H verify (cm_State cs) txn"
    by (rule held_txn_valid [where verify = verify and s = "cm_State cs", OF acc c t(5) p s])
  then show ?thesis using that split cs' t(1) by blast
qed

section \<open>A mined block\<close>

lemma applyHeader_timestamps:
  assumes "applyHeader H s h = Some s'" "bh_Height h \<noteq> 0" "length (cs_PrevTimestamps s) = 11"
    "\<forall>t\<in>set (cs_PrevTimestamps s). t \<le> bh_Timestamp h"
  shows "length (cs_PrevTimestamps s') = 11 \<and> (\<forall>t\<in>set (cs_PrevTimestamps s'). t \<le> bh_Timestamp h)"
proof -
  let ?ts = "cs_PrevTimestamps s" and ?t = "bh_Timestamp h"
  let ?n = "numTimestamps s"
  have same: "numTimestamps (s\<lparr>cs_TotalWork := w\<rparr>) = ?n"
    "numTimestamps (s\<lparr>cs_TotalWork := w, cs_Difficulty := d, cs_LastAdjust := t\<rparr>) = ?n" for w d t
    by (simp_all add: numTimestamps_def)
  have n: "cs_PrevTimestamps s' = (if ?n < length ?ts then ?ts[?n := ?t] else tl ?ts @ [?t])"
    using assms(1,2) by (simp add: applyHeader_def Let_def same split: if_split_asm Option.bind_split_asm) auto
  have "set (?ts[?n := ?t]) \<subseteq> insert ?t (set ?ts)" by (rule set_update_subset_insert)
  moreover have "set (tl ?ts) \<subseteq> set ?ts" by (cases ?ts) auto
  ultimately show ?thesis using assms(3,4) by (auto simp: n)
qed

lemma median_exists:
  assumes "length (cs_PrevTimestamps s) = 11" "unat (ci_Height (cs_Index s)) + 1 < 2 ^ 64"
  shows "\<exists>m. medianTimestamp s = Some m"
proof -
  let ?ts = "sort (take (numTimestamps s) (cs_PrevTimestamps s))"
  have "unat (ci_Height (cs_Index s) + 1) = unat (ci_Height (cs_Index s)) + 1"
    using assms(2) unat_add_lem [of "ci_Height (cs_Index s)" 1] by simp
  then have "0 < numTimestamps s" unfolding numTimestamps_def assms(1) by (auto split: if_splits)
  then have n: "0 < length ?ts" using assms(1) by simp
  then have "length ?ts div 2 < length ?ts" "length ?ts div 2 - 1 < length ?ts" by linarith+
  then show ?thesis using n unfolding medianTimestamp_def Let_def at_def by simp
qed

lemma block_template_simps:
  "b_Transactions (block_template H cs txns) = txns"
  "bh_Height (b_Header (block_template H cs txns)) = bh_Height (prev_header cs) + 1"
  "bh_ParentID (b_Header (block_template H cs txns)) = BlockHeader_ID H (prev_header cs)"
  "bh_Timestamp (b_Header (block_template H cs txns)) = bh_Timestamp (prev_header cs) + 1000000000"
  "bh_MinerAddress (b_Header (block_template H cs txns)) = VoidAddress"
  "bh_Commitment (b_Header (block_template H cs txns)) = Commitment H (cm_State cs) VoidAddress txns"
  by (simp_all add: block_template_def Let_def)

text \<open>What \<open>MineBlockWithTxns\<close> has done when it returns.\<close>

lemma mined_parts:
  assumes "ChainSim_MineBlockWithTxns H cs txns = Some (cs', b)"
  obtains target n sau outputs where "HashRequiringWork (cs_Difficulty (cm_State cs)) = Some target"
    "BlockID_MeetsTarget (BlockHeader_ID H (b_Header b)) target"
    "b = (block_template H cs txns)\<lparr>b_Header := (b_Header (block_template H cs txns))\<lparr>bh_Nonce := n\<rparr>\<rparr>"
    "ApplyBlock H (cm_State cs) b = Some sau" "map_option_list (update_output H sau) (cm_outputs cs) = Some outputs"
    "cs' = cs\<lparr>cm_State := au_State sau, cm_Chain := cm_Chain cs @ [b],
              cm_outputs := outputs @ own_outputs H (cm_pubkey cs) (au_NewOutputElements sau)\<rparr>"
proof -
  let ?b = "block_template H cs txns"
  obtain target h sau outputs where r: "HashRequiringWork (cs_Difficulty (cm_State cs)) = Some target"
    "FindBlockNonce H (cm_State cs) (b_Header ?b) target = Some h" "b = ?b\<lparr>b_Header := h\<rparr>"
    "ApplyBlock H (cm_State cs) b = Some sau" "map_option_list (update_output H sau) (cm_outputs cs) = Some outputs"
    "cs' = cs\<lparr>cm_State := au_State sau, cm_Chain := cm_Chain cs @ [b],
              cm_outputs := outputs @ own_outputs H (cm_pubkey cs) (au_NewOutputElements sau)\<rparr>"
    using assms by (auto simp: ChainSim_MineBlockWithTxns_def Let_def split: Option.bind_splits)
  obtain n where "BlockID_MeetsTarget (BlockHeader_ID H h) target" "h = (b_Header ?b)\<lparr>bh_Nonce := n\<rparr>"
    using GrindNonce_result [OF FindBlockNonce_grinds [OF r(2)]] by blast
  then show ?thesis using r(3) by (intro that [OF r(1) _ _ r(4-6)]) simp_all
qed

text \<open>What a set of transactions must be for the block to be valid: they spend held outputs, each once.\<close>

definition spends_held :: "hashfn \<Rightarrow> verifier \<Rightarrow> chain_sim \<Rightarrow> ledger \<Rightarrow> transaction list \<Rightarrow> output_element list \<Rightarrow> bool" where
  "spends_held H verify cs A txns spent \<longleftrightarrow>
     (\<forall>txn\<in>set txns. txn_valid H verify (cm_State cs) txn) \<and> map in_Parent (concat (map tx_Inputs txns)) = spent
     \<and> (\<forall>oe\<in>set spent. held H (cm_pubkey cs) A oe) \<and> distinct (map leaf_of spent) \<and> distinct (map element_oid spent)
     \<and> leaf_of ` set spent \<inter> leaf_of ` set (cm_outputs cs) = {}"

lemma not_ephemeral_inputs:
  assumes "acc_repr H A acc" "spends_held H verify cs A txns spent" "inp \<in> set (concat (map tx_Inputs txns))"
  shows "\<not> is_ephemeral inp"
proof -
  have "in_Parent inp \<in> set (map in_Parent (concat (map tx_Inputs txns)))"
    unfolding set_map [of in_Parent] by (rule imageI [OF assms(3)])
  then have "in_Parent inp \<in> set spent" using assms(2) unfolding spends_held_def by metis
  then show ?thesis using held_not_ephemeral [OF assms(1)] assms(2) unfolding spends_held_def by blast
qed

lemma set_spends_held:
  assumes acc: "acc_repr H A acc" and sp: "spends_held H verify cs A txns spent"
    and w: "BlockWeight (cm_State cs) txns \<le> MaxBlockWeight (cm_State cs)"
  shows "ValidateTransactionSet H verify (cm_State cs) txns = valid"
proof -
  have "\<not> list_ex (\<lambda>txn. list_ex is_ephemeral (tx_Inputs txn)) txns"
    using not_ephemeral_inputs [OF acc sp] by (auto simp: list_ex_iff)
  then have "validateEphemeralOutputs H txns = valid" by (simp add: validateEphemeralOutputs_def)
  moreover have "concat (map parent_ids txns) = map element_oid (map in_Parent (concat (map tx_Inputs txns)))"
    by (simp add: parent_ids_def [abs_def] map_concat comp_def)
  then have "concat (map parent_ids txns) = map element_oid spent" using sp unfolding spends_held_def by metis
  then have "noDoubleSpends txns = valid" using sp by (simp add: noDoubleSpends_def doubleSpends_loop(1) spends_held_def)
  ultimately show ?thesis
    using w sp by (simp add: ValidateTransactionSet_def ValidateTransactions_loop_valid(1) not_less [symmetric] spends_held_def)
qed

lemma mined_valid:
  assumes ok: "sim_ok H cs A hs" and sp: "spends_held H verify cs A txns spent"
    and mine: "ChainSim_MineBlockWithTxns H cs txns = Some (cs', b)"
    and w: "BlockWeight (cm_State cs) txns \<le> MaxBlockWeight (cm_State cs)"
    and height: "unat (ci_Height (cs_Index (cm_State cs))) + 1 < 2 ^ 64" and nz: "BlockHeader_ID H (b_Header b) \<noteq> 0"
  shows "ValidateBlock H verify (cm_State cs) b = valid"
proof -
  let ?s = "cm_State cs"
  obtain target n where m: "HashRequiringWork (cs_Difficulty ?s) = Some target"
    "BlockID_MeetsTarget (BlockHeader_ID H (b_Header b)) target"
    "b = (block_template H cs txns)\<lparr>b_Header := (b_Header (block_template H cs txns))\<lparr>bh_Nonce := n\<rparr>\<rparr>"
    using mine by (rule mined_parts)
  have i: "cs_Index ?s = BlockHeader_Index H (prev_header cs)" "acc_repr H A (cs_Elements ?s)" "length (cs_PrevTimestamps ?s) = 11"
    "\<forall>t\<in>set (cs_PrevTimestamps ?s). t \<le> bh_Timestamp (prev_header cs)"
    using ok by (simp_all add: sim_ok_def state_repr_def)
  obtain t where t: "medianTimestamp ?s = Some t" using median_exists [OF i(3) height] by blast
  then have "t \<le> bh_Timestamp (prev_header cs)" using medianTimestamp_bounds [OF t] i(4) by fastforce
  then have "t \<le> bh_Timestamp (b_Header b)" by (simp add: m(3) block_template_simps)
  then have "validateHeader H ?s (b_Header b) = valid"
    by (subst mined_header_valid [OF m(1) nz _ _ t]) (simp_all add: m(2), simp_all add: m(3) block_template_simps i(1) BlockHeader_Index_def)
  then show ?thesis
    using set_spends_held [OF i(2) sp w] by (simp add: ValidateBlock_valid) (simp add: m(3) block_template_simps)
qed

section \<open>The state after a block\<close>

lemma created_outputs_mature: "oe \<in> set (created_outputs txid i outs) \<Longrightarrow> oe_MaturityHeight oe = 0"
  by (induction txid i outs rule: created_outputs.induct) auto

lemma new_elements_mature:
  assumes "oe \<in> set (new_elements H s b)" "element_address oe \<noteq> bh_MinerAddress (b_Header b)"
  shows "oe_MaturityHeight oe = 0"
  using assms created_outputs_mature BlockReward_nat [of s] by (auto simp: new_elements_def createdInBlock_def)

text \<open>The elements of a block without ephemeral inputs are unspent, with their proofs.\<close>

lemma placed_in_ledger:
  assumes eph: "ephemeral_spent b = []" and n: "length A + length (new_elements H s b) < 2 ^ 62"
    and oe: "oe \<in> set (placed_elements H s b A)"
  shows "leaf_in H (ledger_apply H s b A) (OutputLeaf H oe False) \<and> length A \<le> leaf_of oe
    \<and> (\<exists>e\<in>set (new_elements H s b). same_element oe e)"
proof -
  let ?B = "ledger_apply H s b A" and ?oes = "new_elements H s b"
  obtain j where j: "j < length ?oes" "oe = (?oes ! j)\<lparr>oe_SE := \<lparr>se_ID = element_oid (?oes ! j), se_LeafIndex = word_of_nat (length A + j),
                 se_MerkleProof = valid_proof H ?B (length A + j)\<rparr>\<rparr>"
    using oe by (auto simp: placed_elements_def Let_def simp del: of_nat_add)
  have u: "unat (word_of_nat (length A + j) :: u64) = length A + j" using j(1) n by (intro unat_of_nat64) simp
  have same: "same_element oe (?oes ! j)" by (simp add: j(2) same_element_def)
  then have "output_preimage oe = output_preimage (?oes ! j)" by (simp add: output_preimage_inj same_element_def)
  then have "?B ! (length A + j) = (H (output_preimage oe), False)"
    using j(1) by (simp add: ledger_apply_def nth_append created_leaves_def leaf_data_def OutputLeaf_def eph)
  moreover have "length ?B = length A + length ?oes" by (simp add: ledger_apply_def created_leaves_def)
  moreover have "leaf_of oe = length A + j" using u by (simp add: leaf_of_def j(2) del: of_nat_add)
  moreover have "se_MerkleProof (oe_SE oe) = valid_proof H ?B (length A + j)" by (simp add: j(2))
  ultimately show ?thesis using j(1) same nth_mem [OF j(1)]
    by (auto simp: leaf_in_def OutputLeaf_def leaf_data_def leaf_of_def)
qed

lemma placed_distinct:
  assumes "length A + length (new_elements H s b) < 2 ^ 62"
  shows "distinct (map leaf_of (placed_elements H s b A))"
proof -
  have "unat (word_of_nat (length A + j) :: u64) = length A + j" if "j < length (new_elements H s b)" for j
    using that assms by (intro unat_of_nat64) simp
  then have "map leaf_of (placed_elements H s b A) = map (\<lambda>j. length A + j) [0..<length (new_elements H s b)]"
    by (simp add: placed_elements_def Let_def leaf_of_def comp_def del: of_nat_add)
  then show ?thesis by (simp add: distinct_map)
qed

lemma own_placed_held:
  assumes "ephemeral_spent b = []" "length A + length (new_elements H s b) < 2 ^ 62"
    "bh_MinerAddress (b_Header b) \<noteq> PublicKey_Address H pk" "oe \<in> set (own_outputs H pk (placed_elements H s b A))"
  shows "held H pk (ledger_apply H s b A) oe \<and> length A \<le> leaf_of oe"
proof -
  have oe: "oe \<in> set (placed_elements H s b A)" "element_address oe = PublicKey_Address H pk"
    using assms(4) by (simp_all add: own_outputs_def)
  obtain e where e: "e \<in> set (new_elements H s b)" "same_element oe e"
    using placed_in_ledger [OF assms(1,2) oe(1)] by blast
  have "oe_MaturityHeight e = 0" using e oe(2) assms(3) by (intro new_elements_mature [OF e(1)]) (auto simp: same_element_def)
  then show ?thesis using placed_in_ledger [OF assms(1,2) oe(1)] oe(2) e(2) by (simp add: held_def same_element_def)
qed

lemma held_kept:
  assumes ok: "block_ok H A s b" and oe: "held H pk A oe" "leaf_of oe \<notin> leaf_of ` set (spent_parents b)"
  shows "held H pk (ledger_apply H s b A)
    (oe\<lparr>oe_SE := (oe_SE oe)\<lparr>se_MerkleProof := valid_proof H (ledger_apply H s b A) (leaf_of oe)\<rparr>\<rparr>)"
proof -
  let ?B = "ledger_apply H s b A"
  have l: "leaf_of oe < length A" "A ! leaf_of oe = (H (output_preimage oe), False)"
    using oe(1) by (simp_all add: held_def leaf_in_def OutputLeaf_def leaf_data_def leaf_of_def)
  then have i: "leaf_of oe < length A + length (new_elements H s b)" by simp
  have "?B ! leaf_of oe = (H (output_preimage oe), False)"
    using ledger_apply_nth [OF ok i] l oe(2) by (simp add: prod_eq_iff)
  moreover have "length A \<le> length ?B" by (simp add: ledger_apply_def)
  moreover have "output_preimage (oe\<lparr>oe_SE := (oe_SE oe)\<lparr>se_MerkleProof := p\<rparr>\<rparr>) = output_preimage oe" for p
    by (simp add: output_preimage_inj)
  ultimately show ?thesis
    using oe(1) l(1) by (simp add: held_def leaf_in_def OutputLeaf_def leaf_data_def leaf_of_def)
qed

lemma spends_block:
  assumes ok: "sim_ok H cs A hs" and sp: "spends_held H verify cs A txns spent"
    and b: "b = (block_template H cs txns)\<lparr>b_Header := (b_Header (block_template H cs txns))\<lparr>bh_Nonce := nonce\<rparr>\<rparr>"
  shows "ephemeral_spent b = [] \<and> spent_parents b = spent \<and> block_ok H A (cm_State cs) b"
proof -
  have i: "cs_Index (cm_State cs) = BlockHeader_Index H (prev_header cs)" "acc_repr H A (cs_Elements (cm_State cs))"
    using ok by (simp_all add: sim_ok_def state_repr_def)
  have h: "b_Transactions b = txns" "bh_Height (b_Header b) = bh_Height (prev_header cs) + 1"
    "bh_ParentID (b_Header b) = BlockHeader_ID H (prev_header cs)" by (simp_all add: b block_template_simps)
  have inputs: "\<forall>inp\<in>set (block_inputs b). \<not> is_ephemeral inp"
    using not_ephemeral_inputs [OF i(2) sp] by (simp add: block_inputs_def h(1))
  have parents: "spent_parents b = spent"
    using inputs sp by (simp add: spent_parents_def filter_True) (simp add: block_inputs_def h(1) spends_held_def)
  have idx: "map (\<lambda>oe. unat (se_LeafIndex (oe_SE oe))) spent = map leaf_of spent" by (simp add: leaf_of_def)
  have "block_ok H A (cm_State cs) b"
    using sp i(1) unfolding block_ok_def parents idx
    by (simp add: spends_held_def held_def h(2,3) BlockHeader_ParentIndex_def BlockHeader_Index_def)
  then show ?thesis using inputs parents by (simp add: ephemeral_spent_def filter_False)
qed

abbreviation reprove :: "hashfn \<Rightarrow> ledger \<Rightarrow> output_element \<Rightarrow> output_element" where
  "reprove H B oe \<equiv> oe\<lparr>oe_SE := (oe_SE oe)\<lparr>se_MerkleProof := valid_proof H B (leaf_of oe)\<rparr>\<rparr>"

lemma mined_timestamps:
  assumes ok: "sim_ok H cs A hs" and app: "ApplyBlock H (cm_State cs) b = Some sau"
    and b: "bh_Height (b_Header b) = bh_Height (prev_header cs) + 1" "bh_Timestamp (prev_header cs) \<le> bh_Timestamp (b_Header b)"
    and height: "unat (ci_Height (cs_Index (cm_State cs))) + 1 < 2 ^ 64"
  shows "length (cs_PrevTimestamps (au_State sau)) = 11 \<and> (\<forall>t\<in>set (cs_PrevTimestamps (au_State sau)). t \<le> bh_Timestamp (b_Header b))"
proof -
  let ?s = "cm_State cs"
  have i: "ci_Height (cs_Index ?s) = bh_Height (prev_header cs)" "length (cs_PrevTimestamps ?s) = 11"
    "\<forall>t\<in>set (cs_PrevTimestamps ?s). t \<le> bh_Timestamp (prev_header cs)"
    using ok by (simp_all add: sim_ok_def BlockHeader_Index_def)
  obtain acc hist where a: "applyHeader H (?s\<lparr>cs_Elements := acc, cs_History := hist\<rparr>) (b_Header b) = Some (au_State sau)"
    using app by (rule ApplyBlock_header)
  have "bh_Height (b_Header b) \<noteq> 0" using height unat_add_lem [of "ci_Height (cs_Index ?s)" 1] by (auto simp: b(1) i(1))
  moreover have "\<forall>t\<in>set (cs_PrevTimestamps ?s). t \<le> bh_Timestamp (b_Header b)" using i(3) b(2) by fastforce
  ultimately show ?thesis using applyHeader_timestamps [OF a] i(2) by simp
qed

lemma mined_outputs:
  assumes ok: "sim_ok H cs A hs" and sp: "spends_held H verify cs A txns (spent_parents b)" and bok: "block_ok H A (cm_State cs) b"
    and b: "ephemeral_spent b = []" "bh_MinerAddress (b_Header b) \<noteq> PublicKey_Address H (cm_pubkey cs)"
    and n: "length A + length (new_elements H (cm_State cs) b) < 2 ^ 62"
    and outs: "outs = map (reprove H (ledger_apply H (cm_State cs) b A)) (cm_outputs cs)
      @ own_outputs H (cm_pubkey cs) (placed_elements H (cm_State cs) b A)"
  shows "(\<forall>oe\<in>set outs. held H (cm_pubkey cs) (ledger_apply H (cm_State cs) b A) oe) \<and> distinct (map leaf_of outs)"
proof -
  let ?B = "ledger_apply H (cm_State cs) b A" and ?new = "own_outputs H (cm_pubkey cs) (placed_elements H (cm_State cs) b A)"
  have i: "\<forall>oe\<in>set (cm_outputs cs). held H (cm_pubkey cs) A oe" "distinct (map leaf_of (cm_outputs cs))"
    using ok by (simp_all add: sim_ok_def)
  have apart: "leaf_of oe \<notin> leaf_of ` set (spent_parents b)" if "oe \<in> set (cm_outputs cs)" for oe
    using sp that by (auto simp: spends_held_def)
  note new = own_placed_held [OF b(1) n b(2)]
  have "\<forall>oe\<in>set outs. held H (cm_pubkey cs) ?B oe" using held_kept [OF bok _ apart] i(1) new by (auto simp: outs)
  moreover have "distinct (map leaf_of outs)"
  proof -
    have up: "map leaf_of (map (reprove H ?B) (cm_outputs cs)) = map leaf_of (cm_outputs cs)" by (simp add: leaf_of_def)
    have "leaf_of oe < length A" if "oe \<in> set (cm_outputs cs)" for oe
      using i(1) that by (simp add: held_def leaf_in_def OutputLeaf_def leaf_of_def)
    then have "leaf_of ` set (cm_outputs cs) \<inter> leaf_of ` set ?new = {}" using new by fastforce
    moreover have "distinct (map leaf_of ?new)"
      unfolding own_outputs_def by (rule distinct_map_filter [OF placed_distinct [OF n]])
    ultimately show ?thesis using i(2) unfolding outs map_append up by simp
  qed
  ultimately show ?thesis by blast
qed

lemma mined_state:
  assumes ok: "sim_ok H cs A hs" and sp: "spends_held H verify cs A txns spent"
    and mine: "ChainSim_MineBlockWithTxns H cs txns = Some (cs', b)"
    and height: "unat (ci_Height (cs_Index (cm_State cs))) + 1 < 2 ^ 64"
    and n: "length A + length (new_elements H (cm_State cs) b) < 2 ^ 62" "length hs < 2 ^ 62"
    and own: "PublicKey_Address H (cm_pubkey cs) \<noteq> VoidAddress"
  shows "sim_ok H cs' (ledger_apply H (cm_State cs) b A) (hs @ [Block_Index H b])
    \<and> cs_Index (cm_State cs') = Block_Index H b \<and> cm_Chain cs' = cm_Chain cs @ [b] \<and> b_Transactions b = txns
    \<and> cm_pubkey cs' = cm_pubkey cs \<and> cm_privkey cs' = cm_privkey cs"
proof -
  let ?s = "cm_State cs" and ?B = "ledger_apply H (cm_State cs) b A"
  obtain target nonce sau outputs where m: "HashRequiringWork (cs_Difficulty ?s) = Some target"
    "BlockID_MeetsTarget (BlockHeader_ID H (b_Header b)) target"
    "b = (block_template H cs txns)\<lparr>b_Header := (b_Header (block_template H cs txns))\<lparr>bh_Nonce := nonce\<rparr>\<rparr>"
    "ApplyBlock H ?s b = Some sau" "map_option_list (update_output H sau) (cm_outputs cs) = Some outputs"
    "cs' = cs\<lparr>cm_State := au_State sau, cm_Chain := cm_Chain cs @ [b],
              cm_outputs := outputs @ own_outputs H (cm_pubkey cs) (au_NewOutputElements sau)\<rparr>"
    using mine by (rule mined_parts)
  have h: "b_Transactions b = txns" "bh_Height (b_Header b) = bh_Height (prev_header cs) + 1"
    "bh_Timestamp (prev_header cs) \<le> bh_Timestamp (b_Header b)" "bh_MinerAddress (b_Header b) \<noteq> PublicKey_Address H (cm_pubkey cs)"
    using own by (simp_all add: m(3) block_template_simps)
  have blk: "ephemeral_spent b = []" "spent_parents b = spent" "block_ok H A ?s b" using spends_block [OF ok sp m(3)] by blast+
  have "state_repr H A hs ?s" using ok by (simp add: sim_ok_def)
  from ApplyBlock_refines [OF this blk(3) n] have u: "state_repr H ?B (hs @ [Block_Index H b]) (au_State sau)"
    "cs_Index (au_State sau) = Block_Index H b" "au_NewOutputElements sau = placed_elements H ?s b A"
    "\<And>e. element_in H A e \<Longrightarrow> ElementApplyUpdate_UpdateElementProof H (au_Element sau) e =
          Some (e\<lparr>se_MerkleProof := valid_proof H ?B (unat (se_LeafIndex e))\<rparr>)" using m(4) by auto
  have "map_option_list (update_output H sau) (cm_outputs cs) = Some (map (reprove H ?B) (cm_outputs cs))"
  proof (rule map_option_list_Some)
    fix oe assume "oe \<in> set (cm_outputs cs)"
    then have "element_in H A (oe_SE oe)" using ok by (simp add: sim_ok_def held_def leaf_in_def OutputLeaf_def element_in_def)
    then show "update_output H sau oe = Some (reprove H ?B oe)" by (simp add: update_output_def u(4) leaf_of_def)
  qed
  then have "cm_outputs cs' = map (reprove H ?B) (cm_outputs cs) @ own_outputs H (cm_pubkey cs) (placed_elements H ?s b A)"
    using m(5) by (simp add: m(6) u(3))
  from mined_outputs [OF ok sp [folded blk(2)] blk(3,1) h(4) n(1) this]
  have "(\<forall>oe\<in>set (cm_outputs cs'). held H (cm_pubkey cs) ?B oe) \<and> distinct (map leaf_of (cm_outputs cs'))" .
  then show ?thesis using u(1,2) mined_timestamps [OF ok m(4) h(2,3) height] h(1)
    by (simp add: sim_ok_def m(6) prev_header_def Block_Index_def)
qed

text \<open>With a nonce found, nothing stops \<open>MineBlockWithTxns\<close>.\<close>

lemma length_new_elements: "length (new_elements H s b) = Suc (length (concat (map tx_Outputs (b_Transactions b))))"
proof -
  have "length (created_outputs txid i outs) = length outs" for txid i outs
    by (induction txid i outs rule: created_outputs.induct) simp_all
  then show ?thesis using BlockReward_nat [of s] by (auto simp: new_elements_def createdInBlock_def length_concat comp_def)
qed

lemma MineBlockWithTxns_total:
  assumes ok: "sim_ok H cs A hs" and sp: "spends_held H verify cs A txns spent"
    and target: "HashRequiringWork (cs_Difficulty (cm_State cs)) = Some target"
    and h: "FindBlockNonce H (cm_State cs) (b_Header (block_template H cs txns)) target = Some h"
    and n: "length A + Suc (length (concat (map tx_Outputs txns))) < 2 ^ 62" "length hs < 2 ^ 62"
  shows "\<exists>cs'. ChainSim_MineBlockWithTxns H cs txns = Some (cs', (block_template H cs txns)\<lparr>b_Header := h\<rparr>)"
proof -
  let ?b = "(block_template H cs txns)\<lparr>b_Header := h\<rparr>"
  obtain nonce where "h = (b_Header (block_template H cs txns))\<lparr>bh_Nonce := nonce\<rparr>"
    using GrindNonce_result [OF FindBlockNonce_grinds [OF h]] by blast
  then have "block_ok H A (cm_State cs) ?b" using spends_block [OF ok sp] by blast
  moreover have "state_repr H A hs (cm_State cs)" using ok by (simp add: sim_ok_def)
  moreover have "length A + length (new_elements H (cm_State cs) ?b) < 2 ^ 62"
    using n(1) by (simp add: length_new_elements block_template_simps)
  ultimately obtain sau where sau: "ApplyBlock H (cm_State cs) ?b = Some sau"
    "\<And>e. element_in H A e \<Longrightarrow> ElementApplyUpdate_UpdateElementProof H (au_Element sau) e =
          Some (e\<lparr>se_MerkleProof := valid_proof H (ledger_apply H (cm_State cs) ?b A) (unat (se_LeafIndex e))\<rparr>)"
    using ApplyBlock_refines n(2) by blast
  have "map_option_list (update_output H sau) (cm_outputs cs)
      = Some (map (reprove H (ledger_apply H (cm_State cs) ?b A)) (cm_outputs cs))"
  proof (rule map_option_list_Some)
    fix oe assume "oe \<in> set (cm_outputs cs)"
    then have "element_in H A (oe_SE oe)" using ok by (simp add: sim_ok_def held_def leaf_in_def OutputLeaf_def element_in_def)
    then show "update_output H sau oe = Some (reprove H (ledger_apply H (cm_State cs) ?b A) oe)"
      by (simp add: update_output_def sau(2) leaf_of_def)
  qed
  then show ?thesis using sau(1) by (simp add: ChainSim_MineBlockWithTxns_def Let_def target h)
qed

end
