(* ===== verification/Sim_Properties.thy ===== *)
theory Sim_Properties
  imports Chain_Sim Wallet_Properties
begin

text \<open>
  What internal/chainutil/chainutil.go promises: the simulated chains are valid, whatever is mined on them and however
  they are forked.
\<close>

section \<open>The first state\<close>

lemma created_outputs_ids:
  "map element_oid (created_outputs txid i outs) = map (\<lambda>j. \<lparr>ei_Source = txid, ei_Index = i + word_of_nat j\<rparr>) [0..<length outs]"
proof (induction txid i outs rule: created_outputs.induct)
  case (2 txid index out outs)
  have "[0..<length (out # outs)] = 0 # map Suc [0..<length outs]" by (simp add: map_Suc_upt upt_conv_Cons del: upt_Suc)
  then show ?case using 2 by (simp add: comp_def add.assoc del: upt_Suc)
qed simp

lemma own_placed_same:
  "map element_oid (own_outputs H pk (placed_elements H s b A)) = map element_oid (own_outputs H pk (new_elements H s b))"
  "map oe_Output (own_outputs H pk (placed_elements H s b A)) = map oe_Output (own_outputs H pk (new_elements H s b))"
proof -
  let ?f = "\<lambda>oe. (element_oid oe, oe_Output oe)"
  have same: "map ?f (placed_elements H s b A) = map ?f (new_elements H s b)"
    by (rule nth_equalityI) (simp_all add: placed_elements_def Let_def)
  have "map ?f (own_outputs H pk oes) = filter (\<lambda>x. out_Address (snd x) = PublicKey_Address H pk) (map ?f oes)" for oes
    by (simp add: own_outputs_def filter_map comp_def)
  then have "map ?f (own_outputs H pk (placed_elements H s b A)) = map ?f (own_outputs H pk (new_elements H s b))"
    by (simp only: same)
  then have "map fst (map ?f (own_outputs H pk (placed_elements H s b A))) = map fst (map ?f (own_outputs H pk (new_elements H s b)))"
    "map snd (map ?f (own_outputs H pk (placed_elements H s b A))) = map snd (map ?f (own_outputs H pk (new_elements H s b)))"
    by (simp_all only:)
  then show "map element_oid (own_outputs H pk (placed_elements H s b A)) = map element_oid (own_outputs H pk (new_elements H s b))"
    "map oe_Output (own_outputs H pk (placed_elements H s b A)) = map oe_Output (own_outputs H pk (new_elements H s b))"
    by (simp_all add: comp_def)
qed

lemma created_outputs_outputs: "map oe_Output (created_outputs txid i outs) = outs"
  by (induction txid i outs rule: created_outputs.induct) simp_all

definition sim_base :: chain_state where
  "sim_base = genesis_state (time_Unix 734600000) \<lparr>NumHashes = 4\<rparr>"

lemma sim_gift_total: "i < 10 \<Longrightarrow> \<exists>out. sim_gift addr i = Some out \<and> out_Address out = addr \<and> cur_nat (out_Value out) = 10000000000 * (i + 1)"
proof -
  assume i: "i < 10"
  have "unat (10 * word_of_nat (i + 1) :: u64) = 10 * (i + 1)"
    using i unat_of_nat64 [of "10 * (i + 1)"] by simp
  moreover have "cur_nat BaseUnitsPerCoin = 1000000000" by (simp add: BaseUnitsPerCoin_def)
  ultimately show ?thesis
    using i Currency_Mul64_total [of BaseUnitsPerCoin "10 * word_of_nat (i + 1)"] by (auto simp: sim_gift_def)
qed

lemma sim_gifts:
  assumes "map_option_list (sim_gift addr) [0..<10] = Some gift"
  shows "length gift = 10 \<and> (\<forall>out\<in>set gift. out_Address out = addr)
    \<and> map (cur_nat \<circ> out_Value) gift = map (\<lambda>i. 10000000000 * (i + 1)) [0..<10]"
proof -
  have g: "list_all2 (\<lambda>i out. sim_gift addr i = Some out) [0..<10] gift" by (rule map_option_list_all2 [OF assms])
  then have len: "length gift = 10" using list_all2_lengthD by fastforce
  have v: "out_Address (gift ! i) = addr \<and> cur_nat (out_Value (gift ! i)) = 10000000000 * (i + 1)" if "i < 10" for i
    using list_all2_nthD [OF g, of i] that sim_gift_total [OF that, of addr] by auto
  then have "\<forall>out\<in>set gift. out_Address out = addr" by (auto simp: set_conv_nth len)
  moreover have "map (cur_nat \<circ> out_Value) gift = map (\<lambda>i. 10000000000 * (i + 1)) [0..<10]"
    by (rule nth_equalityI) (simp_all add: len v)
  ultimately show ?thesis using len by blast
qed

lemma sim_genesis_simps [simp]:
  "b_Transactions (sim_genesis gift) = [\<lparr>tx_Inputs = [], tx_Outputs = gift, tx_MinerFee = ZeroCurrency\<rparr>]"
  "bh_Height (b_Header (sim_genesis gift)) = 0" "bh_Timestamp (b_Header (sim_genesis gift)) = time_Unix 734600000"
  "bh_MinerAddress (b_Header (sim_genesis gift)) = VoidAddress"
  "block_inputs (sim_genesis gift) = []" "spent_parents (sim_genesis gift) = []" "ephemeral_spent (sim_genesis gift) = []"
  by (simp_all add: sim_genesis_def block_inputs_def spent_parents_def ephemeral_spent_def)

lemma sim_genesis_elements:
  "\<exists>txid e. new_elements H s (sim_genesis gift) = e # created_outputs txid 0 gift \<and> element_address e = VoidAddress"
proof -
  obtain c where c: "BlockReward s = Some c" using BlockReward_nat [of s] by blast
  show ?thesis
    by (rule exI [of _ "Transaction_ID H \<lparr>tx_Inputs = [], tx_Outputs = gift, tx_MinerFee = ZeroCurrency\<rparr>"])
      (simp add: new_elements_def createdInBlock_def c)
qed

lemma sim_base_repr: "state_repr H [] [] sim_base"
  by (simp add: state_repr_def sim_base_def genesis_state_def acc_repr_empty history_repr_empty)

text \<open>The genesis block is applied without panic.\<close>

lemma sim_genesis_applies:
  assumes gift: "length gift = 10"
  obtains au where "GenesisUpdate H (sim_genesis gift) \<lparr>NumHashes = 4\<rparr> = Some au"
    "state_repr H (ledger_apply H sim_base (sim_genesis gift) []) [Block_Index H (sim_genesis gift)] (au_State au)"
    "cs_Index (au_State au) = Block_Index H (sim_genesis gift)" "au_NewOutputElements au = placed_elements H sim_base (sim_genesis gift) []"
    "length (cs_PrevTimestamps (au_State au)) = 11" "\<forall>t\<in>set (cs_PrevTimestamps (au_State au)). t \<le> time_Unix 734600000"
    "cs_Difficulty (au_State au) = \<lparr>NumHashes = 4\<rparr>"
proof -
  let ?g = "sim_genesis gift"
  have len: "length (created_outputs txid i gift) = length gift" for txid i
    using created_outputs_ids [of txid i gift] by (metis length_map length_upt minus_nat.diff_0)
  have n: "length ([] :: ledger) + length (new_elements H sim_base ?g) < 2 ^ 62"
    using sim_genesis_elements [of H sim_base gift] by (auto simp: len gift)
  have idx: "cs_Index sim_base = \<lparr>ci_Height = 0, ci_ID = 0\<rparr>" by (simp add: sim_base_def genesis_state_def)
  obtain au where au: "ApplyBlock H sim_base ?g = Some au"
    "state_repr H (ledger_apply H sim_base ?g []) [Block_Index H ?g] (au_State au)" "cs_Index (au_State au) = Block_Index H ?g"
    "au_NewOutputElements au = placed_elements H sim_base ?g []"
    using ApplyBlock_unspent [OF sim_base_repr, where b = ?g, OF _ _ _ n] by (auto simp: idx)
  have "GenesisUpdate H ?g \<lparr>NumHashes = 4\<rparr> = Some au" using au(1) by (simp add: GenesisUpdate_def sim_base_def)
  moreover obtain acc hist where "applyHeader H (sim_base\<lparr>cs_Elements := acc, cs_History := hist\<rparr>) (b_Header ?g) = Some (au_State au)"
    using au(1) by (rule ApplyBlock_header)
  then have d: "cs_PrevTimestamps (au_State au) = (cs_PrevTimestamps sim_base)[0 := time_Unix 734600000]"
    "cs_Difficulty (au_State au) = cs_Difficulty sim_base"
    by (auto simp: applyHeader_def dest: arg_cong [of _ _ cs_PrevTimestamps] arg_cong [of _ _ cs_Difficulty])
  then have ts: "cs_PrevTimestamps (au_State au) = time_Unix 734600000 # replicate 10 zero_time"
    by (simp add: sim_base_def genesis_state_def numeral_eq_Suc)
  have "zero_time \<le> time_Unix 734600000" by (simp add: time_Unix_def zero_time_def unix_to_internal_def)
  then show ?thesis using that [OF calculation au(2-4)] d(2) by (simp add: ts sim_base_def genesis_state_def)
qed

text \<open>The simulation starts with the gift.\<close>

lemma gift_outputs:
  fixes H pubkey gift
  defines "g \<equiv> sim_genesis gift"
  defines "outs \<equiv> own_outputs H pubkey (placed_elements H sim_base (sim_genesis gift) [])"
  assumes gift: "length gift = 10" "\<forall>out\<in>set gift. out_Address out = PublicKey_Address H pubkey"
    and own: "PublicKey_Address H pubkey \<noteq> VoidAddress"
  shows "(\<forall>oe\<in>set outs. held H pubkey (ledger_apply H sim_base g []) oe) \<and> distinct (map leaf_of outs)
    \<and> distinct (map element_oid outs) \<and> map oe_Output outs = gift \<and> length (ledger_apply H sim_base g []) = 11"
proof -
  obtain txid e where e: "new_elements H sim_base g = e # created_outputs txid 0 gift" "element_address e = VoidAddress"
    using sim_genesis_elements unfolding g_def by blast
  have len: "length (new_elements H sim_base g) = 11" by (simp add: length_new_elements g_def gift(1))
  then have n: "length ([] :: ledger) + length (new_elements H sim_base g) < 2 ^ 62" by simp
  have "\<forall>oe\<in>set outs. held H pubkey (ledger_apply H sim_base g []) oe"
    using own_placed_held [of g "[]" H sim_base pubkey] n own by (simp add: outs_def g_def)
  moreover have "distinct (map leaf_of outs)"
    using placed_distinct [OF n] by (simp add: outs_def g_def own_outputs_def distinct_map_filter)
  moreover have "distinct (map element_oid outs)"
  proof -
    have "inj_on (\<lambda>j. word_of_nat j :: u64) {0..<10}"
      by (rule inj_onI) (simp add: word_of_nat_eq_iff take_bit_nat_eq_self)
    then have "distinct (map element_oid (created_outputs txid 0 gift))"
      by (simp add: created_outputs_ids gift(1) distinct_map inj_on_def)
    then show ?thesis
      using own_placed_same(1) [of H pubkey sim_base g "[]"] own e
      by (simp add: outs_def g_def own_outputs_def distinct_map_filter)
  qed
  moreover have "length (ledger_apply H sim_base g []) = 11" by (simp add: ledger_apply_def created_leaves_def len)
  moreover have "map oe_Output (own_outputs H pubkey (new_elements H sim_base g))
      = filter (\<lambda>out. out_Address out = PublicKey_Address H pubkey) (map oe_Output (new_elements H sim_base g))"
    by (simp add: own_outputs_def filter_map comp_def)
  then have "map oe_Output outs = gift"
    using own e(2) gift(2) by (simp add: e(1) created_outputs_outputs outs_def own_placed_same(2) flip: g_def)
  ultimately show ?thesis by blast
qed

lemma new_sim:
  assumes "NewChainSim H priv = Some cs" "PublicKey_Address H (cm_pubkey cs) \<noteq> VoidAddress"
  shows "sim_ok H cs (ledger_apply H sim_base (cp_Block (cm_Genesis cs)) []) [Block_Index H (cp_Block (cm_Genesis cs))]
    \<and> distinct (map element_oid (cm_outputs cs)) \<and> PrivateKey_PublicKey priv = Some (cm_pubkey cs) \<and> cm_privkey cs = priv
    \<and> map (cur_nat \<circ> element_value) (cm_outputs cs) = map (\<lambda>i. 10000000000 * (i + 1)) [0..<10]
    \<and> ci_Height (cs_Index (cm_State cs)) = 0 \<and> cs_Difficulty (cm_State cs) = \<lparr>NumHashes = 4\<rparr>
    \<and> length (ledger_apply H sim_base (cp_Block (cm_Genesis cs)) []) = 11"
proof -
  obtain pubkey gift au where r: "PrivateKey_PublicKey priv = Some pubkey"
    "map_option_list (sim_gift (PublicKey_Address H pubkey)) [0..<10] = Some gift"
    "GenesisUpdate H (sim_genesis gift) \<lparr>NumHashes = 4\<rparr> = Some au"
    "cs = \<lparr>cm_Genesis = \<lparr>cp_Block = sim_genesis gift, cp_State = au_State au\<rparr>, cm_Chain = [], cm_State = au_State au,
           cm_nonce = 0, cm_pubkey = pubkey, cm_privkey = priv, cm_outputs = own_outputs H pubkey (au_NewOutputElements au)\<rparr>"
    using assms(1) unfolding NewChainSim_def by (auto split: Option.bind_splits)
  let ?g = "sim_genesis gift" and ?B = "ledger_apply H sim_base (sim_genesis gift) []"
  have gift: "length gift = 10" "\<forall>out\<in>set gift. out_Address out = PublicKey_Address H pubkey"
    "map (cur_nat \<circ> out_Value) gift = map (\<lambda>i. 10000000000 * (i + 1)) [0..<10]" using sim_gifts [OF r(2)] by blast+
  have own: "PublicKey_Address H pubkey \<noteq> VoidAddress" using assms(2) by (simp add: r(4))
  have u: "state_repr H ?B [Block_Index H ?g] (au_State au)" "cs_Index (au_State au) = Block_Index H ?g"
    "au_NewOutputElements au = placed_elements H sim_base ?g []" "length (cs_PrevTimestamps (au_State au)) = 11"
    "\<forall>t\<in>set (cs_PrevTimestamps (au_State au)). t \<le> time_Unix 734600000" "cs_Difficulty (au_State au) = \<lparr>NumHashes = 4\<rparr>"
    using sim_genesis_applies [OF gift(1), of H] r(3) by (metis option.inject)+
  have o: "(\<forall>oe\<in>set (cm_outputs cs). held H pubkey ?B oe) \<and> distinct (map leaf_of (cm_outputs cs))
    \<and> distinct (map element_oid (cm_outputs cs)) \<and> map oe_Output (cm_outputs cs) = gift \<and> length ?B = 11"
    using gift_outputs [OF gift(1,2) own] by (simp add: r(4) u(3))
  then have "map (cur_nat \<circ> out_Value) (map oe_Output (cm_outputs cs)) = map (\<lambda>i. 10000000000 * (i + 1)) [0..<10]"
    using gift(3) by (simp only:)
  then have "map (cur_nat \<circ> element_value) (cm_outputs cs) = map (\<lambda>i. 10000000000 * (i + 1)) [0..<10]" by (simp add: comp_def)
  then show ?thesis
    using r(1) u o by (simp add: sim_ok_def prev_header_def Block_Index_def BlockHeader_Index_def r(4))
qed

section \<open>Runs\<close>

text \<open>Without outputs given, an empty block; else one that pays them.\<close>

definition sim_mine :: "hashfn \<Rightarrow> ed25519 \<Rightarrow> chain_sim \<Rightarrow> txn_output list option \<Rightarrow> (chain_sim \<times> block) option" where
  "sim_mine H ed cs act =
     (case act of None \<Rightarrow> ChainSim_MineBlock H ed cs | Some outs \<Rightarrow> ChainSim_MineBlockWithOutputs H ed cs outs)"

text \<open>
  The limits: no output is worth exactly the fee and the unit that \<open>MineBlock\<close> takes from it (the rest would be an
  output without value), the outputs that are asked for have a value, and sums, weights, heights and leaves fit.
\<close>

definition sim_fits :: "hashfn \<Rightarrow> chain_sim \<Rightarrow> ledger \<Rightarrow> chain_index list \<Rightarrow> txn_output list option \<Rightarrow> block \<Rightarrow> bool" where
  "sim_fits H cs A hs act b \<longleftrightarrow>
     (case act of
        None \<Rightarrow> \<forall>oe\<in>set (cm_outputs cs). cur_nat (element_value oe) \<noteq> unat (ci_Height (cs_Index (cm_State cs))) + 1
      | Some outs \<Rightarrow> \<forall>out\<in>set outs. 0 < cur_nat (out_Value out))
     \<and> 2 * value_sum (map element_value (cm_outputs cs)) < 2 ^ 128
     \<and> unat (ci_Height (cs_Index (cm_State cs))) + 1 < 2 ^ 64
     \<and> BlockWeight (cm_State cs) (b_Transactions b) \<le> MaxBlockWeight (cm_State cs)
     \<and> length A + length (new_elements H (cm_State cs) b) < 2 ^ 62 \<and> length hs < 2 ^ 62"

text \<open>
  A simulation with the private key of a seed is created, mines blocks, and is forked. The outputs it holds have
  different IDs, as only a collision of the hash prevents.
\<close>

inductive sim_run :: "hashfn \<Rightarrow> ed25519 \<Rightarrow> chain_sim \<Rightarrow> ledger \<Rightarrow> chain_index list \<Rightarrow> bool" for H ed where
  new: "NewChainSim H (ed_NewKeyFromSeed ed entropy) = Some cs \<Longrightarrow> length entropy = 32 \<Longrightarrow>
    PublicKey_Address H (cm_pubkey cs) \<noteq> VoidAddress \<Longrightarrow>
    sim_run H ed cs (ledger_apply H sim_base (cp_Block (cm_Genesis cs)) []) [Block_Index H (cp_Block (cm_Genesis cs))]"
| mine: "sim_run H ed cs A hs \<Longrightarrow> sim_mine H ed cs act = Some (cs', b) \<Longrightarrow> sim_fits H cs A hs act b \<Longrightarrow>
    distinct (map element_oid (cm_outputs cs')) \<Longrightarrow>
    sim_run H ed cs' (ledger_apply H (cm_State cs) b A) (hs @ [Block_Index H b])"
| origin: "sim_run H ed cs A hs \<Longrightarrow> sim_run H ed (fst (ChainSim_Fork cs)) A hs"
| fork: "sim_run H ed cs A hs \<Longrightarrow> sim_run H ed (snd (ChainSim_Fork cs)) A hs"

definition sim_inv :: "hashfn \<Rightarrow> ed25519 \<Rightarrow> verifier \<Rightarrow> chain_sim \<Rightarrow> ledger \<Rightarrow> chain_index list \<Rightarrow> bool" where
  "sim_inv H ed verify cs A hs \<longleftrightarrow> sim_ok H cs A hs \<and> keys_ok ed verify cs \<and> distinct (map element_oid (cm_outputs cs))
     \<and> PublicKey_Address H (cm_pubkey cs) \<noteq> VoidAddress"

lemma seed_keys_ok:
  assumes "ed_ok ed verify" "length entropy = 32" "cm_privkey cs = ed_NewKeyFromSeed ed entropy"
    "PrivateKey_PublicKey (cm_privkey cs) = Some (cm_pubkey cs)"
  shows "keys_ok ed verify cs"
proof -
  let ?priv = "ed_NewKeyFromSeed ed entropy"
  have k: "length ?priv = 64" "\<And>h :: hash256. length (ed_Sign ed ?priv (array_bytes 32 h)) = 64"
    "\<And>h. verify (array_word (drop 32 ?priv)) h (array_word (ed_Sign ed ?priv (array_bytes 32 h)))"
    using assms(1,2) by (simp_all add: ed_ok_def)
  have "cm_pubkey cs = array_word (drop 32 ?priv)"
    using assms(4) by (simp add: assms(3) PrivateKey_PublicKey_def k(1) go_copy_full)
  then show ?thesis using k by (simp add: keys_ok_def PrivateKey_SignHash_def assms(3) go_copy_full)
qed

lemma list_all2_mono_set:
  "(\<And>x y. x \<in> set xs \<Longrightarrow> P x y \<Longrightarrow> Q x y) \<Longrightarrow> list_all2 P xs ys \<Longrightarrow> list_all2 Q xs ys"
  by (auto simp: list_all2_conv_all_nth)

lemma sends_parents:
  assumes "list_all2 (\<lambda>oe txn. txn_valid H verify s txn \<and> map in_Parent (tx_Inputs txn) = [oe]) oes txns"
  shows "(\<forall>txn\<in>set txns. txn_valid H verify s txn) \<and> map in_Parent (concat (map tx_Inputs txns)) = oes"
  using assms by (induction oes txns rule: list_all2_induct) auto

text \<open>What \<open>MineBlock\<close> sends on is held, and sent on once.\<close>

lemma sends_spend:
  assumes ok: "sim_inv H ed verify cs A hs" and txns: "map_option_list (send_on H ed cs) (cm_outputs cs) = Some txns"
    and v: "\<forall>oe\<in>set (cm_outputs cs). cur_nat (element_value oe) \<noteq> unat (ci_Height (cs_Index (cm_State cs))) + 1"
    and small: "2 * value_sum (map element_value (cm_outputs cs)) < 2 ^ 128"
    and height: "unat (ci_Height (cs_Index (cm_State cs))) + 1 < 2 ^ 64"
  shows "sim_ok H (cs\<lparr>cm_outputs := []\<rparr>) A hs \<and> spends_held H verify (cs\<lparr>cm_outputs := []\<rparr>) A txns (cm_outputs cs)"
proof -
  have acc: "acc_repr H A (cs_Elements (cm_State cs))" and held: "\<forall>oe\<in>set (cm_outputs cs). held H (cm_pubkey cs) A oe"
    and keys: "keys_ok ed verify cs" using ok by (simp_all add: sim_inv_def sim_ok_def state_repr_def)
  have "txn_valid H verify (cm_State cs) txn \<and> map in_Parent (tx_Inputs txn) = [oe]"
    if "oe \<in> set (cm_outputs cs)" "send_on H ed cs oe = Some txn" for oe txn
  proof (rule send_on_valid [OF acc bspec [OF held that(1)] keys that(2) height bspec [OF v that(1)]])
    have "cur_nat (element_value oe) \<le> value_sum (map element_value (cm_outputs cs))"
      unfolding value_sum_def by (rule member_le_sum_list) (use that(1) in auto)
    then show "2 * cur_nat (element_value oe) < 2 ^ 128" using small by linarith
  qed
  then have "list_all2 (\<lambda>oe txn. txn_valid H verify (cm_State cs) txn \<and> map in_Parent (tx_Inputs txn) = [oe]) (cm_outputs cs) txns"
    using map_option_list_all2 [OF txns(1)] by (rule list_all2_mono_set)
  from sends_parents [OF this] show ?thesis using ok by (simp add: sim_inv_def sim_ok_def spends_held_def)
qed

text \<open>Either way of mining spends held outputs, each once, and keeps the others.\<close>

lemma sim_mine_spends:
  assumes ok: "sim_inv H ed verify cs A hs" and mine: "sim_mine H ed cs act = Some (cs', b)" and fits: "sim_fits H cs A hs act b"
  obtains txns taken rest where "ChainSim_MineBlockWithTxns H (cs\<lparr>cm_outputs := rest\<rparr>) txns = Some (cs', b)"
    "sim_ok H (cs\<lparr>cm_outputs := rest\<rparr>) A hs" "spends_held H verify (cs\<lparr>cm_outputs := rest\<rparr>) A txns taken"
proof -
  have acc: "acc_repr H A (cs_Elements (cm_State cs))" and held: "\<forall>oe\<in>set (cm_outputs cs). held H (cm_pubkey cs) A oe"
    and d: "distinct (map leaf_of (cm_outputs cs))" "distinct (map element_oid (cm_outputs cs))"
    and keys: "keys_ok ed verify cs" and s: "sim_ok H cs A hs"
    using ok by (simp_all add: sim_inv_def sim_ok_def state_repr_def)
  have small: "2 * value_sum (map element_value (cm_outputs cs)) < 2 ^ 128" using fits by (simp add: sim_fits_def)
  have part: "sim_ok H (cs\<lparr>cm_outputs := rest\<rparr>) A hs" "spends_held H verify (cs\<lparr>cm_outputs := rest\<rparr>) A txns taken"
    if "cm_outputs cs = taken @ rest" "\<forall>txn\<in>set txns. txn_valid H verify (cm_State cs) txn"
      "map in_Parent (concat (map tx_Inputs txns)) = taken" for txns taken rest
    using s held d that by (simp_all add: sim_ok_def spends_held_def)
  show ?thesis
  proof (cases act)
    case None
    obtain txns where txns: "map_option_list (send_on H ed cs) (cm_outputs cs) = Some txns"
      "ChainSim_MineBlockWithTxns H (cs\<lparr>cm_outputs := []\<rparr>) txns = Some (cs', b)"
      using mine None by (auto simp: sim_mine_def ChainSim_MineBlock_def split: Option.bind_splits)
    have "\<forall>oe\<in>set (cm_outputs cs). cur_nat (element_value oe) \<noteq> unat (ci_Height (cs_Index (cm_State cs))) + 1"
      "unat (ci_Height (cs_Index (cm_State cs))) + 1 < 2 ^ 64" using fits None by (simp_all add: sim_fits_def)
    then show ?thesis using that [OF txns(2)] sends_spend [OF ok txns(1) _ small] by blast
  next
    case (Some outs)
    then obtain cs0 txn where txn: "ChainSim_TxnWithOutputs H ed cs outs = Some (cs0, txn)"
      "ChainSim_MineBlockWithTxns H cs0 [txn] = Some (cs', b)"
      using mine by (auto simp: sim_mine_def ChainSim_MineBlockWithOutputs_def split: Option.bind_splits prod.splits)
    have "\<forall>out\<in>set outs. 0 < cur_nat (out_Value out)" using fits Some by (simp add: sim_fits_def)
    then obtain taken rest where "cm_outputs cs = taken @ rest" "cs0 = cs\<lparr>cm_outputs := rest\<rparr>" "map in_Parent (tx_Inputs txn) = taken"
      "txn_valid H verify (cm_State cs) txn" using TxnWithOutputs_valid [OF acc held keys _ small txn(1)] by blast
    then show ?thesis using that [of rest "[txn]" taken] part [of taken rest "[txn]"] txn(2) by simp
  qed
qed

lemma sim_mine_ok:
  assumes ok: "sim_inv H ed verify cs A hs" and mine: "sim_mine H ed cs act = Some (cs', b)" and fits: "sim_fits H cs A hs act b"
  shows "sim_ok H cs' (ledger_apply H (cm_State cs) b A) (hs @ [Block_Index H b]) \<and> cs_Index (cm_State cs') = Block_Index H b
    \<and> cm_Chain cs' = cm_Chain cs @ [b] \<and> cm_pubkey cs' = cm_pubkey cs \<and> cm_privkey cs' = cm_privkey cs
    \<and> (BlockHeader_ID H (b_Header b) \<noteq> 0 \<longrightarrow> ValidateBlock H verify (cm_State cs) b = valid)"
proof -
  obtain txns taken rest where t: "ChainSim_MineBlockWithTxns H (cs\<lparr>cm_outputs := rest\<rparr>) txns = Some (cs', b)"
    "sim_ok H (cs\<lparr>cm_outputs := rest\<rparr>) A hs" "spends_held H verify (cs\<lparr>cm_outputs := rest\<rparr>) A txns taken"
    using sim_mine_spends [OF assms] by blast
  let ?cs = "cs\<lparr>cm_outputs := rest\<rparr>"
  have l: "unat (ci_Height (cs_Index (cm_State ?cs))) + 1 < 2 ^ 64" "length A + length (new_elements H (cm_State ?cs) b) < 2 ^ 62"
    "length hs < 2 ^ 62" "PublicKey_Address H (cm_pubkey ?cs) \<noteq> VoidAddress"
    using fits ok by (simp_all add: sim_fits_def sim_inv_def)
  note m = mined_state [OF t(2,3,1) l]
  have "BlockWeight (cm_State ?cs) txns \<le> MaxBlockWeight (cm_State ?cs)" using fits m by (simp add: sim_fits_def)
  then show ?thesis using m mined_valid [OF t(2,3,1) _ l(1)] by simp
qed

lemma sim_run_ok:
  assumes "ed_ok ed verify" "sim_run H ed cs A hs"
  shows "sim_inv H ed verify cs A hs"
  using assms(2)
proof induction
  case (new entropy cs)
  note n = new_sim [OF new(1,3)]
  then have "keys_ok ed verify cs" by (intro seed_keys_ok [OF assms(1) new(2)]) simp_all
  then show ?case using n new(3) by (simp add: sim_inv_def)
next
  case (mine cs A hs act cs' b)
  then show ?case using sim_mine_ok [OF mine.IH mine.hyps(2,3)] by (simp add: sim_inv_def keys_ok_def)
qed (simp_all add: sim_inv_def ChainSim_Fork_def sim_ok_def keys_ok_def)

section \<open>Properties\<close>


text \<open>A new simulation, and its first block.\<close>

lemma sample_meets: "HashRequiringWork \<lparr>NumHashes = 4\<rparr> = Some t \<Longrightarrow> BlockID_MeetsTarget (sample_hash x) t"
proof -
  assume "HashRequiringWork \<lparr>NumHashes = 4\<rparr> = Some t"
  then have t: "t = word_of_nat (inv256 4)" by (simp add: HashRequiringWork_eq split: if_splits)
  have "inv256 4 = 2 ^ 254" by (simp add: inv256_def)
  then have "unat t = 2 ^ 254" unfolding t by (simp add: unat_of_nat256)
  moreover have "unat (sample_hash x) < 2 ^ 40" using sample_key_less [of x] by (simp add: unat_sample_hash)
  moreover have "(2 :: nat) ^ 40 \<le> 2 ^ 254" by (rule power_increasing) simp_all
  ultimately show ?thesis unfolding BlockID_MeetsTarget_def word_le_nat_alt by linarith
qed

lemma NewChainSim_total:
  assumes "PrivateKey_PublicKey priv = Some pk"
  shows "\<exists>cs. NewChainSim H priv = Some cs \<and> cm_pubkey cs = pk"
proof -
  let ?a = "PublicKey_Address H pk"
  have gift: "map_option_list (sim_gift ?a) [0..<10] = Some (map (\<lambda>i. the (sim_gift ?a i)) [0..<10])"
  proof (rule map_option_list_Some)
    fix i :: nat assume "i \<in> set [0..<10]"
    then show "sim_gift ?a i = Some (the (sim_gift ?a i))" using sim_gift_total [of i ?a] by fastforce
  qed
  have len: "length (map (\<lambda>i. the (sim_gift ?a i)) [0..<10]) = 10" by simp
  obtain au where "GenesisUpdate H (sim_genesis (map (\<lambda>i. the (sim_gift ?a i)) [0..<10])) \<lparr>NumHashes = 4\<rparr> = Some au"
    by (rule sim_genesis_applies [OF len])
  then show ?thesis using assms gift by (simp add: NewChainSim_def)
qed

lemma sample_sim:
  obtains cs where "NewChainSim sample_hash (ed_NewKeyFromSeed sample_ed (replicate 32 0)) = Some cs"
    "PublicKey_Address sample_hash (cm_pubkey cs) \<noteq> VoidAddress"
proof -
  have "PrivateKey_PublicKey (ed_NewKeyFromSeed sample_ed (replicate 32 0)) = Some 4"
    by (simp add: PrivateKey_PublicKey_def sample_ed_def go_copy_full array_word_bytes)
  from NewChainSim_total [OF this, of sample_hash] show ?thesis
    using that wallet_not_void by (auto simp: wallet_address_def)
qed

lemma BlockWeight_sends:
  assumes "\<forall>txn\<in>set txns. length (tx_Inputs txn) = 1 \<and> length (tx_Outputs txn) = 2"
  shows "BlockWeight s txns = 6 * word_of_nat (length txns)"
proof -
  have "BlockWeight_loop s txns w = w + 6 * word_of_nat (length txns)" for w
    using assms by (induction txns arbitrary: w) (simp_all add: TransactionWeight_def distrib_left add.assoc)
  then show ?thesis by (simp add: BlockWeight_def)
qed

text \<open>When every output pays for its transaction and a nonce is found, \<open>MineBlock\<close> returns a block.\<close>

lemma MineBlock_total:
  assumes ok: "sim_inv H ed verify cs A hs"
    and v: "\<forall>oe\<in>set (cm_outputs cs). unat (ci_Height (cs_Index (cm_State cs))) + 2 \<le> cur_nat (element_value oe)"
    and small: "2 * value_sum (map element_value (cm_outputs cs)) < 2 ^ 128"
    and height: "unat (ci_Height (cs_Index (cm_State cs))) + 1 < 2 ^ 64"
    and target: "HashRequiringWork (cs_Difficulty (cm_State cs)) = Some target"
    and nonce: "\<And>h. \<exists>h'. FindBlockNonce H (cm_State cs) h target = Some h'"
    and n: "length A + Suc (2 * length (cm_outputs cs)) < 2 ^ 62" "length hs < 2 ^ 62"
  obtains cs' b where "ChainSim_MineBlock H ed cs = Some (cs', b)" "length (b_Transactions b) = length (cm_outputs cs)"
    "BlockWeight (cm_State cs) (b_Transactions b) = 6 * word_of_nat (length (cm_outputs cs))"
    "length (new_elements H (cm_State cs) b) = Suc (2 * length (cm_outputs cs))"
proof -
  have keys: "keys_ok ed verify cs" using ok by (simp add: sim_inv_def)
  have "\<exists>txn. send_on H ed cs oe = Some txn \<and> length (tx_Inputs txn) = 1 \<and> length (tx_Outputs txn) = 2"
    if "oe \<in> set (cm_outputs cs)" for oe
    by (rule send_on_total [OF keys height, of oe H]) (use v that in auto)
  then obtain f where f: "\<And>oe. oe \<in> set (cm_outputs cs) \<Longrightarrow> send_on H ed cs oe = Some (f oe)
      \<and> length (tx_Inputs (f oe)) = 1 \<and> length (tx_Outputs (f oe)) = 2" by metis
  let ?txns = "map f (cm_outputs cs)" and ?cs = "cs\<lparr>cm_outputs := []\<rparr>"
  have txns: "map_option_list (send_on H ed cs) (cm_outputs cs) = Some ?txns" by (rule map_option_list_Some) (simp add: f)
  have sp: "sim_ok H ?cs A hs" "spends_held H verify ?cs A ?txns (cm_outputs cs)"
    using sends_spend [OF ok txns _ small height] v by fastforce+
  have "map (length \<circ> tx_Outputs) ?txns = replicate (length (cm_outputs cs)) 2" by (rule nth_equalityI) (simp_all add: f)
  then have created: "length (concat (map tx_Outputs ?txns)) = 2 * length (cm_outputs cs)"
    by (simp add: length_concat comp_assoc sum_list_replicate)
  obtain h where h: "FindBlockNonce H (cm_State ?cs) (b_Header (block_template H ?cs ?txns)) target = Some h" using nonce by auto
  let ?b = "(block_template H ?cs ?txns)\<lparr>b_Header := h\<rparr>"
  have "length A + Suc (length (concat (map tx_Outputs ?txns))) < 2 ^ 62" using n(1) unfolding created .
  then obtain cs' where mined: "ChainSim_MineBlockWithTxns H ?cs ?txns = Some (cs', ?b)"
    using MineBlockWithTxns_total [OF sp _ h _ n(2)] target by auto
  show ?thesis
  proof (rule that)
    show "ChainSim_MineBlock H ed cs = Some (cs', ?b)" using mined by (simp add: ChainSim_MineBlock_def txns)
    show "BlockWeight (cm_State cs) (b_Transactions ?b) = 6 * word_of_nat (length (cm_outputs cs))"
      using BlockWeight_sends [of ?txns "cm_State cs"] f by (simp add: block_template_simps)
    show "length (new_elements H (cm_State cs) ?b) = Suc (2 * length (cm_outputs cs))"
      using created by (simp add: length_new_elements block_template_simps)
  qed (simp add: block_template_simps)
qed


end
