(* ===== verification/Spec2Isabelle.thy ===== *)
theory Spec2Isabelle
  imports Data_Properties Manager_Sync Wallet_Properties P2P_Blocks Flat_Properties Sim_Properties
begin

text \<open>
  Sunyata is a minimal proof-of-work blockchain. Its state is a Merkle accumulator of all outputs ever created, so a
  node keeps a few hashes instead of a set of unspent outputs, and whoever wants to spend an output brings the proof
  that it is in the accumulator and unspent. This library models the Go program under src/ and proves what its parts
  promise. Every definition is translated from the source and named after it (\<open>Type_Method\<close> for the method of a
  type); PROJECT.json maps each of them to its lines.

  The parts and how they interact. A block is decoded (encoding.go), its header is checked against the header chain it
  extends (consensus/scratch.go) and the block against the consensus state (consensus/validation.go); it is applied
  to the state (consensus/update.go over merkle/accumulator.go), which gives a new state and an update. The chain
  manager (chain/manager.go) keeps the header chains, chooses the best valid one, stores checkpoints (a block with the
  state after it) in a store, and tells its subscribers of every block that it applies or reverts. The subscribers
  (transaction pool, miner, wallet) use the update to keep the proofs of the elements they hold up to date. The syncer
  (p2p/) exchanges headers, blocks, transactions and checkpoints with peers and gives them to the manager and the pool.

  What stands for the things of Go. A panic, a loop that does not end and a recursion that does not end are \<open>None\<close> of an
  option type, so a function without an option type cannot do either. An error is \<open>Inl\<close> of a sum type, of a datatype
  with one constructor for each error the code tells apart. A uint64 is a 64-bit word that wraps around; arrays of bytes
  are words (hashes: 256 bits) and slices are lists; an index out of range is a panic. A struct is a record, a value of an
  interface the record of its methods. Methods with a pointer receiver return the receiver they leave. A map is an
  association list or a partial function; where Go leaves the order of an iteration open, the order is an argument.
  Times are nanoseconds since 1970.

  The theories, from the bottom up.

  Data. Prelude: machine types, math/bits, lemmas on words and lists. Currency and Currency_Text: currency.go, amounts of
  128 bits and their exact decimal text; every operation is exact or panics, exactly on overflow. Codec: the
  stream layer of encoding.go, the buffered encoder over any writer and the limited decoder with its sticky error.
  Types and Encoding: sunyata.go and encoding.go, the data of the chain with \<open>EncodeTo\<close>, \<open>DecodeFrom\<close> and the derived
  identifiers; every type's encoding is prefix-free and read back. Work: 256-bit work, its limb arithmetic and its
  conversion to and from hashes (amounts and work are ordered, instances of linorder). Text_Forms: the text and JSON forms. Data_Properties: the properties of all these.

  Accumulators. Merkle_Tree is the specification: forests of perfect hash trees over a list of leaves. Accumulator holds
  the operations of merkle/accumulator.go; Accumulator_Add and Accumulator_Update prove \<open>addLeaves\<close> and \<open>updateLeaves\<close>
  against the forest, Accumulator_Elements and Accumulator_History the two accumulators against the list of all
  elements (the ledger, with a spent flag for each leaf) and the list of all indices: membership, proofs, updates.
  Multiproof, Multiproof_Trees, Multiproof_Total and Compressed_Block: merkle/multiproof.go, the one proof for all inputs
  of a block, its expansion, which ends on any input, and the form of blocks on the wire.

  Consensus. Consensus_State, Consensus_Validation and Consensus_Update: consensus/state.go, validation.go and update.go.
  Validation is characterised by \<open>txn_valid\<close>; \<open>ApplyBlock_refines\<close> and \<open>RevertBlock_refines\<close> say what a block does to the
  ledger and to every proof. Consensus_Properties joins them: valid blocks apply, nothing is spent twice, reverting
  restores. Scratch: consensus/scratch.go, header chains validated ahead of their blocks.

  Chain. Chain_Store: the interface \<open>ManagerStore\<close> with its contract and the in-memory store of
  internal/chainutil/store.go. Flat_Store and Flat_Properties: the store in four files, a refinement of the one in memory,
  across flushes, crashes and restarts. Manager, Manager_Paths and Manager_Sync: chain/manager.go in full;
  Manager_Invariant proves its invariant for any reliable store and any following subscribers, and Manager_Properties
  on the in-memory store with pools. Chain_Sim and Sim_Properties: internal/chainutil/chainutil.go, the simulated chains
  that the tests mine; they are valid.

  Subscribers. Txpool: txpool/txpool.go. Miner: miner/miner.go. Wallet: wallet/wallet.go, Wallet_Store:
  internal/walletutil/store.go; Wallet_Invariant proves what a wallet holds after any chain, Wallet_Properties that its
  payments are valid.

  Network. P2P_Messages: p2p/messages.go, messages and their framing. P2P_Peer and P2P_Calls: p2p/peer.go, a peer as a
  state machine and what becomes of its calls. P2P_Syncer: the answers, relaying and the request loop of p2p/syncer.go,
  and p2p/checkpoint.go; P2P_Service: what they promise. P2P_Download: one request from call to return over the bytes
  of the connection. P2P_Sync and P2P_Blocks: \<open>syncToTarget\<close> and the parallel download of blocks as a state machine over
  the answers. P2P_Node: request loop and sync loop on one manager, in any order.

  Interfaces. \<open>io_writer\<close> (Codec; a buffer), \<open>codec\<close> (Codec; every encoded type), \<open>text_form\<close> (Text_Forms; every type
  with a text or JSON form), \<open>chain_store\<close> and \<open>reliable_store\<close> (Chain_Store; the in-memory store), \<open>element_updater\<close>
  (Txpool; the updates of an applied and of a reverted block), \<open>follower\<close> (Manager_Invariant; pool and miner),
  \<open>managed\<close>, which joins a store and its followers (Manager_Properties), and \<open>wallet_contract\<close> (Wallet; the
  in-memory wallet). The lemmas of a client are proved once in the locale and used through these interpretations.

  Loops. Structural recursion where the loop runs over a list; \<open>function\<close> with a measure for the binary searches,
  buffers, digits, splitting and grouping; the dependencies of the miner take fuel, one more than the number of pooled
  transactions, which \<open>txnsForBlock_sound\<close> shows to be enough. Loops that follow what a store, a peer or a hash
  function answers are \<open>partial_function (option)\<close>: \<open>reorgTo\<close>, \<open>reorgPath\<close>, \<open>History\<close>, the walks of the multiproof, the recovery
  of the file store and the searches for a nonce. The properties say when they end: always for the first three on
  a store that keeps its contract, for the multiproof on any bytes from the network, for the recovery after a
  flush. A search for a nonce need not end, and the properties of mining are about blocks that were found.

  Bounds. Fewer than \<open>2^62\<close> leaves and blocks, so that leaf numbers and heights do not wrap around; files below \<open>2^63\<close>
  bytes, Go's offsets; fewer than \<open>2^64 - 2\<close> calls of one peer, for their IDs to be unique; at most 128 blocks in one
  download for it to end: with more, the program panics (\<open>long_chain_panics\<close>).

  Hypotheses. The hash function \<open>H\<close> is a parameter. Where a property needs it not to collide, it is assumed to be
  injective on an explicit finite list of what was hashed, never in general. Ed25519 is a parameter; \<open>ed_ok\<close> says that
  what a derived key signs verifies. A call reads the clock once. Methods that hold a mutex for their whole body are
  atomic. Writers and system calls succeed unless a definition says otherwise; the network delivers arbitrary
  bytes. The proofs of different inputs do not overlap in memory. Each of these has a witness, most of them on a small hash
  function that tells the inputs at hand apart (\<open>sample_hash\<close> of Types).

  Not modelled. cmd/main.go: flags, the terminal and the wiring of the parts above, which have no logic of their own.
  The rounded texts of Currency (\<open>String\<close>, \<open>Format\<close>, \<open>ParseCurrency\<close>) go through math/big and fmt, the JSON form
  of the accumulator through encoding/json. \<open>NewSeed\<close> and \<open>GeneratePrivateKey\<close> draw random bytes; the miner's hash rate
  is a float of the wall clock. Sockets, dialling, deadlines, full channels (which only delay) and the scheduling of
  goroutines inside a read or write of a connection: what arrives in between is arbitrary instead.
\<close>

end
